(* ===== verification/Prelude.thy ===== *)
theory Prelude
  imports Main "HOL-Library.Word" "HOL-Library.Multiset" "HOL-Library.Monad_Syntax"
begin

text \<open>
  Shared ground of the development: the machine types of the 32-bit kernel, the \<open>ASSERT\<close>
  macro of \<^verbatim>\<open>lib/debug.h\<close> in the option monad, the rounding macros of \<^verbatim>\<open>lib/round.h\<close>,
  and the lemmas on options, lists and intervals that several components use.

  Conventions. A function of type \<open>'a option\<close> that models a C function returns \<open>None\<close>
  when the kernel stops: a failed \<open>ASSERT\<close>, a \<open>PANIC\<close>, or a memory access outside
  the object it addresses. Ordinary failure results of the C code (a null pointer, \<open>false\<close>,
  \<open>-1\<close>) are values inside the \<open>Some\<close>.
\<close>

unbundle bit_operations_syntax

section \<open>Machine types\<close>

type_synonym byte = "8 word"
type_synonym u32 = "32 word"
type_synonym u64 = "64 word"

text \<open>The collections of the development: rules that unfold the monadic plumbing, and
  introduction rules for well-formedness predicates.\<close>

named_theorems monad_simps
named_theorems wf_rules

section \<open>Definitions\<close>

text \<open>\<open>size_t\<close> and \<open>unsigned\<close> arithmetic: a value is a natural number below \<open>2 ^ 32\<close>
  and a result is reduced.\<close>

definition SIZE_MAX :: nat where
  "SIZE_MAX = 4294967295"

definition usz :: "nat \<Rightarrow> nat" where
  "usz n = n mod (SIZE_MAX + 1)"

text \<open>\<open>ASSERT (CONDITION)\<close> stops the kernel when the condition is false.\<close>

definition kassert :: "bool \<Rightarrow> unit option" where
  "kassert b = (if b then Some () else None)"

text \<open>The macros \<open>ROUND_UP\<close>, \<open>DIV_ROUND_UP\<close> and \<open>ROUND_DOWN\<close>, in \<open>size_t\<close>
  arithmetic.\<close>

definition ROUND_UP :: "nat \<Rightarrow> nat \<Rightarrow> nat" where
  "ROUND_UP x step = usz (usz (x + step - 1) div step * step)"

definition DIV_ROUND_UP :: "nat \<Rightarrow> nat \<Rightarrow> nat" where
  "DIV_ROUND_UP x step = usz (x + step - 1) div step"

definition ROUND_DOWN :: "nat \<Rightarrow> nat \<Rightarrow> nat" where
  "ROUND_DOWN x step = x div step * step"

section \<open>The option monad and assertions\<close>

lemma kassert_simps [simp, monad_simps]:
  "kassert True = Some ()" "kassert False = None"
  by (simp_all add: kassert_def)

lemma kassert_bind [monad_simps]:
  "(kassert b \<bind> f) = (if b then f () else None)"
  by (simp add: kassert_def)

lemma kassert_Some_iff [simp]: "kassert b = Some u \<longleftrightarrow> b"
  by (simp add: kassert_def)

lemma bind_Some_iff [monad_simps]:
  "(m \<bind> f) = Some y \<longleftrightarrow> (\<exists>x. m = Some x \<and> f x = Some y)"
  by (rule bind_eq_Some_conv)

section \<open>size\_t arithmetic\<close>

lemma usz_less [simp]: "usz n < 4294967296"
  by (simp add: usz_def SIZE_MAX_def)

lemma usz_id: "n < 4294967296 \<Longrightarrow> usz n = n"
  by (simp add: usz_def SIZE_MAX_def)

lemma usz_wrap: "4294967296 \<le> n \<Longrightarrow> n < 8589934592 \<Longrightarrow> usz n = n - 4294967296"
  by (simp add: usz_def SIZE_MAX_def mod_if)

lemma usz_le [simp]: "usz n \<le> n"
  by (simp add: usz_def)

section \<open>Lists and intervals\<close>

lemma list_update_same_map:
  "i < n \<Longrightarrow> (map f [0..<n])[i := v] = map (f(i := v)) [0..<n]"
  by (rule nth_equalityI) (auto simp: nth_list_update)

lemma all_interval_offset: "(\<forall>i < n. P (s + i)) \<longleftrightarrow> (\<forall>j. s \<le> j \<and> j < s + n \<longrightarrow> P (j::nat))"
proof
  assume L: "\<forall>i < n. P (s + i)"
  show "\<forall>j. s \<le> j \<and> j < s + n \<longrightarrow> P j"
  proof (intro allI impI)
    fix j assume "s \<le> j \<and> j < s + n"
    then have "j - s < n" and "s + (j - s) = j" by auto
    with L show "P j" by metis
  qed
qed auto

text \<open>The four bytes of a number.\<close>

lemma nat_base_256:
  "n mod 256 + 256 * (n div 256 mod 256) + 65536 * (n div 65536 mod 256)
     + 16777216 * (n div 16777216) = (n :: nat)"
proof -
  have "n div 65536 = n div 256 div 256" "n div 16777216 = n div 65536 div 256"
    using div_mult2_eq [of n 256 256] div_mult2_eq [of n 65536 256] by simp_all
  then show ?thesis
    using mod_mult_div_eq [of n 256] mod_mult_div_eq [of "n div 256" 256]
      mod_mult_div_eq [of "n div 65536" 256] by linarith
qed

end
