(* ===== verification/Kstring.thy ===== *)
theory Kstring
  imports Prelude
begin

text \<open>
  The string and block routines of \<^verbatim>\<open>lib/string.c\<close>. An object in memory is the list of its
  bytes. A pointer that a routine only reads through is the rest of its object from that address
  on; a pointer written through is the object and an index. An access past the end of the object
  gives \<open>None\<close>. A pointer result is the offset from the argument, inside an option whose
  \<open>None\<close> is the null pointer. The loops are the C loops, one step per iteration.

  \<open>cstr s xs\<close> says that \<open>xs\<close> starts with the C string \<open>s\<close>: its bytes, none of them zero, and
  then the terminator. Against it every routine is shown to compute what its comment says.
\<close>

section \<open>Memory access\<close>

definition load :: "byte list \<Rightarrow> nat \<Rightarrow> byte option" where
  "load xs i = (if i < length xs then Some (xs ! i) else None)"

definition store :: "byte list \<Rightarrow> nat \<Rightarrow> byte \<Rightarrow> byte list option" where
  "store xs i v = (if i < length xs then Some (xs[i := v]) else None)"

section \<open>Blocks\<close>

primrec memcpy_loop :: "nat \<Rightarrow> byte list \<Rightarrow> nat \<Rightarrow> byte list \<Rightarrow> nat \<Rightarrow> byte list option" where
  "memcpy_loop 0 dst d src s = Some dst"
| "memcpy_loop (Suc sz) dst d src s = do {
     v \<leftarrow> load src s;
     dst' \<leftarrow> store dst d v;
     memcpy_loop sz dst' (Suc d) src (Suc s) }"

definition memcpy :: "byte list \<Rightarrow> nat \<Rightarrow> byte list \<Rightarrow> nat \<Rightarrow> nat \<Rightarrow> byte list option" where
  "memcpy dst d src s sz = memcpy_loop sz dst d src s"

text \<open>\<open>memmove\<close>: both blocks lie in one object. The result is the object and the returned
  pointer.\<close>

primrec move_up :: "nat \<Rightarrow> byte list \<Rightarrow> nat \<Rightarrow> nat \<Rightarrow> (byte list \<times> nat) option" where
  "move_up 0 m d s = Some (m, d)"
| "move_up (Suc sz) m d s = do {
     v \<leftarrow> load m s;
     m' \<leftarrow> store m d v;
     move_up sz m' (Suc d) (Suc s) }"

primrec move_down :: "nat \<Rightarrow> byte list \<Rightarrow> nat \<Rightarrow> nat \<Rightarrow> (byte list \<times> nat) option" where
  "move_down 0 m d s = Some (m, d)"
| "move_down (Suc sz) m d s = do {
     v \<leftarrow> load m (s - 1);
     m' \<leftarrow> store m (d - 1) v;
     move_down sz m' (d - 1) (s - 1) }"

definition memmove :: "byte list \<Rightarrow> nat \<Rightarrow> nat \<Rightarrow> nat \<Rightarrow> (byte list \<times> nat) option" where
  "memmove m d s sz =
     (if d < s then move_up sz m d s else move_down sz m (d + sz) (s + sz))"

primrec memcmp :: "nat \<Rightarrow> byte list \<Rightarrow> byte list \<Rightarrow> int option" where
  "memcmp 0 a b = Some 0"
| "memcmp (Suc sz) a b =
     (case (a, b) of
        (x # a', y # b') \<Rightarrow>
          if x \<noteq> y then Some (if x > y then 1 else - 1) else memcmp sz a' b'
      | _ \<Rightarrow> None)"

primrec memchr :: "nat \<Rightarrow> byte list \<Rightarrow> byte \<Rightarrow> nat option option" where
  "memchr 0 block ch = Some None"
| "memchr (Suc sz) block ch =
     (case block of
        x # block' \<Rightarrow>
          if x = ch then Some (Some 0) else map_option (map_option Suc) (memchr sz block' ch)
      | [] \<Rightarrow> None)"

primrec memset :: "nat \<Rightarrow> byte list \<Rightarrow> nat \<Rightarrow> byte \<Rightarrow> byte list option" where
  "memset 0 m d v = Some m"
| "memset (Suc sz) m d v = do {
     m' \<leftarrow> store m d v;
     memset sz m' (Suc d) v }"

section \<open>Strings\<close>

fun strcmp :: "byte list \<Rightarrow> byte list \<Rightarrow> int option" where
  "strcmp (x # a) (y # b) =
     (if x \<noteq> 0 \<and> x = y then strcmp a b
      else Some (if x < y then - 1 else if x > y then 1 else 0))"
| "strcmp _ _ = None"

fun strchr :: "byte list \<Rightarrow> byte \<Rightarrow> nat option option" where
  "strchr [] c = None"
| "strchr (x # string) c =
     (if x = c then Some (Some 0)
      else if x = 0 then Some None
      else map_option (map_option Suc) (strchr string c))"

fun strcspn :: "byte list \<Rightarrow> byte list \<Rightarrow> nat option" where
  "strcspn [] stop = None"
| "strcspn (x # string) stop =
     (if x = 0 then Some 0
      else do {
        r \<leftarrow> strchr stop x;
        if r \<noteq> None then Some 0 else map_option Suc (strcspn string stop) })"

fun strpbrk :: "byte list \<Rightarrow> byte list \<Rightarrow> nat option option" where
  "strpbrk [] stop = None"
| "strpbrk (x # string) stop =
     (if x = 0 then Some None
      else do {
        r \<leftarrow> strchr stop x;
        if r \<noteq> None then Some (Some 0)
        else map_option (map_option Suc) (strpbrk string stop) })"

fun strrchr_loop :: "byte list \<Rightarrow> byte \<Rightarrow> nat \<Rightarrow> nat option \<Rightarrow> nat option option" where
  "strrchr_loop [] c i p = None"
| "strrchr_loop (x # string) c i p =
     (if x = 0 then Some p
      else strrchr_loop string c (Suc i) (if x = c then Some i else p))"

definition strrchr :: "byte list \<Rightarrow> byte \<Rightarrow> nat option option" where
  "strrchr string c = strrchr_loop string c 0 None"

fun strspn :: "byte list \<Rightarrow> byte list \<Rightarrow> nat option" where
  "strspn [] skip = None"
| "strspn (x # string) skip =
     (if x = 0 then Some 0
      else do {
        r \<leftarrow> strchr skip x;
        if r = None then Some 0 else map_option Suc (strspn string skip) })"

fun strlen :: "byte list \<Rightarrow> nat option" where
  "strlen [] = None"
| "strlen (x # string) = (if x = 0 then Some 0 else map_option Suc (strlen string))"

fun strnlen :: "byte list \<Rightarrow> nat \<Rightarrow> nat option" where
  "strnlen [] maxlen = None"
| "strnlen (x # string) maxlen =
     (if x = 0 then Some 0
      else if maxlen = 0 then Some 0
      else map_option Suc (strnlen string (maxlen - 1)))"

primrec strstr_loop :: "nat \<Rightarrow> byte list \<Rightarrow> byte list \<Rightarrow> nat \<Rightarrow> nat \<Rightarrow> nat option option" where
  "strstr_loop 0 haystack needle needle_len i = Some None"
| "strstr_loop (Suc n) haystack needle needle_len i = do {
     r \<leftarrow> memcmp needle_len (drop i haystack) needle;
     if r = 0 then Some (Some i) else strstr_loop n haystack needle needle_len (Suc i) }"

definition strstr :: "byte list \<Rightarrow> byte list \<Rightarrow> nat option option" where
  "strstr haystack needle = do {
     haystack_len \<leftarrow> strlen haystack;
     needle_len \<leftarrow> strlen needle;
     if needle_len \<le> haystack_len
     then strstr_loop (Suc (haystack_len - needle_len)) haystack needle needle_len 0
     else Some None }"

text \<open>\<open>strtok_r\<close>. \<open>tok_skip\<close> is the loop that skips delimiters: how many, and whether it met
  the end of the string; \<open>tok_scan\<close> is the loop that skips to the next delimiter.\<close>

fun tok_skip :: "byte list \<Rightarrow> byte list \<Rightarrow> (nat \<times> bool) option" where
  "tok_skip [] delimiters = None"
| "tok_skip (c # s) delimiters = do {
     r \<leftarrow> strchr delimiters c;
     if r \<noteq> None
     then (if c = 0 then Some (0, True)
           else map_option (\<lambda>(k, fin). (Suc k, fin)) (tok_skip s delimiters))
     else Some (0, False) }"

fun tok_scan :: "byte list \<Rightarrow> byte list \<Rightarrow> nat option" where
  "tok_scan [] delimiters = None"
| "tok_scan (c # s) delimiters = do {
     r \<leftarrow> strchr delimiters c;
     if r = None then map_option Suc (tok_scan s delimiters) else Some 0 }"

text \<open>The first argument is the buffer, the second the argument \<open>s\<close> (\<open>None\<close> for the null
  pointer), then the delimiters and \<open>*save_ptr\<close>. The result is the token, the buffer and the
  new \<open>*save_ptr\<close>.\<close>

definition strtok_r ::
    "byte list \<Rightarrow> nat option \<Rightarrow> byte list \<Rightarrow> nat \<Rightarrow> (nat option \<times> byte list \<times> nat) option" where
  "strtok_r buf s delimiters save = do {
     let p = (case s of Some i \<Rightarrow> i | None \<Rightarrow> save);
     (k, fin) \<leftarrow> tok_skip (drop p buf) delimiters;
     if fin then Some (None, buf, p + k)
     else do {
       n \<leftarrow> tok_scan (drop (p + k) buf) delimiters;
       let e = p + k + n;
       c \<leftarrow> load buf e;
       if c \<noteq> 0
       then do { buf' \<leftarrow> store buf e 0; Some (Some (p + k), buf', Suc e) }
       else Some (Some (p + k), buf, e) } }"

definition strlcpy :: "byte list \<Rightarrow> nat \<Rightarrow> byte list \<Rightarrow> nat \<Rightarrow> (nat \<times> byte list) option" where
  "strlcpy dst d src sz = do {
     src_len \<leftarrow> strlen src;
     if sz > 0
     then do {
       let dst_len = (if src_len < sz - 1 then src_len else sz - 1);
       dst1 \<leftarrow> memcpy dst d src 0 dst_len;
       dst2 \<leftarrow> store dst1 (d + dst_len) 0;
       Some (src_len, dst2) }
     else Some (src_len, dst) }"

definition strlcat :: "byte list \<Rightarrow> nat \<Rightarrow> byte list \<Rightarrow> nat \<Rightarrow> (nat \<times> byte list) option" where
  "strlcat dst d src sz = do {
     src_len \<leftarrow> strlen src;
     dst_len \<leftarrow> strlen (drop d dst);
     if sz > 0 \<and> dst_len < sz
     then do {
       let copy_cnt = (if src_len < sz - dst_len - 1 then src_len else sz - dst_len - 1);
       dst1 \<leftarrow> memcpy dst (d + dst_len) src 0 copy_cnt;
       dst2 \<leftarrow> store dst1 (d + dst_len + copy_cnt) 0;
       Some (usz (src_len + dst_len), dst2) }
     else Some (usz (src_len + dst_len), dst) }"

section \<open>Specification\<close>

definition cstr :: "byte list \<Rightarrow> byte list \<Rightarrow> bool" where
  "cstr s xs \<longleftrightarrow> (\<exists>rest. xs = s @ 0 # rest) \<and> 0 \<notin> set s"

text \<open>The tokens of a string: its maximal nonempty runs of non-delimiters, in order.\<close>

function tokens :: "byte set \<Rightarrow> byte list \<Rightarrow> byte list list" where
  "tokens D s =
     (let t = dropWhile (\<lambda>c. c \<in> D) s
      in if t = [] then []
         else takeWhile (\<lambda>c. c \<notin> D) t # tokens D (dropWhile (\<lambda>c. c \<notin> D) t))"
  by pat_completeness auto
termination
proof (relation "measure (\<lambda>(D, s). length s)", goal_cases)
  case (2 D s t)
  then obtain c cs where t: "t = c # cs" "c \<notin> D"
    by (metis dropWhile_eq_Nil_conv hd_dropWhile list.exhaust list.sel(1))
  have "length (dropWhile (\<lambda>c. c \<notin> D) t) < length t"
    using t by (simp add: length_dropWhile_le less_Suc_eq_le)
  also have "length t \<le> length s" using 2 by (simp add: length_dropWhile_le)
  finally show ?case by simp
qed simp


declare tokens.simps [simp del]

text \<open>\<open>overwrite d ys xs\<close>: \<open>xs\<close> with \<open>ys\<close> written over it from index \<open>d\<close> on.\<close>

definition overwrite :: "nat \<Rightarrow> 'a list \<Rightarrow> 'a list \<Rightarrow> 'a list" where
  "overwrite d ys xs = take d xs @ ys @ drop (d + length ys) xs"

section \<open>Overwriting\<close>

lemma overwrite_Nil [simp]: "overwrite d [] xs = xs"
  by (simp add: overwrite_def)

lemma length_overwrite [simp]:
  "d + length ys \<le> length xs \<Longrightarrow> length (overwrite d ys xs) = length xs"
  by (simp add: overwrite_def)

lemma nth_overwrite:
  "d + length ys \<le> length xs \<Longrightarrow> i < length xs \<Longrightarrow>
   overwrite d ys xs ! i = (if d \<le> i \<and> i < d + length ys then ys ! (i - d) else xs ! i)"
  by (auto simp: overwrite_def nth_append min_def)

lemma overwrite_Cons:
  "d < length xs \<Longrightarrow> overwrite (Suc d) ys (xs[d := v]) = overwrite d (v # ys) xs"
  by (simp add: overwrite_def take_Suc_conv_app_nth)

lemma overwrite_snoc:
  "d + length ys < length xs \<Longrightarrow> overwrite d ys (xs[d + length ys := v]) = overwrite d (ys @ [v]) xs"
  by (rule nth_equalityI) (auto simp: nth_overwrite nth_append nth_list_update)

lemma take_drop_overwrite:
  "d + length ys \<le> length xs \<Longrightarrow> take (length ys) (drop d (overwrite d ys xs)) = ys"
  by (simp add: overwrite_def)

section \<open>Block routines\<close>

lemma memcpy_spec:
  "d + n \<le> length dst \<Longrightarrow> s + n \<le> length src \<Longrightarrow>
   memcpy dst d src s n = Some (overwrite d (take n (drop s src)) dst)"
  unfolding memcpy_def
proof (induction n arbitrary: dst d s)
  case (Suc n)
  have "drop s src = src ! s # drop (Suc s) src"
    using Suc.prems by (simp add: Cons_nth_drop_Suc)
  with Suc show ?case by (simp add: load_def store_def overwrite_Cons)
qed simp

lemma memcpy_0 [simp]: "memcpy dst d src s 0 = Some dst"
  by (simp add: memcpy_def)

lemma memcpy_None:
  "0 < n \<Longrightarrow> length dst < d + n \<or> length src < s + n \<Longrightarrow> memcpy dst d src s n = None"
  unfolding memcpy_def
proof (induction n arbitrary: dst d s)
  case (Suc n)
  show ?case
  proof (cases "s < length src \<and> d < length dst")
    case True
    with Suc have "0 < n" by auto
    with True Suc.prems Suc.IH [of "dst[d := src ! s]" "Suc d" "Suc s"]
    show ?thesis by (auto simp: load_def store_def)
  qed (auto simp: load_def store_def)
qed simp

lemma memcpy_Some_iff:
  "memcpy dst d src s n = Some r \<longleftrightarrow>
     r = overwrite d (take n (drop s src)) dst
     \<and> (n = 0 \<or> d + n \<le> length dst \<and> s + n \<le> length src)"
proof (cases "n = 0 \<or> d + n \<le> length dst \<and> s + n \<le> length src")
  case True
  then show ?thesis by (cases "n = 0") (auto simp: memcpy_spec)
next
  case False
  then show ?thesis using memcpy_None [of n dst d src s] by auto
qed

lemma memset_spec:
  "d + n \<le> length m \<Longrightarrow> memset n m d v = Some (overwrite d (replicate n v) m)"
  by (induction n arbitrary: m d) (simp_all add: store_def overwrite_Cons)

lemma move_up_spec:
  "d < s \<Longrightarrow> s + n \<le> length m \<Longrightarrow>
   move_up n m d s = Some (overwrite d (take n (drop s m)) m, d + n)"
proof (induction n arbitrary: m d s)
  case (Suc n)
  have "drop s m = m ! s # drop (Suc s) m"
    using Suc.prems by (simp add: Cons_nth_drop_Suc)
  with Suc show ?case by (simp add: load_def store_def overwrite_Cons)
qed simp

lemma move_down_spec:
  "s \<le> d \<Longrightarrow> d + n \<le> length m \<Longrightarrow>
   move_down n m (d + n) (s + n) = Some (overwrite d (take n (drop s m)) m, d)"
proof (induction n arbitrary: m)
  case (Suc n)
  let ?m' = "m[d + n := m ! (s + n)]"
  have same: "take n (drop s ?m') = take n (drop s m)"
    using Suc.prems by (intro nth_equalityI) auto
  have len: "length (take n (drop s m)) = n" using Suc.prems by simp
  have "overwrite d (take n (drop s m)) ?m' = overwrite d (take n (drop s m) @ [m ! (s + n)]) m"
    using overwrite_snoc [of d "take n (drop s m)" m "m ! (s + n)"] Suc.prems
    unfolding len by simp
  moreover have "take n (drop s m) @ [m ! (s + n)] = take (Suc n) (drop s m)"
    using Suc.prems by (simp add: take_Suc_conv_app_nth)
  ultimately show ?case
    using Suc.prems Suc.IH [of ?m'] same by (simp add: load_def store_def)
qed simp

lemma memcmp_spec:
  "n \<le> length a \<Longrightarrow> n \<le> length b \<Longrightarrow>
   \<exists>r. memcmp n a b = Some r \<and> (r = 0 \<longleftrightarrow> take n a = take n b)"
proof (induction n arbitrary: a b)
  case (Suc n)
  then obtain x a' y b' where "a = x # a'" "b = y # b'" by (metis Suc_le_length_iff)
  with Suc show ?case by auto
qed simp

section \<open>C strings\<close>

lemma cstr_Nil [simp]: "cstr [] xs \<longleftrightarrow> (\<exists>r. xs = 0 # r)"
  by (simp add: cstr_def)

lemma cstr_Cons [simp]: "cstr (c # s) xs \<longleftrightarrow> (\<exists>ys. xs = c # ys \<and> c \<noteq> 0 \<and> cstr s ys)"
  by (auto simp: cstr_def)

lemma cstr_nonzero: "cstr s xs \<Longrightarrow> 0 \<notin> set s"
  by (simp add: cstr_def)

lemma cstr_length: "cstr s xs \<Longrightarrow> length s < length xs"
  by (auto simp: cstr_def)

lemma cstr_unique: "cstr s xs \<Longrightarrow> cstr t xs \<Longrightarrow> s = t"
  by (induction s arbitrary: xs t) (case_tac t; auto)+

lemma cstr_drop: "cstr (s @ t) xs \<Longrightarrow> cstr t (drop (length s) xs)"
  by (induction s arbitrary: xs) auto

lemma cstr_take: "cstr s xs \<Longrightarrow> take (length s) xs = s"
  by (auto simp: cstr_def)

lemma strlen_spec: "cstr s xs \<Longrightarrow> strlen xs = Some (length s)"
  by (induction s arbitrary: xs) auto

lemma strnlen_spec: "cstr s xs \<Longrightarrow> strnlen xs n = Some (min (length s) n)"
  by (induction s arbitrary: xs n) (auto simp: min_def)

lemma strchr_spec:
  "cstr s xs \<Longrightarrow> strchr xs c =
     Some (if c = 0 \<or> c \<in> set s then Some (length (takeWhile (\<lambda>x. x \<noteq> c) s)) else None)"
  by (induction s arbitrary: xs) auto

lemma strchr_mem: "cstr s xs \<Longrightarrow> \<exists>r. strchr xs c = Some r \<and> (r = None \<longleftrightarrow> c \<noteq> 0 \<and> c \<notin> set s)"
  by (simp add: strchr_spec)

lemma strspn_spec:
  "cstr s xs \<Longrightarrow> cstr k ks \<Longrightarrow> strspn xs ks = Some (length (takeWhile (\<lambda>c. c \<in> set k) s))"
  by (induction s arbitrary: xs) (auto simp: strchr_spec)

lemma strcspn_spec:
  "cstr s xs \<Longrightarrow> cstr k ks \<Longrightarrow> strcspn xs ks = Some (length (takeWhile (\<lambda>c. c \<notin> set k) s))"
  by (induction s arbitrary: xs) (auto simp: strchr_spec)

lemma strpbrk_spec:
  "cstr s xs \<Longrightarrow> cstr k ks \<Longrightarrow> strpbrk xs ks =
     Some (if \<forall>c \<in> set s. c \<notin> set k then None else Some (length (takeWhile (\<lambda>c. c \<notin> set k) s)))"
  by (induction s arbitrary: xs) (auto simp: strchr_spec)

lemma strrchr_loop_spec:
  "cstr s xs \<Longrightarrow> strrchr_loop xs c i p =
     Some (if c \<in> set s then Some (i + length s - 1 - length (takeWhile (\<lambda>x. x \<noteq> c) (rev s))) else p)"
proof (induction s arbitrary: xs i p)
  case (Cons a s)
  then show ?case
    by (auto simp: takeWhile_append takeWhile_tail)
qed auto

text \<open>The order of \<open>strcmp\<close> is the lexicographic order on unsigned characters.\<close>

lemma strcmp_spec:
  "cstr s xs \<Longrightarrow> cstr t ys \<Longrightarrow> strcmp xs ys =
     Some (if s = t then 0 else if (s, t) \<in> lexord {(a, b). a < b} then - 1 else 1)"
proof (induction s arbitrary: xs t ys)
  case Nil
  then show ?case by (cases t) (auto simp: word_greater_zero_iff)
next
  case (Cons a s)
  then show ?case
    by (cases t) (auto simp: word_greater_zero_iff)
qed

corollary strcmp_zero_iff: "cstr s xs \<Longrightarrow> cstr t ys \<Longrightarrow> strcmp xs ys = Some 0 \<longleftrightarrow> s = t"
  by (simp add: strcmp_spec)


section \<open>Tokenizing\<close>

lemma tok_skip_spec:
  "cstr s xs \<Longrightarrow> cstr k ks \<Longrightarrow>
   tok_skip xs ks = Some (length (takeWhile (\<lambda>c. c \<in> set k) s), dropWhile (\<lambda>c. c \<in> set k) s = [])"
  by (induction s arbitrary: xs) (auto simp: strchr_spec cstr_nonzero)

lemma tok_scan_spec:
  "cstr s xs \<Longrightarrow> cstr k ks \<Longrightarrow> tok_scan xs ks = Some (length (takeWhile (\<lambda>c. c \<notin> set k) s))"
  by (induction s arbitrary: xs) (auto simp: strchr_spec cstr_nonzero)

lemma tokens_Nil: "dropWhile (\<lambda>c. c \<in> D) s = [] \<Longrightarrow> tokens D s = []"
  by (simp add: tokens.simps [of D s])

lemma tokens_Cons:
  "dropWhile (\<lambda>c. c \<in> D) s = t \<Longrightarrow> t \<noteq> [] \<Longrightarrow>
   tokens D s = takeWhile (\<lambda>c. c \<notin> D) t # tokens D (dropWhile (\<lambda>c. c \<notin> D) t)"
  by (simp add: tokens.simps [of D s] Let_def)

lemma tokens_delim: "c \<in> D \<Longrightarrow> tokens D (c # s) = tokens D s"
  by (subst (1 2) tokens.simps) simp

text \<open>What a token leaves: nothing if the string ends with it, else what follows the delimiter
  that \<open>strtok_r\<close> overwrites.\<close>

definition after_token :: "byte set \<Rightarrow> byte list \<Rightarrow> byte list" where
  "after_token D s = tl (dropWhile (\<lambda>c. c \<notin> D) (dropWhile (\<lambda>c. c \<in> D) s))"

lemma tokens_after_token:
  assumes "dropWhile (\<lambda>c. c \<in> D) s = t" and "t \<noteq> []"
  shows "tokens D s = takeWhile (\<lambda>c. c \<notin> D) t # tokens D (after_token D s)"
proof (cases "dropWhile (\<lambda>c. c \<notin> D) t")
  case Nil
  with assms show ?thesis
    by (simp add: tokens_Cons after_token_def del: dropWhile_eq_Nil_conv)
next
  case (Cons c r)
  then have "c \<in> D" by (metis dropWhile_eq_Cons_conv)
  with Cons show ?thesis using assms by (simp add: tokens_Cons after_token_def tokens_delim)
qed

text \<open>One call of \<open>strtok_r\<close> at position \<open>p\<close> of the buffer, where the string \<open>s\<close> is left.\<close>

lemma strtok_r_spec:
  assumes s: "cstr s (drop p buf)" and k: "cstr k ks" and p: "p = (case a of Some i \<Rightarrow> i | None \<Rightarrow> save)"
    and t: "t = dropWhile (\<lambda>c. c \<in> set k) s"
  shows "t = [] \<Longrightarrow> strtok_r buf a ks save = Some (None, buf, p + length s)"
    and "t \<noteq> [] \<Longrightarrow> \<exists>i buf' e. strtok_r buf a ks save = Some (Some i, buf', e)
            \<and> p \<le> i \<and> length buf' = length buf \<and> take i buf' = take i buf
            \<and> cstr (takeWhile (\<lambda>c. c \<notin> set k) t) (drop i buf')
            \<and> i + length (takeWhile (\<lambda>c. c \<notin> set k) t) \<le> e
            \<and> cstr (after_token (set k) s) (drop e buf')
            \<and> length (after_token (set k) s) < length s"
proof -
  let ?D = "set k"
  note skip = tok_skip_spec [OF s k]
  {
    assume "t = []"
    then have "takeWhile (\<lambda>c. c \<in> ?D) s = s"
      using t takeWhile_dropWhile_id [of "\<lambda>c. c \<in> ?D" s] by (simp del: dropWhile_eq_Nil_conv takeWhile_dropWhile_id)
    with skip t \<open>t = []\<close> p show "strtok_r buf a ks save = Some (None, buf, p + length s)"
      by (simp add: strtok_r_def Let_def)
  next
    assume "t \<noteq> []"
    define pre w u where "pre = takeWhile (\<lambda>c. c \<in> ?D) s" and "w = takeWhile (\<lambda>c. c \<notin> ?D) t"
      and "u = dropWhile (\<lambda>c. c \<notin> ?D) t"
    have after: "after_token ?D s = tl u" by (simp add: after_token_def u_def t)
    have st: "s = pre @ w @ u" by (simp add: pre_def w_def u_def t)
    obtain rest where rest: "drop p buf = s @ 0 # rest" using s by (auto simp: cstr_def)
    have nz: "0 \<notin> set s" using s by (rule cstr_nonzero)
    have plen: "p \<le> length buf" using rest by (cases "p \<le> length buf") simp_all
    define A where "A = take p buf @ pre"
    have lenA: "length A = p + length pre" using plen by (simp add: A_def)
    have buf: "buf = A @ w @ u @ 0 # rest"
      using append_take_drop_id [of p buf] by (simp add: A_def rest st)
    have "hd t \<notin> ?D" using \<open>t \<noteq> []\<close> hd_dropWhile [of "\<lambda>c. c \<in> ?D" s] by (simp add: t)
    then have w: "w \<noteq> []" using \<open>t \<noteq> []\<close> by (cases t) (auto simp: w_def)
    have dropA: "drop (p + length pre) buf = w @ u @ 0 # rest"
      using lenA arg_cong [OF buf, of "drop (p + length pre)"] by simp
    have "cstr (w @ u) (drop (p + length pre) buf)" using nz st dropA by (auto simp: cstr_def)
    then have scan: "tok_scan (drop (p + length pre) buf) ks = Some (length w)"
      using tok_scan_spec [OF _ k, of "w @ u"] by (simp add: w_def u_def)
    have skip': "tok_skip (drop p buf) ks = Some (length pre, False)"
      using skip t \<open>t \<noteq> []\<close> by (simp add: pre_def)
    let ?i = "p + length pre" and ?e = "p + length pre + length w"
    have ld: "load buf ?e = Some (if u = [] then 0 else hd u)"
    proof -
      have "?e < length buf" "buf ! ?e = hd (u @ [0])"
        using lenA arg_cong [OF buf, of length] arg_cong [OF buf, of "\<lambda>xs. xs ! ?e"]
        by (cases u; simp add: nth_append)+
      then show ?thesis by (cases u) (simp_all add: load_def)
    qed
    show "\<exists>i buf' e. strtok_r buf a ks save = Some (Some i, buf', e)
            \<and> p \<le> i \<and> length buf' = length buf \<and> take i buf' = take i buf
            \<and> cstr (takeWhile (\<lambda>c. c \<notin> set k) t) (drop i buf')
            \<and> i + length (takeWhile (\<lambda>c. c \<notin> set k) t) \<le> e
            \<and> cstr (after_token (set k) s) (drop e buf') \<and> length (after_token (set k) s) < length s"
    proof (cases u)
      case Nil
      have "strtok_r buf a ks save = Some (Some ?i, buf, ?e)"
        using skip' scan ld p Nil by (simp add: strtok_r_def Let_def)
      moreover have "cstr w (drop ?i buf)" using dropA Nil nz st by (auto simp: cstr_def)
      moreover have "cstr [] (drop ?e buf)"
        using lenA Nil arg_cong [OF buf, of "drop ?e"] by simp
      moreover have "after_token ?D s = []" using Nil after by simp
      ultimately show ?thesis using w st
        by (intro exI [of _ ?i] exI [of _ buf] exI [of _ ?e]) (simp add: w_def)
    next
      case (Cons c r)
      have c: "c \<noteq> 0" using nz st Cons by auto
      have buf': "buf[?e := 0] = A @ w @ 0 # r @ 0 # rest"
        using lenA Cons arg_cong [OF buf, of "\<lambda>xs. xs[?e := 0]"] by (simp add: list_update_append)
      have "strtok_r buf a ks save = Some (Some ?i, buf[?e := 0], Suc ?e)"
        using skip' scan ld p Cons c lenA arg_cong [OF buf, of length]
        by (simp add: strtok_r_def Let_def store_def)
      moreover have "cstr w (drop ?i (buf[?e := 0]))" "cstr r (drop (Suc ?e) (buf[?e := 0]))"
        using buf' lenA nz st Cons by (auto simp: cstr_def)
      moreover have "after_token ?D s = r" using Cons after by simp
      ultimately show ?thesis using w st Cons
        by (intro exI [of _ ?i] exI [of _ "buf[?e := 0]"] exI [of _ "Suc ?e"]) (simp add: w_def)
    qed
  }
qed

text \<open>A string survives writes beyond its terminator.\<close>

lemma cstr_iff_take: "cstr s xs \<longleftrightarrow> take (Suc (length s)) xs = s @ [0] \<and> 0 \<notin> set s"
proof
  assume "take (Suc (length s)) xs = s @ [0] \<and> 0 \<notin> set s"
  moreover from this have "xs = (s @ [0]) @ drop (Suc (length s)) xs"
    by (metis append_take_drop_id)
  ultimately show "cstr s xs" unfolding cstr_def by (metis append.assoc append_Cons append_Nil)
qed (auto simp: cstr_def)

lemma cstr_frame:
  assumes "cstr s (drop i xs)" and "take e ys = take e xs" and "i + length s < e"
  shows "cstr s (drop i ys)"
proof -
  have "take (Suc (length s)) (drop i zs) = drop i (take (Suc (i + length s)) (take e zs))" for zs :: "byte list"
    using assms(3) by (simp add: take_drop min_def add.commute)
  then have "take (Suc (length s)) (drop i ys) = take (Suc (length s)) (drop i xs)"
    using assms(2) by metis
  with assms(1) show ?thesis by (simp add: cstr_iff_take)
qed

text \<open>All the tokens of a buffer: the loop \<open>for (t = strtok_r (s, ...); t != NULL;
  t = strtok_r (NULL, ...))\<close> of the comment and of the argument parser. One unit of fuel per
  call.\<close>

primrec strtok_all ::
    "nat \<Rightarrow> byte list \<Rightarrow> nat option \<Rightarrow> byte list \<Rightarrow> nat \<Rightarrow> (nat list \<times> byte list) option" where
  "strtok_all 0 buf a delimiters save = None"
| "strtok_all (Suc fuel) buf a delimiters save = do {
     (tok, buf', save') \<leftarrow> strtok_r buf a delimiters save;
     case tok of
       None \<Rightarrow> Some ([], buf')
     | Some i \<Rightarrow> do {
         (is, buf'') \<leftarrow> strtok_all fuel buf' None delimiters save';
         Some (i # is, buf'') } }"

lemma strtok_all_spec:
  assumes "cstr s (drop p buf)" and "cstr k ks" and "p = (case a of Some i \<Rightarrow> i | None \<Rightarrow> save)"
    and "length s < fuel"
  shows "\<exists>is buf'. strtok_all fuel buf a ks save = Some (is, buf')
     \<and> length buf' = length buf \<and> take p buf' = take p buf
     \<and> list_all2 (\<lambda>i t. cstr t (drop i buf')) is (tokens (set k) s)"
  using assms
proof (induction fuel arbitrary: s p buf a save)
  case (Suc fuel)
  note spec = strtok_r_spec [OF Suc.prems(1-3) refl]
  let ?t = "dropWhile (\<lambda>c. c \<in> set k) s" and ?s' = "after_token (set k) s"
  show ?case
  proof (cases "?t = []")
    case True
    then show ?thesis using spec(1) by (simp add: tokens_Nil del: dropWhile_eq_Nil_conv)
  next
    case False
    let ?w = "takeWhile (\<lambda>c. c \<notin> set k) ?t"
    from spec(2) [OF False] obtain i b e where c: "strtok_r buf a ks save = Some (Some i, b, e)"
      and i: "p \<le> i" "length b = length buf" "take i b = take i buf"
      and w: "cstr ?w (drop i b)" and e: "i + length ?w \<le> e"
      and s': "cstr ?s' (drop e b)" "length ?s' < length s" by blast
    from Suc.IH [OF s'(1) Suc.prems(2), where a = None and save = e] s'(2) Suc.prems(4)
    obtain js b' where r: "strtok_all fuel b None ks e = Some (js, b')" "length b' = length b"
      "take e b' = take e b" "list_all2 (\<lambda>i t. cstr t (drop i b')) js (tokens (set k) ?s')"
      by auto
    have "cstr ?w (drop i b')"
    proof (cases "i + length ?w < e")
      case True
      with w r(3) show ?thesis by (rule cstr_frame)
    next
      case False
      with e have "e = i + length ?w" by simp
      with cstr_drop [of ?w "[]" "drop i b"] w have "cstr [] (drop e b)"
        by (simp add: add.commute)
      then have "?s' = []" using s'(1) cstr_unique by blast
      then have "strtok_r b None ks e = Some (None, b, e)"
        using strtok_r_spec(1) [OF s'(1) Suc.prems(2), where a = None and save = e] by simp
      then have "b' = b" using r(1) by (cases fuel) auto
      with w show ?thesis by simp
    qed
    moreover have "take p b' = take p buf"
    proof -
      have "p \<le> e" using i(1) e by linarith
      then have "take p b' = take p b" using r(3) by (metis min.absorb1 take_take)
      also have "\<dots> = take p buf" using i(1,3) by (metis min.absorb1 take_take)
      finally show ?thesis .
    qed
    ultimately show ?thesis using c r i(2) tokens_after_token [OF refl False] by simp
  qed
qed simp

section \<open>Copying and searching strings\<close>

lemma take_overwrite: "e \<le> d \<Longrightarrow> d \<le> length xs \<Longrightarrow> take e (overwrite d ys xs) = take e xs"
  by (simp add: overwrite_def min_def)

lemma drop_overwrite:
  "d + length ys \<le> e \<Longrightarrow> d \<le> length xs \<Longrightarrow> drop e (overwrite d ys xs) = drop e xs"
  by (simp add: overwrite_def)

lemma overwrite_update:
  "d + length ys < length xs \<Longrightarrow> (overwrite d ys xs)[d + length ys := v] = overwrite d (ys @ [v]) xs"
  by (rule nth_equalityI) (auto simp: nth_overwrite nth_append nth_list_update)

lemma copy_terminated:
  assumes "cstr t src" and "n \<le> length t" and "d + n < length dst"
  shows "memcpy dst d src 0 n = Some (overwrite d (take n t) dst)"
    and "store (overwrite d (take n t) dst) (d + n) 0 = Some (overwrite d (take n t @ [0]) dst)"
proof -
  have "take n src = take n t" "n \<le> length src" "length (take n t) = n"
    using assms by (auto simp: cstr_def)
  then show "memcpy dst d src 0 n = Some (overwrite d (take n t) dst)"
    "store (overwrite d (take n t) dst) (d + n) 0 = Some (overwrite d (take n t @ [0]) dst)"
    using assms(3) overwrite_update [of d "take n t" dst 0] by (simp_all add: memcpy_spec store_def)
qed

lemma strlcpy_spec:
  assumes "cstr t src" and "0 < sz" and "d + min (Suc (length t)) sz \<le> length dst"
  shows "strlcpy dst d src sz = Some (length t, overwrite d (take (sz - 1) t @ [0]) dst)"
proof (cases "length t < sz - 1")
  case True
  with assms show ?thesis
    using copy_terminated [OF assms(1) le_refl, of d dst] by (simp add: strlcpy_def strlen_spec)
next
  case False
  with assms show ?thesis
    using copy_terminated [OF assms(1), of "sz - 1" d dst] by (simp add: strlcpy_def strlen_spec)
qed

lemma strlcat_spec:
  assumes "cstr t src" and "cstr u (drop d dst)" and "length u < sz"
    and "d + length u + min (Suc (length t)) (sz - length u) \<le> length dst"
  shows "strlcat dst d src sz
         = Some (usz (length t + length u),
                 overwrite (d + length u) (take (sz - length u - 1) t @ [0]) dst)"
proof (cases "length t < sz - length u - 1")
  case True
  with assms show ?thesis
    using copy_terminated [OF assms(1) le_refl, of "d + length u" dst]
    by (simp add: strlcat_def strlen_spec)
next
  case False
  with assms show ?thesis
    using copy_terminated [OF assms(1), of "sz - length u - 1" "d + length u" dst]
    by (simp add: strlcat_def strlen_spec)
qed

lemma cstr_overwrite:
  "0 \<notin> set t \<Longrightarrow> d \<le> length m \<Longrightarrow> cstr t (drop d (overwrite d (t @ [0]) m))"
  by (auto simp: cstr_def overwrite_def)

lemma strstr_loop_spec:
  assumes "cstr h hs" and "cstr k ks" and "i + n + length k \<le> Suc (length h)"
  shows "strstr_loop n hs ks (length k) i
    = Some (if \<exists>j. i \<le> j \<and> j < i + n \<and> take (length k) (drop j h) = k
            then Some (LEAST j. i \<le> j \<and> take (length k) (drop j h) = k) else None)"
  using assms(3)
proof (induction n arbitrary: i)
  case (Suc n)
  obtain hr kr where hs: "hs = h @ 0 # hr" and ks: "ks = k @ 0 # kr"
    using assms(1,2) by (auto simp: cstr_def)
  let ?P = "\<lambda>j. i \<le> j \<and> take (length k) (drop j h) = k"
  have "take (length k) (drop i hs) = take (length k) (drop i h)" "length k \<le> length (drop i hs)"
    using Suc.prems by (simp_all add: hs)
  with memcmp_spec [of "length k" "drop i hs" ks]
  obtain r where r: "memcmp (length k) (drop i hs) ks = Some r"
    "r = 0 \<longleftrightarrow> take (length k) (drop i h) = k" by (auto simp: ks)
  show ?case
  proof (cases "take (length k) (drop i h) = k")
    case True
    then have "(LEAST j. ?P j) = i" by (intro Least_equality) auto
    moreover have "\<exists>j. i \<le> j \<and> j < i + Suc n \<and> take (length k) (drop j h) = k"
      using True by (intro exI [of _ i]) simp
    ultimately show ?thesis using r True by simp
  next
    case False
    then have eq: "?P j \<longleftrightarrow> Suc i \<le> j \<and> take (length k) (drop j h) = k" for j
      by (metis Suc_leD le_antisym not_less_eq_eq)
    have "strstr_loop (Suc n) hs ks (length k) i = strstr_loop n hs ks (length k) (Suc i)"
      using False r by simp
    also have "\<dots> = Some (if \<exists>j. Suc i \<le> j \<and> j < Suc i + n \<and> take (length k) (drop j h) = k
        then Some (LEAST j. Suc i \<le> j \<and> take (length k) (drop j h) = k) else None)"
      using Suc.prems by (intro Suc.IH) simp
    also have "(\<exists>j. Suc i \<le> j \<and> j < Suc i + n \<and> take (length k) (drop j h) = k)
        \<longleftrightarrow> (\<exists>j. i \<le> j \<and> j < i + Suc n \<and> take (length k) (drop j h) = k)"
      using eq by (metis add_Suc add_Suc_right)
    also have "(LEAST j. Suc i \<le> j \<and> take (length k) (drop j h) = k) = (LEAST j. ?P j)"
      by (simp only: eq)
    finally show ?thesis .
  qed
qed simp

lemma strstr_spec:
  assumes "cstr h hs" and "cstr k ks"
  shows "strstr hs ks = Some (if \<exists>j. j + length k \<le> length h \<and> take (length k) (drop j h) = k
    then Some (LEAST j. take (length k) (drop j h) = k) else None)"
proof (cases "length k \<le> length h")
  case True
  have "(\<exists>j. 0 \<le> j \<and> j < 0 + Suc (length h - length k) \<and> take (length k) (drop j h) = k)
      \<longleftrightarrow> (\<exists>j. j + length k \<le> length h \<and> take (length k) (drop j h) = k)"
    using True by (auto simp: less_Suc_eq_le le_diff_conv2)
  with True assms strstr_loop_spec [OF assms, of 0 "Suc (length h - length k)"] show ?thesis
    by (simp only: strstr_def strlen_spec bind.simps if_True) simp
next
  case False
  with assms show ?thesis by (simp add: strstr_def strlen_spec)
qed

section \<open>Properties\<close>

text \<open>\<open>memmove\<close> gives the destination block the bytes the source block had before the call,
  whatever the overlap of the two blocks, and changes nothing else. The pointer it returns is
  the destination only when the destination is not below the source: otherwise the loop has
  advanced it to the end of the block.\<close>

theorem memmove_correct:
  assumes "d + n \<le> length m" and "s + n \<le> length m"
  shows "memmove m d s n = Some (overwrite d (take n (drop s m)) m, if d < s then d + n else d)"
  using assms by (simp add: memmove_def move_up_spec move_down_spec)

theorem memmove_correct_witness:
  "memmove [1, 2, 3, 4, 5] 1 0 3 = Some ([1, 1, 2, 3, 5], 1)
   \<and> memmove [1, 2, 3, 4, 5] 0 1 3 = Some ([2, 3, 4, 4, 5], 3)"
  using memmove_correct [of 1 3 "[1, 2, 3, 4, 5]" 0] memmove_correct [of 0 3 "[1, 2, 3, 4, 5]" 1]
  by (simp add: overwrite_def)

text \<open>C1. The calls of \<open>strtok_r\<close> over a buffer that holds the string \<open>s\<close> end after at most
  \<open>length s + 1\<close> of them; the pointers they return point, in the final buffer, to exactly the
  tokens of \<open>s\<close> in order, each a terminated string, and the bytes in front of the string are
  untouched.\<close>

theorem strtok_all_correct:
  assumes "cstr s (drop p buf)" and "cstr k ks" and "length s < fuel"
  shows "\<exists>is buf'. strtok_all fuel buf (Some p) ks save = Some (is, buf')
     \<and> length buf' = length buf \<and> take p buf' = take p buf
     \<and> list_all2 (\<lambda>i t. cstr t (drop i buf')) is (tokens (set k) s)"
  using strtok_all_spec [OF assms(1,2), where a = "Some p"] assms(3) by simp

theorem strtok_all_correct_witness:
  "\<exists>is buf'. strtok_all 6 [32, 97, 32, 98, 99, 0] (Some 0) [32, 0] 0 = Some (is, buf')
     \<and> list_all2 (\<lambda>i t. cstr t (drop i buf')) is [[97], [98, 99]]"
proof -
  have "tokens {32} [32, 97, 32, 98, 99] = [[97], [98, 99 :: byte]]"
    by (simp add: tokens.simps)
  then show ?thesis
    using strtok_all_correct [of "[32, 97, 32, 98, 99]" 0 "[32, 97, 32, 98, 99, 0]" "[32]" "[32, 0]" 6 0]
    by auto
qed

text \<open>\<open>strlcpy\<close> into a buffer of \<open>sz\<close> bytes leaves there a terminated string, the first
  \<open>sz - 1\<close> bytes of the source, returns the length of the source, and writes nothing outside
  the \<open>sz\<close> bytes.\<close>

theorem strlcpy_correct:
  assumes "cstr t src" and "0 < sz" and "d + sz \<le> length dst"
  shows "\<exists>dst'. strlcpy dst d src sz = Some (length t, dst')
     \<and> cstr (take (sz - 1) t) (drop d dst')
     \<and> take d dst' = take d dst \<and> drop (d + sz) dst' = drop (d + sz) dst
     \<and> length dst' = length dst"
proof -
  have "strlcpy dst d src sz = Some (length t, overwrite d (take (sz - 1) t @ [0]) dst)"
    using assms by (intro strlcpy_spec) auto
  moreover have "0 \<notin> set (take (sz - 1) t)"
    using assms(1) by (auto simp: cstr_def dest: in_set_takeD)
  then have "cstr (take (sz - 1) t) (drop d (overwrite d (take (sz - 1) t @ [0]) dst))"
    using assms(3) by (intro cstr_overwrite) auto
  moreover have "d + length (take (sz - 1) t @ [0]) \<le> d + sz" using assms(2) by auto
  then have "take d (overwrite d (take (sz - 1) t @ [0]) dst) = take d dst"
    "drop (d + sz) (overwrite d (take (sz - 1) t @ [0]) dst) = drop (d + sz) dst"
    using assms(3) by (simp_all add: take_overwrite drop_overwrite)
  ultimately show ?thesis using assms by simp
qed

theorem strlcpy_correct_witness:
  "\<exists>dst'. strlcpy [9, 9, 9, 9] 0 [97, 98, 99, 100, 0] 3 = Some (4, dst') \<and> cstr [97, 98] dst'"
  using strlcpy_correct [of "[97, 98, 99, 100]" "[97, 98, 99, 100, 0]" 3 0 "[9, 9, 9, 9]"] by auto

text \<open>\<open>strcmp\<close> orders strings lexicographically by unsigned bytes: it gives zero exactly on
  equal strings and a negative value exactly when the first is smaller.\<close>

theorem strcmp_correct:
  assumes "cstr s xs" and "cstr t ys"
  shows "\<exists>r. strcmp xs ys = Some r \<and> (r = 0 \<longleftrightarrow> s = t)
     \<and> (r < 0 \<longleftrightarrow> (s, t) \<in> lexord {(a, b). a < b})"
proof -
  have "(t, t) \<notin> lexord {(a, b). a < (b :: byte)}" by (rule lexord_irreflexive) simp
  then show ?thesis by (auto simp: strcmp_spec [OF assms])
qed

theorem strcmp_correct_witness:
  "\<exists>r. strcmp [97, 0] [97, 98, 0] = Some r \<and> r < 0"
  using strcmp_correct [of "[97]" "[97, 0]" "[97, 98]" "[97, 98, 0]"] by auto

end
