(* ===== verification/Disk.thy ===== *)
theory Disk
  imports Kstring
begin

text \<open>
  The ATA disk driver, \<^verbatim>\<open>devices/disk.c\<close>. A \<open>disk\<close> is the driver's structure together with the
  device behind it: \<open>media\<close> is what the sectors hold and \<open>alt_status\<close> what the status register
  reads, by number of the command and number of the read. A transfer programs the sector
  registers as \<open>select_sector\<close> does and addresses the sector that the 28-bit LBA scheme of the
  registers denotes. A failed assertion and the panic on a device that does not answer give
  \<open>None\<close>. The channel lock and the completion interrupt, which order the transfers of different
  threads, are not part of this model: a transfer is one step.
\<close>

section \<open>State\<close>

type_synonym disk_sector_t = u32

definition DISK_SECTOR_SIZE :: nat where
  "DISK_SECTOR_SIZE = 512"

record disk =
  dev_no :: nat
  is_ata :: bool
  capacity :: disk_sector_t
  read_cnt :: nat
  write_cnt :: nat
  media :: "byte list list"
  alt_status :: "nat \<Rightarrow> nat \<Rightarrow> byte"

record ata_regs =
  r_nsect :: byte
  r_lbal :: byte
  r_lbam :: byte
  r_lbah :: byte
  r_device :: byte

definition STA_BSY :: byte where "STA_BSY = 0x80"

definition STA_DRDY :: byte where "STA_DRDY = 0x40"

definition STA_DRQ :: byte where "STA_DRQ = 0x08"

definition DEV_MBS :: byte where "DEV_MBS = 0xa0"

definition DEV_LBA :: byte where "DEV_LBA = 0x40"

definition DEV_DEV :: byte where "DEV_DEV = 0x10"

section \<open>Operations\<close>

definition disk_get :: "disk list list \<Rightarrow> nat \<Rightarrow> nat \<Rightarrow> disk option option" where
  "disk_get channels chan_no dev = do {
     kassert (dev = 0 \<or> dev = 1);
     if chan_no < 2
     then (let d = channels ! chan_no ! dev in Some (if is_ata d then Some d else None))
     else Some None }"

definition disk_size :: "disk \<Rightarrow> disk_sector_t" where
  "disk_size d = capacity d"

text \<open>\<open>check_device_type\<close> from the four registers it reads: the new \<open>is_ata\<close> and the result.\<close>

definition check_device_type :: "disk \<Rightarrow> byte \<Rightarrow> byte \<Rightarrow> byte \<Rightarrow> byte \<Rightarrow> disk \<times> bool" where
  "check_device_type d err lbam lbah status =
     (if (err \<noteq> 1 \<and> (err \<noteq> 0x81 \<or> dev_no d = 1))
         \<or> status AND STA_DRDY = 0 \<or> status AND STA_BSY \<noteq> 0
      then (d\<lparr>is_ata := False\<rparr>, err \<noteq> 0x81)
      else (d\<lparr>is_ata := (lbam = 0 \<and> lbah = 0) \<or> (lbam = 0x3c \<and> lbah = 0xc3)\<rparr>, True))"

definition identify_capacity :: "16 word list \<Rightarrow> disk_sector_t" where
  "identify_capacity ident = ucast (ident ! 60) OR push_bit 16 (ucast (ident ! 61))"

definition select_sector :: "disk \<Rightarrow> disk_sector_t \<Rightarrow> ata_regs option" where
  "select_sector d sec_no = do {
     kassert (sec_no < capacity d);
     kassert (sec_no < 0x10000000);
     Some \<lparr>r_nsect = 1,
           r_lbal = ucast sec_no,
           r_lbam = ucast (drop_bit 8 sec_no),
           r_lbah = ucast (drop_bit 16 sec_no),
           r_device = DEV_MBS OR DEV_LBA OR (if dev_no d = 1 then DEV_DEV else 0)
                      OR ucast (drop_bit 24 sec_no)\<rparr> }"

text \<open>The sector that the registers denote to the device.\<close>

definition ata_lba :: "ata_regs \<Rightarrow> nat" where
  "ata_lba r = unat (r_lbal r) + 256 * unat (r_lbam r) + 65536 * unat (r_lbah r)
     + 16777216 * unat (r_device r AND 0x0f)"

text \<open>The polling loop: \<open>n\<close> polls left, \<open>k\<close> reads of the status register made.\<close>

primrec wait_while_busy_loop :: "nat \<Rightarrow> (nat \<Rightarrow> byte) \<Rightarrow> nat \<Rightarrow> bool" where
  "wait_while_busy_loop 0 st k = False"
| "wait_while_busy_loop (Suc n) st k =
     (if st k AND STA_BSY = 0 then st (Suc k) AND STA_DRQ \<noteq> 0
      else wait_while_busy_loop n st (Suc k))"

definition wait_while_busy :: "disk \<Rightarrow> bool" where
  "wait_while_busy d = wait_while_busy_loop 3000 (alt_status d (read_cnt d + write_cnt d)) 0"

definition disk_read :: "disk \<Rightarrow> disk_sector_t \<Rightarrow> (byte list \<times> disk) option" where
  "disk_read d sec_no = do {
     r \<leftarrow> select_sector d sec_no;
     kassert (wait_while_busy d);
     kassert (ata_lba r < length (media d));
     Some (media d ! ata_lba r, d\<lparr>read_cnt := Suc (read_cnt d)\<rparr>) }"

definition disk_write :: "disk \<Rightarrow> disk_sector_t \<Rightarrow> byte list \<Rightarrow> disk option" where
  "disk_write d sec_no buffer = do {
     r \<leftarrow> select_sector d sec_no;
     kassert (wait_while_busy d);
     kassert (ata_lba r < length (media d) \<and> DISK_SECTOR_SIZE \<le> length buffer);
     Some (d\<lparr>media := (media d)[ata_lba r := take DISK_SECTOR_SIZE buffer],
             write_cnt := Suc (write_cnt d)\<rparr>) }"

section \<open>Specification\<close>

text \<open>A device answers a command when its busy bit clears within the polls the driver makes, and
  the next read of the status register shows that it wants to transfer data.\<close>

definition answers :: "(nat \<Rightarrow> byte) \<Rightarrow> bool" where
  "answers st \<longleftrightarrow> (\<exists>k < 3000. (\<forall>i < k. st i AND STA_BSY \<noteq> 0)
                            \<and> st k AND STA_BSY = 0 \<and> st (Suc k) AND STA_DRQ \<noteq> 0)"

definition disk_wf :: "disk \<Rightarrow> bool" where
  "disk_wf d \<longleftrightarrow> length (media d) = unat (capacity d)
     \<and> (\<forall>s \<in> set (media d). length s = DISK_SECTOR_SIZE)
     \<and> (\<forall>n. answers (alt_status d n))"

definition valid_sector :: "disk \<Rightarrow> disk_sector_t \<Rightarrow> bool" where
  "valid_sector d x \<longleftrightarrow> x < capacity d \<and> x < 0x10000000"

definition sector_at :: "disk \<Rightarrow> disk_sector_t \<Rightarrow> byte list" where
  "sector_at d x = media d ! unat x"

section \<open>Lemmas\<close>

lemma wait_while_busy_loop_spec:
  "\<forall>i < k. st (j + i) AND STA_BSY \<noteq> 0 \<Longrightarrow> st (j + k) AND STA_BSY = 0 \<Longrightarrow>
   st (Suc (j + k)) AND STA_DRQ \<noteq> 0 \<Longrightarrow> k < n \<Longrightarrow> wait_while_busy_loop n st j"
proof (induction n arbitrary: j k)
  case (Suc n)
  show ?case
  proof (cases k)
    case (Suc k')
    have "st j AND STA_BSY \<noteq> 0" using Suc.prems(1) Suc by force
    moreover have "wait_while_busy_loop n st (Suc j)"
    proof (rule Suc.IH)
      show "\<forall>i < k'. st (Suc j + i) AND STA_BSY \<noteq> 0"
        using Suc.prems(1) Suc by (metis Suc_less_eq add_Suc_shift)
    qed (use Suc.prems Suc in auto)
    ultimately show ?thesis by simp
  qed (use Suc.prems in simp)
qed simp

lemma wait_while_busy_answers: "answers (alt_status d (read_cnt d + write_cnt d)) \<Longrightarrow> wait_while_busy d"
  unfolding answers_def wait_while_busy_def
  using wait_while_busy_loop_spec [of _ "alt_status d (read_cnt d + write_cnt d)" 0 3000] by auto

text \<open>The registers address the sector asked for, and the right device of the channel.\<close>

lemma select_sector_spec:
  assumes "valid_sector d x"
  shows "\<exists>r. select_sector d x = Some r \<and> ata_lba r = unat x
           \<and> (bit (r_device r) 4 \<longleftrightarrow> dev_no d = 1)"
proof -
  have x: "unat x < 2 ^ 28" using assms by (simp add: valid_sector_def word_less_nat_alt)
  define dv :: byte where "dv = DEV_MBS OR DEV_LBA OR (if dev_no d = 1 then DEV_DEV else 0)
      OR ucast (drop_bit 24 x)"
  have hi: "unat (ucast (drop_bit 24 x) :: byte) = unat x div 16777216"
    using x by (simp add: unsigned_ucast_eq take_bit_eq_mod drop_bit_eq_div unat_div)
  have lt: "unat x div 16777216 < 16" using x by simp
  have high: "\<not> bit (ucast (drop_bit 24 x) :: byte) n" if "4 \<le> n" for n
  proof -
    have "(2 :: nat) ^ 4 \<le> 2 ^ n" using that by (intro power_increasing) auto
    then have "unat (ucast (drop_bit 24 x) :: byte) < 2 ^ n" using hi lt by simp
    then have "\<not> bit (unat (ucast (drop_bit 24 x) :: byte)) n" by (simp add: bit_iff_odd)
    then show ?thesis by (simp add: bit_unsigned_iff bit_imp_le_length)
  qed
  have "dv AND 0x0f = ucast (drop_bit 24 x)"
  proof (rule bit_word_eqI)
    fix n
    assume n: "n < LENGTH(8)"
    have "n = 0 \<or> n = 1 \<or> n = 2 \<or> n = 3 \<or> n = 4 \<or> n = 5 \<or> n = 6 \<or> n = 7" using n by auto
    then show "bit (dv AND 0x0f) n = bit (ucast (drop_bit 24 x) :: byte) n"
      using high [of n] by (auto simp: dv_def bit_or_iff bit_and_iff DEV_MBS_def DEV_LBA_def DEV_DEV_def)
  qed
  then have dev: "unat (dv AND 0x0f) = unat x div 16777216" using hi by simp
  have b4: "bit dv 4 \<longleftrightarrow> dev_no d = 1"
    using high [of 4] by (auto simp: dv_def bit_or_iff DEV_MBS_def DEV_LBA_def DEV_DEV_def)
  have lo: "unat (ucast x :: byte) = unat x mod 256"
    "unat (ucast (drop_bit 8 x) :: byte) = unat x div 256 mod 256"
    "unat (ucast (drop_bit 16 x) :: byte) = unat x div 65536 mod 256"
    by (simp_all add: unsigned_ucast_eq take_bit_eq_mod drop_bit_eq_div unat_div)
  have "unat x mod 256 + 256 * (unat x div 256 mod 256) + 65536 * (unat x div 65536 mod 256)
      + 16777216 * (unat x div 16777216) = unat x" by (rule nat_base_256)
  with lo dev b4 assms show ?thesis
    by (simp add: select_sector_def valid_sector_def ata_lba_def dv_def)
qed

lemma disk_read_spec:
  assumes "disk_wf d" and "valid_sector d x"
  shows "disk_read d x = Some (sector_at d x, d\<lparr>read_cnt := Suc (read_cnt d)\<rparr>)"
proof -
  obtain r where "select_sector d x = Some r" "ata_lba r = unat x"
    using select_sector_spec [OF assms(2)] by blast
  moreover have "unat x < length (media d)"
    using assms by (simp add: disk_wf_def valid_sector_def word_less_nat_alt)
  ultimately show ?thesis
    using assms(1) by (simp add: disk_read_def disk_wf_def wait_while_busy_answers sector_at_def)
qed

lemma disk_write_spec:
  assumes "disk_wf d" and "valid_sector d x" and "length buf = DISK_SECTOR_SIZE"
  shows "disk_write d x buf = Some (d\<lparr>media := (media d)[unat x := buf], write_cnt := Suc (write_cnt d)\<rparr>)"
proof -
  obtain r where "select_sector d x = Some r" "ata_lba r = unat x"
    using select_sector_spec [OF assms(2)] by blast
  moreover have "unat x < length (media d)"
    using assms by (simp add: disk_wf_def valid_sector_def word_less_nat_alt)
  ultimately show ?thesis
    using assms by (simp add: disk_write_def disk_wf_def wait_while_busy_answers)
qed

lemma disk_access_invalid:
  "\<not> valid_sector d x \<Longrightarrow> disk_read d x = None"
  "\<not> valid_sector d x \<Longrightarrow> disk_write d x buf = None"
  by (auto simp: disk_read_def disk_write_def select_sector_def valid_sector_def kassert_def)

lemma disk_wf_read_cnt [simp]: "disk_wf (d\<lparr>read_cnt := n\<rparr>) = disk_wf d"
  by (simp add: disk_wf_def)

lemma disk_wf_write_cnt [simp]: "disk_wf (d\<lparr>write_cnt := n\<rparr>) = disk_wf d"
  by (simp add: disk_wf_def)

lemma disk_wf_media [wf_rules]:
  "disk_wf d \<Longrightarrow> length buf = DISK_SECTOR_SIZE \<Longrightarrow> disk_wf (d\<lparr>media := (media d)[i := buf]\<rparr>)"
  by (auto simp: disk_wf_def dest!: set_update_subset_insert [THEN subsetD])

lemma valid_sector_update [simp]:
  "valid_sector (d\<lparr>read_cnt := n\<rparr>) x = valid_sector d x"
  "valid_sector (d\<lparr>write_cnt := n\<rparr>) x = valid_sector d x"
  "valid_sector (d\<lparr>media := m\<rparr>) x = valid_sector d x"
  by (simp_all add: valid_sector_def)

lemma sector_at_cnt [simp]:
  "sector_at (d\<lparr>read_cnt := n\<rparr>) x = sector_at d x"
  "sector_at (d\<lparr>write_cnt := n\<rparr>) x = sector_at d x"
  by (simp_all add: sector_at_def)

lemma sector_at_media:
  "disk_wf d \<Longrightarrow> valid_sector d x \<Longrightarrow>
   sector_at (d\<lparr>media := (media d)[unat x := buf]\<rparr>) y = (if y = x then buf else sector_at d y)"
  by (auto simp: sector_at_def disk_wf_def valid_sector_def word_less_nat_alt nth_list_update
      dest: unsigned_word_eqI)

lemma sector_at_length: "disk_wf d \<Longrightarrow> valid_sector d x \<Longrightarrow> length (sector_at d x) = DISK_SECTOR_SIZE"
  by (auto simp: disk_wf_def sector_at_def valid_sector_def word_less_nat_alt)

end
