(* ===== verification/Cache.thy ===== *)
theory Cache
  imports Disk
begin

text \<open>
  The buffer cache of the file system, \<^verbatim>\<open>filesys/cache.c\<close>. The state is the disk, the list of
  cached sectors with their flags, their number, the lock and the outcomes of \<open>malloc\<close>. A pointer
  to a \<open>struct buffer_cache\<close> is the index of the entry in the list, which only grows.

  The value of a sector is what the cache holds of it, or else what the disk holds. A read
  returns it, a write changes it at the bytes written, and neither replacement nor write-behind
  changes it; after a pass of write-behind the disk itself holds it. Here an operation runs from
  its start to its end; \<open>Cache_Steps\<close> splits it where the code releases the lock.
\<close>

section \<open>State\<close>

definition MAX_CACHE_SIZE :: nat where
  "MAX_CACHE_SIZE = 64"

record buffer_cache =
  bc_sector :: disk_sector_t
  bc_data :: "byte list"
  is_used :: bool
  is_dirty :: bool
  is_using :: bool

record cache_state =
  filesys_disk :: disk
  buffer_cache_list :: "buffer_cache list"
  cache_current_size :: nat
  buffer_cache_lock :: bool
  heap_ok :: "nat \<Rightarrow> bool"
  heap_cnt :: nat

text \<open>\<open>malloc\<close>: whether the call succeeds, and the state in which one more call was made.\<close>

definition malloc :: "cache_state \<Rightarrow> bool \<times> cache_state" where
  "malloc s = (heap_ok s (heap_cnt s), s\<lparr>heap_cnt := Suc (heap_cnt s)\<rparr>)"

definition acquire_cache_lock :: "cache_state \<Rightarrow> cache_state option" where
  "acquire_cache_lock s = do {
     kassert (\<not> buffer_cache_lock s);
     Some (s\<lparr>buffer_cache_lock := True\<rparr>) }"

definition release_cache_lock :: "cache_state \<Rightarrow> cache_state option" where
  "release_cache_lock s = do {
     kassert (buffer_cache_lock s);
     Some (s\<lparr>buffer_cache_lock := False\<rparr>) }"

definition set_entry :: "nat \<Rightarrow> buffer_cache \<Rightarrow> cache_state \<Rightarrow> cache_state" where
  "set_entry i e s = s\<lparr>buffer_cache_list := (buffer_cache_list s)[i := e]\<rparr>"

definition entry :: "cache_state \<Rightarrow> nat \<Rightarrow> buffer_cache" where
  "entry s i = buffer_cache_list s ! i"

section \<open>Operations\<close>

definition cache_init :: "cache_state \<Rightarrow> cache_state" where
  "cache_init s = s\<lparr>buffer_cache_list := [], buffer_cache_lock := False, cache_current_size := 0\<rparr>"

fun find_cache :: "disk_sector_t \<Rightarrow> buffer_cache list \<Rightarrow> nat option" where
  "find_cache sector [] = None"
| "find_cache sector (cache_e # es) =
     (if bc_sector cache_e = sector then Some 0 else map_option Suc (find_cache sector es))"

text \<open>The branch of \<open>evict_cache\<close> for the selected entry.\<close>

definition reuse_cache :: "nat \<Rightarrow> disk_sector_t \<Rightarrow> cache_state \<Rightarrow> cache_state option" where
  "reuse_cache i sector_idx s = do {
     let cache_e = entry s i;
     d1 \<leftarrow> (if is_dirty cache_e
            then disk_write (filesys_disk s) (bc_sector cache_e) (bc_data cache_e)
            else Some (filesys_disk s));
     (bytes, d2) \<leftarrow> disk_read d1 sector_idx;
     Some (set_entry i (cache_e\<lparr>is_using := True, bc_sector := sector_idx, bc_data := bytes,
                                is_dirty := False\<rparr>)
             (s\<lparr>filesys_disk := d2\<rparr>)) }"

text \<open>One pass of the second-chance loop: \<open>n\<close> entries left, the next is \<open>i\<close>.\<close>

primrec evict_pass ::
    "nat \<Rightarrow> nat \<Rightarrow> disk_sector_t \<Rightarrow> cache_state \<Rightarrow> (nat option \<times> cache_state) option" where
  "evict_pass 0 i sector_idx s = Some (None, s)"
| "evict_pass (Suc n) i sector_idx s =
     (let cache_e = entry s i in
      if is_using cache_e then evict_pass n (Suc i) sector_idx s
      else if is_used cache_e
      then evict_pass n (Suc i) sector_idx (set_entry i (cache_e\<lparr>is_used := False\<rparr>) s)
      else do { s' \<leftarrow> reuse_cache i sector_idx s; Some (Some i, s') })"

definition evict_cache :: "disk_sector_t \<Rightarrow> cache_state \<Rightarrow> (nat option \<times> cache_state) option" where
  "evict_cache sector_idx s =
     (if buffer_cache_list s \<noteq> []
      then do {
        let n = length (buffer_cache_list s);
        (r, s1) \<leftarrow> evict_pass n 0 sector_idx s;
        if r \<noteq> None then Some (r, s1) else evict_pass n 0 sector_idx s1 }
      else Some (None, s))"

definition allocate_new_cache :: "disk_sector_t \<Rightarrow> cache_state \<Rightarrow> (nat \<times> cache_state) option" where
  "allocate_new_cache sector_idx s = do {
     let (ok, s1) = malloc s;
     kassert ok;
     (bytes, d) \<leftarrow> disk_read (filesys_disk s1) sector_idx;
     Some (length (buffer_cache_list s1),
           s1\<lparr>buffer_cache_list := buffer_cache_list s1 @
                [\<lparr>bc_sector = sector_idx, bc_data = bytes, is_used = True, is_dirty = False,
                  is_using = False\<rparr>],
              cache_current_size := cache_current_size s1 + 1,
              filesys_disk := d\<rparr>) }"

text \<open>What \<open>cache_read\<close> and \<open>cache_write\<close> do while they hold the lock: the entry of the sector,
  found, added or replaced, and marked in use.\<close>

definition cache_get :: "disk_sector_t \<Rightarrow> cache_state \<Rightarrow> (nat \<times> cache_state) option" where
  "cache_get sector_idx s = do {
     s1 \<leftarrow> acquire_cache_lock s;
     case find_cache sector_idx (buffer_cache_list s1) of
       None \<Rightarrow> do {
         (r, s2) \<leftarrow> (if cache_current_size s1 < MAX_CACHE_SIZE
                     then map_option (\<lambda>(i, s2). (Some i, s2)) (allocate_new_cache sector_idx s1)
                     else evict_cache sector_idx s1);
         i \<leftarrow> r;
         s3 \<leftarrow> release_cache_lock (set_entry i ((entry s2 i)\<lparr>is_using := True\<rparr>) s2);
         Some (i, s3) }
     | Some i \<Rightarrow> do {
         s2 \<leftarrow> release_cache_lock
                 (set_entry i ((entry s1 i)\<lparr>is_used := True, is_using := True\<rparr>) s1);
         Some (i, s2) } }"

definition cache_read ::
    "disk_sector_t \<Rightarrow> byte list \<Rightarrow> nat \<Rightarrow> nat \<Rightarrow> nat \<Rightarrow> cache_state \<Rightarrow> (byte list \<times> cache_state) option" where
  "cache_read sector_idx buffer bytes_read sector_ofs chunk_size s = do {
     (i, s1) \<leftarrow> cache_get sector_idx s;
     buffer' \<leftarrow> memcpy buffer bytes_read (bc_data (entry s1 i)) sector_ofs chunk_size;
     Some (buffer', set_entry i ((entry s1 i)\<lparr>is_using := False\<rparr>) s1) }"

definition cache_write ::
    "disk_sector_t \<Rightarrow> byte list \<Rightarrow> nat \<Rightarrow> nat \<Rightarrow> nat \<Rightarrow> cache_state \<Rightarrow> cache_state option" where
  "cache_write sector_idx buffer bytes_read sector_ofs chunk_size s = do {
     (i, s1) \<leftarrow> cache_get sector_idx s;
     data' \<leftarrow> memcpy (bc_data (entry s1 i)) sector_ofs buffer bytes_read chunk_size;
     Some (set_entry i ((entry s1 i)\<lparr>bc_data := data', is_using := False, is_dirty := True\<rparr>) s1) }"

text \<open>The loop over the list: \<open>n\<close> entries left, the next is \<open>i\<close>.\<close>

primrec write_behind_pass :: "nat \<Rightarrow> nat \<Rightarrow> cache_state \<Rightarrow> cache_state option" where
  "write_behind_pass 0 i s = Some s"
| "write_behind_pass (Suc n) i s =
     (let cache_e = entry s i in
      if is_dirty cache_e
      then do {
        d \<leftarrow> disk_write (filesys_disk s) (bc_sector cache_e) (bc_data cache_e);
        write_behind_pass n (Suc i)
          (set_entry i (cache_e\<lparr>is_using := False, is_dirty := False\<rparr>) (s\<lparr>filesys_disk := d\<rparr>)) }
      else write_behind_pass n (Suc i) s)"

definition cache_write_behind_loop :: "cache_state \<Rightarrow> cache_state option" where
  "cache_write_behind_loop s = do {
     s1 \<leftarrow> acquire_cache_lock s;
     s2 \<leftarrow> write_behind_pass (length (buffer_cache_list s1)) 0 s1;
     release_cache_lock s2 }"

section \<open>Specification\<close>

text \<open>The value of a sector, and the invariant. \<open>cache_core\<close> is the part that also holds inside an
  operation; between operations no entry is in use and the lock is free.\<close>

definition cview :: "cache_state \<Rightarrow> disk_sector_t \<Rightarrow> byte list" where
  "cview s x = (case find_cache x (buffer_cache_list s) of
     Some i \<Rightarrow> bc_data (entry s i) | None \<Rightarrow> sector_at (filesys_disk s) x)"

definition cached :: "cache_state \<Rightarrow> disk_sector_t set" where
  "cached s = bc_sector ` set (buffer_cache_list s)"

definition entry_ok :: "disk \<Rightarrow> buffer_cache \<Rightarrow> bool" where
  "entry_ok d e \<longleftrightarrow> valid_sector d (bc_sector e) \<and> length (bc_data e) = DISK_SECTOR_SIZE
     \<and> (\<not> is_dirty e \<longrightarrow> bc_data e = sector_at d (bc_sector e))"

definition cache_core :: "cache_state \<Rightarrow> bool" where
  "cache_core s \<longleftrightarrow> disk_wf (filesys_disk s)
     \<and> distinct (map bc_sector (buffer_cache_list s))
     \<and> (\<forall>e \<in> set (buffer_cache_list s). entry_ok (filesys_disk s) e)
     \<and> length (buffer_cache_list s) = cache_current_size s
     \<and> cache_current_size s \<le> MAX_CACHE_SIZE
     \<and> (\<forall>n. heap_ok s n)"

definition cache_inv :: "cache_state \<Rightarrow> bool" where
  "cache_inv s \<longleftrightarrow> cache_core s \<and> (\<forall>e \<in> set (buffer_cache_list s). \<not> is_using e)
     \<and> \<not> buffer_cache_lock s"

section \<open>Looking up an entry\<close>

lemma find_cache_None_iff: "find_cache x l = None \<longleftrightarrow> x \<notin> bc_sector ` set l"
  by (induction l) auto

lemma find_cache_Some:
  "find_cache x l = Some i \<Longrightarrow> i < length l \<and> bc_sector (l ! i) = x"
  by (induction l arbitrary: i) (auto split: if_splits)

lemma find_cache_at:
  "distinct (map bc_sector l) \<Longrightarrow> i < length l \<Longrightarrow> find_cache (bc_sector (l ! i)) l = Some i"
proof (induction l arbitrary: i)
  case (Cons e l)
  then show ?case by (cases i) auto
qed simp

lemma find_cache_sectors: "map bc_sector l' = map bc_sector l \<Longrightarrow> find_cache x l' = find_cache x l"
proof (induction l arbitrary: l')
  case (Cons e l)
  from Cons.prems obtain e' k
    where k: "l' = e' # k" "bc_sector e' = bc_sector e" "map bc_sector k = map bc_sector l"
    by auto
  from Cons.IH [OF k(3)] k(1,2) show ?case by simp
qed simp

lemma entry_set_entry:
  "j < length (buffer_cache_list s) \<Longrightarrow> entry (set_entry i e s) j = (if j = i then e else entry s j)"
  by (simp add: entry_def set_entry_def nth_list_update)

lemma set_entry_fields [simp]:
  "filesys_disk (set_entry i e s) = filesys_disk s"
  "cache_current_size (set_entry i e s) = cache_current_size s"
  "buffer_cache_lock (set_entry i e s) = buffer_cache_lock s"
  "heap_ok (set_entry i e s) = heap_ok s"
  "buffer_cache_list (set_entry i e s) = (buffer_cache_list s)[i := e]"
  by (simp_all add: set_entry_def)

lemma entry_update [simp]:
  "entry (s\<lparr>filesys_disk := d\<rparr>) i = entry s i"
  "entry (s\<lparr>buffer_cache_lock := b\<rparr>) i = entry s i"
  "entry (s\<lparr>heap_cnt := n\<rparr>) i = entry s i"
  by (simp_all add: entry_def)

lemma cview_update [simp]:
  "cview (s\<lparr>buffer_cache_lock := b\<rparr>) y = cview s y"
  "cview (s\<lparr>heap_cnt := n\<rparr>) y = cview s y"
  by (simp_all add: cview_def split: option.split)

text \<open>An entry changed in place, its sector kept.\<close>

lemma map_sector_update:
  "bc_sector e = bc_sector (l ! i) \<Longrightarrow> map bc_sector (l[i := e]) = map bc_sector l"
  by (metis list_update_id map_update)

lemma cache_core_set_entry:
  assumes "cache_core s" and "bc_sector e = bc_sector (entry s i)"
    and "i < length (buffer_cache_list s)" and "entry_ok (filesys_disk s) e"
  shows "cache_core (set_entry i e s)"
  using assms map_sector_update [of e "buffer_cache_list s" i]
  by (auto simp: cache_core_def entry_def dest!: set_update_subset_insert [THEN subsetD])

lemma cview_set_entry:
  assumes "cache_core s" and "bc_sector e = bc_sector (entry s i)" and "i < length (buffer_cache_list s)"
  shows "cview (set_entry i e s) y = (if y = bc_sector e then bc_data e else cview s y)"
proof -
  let ?l = "buffer_cache_list s"
  have find: "find_cache y (?l[i := e]) = find_cache y ?l"
    using assms(2) by (intro find_cache_sectors map_sector_update) (simp add: entry_def)
  have at: "find_cache (bc_sector e) ?l = Some i"
    using find_cache_at [of ?l i] assms by (simp add: cache_core_def entry_def)
  show ?thesis
  proof (cases "y = bc_sector e")
    case True
    with find at assms(3) show ?thesis by (simp add: cview_def entry_set_entry)
  next
    case False
    have "k \<noteq> i \<and> k < length ?l" if "find_cache y ?l = Some k" for k
      using find_cache_Some [OF that] False assms(2) by (auto simp: entry_def)
    with find False show ?thesis
      by (auto simp: cview_def entry_set_entry split: option.split)
  qed
qed

lemma cview_entry:
  "cache_core s \<Longrightarrow> i < length (buffer_cache_list s) \<Longrightarrow> cview s (bc_sector (entry s i)) = bc_data (entry s i)"
  using find_cache_at [of "buffer_cache_list s" i] by (simp add: cview_def cache_core_def entry_def)

lemma cview_length:
  assumes "cache_core s" and "valid_sector (filesys_disk s) x"
  shows "length (cview s x) = DISK_SECTOR_SIZE"
proof (cases "find_cache x (buffer_cache_list s)")
  case None
  with assms show ?thesis by (simp add: cview_def cache_core_def sector_at_length)
next
  case (Some i)
  with find_cache_Some [OF Some] assms(1) show ?thesis
    by (auto simp: cview_def cache_core_def entry_ok_def entry_def)
qed

lemma cached_set_entry: "cached (set_entry i e s) \<subseteq> insert (bc_sector e) (cached s)"
  using set_update_subset_insert [of "buffer_cache_list s" i e] by (auto simp: cached_def)

lemma cview_uncached: "x \<notin> cached s \<Longrightarrow> cview s x = sector_at (filesys_disk s) x"
  by (auto simp: cview_def cached_def find_cache_None_iff split: option.split
      dest!: find_cache_Some)

section \<open>Replacement\<close>

text \<open>The loops of \<open>evict_cache\<close> change only the flag \<open>is_used\<close> of the entries they pass over.\<close>

definition clear_used :: "buffer_cache \<Rightarrow> buffer_cache" where
  "clear_used e = e\<lparr>is_used := False\<rparr>"

lemma clear_used_simps [simp]:
  "bc_sector (clear_used e) = bc_sector e" "bc_data (clear_used e) = bc_data e"
  "is_dirty (clear_used e) = is_dirty e" "is_using (clear_used e) = is_using e"
  "entry_ok d (clear_used e) = entry_ok d e"
  by (simp_all add: clear_used_def entry_ok_def)

lemma same_but_used:
  assumes "map clear_used l' = map clear_used l"
  shows "length l' = length l" and "map bc_sector l' = map bc_sector l"
    and "i < length l \<Longrightarrow> clear_used (l' ! i) = clear_used (l ! i)"
    and "(\<forall>e \<in> set l'. entry_ok d e) \<longleftrightarrow> (\<forall>e \<in> set l. entry_ok d e)"
proof -
  show len: "length l' = length l" using assms by (metis length_map)
  show "clear_used (l' ! i) = clear_used (l ! i)" if "i < length l"
    using assms that len by (metis nth_map)
  have "bc_sector = bc_sector \<circ> clear_used" by (simp add: fun_eq_iff)
  then show "map bc_sector l' = map bc_sector l" using assms by (metis map_map)
  have "(\<forall>e \<in> set l. entry_ok d e) \<longleftrightarrow> (\<forall>e \<in> set (map clear_used l). entry_ok d e)" for l
    by simp
  with assms show "(\<forall>e \<in> set l'. entry_ok d e) \<longleftrightarrow> (\<forall>e \<in> set l. entry_ok d e)" by metis
qed

lemma cache_core_used:
  assumes "map clear_used l = map clear_used (buffer_cache_list s)"
  shows "cache_core (s\<lparr>buffer_cache_list := l\<rparr>) = cache_core s"
  using same_but_used [OF assms] by (simp add: cache_core_def)

lemma cview_used:
  assumes "map clear_used l = map clear_used (buffer_cache_list s)"
  shows "cview (s\<lparr>buffer_cache_list := l\<rparr>) y = cview s y"
proof -
  have "find_cache y l = find_cache y (buffer_cache_list s)"
    using same_but_used(2) [OF assms] by (rule find_cache_sectors)
  moreover have "bc_data (l ! i) = bc_data (buffer_cache_list s ! i)"
    if "find_cache y (buffer_cache_list s) = Some i" for i
    using same_but_used(3) [OF assms, of i] find_cache_Some [OF that] clear_used_simps(2) by metis
  ultimately show ?thesis by (auto simp: cview_def entry_def split: option.split)
qed

lemma map_clear_used_update:
  "clear_used e = clear_used (l ! i) \<Longrightarrow> map clear_used (l[i := e]) = map clear_used l"
  by (metis list_update_id map_update)

lemma evict_pass_spec:
  fixes l
  assumes "i + n \<le> length l"
  shows "\<exists>l'. map clear_used l' = map clear_used l \<and>
     ((evict_pass n i x (s\<lparr>buffer_cache_list := l\<rparr>) = Some (None, s\<lparr>buffer_cache_list := l'\<rparr>)
         \<and> (\<forall>j. i \<le> j \<and> j < i + n \<longrightarrow> is_using (l ! j) \<or> is_used (l ! j) \<and> \<not> is_used (l' ! j))
         \<and> (\<forall>j < i. l' ! j = l ! j))
      \<or> (\<exists>j. i \<le> j \<and> j < i + n \<and> \<not> is_using (l ! j) \<and>
           evict_pass n i x (s\<lparr>buffer_cache_list := l\<rparr>)
             = map_option (\<lambda>s'. (Some j, s')) (reuse_cache j x (s\<lparr>buffer_cache_list := l'\<rparr>))))"
  using assms
proof (induction n arbitrary: i l)
  case 0
  then show ?case by auto
next
  case (Suc n)
  define l1 where "l1 = (if is_using (l ! i) then l else l[i := (l ! i)\<lparr>is_used := False\<rparr>])"
  have l1: "map clear_used l1 = map clear_used l" "length l1 = length l"
    using map_clear_used_update [of "(l ! i)\<lparr>is_used := False\<rparr>" l i] by (auto simp: l1_def clear_used_def)
  show ?case
  proof (cases "is_using (l ! i) \<or> is_used (l ! i)")
    case True
    then have step: "evict_pass (Suc n) i x (s\<lparr>buffer_cache_list := l\<rparr>)
        = evict_pass n (Suc i) x (s\<lparr>buffer_cache_list := l1\<rparr>)"
      by (auto simp: l1_def entry_def set_entry_def)
    have l1_at: "l1 ! i = (if is_using (l ! i) then l ! i else (l ! i)\<lparr>is_used := False\<rparr>)"
      "\<And>j. j \<noteq> i \<Longrightarrow> l1 ! j = l ! j" using Suc.prems by (auto simp: l1_def)
    from Suc.IH [of "Suc i" l1] Suc.prems l1(2)
    obtain l' where l': "map clear_used l' = map clear_used l1"
      and "(evict_pass n (Suc i) x (s\<lparr>buffer_cache_list := l1\<rparr>) = Some (None, s\<lparr>buffer_cache_list := l'\<rparr>)
             \<and> (\<forall>j. Suc i \<le> j \<and> j < Suc i + n \<longrightarrow> is_using (l1 ! j) \<or> is_used (l1 ! j) \<and> \<not> is_used (l' ! j))
             \<and> (\<forall>j < Suc i. l' ! j = l1 ! j))
          \<or> (\<exists>j. Suc i \<le> j \<and> j < Suc i + n \<and> \<not> is_using (l1 ! j) \<and>
               evict_pass n (Suc i) x (s\<lparr>buffer_cache_list := l1\<rparr>)
                 = map_option (\<lambda>s'. (Some j, s')) (reuse_cache j x (s\<lparr>buffer_cache_list := l'\<rparr>)))"
      (is "?none \<or> ?some") by auto
    then consider ?none | ?some by blast
    then show ?thesis
    proof cases
      case 1
      have "is_using (l ! j) \<or> is_used (l ! j) \<and> \<not> is_used (l' ! j)" if "i \<le> j" "j < i + Suc n" for j
      proof (cases "j = i")
        case True
        have "l' ! i = l1 ! i" using 1 by simp
        with True \<open>is_using (l ! i) \<or> is_used (l ! i)\<close> l1_at(1) show ?thesis by auto
      next
        case False
        with that have "Suc i \<le> j \<and> j < Suc i + n" by simp
        with 1 l1_at(2) [OF False] show ?thesis by metis
      qed
      moreover have "\<forall>j < i. l' ! j = l ! j" using 1 l1_at by auto
      ultimately show ?thesis using 1 step l' l1(1) by metis
    next
      case 2
      then show ?thesis using step l' l1 l1_at(2)
        by (metis Suc_leD add_Suc_shift n_not_Suc_n not_less_eq_eq order_refl)
    qed
  next
    case False
    then have "evict_pass (Suc n) i x (s\<lparr>buffer_cache_list := l\<rparr>)
        = map_option (\<lambda>s'. (Some i, s')) (reuse_cache i x (s\<lparr>buffer_cache_list := l\<rparr>))"
      by (simp add: entry_def map_conv_bind_option comp_def)
    with False show ?thesis by (intro exI [of _ l]) auto
  qed
qed

lemma find_cache_replace:
  assumes "distinct (map bc_sector l)" and "i < length l" and "bc_sector e \<notin> bc_sector ` set l"
  shows "find_cache y (l[i := e]) =
    (if y = bc_sector e then Some i else if y = bc_sector (l ! i) then None else find_cache y l)"
  using assms
proof (induction l arbitrary: i)
  case (Cons a l)
  show ?case
  proof (cases i)
    case 0
    have "find_cache (bc_sector a) l = None" using Cons.prems(1) by (auto simp: find_cache_None_iff)
    with 0 show ?thesis by auto
  next
    case (Suc k)
    have ih: "find_cache y (l[k := e]) =
        (if y = bc_sector e then Some k else if y = bc_sector (l ! k) then None else find_cache y l)"
      using Cons.prems Suc by (intro Cons.IH) auto
    moreover have "bc_sector a \<noteq> bc_sector e" "bc_sector a \<noteq> bc_sector (l ! k)"
      using Cons.prems Suc by auto
    ultimately show ?thesis using Suc by auto
  qed
qed simp

lemma write_back_spec:
  assumes "disk_wf d" and "entry_ok d e"
  shows "\<exists>d'. (if is_dirty e then disk_write d (bc_sector e) (bc_data e) else Some d) = Some d'
     \<and> disk_wf d' \<and> capacity d' = capacity d
     \<and> (\<forall>y. sector_at d' y = (if y = bc_sector e then bc_data e else sector_at d y))"
proof (cases "is_dirty e")
  case True
  with assms show ?thesis
    by (simp add: entry_ok_def disk_write_spec disk_wf_media sector_at_media)
next
  case False
  with assms show ?thesis by (simp add: entry_ok_def)
qed

lemma valid_sector_capacity: "capacity d' = capacity d \<Longrightarrow> valid_sector d' x = valid_sector d x"
  by (simp add: valid_sector_def)

lemma reuse_cache_spec:
  assumes core: "cache_core s" and i: "i < length (buffer_cache_list s)"
    and x: "valid_sector (filesys_disk s) x" "find_cache x (buffer_cache_list s) = None"
  shows "\<exists>s' e. reuse_cache i x s = Some s' \<and> cache_core s' \<and> (\<forall>y. cview s' y = cview s y)
    \<and> buffer_cache_list s' = (buffer_cache_list s)[i := e] \<and> bc_sector e = x \<and> is_using e
    \<and> buffer_cache_lock s' = buffer_cache_lock s
    \<and> capacity (filesys_disk s') = capacity (filesys_disk s)"
proof -
  let ?l = "buffer_cache_list s" and ?d = "filesys_disk s" and ?e = "entry s i"
  have ok: "entry_ok ?d (?l ! j)" if "j < length ?l" for j using core that by (simp add: cache_core_def)
  have dist: "distinct (map bc_sector ?l)" and len: "length ?l = cache_current_size s"
    using core by (auto simp: cache_core_def)
  have "disk_wf ?d" using core by (simp add: cache_core_def)
  moreover have "entry_ok ?d ?e" using ok [OF i] by (simp add: entry_def)
  ultimately obtain d1 where d1:
    "(if is_dirty ?e then disk_write ?d (bc_sector ?e) (bc_data ?e) else Some ?d) = Some d1"
    "disk_wf d1" "capacity d1 = capacity ?d"
    "\<And>y. sector_at d1 y = (if y = bc_sector ?e then bc_data ?e else sector_at ?d y)"
    using write_back_spec by blast
  define e' where "e' = ?e\<lparr>is_using := True, bc_sector := x, bc_data := sector_at d1 x, is_dirty := False\<rparr>"
  let ?d2 = "d1\<lparr>read_cnt := Suc (read_cnt d1)\<rparr>"
  let ?s' = "set_entry i e' (s\<lparr>filesys_disk := ?d2\<rparr>)"
  have valid: "valid_sector d1 y = valid_sector ?d y" for y using d1(3) by (rule valid_sector_capacity)
  have res: "reuse_cache i x s = Some ?s'"
    using d1 x(1) valid by (simp add: reuse_cache_def Let_def disk_read_spec e'_def)
  have xn: "x \<notin> bc_sector ` set ?l" using x(2) by (simp add: find_cache_None_iff)
  have e': "bc_sector e' = x" "bc_data e' = sector_at d1 x" "is_using e'" "\<not> is_dirty e'"
    by (simp_all add: e'_def)
  have find: "find_cache y (?l[i := e']) =
      (if y = x then Some i else if y = bc_sector (?l ! i) then None else find_cache y ?l)" for y
    using find_cache_replace [OF dist i, of e' y] xn e'(1) by simp
  have view: "cview ?s' y = cview s y" for y
  proof -
    have "x \<noteq> bc_sector ?e" using xn i by (auto simp: entry_def)
    moreover have "k < length ?l \<and> k \<noteq> i" if "find_cache y ?l = Some k" "y \<noteq> bc_sector ?e" for k
      using find_cache_Some [OF that(1)] that(2) by (auto simp: entry_def)
    moreover have "find_cache (bc_sector ?e) ?l = Some i" using find_cache_at [OF dist i] by (simp add: entry_def)
    ultimately show ?thesis
      using find [of y] i e' x(2) d1(4) [of y]
      by (auto simp: cview_def entry_def split: option.splits)
  qed
  have "entry_ok ?d2 (?l[i := e'] ! j)" if "j < length ?l" for j
  proof (cases "j = i")
    case True
    with e' i x(1) valid sector_at_length [OF d1(2), of x] show ?thesis by (simp add: entry_ok_def)
  next
    case False
    have "bc_sector (?l ! j) \<noteq> bc_sector ?e"
      using nth_eq_iff_index_eq [OF dist, of j i] False that i by (simp add: entry_def)
    with False ok [OF that] valid d1(4) show ?thesis by (auto simp: entry_ok_def)
  qed
  then have "\<forall>e \<in> set (?l[i := e']). entry_ok ?d2 e" by (metis in_set_conv_nth length_list_update)
  moreover have "distinct (map bc_sector (?l[i := e']))"
    using dist xn e'(1) unfolding map_update by (intro distinct_list_update) auto
  ultimately have "cache_core ?s'" using core d1(2) len by (simp add: cache_core_def)
  with res view e'(1,3) d1(3) show ?thesis by (intro exI [of _ ?s'] exI [of _ e']) simp
qed

text \<open>Some entry is not in use: then one of the two passes finds a victim.\<close>

lemma evict_cache_spec:
  assumes core: "cache_core s" and free: "k < length (buffer_cache_list s)" "\<not> is_using (entry s k)"
    and x: "valid_sector (filesys_disk s) x" "find_cache x (buffer_cache_list s) = None"
  shows "\<exists>i s' l e. evict_cache x s = Some (Some i, s') \<and> cache_core s' \<and> (\<forall>y. cview s' y = cview s y)
    \<and> i < length (buffer_cache_list s) \<and> map clear_used l = map clear_used (buffer_cache_list s)
    \<and> buffer_cache_list s' = l[i := e] \<and> bc_sector e = x \<and> is_using e
    \<and> buffer_cache_lock s' = buffer_cache_lock s
    \<and> capacity (filesys_disk s') = capacity (filesys_disk s)"
proof -
  let ?l = "buffer_cache_list s" and ?n = "length (buffer_cache_list s)"
  let ?s = "\<lambda>l. s\<lparr>buffer_cache_list := l\<rparr>"
  have reuse: "\<exists>s' e. reuse_cache i x (?s l) = Some s' \<and> cache_core s' \<and> (\<forall>y. cview s' y = cview s y)
      \<and> buffer_cache_list s' = l[i := e] \<and> bc_sector e = x \<and> is_using e
      \<and> buffer_cache_lock s' = buffer_cache_lock s \<and> capacity (filesys_disk s') = capacity (filesys_disk s)"
    if "map clear_used l = map clear_used ?l" "i < ?n" for l i
    using reuse_cache_spec [of "?s l" i x] that x core cache_core_used [OF that(1)] cview_used [OF that(1)]
      same_but_used(1,2) [OF that(1)] find_cache_sectors [of l ?l x] by simp
  have ne: "?l \<noteq> []" using free by auto
  from evict_pass_spec [of 0 ?n ?l x s] obtain l1 where l1: "map clear_used l1 = map clear_used ?l"
    and pass1: "(evict_pass ?n 0 x s = Some (None, ?s l1)
         \<and> (\<forall>j < ?n. is_using (?l ! j) \<or> is_used (?l ! j) \<and> \<not> is_used (l1 ! j)))
      \<or> (\<exists>j < ?n. evict_pass ?n 0 x s = map_option (\<lambda>s'. (Some j, s')) (reuse_cache j x (?s l1)))"
    by auto
  from pass1 show ?thesis
  proof (elim disjE exE conjE)
    fix j assume j: "j < ?n" "evict_pass ?n 0 x s = map_option (\<lambda>s'. (Some j, s')) (reuse_cache j x (?s l1))"
    from reuse [OF l1 j(1)] j ne l1 show ?thesis by (fastforce simp: evict_cache_def Let_def)
  next
    assume none: "evict_pass ?n 0 x s = Some (None, ?s l1)"
      and flags: "\<forall>j < ?n. is_using (?l ! j) \<or> is_used (?l ! j) \<and> \<not> is_used (l1 ! j)"
    have n: "length l1 = ?n" using same_but_used(1) [OF l1] .
    have k: "\<not> is_using (l1 ! k)" "\<not> is_used (l1 ! k)"
      using same_but_used(3) [OF l1 free(1)] free flags clear_used_simps(4) by (metis entry_def)+
    from evict_pass_spec [of 0 ?n l1 x s] n obtain l2 j where l2: "map clear_used l2 = map clear_used l1"
      "j < ?n" "evict_pass ?n 0 x (?s l1) = map_option (\<lambda>s'. (Some j, s')) (reuse_cache j x (?s l2))"
      using k free(1) by auto
    from reuse [of l2 j] l2 l1 ne none show ?thesis by (fastforce simp: evict_cache_def Let_def)
  qed
qed

section \<open>Reading and writing\<close>

lemma find_cache_append:
  "find_cache y (l @ [e]) = (case find_cache y l of Some k \<Rightarrow> Some k
     | None \<Rightarrow> if y = bc_sector e then Some (length l) else None)"
  by (induction l) (auto split: option.splits)

lemma allocate_new_cache_spec:
  assumes core: "cache_core s" and size: "cache_current_size s < MAX_CACHE_SIZE"
    and x: "valid_sector (filesys_disk s) x" "find_cache x (buffer_cache_list s) = None"
  shows "\<exists>s' e. allocate_new_cache x s = Some (length (buffer_cache_list s), s') \<and> cache_core s'
    \<and> (\<forall>y. cview s' y = cview s y)
    \<and> buffer_cache_list s' = buffer_cache_list s @ [e] \<and> bc_sector e = x \<and> \<not> is_using e
    \<and> buffer_cache_lock s' = buffer_cache_lock s
    \<and> capacity (filesys_disk s') = capacity (filesys_disk s)"
proof -
  let ?l = "buffer_cache_list s" and ?d = "filesys_disk s"
  let ?e = "\<lparr>bc_sector = x, bc_data = sector_at ?d x, is_used = True, is_dirty = False, is_using = False\<rparr>"
  let ?s' = "s\<lparr>heap_cnt := Suc (heap_cnt s), buffer_cache_list := ?l @ [?e],
    cache_current_size := cache_current_size s + 1, filesys_disk := ?d\<lparr>read_cnt := Suc (read_cnt ?d)\<rparr>\<rparr>"
  have wf: "disk_wf ?d" "\<forall>n. heap_ok s n" using core by (auto simp: cache_core_def)
  then have res: "allocate_new_cache x s = Some (length ?l, ?s')"
    using x(1) by (simp add: allocate_new_cache_def malloc_def disk_read_spec)
  have "entry_ok (?d\<lparr>read_cnt := n\<rparr>) e = entry_ok ?d e" for n e by (simp add: entry_ok_def)
  moreover have "entry_ok ?d ?e" using x(1) wf(1) by (simp add: entry_ok_def sector_at_length)
  moreover have "x \<notin> bc_sector ` set ?l" using x(2) by (simp add: find_cache_None_iff)
  ultimately have "cache_core ?s'" using core size by (simp add: cache_core_def)
  moreover have "cview ?s' y = cview s y" for y
    using x(2) find_cache_Some [of y ?l]
    by (auto simp: cview_def find_cache_append entry_def nth_append split: option.split)
  ultimately show ?thesis using res by auto
qed

text \<open>Between operations: the entry the code gets for a sector holds its value.\<close>

lemma cache_get_spec:
  assumes inv: "cache_inv s" and x: "valid_sector (filesys_disk s) x"
  shows "\<exists>i s'. cache_get x s = Some (i, s') \<and> cache_core s' \<and> (\<forall>y. cview s' y = cview s y)
    \<and> i < length (buffer_cache_list s') \<and> bc_sector (entry s' i) = x
    \<and> (\<forall>j < length (buffer_cache_list s'). j \<noteq> i \<longrightarrow> \<not> is_using (entry s' j))
    \<and> \<not> buffer_cache_lock s' \<and> capacity (filesys_disk s') = capacity (filesys_disk s)
    \<and> cached s' \<subseteq> insert x (cached s)"
proof -
  let ?s1 = "s\<lparr>buffer_cache_lock := True\<rparr>" and ?l = "buffer_cache_list s"
  have core1: "cache_core ?s1" using inv by (simp add: cache_inv_def cache_core_def)
  have lock: "acquire_cache_lock s = Some ?s1"
    using inv by (simp add: acquire_cache_lock_def cache_inv_def)
  have view1: "cview ?s1 y = cview s y" for y by simp
  have unused: "\<not> is_using (?l ! j)" if "j < length ?l" for j using inv that by (simp add: cache_inv_def)
  text \<open>The common end: the entry \<open>i\<close> of the state \<open>s2\<close> is marked and the lock released.\<close>
  have finish: ?thesis
    if s2: "cache_core s2" "\<And>y. cview s2 y = cview s y" "i < length (buffer_cache_list s2)"
      "bc_sector (entry s2 i) = x" "\<And>j. j < length (buffer_cache_list s2) \<Longrightarrow> j \<noteq> i \<Longrightarrow> \<not> is_using (entry s2 j)"
      "buffer_cache_lock s2" "capacity (filesys_disk s2) = capacity (filesys_disk s)"
      "cached s2 \<subseteq> insert x (cached s)"
    and e: "bc_sector e = x" "bc_data e = bc_data (entry s2 i)" "is_dirty e = is_dirty (entry s2 i)"
    and get: "cache_get x s = do { s3 \<leftarrow> release_cache_lock (set_entry i e s2); Some (i, s3) }"
    for i e s2
  proof -
    let ?s3 = "(set_entry i e s2)\<lparr>buffer_cache_lock := False\<rparr>"
    have ok: "entry_ok (filesys_disk s2) e" using s2(1,3,4) e by (auto simp: cache_core_def entry_ok_def entry_def)
    have "cache_core (set_entry i e s2)" using s2(1,3,4) e(1) ok by (intro cache_core_set_entry) auto
    then have "cache_core ?s3" by (simp add: cache_core_def)
    moreover have "cview ?s3 y = cview s y" for y
      using cview_set_entry [OF s2(1), of e i y] s2 e cview_entry [OF s2(1,3)] by simp
    moreover have "cached ?s3 \<subseteq> insert x (cached s)"
      using cached_set_entry [of i e s2] s2(8) e(1) by (auto simp: cached_def)
    ultimately show ?thesis using s2 e(1) get by (simp add: release_cache_lock_def entry_set_entry)
  qed
  show ?thesis
  proof (cases "find_cache x ?l")
    case (Some i)
    from find_cache_Some [OF Some] have i: "i < length ?l" "bc_sector (?l ! i) = x" by auto
    show ?thesis
      by (rule finish [of ?s1 i "(entry ?s1 i)\<lparr>is_used := True, is_using := True\<rparr>"])
        (use core1 view1 i unused Some lock in \<open>auto simp: cache_get_def entry_def cached_def\<close>)
  next
    case None
    show ?thesis
    proof (cases "cache_current_size s < MAX_CACHE_SIZE")
      case True
      from allocate_new_cache_spec [OF core1, of x] True x None obtain s2 e where s2:
        "allocate_new_cache x ?s1 = Some (length ?l, s2)" "cache_core s2" "\<And>y. cview s2 y = cview s y"
        "buffer_cache_list s2 = ?l @ [e]" "bc_sector e = x" "buffer_cache_lock s2"
        "capacity (filesys_disk s2) = capacity (filesys_disk s)" using view1 by auto
      show ?thesis
        by (rule finish [of s2 "length ?l" "(entry s2 (length ?l))\<lparr>is_using := True\<rparr>"])
          (use s2 unused None lock True in \<open>auto simp: cache_get_def entry_def nth_append cached_def\<close>)
    next
      case False
      have len: "length ?l = cache_current_size s" using inv by (simp add: cache_inv_def cache_core_def)
      then have 0: "0 < length ?l" using False by (simp add: MAX_CACHE_SIZE_def)
      with unused evict_cache_spec [OF core1, of 0 x] x None obtain i s2 l e where s2:
        "evict_cache x ?s1 = Some (Some i, s2)" "cache_core s2" "\<And>y. cview s2 y = cview s y"
        "i < length ?l" "map clear_used l = map clear_used ?l" "buffer_cache_list s2 = l[i := e]"
        "bc_sector e = x" "buffer_cache_lock s2" "capacity (filesys_disk s2) = capacity (filesys_disk s)"
        using view1 by (auto simp: entry_def)
      have l: "length l = length ?l" "\<And>j. j < length ?l \<Longrightarrow> \<not> is_using (l ! j)"
        using same_but_used [OF s2(5)] unused clear_used_simps(4) by metis+
      have "cached s2 \<subseteq> insert x (cached s)"
      proof -
        have "bc_sector ` set l = bc_sector ` set ?l" using same_but_used(2) [OF s2(5)] by (metis list.set_map)
        then show ?thesis using s2(6,7) set_update_subset_insert [of l i e] by (auto simp: cached_def)
      qed
      then show ?thesis
        by (intro finish [of s2 i "(entry s2 i)\<lparr>is_using := True\<rparr>"])
          (use s2 l None lock False in \<open>auto simp: cache_get_def entry_def\<close>)
    qed
  qed
qed

lemma cache_inv_finish:
  assumes core: "cache_core s" and i: "i < length (buffer_cache_list s)"
    and others: "\<forall>j < length (buffer_cache_list s). j \<noteq> i \<longrightarrow> \<not> is_using (entry s j)"
    and lock: "\<not> buffer_cache_lock s" and e: "bc_sector e = bc_sector (entry s i)" "\<not> is_using e"
    and ok: "entry_ok (filesys_disk s) e"
  shows "cache_inv (set_entry i e s)"
proof -
  have "\<not> is_using ((buffer_cache_list s)[i := e] ! j)" if "j < length (buffer_cache_list s)" for j
    using others that e(2) i by (auto simp: entry_def nth_list_update)
  then have "\<forall>a \<in> set ((buffer_cache_list s)[i := e]). \<not> is_using a"
    by (metis in_set_conv_nth length_list_update)
  with cache_core_set_entry [OF core e(1) i ok] lock show ?thesis by (simp add: cache_inv_def)
qed

lemma cache_read_spec:
  assumes inv: "cache_inv s" and x: "valid_sector (filesys_disk s) x"
    and n: "ofs + n \<le> DISK_SECTOR_SIZE" "p + n \<le> length buf"
  shows "\<exists>s'. cache_read x buf p ofs n s = Some (overwrite p (take n (drop ofs (cview s x))) buf, s')
    \<and> cache_inv s' \<and> (\<forall>y. cview s' y = cview s y)
    \<and> capacity (filesys_disk s') = capacity (filesys_disk s) \<and> cached s' \<subseteq> insert x (cached s)"
proof -
  from cache_get_spec [OF inv x] obtain i s1 where s1: "cache_get x s = Some (i, s1)" "cache_core s1"
    "\<And>y. cview s1 y = cview s y" "i < length (buffer_cache_list s1)" "bc_sector (entry s1 i) = x"
    "\<forall>j < length (buffer_cache_list s1). j \<noteq> i \<longrightarrow> \<not> is_using (entry s1 j)"
    "\<not> buffer_cache_lock s1" "capacity (filesys_disk s1) = capacity (filesys_disk s)"
    "cached s1 \<subseteq> insert x (cached s)" by blast
  let ?e = "(entry s1 i)\<lparr>is_using := False\<rparr>"
  have data: "bc_data (entry s1 i) = cview s x" using cview_entry [OF s1(2,4)] s1(3,5) by simp
  have ok: "entry_ok (filesys_disk s1) (entry s1 i)"
    using s1(2,4) by (simp add: cache_core_def entry_def)
  then have "memcpy buf p (bc_data (entry s1 i)) ofs n = Some (overwrite p (take n (drop ofs (cview s x))) buf)"
    using n data by (simp add: memcpy_spec entry_ok_def)
  moreover have "cache_inv (set_entry i ?e s1)"
    using s1 ok by (intro cache_inv_finish) (auto simp: entry_ok_def)
  moreover have "cview (set_entry i ?e s1) y = cview s y" for y
    using cview_set_entry [OF s1(2) _ s1(4), of ?e y] s1(3,5) data by simp
  moreover have "cached (set_entry i ?e s1) \<subseteq> insert x (cached s)"
    using cached_set_entry [of i ?e s1] s1(5,9) by auto
  ultimately show ?thesis using s1(1,8) by (simp add: cache_read_def)
qed

lemma cache_write_spec:
  assumes inv: "cache_inv s" and x: "valid_sector (filesys_disk s) x"
    and n: "ofs + n \<le> DISK_SECTOR_SIZE" "p + n \<le> length buf"
  shows "\<exists>s'. cache_write x buf p ofs n s = Some s' \<and> cache_inv s'
    \<and> (\<forall>y. cview s' y = (if y = x then overwrite ofs (take n (drop p buf)) (cview s x) else cview s y))
    \<and> capacity (filesys_disk s') = capacity (filesys_disk s) \<and> cached s' \<subseteq> insert x (cached s)"
proof -
  from cache_get_spec [OF inv x] obtain i s1 where s1: "cache_get x s = Some (i, s1)" "cache_core s1"
    "\<And>y. cview s1 y = cview s y" "i < length (buffer_cache_list s1)" "bc_sector (entry s1 i) = x"
    "\<forall>j < length (buffer_cache_list s1). j \<noteq> i \<longrightarrow> \<not> is_using (entry s1 j)"
    "\<not> buffer_cache_lock s1" "capacity (filesys_disk s1) = capacity (filesys_disk s)"
    "cached s1 \<subseteq> insert x (cached s)" by blast
  let ?d = "overwrite ofs (take n (drop p buf)) (cview s x)"
  let ?e = "(entry s1 i)\<lparr>bc_data := ?d, is_using := False, is_dirty := True\<rparr>"
  have data: "bc_data (entry s1 i) = cview s x" using cview_entry [OF s1(2,4)] s1(3,5) by simp
  have ok: "entry_ok (filesys_disk s1) (entry s1 i)"
    using s1(2,4) by (simp add: cache_core_def entry_def)
  have len: "length (cview s x) = DISK_SECTOR_SIZE" using ok data by (simp add: entry_ok_def)
  then have "memcpy (bc_data (entry s1 i)) ofs buf p n = Some ?d"
    using n data by (simp add: memcpy_spec)
  moreover have "cache_inv (set_entry i ?e s1)"
    using s1 ok n len by (intro cache_inv_finish) (auto simp: entry_ok_def)
  moreover have "cview (set_entry i ?e s1) y = (if y = x then ?d else cview s y)" for y
    using cview_set_entry [OF s1(2) _ s1(4), of ?e y] s1(3,5) by simp
  moreover have "cached (set_entry i ?e s1) \<subseteq> insert x (cached s)"
    using cached_set_entry [of i ?e s1] s1(5,9) by auto
  ultimately show ?thesis using s1(1,8) by (simp add: cache_write_def)
qed

lemma cache_op_invalid:
  assumes inv: "cache_inv s" and x: "\<not> valid_sector (filesys_disk s) x"
  shows "cache_get x s = None"
proof -
  have nf: "find_cache x (buffer_cache_list s) = None"
    using inv x by (auto simp: find_cache_None_iff cache_inv_def cache_core_def entry_ok_def)
  have "reuse_cache i x t = None"
    if "capacity (filesys_disk t) = capacity (filesys_disk s)" for i t
  proof -
    have "\<not> valid_sector d x" if "capacity d = capacity (filesys_disk s)" for d
      using x valid_sector_capacity [OF that] by simp
    moreover have "capacity d1 = capacity d" if "disk_write d y b = Some d1" for d d1 y b
      using that by (auto simp: disk_write_def kassert_Some_iff bind_Some_iff)
    ultimately show ?thesis using that
      by (auto simp: reuse_cache_def Let_def disk_access_invalid split: bind_split)
  qed
  then have pass: "evict_pass n i x t = Some (r, t') \<Longrightarrow>
      capacity (filesys_disk t) = capacity (filesys_disk s) \<Longrightarrow> r = None
      \<and> capacity (filesys_disk t') = capacity (filesys_disk s)" for n i t t' r
    by (induction n arbitrary: i t) (auto simp: Let_def split: if_splits)
  have evict: "evict_cache x t = Some (r, t') \<Longrightarrow>
      capacity (filesys_disk t) = capacity (filesys_disk s) \<Longrightarrow> r = None" for t r t'
    by (auto simp: evict_cache_def Let_def bind_Some_iff split: if_splits dest: pass)
  have "allocate_new_cache x (s\<lparr>buffer_cache_lock := True\<rparr>) = None"
    using x by (auto simp: allocate_new_cache_def malloc_def disk_access_invalid kassert_def)
  with nf show ?thesis
    by (auto simp: cache_get_def acquire_cache_lock_def kassert_def split: bind_split dest: evict)
qed

section \<open>Write-behind\<close>

lemma write_behind_pass_spec:
  assumes "cache_core s" and "i + n = length (buffer_cache_list s)"
    and "\<forall>j < i. \<not> is_dirty (entry s j)"
  shows "\<exists>s'. write_behind_pass n i s = Some s' \<and> cache_core s' \<and> (\<forall>y. cview s' y = cview s y)
    \<and> (\<forall>e \<in> set (buffer_cache_list s'). \<not> is_dirty e)
    \<and> ((\<forall>e \<in> set (buffer_cache_list s). \<not> is_using e) \<longrightarrow> (\<forall>e \<in> set (buffer_cache_list s'). \<not> is_using e))
    \<and> buffer_cache_lock s' = buffer_cache_lock s \<and> capacity (filesys_disk s') = capacity (filesys_disk s)"
  using assms
proof (induction n arbitrary: i s)
  case 0
  then have "\<forall>e \<in> set (buffer_cache_list s). \<not> is_dirty e" by (metis add_0_right entry_def in_set_conv_nth)
  with 0 show ?case by simp
next
  case (Suc n)
  let ?l = "buffer_cache_list s" and ?d = "filesys_disk s" and ?e = "entry s i"
  have i: "i < length ?l" using Suc.prems(2) by simp
  show ?case
  proof (cases "is_dirty ?e")
    case False
    then have "\<forall>j < Suc i. \<not> is_dirty (entry s j)" using Suc.prems(3) less_Suc_eq by auto
    with Suc.IH [of s "Suc i"] Suc.prems(1,2) False show ?thesis by simp
  next
    case True
    have ok: "entry_ok ?d (?l ! j)" if "j < length ?l" for j
      using Suc.prems(1) that by (simp add: cache_core_def)
    have wf: "disk_wf ?d" and dist: "distinct (map bc_sector ?l)"
      using Suc.prems(1) by (auto simp: cache_core_def)
    have "entry_ok ?d ?e" using ok [OF i] by (simp add: entry_def)
    from write_back_spec [OF wf this] True obtain d where d: "disk_write ?d (bc_sector ?e) (bc_data ?e) = Some d"
      "disk_wf d" "capacity d = capacity ?d"
      "\<And>y. sector_at d y = (if y = bc_sector ?e then bc_data ?e else sector_at ?d y)" by auto
    let ?e' = "?e\<lparr>is_using := False, is_dirty := False\<rparr>"
    let ?s1 = "set_entry i ?e' (s\<lparr>filesys_disk := d\<rparr>)"
    have ok': "entry_ok d (?l[i := ?e'] ! j)" if "j < length ?l" for j
    proof (cases "j = i")
      case True
      with ok [OF i] d i valid_sector_capacity [OF d(3)] show ?thesis by (simp add: entry_ok_def entry_def)
    next
      case False
      have "bc_sector (?l ! j) \<noteq> bc_sector ?e"
        using nth_eq_iff_index_eq [OF dist, of j i] False that i by (simp add: entry_def)
      with False ok [OF that] valid_sector_capacity [OF d(3)] d(4) show ?thesis by (auto simp: entry_ok_def)
    qed
    then have "\<forall>a \<in> set (?l[i := ?e']). entry_ok d a" by (metis in_set_conv_nth length_list_update)
    moreover have "map bc_sector (?l[i := ?e']) = map bc_sector ?l"
      by (rule map_sector_update) (simp add: entry_def)
    ultimately have core1: "cache_core ?s1" using Suc.prems(1) d(2) dist by (simp add: cache_core_def)
    have find: "find_cache y (?l[i := ?e']) = find_cache y ?l" for y
      by (intro find_cache_sectors map_sector_update) (simp add: entry_def)
    have view: "cview ?s1 y = cview s y" for y
    proof (cases "find_cache y ?l")
      case None
      with i have "y \<noteq> bc_sector ?e" by (auto simp: find_cache_None_iff entry_def)
      with None find d(4) show ?thesis by (simp add: cview_def)
    next
      case (Some k)
      with find find_cache_Some [OF Some] show ?thesis by (simp add: cview_def entry_set_entry)
    qed
    have "\<forall>j < Suc i. \<not> is_dirty (entry ?s1 j)"
      using Suc.prems(3) i by (auto simp: entry_set_entry less_Suc_eq)
    with Suc.IH [of ?s1 "Suc i"] core1 Suc.prems(2) obtain s' where s':
      "write_behind_pass n (Suc i) ?s1 = Some s'" "cache_core s'" "\<forall>y. cview s' y = cview ?s1 y"
      "\<forall>e \<in> set (buffer_cache_list s'). \<not> is_dirty e"
      "(\<forall>e \<in> set (?l[i := ?e']). \<not> is_using e) \<longrightarrow> (\<forall>e \<in> set (buffer_cache_list s'). \<not> is_using e)"
      "buffer_cache_lock s' = buffer_cache_lock s" "capacity (filesys_disk s') = capacity d" by auto
    have "(\<forall>e \<in> set ?l. \<not> is_using e) \<longrightarrow> (\<forall>e \<in> set (?l[i := ?e']). \<not> is_using e)"
      by (auto dest!: set_update_subset_insert [THEN subsetD])
    with s'(5) have "(\<forall>e \<in> set ?l. \<not> is_using e) \<longrightarrow> (\<forall>e \<in> set (buffer_cache_list s'). \<not> is_using e)"
      by blast
    moreover have "write_behind_pass (Suc n) i s = Some s'" using s'(1) True d(1) by simp
    moreover have "\<forall>y. cview s' y = cview s y" "capacity (filesys_disk s') = capacity ?d"
      using s'(3,7) view d(3) by simp_all
    ultimately show ?thesis using s'(2,4,6) by blast
  qed
qed

lemma cache_write_behind_loop_spec:
  assumes "cache_inv s"
  shows "\<exists>s'. cache_write_behind_loop s = Some s' \<and> cache_inv s' \<and> (\<forall>y. cview s' y = cview s y)
    \<and> (\<forall>y. sector_at (filesys_disk s') y = cview s y)
    \<and> capacity (filesys_disk s') = capacity (filesys_disk s)"
proof -
  let ?s1 = "s\<lparr>buffer_cache_lock := True\<rparr>"
  have "cache_core ?s1" using assms by (simp add: cache_inv_def cache_core_def)
  from write_behind_pass_spec [OF this, of 0 "length (buffer_cache_list s)"] assms
  obtain s' where s': "write_behind_pass (length (buffer_cache_list s)) 0 ?s1 = Some s'" "cache_core s'"
    "\<forall>y. cview s' y = cview s y" "\<forall>e \<in> set (buffer_cache_list s'). \<not> is_dirty e"
    "\<forall>e \<in> set (buffer_cache_list s'). \<not> is_using e" "buffer_cache_lock s'"
    "capacity (filesys_disk s') = capacity (filesys_disk s)" by (auto simp: cache_inv_def)
  have "sector_at (filesys_disk s') y = cview s' y" for y
  proof (cases "find_cache y (buffer_cache_list s')")
    case (Some i)
    with find_cache_Some [OF Some] s'(2,4) show ?thesis
      by (auto simp: cview_def cache_core_def entry_ok_def entry_def)
  qed (simp add: cview_def)
  moreover have "cache_inv (s'\<lparr>buffer_cache_lock := False\<rparr>)"
    using s' by (simp add: cache_inv_def cache_core_def)
  ultimately show ?thesis using s' assms
    by (simp add: cache_write_behind_loop_def acquire_cache_lock_def release_cache_lock_def cache_inv_def)
qed

section \<open>The contract of a sector store\<close>

text \<open>What the file system relies on: a store of sectors with values, reads of parts of a sector,
  writes to parts of a sector, and a synchronisation that changes no value.\<close>

datatype store_op = Fetch disk_sector_t nat nat | Put disk_sector_t nat "byte list" | Sync

primrec op_ok :: "(disk_sector_t \<Rightarrow> bool) \<Rightarrow> store_op \<Rightarrow> bool" where
  "op_ok valid (Fetch x ofs n) = (valid x \<and> ofs + n \<le> DISK_SECTOR_SIZE)"
| "op_ok valid (Put x ofs bs) = (valid x \<and> ofs + length bs \<le> DISK_SECTOR_SIZE)"
| "op_ok valid Sync = True"

text \<open>A sequence of operations on an array of sectors: the bytes each read returns.\<close>

primrec array_run :: "store_op list \<Rightarrow> (disk_sector_t \<Rightarrow> byte list) \<Rightarrow> byte list list \<times> (disk_sector_t \<Rightarrow> byte list)" where
  "array_run [] a = ([], a)"
| "array_run (oper # ops) a = (case oper of
     Fetch x ofs n \<Rightarrow> (let (outs, a') = array_run ops a in (take n (drop ofs (a x)) # outs, a'))
   | Put x ofs bs \<Rightarrow> array_run ops (a(x := overwrite ofs bs (a x)))
   | Sync \<Rightarrow> array_run ops a)"

primrec store_run ::
    "(disk_sector_t \<Rightarrow> nat \<Rightarrow> nat \<Rightarrow> 's \<Rightarrow> (byte list \<times> 's) option) \<Rightarrow>
     (disk_sector_t \<Rightarrow> nat \<Rightarrow> byte list \<Rightarrow> 's \<Rightarrow> 's option) \<Rightarrow> ('s \<Rightarrow> 's option) \<Rightarrow>
     store_op list \<Rightarrow> 's \<Rightarrow> (byte list list \<times> 's) option" where
  "store_run fetch put sync [] s = Some ([], s)"
| "store_run fetch put sync (oper # ops) s = (case oper of
     Fetch x ofs n \<Rightarrow> do {
       (bs, s1) \<leftarrow> fetch x ofs n s;
       (outs, s2) \<leftarrow> store_run fetch put sync ops s1;
       Some (bs # outs, s2) }
   | Put x ofs bs \<Rightarrow> do { s1 \<leftarrow> put x ofs bs s; store_run fetch put sync ops s1 }
   | Sync \<Rightarrow> do { s1 \<leftarrow> sync s; store_run fetch put sync ops s1 })"

locale sector_store =
  fixes wf :: "'s \<Rightarrow> bool" and valid :: "'s \<Rightarrow> disk_sector_t \<Rightarrow> bool"
    and vw :: "'s \<Rightarrow> disk_sector_t \<Rightarrow> byte list"
    and fetch :: "disk_sector_t \<Rightarrow> nat \<Rightarrow> nat \<Rightarrow> 's \<Rightarrow> (byte list \<times> 's) option"
    and put :: "disk_sector_t \<Rightarrow> nat \<Rightarrow> byte list \<Rightarrow> 's \<Rightarrow> 's option"
    and sync :: "'s \<Rightarrow> 's option"
  assumes fetch_ok: "wf s \<Longrightarrow> valid s x \<Longrightarrow> ofs + n \<le> DISK_SECTOR_SIZE \<Longrightarrow>
      \<exists>s'. fetch x ofs n s = Some (take n (drop ofs (vw s x)), s') \<and> wf s' \<and> vw s' = vw s \<and> valid s' = valid s"
    and put_ok: "wf s \<Longrightarrow> valid s x \<Longrightarrow> ofs + length bs \<le> DISK_SECTOR_SIZE \<Longrightarrow>
      \<exists>s'. put x ofs bs s = Some s' \<and> wf s' \<and> vw s' = (vw s)(x := overwrite ofs bs (vw s x)) \<and> valid s' = valid s"
    and sync_ok: "wf s \<Longrightarrow> \<exists>s'. sync s = Some s' \<and> wf s' \<and> vw s' = vw s \<and> valid s' = valid s"
begin

lemma run_refines:
  assumes "wf s" and "\<forall>oper \<in> set ops. op_ok (valid s) oper"
  shows "\<exists>s'. store_run fetch put sync ops s = Some (fst (array_run ops (vw s)), s')
     \<and> vw s' = snd (array_run ops (vw s)) \<and> wf s'"
  using assms
proof (induction ops arbitrary: s)
  case (Cons oper ops)
  show ?case
  proof (cases oper)
    case (Fetch x ofs n)
    with fetch_ok [of s x ofs n] Cons.prems obtain s1 where
      "fetch x ofs n s = Some (take n (drop ofs (vw s x)), s1)" "wf s1" "vw s1 = vw s" "valid s1 = valid s" by auto
    with Cons.IH [of s1] Cons.prems Fetch show ?thesis by (auto simp: split_beta)
  next
    case (Put x ofs bs)
    with put_ok [of s x ofs bs] Cons.prems obtain s1 where
      "put x ofs bs s = Some s1" "wf s1" "vw s1 = (vw s)(x := overwrite ofs bs (vw s x))" "valid s1 = valid s" by auto
    with Cons.IH [of s1] Cons.prems Put show ?thesis by (auto simp: fun_upd_def)
  next
    case Sync
    with sync_ok [of s] Cons.prems obtain s1 where
      "sync s = Some s1" "wf s1" "vw s1 = vw s" "valid s1 = valid s" by auto
    with Cons.IH [of s1] Cons.prems Sync show ?thesis by auto
  qed
qed simp

end

definition cache_fetch :: "disk_sector_t \<Rightarrow> nat \<Rightarrow> nat \<Rightarrow> cache_state \<Rightarrow> (byte list \<times> cache_state) option" where
  "cache_fetch x ofs n s = cache_read x (replicate n 0) 0 ofs n s"

definition cache_put :: "disk_sector_t \<Rightarrow> nat \<Rightarrow> byte list \<Rightarrow> cache_state \<Rightarrow> cache_state option" where
  "cache_put x ofs bs s = cache_write x bs 0 ofs (length bs) s"

interpretation bcache: sector_store cache_inv "\<lambda>s. valid_sector (filesys_disk s)" cview
  cache_fetch cache_put cache_write_behind_loop
proof unfold_locales
  fix s x ofs and n :: nat
  assume a: "cache_inv s" "valid_sector (filesys_disk s) x" "ofs + n \<le> DISK_SECTOR_SIZE"
  have "length (take n (drop ofs (cview s x))) = n"
    using cview_length [of s x] a by (simp add: cache_inv_def)
  then have "overwrite 0 (take n (drop ofs (cview s x))) (replicate n 0) = take n (drop ofs (cview s x))"
    by (simp add: overwrite_def)
  then show "\<exists>s'. cache_fetch x ofs n s = Some (take n (drop ofs (cview s x)), s') \<and> cache_inv s'
      \<and> cview s' = cview s \<and> valid_sector (filesys_disk s') = valid_sector (filesys_disk s)"
    using cache_read_spec [OF a(1-3), of 0 "replicate n 0"]
    by (auto simp: cache_fetch_def fun_eq_iff valid_sector_def)
next
  fix s x ofs and bs :: "byte list"
  assume a: "cache_inv s" "valid_sector (filesys_disk s) x" "ofs + length bs \<le> DISK_SECTOR_SIZE"
  then show "\<exists>s'. cache_put x ofs bs s = Some s' \<and> cache_inv s'
      \<and> cview s' = (cview s)(x := overwrite ofs bs (cview s x))
      \<and> valid_sector (filesys_disk s') = valid_sector (filesys_disk s)"
    using cache_write_spec [OF a(1-3), of 0 bs]
    by (auto simp: cache_put_def fun_eq_iff valid_sector_def)
next
  fix s
  assume "cache_inv s"
  then show "\<exists>s'. cache_write_behind_loop s = Some s' \<and> cache_inv s' \<and> cview s' = cview s
      \<and> valid_sector (filesys_disk s') = valid_sector (filesys_disk s)"
    using cache_write_behind_loop_spec [of s] by (auto simp: fun_eq_iff valid_sector_def)
qed

section \<open>Properties\<close>

text \<open>C2. The cache is transparent. From any state that satisfies the invariant, every sequence of
  reads, writes and write-behind passes on valid sectors runs without a failed assertion, returns
  byte for byte what a plain array of sectors returns, and ends in a state that satisfies the
  invariant (no sector cached twice, at most 64 entries, clean entries equal to the disk) and
  whose sector values are those of the array.\<close>

theorem cache_refines_array:
  assumes "cache_inv s" and "\<forall>oper \<in> set ops. op_ok (valid_sector (filesys_disk s)) oper"
  shows "\<exists>s'. store_run cache_fetch cache_put cache_write_behind_loop ops s
       = Some (fst (array_run ops (cview s)), s')
     \<and> cview s' = snd (array_run ops (cview s)) \<and> cache_inv s'"
  using assms by (rule bcache.run_refines)

definition demo_disk :: disk where
  "demo_disk = \<lparr>dev_no = 1, is_ata = True, capacity = 3, read_cnt = 0, write_cnt = 0,
     media = [replicate 512 0, replicate 512 1, replicate 512 2], alt_status = \<lambda>_ _. STA_DRQ\<rparr>"

definition demo_cache :: cache_state where
  "demo_cache = \<lparr>filesys_disk = demo_disk, buffer_cache_list = [], cache_current_size = 0,
     buffer_cache_lock = False, heap_ok = \<lambda>_. True, heap_cnt = 0\<rparr>"

lemma demo_disk_wf: "disk_wf demo_disk"
proof -
  have "answers (\<lambda>_. STA_DRQ)"
    unfolding answers_def by (rule exI [of _ 0]) (simp add: STA_DRQ_def STA_BSY_def)
  then show ?thesis by (simp add: disk_wf_def demo_disk_def DISK_SECTOR_SIZE_def)
qed

lemma demo_cache_inv: "cache_inv demo_cache"
  using demo_disk_wf by (simp add: cache_inv_def cache_core_def demo_cache_def)

lemma demo_view: "cview demo_cache 1 = replicate 512 1" "cview demo_cache 2 = replicate 512 2"
  by (simp_all add: cview_def demo_cache_def demo_disk_def sector_at_def)

theorem cache_refines_array_witness:
  "\<exists>s'. store_run cache_fetch cache_put cache_write_behind_loop
       [Put 1 3 [7, 8], Fetch 1 2 4, Sync, Fetch 2 0 1] demo_cache = Some ([[1, 7, 8, 1], [2]], s')
     \<and> cache_inv s'"
proof -
  have "fst (array_run [Put 1 3 [7, 8], Fetch 1 2 4, Sync, Fetch 2 0 1] (cview demo_cache)) = [[1, 7, 8, 1], [2]]"
    using replicate_Suc [of 0 "1 :: byte"] replicate_Suc [of 0 "2 :: byte"]
    by (simp add: demo_view overwrite_def)
  then show ?thesis
    using cache_refines_array [OF demo_cache_inv, of "[Put 1 3 [7, 8], Fetch 1 2 4, Sync, Fetch 2 0 1]"]
    by (auto simp: demo_cache_def demo_disk_def valid_sector_def DISK_SECTOR_SIZE_def)
qed

text \<open>After a pass of write-behind the disk holds the value of every sector, so nothing written
  to the cache before the pass depends on memory any more; the pass itself changes no value.\<close>

theorem write_behind_durable:
  assumes "cache_inv s"
  shows "\<exists>s'. cache_write_behind_loop s = Some s' \<and> cache_inv s'
     \<and> (\<forall>y. sector_at (filesys_disk s') y = cview s y \<and> cview s' y = cview s y)"
  using cache_write_behind_loop_spec [OF assms] by blast

theorem write_behind_durable_witness:
  "\<exists>s'. cache_write_behind_loop demo_cache = Some s' \<and> sector_at (filesys_disk s') 2 = replicate 512 2"
  using write_behind_durable [OF demo_cache_inv] demo_view(2) by metis

text \<open>A request for a sector outside the disk never returns: the kernel stops in the disk
  driver before anything is stored under that number.\<close>

theorem cache_rejects_invalid:
  assumes "cache_inv s" and "\<not> valid_sector (filesys_disk s) x"
  shows "cache_read x buf p ofs n s = None \<and> cache_write x buf p ofs n s = None"
  using cache_op_invalid [OF assms] by (simp add: cache_read_def cache_write_def)

theorem cache_rejects_invalid_witness:
  "cache_read 3 [0] 0 0 1 demo_cache = None \<and> cache_write 3 [0] 0 0 1 demo_cache = None"
  using cache_rejects_invalid [OF demo_cache_inv, of 3]
  by (simp add: demo_cache_def demo_disk_def valid_sector_def)

end
