(* ===== verification/Bytes.thy ===== *)
theory Bytes
  imports Kstring
begin

text \<open>
  Words in memory. The machine is little-endian: \<open>le32\<close> is the image of a 32-bit word in memory,
  \<open>words_bytes\<close> that of an array of words, and \<open>le_words\<close> reads an array of words back. The file
  system writes index blocks, on-disk inodes and the free map in this form.
\<close>

definition le32 :: "u32 \<Rightarrow> byte list" where
  "le32 w = [ucast w, ucast (drop_bit 8 w), ucast (drop_bit 16 w), ucast (drop_bit 24 w)]"

definition le_word :: "byte \<Rightarrow> byte \<Rightarrow> byte \<Rightarrow> byte \<Rightarrow> u32" where
  "le_word a b c d = word_of_nat (unat a + 256 * unat b + 65536 * unat c + 16777216 * unat d)"

definition words_bytes :: "u32 list \<Rightarrow> byte list" where
  "words_bytes ws = concat (map le32 ws)"

fun le_words :: "byte list \<Rightarrow> u32 list" where
  "le_words (a # b # c # d # xs) = le_word a b c d # le_words xs"
| "le_words _ = []"

lemma length_le32 [simp]: "length (le32 w) = 4"
  by (simp add: le32_def)

lemma length_words_bytes [simp]: "length (words_bytes ws) = 4 * length ws"
  by (induction ws) (simp_all add: words_bytes_def)

lemma words_bytes_Cons: "words_bytes (w # ws) = le32 w @ words_bytes ws"
  by (simp add: words_bytes_def)

lemma words_bytes_append: "words_bytes (vs @ ws) = words_bytes vs @ words_bytes ws"
  by (simp add: words_bytes_def)

lemma length_le_words: "length (le_words xs) = length xs div 4"
  by (induction xs rule: le_words.induct) auto

lemma unat_le_bytes:
  "unat (ucast w :: byte) = unat (w :: u32) mod 256"
  "unat (ucast (drop_bit 8 w) :: byte) = unat w div 256 mod 256"
  "unat (ucast (drop_bit 16 w) :: byte) = unat w div 65536 mod 256"
  "unat (ucast (drop_bit 24 w) :: byte) = unat w div 16777216"
proof -
  have "unat w < 2 ^ 32" using unsigned_less [of w] by simp
  then show "unat (ucast w :: byte) = unat w mod 256"
    "unat (ucast (drop_bit 8 w) :: byte) = unat w div 256 mod 256"
    "unat (ucast (drop_bit 16 w) :: byte) = unat w div 65536 mod 256"
    "unat (ucast (drop_bit 24 w) :: byte) = unat w div 16777216"
    by (simp_all add: unsigned_ucast_eq take_bit_eq_mod drop_bit_eq_div unat_div)
qed

lemma le_word_le32 [simp]:
  "le_word (ucast w) (ucast (drop_bit 8 w)) (ucast (drop_bit 16 w)) (ucast (drop_bit 24 w)) = w"
  unfolding le_word_def unat_le_bytes(2-4) unfolding unat_le_bytes(1) nat_base_256 by simp

lemma le_words_bytes [simp]: "le_words (words_bytes ws) = ws"
  by (induction ws) (simp_all add: words_bytes_def le32_def)

lemma le32_le_word: "le32 (le_word a b c d) = [a, b, c, d]"
proof -
  have lt: "unat a < 256" "unat b < 256" "unat c < 256" "unat d < 256"
    using unsigned_less [of a] unsigned_less [of b] unsigned_less [of c] unsigned_less [of d] by simp_all
  let ?n = "unat a + 256 * unat b + 65536 * unat c + 16777216 * unat d"
  have "?n < 2 ^ 32" using lt by simp
  then have n: "unat (le_word a b c d) = ?n"
    unfolding le_word_def by (simp add: unsigned_of_nat take_bit_nat_eq_self del: of_nat_add of_nat_mult)
  define m2 m1 where "m2 = unat c + 256 * unat d" and "m1 = unat b + 256 * m2"
  have m: "?n = unat a + 256 * m1" by (simp add: m1_def m2_def)
  have "?n mod 256 = unat a" "?n div 256 = m1" unfolding m using lt by simp_all
  moreover have "m1 mod 256 = unat b" "m1 div 256 = m2" unfolding m1_def using lt by simp_all
  moreover have "m2 mod 256 = unat c" "m2 div 256 = unat d" unfolding m2_def using lt by simp_all
  moreover have "?n div 65536 = ?n div 256 div 256" "?n div 16777216 = ?n div 256 div 256 div 256"
    by (simp_all flip: div_mult2_eq)
  ultimately have "?n mod 256 = unat a" "?n div 256 mod 256 = unat b" "?n div 65536 mod 256 = unat c"
    "?n div 16777216 = unat d" by simp_all
  then show ?thesis unfolding le32_def list.inject word_unat_eq_iff unat_le_bytes(2-4)
    unfolding unat_le_bytes(1) n by simp
qed

lemma words_bytes_le_words: "4 dvd length xs \<Longrightarrow> words_bytes (le_words xs) = xs"
proof (induction xs rule: le_words.induct)
  case (1 a b c d xs)
  have "4 dvd length xs" using 1 by (simp add: dvd_def) presburger
  with 1 show ?case by (simp add: words_bytes_Cons le32_le_word)
qed (auto simp: words_bytes_def dest: dvd_imp_le)

section \<open>Writing in pieces\<close>

lemma overwrite_append:
  "d + length xs \<le> length m \<Longrightarrow> overwrite (d + length xs) ys (overwrite d xs m) = overwrite d (xs @ ys) m"
  by (simp add: overwrite_def take_add ac_simps)

lemma take_take_drop: "take a (drop n xs) @ take b (drop (n + a) xs) = take (a + b) (drop n xs)"
  by (simp add: take_add add.commute)

end
