(* ===== verification/Bitmap.thy ===== *)
theory Bitmap
  imports Prelude
begin

text \<open>
  The bitmap of \<^verbatim>\<open>lib/kernel/bitmap.c\<close>: an array of 32-bit elements that simulates an array
  of bits, with the operations that set, test, count and scan bits. The abstraction of a bitmap
  is its list of booleans \<open>bm_abs\<close>; every operation is shown to act on that list as its
  comment says. The locale \<open>slot_allocator\<close> is the contract under which the page allocator, the
  swap table and the free map use a bitmap; it is interpreted here on the bitmap's own operations.
\<close>

section \<open>Data and operations\<close>

record bitmap =
  bit_cnt :: nat        \<comment> \<open>number of bits\<close>
  bits :: "u32 list"    \<comment> \<open>elements that represent bits\<close>

definition ELEM_BITS :: nat where
  "ELEM_BITS = 32"

definition BITMAP_ERROR :: nat where
  "BITMAP_ERROR = SIZE_MAX"

definition elem_idx :: "nat \<Rightarrow> nat" where
  "elem_idx bit_idx = bit_idx div ELEM_BITS"

definition bit_mask :: "nat \<Rightarrow> u32" where
  "bit_mask bit_idx = push_bit (bit_idx mod ELEM_BITS) 1"

definition elem_cnt :: "nat \<Rightarrow> nat" where
  "elem_cnt cnt = DIV_ROUND_UP cnt ELEM_BITS"

definition byte_cnt :: "nat \<Rightarrow> nat" where
  "byte_cnt cnt = usz (4 * elem_cnt cnt)"

definition last_mask :: "bitmap \<Rightarrow> u32" where
  "last_mask b =
     (let last_bits = bit_cnt b mod ELEM_BITS
      in if last_bits \<noteq> 0 then push_bit last_bits 1 - 1 else - 1)"

definition bitmap_size :: "bitmap \<Rightarrow> nat" where
  "bitmap_size b = bit_cnt b"

text \<open>\<open>bitmap_mark\<close>, \<open>bitmap_reset\<close> and \<open>bitmap_flip\<close> carry no assertion: an index whose
  element lies outside the array is an access outside the object.\<close>

definition bitmap_mark :: "bitmap \<Rightarrow> nat \<Rightarrow> bitmap option" where
  "bitmap_mark b bit_idx =
     (let idx = elem_idx bit_idx; mask = bit_mask bit_idx
      in if idx < length (bits b)
         then Some (b\<lparr>bits := (bits b)[idx := bits b ! idx OR mask]\<rparr>) else None)"

definition bitmap_reset :: "bitmap \<Rightarrow> nat \<Rightarrow> bitmap option" where
  "bitmap_reset b bit_idx =
     (let idx = elem_idx bit_idx; mask = bit_mask bit_idx
      in if idx < length (bits b)
         then Some (b\<lparr>bits := (bits b)[idx := bits b ! idx AND NOT mask]\<rparr>) else None)"

definition bitmap_flip :: "bitmap \<Rightarrow> nat \<Rightarrow> bitmap option" where
  "bitmap_flip b bit_idx =
     (let idx = elem_idx bit_idx; mask = bit_mask bit_idx
      in if idx < length (bits b)
         then Some (b\<lparr>bits := (bits b)[idx := bits b ! idx XOR mask]\<rparr>) else None)"

definition bitmap_set :: "bitmap \<Rightarrow> nat \<Rightarrow> bool \<Rightarrow> bitmap option" where
  "bitmap_set b idx v = do {
     kassert (idx < bit_cnt b);
     if v then bitmap_mark b idx else bitmap_reset b idx }"

definition bitmap_test :: "bitmap \<Rightarrow> nat \<Rightarrow> bool option" where
  "bitmap_test b idx = do {
     kassert (idx < bit_cnt b);
     if elem_idx idx < length (bits b)
     then Some (bits b ! elem_idx idx AND bit_mask idx \<noteq> 0) else None }"

text \<open>The loops run over \<open>i\<close> from 0 to \<open>cnt\<close>; \<open>n\<close> is the number of iterations left.\<close>

primrec set_multiple_loop :: "nat \<Rightarrow> nat \<Rightarrow> nat \<Rightarrow> bool \<Rightarrow> bitmap \<Rightarrow> bitmap option" where
  "set_multiple_loop 0 i start v b = Some b"
| "set_multiple_loop (Suc n) i start v b = do {
     b' \<leftarrow> bitmap_set b (usz (start + i)) v;
     set_multiple_loop n (Suc i) start v b' }"

definition bitmap_set_multiple :: "bitmap \<Rightarrow> nat \<Rightarrow> nat \<Rightarrow> bool \<Rightarrow> bitmap option" where
  "bitmap_set_multiple b start cnt v = do {
     kassert (start \<le> bit_cnt b);
     kassert (usz (start + cnt) \<le> bit_cnt b);
     set_multiple_loop cnt 0 start v b }"

definition bitmap_set_all :: "bitmap \<Rightarrow> bool \<Rightarrow> bitmap option" where
  "bitmap_set_all b v = bitmap_set_multiple b 0 (bitmap_size b) v"

primrec count_loop :: "nat \<Rightarrow> nat \<Rightarrow> bitmap \<Rightarrow> nat \<Rightarrow> bool \<Rightarrow> nat \<Rightarrow> nat option" where
  "count_loop 0 i b start v value_cnt = Some value_cnt"
| "count_loop (Suc n) i b start v value_cnt = do {
     t \<leftarrow> bitmap_test b (usz (start + i));
     count_loop n (Suc i) b start v (if t = v then Suc value_cnt else value_cnt) }"

definition bitmap_count :: "bitmap \<Rightarrow> nat \<Rightarrow> nat \<Rightarrow> bool \<Rightarrow> nat option" where
  "bitmap_count b start cnt v = do {
     kassert (start \<le> bit_cnt b);
     kassert (usz (start + cnt) \<le> bit_cnt b);
     count_loop cnt 0 b start v 0 }"

primrec contains_loop :: "nat \<Rightarrow> nat \<Rightarrow> bitmap \<Rightarrow> nat \<Rightarrow> bool \<Rightarrow> bool option" where
  "contains_loop 0 i b start v = Some False"
| "contains_loop (Suc n) i b start v = do {
     t \<leftarrow> bitmap_test b (usz (start + i));
     if t = v then Some True else contains_loop n (Suc i) b start v }"

definition bitmap_contains :: "bitmap \<Rightarrow> nat \<Rightarrow> nat \<Rightarrow> bool \<Rightarrow> bool option" where
  "bitmap_contains b start cnt v = do {
     kassert (start \<le> bit_cnt b);
     kassert (usz (start + cnt) \<le> bit_cnt b);
     contains_loop cnt 0 b start v }"

definition bitmap_any :: "bitmap \<Rightarrow> nat \<Rightarrow> nat \<Rightarrow> bool option" where
  "bitmap_any b start cnt = bitmap_contains b start cnt True"

definition bitmap_none :: "bitmap \<Rightarrow> nat \<Rightarrow> nat \<Rightarrow> bool option" where
  "bitmap_none b start cnt = map_option Not (bitmap_contains b start cnt True)"

definition bitmap_all :: "bitmap \<Rightarrow> nat \<Rightarrow> nat \<Rightarrow> bool option" where
  "bitmap_all b start cnt = map_option Not (bitmap_contains b start cnt False)"

function scan_loop :: "bitmap \<Rightarrow> nat \<Rightarrow> bool \<Rightarrow> nat \<Rightarrow> nat \<Rightarrow> nat option" where
  "scan_loop b cnt v lst i =
     (if i \<le> lst
      then do {
        c \<leftarrow> bitmap_contains b i cnt (\<not> v);
        if \<not> c then Some i else scan_loop b cnt v lst (Suc i) }
      else Some BITMAP_ERROR)"
  by pat_completeness auto
termination
  by (relation "measure (\<lambda>(b, cnt, v, lst, i). Suc lst - i)") auto

definition bitmap_scan :: "bitmap \<Rightarrow> nat \<Rightarrow> nat \<Rightarrow> bool \<Rightarrow> nat option" where
  "bitmap_scan b start cnt v = do {
     kassert (start \<le> bit_cnt b);
     if cnt \<le> bit_cnt b
     then scan_loop b cnt v (bit_cnt b - cnt) start
     else Some BITMAP_ERROR }"

definition bitmap_scan_and_flip ::
    "bitmap \<Rightarrow> nat \<Rightarrow> nat \<Rightarrow> bool \<Rightarrow> (nat \<times> bitmap) option" where
  "bitmap_scan_and_flip b start cnt v = do {
     idx \<leftarrow> bitmap_scan b start cnt v;
     if idx \<noteq> BITMAP_ERROR
     then do { b' \<leftarrow> bitmap_set_multiple b idx cnt (\<not> v); Some (idx, b') }
     else Some (idx, b) }"

text \<open>\<open>bitmap_create\<close>: the two calls of \<open>malloc\<close> are its arguments, the first a flag for the
  header, the second the storage it returned (its contents are whatever the heap held), or
  \<open>None\<close> for a null pointer.\<close>

definition bitmap_create :: "bool \<Rightarrow> u32 list option \<Rightarrow> nat \<Rightarrow> bitmap option option" where
  "bitmap_create header_ok storage cnt =
     (if \<not> header_ok then Some None
      else (case storage of
              Some ws \<Rightarrow> map_option Some (bitmap_set_all \<lparr>bit_cnt = cnt, bits = ws\<rparr> False)
            | None \<Rightarrow>
                if cnt = 0 then map_option Some (bitmap_set_all \<lparr>bit_cnt = cnt, bits = []\<rparr> False)
                else Some None))"

definition bitmap_buf_size :: "nat \<Rightarrow> nat" where
  "bitmap_buf_size cnt = usz (8 + byte_cnt cnt)"

definition bitmap_create_in_buf :: "nat \<Rightarrow> u32 list \<Rightarrow> nat \<Rightarrow> bitmap option" where
  "bitmap_create_in_buf cnt block block_size = do {
     kassert (bitmap_buf_size cnt \<le> block_size);
     bitmap_set_all \<lparr>bit_cnt = cnt, bits = take (elem_cnt cnt) block\<rparr> False }"

definition bitmap_file_size :: "bitmap \<Rightarrow> nat" where
  "bitmap_file_size b = byte_cnt (bit_cnt b)"

section \<open>Specification\<close>

definition bit_at :: "bitmap \<Rightarrow> nat \<Rightarrow> bool" where
  "bit_at b i = bit (bits b ! (i div 32)) (i mod 32)"

definition bm_abs :: "bitmap \<Rightarrow> bool list" where
  "bm_abs b = map (bit_at b) [0..<bit_cnt b]"

definition bitmap_wf :: "bitmap \<Rightarrow> bool" where
  "bitmap_wf b \<longleftrightarrow> length (bits b) = elem_cnt (bit_cnt b) \<and> bit_cnt b + 32 < 4294967296"

section \<open>Single bits\<close>

lemma elem_cnt_eq: "n + 32 < 4294967296 \<Longrightarrow> elem_cnt n = (n + 31) div 32"
  by (simp add: elem_cnt_def DIV_ROUND_UP_def ELEM_BITS_def usz_id)

lemma elem_idx_less: "bitmap_wf b \<Longrightarrow> i < bit_cnt b \<Longrightarrow> elem_idx i < length (bits b)"
  by (auto simp: bitmap_wf_def elem_cnt_eq elem_idx_def ELEM_BITS_def)

lemma bit_bit_mask: "bit (bit_mask i) n \<longleftrightarrow> n = i mod 32"
  by (auto simp: bit_mask_def ELEM_BITS_def bit_exp_iff possible_bit_word)

lemma and_bit_mask_iff: "w AND bit_mask i \<noteq> 0 \<longleftrightarrow> bit w (i mod 32)"
proof
  assume "bit w (i mod 32)"
  then have "bit (w AND bit_mask i) (i mod 32)"
    by (simp add: bit_and_iff bit_bit_mask)
  then show "w AND bit_mask i \<noteq> 0" by (metis bit_0_eq bot_apply bot_bool_def)
next
  assume "w AND bit_mask i \<noteq> 0"
  then obtain n where "bit (w AND bit_mask i) n"
    using bit_eq_iff [of "w AND bit_mask i" 0] by auto
  then show "bit w (i mod 32)" by (auto simp: bit_and_iff bit_bit_mask)
qed

lemma div_mod_32_eq: "(i::nat) div 32 = j div 32 \<Longrightarrow> i mod 32 = j mod 32 \<Longrightarrow> i = j"
  by (metis div_mult_mod_eq)

text \<open>One lemma covers the three writes: an element rewritten through a mask changes exactly the
  bit it addresses.\<close>

lemma bit_at_write:
  assumes "elem_idx i < length (bits b)"
    and "\<And>n. bit w n = (if n = i mod 32 then v else bit (bits b ! elem_idx i) n)"
  shows "bit_at (b\<lparr>bits := (bits b)[elem_idx i := w]\<rparr>) j = (if j = i then v else bit_at b j)"
proof (cases "j div 32 = i div 32")
  case True
  then show ?thesis
    using assms div_mod_32_eq [OF True] by (auto simp: bit_at_def elem_idx_def ELEM_BITS_def)
next
  case False
  then show ?thesis by (auto simp: bit_at_def elem_idx_def ELEM_BITS_def)
qed

lemma bitmap_mark_bit:
  assumes "bitmap_mark b i = Some b'"
  shows "bit_at b' j = (if j = i then True else bit_at b j)"
    and "bit_cnt b' = bit_cnt b" and "length (bits b') = length (bits b)"
  using assms bit_at_write [of i b "bits b ! elem_idx i OR bit_mask i" True j]
  by (auto simp: bitmap_mark_def Let_def bit_or_iff bit_bit_mask split: if_splits)

lemma bitmap_reset_bit:
  assumes "bitmap_reset b i = Some b'"
  shows "bit_at b' j = (if j = i then False else bit_at b j)"
    and "bit_cnt b' = bit_cnt b" and "length (bits b') = length (bits b)"
proof -
  have "\<And>n. bit (bits b ! elem_idx i AND NOT (bit_mask i)) n
          = (if n = i mod 32 then False else bit (bits b ! elem_idx i) n)"
    by (auto simp: bit_and_iff bit_not_iff bit_bit_mask dest: bit_imp_le_length)
  then show "bit_at b' j = (if j = i then False else bit_at b j)"
    and "bit_cnt b' = bit_cnt b" and "length (bits b') = length (bits b)"
    using assms bit_at_write [of i b "bits b ! elem_idx i AND NOT (bit_mask i)" False j]
    by (auto simp: bitmap_reset_def Let_def split: if_splits)
qed

lemma bitmap_flip_bit:
  assumes "bitmap_flip b i = Some b'"
  shows "bit_at b' j = (if j = i then \<not> bit_at b i else bit_at b j)"
    and "bit_cnt b' = bit_cnt b" and "length (bits b') = length (bits b)"
proof -
  have "\<And>n. bit (bits b ! elem_idx i XOR bit_mask i) n
          = (if n = i mod 32 then \<not> bit_at b i else bit (bits b ! elem_idx i) n)"
    by (auto simp: bit_xor_iff bit_bit_mask bit_at_def elem_idx_def ELEM_BITS_def)
  then show "bit_at b' j = (if j = i then \<not> bit_at b i else bit_at b j)"
    and "bit_cnt b' = bit_cnt b" and "length (bits b') = length (bits b)"
    using assms bit_at_write [of i b "bits b ! elem_idx i XOR bit_mask i" "\<not> bit_at b i" j]
    by (auto simp: bitmap_flip_def Let_def split: if_splits)
qed


text \<open>Single-bit operations succeed on every index of a well-formed bitmap.\<close>

lemma bitmap_set_spec:
  assumes "bitmap_wf b" and "i < bit_cnt b"
  shows "\<exists>b'. bitmap_set b i v = Some b' \<and> bitmap_wf b' \<and> bit_cnt b' = bit_cnt b
           \<and> (\<forall>j. bit_at b' j = (if j = i then v else bit_at b j))"
proof -
  have idx: "elem_idx i < length (bits b)" using assms by (rule elem_idx_less)
  then obtain bm br where m: "bitmap_mark b i = Some bm" and r: "bitmap_reset b i = Some br"
    by (simp add: bitmap_mark_def bitmap_reset_def Let_def)
  then show ?thesis
    using assms bitmap_mark_bit [OF m] bitmap_reset_bit [OF r]
    by (cases v) (auto simp: bitmap_set_def bitmap_wf_def)
qed

lemma bitmap_set_out_of_range: "\<not> i < bit_cnt b \<Longrightarrow> bitmap_set b i v = None"
  by (simp add: bitmap_set_def)

lemma bitmap_test_spec:
  "bitmap_wf b \<Longrightarrow> i < bit_cnt b \<Longrightarrow> bitmap_test b i = Some (bit_at b i)"
  using elem_idx_less [of b i]
  by (simp add: bitmap_test_def and_bit_mask_iff bit_at_def elem_idx_def ELEM_BITS_def)

lemma wf_index_small: "bitmap_wf b \<Longrightarrow> i < bit_cnt b \<Longrightarrow> usz i = i"
  by (simp add: bitmap_wf_def usz_id)

section \<open>Multiple bits\<close>

lemma set_multiple_loop_spec:
  assumes "bitmap_wf b" and "start + i + n \<le> bit_cnt b"
  shows "\<exists>b'. set_multiple_loop n i start v b = Some b' \<and> bitmap_wf b' \<and> bit_cnt b' = bit_cnt b
           \<and> (\<forall>j. bit_at b' j = (if start + i \<le> j \<and> j < start + i + n then v else bit_at b j))"
  using assms
proof (induction n arbitrary: i b)
  case (Suc n)
  obtain b1 where b1: "bitmap_set b (start + i) v = Some b1" "bitmap_wf b1" "bit_cnt b1 = bit_cnt b"
      "\<forall>j. bit_at b1 j = (if j = start + i then v else bit_at b j)"
    using bitmap_set_spec [of b "start + i" v] Suc.prems by auto
  have "start + Suc i + n \<le> bit_cnt b1" using Suc.prems b1 by simp
  from Suc.IH [OF b1(2) this] obtain b2 where b2:
      "set_multiple_loop n (Suc i) start v b1 = Some b2" "bitmap_wf b2" "bit_cnt b2 = bit_cnt b1"
      "\<forall>j. bit_at b2 j = (if start + Suc i \<le> j \<and> j < start + Suc i + n then v else bit_at b1 j)"
    by auto
  have "usz (start + i) = start + i" using Suc.prems wf_index_small [of b "start + i"] by simp
  with b1 b2 show ?case by auto
qed auto

lemma set_multiple_loop_overrun:
  assumes "bitmap_wf b" and "start + i \<le> bit_cnt b" and "bit_cnt b < start + i + n"
  shows "set_multiple_loop n i start v b = None"
  using assms
proof (induction n arbitrary: i b)
  case (Suc n)
  have small: "usz (start + i) = start + i"
    using Suc.prems by (simp add: bitmap_wf_def usz_id)
  show ?case
  proof (cases "start + i < bit_cnt b")
    case True
    obtain b1 where b1: "bitmap_set b (start + i) v = Some b1" "bitmap_wf b1" "bit_cnt b1 = bit_cnt b"
      using bitmap_set_spec [of b "start + i" v] Suc.prems(1) True by auto
    then have "set_multiple_loop n (Suc i) start v b1 = None"
      using Suc.IH [of b1 "Suc i"] Suc.prems True by simp
    with b1 small show ?thesis by simp
  next
    case False
    with small show ?thesis by (simp add: bitmap_set_out_of_range)
  qed
qed simp

lemma bitmap_set_multiple_spec:
  assumes "bitmap_wf b" and "start + cnt \<le> bit_cnt b"
  shows "\<exists>b'. bitmap_set_multiple b start cnt v = Some b' \<and> bitmap_wf b' \<and> bit_cnt b' = bit_cnt b
           \<and> (\<forall>j. bit_at b' j = (if start \<le> j \<and> j < start + cnt then v else bit_at b j))"
proof -
  have "usz (start + cnt) = start + cnt" using assms by (simp add: bitmap_wf_def usz_id)
  then show ?thesis
    using set_multiple_loop_spec [of b start 0 cnt v] assms by (simp add: bitmap_set_multiple_def)
qed

lemma bitmap_set_multiple_None:
  assumes "bitmap_wf b" and "bit_cnt b < start + cnt"
  shows "bitmap_set_multiple b start cnt v = None"
  using set_multiple_loop_overrun [of b start 0 cnt v] assms
  by (auto simp: bitmap_set_multiple_def kassert_bind)

lemma upt_shift_Cons: "[a..<a + Suc n] = a # [Suc a..<Suc a + n]"
  by (simp add: upt_conv_Cons del: upt_Suc)

lemma contains_loop_spec:
  assumes "bitmap_wf b" and "start + i + n \<le> bit_cnt b"
  shows "contains_loop n i b start v = Some (\<exists>j \<in> set [start + i..<start + i + n]. bit_at b j = v)"
  using assms
proof (induction n arbitrary: i)
  case (Suc n)
  have t: "bitmap_test b (usz (start + i)) = Some (bit_at b (start + i))"
    using Suc.prems wf_index_small [of b "start + i"] by (simp add: bitmap_test_spec)
  have IH: "contains_loop n (Suc i) b start v
      = Some (\<exists>j \<in> set [Suc (start + i)..<Suc (start + i) + n]. bit_at b j = v)"
    using Suc.IH [of "Suc i"] Suc.prems by simp
  show ?case unfolding upt_shift_Cons using t IH by (simp del: set_upt)
qed simp

lemma bitmap_contains_spec:
  assumes "bitmap_wf b" and "start + cnt \<le> bit_cnt b"
  shows "bitmap_contains b start cnt v
           = Some (\<exists>j. start \<le> j \<and> j < start + cnt \<and> bit_at b j = v)"
proof -
  have "usz (start + cnt) = start + cnt" using assms by (simp add: bitmap_wf_def usz_id)
  then show ?thesis
    using contains_loop_spec [of b start 0 cnt v] assms by (auto simp: bitmap_contains_def)
qed

lemma bitmap_all_spec:
  "bitmap_wf b \<Longrightarrow> start + cnt \<le> bit_cnt b \<Longrightarrow>
   bitmap_all b start cnt = Some (\<forall>j. start \<le> j \<and> j < start + cnt \<longrightarrow> bit_at b j)"
  by (auto simp: bitmap_all_def bitmap_contains_spec)

lemma count_loop_spec:
  assumes "bitmap_wf b" and "start + i + n \<le> bit_cnt b"
  shows "count_loop n i b start v c
           = Some (c + length (filter (\<lambda>j. bit_at b j = v) [start + i..<start + i + n]))"
  using assms
proof (induction n arbitrary: i c)
  case (Suc n)
  have t: "bitmap_test b (usz (start + i)) = Some (bit_at b (start + i))"
    using Suc.prems wf_index_small [of b "start + i"] by (simp add: bitmap_test_spec)
  have IH: "count_loop n (Suc i) b start v c'
      = Some (c' + length (filter (\<lambda>j. bit_at b j = v) [Suc (start + i)..<Suc (start + i) + n]))"
    for c' using Suc.IH [of "Suc i" c'] Suc.prems by simp
  show ?case unfolding upt_shift_Cons using t IH by (simp del: upt_Suc)
qed simp

lemma bitmap_count_spec:
  assumes "bitmap_wf b" and "start + cnt \<le> bit_cnt b"
  shows "bitmap_count b start cnt v
           = Some (length (filter (\<lambda>j. bit_at b j = v) [start..<start + cnt]))"
proof -
  have "usz (start + cnt) = start + cnt" using assms by (simp add: bitmap_wf_def usz_id)
  then show ?thesis
    using count_loop_spec [of b start 0 cnt v 0] assms by (simp add: bitmap_count_def)
qed

section \<open>Scanning\<close>

definition bit_run :: "bitmap \<Rightarrow> nat \<Rightarrow> nat \<Rightarrow> bool \<Rightarrow> bool" where
  "bit_run b i cnt v \<longleftrightarrow> (\<forall>j. i \<le> j \<and> j < i + cnt \<longrightarrow> bit_at b j = v)"

lemma contains_not_run:
  "bitmap_wf b \<Longrightarrow> i + cnt \<le> bit_cnt b \<Longrightarrow>
   bitmap_contains b i cnt (\<not> v) = Some (\<not> bit_run b i cnt v)"
  by (auto simp: bitmap_contains_spec bit_run_def)

declare scan_loop.simps [simp del]

text \<open>\<open>first_run b cnt v i lim r\<close>: \<open>r\<close> is the least start, from \<open>i\<close> on, of a group of
  \<open>cnt\<close> bits equal to \<open>v\<close> that ends at \<open>lim\<close> or before.\<close>

definition first_run :: "bitmap \<Rightarrow> nat \<Rightarrow> bool \<Rightarrow> nat \<Rightarrow> nat \<Rightarrow> nat \<Rightarrow> bool" where
  "first_run b cnt v i lim r \<longleftrightarrow>
     i \<le> r \<and> r + cnt \<le> lim \<and> bit_run b r cnt v \<and> (\<forall>j. i \<le> j \<and> j < r \<longrightarrow> \<not> bit_run b j cnt v)"

definition no_run :: "bitmap \<Rightarrow> nat \<Rightarrow> bool \<Rightarrow> nat \<Rightarrow> nat \<Rightarrow> bool" where
  "no_run b cnt v i lim \<longleftrightarrow> (\<forall>j. i \<le> j \<and> j + cnt \<le> lim \<longrightarrow> \<not> bit_run b j cnt v)"

lemma first_run_here: "bit_run b i cnt v \<Longrightarrow> i + cnt \<le> lim \<Longrightarrow> first_run b cnt v i lim i"
  by (auto simp: first_run_def)

lemma first_run_later:
  assumes "\<not> bit_run b i cnt v" and "first_run b cnt v (Suc i) lim r"
  shows "first_run b cnt v i lim r"
  unfolding first_run_def
proof (intro conjI allI impI)
  show "i \<le> r" "r + cnt \<le> lim" "bit_run b r cnt v" using assms(2) by (auto simp: first_run_def)
  fix j assume "i \<le> j \<and> j < r"
  then show "\<not> bit_run b j cnt v"
    using assms by (cases "j = i") (auto simp: first_run_def)
qed

lemma no_run_later:
  assumes "\<not> bit_run b i cnt v" and "no_run b cnt v (Suc i) lim"
  shows "no_run b cnt v i lim"
  unfolding no_run_def
proof (intro allI impI)
  fix j assume "i \<le> j \<and> j + cnt \<le> lim"
  then show "\<not> bit_run b j cnt v"
    using assms by (cases "j = i") (auto simp: no_run_def)
qed

lemma scan_loop_spec:
  assumes "bitmap_wf b" and "cnt \<le> bit_cnt b" and "lst = bit_cnt b - cnt"
  shows "\<exists>r. scan_loop b cnt v lst i = Some r
     \<and> (r = BITMAP_ERROR \<and> no_run b cnt v i (bit_cnt b) \<or> first_run b cnt v i (bit_cnt b) r)"
  using assms
proof (induction b cnt v lst i rule: scan_loop.induct)
  case (1 b cnt v lst i)
  show ?case
  proof (cases "i \<le> lst")
    case True
    then have in_range: "i + cnt \<le> bit_cnt b" using "1.prems" by simp
    note c = contains_not_run [OF "1.prems"(1) in_range, of v]
    show ?thesis
    proof (cases "bit_run b i cnt v")
      case True
      with \<open>i \<le> lst\<close> c in_range show ?thesis
        by (simp add: scan_loop.simps [of b cnt v lst i] first_run_here)
    next
      case False
      with c have c': "bitmap_contains b i cnt (\<not> v) = Some True" by simp
      from "1.IH" [OF True c'] "1.prems" obtain r where r: "scan_loop b cnt v lst (Suc i) = Some r"
        "r = BITMAP_ERROR \<and> no_run b cnt v (Suc i) (bit_cnt b)
         \<or> first_run b cnt v (Suc i) (bit_cnt b) r"
        by auto
      have "scan_loop b cnt v lst i = Some r"
        using True c' r(1) by (simp add: scan_loop.simps [of b cnt v lst i])
      with r(2) False show ?thesis using first_run_later no_run_later by metis
    qed
  next
    case False
    then have "no_run b cnt v i (bit_cnt b)" using "1.prems" by (auto simp: no_run_def)
    with False show ?thesis by (simp add: scan_loop.simps [of b cnt v lst i])
  qed
qed

lemma first_run_not_error: "bitmap_wf b \<Longrightarrow> first_run b cnt v i (bit_cnt b) r \<Longrightarrow> r \<noteq> BITMAP_ERROR"
  by (auto simp: first_run_def bitmap_wf_def BITMAP_ERROR_def SIZE_MAX_def)

lemma bitmap_scan_spec:
  assumes "bitmap_wf b" and "start \<le> bit_cnt b"
  obtains (none) "bitmap_scan b start cnt v = Some BITMAP_ERROR" "no_run b cnt v start (bit_cnt b)"
    | (found) r where "bitmap_scan b start cnt v = Some r" "r \<noteq> BITMAP_ERROR"
        "first_run b cnt v start (bit_cnt b) r"
proof (cases "cnt \<le> bit_cnt b")
  case True
  then have "bitmap_scan b start cnt v = scan_loop b cnt v (bit_cnt b - cnt) start"
    using assms by (simp add: bitmap_scan_def)
  with that scan_loop_spec [OF assms(1) True refl, of v start] first_run_not_error [OF assms(1)]
  show ?thesis by metis
next
  case False
  with assms that(1) show ?thesis by (simp add: bitmap_scan_def no_run_def)
qed

lemma bitmap_scan_and_flip_spec:
  assumes "bitmap_wf b" and "start \<le> bit_cnt b"
  obtains (none) "bitmap_scan_and_flip b start cnt v = Some (BITMAP_ERROR, b)"
        "no_run b cnt v start (bit_cnt b)"
    | (found) r b' where "bitmap_scan_and_flip b start cnt v = Some (r, b')" "r \<noteq> BITMAP_ERROR"
        "first_run b cnt v start (bit_cnt b) r" "bitmap_wf b'" "bit_cnt b' = bit_cnt b"
        "\<forall>j. bit_at b' j = (if r \<le> j \<and> j < r + cnt then \<not> v else bit_at b j)"
  using assms
proof (cases rule: bitmap_scan_spec [where cnt = cnt and v = v])
  case none
  with that(1) show ?thesis by (simp add: bitmap_scan_and_flip_def)
next
  case (found r)
  then have "r + cnt \<le> bit_cnt b" by (simp add: first_run_def)
  then obtain b' where b': "bitmap_set_multiple b r cnt (\<not> v) = Some b'" "bitmap_wf b'"
      "bit_cnt b' = bit_cnt b"
      "\<forall>j. bit_at b' j = (if r \<le> j \<and> j < r + cnt then \<not> v else bit_at b j)"
    using bitmap_set_multiple_spec [OF assms(1), of r cnt "\<not> v"] by blast
  with found show ?thesis by (intro that(2)) (simp_all add: bitmap_scan_and_flip_def)
qed


section \<open>Creation\<close>

lemma bitmap_set_all_spec:
  assumes "bitmap_wf b"
  shows "\<exists>b'. bitmap_set_all b v = Some b' \<and> bitmap_wf b' \<and> bit_cnt b' = bit_cnt b
           \<and> bm_abs b' = replicate (bit_cnt b) v"
proof -
  obtain b' where "bitmap_set_multiple b 0 (bit_cnt b) v = Some b'" "bitmap_wf b'"
      "bit_cnt b' = bit_cnt b" "\<forall>j. bit_at b' j = (if j < bit_cnt b then v else bit_at b j)"
    using bitmap_set_multiple_spec [OF assms, of 0 "bit_cnt b" v] by auto
  then show ?thesis
    by (auto simp: bitmap_set_all_def bitmap_size_def bm_abs_def intro!: nth_equalityI)
qed

section \<open>The allocator contract\<close>

text \<open>What the clients of a bitmap rely on. \<open>alloc n\<close> reserves \<open>n\<close> consecutive slots, or
  reports that there are none; \<open>release i n\<close> gives reserved slots back.\<close>

locale slot_allocator =
  fixes wf :: "'a \<Rightarrow> bool"
    and cap :: "'a \<Rightarrow> nat"
    and used :: "'a \<Rightarrow> nat \<Rightarrow> bool"
    and alloc :: "nat \<Rightarrow> 'a \<Rightarrow> (nat option \<times> 'a) option"
    and release :: "nat \<Rightarrow> nat \<Rightarrow> 'a \<Rightarrow> 'a option"
  assumes alloc_total: "wf a \<Longrightarrow> alloc n a \<noteq> None"
    and alloc_found: "wf a \<Longrightarrow> alloc n a = Some (Some i, a') \<Longrightarrow>
          wf a' \<and> cap a' = cap a \<and> i + n \<le> cap a \<and> (\<forall>j. i \<le> j \<and> j < i + n \<longrightarrow> \<not> used a j)
          \<and> (\<forall>j. used a' j \<longleftrightarrow> used a j \<or> i \<le> j \<and> j < i + n)"
    and alloc_full: "wf a \<Longrightarrow> alloc n a = Some (None, a') \<Longrightarrow>
          a' = a \<and> (\<forall>i. i + n \<le> cap a \<longrightarrow> (\<exists>j. i \<le> j \<and> j < i + n \<and> used a j))"
    and release_spec: "wf a \<Longrightarrow> i + n \<le> cap a \<Longrightarrow> (\<forall>j. i \<le> j \<and> j < i + n \<longrightarrow> used a j) \<Longrightarrow>
          \<exists>a'. release i n a = Some a' \<and> wf a' \<and> cap a' = cap a
            \<and> (\<forall>j. used a' j \<longleftrightarrow> used a j \<and> \<not> (i \<le> j \<and> j < i + n))"

text \<open>A client's history: requests and returns of blocks. \<open>alloc_run\<close> keeps the list of live
  blocks; a return of a block that is not live is a client error and stops the run.\<close>

datatype alloc_event = Take nat | Give nat nat

fun alloc_run :: "(nat \<Rightarrow> 'a \<Rightarrow> (nat option \<times> 'a) option) \<Rightarrow> (nat \<Rightarrow> nat \<Rightarrow> 'a \<Rightarrow> 'a option)
    \<Rightarrow> 'a \<Rightarrow> (nat \<times> nat) list \<Rightarrow> alloc_event list \<Rightarrow> ('a \<times> (nat \<times> nat) list) option" where
  "alloc_run al rel a live [] = Some (a, live)"
| "alloc_run al rel a live (Take n # es) = do {
     (r, a') \<leftarrow> al n a;
     alloc_run al rel a' (case r of None \<Rightarrow> live | Some i \<Rightarrow> (i, n) # live) es }"
| "alloc_run al rel a live (Give i n # es) =
     (if (i, n) \<in> set live
      then do { a' \<leftarrow> rel i n a; alloc_run al rel a' (remove1 (i, n) live) es }
      else None)"

definition blocks :: "(nat \<times> nat) list \<Rightarrow> nat list" where
  "blocks live = concat (map (\<lambda>(i, n). [i..<i + n]) live)"

text \<open>The live blocks are disjoint, inside the capacity, and marked as used.\<close>

definition live_ok :: "nat \<Rightarrow> (nat \<Rightarrow> bool) \<Rightarrow> (nat \<times> nat) list \<Rightarrow> bool" where
  "live_ok c u live \<longleftrightarrow> distinct (blocks live) \<and> (\<forall>(i, n) \<in> set live. i + n \<le> c)
     \<and> (\<forall>j \<in> set (blocks live). u j)"

lemma blocks_Cons [simp]: "blocks ((i, n) # live) = [i..<i + n] @ blocks live"
  by (simp add: blocks_def)

lemma mset_blocks_remove1:
  "(i, n) \<in> set live \<Longrightarrow> mset (blocks live) = mset [i..<i + n] + mset (blocks (remove1 (i, n) live))"
  by (induction live) (auto simp: blocks_def)

lemma distinct_blocks_remove1:
  assumes "(i, n) \<in> set live" and "distinct (blocks live)"
  shows "distinct ([i..<i + n] @ blocks (remove1 (i, n) live))"
proof -
  have "mset ([i..<i + n] @ blocks (remove1 (i, n) live)) = mset (blocks live)"
    using mset_blocks_remove1 [OF assms(1)] by simp
  with assms(2) show ?thesis using mset_eq_imp_distinct_iff by blast
qed

lemma set_blocks_remove1:
  assumes "(i, n) \<in> set live" and "distinct (blocks live)"
  shows "set (blocks live) = {i..<i + n} \<union> set (blocks (remove1 (i, n) live))"
    and "{i..<i + n} \<inter> set (blocks (remove1 (i, n) live)) = {}"
proof -
  have "set (blocks live) = set ([i..<i + n] @ blocks (remove1 (i, n) live))"
    using mset_blocks_remove1 [OF assms(1)] by (metis mset_append mset_eq_setD)
  then show "set (blocks live) = {i..<i + n} \<union> set (blocks (remove1 (i, n) live))" by simp
  show "{i..<i + n} \<inter> set (blocks (remove1 (i, n) live)) = {}"
    using distinct_blocks_remove1 [OF assms] by simp
qed

context slot_allocator
begin

lemma alloc_run_disjoint:
  assumes "wf a" and "live_ok (cap a) (used a) live"
    and "alloc_run alloc release a live es = Some (a', live')"
  shows "wf a' \<and> cap a' = cap a \<and> live_ok (cap a') (used a') live'"
  using assms
proof (induction es arbitrary: a live)
  case Nil
  then show ?case by auto
next
  case (Cons e es)
  show ?case
  proof (cases e)
    case (Take n)
    with Cons.prems obtain r a1 where a1: "alloc n a = Some (r, a1)"
      and rest: "alloc_run alloc release a1 (case r of None \<Rightarrow> live | Some i \<Rightarrow> (i, n) # live) es
                 = Some (a', live')"
      by (auto simp: bind_Some_iff)
    show ?thesis
    proof (cases r)
      case None
      with a1 Cons.prems(1) alloc_full have "a1 = a" by blast
      with Cons.IH [of a live] Cons.prems(1,2) None rest show ?thesis by auto
    next
      case (Some i)
      note found = alloc_found [OF Cons.prems(1) a1 [unfolded Some]]
      then have ok: "live_ok (cap a1) (used a1) ((i, n) # live)"
        using Cons.prems(2) by (fastforce simp: live_ok_def)
      have wf1: "wf a1" and cap1: "cap a1 = cap a" using found by auto
      have "alloc_run alloc release a1 ((i, n) # live) es = Some (a', live')"
        using rest Some by simp
      from Cons.IH [OF wf1 ok this] show ?thesis using cap1 by auto
    qed
  next
    case (Give i n)
    with Cons.prems obtain a1 where live: "(i, n) \<in> set live" and a1: "release i n a = Some a1"
      and rest: "alloc_run alloc release a1 (remove1 (i, n) live) es = Some (a', live')"
      by (auto simp: bind_Some_iff split: if_splits)
    have ok: "distinct (blocks live)" "\<forall>(i, n) \<in> set live. i + n \<le> cap a"
        "\<forall>j \<in> set (blocks live). used a j"
      using Cons.prems(2) by (auto simp: live_ok_def)
    note sb = set_blocks_remove1 [OF live ok(1)]
    have rs: "wf a1 \<and> cap a1 = cap a \<and> (\<forall>j. used a1 j \<longleftrightarrow> used a j \<and> \<not> (i \<le> j \<and> j < i + n))"
      using release_spec [OF Cons.prems(1), of i n] a1 ok live sb by force
    then have wf1: "wf a1" and cap1: "cap a1 = cap a" by auto
    have "live_ok (cap a1) (used a1) (remove1 (i, n) live)"
      using distinct_blocks_remove1 [OF live ok(1)] ok sb rs
      by (auto simp: live_ok_def dest: notin_set_remove1)
    from Cons.IH [OF wf1 this rest] show ?thesis using cap1 by auto
  qed
qed

text \<open>A request fails only when no group of free slots is long enough, so a returned block can
  be handed out again.\<close>

lemma alloc_succeeds:
  assumes "wf a" and "i + n \<le> cap a" and "\<forall>j. i \<le> j \<and> j < i + n \<longrightarrow> \<not> used a j"
  shows "\<exists>i' a'. alloc n a = Some (Some i', a')"
proof -
  obtain r a' where ra: "alloc n a = Some (r, a')" using alloc_total [OF assms(1)] by fastforce
  with alloc_full [OF assms(1)] assms(2,3) show ?thesis by (cases r) auto
qed

lemma release_then_alloc:
  assumes "wf a" and "i + n \<le> cap a" and "\<forall>j. i \<le> j \<and> j < i + n \<longrightarrow> used a j"
  shows "\<exists>a1 i' a2. release i n a = Some a1 \<and> alloc n a1 = Some (Some i', a2)"
  using release_spec [OF assms] alloc_succeeds [of _ i n] assms(2) by fastforce

end

section \<open>The bitmap as an allocator\<close>

definition bm_alloc :: "nat \<Rightarrow> bitmap \<Rightarrow> (nat option \<times> bitmap) option" where
  "bm_alloc n b = map_option (\<lambda>(r, b'). (if r = BITMAP_ERROR then None else Some r, b'))
     (bitmap_scan_and_flip b 0 n False)"

definition bm_release :: "nat \<Rightarrow> nat \<Rightarrow> bitmap \<Rightarrow> bitmap option" where
  "bm_release i n b = bitmap_set_multiple b i n False"

interpretation bm: slot_allocator bitmap_wf bit_cnt bit_at bm_alloc bm_release
proof (unfold_locales, goal_cases)
  case (1 a n)
  show ?case
    by (rule bitmap_scan_and_flip_spec [OF 1, of 0 n False]) (auto simp: bm_alloc_def)
next
  case (2 a n i a')
  show ?case
    by (rule bitmap_scan_and_flip_spec [OF 2(1), of 0 n False])
       (use 2 in \<open>auto simp: bm_alloc_def first_run_def bit_run_def split: if_splits\<close>)
next
  case (3 a n a')
  show ?case
    by (rule bitmap_scan_and_flip_spec [OF 3(1), of 0 n False])
       (use 3 in \<open>auto simp: bm_alloc_def no_run_def bit_run_def split: if_splits\<close>)
next
  case (4 a i n)
  then show ?case
    using bitmap_set_multiple_spec [OF 4(1,2), of False] by (force simp: bm_release_def)
qed

section \<open>Properties\<close>

lemma nth_bm_abs [simp]: "i < bit_cnt b \<Longrightarrow> bm_abs b ! i = bit_at b i"
  by (simp add: bm_abs_def)

lemma length_bm_abs [simp]: "length (bm_abs b) = bit_cnt b"
  by (simp add: bm_abs_def)

text \<open>\<open>bitmap_set_multiple\<close> writes exactly the bits \<open>start .. start + cnt - 1\<close> and no
  others, and stops the kernel on every range that does not lie inside the bitmap, also when
  \<open>start + cnt\<close> wraps around in \<open>size_t\<close> and so passes the function's own assertion.\<close>

theorem bitmap_set_multiple_refines:
  assumes "bitmap_wf b" and "start < 4294967296" and "cnt < 4294967296"
  shows "map_option bm_abs (bitmap_set_multiple b start cnt v) =
    (if start + cnt \<le> bit_cnt b
     then Some (take start (bm_abs b) @ replicate cnt v @ drop (start + cnt) (bm_abs b))
     else None)"
proof (cases "start + cnt \<le> bit_cnt b")
  case True
  with bitmap_set_multiple_spec [OF assms(1) True, of v] obtain b' where b':
    "bitmap_set_multiple b start cnt v = Some b'" "bit_cnt b' = bit_cnt b"
    "\<forall>j. bit_at b' j = (if start \<le> j \<and> j < start + cnt then v else bit_at b j)" by blast
  have "bm_abs b' = take start (bm_abs b) @ replicate cnt v @ drop (start + cnt) (bm_abs b)"
    using True b' by (intro nth_equalityI) (auto simp: nth_append min_def)
  with True b' show ?thesis by simp
next
  case False
  with bitmap_set_multiple_None [OF assms(1), of start cnt v] show ?thesis by simp
qed

theorem bitmap_set_multiple_refines_witness:
  "map_option bm_abs (bitmap_set_multiple \<lparr>bit_cnt = 5, bits = [0]\<rparr> 1 3 True)
     = Some [False, True, True, True, False]
   \<and> map_option bm_abs (bitmap_set_multiple \<lparr>bit_cnt = 5, bits = [0]\<rparr> 4 4294967293 True) = None"
proof -
  let ?b = "\<lparr>bit_cnt = 5, bits = [0]\<rparr>"
  have wf: "bitmap_wf ?b" by (simp add: bitmap_wf_def elem_cnt_eq)
  have abs: "bm_abs ?b = [False, False, False, False, False]"
    by (simp add: bm_abs_def bit_at_def upt_rec)
  show ?thesis
    using bitmap_set_multiple_refines [OF wf, of 1 3 True]
      bitmap_set_multiple_refines [OF wf, of 4 4294967293 True]
    by (simp add: abs numeral_3_eq_3)
qed

end
