(* ===== verification/Inode.thy ===== *)
theory Inode
  imports Cache Bytes Bitmap
begin

text \<open>
  Inodes and the free map, \<^verbatim>\<open>filesys/inode.c\<close> and \<^verbatim>\<open>filesys/free-map.c\<close>. The state \<open>fs_state\<close> holds
  the cached disk, the free map, and the in-memory inodes: a pointer to a \<open>struct inode\<close> is an
  address of the map \<open>inodes\<close>, and \<open>open_inodes\<close> is the list of the open ones. \<open>uninit\<close> is what
  uninitialised arrays and uninitialised heap memory hold. Lengths and offsets (\<open>off_t\<close>) are
  natural numbers: an offset is never negative, and a negative size reads and writes nothing,
  like zero.

  \<open>inode_write_at\<close> may grow the file, growing allocates sectors, and an allocation writes the
  free map to its file with \<open>inode_write_at\<close>. The first argument of the operations on this cycle
  bounds the depth of the recursion; since the free map's file never grows, two levels are
  enough. The loops of \<open>inode_grow\<close> are partial functions, as they do not end on an inode whose
  indices are out of range.
\<close>

section \<open>State\<close>

definition INODE_MAGIC :: u32 where "INODE_MAGIC = 0x494e4f44"

definition NUM_PTRS :: nat where "NUM_PTRS = 15"

definition NUM_PTRS_DIR :: nat where "NUM_PTRS_DIR = 4"

definition NUM_PTRS_INDIR :: nat where "NUM_PTRS_INDIR = 10"

definition NUM_PTRS_DOUBLE :: nat where "NUM_PTRS_DOUBLE = 1"

definition FILE_SIZE_MAX :: nat where "FILE_SIZE_MAX = 8388608"

definition PTR_PER_BLOCK :: nat where "PTR_PER_BLOCK = 128"

lemmas inode_consts = NUM_PTRS_def NUM_PTRS_DIR_def NUM_PTRS_INDIR_def NUM_PTRS_DOUBLE_def
  PTR_PER_BLOCK_def DISK_SECTOR_SIZE_def

record inode_disk =
  d_length :: nat
  d_magic :: u32
  d_is_allocated :: nat
  d_ptrs :: "disk_sector_t list"
  d_ptr_idx :: nat
  d_indir_idx :: nat
  d_double_indir_idx :: nat
  d_is_dir :: nat
  d_parent :: disk_sector_t
  d_unused :: "u32 list"

record inode =
  i_sector :: disk_sector_t
  open_cnt :: int
  removed :: bool
  deny_write_cnt :: int
  i_length :: nat
  length_shown :: nat
  is_allocated :: nat
  ptrs :: "disk_sector_t list"
  ptr_idx :: nat
  indir_idx :: nat
  double_indir_idx :: nat
  is_dir :: nat
  parent :: disk_sector_t
  i_lock :: bool

record fs_state =
  cache :: cache_state
  free_map :: bitmap
  free_map_file :: "nat option"
  inodes :: "nat \<Rightarrow> inode option"
  open_inodes :: "nat list"
  next_inode :: nat
  uninit :: "nat \<Rightarrow> u32"

definition fs_disk :: "fs_state \<Rightarrow> disk" where
  "fs_disk s = filesys_disk (cache s)"

definition set_disk :: "disk \<Rightarrow> fs_state \<Rightarrow> fs_state" where
  "set_disk d s = s\<lparr>cache := (cache s)\<lparr>filesys_disk := d\<rparr>\<rparr>"

definition upd_inode :: "nat \<Rightarrow> (inode \<Rightarrow> inode) \<Rightarrow> fs_state \<Rightarrow> fs_state" where
  "upd_inode ip f s = s\<lparr>inodes := (inodes s)(ip := map_option f (inodes s ip))\<rparr>"

text \<open>A transfer of a sector past the cache, and \<open>malloc\<close>, on the whole state.\<close>

definition fs_read_sector :: "disk_sector_t \<Rightarrow> fs_state \<Rightarrow> (byte list \<times> fs_state) option" where
  "fs_read_sector x s = do { (bytes, d) \<leftarrow> disk_read (fs_disk s) x; Some (bytes, set_disk d s) }"

definition fs_write_sector :: "disk_sector_t \<Rightarrow> byte list \<Rightarrow> fs_state \<Rightarrow> fs_state option" where
  "fs_write_sector x bytes s = do { d \<leftarrow> disk_write (fs_disk s) x bytes; Some (set_disk d s) }"

definition fs_malloc :: "fs_state \<Rightarrow> bool \<times> fs_state" where
  "fs_malloc s = (let (ok, c) = malloc (cache s) in (ok, s\<lparr>cache := c\<rparr>))"

definition uninit_block :: "fs_state \<Rightarrow> disk_sector_t list" where
  "uninit_block s = map (uninit s) [0..<PTR_PER_BLOCK]"

section \<open>The inode on disk\<close>

definition encode_inode :: "inode_disk \<Rightarrow> byte list" where
  "encode_inode d = words_bytes
     ([word_of_nat (d_length d), d_magic d, word_of_nat (d_is_allocated d)] @ d_ptrs d
      @ [word_of_nat (d_ptr_idx d), word_of_nat (d_indir_idx d), word_of_nat (d_double_indir_idx d),
         word_of_nat (d_is_dir d), d_parent d] @ d_unused d)"

definition decode_inode :: "byte list \<Rightarrow> inode_disk" where
  "decode_inode bytes = (let w = le_words bytes in
     \<lparr>d_length = unat (w ! 0), d_magic = w ! 1, d_is_allocated = unat (w ! 2),
      d_ptrs = take 15 (drop 3 w), d_ptr_idx = unat (w ! 18), d_indir_idx = unat (w ! 19),
      d_double_indir_idx = unat (w ! 20), d_is_dir = unat (w ! 21), d_parent = w ! 22,
      d_unused = drop 23 w\<rparr>)"

definition bytes_to_sectors :: "nat \<Rightarrow> nat" where
  "bytes_to_sectors sz = DIV_ROUND_UP sz DISK_SECTOR_SIZE"

lemma bytes_to_sectors_eq: "n < 2 ^ 31 \<Longrightarrow> bytes_to_sectors n = (n + 511) div 512"
  by (simp add: bytes_to_sectors_def DIV_ROUND_UP_def DISK_SECTOR_SIZE_def usz_id SIZE_MAX_def)

section \<open>Where a byte of a file lies\<close>

text \<open>An entry of an array of pointers; reading outside it is an error.\<close>

definition ptr_at :: "disk_sector_t list \<Rightarrow> nat \<Rightarrow> disk_sector_t option" where
  "ptr_at ps i = (if i < length ps then Some (ps ! i) else None)"

definition byte_to_sector :: "inode \<Rightarrow> nat \<Rightarrow> fs_state \<Rightarrow> (disk_sector_t \<times> fs_state) option" where
  "byte_to_sector inode pos s =
     (if pos < i_length inode
      then if pos < DISK_SECTOR_SIZE * NUM_PTRS_DIR
        then do { p \<leftarrow> ptr_at (ptrs inode) (pos div DISK_SECTOR_SIZE); Some (p, s) }
        else let new_pos = pos - DISK_SECTOR_SIZE * NUM_PTRS_DIR in
          if new_pos < DISK_SECTOR_SIZE * (NUM_PTRS_INDIR * PTR_PER_BLOCK)
          then do {
            p \<leftarrow> ptr_at (ptrs inode) (NUM_PTRS_DIR + new_pos div DISK_SECTOR_SIZE div PTR_PER_BLOCK);
            (inner_ptr, s1) \<leftarrow> fs_read_sector p s;
            let new_pos' = new_pos mod (DISK_SECTOR_SIZE * PTR_PER_BLOCK);
            q \<leftarrow> ptr_at (le_words inner_ptr) (new_pos' div DISK_SECTOR_SIZE);
            Some (q, s1) }
          else do {
            let new_pos1 = new_pos - DISK_SECTOR_SIZE * NUM_PTRS_INDIR * PTR_PER_BLOCK;
            let idx_ptr = NUM_PTRS_DIR + NUM_PTRS_INDIR
              + new_pos1 div (DISK_SECTOR_SIZE * PTR_PER_BLOCK * PTR_PER_BLOCK);
            kassert (idx_ptr = 14);
            p \<leftarrow> ptr_at (ptrs inode) idx_ptr;
            (inner_ptr, s1) \<leftarrow> fs_read_sector p s;
            let new_pos2 = new_pos1 - (idx_ptr - NUM_PTRS_DIR - NUM_PTRS_INDIR)
              * DISK_SECTOR_SIZE * PTR_PER_BLOCK * PTR_PER_BLOCK;
            let double_idx_ptr = new_pos2 div DISK_SECTOR_SIZE div PTR_PER_BLOCK;
            let new_pos3 = new_pos2 mod (DISK_SECTOR_SIZE * PTR_PER_BLOCK);
            q \<leftarrow> ptr_at (le_words inner_ptr) double_idx_ptr;
            (double_inner_ptr, s2) \<leftarrow> fs_read_sector q s1;
            r \<leftarrow> ptr_at (le_words double_inner_ptr) (new_pos3 div DISK_SECTOR_SIZE);
            Some (r, s2) }
      else Some (- 1, s))"

section \<open>Growing a file\<close>

text \<open>The allocator (\<open>free_map_allocate (1, ...)\<close>) is the first argument of the loops: the sector it
  stores, or \<open>None\<close> when it fails. The result of a loop starts with a flag: false when the code
  has returned early.\<close>

type_synonym allocator = "fs_state \<Rightarrow> (disk_sector_t option \<times> fs_state) option"

definition data_default :: "byte list" where
  "data_default = replicate DISK_SECTOR_SIZE 0"

text \<open>The innermost loops, which fill an index block: \<open>n\<close> is the number of slots left, \<open>i\<close> the
  next slot.\<close>

primrec fill_loop ::
    "nat \<Rightarrow> allocator \<Rightarrow> nat \<Rightarrow> nat \<Rightarrow> disk_sector_t list \<Rightarrow> fs_state \<Rightarrow>
     (bool \<times> nat \<times> nat \<times> disk_sector_t list \<times> fs_state) option" where
  "fill_loop 0 alloc i sectors block s = Some (True, i, sectors, block, s)"
| "fill_loop (Suc n) alloc i sectors block s =
     (if sectors = 0 then Some (True, i, sectors, block, s)
      else do {
        (r, s1) \<leftarrow> alloc s;
        case r of
          None \<Rightarrow> Some (False, i, sectors, block, s1)
        | Some x \<Rightarrow> do {
            s2 \<leftarrow> fs_write_sector x data_default s1;
            fill_loop n alloc (Suc i) (sectors - 1) (block[i := x]) s2 } })"

partial_function (option) double_loop ::
    "allocator \<Rightarrow> nat \<Rightarrow> nat \<Rightarrow> nat \<Rightarrow> disk_sector_t list \<Rightarrow> disk_sector_t list \<Rightarrow> fs_state \<Rightarrow>
     (bool \<times> nat \<times> nat \<times> disk_sector_t list \<times> disk_sector_t list \<times> fs_state) option" where
  "double_loop alloc ip i sectors inner_ptr double_inner_ptr s =
     (if \<not> i < PTR_PER_BLOCK \<or> sectors = 0
      then Some (True, i, sectors, inner_ptr, double_inner_ptr, s)
      else Option.bind (inodes s ip) (\<lambda>inode.
       Option.bind
        (if double_indir_idx inode = 0
         then Option.bind (alloc s) (\<lambda>(r, s1). case r of
             None \<Rightarrow> Some (False, inner_ptr, double_inner_ptr, s1)
           | Some x \<Rightarrow>
               if indir_idx inode < PTR_PER_BLOCK
               then Some (True, inner_ptr[indir_idx inode := x], double_inner_ptr, s1) else None)
         else Option.bind (ptr_at inner_ptr (indir_idx inode)) (\<lambda>p.
              Option.bind (fs_read_sector p s) (\<lambda>(bytes, s1).
                Some (True, inner_ptr, le_words bytes, s1))))
        (\<lambda>(ok, inner1, dbl1, s1).
         if \<not> ok then Some (False, i, sectors, inner1, dbl1, s1)
         else Option.bind (inodes s1 ip) (\<lambda>inode1.
              Option.bind (fill_loop (PTR_PER_BLOCK - double_indir_idx inode1) alloc
                             (double_indir_idx inode1) sectors dbl1 s1)
          (\<lambda>(ok2, j, sectors2, dbl2, s2).
           if \<not> ok2 then Some (False, i, sectors2, inner1, dbl2, s2)
           else Option.bind (ptr_at inner1 i) (\<lambda>p.
                Option.bind (fs_write_sector p (words_bytes dbl2)
                               (upd_inode ip (\<lambda>ino. ino\<lparr>double_indir_idx := j\<rparr>) s2)) (\<lambda>s3.
             if j = PTR_PER_BLOCK
             then double_loop alloc ip (Suc i) sectors2 inner1 dbl2
                    (upd_inode ip (\<lambda>ino. ino\<lparr>double_indir_idx := 0\<rparr>) s3)
             else double_loop alloc ip i sectors2 inner1 dbl2 s3)))))))"

text \<open>The outer loop. The result is the final \<open>idx\<close>, or \<open>None\<close> when the code has returned early.\<close>

partial_function (option) grow_loop ::
    "allocator \<Rightarrow> nat \<Rightarrow> nat \<Rightarrow> nat \<Rightarrow> disk_sector_t list \<Rightarrow> disk_sector_t list \<Rightarrow> fs_state \<Rightarrow>
     (nat option \<times> fs_state) option" where
  "grow_loop alloc ip idx sectors inner_ptr double_inner_ptr s =
     (if \<not> idx < NUM_PTRS \<or> sectors = 0 then Some (Some idx, s)
      else if idx < NUM_PTRS_DIR
      then Option.bind (alloc s) (\<lambda>(r, s1). case r of
          None \<Rightarrow> Some (None, s1)
        | Some x \<Rightarrow>
            Option.bind (fs_write_sector x data_default
                (upd_inode ip (\<lambda>ino. ino\<lparr>ptrs := (ptrs ino)[idx := x]\<rparr>) s1)) (\<lambda>s2.
              grow_loop alloc ip (Suc idx) (sectors - 1) inner_ptr double_inner_ptr s2))
      else Option.bind (inodes s ip) (\<lambda>inode.
       if idx < NUM_PTRS_DIR + NUM_PTRS_INDIR
       then Option.bind
        (if indir_idx inode = 0
         then Option.bind (alloc s) (\<lambda>(r, s1). case r of
             None \<Rightarrow> Some (False, inner_ptr, s1)
           | Some x \<Rightarrow> Some (True, inner_ptr,
                        upd_inode ip (\<lambda>ino. ino\<lparr>ptrs := (ptrs ino)[idx := x]\<rparr>) s1))
         else Option.bind (ptr_at (ptrs inode) idx) (\<lambda>p.
              Option.bind (fs_read_sector p s) (\<lambda>(bytes, s1). Some (True, le_words bytes, s1))))
        (\<lambda>(ok, inner1, s1).
         if \<not> ok then Some (None, s1)
         else Option.bind (inodes s1 ip) (\<lambda>inode1.
              Option.bind (fill_loop (PTR_PER_BLOCK - indir_idx inode1) alloc (indir_idx inode1)
                             sectors inner1 s1)
          (\<lambda>(ok2, i, sectors2, inner2, s2).
           if \<not> ok2 then Some (None, s2)
           else Option.bind (inodes s2 ip) (\<lambda>inode2.
                Option.bind (ptr_at (ptrs inode2) idx) (\<lambda>p.
                Option.bind (fs_write_sector p (words_bytes inner2)
                               (upd_inode ip (\<lambda>ino. ino\<lparr>indir_idx := i\<rparr>) s2)) (\<lambda>s3.
             if i = PTR_PER_BLOCK
             then grow_loop alloc ip (Suc idx) sectors2 inner2 double_inner_ptr
                    (upd_inode ip (\<lambda>ino. ino\<lparr>indir_idx := 0\<rparr>) s3)
             else grow_loop alloc ip idx sectors2 inner2 double_inner_ptr s3))))))
       else Option.bind
        (if indir_idx inode = 0 \<and> double_indir_idx inode = 0
         then Option.bind (alloc s) (\<lambda>(r, s1). case r of
             None \<Rightarrow> Some (False, inner_ptr, s1)
           | Some x \<Rightarrow> Some (True, inner_ptr,
                        upd_inode ip (\<lambda>ino. ino\<lparr>ptrs := (ptrs ino)[idx := x]\<rparr>) s1))
         else Option.bind (ptr_at (ptrs inode) idx) (\<lambda>p.
              Option.bind (fs_read_sector p s) (\<lambda>(bytes, s1). Some (True, le_words bytes, s1))))
        (\<lambda>(ok, inner1, s1).
         if \<not> ok then Some (None, s1)
         else Option.bind (inodes s1 ip) (\<lambda>inode1.
              Option.bind (double_loop alloc ip (indir_idx inode1) sectors inner1 double_inner_ptr s1)
          (\<lambda>(ok2, i, sectors2, inner2, dbl2, s2).
           if \<not> ok2 then Some (None, s2)
           else Option.bind (inodes s2 ip) (\<lambda>inode2.
                Option.bind (ptr_at (ptrs inode2) idx) (\<lambda>p.
                Option.bind (fs_write_sector p (words_bytes inner2)
                               (upd_inode ip (\<lambda>ino. ino\<lparr>indir_idx := i\<rparr>) s2)) (\<lambda>s3.
             if i = PTR_PER_BLOCK
             then grow_loop alloc ip (Suc idx) sectors2 inner2 dbl2
                    (upd_inode ip (\<lambda>ino. ino\<lparr>indir_idx := 0\<rparr>) s3)
             else grow_loop alloc ip idx sectors2 inner2 dbl2 s3))))))))"

text \<open>The function returns a \<open>bool\<close>: its \<open>return -1\<close> on a failed allocation yields true, like the
  normal return.\<close>

definition inode_grow :: "allocator \<Rightarrow> nat \<Rightarrow> nat \<Rightarrow> fs_state \<Rightarrow> (bool \<times> fs_state) option" where
  "inode_grow alloc ip len s = do {
     inode \<leftarrow> inodes s ip;
     let sectors = bytes_to_sectors len - bytes_to_sectors (i_length inode);
     (r, s1) \<leftarrow> grow_loop alloc ip (ptr_idx inode) sectors (uninit_block s) (uninit_block s) s;
     case r of
       None \<Rightarrow> Some (True, s1)
     | Some idx \<Rightarrow> Some (True, upd_inode ip (\<lambda>ino. ino\<lparr>ptr_idx := idx, is_allocated := 1\<rparr>) s1) }"

text \<open>The comparison \<open>inode_grow (...) == -1\<close> of the callers.\<close>

definition is_minus_1 :: "bool \<Rightarrow> bool" where
  "is_minus_1 b \<longleftrightarrow> (if b then 1 else 0) = (- 1 :: int)"

section \<open>Reading and writing\<close>

definition inode_is_dir :: "inode \<Rightarrow> bool option" where
  "inode_is_dir inode = (if is_dir inode = 1 then Some True else if is_dir inode = 0 then Some False else None)"

text \<open>The chunk that a round of the loops transfers.\<close>

definition chunk_of :: "nat \<Rightarrow> nat \<Rightarrow> nat \<Rightarrow> nat" where
  "chunk_of len sz offset =
     (let sector_left = DISK_SECTOR_SIZE - offset mod DISK_SECTOR_SIZE;
          inode_left = len - offset;
          min_left = (if inode_left < sector_left then inode_left else sector_left)
      in if sz < min_left then sz else min_left)"

function read_loop ::
    "nat \<Rightarrow> byte list \<Rightarrow> nat \<Rightarrow> nat \<Rightarrow> nat \<Rightarrow> fs_state \<Rightarrow> (nat \<times> byte list \<times> fs_state) option" where
  "read_loop ip buffer sz offset bytes_read s =
     (if sz = 0 then Some (bytes_read, buffer, s)
      else do {
        inode \<leftarrow> inodes s ip;
        (sector_idx, s1) \<leftarrow> byte_to_sector inode offset s;
        let chunk_size = chunk_of (length_shown inode) sz offset;
        if chunk_size = 0 then Some (bytes_read, buffer, s1)
        else do {
          (buffer', c) \<leftarrow> cache_read sector_idx buffer bytes_read (offset mod DISK_SECTOR_SIZE)
                           chunk_size (cache s1);
          read_loop ip buffer' (sz - chunk_size) (offset + chunk_size) (bytes_read + chunk_size)
            (s1\<lparr>cache := c\<rparr>) } })"
  by pat_completeness auto
termination
  by (relation "measure (\<lambda>(ip, buffer, sz, offset, n, s). sz)") auto

declare read_loop.simps [simp del]

definition inode_read_at ::
    "nat \<Rightarrow> byte list \<Rightarrow> nat \<Rightarrow> nat \<Rightarrow> fs_state \<Rightarrow> (nat \<times> byte list \<times> fs_state) option" where
  "inode_read_at ip buffer sz offset s = do {
     inode \<leftarrow> inodes s ip;
     if length_shown inode \<le> offset then Some (0, buffer, s)
     else read_loop ip buffer sz offset 0 s }"

function write_loop ::
    "nat \<Rightarrow> byte list \<Rightarrow> nat \<Rightarrow> nat \<Rightarrow> nat \<Rightarrow> fs_state \<Rightarrow> (nat \<times> fs_state) option" where
  "write_loop ip buffer sz offset bytes_written s =
     (if sz = 0 then Some (bytes_written, s)
      else do {
        inode \<leftarrow> inodes s ip;
        (sector_idx, s1) \<leftarrow> byte_to_sector inode offset s;
        let chunk_size = chunk_of (i_length inode) sz offset;
        if chunk_size = 0 then Some (bytes_written, s1)
        else do {
          c \<leftarrow> cache_write sector_idx buffer bytes_written (offset mod DISK_SECTOR_SIZE)
                 chunk_size (cache s1);
          let s2 = upd_inode ip (\<lambda>ino. ino\<lparr>length_shown :=
                     (if length_shown ino + chunk_size > i_length ino then i_length ino
                      else length_shown ino + chunk_size)\<rparr>) (s1\<lparr>cache := c\<rparr>);
          write_loop ip buffer (sz - chunk_size) (offset + chunk_size)
            (bytes_written + chunk_size) s2 } })"
  by pat_completeness auto
termination
  by (relation "measure (\<lambda>(ip, buffer, sz, offset, n, s). sz)") auto

declare write_loop.simps [simp del]

definition inode_lock_acquire :: "nat \<Rightarrow> fs_state \<Rightarrow> fs_state option" where
  "inode_lock_acquire ip s = do {
     inode \<leftarrow> inodes s ip;
     kassert (\<not> i_lock inode);
     Some (upd_inode ip (\<lambda>ino. ino\<lparr>i_lock := True\<rparr>) s) }"

definition inode_lock_release :: "nat \<Rightarrow> fs_state \<Rightarrow> fs_state option" where
  "inode_lock_release ip s = do {
     inode \<leftarrow> inodes s ip;
     kassert (i_lock inode);
     Some (upd_inode ip (\<lambda>ino. ino\<lparr>i_lock := False\<rparr>) s) }"

definition inode_write_body ::
    "(nat \<Rightarrow> nat \<Rightarrow> fs_state \<Rightarrow> (bool \<times> fs_state) option) \<Rightarrow>
     nat \<Rightarrow> byte list \<Rightarrow> nat \<Rightarrow> nat \<Rightarrow> fs_state \<Rightarrow> (nat \<times> fs_state) option" where
  "inode_write_body grow ip buffer sz offset s = do {
     inode \<leftarrow> inodes s ip;
     if deny_write_cnt inode \<noteq> 0 then Some (0, s)
     else do {
       dir \<leftarrow> inode_is_dir inode;
       s1 \<leftarrow> (if \<not> dir then inode_lock_acquire ip s else Some s);
       (stop, s2) \<leftarrow>
         (if sz + offset > i_length inode
          then do {
            (r, s2) \<leftarrow> grow ip (sz + offset) s1;
            if is_minus_1 r then Some (True, s2)
            else Some (False, upd_inode ip (\<lambda>ino. ino\<lparr>i_length := sz + offset\<rparr>) s2) }
          else Some (False, s1));
       if stop then Some (0, s2)
       else do {
         inode2 \<leftarrow> inodes s2 ip;
         dir2 \<leftarrow> inode_is_dir inode2;
         s3 \<leftarrow> (if \<not> dir2 then inode_lock_release ip s2 else Some s2);
         write_loop ip buffer sz offset 0 s3 } } }"

section \<open>The free map\<close>

text \<open>\<open>bitmap_write\<close> to the free map's file, and \<open>free_map_allocate\<close>, over the function that writes
  to an inode.\<close>

type_synonym inode_writer = "nat \<Rightarrow> byte list \<Rightarrow> nat \<Rightarrow> nat \<Rightarrow> fs_state \<Rightarrow> (nat \<times> fs_state) option"

definition bitmap_write :: "inode_writer \<Rightarrow> bitmap \<Rightarrow> nat \<Rightarrow> fs_state \<Rightarrow> (bool \<times> fs_state) option" where
  "bitmap_write write_at b ip s = do {
     let sz = byte_cnt (bit_cnt b);
     (n, s') \<leftarrow> write_at ip (words_bytes (bits b)) sz 0 s;
     Some (n = sz, s') }"

definition free_map_allocate_with ::
    "inode_writer \<Rightarrow> nat \<Rightarrow> fs_state \<Rightarrow> (disk_sector_t option \<times> fs_state) option" where
  "free_map_allocate_with write_at cnt s = do {
     (sector, fm) \<leftarrow> bitmap_scan_and_flip (free_map s) 0 cnt False;
     let s1 = s\<lparr>free_map := fm\<rparr>;
     (sector', s2) \<leftarrow>
       (if sector \<noteq> BITMAP_ERROR
        then case free_map_file s1 of
            None \<Rightarrow> Some (sector, s1)
          | Some ip \<Rightarrow> do {
              (ok, s2) \<leftarrow> bitmap_write write_at (free_map s1) ip s1;
              if ok then Some (sector, s2)
              else do {
                fm' \<leftarrow> bitmap_set_multiple (free_map s2) sector cnt False;
                Some (BITMAP_ERROR, s2\<lparr>free_map := fm'\<rparr>) } }
        else Some (sector, s1));
     Some (if sector' \<noteq> BITMAP_ERROR then Some (word_of_nat sector') else None, s2) }"

primrec inode_write_at :: "nat \<Rightarrow> inode_writer" where
  "inode_write_at 0 = (\<lambda>ip buffer sz offset s. None)"
| "inode_write_at (Suc depth) =
     inode_write_body (inode_grow (free_map_allocate_with (inode_write_at depth) 1))"

definition free_map_allocate :: "nat \<Rightarrow> nat \<Rightarrow> fs_state \<Rightarrow> (disk_sector_t option \<times> fs_state) option" where
  "free_map_allocate depth cnt = free_map_allocate_with (inode_write_at depth) cnt"

definition free_map_release :: "nat \<Rightarrow> disk_sector_t \<Rightarrow> nat \<Rightarrow> fs_state \<Rightarrow> fs_state option" where
  "free_map_release depth sector cnt s = do {
     all \<leftarrow> bitmap_all (free_map s) (unat sector) cnt;
     kassert all;
     fm \<leftarrow> bitmap_set_multiple (free_map s) (unat sector) cnt False;
     let s1 = s\<lparr>free_map := fm\<rparr>;
     ip \<leftarrow> free_map_file s1;
     (ok, s2) \<leftarrow> bitmap_write (inode_write_at depth) (free_map s1) ip s1;
     Some s2 }"

section \<open>The life of an inode\<close>

definition inode_init :: "fs_state \<Rightarrow> fs_state" where
  "inode_init s = s\<lparr>open_inodes := []\<rparr>"

text \<open>\<open>inode_create\<close>. The temporary \<open>struct inode\<close> comes from \<open>malloc\<close>: the fields the code does not set
  are not read, its array of pointers holds what the memory held.\<close>

definition fresh_inode :: "bool \<Rightarrow> fs_state \<Rightarrow> inode" where
  "fresh_inode dir s =
     \<lparr>i_sector = 0, open_cnt = 0, removed = False, deny_write_cnt = 0, i_length = 0, length_shown = 0,
      is_allocated = 0, ptrs = map (uninit s) [0..<NUM_PTRS], ptr_idx = 0, indir_idx = 0,
      double_indir_idx = 0, is_dir = (if dir then 1 else 0), parent = 0, i_lock = False\<rparr>"

definition inode_create :: "nat \<Rightarrow> disk_sector_t \<Rightarrow> nat \<Rightarrow> bool \<Rightarrow> fs_state \<Rightarrow> (bool \<times> fs_state) option" where
  "inode_create depth sector len dir s = do {
     let (ok1, s1) = fs_malloc s;
     if \<not> ok1 then Some (False, s1)
     else do {
       let len' = (if len > FILE_SIZE_MAX then FILE_SIZE_MAX else len);
       let (ok2, s2) = fs_malloc s1;
       kassert ok2;
       let ip = next_inode s2;
       let s3 = s2\<lparr>inodes := (inodes s2)(ip := Some (fresh_inode dir s2)), next_inode := Suc ip\<rparr>;
       (r, s4) \<leftarrow> inode_grow (free_map_allocate depth 1) ip len' s3;
       if is_minus_1 r then Some (False, s4)
       else do {
         inode \<leftarrow> inodes s4 ip;
         let s5 = s4\<lparr>inodes := (inodes s4)(ip := None)\<rparr>;
         s6 \<leftarrow> fs_write_sector sector (encode_inode
           \<lparr>d_length = len', d_magic = INODE_MAGIC, d_is_allocated = 1, d_ptrs = ptrs inode,
            d_ptr_idx = ptr_idx inode, d_indir_idx = indir_idx inode,
            d_double_indir_idx = double_indir_idx inode, d_is_dir = (if dir then 1 else 0),
            d_parent = 0, d_unused = replicate 105 0\<rparr>) s5;
         Some (True, s6) } } }"

definition inode_reopen :: "nat \<Rightarrow> fs_state \<Rightarrow> fs_state" where
  "inode_reopen ip s = upd_inode ip (\<lambda>ino. ino\<lparr>open_cnt := open_cnt ino + 1\<rparr>) s"

fun find_open :: "(nat \<Rightarrow> inode option) \<Rightarrow> disk_sector_t \<Rightarrow> nat list \<Rightarrow> nat option option" where
  "find_open h sector [] = Some None"
| "find_open h sector (ip # l) = do {
     inode \<leftarrow> h ip;
     if i_sector inode = sector then Some (Some ip) else find_open h sector l }"

text \<open>\<open>lock_init\<close> writes to the new inode before the test for a null pointer.\<close>

definition inode_open :: "disk_sector_t \<Rightarrow> fs_state \<Rightarrow> (nat \<times> fs_state) option" where
  "inode_open sector s = do {
     r \<leftarrow> find_open (inodes s) sector (open_inodes s);
     case r of
       Some ip \<Rightarrow> Some (ip, inode_reopen ip s)
     | None \<Rightarrow> do {
         let (ok1, s1) = fs_malloc s;
         kassert ok1;
         let (ok2, s2) = fs_malloc s1;
         kassert ok2;
         (bytes, s3) \<leftarrow> fs_read_sector sector s2;
         let d = decode_inode bytes;
         let ip = next_inode s3;
         Some (ip, s3\<lparr>next_inode := Suc ip, open_inodes := ip # open_inodes s3,
           inodes := (inodes s3)(ip := Some
             \<lparr>i_sector = sector, open_cnt = 1, removed = False, deny_write_cnt = 0,
              i_length = d_length d, length_shown = d_length d, is_allocated = d_is_allocated d,
              ptrs = d_ptrs d, ptr_idx = d_ptr_idx d, indir_idx = d_indir_idx d,
              double_indir_idx = d_double_indir_idx d, is_dir = d_is_dir d, parent = d_parent d,
              i_lock = False\<rparr>)\<rparr>) } }"

definition inode_get_inumber :: "inode \<Rightarrow> disk_sector_t" where
  "inode_get_inumber inode = i_sector inode"

text \<open>Freeing the sectors of a removed file: the sectors of one index block, those of the
  double-indirect block, and the loop over the pointers of the inode.\<close>

primrec release_list :: "disk_sector_t list \<Rightarrow> nat \<Rightarrow> nat \<Rightarrow> fs_state \<Rightarrow> (nat \<times> fs_state) option" where
  "release_list [] depth sectors s = Some (sectors, s)"
| "release_list (p # ps) depth sectors s = do {
     s1 \<leftarrow> free_map_release depth p 1 s;
     if sectors - 1 = 0 then Some (0, s1) else release_list ps depth (sectors - 1) s1 }"

primrec release_double :: "disk_sector_t list \<Rightarrow> nat \<Rightarrow> nat \<Rightarrow> fs_state \<Rightarrow> (nat \<times> fs_state) option" where
  "release_double [] depth sectors s = Some (sectors, s)"
| "release_double (p # ps) depth sectors s = do {
     (bytes, s1) \<leftarrow> fs_read_sector p s;
     (sectors2, s2) \<leftarrow> release_list (le_words bytes) depth sectors s1;
     s3 \<leftarrow> free_map_release depth p 1 s2;
     if sectors2 = 0 then Some (0, s3) else release_double ps depth sectors2 s3 }"

primrec release_ptrs :: "nat \<Rightarrow> nat \<Rightarrow> inode \<Rightarrow> nat \<Rightarrow> nat \<Rightarrow> fs_state \<Rightarrow> fs_state option" where
  "release_ptrs 0 index inode depth sectors s = Some s"
| "release_ptrs (Suc n) index inode depth sectors s =
     (if sectors = 0 then Some s
      else if index > ptr_idx inode then Some s
      else do {
        p \<leftarrow> ptr_at (ptrs inode) index;
        (sectors', s') \<leftarrow>
          (if index < NUM_PTRS_DIR
           then do { s1 \<leftarrow> free_map_release depth p 1 s; Some (sectors - 1, s1) }
           else if index < NUM_PTRS_DIR + NUM_PTRS_INDIR
           then do {
             (bytes, s1) \<leftarrow> fs_read_sector p s;
             (sectors2, s2) \<leftarrow> release_list (le_words bytes) depth sectors s1;
             s3 \<leftarrow> free_map_release depth p 1 s2;
             Some (sectors2, s3) }
           else do {
             (bytes, s1) \<leftarrow> fs_read_sector p s;
             (sectors2, s2) \<leftarrow> release_double (le_words bytes) depth sectors s1;
             s3 \<leftarrow> free_map_release depth p 1 s2;
             Some (sectors2, s3) });
        release_ptrs n (Suc index) inode depth sectors' s' })"

definition inode_close :: "nat \<Rightarrow> nat option \<Rightarrow> fs_state \<Rightarrow> fs_state option" where
  "inode_close depth ipo s = (case ipo of
     None \<Rightarrow> Some s
   | Some ip \<Rightarrow> do {
       inode0 \<leftarrow> inodes s ip;
       let inode = inode0\<lparr>open_cnt := open_cnt inode0 - 1\<rparr>;
       let s1 = upd_inode ip (\<lambda>_. inode) s;
       if open_cnt inode = 0
       then do {
         let s2 = s1\<lparr>open_inodes := remove1 ip (open_inodes s1)\<rparr>;
         s3 \<leftarrow>
           (if removed inode
            then do {
              s3 \<leftarrow> free_map_release depth (i_sector inode) 1 s2;
              release_ptrs NUM_PTRS 0 inode depth (bytes_to_sectors (i_length inode)) s3 }
            else do {
              let (ok, s3) = fs_malloc s2;
              kassert ok;
              fs_write_sector (i_sector inode) (encode_inode
                \<lparr>d_length = i_length inode, d_magic = INODE_MAGIC,
                 d_is_allocated = is_allocated inode, d_ptrs = ptrs inode,
                 d_ptr_idx = ptr_idx inode, d_indir_idx = indir_idx inode,
                 d_double_indir_idx = double_indir_idx inode, d_is_dir = is_dir inode,
                 d_parent = parent inode, d_unused = map (uninit s3) [0..<105]\<rparr>) s3 });
         Some (s3\<lparr>inodes := (inodes s3)(ip := None)\<rparr>) }
       else Some s1 })"

definition inode_remove :: "nat \<Rightarrow> fs_state \<Rightarrow> fs_state" where
  "inode_remove ip s = upd_inode ip (\<lambda>ino. ino\<lparr>removed := True\<rparr>) s"

definition inode_is_opened :: "inode \<Rightarrow> bool" where
  "inode_is_opened inode \<longleftrightarrow> open_cnt inode > 1"

definition inode_deny_write :: "nat \<Rightarrow> fs_state \<Rightarrow> fs_state option" where
  "inode_deny_write ip s = do {
     inode \<leftarrow> inodes s ip;
     kassert (deny_write_cnt inode + 1 \<le> open_cnt inode);
     Some (upd_inode ip (\<lambda>ino. ino\<lparr>deny_write_cnt := deny_write_cnt ino + 1\<rparr>) s) }"

definition inode_allow_write :: "nat \<Rightarrow> fs_state \<Rightarrow> fs_state option" where
  "inode_allow_write ip s = do {
     inode \<leftarrow> inodes s ip;
     kassert (deny_write_cnt inode > 0);
     kassert (deny_write_cnt inode \<le> open_cnt inode);
     Some (upd_inode ip (\<lambda>ino. ino\<lparr>deny_write_cnt := deny_write_cnt ino - 1\<rparr>) s) }"

definition inode_length :: "inode \<Rightarrow> nat" where
  "inode_length inode = i_length inode"

definition inode_parent :: "inode \<Rightarrow> disk_sector_t" where
  "inode_parent inode = parent inode"

definition inode_set_parent :: "nat \<Rightarrow> disk_sector_t \<Rightarrow> fs_state \<Rightarrow> fs_state" where
  "inode_set_parent ip sector s = upd_inode ip (\<lambda>ino. ino\<lparr>parent := sector\<rparr>) s"

definition inode_set_is_dir :: "nat \<Rightarrow> bool \<Rightarrow> fs_state \<Rightarrow> fs_state" where
  "inode_set_is_dir ip dir s = upd_inode ip (\<lambda>ino. ino\<lparr>is_dir := (if dir then 1 else 0)\<rparr>) s"

section \<open>Specification\<close>

text \<open>The \<open>k\<close>-th data sector of a file, from the pointers and the index blocks on disk.\<close>

definition data_block :: "disk \<Rightarrow> disk_sector_t list \<Rightarrow> nat \<Rightarrow> disk_sector_t" where
  "data_block d ps k =
     (if k < 4 then ps ! k
      else if k < 1284 then le_words (sector_at d (ps ! (4 + (k - 4) div 128))) ! ((k - 4) mod 128)
      else le_words (sector_at d (le_words (sector_at d (ps ! 14)) ! ((k - 1284) div 128)))
             ! ((k - 1284) mod 128))"

text \<open>The index sectors on the way to the \<open>k\<close>-th data sector.\<close>

definition index_blocks :: "disk \<Rightarrow> disk_sector_t list \<Rightarrow> nat \<Rightarrow> disk_sector_t set" where
  "index_blocks d ps k =
     (if k < 4 then {}
      else if k < 1284 then {ps ! (4 + (k - 4) div 128)}
      else {ps ! 14, le_words (sector_at d (ps ! 14)) ! ((k - 1284) div 128)})"

definition MAX_BLOCKS :: nat where "MAX_BLOCKS = 17668"

definition all_data :: "disk \<Rightarrow> inode \<Rightarrow> disk_sector_t set" where
  "all_data d ino = data_block d (ptrs ino) ` {k. k * 512 < i_length ino}"

definition all_index :: "disk \<Rightarrow> inode \<Rightarrow> disk_sector_t set" where
  "all_index d ino = (\<Union>k \<in> {k. k * 512 < i_length ino}. index_blocks d (ptrs ino) k)"

text \<open>An inode is well formed in a state when its sectors lie on the disk, no data sector serves
  two positions or as an index block, and no index block is in the cache, so that what the code
  reads of it past the cache is its value.\<close>

definition inode_wf :: "fs_state \<Rightarrow> inode \<Rightarrow> bool" where
  "inode_wf s ino \<longleftrightarrow>
     length (ptrs ino) = 15 \<and> i_length ino \<le> MAX_BLOCKS * 512 \<and> length_shown ino \<le> i_length ino
     \<and> (\<forall>x \<in> all_data (fs_disk s) ino \<union> all_index (fs_disk s) ino. valid_sector (fs_disk s) x)
     \<and> inj_on (data_block (fs_disk s) (ptrs ino)) {k. k * 512 < i_length ino}
     \<and> all_data (fs_disk s) ino \<inter> all_index (fs_disk s) ino = {}
     \<and> all_index (fs_disk s) ino \<inter> cached (cache s) = {}"

text \<open>The bytes of a file.\<close>

definition file_byte :: "fs_state \<Rightarrow> inode \<Rightarrow> nat \<Rightarrow> byte" where
  "file_byte s ino i = cview (cache s) (data_block (fs_disk s) (ptrs ino) (i div 512)) ! (i mod 512)"

definition contents :: "fs_state \<Rightarrow> inode \<Rightarrow> byte list" where
  "contents s ino = map (file_byte s ino) [0..<i_length ino]"

section \<open>Lemmas on the state\<close>

lemma fs_disk_simps [simp]:
  "fs_disk (set_disk d s) = d"
  "fs_disk (upd_inode ip f s) = fs_disk s"
  "fs_disk (s\<lparr>cache := c\<rparr>) = filesys_disk c"
  "cache (upd_inode ip f s) = cache s"
  "inodes (set_disk d s) = inodes s"
  "inodes (upd_inode ip f s) = (inodes s)(ip := map_option f (inodes s ip))"
  by (simp_all add: fs_disk_def set_disk_def upd_inode_def)

definition set_inode :: "nat \<Rightarrow> inode \<Rightarrow> fs_state \<Rightarrow> fs_state" where
  "set_inode ip ino s = s\<lparr>inodes := (inodes s)(ip \<mapsto> ino)\<rparr>"

lemma set_inode_simps [simp]:
  "cache (set_inode ip ino s) = cache s"
  "fs_disk (set_inode ip ino s) = fs_disk s"
  "free_map (set_inode ip ino s) = free_map s"
  "free_map_file (set_inode ip ino s) = free_map_file s"
  "open_inodes (set_inode ip ino s) = open_inodes s"
  "inodes (set_inode ip ino s) jp = (if jp = ip then Some ino else inodes s jp)"
  "set_inode ip ino (set_inode ip ino' s) = set_inode ip ino s"
  "(set_inode ip ino s)\<lparr>cache := c\<rparr> = set_inode ip ino (s\<lparr>cache := c\<rparr>)"
  "inodes s ip = Some ino \<Longrightarrow> set_inode ip ino s = s"
  by (simp_all add: set_inode_def fs_disk_def fun_upd_idem_iff)

lemma upd_inode_eq: "inodes s ip = Some ino \<Longrightarrow> upd_inode ip f s = set_inode ip (f ino) s"
  by (simp add: upd_inode_def set_inode_def)

text \<open>Reading a sector only counts the read.\<close>

definition bump :: "nat \<Rightarrow> fs_state \<Rightarrow> fs_state" where
  "bump n s = set_disk ((fs_disk s)\<lparr>read_cnt := n\<rparr>) s"

lemma bump_simps [simp]:
  "inodes (bump n s) = inodes s"
  "open_inodes (bump n s) = open_inodes s"
  "fs_disk (bump n s) = (fs_disk s)\<lparr>read_cnt := n\<rparr>"
  "bump m (bump n s) = bump m s"
  "cached (cache (bump n s)) = cached (cache s)"
  "entry (cache (bump n s)) i = entry (cache s) i"
  by (simp_all add: bump_def set_disk_def fs_disk_def cached_def entry_def)

lemma cview_bump [simp]: "cview (cache (bump n s)) x = cview (cache s) x"
  by (simp add: cview_def bump_def set_disk_def fs_disk_def split: option.split)

lemma entry_ok_read_cnt [simp]: "entry_ok (d\<lparr>read_cnt := n\<rparr>) e = entry_ok d e"
  by (simp add: entry_ok_def)

lemma cache_inv_bump [simp]: "cache_inv (cache (bump n s)) = cache_inv (cache s)"
  by (simp add: cache_inv_def cache_core_def bump_def set_disk_def fs_disk_def)

lemma data_block_read_cnt [simp]: "data_block (d\<lparr>read_cnt := n\<rparr>) = data_block d"
  "index_blocks (d\<lparr>read_cnt := n\<rparr>) = index_blocks d"
  by (simp_all add: fun_eq_iff data_block_def index_blocks_def)

lemma all_blocks_read_cnt [simp]: "all_data (d\<lparr>read_cnt := n\<rparr>) = all_data d"
  "all_index (d\<lparr>read_cnt := n\<rparr>) = all_index d"
  by (simp_all add: fun_eq_iff all_data_def all_index_def)

lemma inode_wf_bump [simp]: "inode_wf (bump n s) ino = inode_wf s ino"
  by (simp add: inode_wf_def)

lemma contents_bump [simp]: "contents (bump n s) ino = contents s ino"
  by (simp add: contents_def file_byte_def)

lemma fs_read_sector_spec:
  "disk_wf (fs_disk s) \<Longrightarrow> valid_sector (fs_disk s) x \<Longrightarrow>
   fs_read_sector x s = Some (sector_at (fs_disk s) x, bump (Suc (read_cnt (fs_disk s))) s)"
  by (simp add: fs_read_sector_def disk_read_spec bump_def)

lemma le_words_sector:
  "disk_wf d \<Longrightarrow> valid_sector d x \<Longrightarrow> length (le_words (sector_at d x)) = 128"
  by (simp add: length_le_words sector_at_length DISK_SECTOR_SIZE_def)

section \<open>Finding a byte\<close>

lemma block_arith:
  fixes n :: nat
  shows "n mod (512 * 128) div 512 = n div 512 mod 128"
    and "(n - 512 * k) div 512 = n div 512 - k"
proof -
  have "n mod (512 * 128) = 512 * (n div 512 mod 128) + n mod 512" by (rule mod_mult2_eq)
  then show "n mod (512 * 128) div 512 = n div 512 mod 128" by simp
  show "(n - 512 * k) div 512 = n div 512 - k"
  proof (cases "512 * k \<le> n")
    case True
    then obtain m where "n = m + 512 * k" by (metis le_add_diff_inverse2)
    then show ?thesis by simp
  next
    case False
    then have "n div 512 \<le> k" by (simp add: div_le_mono less_mult_imp_div_less less_or_eq_imp_le mult.commute)
    with False show ?thesis by simp
  qed
qed

lemma byte_to_sector_spec:
  assumes wf: "inode_wf s ino" and disk: "disk_wf (fs_disk s)" and pos: "pos < i_length ino"
  shows "\<exists>n. byte_to_sector ino pos s
           = Some (data_block (fs_disk s) (ptrs ino) (pos div 512), bump n s)"
proof -
  let ?d = "fs_disk s" and ?ps = "ptrs ino" and ?k = "pos div 512"
  have len: "length ?ps = 15" and max: "pos < 17668 * 512"
    using wf pos by (auto simp: inode_wf_def MAX_BLOCKS_def)
  have k: "?k * 512 < i_length ino" using pos div_times_less_eq_dividend [of pos 512] by linarith
  have valid: "valid_sector ?d x" if "x \<in> index_blocks ?d ?ps ?k" for x
    using wf k that by (auto simp: inode_wf_def all_index_def)
  show ?thesis
  proof (cases "?k < 4")
    case True
    then have "pos < 2048" by simp
    with True pos len show ?thesis
      by (intro exI [of _ "read_cnt ?d"])
        (simp add: byte_to_sector_def inode_consts data_block_def ptr_at_def bump_def set_disk_def fs_disk_def)
  next
    case False
    then have p: "\<not> pos < 2048" by simp
    define np where "np = pos - 2048"
    have np: "np div 512 = ?k - 4" using block_arith(2) [of pos 4] by (simp add: np_def)
    show ?thesis
    proof (cases "?k < 1284")
      case True
      then have "np < 655360" using False np by simp
      let ?x = "?ps ! (4 + (?k - 4) div 128)"
      have x: "valid_sector ?d ?x" using valid True False by (simp add: index_blocks_def)
      have "4 + (?k - 4) div 128 < 15" using True by simp
      then show ?thesis
        using pos p \<open>np < 655360\<close> True False len x disk np block_arith(1) [of np] le_words_sector [OF disk x]
        by (simp add: byte_to_sector_def inode_consts data_block_def ptr_at_def fs_read_sector_spec
            flip: np_def) blast
    next
      case big: False
      then have "\<not> np < 655360" using np by auto
      define np1 where "np1 = np - 655360"
      have np1: "np1 div 512 = ?k - 1284" using block_arith(2) [of np 1280] np by (simp add: np1_def)
      have "np1 < 8388608" using max by (simp add: np1_def np_def)
      let ?x = "?ps ! 14"
      let ?y = "le_words (sector_at ?d ?x) ! ((?k - 1284) div 128)"
      have xy: "valid_sector ?d ?x" "valid_sector ?d ?y"
        using valid big False by (simp_all add: index_blocks_def)
      have "(?k - 1284) div 128 < 128" using max by (simp add: less_mult_imp_div_less)
      then show ?thesis
        using pos p \<open>\<not> np < 655360\<close> \<open>np1 < 8388608\<close> big False len xy disk np1 block_arith(1) [of np1]
          le_words_sector [OF disk xy(1)] le_words_sector [OF disk xy(2)]
        by (simp add: byte_to_sector_def inode_consts data_block_def ptr_at_def fs_read_sector_spec
            Let_def flip: np_def np1_def) blast
    qed
  qed
qed

section \<open>Index blocks stay in place\<close>

lemma data_block_cong:
  assumes "\<forall>y \<in> index_blocks d ps k. sector_at d' y = sector_at d y"
  shows "data_block d' ps k = data_block d ps k" and "index_blocks d' ps k = index_blocks d ps k"
  using assms by (auto simp: data_block_def index_blocks_def)

text \<open>A step that changes only values of sectors in \<open>X\<close>, and brings only such sectors into the
  cache, leaves every inode alone whose index blocks are not in \<open>X\<close>.\<close>

definition fs_step :: "disk_sector_t set \<Rightarrow> fs_state \<Rightarrow> fs_state \<Rightarrow> bool" where
  "fs_step X s s' \<longleftrightarrow> (\<forall>y. y \<notin> X \<longrightarrow> cview (cache s') y = cview (cache s) y)
     \<and> cached (cache s') \<subseteq> X \<union> cached (cache s)
     \<and> capacity (fs_disk s') = capacity (fs_disk s)"

lemma fs_step_refl [simp]: "fs_step X s s"
  by (simp add: fs_step_def)

lemma fs_step_trans: "fs_step X s s' \<Longrightarrow> fs_step X s' s'' \<Longrightarrow> fs_step X s s''"
  by (auto simp: fs_step_def)

lemma fs_step_mono: "fs_step X s s' \<Longrightarrow> X \<subseteq> Y \<Longrightarrow> fs_step Y s s'"
  by (auto simp: fs_step_def)

lemma fs_step_bump [simp]: "fs_step X (bump n s) s' = fs_step X s s'" "fs_step X s (bump n s') = fs_step X s s'"
  by (simp_all add: fs_step_def)

lemma fs_step_index:
  assumes step: "fs_step X s s'" and idx: "I \<inter> X = {}" "I \<inter> cached (cache s) = {}" and y: "y \<in> I"
  shows "sector_at (fs_disk s') y = sector_at (fs_disk s) y"
proof -
  have "y \<notin> cached (cache s')" "y \<notin> cached (cache s)" "y \<notin> X"
    using step idx y by (auto simp: fs_step_def)
  then show ?thesis using step cview_uncached [of y] by (metis fs_disk_def fs_step_def)
qed

lemma fs_step_blocks:
  assumes step: "fs_step X s s'" and wf: "inode_wf s ino" and idx: "all_index (fs_disk s) ino \<inter> X = {}"
  shows "k * 512 < i_length ino \<Longrightarrow> data_block (fs_disk s') (ptrs ino) k = data_block (fs_disk s) (ptrs ino) k"
    and "all_data (fs_disk s') ino = all_data (fs_disk s) ino"
    and "all_index (fs_disk s') ino = all_index (fs_disk s) ino"
    and "inode_wf s' ino"
proof -
  let ?d = "fs_disk s" and ?d' = "fs_disk s'" and ?K = "{k. k * 512 < i_length ino}"
  have "all_index ?d ino \<inter> cached (cache s) = {}" using wf by (simp add: inode_wf_def)
  then have "sector_at ?d' y = sector_at ?d y" if "y \<in> all_index ?d ino" for y
    using fs_step_index [OF step idx] that by blast
  then have same: "data_block ?d' (ptrs ino) k = data_block ?d (ptrs ino) k"
    "index_blocks ?d' (ptrs ino) k = index_blocks ?d (ptrs ino) k" if "k \<in> ?K" for k
    using data_block_cong [of ?d "ptrs ino" k ?d'] that by (auto simp: all_index_def)
  then show "k * 512 < i_length ino \<Longrightarrow> data_block ?d' (ptrs ino) k = data_block ?d (ptrs ino) k" by blast
  show data: "all_data ?d' ino = all_data ?d ino" using same(1) by (auto simp: all_data_def)
  show index: "all_index ?d' ino = all_index ?d ino" using same(2) by (auto simp: all_index_def)
  have "inj_on (data_block ?d' (ptrs ino)) ?K = inj_on (data_block ?d (ptrs ino)) ?K"
    using same(1) by (intro inj_on_cong) auto
  moreover have "valid_sector ?d' x = valid_sector ?d x" for x
    using step by (simp add: fs_step_def valid_sector_def)
  ultimately show "inode_wf s' ino"
    using wf data index step idx by (auto simp: inode_wf_def fs_step_def)
qed

lemma fs_step_contents:
  assumes step: "fs_step X s s'" and wf: "inode_wf s ino"
    and "all_index (fs_disk s) ino \<inter> X = {}" and "all_data (fs_disk s) ino \<inter> X = {}"
  shows "contents s' ino = contents s ino"
proof -
  have "file_byte s' ino i = file_byte s ino i" if "i < i_length ino" for i
  proof -
    have k: "i div 512 * 512 < i_length ino"
      using that div_times_less_eq_dividend [of i 512] by linarith
    then have "data_block (fs_disk s) (ptrs ino) (i div 512) \<notin> X" using assms(4) by (auto simp: all_data_def)
    then show ?thesis using fs_step_blocks(1) [OF step wf assms(3) k] step
      by (simp add: file_byte_def fs_step_def)
  qed
  then show ?thesis by (simp add: contents_def)
qed

section \<open>Reading\<close>

lemma chunk_of_eq:
  "chunk_of len sz offset = min sz (min (len - offset) (512 - offset mod 512))"
  by (auto simp: chunk_of_def DISK_SECTOR_SIZE_def min_def Let_def)

lemma same_block:
  fixes i :: nat
  assumes "i < 512 - offset mod 512"
  shows "(offset + i) div 512 = offset div 512" and "(offset + i) mod 512 = offset mod 512 + i"
proof -
  define t where "t = offset mod 512 + i"
  have t: "t < 512" using assms by (simp add: t_def)
  have "offset + i = t + offset div 512 * 512" by (simp add: t_def)
  then have "(offset + i) div 512 = offset div 512 \<and> (offset + i) mod 512 = t"
    using t by (simp only: div_mult_self1 mod_mult_self1 div_less mod_less) simp
  then show "(offset + i) div 512 = offset div 512" "(offset + i) mod 512 = offset mod 512 + i"
    by (simp_all add: t_def)
qed

lemma length_contents [simp]: "length (contents s ino) = i_length ino"
  by (simp add: contents_def)

lemma contents_chunk:
  assumes "c \<le> 512 - offset mod 512" and "offset + c \<le> i_length ino"
    and "length (cview (cache s) (data_block (fs_disk s) (ptrs ino) (offset div 512))) = 512"
  shows "take c (drop (offset mod 512) (cview (cache s) (data_block (fs_disk s) (ptrs ino) (offset div 512))))
       = take c (drop offset (contents s ino))"
proof (rule nth_equalityI)
  fix i
  assume "i < length (take c (drop (offset mod 512)
      (cview (cache s) (data_block (fs_disk s) (ptrs ino) (offset div 512)))))"
  then have i: "i < c" by simp
  then have "i < 512 - offset mod 512" using assms(1) by linarith
  with i same_block [OF this] assms show "take c (drop (offset mod 512)
      (cview (cache s) (data_block (fs_disk s) (ptrs ino) (offset div 512)))) ! i
      = take c (drop offset (contents s ino)) ! i"
    by (simp add: contents_def file_byte_def)
qed (use assms in \<open>auto simp: min_def\<close>)

lemma bump_cache: "s\<lparr>cache := cache (bump n s)\<rparr> = bump n s" "(bump n s)\<lparr>cache := c\<rparr> = s\<lparr>cache := c\<rparr>"
  by (simp_all add: bump_def set_disk_def)

lemma inode_block_valid:
  assumes "inode_wf s ino" and "pos < i_length ino"
  shows "data_block (fs_disk s) (ptrs ino) (pos div 512) \<in> all_data (fs_disk s) ino"
    and "valid_sector (fs_disk s) (data_block (fs_disk s) (ptrs ino) (pos div 512))"
proof -
  have "pos div 512 * 512 < i_length ino"
    using assms(2) div_times_less_eq_dividend [of pos 512] by linarith
  then show "data_block (fs_disk s) (ptrs ino) (pos div 512) \<in> all_data (fs_disk s) ino"
    by (auto simp: all_data_def)
  with assms(1) show "valid_sector (fs_disk s) (data_block (fs_disk s) (ptrs ino) (pos div 512))"
    by (auto simp: inode_wf_def)
qed

lemma cache_inv_disk: "cache_inv (cache s) \<Longrightarrow> disk_wf (fs_disk s)"
  by (simp add: cache_inv_def cache_core_def fs_disk_def)

lemma inode_wf_disjoint: "inode_wf s ino \<Longrightarrow> all_index (fs_disk s) ino \<inter> all_data (fs_disk s) ino = {}"
  by (auto simp: inode_wf_def)

lemma contents_cview:
  assumes "inode_wf s ino" and "fs_step (all_data (fs_disk s) ino) s s'"
    and "\<And>y. cview (cache s') y = cview (cache s) y"
  shows "contents s' ino = contents s ino"
proof -
  have "file_byte s' ino i = file_byte s ino i" if "i < i_length ino" for i
  proof -
    have "i div 512 * 512 < i_length ino"
      using that div_times_less_eq_dividend [of i 512] by linarith
    with fs_step_blocks(1) [OF assms(2,1) inode_wf_disjoint [OF assms(1)]] assms(3) show ?thesis
      by (simp add: file_byte_def)
  qed
  then show ?thesis by (simp add: contents_def)
qed

text \<open>One round of the reading loop that transfers \<open>c\<close> bytes.\<close>

lemma read_chunk:
  assumes wf: "inode_wf s ino" and inv: "cache_inv (cache s)" and buf: "n + c \<le> length buf"
    and c: "c \<le> 512 - offset mod 512" "offset + c \<le> i_length ino" "0 < c"
  obtains k c1 where
    "byte_to_sector ino offset s
       = Some (data_block (fs_disk s) (ptrs ino) (offset div 512), bump k s)"
    "cache_read (data_block (fs_disk s) (ptrs ino) (offset div 512)) buf n (offset mod 512) c (cache (bump k s))
       = Some (overwrite n (take c (drop offset (contents s ino))) buf, c1)"
    "cache_inv c1" "fs_step (all_data (fs_disk s) ino) s (s\<lparr>cache := c1\<rparr>)"
    "\<forall>y. cview c1 y = cview (cache s) y" "contents (s\<lparr>cache := c1\<rparr>) ino = contents s ino"
    "inode_wf (s\<lparr>cache := c1\<rparr>) ino"
    "all_data (filesys_disk c1) ino = all_data (fs_disk s) ino"
proof -
  let ?x = "data_block (fs_disk s) (ptrs ino) (offset div 512)" and ?D = "all_data (fs_disk s) ino"
  have pos: "offset < i_length ino" using c by simp
  obtain k where b: "byte_to_sector ino offset s = Some (?x, bump k s)"
    using byte_to_sector_spec [OF wf cache_inv_disk [OF inv] pos] by blast
  note x = inode_block_valid [OF wf pos]
  have "cache_inv (cache (bump k s))" "valid_sector (filesys_disk (cache (bump k s))) ?x"
    "offset mod 512 + c \<le> DISK_SECTOR_SIZE"
    using inv x(2) c(1,3) by (simp_all add: fs_disk_def [symmetric] DISK_SECTOR_SIZE_def)
  from cache_read_spec [OF this buf] obtain c1 where
    c1: "cache_read ?x buf n (offset mod 512) c (cache (bump k s))
      = Some (overwrite n (take c (drop (offset mod 512) (cview (cache s) ?x))) buf, c1)"
    "cache_inv c1" "\<forall>y. cview c1 y = cview (cache s) y"
    "capacity (filesys_disk c1) = capacity (fs_disk s)" "cached c1 \<subseteq> insert ?x (cached (cache s))"
    by (auto simp flip: fs_disk_def)
  have step: "fs_step ?D s (s\<lparr>cache := c1\<rparr>)" using c1 x(1) by (auto simp: fs_step_def)
  note blk = fs_step_blocks [OF step wf inode_wf_disjoint [OF wf]]
  have "length (cview (cache s) ?x) = 512"
    using cview_length [of "cache s" ?x] inv x(2)
    by (simp add: cache_inv_def fs_disk_def DISK_SECTOR_SIZE_def)
  from contents_chunk [OF c(1,2) this] c1(1)
  have "cache_read ?x buf n (offset mod 512) c (cache (bump k s))
      = Some (overwrite n (take c (drop offset (contents s ino))) buf, c1)" by simp
  moreover have "contents (s\<lparr>cache := c1\<rparr>) ino = contents s ino"
    using contents_cview [OF wf step] c1(3) by simp
  ultimately show ?thesis using that [OF b] c1(2,3) step blk(2,4) by simp
qed

lemma read_loop_spec:
  assumes "inodes s ip = Some ino" and "inode_wf s ino" and "cache_inv (cache s)" and "n + sz \<le> length buf"
  shows "\<exists>c. read_loop ip buf sz offset n s
      = Some (n + min sz (length_shown ino - offset),
              overwrite n (take (min sz (length_shown ino - offset)) (drop offset (contents s ino))) buf,
              s\<lparr>cache := c\<rparr>)
    \<and> cache_inv c \<and> fs_step (all_data (fs_disk s) ino) s (s\<lparr>cache := c\<rparr>)
    \<and> (\<forall>y. cview c y = cview (cache s) y)"
  using assms
proof (induction sz arbitrary: s buf offset n rule: less_induct)
  case (less sz)
  let ?m = "length_shown ino - offset" and ?c = "chunk_of (length_shown ino) sz offset"
  have shown: "length_shown ino \<le> i_length ino" using less.prems(2) by (simp add: inode_wf_def)
  consider "sz = 0" | "sz \<noteq> 0" "\<not> offset < i_length ino" | "sz \<noteq> 0" "offset < i_length ino" "?c = 0"
    | "sz \<noteq> 0" "?c \<noteq> 0" by blast
  then show ?case
  proof cases
    case 1
    with less.prems(3) show ?thesis by (intro exI [of _ "cache s"]) (simp add: read_loop.simps)
  next
    case 2
    with shown less.prems show ?thesis
      by (intro exI [of _ "cache s"])
        (simp add: read_loop.simps [of ip buf sz] byte_to_sector_def chunk_of_eq)
  next
    case 3
    then have "?m = 0" by (auto simp: chunk_of_eq min_def split: if_splits)
    moreover obtain k where "byte_to_sector ino offset s
        = Some (data_block (fs_disk s) (ptrs ino) (offset div 512), bump k s)"
      using byte_to_sector_spec [OF less.prems(2) cache_inv_disk [OF less.prems(3)] 3(2)] by blast
    ultimately show ?thesis using 3 less.prems
      by (intro exI [of _ "cache (bump k s)"]) (simp add: read_loop.simps [of ip buf sz] bump_cache)
  next
    case 4
    have cle: "?c \<le> sz" "?c \<le> ?m" "?c \<le> 512 - offset mod 512" "0 < ?c"
      using 4 by (auto simp: chunk_of_eq)
    have "n + ?c \<le> length buf" "offset + ?c \<le> i_length ino" using cle less.prems(4) shown by auto
    then obtain k c1 where c1: "byte_to_sector ino offset s
        = Some (data_block (fs_disk s) (ptrs ino) (offset div 512), bump k s)"
      "cache_read (data_block (fs_disk s) (ptrs ino) (offset div 512)) buf n (offset mod 512) ?c (cache (bump k s))
         = Some (overwrite n (take ?c (drop offset (contents s ino))) buf, c1)"
      "cache_inv c1" "fs_step (all_data (fs_disk s) ino) s (s\<lparr>cache := c1\<rparr>)"
      "\<forall>y. cview c1 y = cview (cache s) y" "contents (s\<lparr>cache := c1\<rparr>) ino = contents s ino"
      "inode_wf (s\<lparr>cache := c1\<rparr>) ino" "all_data (filesys_disk c1) ino = all_data (fs_disk s) ino"
      using read_chunk [OF less.prems(2,3), of n ?c buf offset] cle by blast
    let ?s1 = "s\<lparr>cache := c1\<rparr>" and ?p = "take ?c (drop offset (contents s ino))"
    have p: "length ?p = ?c" using cle shown by simp
    have split: "?c + min (sz - ?c) (length_shown ino - (offset + ?c)) = min sz ?m" using cle by auto
    from less.IH [of "sz - ?c" ?s1 "n + ?c" "overwrite n ?p buf" "offset + ?c"] 4 cle less.prems c1 p
    obtain c2 where c2: "read_loop ip (overwrite n ?p buf) (sz - ?c) (offset + ?c) (n + ?c) ?s1
        = Some (n + ?c + min (sz - ?c) (length_shown ino - (offset + ?c)),
            overwrite (n + ?c) (take (min (sz - ?c) (length_shown ino - (offset + ?c)))
              (drop (offset + ?c) (contents s ino))) (overwrite n ?p buf), s\<lparr>cache := c2\<rparr>)"
      "cache_inv c2" "fs_step (all_data (fs_disk s) ino) ?s1 (s\<lparr>cache := c2\<rparr>)"
      "\<forall>y. cview c2 y = cview c1 y" by auto
    have "read_loop ip buf sz offset n s
        = read_loop ip (overwrite n ?p buf) (sz - ?c) (offset + ?c) (n + ?c) ?s1"
      using 4 c1(1,2) less.prems(1) bump_cache(2)
      by (subst read_loop.simps) (simp add: DISK_SECTOR_SIZE_def Let_def)
    moreover have "overwrite (n + ?c) (take (min (sz - ?c) (length_shown ino - (offset + ?c)))
        (drop (offset + ?c) (contents s ino))) (overwrite n ?p buf)
      = overwrite n (take (min sz ?m) (drop offset (contents s ino))) buf"
      using overwrite_append [of n ?p buf] p less.prems(4) cle(1)
        take_take_drop [of ?c offset "contents s ino"] split by simp
    moreover have "n + ?c + min (sz - ?c) (length_shown ino - (offset + ?c)) = n + min sz ?m"
      using split by simp
    ultimately show ?thesis using c2 c1(5) fs_step_trans [OF c1(4)] by auto
  qed
qed

section \<open>Writing\<close>

lemma set_inode_views [simp]:
  "contents (set_inode ip i s) ino = contents s ino"
  "inode_wf (set_inode ip i s) ino = inode_wf s ino"
  "fs_step X s (set_inode ip i s') = fs_step X s s'"
  "fs_step X (set_inode ip i s) s' = fs_step X s s'"
  by (simp_all add: contents_def file_byte_def inode_wf_def fs_step_def)

lemma length_shown_update [simp]:
  "contents s (ino\<lparr>length_shown := l\<rparr>) = contents s ino"
  "all_data d (ino\<lparr>length_shown := l\<rparr>) = all_data d ino"
  "all_index d (ino\<lparr>length_shown := l\<rparr>) = all_index d ino"
  "l \<le> i_length ino \<Longrightarrow> inode_wf s ino \<Longrightarrow> inode_wf s (ino\<lparr>length_shown := l\<rparr>)"
  by (simp_all add: contents_def file_byte_def all_data_def all_index_def inode_wf_def)

lemma write_contents:
  assumes wf: "inode_wf s ino" and step: "fs_step (all_data (fs_disk s) ino) s s'"
    and c: "length ys \<le> 512 - offset mod 512" "offset + length ys \<le> i_length ino"
    and len: "length (cview (cache s) x) = 512" and x: "x = data_block (fs_disk s) (ptrs ino) (offset div 512)"
    and view: "\<And>y. cview (cache s') y = (if y = x then overwrite (offset mod 512) ys (cview (cache s) x)
                                         else cview (cache s) y)"
    and pos: "offset < i_length ino"
  shows "contents s' ino = overwrite offset ys (contents s ino)"
proof (rule nth_equalityI)
  show "length (contents s' ino) = length (overwrite offset ys (contents s ino))" using c(2) by simp
next
  fix i
  assume "i < length (contents s' ino)"
  then have i: "i < i_length ino" by simp
  have K: "j div 512 * 512 < i_length ino" if "j < i_length ino" for j
    using that div_times_less_eq_dividend [of j 512] by linarith
  have b: "data_block (fs_disk s') (ptrs ino) (i div 512) = data_block (fs_disk s) (ptrs ino) (i div 512)"
    using fs_step_blocks(1) [OF step wf inode_wf_disjoint [OF wf] K [OF i]] .
  show "contents s' ino ! i = overwrite offset ys (contents s ino) ! i"
  proof (cases "i div 512 = offset div 512")
    case True
    then have "offset \<le> i \<and> i < offset + length ys
        \<longleftrightarrow> offset mod 512 \<le> i mod 512 \<and> i mod 512 < offset mod 512 + length ys"
      and "i - offset = i mod 512 - offset mod 512"
      using div_mult_mod_eq [of i 512] div_mult_mod_eq [of offset 512] by linarith+
    moreover have "offset mod 512 + length ys \<le> 512" using c(1) by simp
    ultimately show ?thesis using True i b x view c(2) len
      by (auto simp: contents_def file_byte_def nth_overwrite)
  next
    case False
    then have "data_block (fs_disk s) (ptrs ino) (i div 512) \<noteq> x"
      using wf x K [OF i] K [OF pos] by (auto simp: inode_wf_def dest: inj_onD)
    moreover have "\<not> (offset \<le> i \<and> i < offset + length ys)"
    proof
      assume "offset \<le> i \<and> i < offset + length ys"
      then have "i - offset < 512 - offset mod 512" using c(1) by linarith
      from same_block(1) [OF this] False \<open>offset \<le> i \<and> i < offset + length ys\<close> show False by simp
    qed
    ultimately show ?thesis using i b view c(2) by (auto simp: contents_def file_byte_def nth_overwrite)
  qed
qed

lemma write_chunk:
  assumes wf: "inode_wf s ino" and inv: "cache_inv (cache s)" and buf: "n + c \<le> length buf"
    and c: "c \<le> 512 - offset mod 512" "offset + c \<le> i_length ino" "0 < c"
  obtains k c1 where
    "byte_to_sector ino offset s
       = Some (data_block (fs_disk s) (ptrs ino) (offset div 512), bump k s)"
    "cache_write (data_block (fs_disk s) (ptrs ino) (offset div 512)) buf n (offset mod 512) c (cache (bump k s))
       = Some c1"
    "cache_inv c1" "fs_step (all_data (fs_disk s) ino) s (s\<lparr>cache := c1\<rparr>)"
    "contents (s\<lparr>cache := c1\<rparr>) ino = overwrite offset (take c (drop n buf)) (contents s ino)"
    "inode_wf (s\<lparr>cache := c1\<rparr>) ino"
    "all_data (filesys_disk c1) ino = all_data (fs_disk s) ino"
proof -
  let ?x = "data_block (fs_disk s) (ptrs ino) (offset div 512)" and ?D = "all_data (fs_disk s) ino"
  have pos: "offset < i_length ino" using c by simp
  obtain k where b: "byte_to_sector ino offset s = Some (?x, bump k s)"
    using byte_to_sector_spec [OF wf cache_inv_disk [OF inv] pos] by blast
  note x = inode_block_valid [OF wf pos]
  have "cache_inv (cache (bump k s))" "valid_sector (filesys_disk (cache (bump k s))) ?x"
    "offset mod 512 + c \<le> DISK_SECTOR_SIZE"
    using inv x(2) c(1,3) by (simp_all add: fs_disk_def [symmetric] DISK_SECTOR_SIZE_def)
  from cache_write_spec [OF this buf] obtain c1 where
    c1: "cache_write ?x buf n (offset mod 512) c (cache (bump k s)) = Some c1" "cache_inv c1"
    "\<forall>y. cview c1 y = (if y = ?x then overwrite (offset mod 512) (take c (drop n buf)) (cview (cache s) ?x)
                        else cview (cache s) y)"
    "capacity (filesys_disk c1) = capacity (fs_disk s)" "cached c1 \<subseteq> insert ?x (cached (cache s))"
    by (auto simp flip: fs_disk_def)
  have step: "fs_step ?D s (s\<lparr>cache := c1\<rparr>)" using c1 x(1) by (auto simp: fs_step_def)
  note blk = fs_step_blocks [OF step wf inode_wf_disjoint [OF wf]]
  have "length (cview (cache s) ?x) = 512"
    using cview_length [of "cache s" ?x] inv x(2)
    by (simp add: cache_inv_def fs_disk_def DISK_SECTOR_SIZE_def)
  then have "contents (s\<lparr>cache := c1\<rparr>) ino = overwrite offset (take c (drop n buf)) (contents s ino)"
    using c1(3) buf c pos by (intro write_contents [OF wf step _ _ _ refl]) auto
  with that [OF b c1(1,2) step] blk(2,4) show ?thesis by simp
qed

lemma write_loop_spec:
  assumes "inodes s ip = Some ino" and "inode_wf s ino" and "cache_inv (cache s)"
    and "n + sz \<le> length buf" and "offset + sz \<le> i_length ino"
  shows "\<exists>c. write_loop ip buf sz offset n s = Some (n + sz,
        set_inode ip (ino\<lparr>length_shown := min (i_length ino) (length_shown ino + sz)\<rparr>) (s\<lparr>cache := c\<rparr>))
    \<and> cache_inv c \<and> fs_step (all_data (fs_disk s) ino) s (s\<lparr>cache := c\<rparr>)
    \<and> contents (s\<lparr>cache := c\<rparr>) ino = overwrite offset (take sz (drop n buf)) (contents s ino)"
  using assms
proof (induction sz arbitrary: s ino offset n rule: less_induct)
  case (less sz)
  let ?c = "chunk_of (i_length ino) sz offset"
  show ?case
  proof (cases "sz = 0")
    case True
    have "length_shown ino \<le> i_length ino" using less.prems(2) by (simp add: inode_wf_def)
    with True less.prems show ?thesis
      by (intro exI [of _ "cache s"]) (simp add: write_loop.simps)
  next
    case False
    then have cle: "?c \<le> sz" "?c \<le> 512 - offset mod 512" "0 < ?c"
      using less.prems(5) by (auto simp: chunk_of_eq)
    then have "n + ?c \<le> length buf" "offset + ?c \<le> i_length ino" using less.prems(4,5) by auto
    then obtain k c1 where c1: "byte_to_sector ino offset s
        = Some (data_block (fs_disk s) (ptrs ino) (offset div 512), bump k s)"
      "cache_write (data_block (fs_disk s) (ptrs ino) (offset div 512)) buf n (offset mod 512) ?c (cache (bump k s))
         = Some c1"
      "cache_inv c1" "fs_step (all_data (fs_disk s) ino) s (s\<lparr>cache := c1\<rparr>)"
      "contents (s\<lparr>cache := c1\<rparr>) ino = overwrite offset (take ?c (drop n buf)) (contents s ino)"
      "inode_wf (s\<lparr>cache := c1\<rparr>) ino" "all_data (filesys_disk c1) ino = all_data (fs_disk s) ino"
      using write_chunk [OF less.prems(2,3), of n ?c buf offset] cle by blast
    let ?ino = "ino\<lparr>length_shown := min (i_length ino) (length_shown ino + ?c)\<rparr>"
    let ?s1 = "set_inode ip ?ino (s\<lparr>cache := c1\<rparr>)"
    have "write_loop ip buf sz offset n s = write_loop ip buf (sz - ?c) (offset + ?c) (n + ?c) ?s1"
      using False cle c1(1,2) less.prems(1)
      by (subst write_loop.simps) (simp add: DISK_SECTOR_SIZE_def Let_def bump_cache upd_inode_eq min_def)
    moreover have "\<exists>c2. write_loop ip buf (sz - ?c) (offset + ?c) (n + ?c) ?s1
        = Some (n + ?c + (sz - ?c), set_inode ip (?ino\<lparr>length_shown :=
            min (i_length ?ino) (length_shown ?ino + (sz - ?c))\<rparr>) (?s1\<lparr>cache := c2\<rparr>))
        \<and> cache_inv c2 \<and> fs_step (all_data (fs_disk ?s1) ?ino) ?s1 (?s1\<lparr>cache := c2\<rparr>)
        \<and> contents (?s1\<lparr>cache := c2\<rparr>) ?ino
           = overwrite (offset + ?c) (take (sz - ?c) (drop (n + ?c) buf)) (contents ?s1 ?ino)"
      using False cle less.prems(4,5) c1(3,6) by (intro less.IH) auto
    then obtain c2 where "write_loop ip buf (sz - ?c) (offset + ?c) (n + ?c) ?s1
        = Some (n + ?c + (sz - ?c), set_inode ip (ino\<lparr>length_shown :=
            min (i_length ino) (min (i_length ino) (length_shown ino + ?c) + (sz - ?c))\<rparr>) (s\<lparr>cache := c2\<rparr>))"
      "cache_inv c2" "fs_step (all_data (fs_disk s) ino) (s\<lparr>cache := c1\<rparr>) (s\<lparr>cache := c2\<rparr>)"
      "contents (s\<lparr>cache := c2\<rparr>) ino
         = overwrite (offset + ?c) (take (sz - ?c) (drop (n + ?c) buf)) (contents (s\<lparr>cache := c1\<rparr>) ino)"
      using c1(7) by auto
    moreover have "overwrite (offset + ?c) (take (sz - ?c) (drop (n + ?c) buf))
        (overwrite offset (take ?c (drop n buf)) (contents s ino))
      = overwrite offset (take sz (drop n buf)) (contents s ino)"
      using overwrite_append [of offset "take ?c (drop n buf)" "contents s ino"] cle(1) less.prems(4,5)
        take_take_drop [of ?c n buf "sz - ?c"] by simp
    moreover have "min (i_length ino) (min (i_length ino) (length_shown ino + ?c) + (sz - ?c))
        = min (i_length ino) (length_shown ino + sz)" using cle(1) by auto
    ultimately show ?thesis using cle(1) c1(5) fs_step_trans [OF c1(4)] by (intro exI [of _ c2]) simp
  qed
qed

section \<open>The whole operations\<close>

lemma inode_read_at_spec:
  assumes "inodes s ip = Some ino" and "inode_wf s ino" and "cache_inv (cache s)" and "sz \<le> length buf"
  shows "\<exists>c. inode_read_at ip buf sz offset s
      = Some (min sz (length_shown ino - offset),
              overwrite 0 (take (min sz (length_shown ino - offset)) (drop offset (contents s ino))) buf,
              s\<lparr>cache := c\<rparr>)
    \<and> cache_inv c \<and> fs_step (all_data (fs_disk s) ino) s (s\<lparr>cache := c\<rparr>)
    \<and> (\<forall>y. cview c y = cview (cache s) y)"
proof (cases "length_shown ino \<le> offset")
  case True
  with assms show ?thesis by (intro exI [of _ "cache s"]) (simp add: inode_read_at_def)
next
  case False
  with assms read_loop_spec [OF assms(1-3), of 0 sz buf offset] show ?thesis
    by (simp add: inode_read_at_def)
qed

text \<open>A write that stays inside the file, on a file open for writing.\<close>

definition writable :: "inode \<Rightarrow> bool" where
  "writable ino \<longleftrightarrow> deny_write_cnt ino = 0 \<and> is_dir ino \<in> {0, 1} \<and> (is_dir ino = 0 \<longrightarrow> \<not> i_lock ino)"

lemma lock_unlock:
  assumes "inodes s ip = Some ino" and "writable ino"
  shows "inode_is_dir ino = Some (is_dir ino = 1)"
    and "is_dir ino = 0 \<Longrightarrow> inode_lock_acquire ip s = Some (set_inode ip (ino\<lparr>i_lock := True\<rparr>) s)"
    and "inode_lock_release ip (set_inode ip (ino'\<lparr>i_lock := True\<rparr>) s) = Some (set_inode ip (ino'\<lparr>i_lock := False\<rparr>) s)"
  using assms
  by (auto simp: writable_def inode_is_dir_def inode_lock_acquire_def inode_lock_release_def upd_inode_eq)

lemma inode_write_body_inside:
  assumes "inodes s ip = Some ino" and "writable ino" and "sz + offset \<le> i_length ino"
  shows "inode_write_body grow ip buf sz offset s = write_loop ip buf sz offset 0 s"
proof -
  have dir: "inode_is_dir ino = Some (is_dir ino = 1)" "deny_write_cnt ino = 0"
    using lock_unlock(1) [OF assms(1,2)] assms(2) by (simp_all add: writable_def)
  show ?thesis
  proof (cases "is_dir ino = 1")
    case True
    with assms(1,3) dir show ?thesis by (simp add: inode_write_body_def)
  next
    case False
    then have "is_dir ino = 0" using assms(2) by (simp add: writable_def)
    then have acq: "inode_lock_acquire ip s = Some (set_inode ip (ino\<lparr>i_lock := True\<rparr>) s)"
      by (rule lock_unlock(2) [OF assms(1,2)])
    have rel: "inode_lock_release ip (set_inode ip (ino\<lparr>i_lock := True\<rparr>) s) = Some s"
      using lock_unlock(3) [OF assms(1,2), of ino] assms(1,2) \<open>is_dir ino = 0\<close> by (simp add: writable_def)
    have "inode_is_dir (ino\<lparr>i_lock := True\<rparr>) = Some False" using False \<open>is_dir ino = 0\<close> by (simp add: inode_is_dir_def)
    with acq rel assms(1,3) dir False show ?thesis by (simp add: inode_write_body_def)
  qed
qed

lemma inode_write_at_inside:
  assumes "inodes s ip = Some ino" and "inode_wf s ino" and "cache_inv (cache s)" and "writable ino"
    and "sz \<le> length buf" and "offset + sz \<le> i_length ino"
  shows "\<exists>c. inode_write_at (Suc depth) ip buf sz offset s = Some (sz,
        set_inode ip (ino\<lparr>length_shown := min (i_length ino) (length_shown ino + sz)\<rparr>) (s\<lparr>cache := c\<rparr>))
    \<and> cache_inv c \<and> fs_step (all_data (fs_disk s) ino) s (s\<lparr>cache := c\<rparr>)
    \<and> contents (s\<lparr>cache := c\<rparr>) ino = overwrite offset (take sz buf) (contents s ino)"
  using write_loop_spec [OF assms(1-3), of 0 sz buf offset] assms
  by (simp add: inode_write_body_inside add.commute)

section \<open>The on-disk format\<close>

definition inode_disk_ok :: "inode_disk \<Rightarrow> bool" where
  "inode_disk_ok d \<longleftrightarrow> length (d_ptrs d) = 15 \<and> length (d_unused d) = 105
     \<and> d_length d < 2 ^ 32 \<and> d_is_allocated d < 2 ^ 32 \<and> d_ptr_idx d < 2 ^ 32
     \<and> d_indir_idx d < 2 ^ 32 \<and> d_double_indir_idx d < 2 ^ 32 \<and> d_is_dir d < 2 ^ 32"

lemma length_encode_inode: "inode_disk_ok d \<Longrightarrow> length (encode_inode d) = DISK_SECTOR_SIZE"
  by (simp add: encode_inode_def inode_disk_ok_def DISK_SECTOR_SIZE_def)

lemma decode_encode_inode: "inode_disk_ok d \<Longrightarrow> decode_inode (encode_inode d) = d"
proof -
  assume ok: "inode_disk_ok d"
  have w: "unat (word_of_nat n :: u32) = n" if "n < 2 ^ 32" for n
    using that by (simp add: unsigned_of_nat take_bit_nat_eq_self)
  let ?pre = "[word_of_nat (d_length d), d_magic d, word_of_nat (d_is_allocated d)]"
  let ?mid = "[word_of_nat (d_ptr_idx d), word_of_nat (d_indir_idx d), word_of_nat (d_double_indir_idx d),
         word_of_nat (d_is_dir d), d_parent d]"
  have "(?pre @ d_ptrs d @ ?mid @ d_unused d) ! (18 + i) = ?mid ! i" if "i < 5" for i
    using ok that nth_append [of ?mid "d_unused d" i] by (simp add: inode_disk_ok_def nth_append [of "d_ptrs d"])
  from this [of 0] this [of 1] this [of 2] this [of 3] this [of 4] ok w show ?thesis
    by (simp add: decode_inode_def encode_inode_def Let_def inode_disk_ok_def)
qed

section \<open>Opening and closing\<close>

lemma find_open_Some_iff:
  "find_open h x l = Some (Some ip) \<Longrightarrow> ip \<in> set l \<and> (\<exists>ino. h ip = Some ino \<and> i_sector ino = x)"
  by (induction l) (auto simp: bind_Some_iff split: if_splits)

lemma find_open_None:
  "find_open h x l = Some None \<longleftrightarrow> (\<forall>ip \<in> set l. \<exists>ino. h ip = Some ino \<and> i_sector ino \<noteq> x)"
  by (induction l) (auto simp: bind_Some_iff)

text \<open>The open inodes: allocated, each sector opened by one inode only, and every count positive.\<close>

definition open_ok :: "fs_state \<Rightarrow> bool" where
  "open_ok s \<longleftrightarrow> distinct (open_inodes s)
     \<and> (\<forall>ip \<in> set (open_inodes s). \<exists>ino. inodes s ip = Some ino \<and> open_cnt ino > 0)
     \<and> (\<forall>ip \<in> set (open_inodes s). \<forall>jp \<in> set (open_inodes s). \<forall>i j.
          inodes s ip = Some i \<and> inodes s jp = Some j \<and> i_sector i = i_sector j \<longrightarrow> ip = jp)
     \<and> (\<forall>ip. inodes s ip \<noteq> None \<longrightarrow> ip < next_inode s)"

lemma open_ok_alive: "open_ok s \<Longrightarrow> ip \<in> set (open_inodes s) \<Longrightarrow> \<exists>ino. inodes s ip = Some ino"
  by (auto simp: open_ok_def)

lemma open_ok_unique:
  "open_ok s \<Longrightarrow> ip \<in> set (open_inodes s) \<Longrightarrow> jp \<in> set (open_inodes s) \<Longrightarrow> inodes s ip = Some i \<Longrightarrow>
   inodes s jp = Some j \<Longrightarrow> i_sector i = i_sector j \<Longrightarrow> ip = jp"
  by (auto simp: open_ok_def)

lemma fs_malloc_ok:
  "\<forall>n. heap_ok (cache s) n \<Longrightarrow> fs_malloc s = (True, s\<lparr>cache := (cache s)\<lparr>heap_cnt := Suc (heap_cnt (cache s))\<rparr>\<rparr>)"
  by (simp add: fs_malloc_def malloc_def)

definition inode_bounds :: "inode \<Rightarrow> bool" where
  "inode_bounds ino \<longleftrightarrow> length (ptrs ino) = 15 \<and> i_length ino < 2 ^ 32 \<and> is_allocated ino < 2 ^ 32
     \<and> ptr_idx ino < 2 ^ 32 \<and> indir_idx ino < 2 ^ 32 \<and> double_indir_idx ino < 2 ^ 32 \<and> is_dir ino < 2 ^ 32"

text \<open>What the last close writes.\<close>

definition disk_image :: "inode \<Rightarrow> u32 list \<Rightarrow> inode_disk" where
  "disk_image ino junk = \<lparr>d_length = i_length ino, d_magic = INODE_MAGIC,
     d_is_allocated = is_allocated ino, d_ptrs = ptrs ino, d_ptr_idx = ptr_idx ino,
     d_indir_idx = indir_idx ino, d_double_indir_idx = double_indir_idx ino, d_is_dir = is_dir ino,
     d_parent = parent ino, d_unused = junk\<rparr>"

lemma disk_image_ok: "inode_bounds ino \<Longrightarrow> length junk = 105 \<Longrightarrow> inode_disk_ok (disk_image ino junk)"
  by (simp add: inode_bounds_def disk_image_def inode_disk_ok_def)

lemma inode_close_last:
  assumes ino: "inodes s ip = Some ino" "open_cnt ino = 1" "\<not> removed ino" "inode_bounds ino"
    and disk: "disk_wf (fs_disk s)" "valid_sector (fs_disk s) (i_sector ino)" and heap: "\<forall>n. heap_ok (cache s) n"
  shows "\<exists>s'. inode_close depth (Some ip) s = Some s' \<and> inodes s' = (inodes s)(ip := None)
     \<and> open_inodes s' = remove1 ip (open_inodes s) \<and> next_inode s' = next_inode s
     \<and> disk_wf (fs_disk s') \<and> capacity (fs_disk s') = capacity (fs_disk s) \<and> (\<forall>n. heap_ok (cache s') n)
     \<and> sector_at (fs_disk s') (i_sector ino) = encode_inode (disk_image ino (map (uninit s) [0..<105]))
     \<and> (\<forall>y. y \<noteq> i_sector ino \<longrightarrow> sector_at (fs_disk s') y = sector_at (fs_disk s) y)"
proof -
  let ?b = "encode_inode (disk_image ino (map (uninit s) [0..<105]))" and ?x = "i_sector ino"
  have len: "length ?b = DISK_SECTOR_SIZE"
    using disk_image_ok [OF ino(4)] by (intro length_encode_inode) simp
  let ?d = "(fs_disk s)\<lparr>media := (media (fs_disk s))[unat ?x := ?b], write_cnt := Suc (write_cnt (fs_disk s))\<rparr>"
  have w: "disk_write (fs_disk s) ?x ?b = Some ?d" using disk len by (simp add: disk_write_spec)
  have "\<exists>s'. inode_close depth (Some ip) s = Some s' \<and> inodes s' = (inodes s)(ip := None)
     \<and> open_inodes s' = remove1 ip (open_inodes s) \<and> next_inode s' = next_inode s
     \<and> fs_disk s' = ?d \<and> heap_ok (cache s') = heap_ok (cache s)"
    using ino w heap
    by (auto simp: inode_close_def Let_def fs_malloc_ok fs_write_sector_def upd_inode_def set_disk_def
        fs_disk_def disk_image_def fun_eq_iff)
  then show ?thesis using disk len heap by (auto simp: disk_wf_media sector_at_media)
qed

lemma inode_open_fresh:
  assumes "find_open (inodes s) x (open_inodes s) = Some None" and "disk_wf (fs_disk s)"
    and "valid_sector (fs_disk s) x" and "\<forall>n. heap_ok (cache s) n"
  shows "\<exists>s'. inode_open x s = Some (next_inode s, s')
     \<and> inodes s' = (inodes s)(next_inode s := Some (let d = decode_inode (sector_at (fs_disk s) x) in
             \<lparr>i_sector = x, open_cnt = 1, removed = False, deny_write_cnt = 0,
              i_length = d_length d, length_shown = d_length d, is_allocated = d_is_allocated d,
              ptrs = d_ptrs d, ptr_idx = d_ptr_idx d, indir_idx = d_indir_idx d,
              double_indir_idx = d_double_indir_idx d, is_dir = d_is_dir d, parent = d_parent d,
              i_lock = False\<rparr>))
     \<and> open_inodes s' = next_inode s # open_inodes s \<and> next_inode s' = Suc (next_inode s)"
  using assms
  by (simp add: inode_open_def Let_def fs_malloc_ok fs_read_sector_def fs_disk_def disk_read_spec set_disk_def)

lemma open_ok_open:
  assumes ok: "open_ok s" and "inode_open x s = Some (ip, s')"
  shows "open_ok s'" and "\<exists>ino. inodes s' ip = Some ino \<and> i_sector ino = x \<and> ip \<in> set (open_inodes s')"
proof -
  obtain r where r: "find_open (inodes s) x (open_inodes s) = Some r"
    using assms(2) by (auto simp: inode_open_def bind_Some_iff)
  have "open_ok s' \<and> (\<exists>ino. inodes s' ip = Some ino \<and> i_sector ino = x \<and> ip \<in> set (open_inodes s'))"
  proof (cases r)
    case (Some jp)
    with r assms(2) have s': "ip = jp" "s' = inode_reopen jp s" by (auto simp: inode_open_def)
    from find_open_Some_iff [of "inodes s" x "open_inodes s" jp] r Some obtain ino where
      ino: "jp \<in> set (open_inodes s)" "inodes s jp = Some ino" "i_sector ino = x" by auto
    then have "s' = set_inode jp (ino\<lparr>open_cnt := open_cnt ino + 1\<rparr>) s"
      using s' by (simp add: inode_reopen_def upd_inode_eq)
    moreover have "next_inode (set_inode jp i s) = next_inode s" for i by (simp add: set_inode_def)
    ultimately show ?thesis using ok ino s'(1) unfolding open_ok_def by (auto split: if_splits)
  next
    case None
    with r assms(2) have "\<exists>i. i_sector i = x \<and> open_cnt i = 1 \<and> ip = next_inode s
      \<and> inodes s' (next_inode s) = Some i \<and> (\<forall>jp. jp \<noteq> next_inode s \<longrightarrow> inodes s' jp = inodes s jp)
      \<and> open_inodes s' = next_inode s # open_inodes s \<and> next_inode s' = Suc (next_inode s)"
      by (auto simp: inode_open_def Let_def split_beta fs_malloc_def malloc_def fs_read_sector_def
          set_disk_def bind_Some_iff kassert_Some_iff)
    then obtain i where i: "i_sector i = x" "open_cnt i = 1" "ip = next_inode s"
      "inodes s' (next_inode s) = Some i" "\<And>jp. jp \<noteq> next_inode s \<Longrightarrow> inodes s' jp = inodes s jp"
      "open_inodes s' = next_inode s # open_inodes s" "next_inode s' = Suc (next_inode s)" by blast
    have new: "jp < next_inode s" if "inodes s jp \<noteq> None" for jp using ok that by (simp add: open_ok_def)
    have mem: "\<exists>j. inodes s jp = Some j \<and> i_sector j \<noteq> x \<and> open_cnt j > 0" "jp < next_inode s"
      if "jp \<in> set (open_inodes s)" for jp
      using that r None ok new [of jp] by (fastforce simp: find_open_None open_ok_def)+
    have "distinct (open_inodes s')" using i(6) ok mem(2) by (auto simp: open_ok_def)
    moreover have "\<exists>ino. inodes s' jp = Some ino \<and> open_cnt ino > 0" if "jp \<in> set (open_inodes s')" for jp
      using that i(2,4-6) mem [of jp] by (cases "jp = next_inode s") auto
    moreover have "jp = kp" if "jp \<in> set (open_inodes s')" "kp \<in> set (open_inodes s')"
      "inodes s' jp = Some j" "inodes s' kp = Some k" "i_sector j = i_sector k" for jp kp j k
      using that i(1,4-6) mem [of jp] mem [of kp] ok
      by (cases "jp = next_inode s"; cases "kp = next_inode s") (auto simp: open_ok_def)
    moreover have "jp < next_inode s'" if "inodes s' jp \<noteq> None" for jp
      using that i(5,7) new [of jp] by (cases "jp = next_inode s") auto
    ultimately show ?thesis using i(1,3,4,6) unfolding open_ok_def by auto
  qed
  then show "open_ok s'" "\<exists>ino. inodes s' ip = Some ino \<and> i_sector ino = x \<and> ip \<in> set (open_inodes s')" by auto
qed

section \<open>Properties\<close>

definition demo_inode :: inode where
  "demo_inode = \<lparr>i_sector = 0, open_cnt = 1, removed = False, deny_write_cnt = 0, i_length = 600,
     length_shown = 600, is_allocated = 1, ptrs = [1, 2, 0, 0, 0, 0, 0, 0, 0, 0, 0, 0, 0, 0, 0],
     ptr_idx = 2, indir_idx = 0, double_indir_idx = 0, is_dir = 0, parent = 0, i_lock = False\<rparr>"

definition demo_fs :: fs_state where
  "demo_fs = \<lparr>cache = demo_cache, free_map = \<lparr>bit_cnt = 3, bits = [7]\<rparr>, free_map_file = None,
     inodes = [0 \<mapsto> demo_inode], open_inodes = [0], next_inode = 1, uninit = \<lambda>_. 0\<rparr>"

lemma demo_blocks: "k * 512 < i_length demo_inode \<longleftrightarrow> k = 0 \<or> k = (1 :: nat)"
  by (auto simp: demo_inode_def)

lemma demo_disk_eq: "fs_disk demo_fs = demo_disk" "cached (cache demo_fs) = {}"
  by (simp_all add: demo_fs_def demo_cache_def fs_disk_def cached_def)

lemma demo_wf: "inode_wf demo_fs demo_inode"
proof -
  have K: "{k. k * 512 < i_length demo_inode} = {0, 1}" using demo_blocks by auto
  have "data_block d (ptrs demo_inode) 0 = 1" "data_block d (ptrs demo_inode) 1 = 2"
    "index_blocks d (ptrs demo_inode) 0 = {}" "index_blocks d (ptrs demo_inode) 1 = {}" for d
    by (simp_all add: data_block_def index_blocks_def demo_inode_def)
  then have "all_data d demo_inode = {1, 2}" "all_index d demo_inode = {}"
    "inj_on (data_block d (ptrs demo_inode)) {0, 1}" for d
    by (simp_all add: all_data_def all_index_def K)
  then show ?thesis
    unfolding inode_wf_def K demo_disk_eq
    by (simp add: demo_inode_def MAX_BLOCKS_def valid_sector_def demo_disk_def)
qed

lemma demo_contents:
  "contents demo_fs demo_inode = replicate 512 1 @ replicate 88 2"
proof (rule nth_equalityI)
  fix i
  assume "i < length (contents demo_fs demo_inode)"
  then have i: "i < 600" by (simp add: demo_inode_def)
  then have "i div 512 = (if i < 512 then 0 else 1)" by auto
  then show "contents demo_fs demo_inode ! i = (replicate 512 1 @ replicate 88 2) ! i"
    using i demo_view
    by (simp add: contents_def file_byte_def nth_append demo_inode_def data_block_def demo_fs_def)
qed (simp add: demo_inode_def)

lemma demo_state: "inodes demo_fs 0 = Some demo_inode" "cache_inv (cache demo_fs)" "writable demo_inode"
  using demo_cache_inv by (simp_all add: demo_fs_def writable_def demo_inode_def)

text \<open>C3. Reading a file returns its bytes. For a well-formed inode, \<open>inode_read_at\<close> returns the
  number of bytes between the offset and the visible end of the file, capped by the size asked
  for, puts exactly these bytes of the file at the start of the buffer, and changes neither the
  contents nor the well-formedness of any file.\<close>

theorem inode_read_at_correct:
  assumes "inodes s ip = Some ino" and "inode_wf s ino" and "cache_inv (cache s)" and "sz \<le> length buf"
    and "m = min sz (length_shown ino - offset)"
  shows "\<exists>s'. inode_read_at ip buf sz offset s
       = Some (m, take m (drop offset (contents s ino)) @ drop m buf, s')
     \<and> cache_inv (cache s') \<and> inodes s' = inodes s
     \<and> (\<forall>jno. inode_wf s jno \<and> all_index (fs_disk s) jno \<inter> all_data (fs_disk s) ino = {}
          \<longrightarrow> inode_wf s' jno \<and> contents s' jno = contents s jno)"
proof -
  from inode_read_at_spec [OF assms(1-4), of offset] obtain c where c:
    "inode_read_at ip buf sz offset s = Some (m, overwrite 0 (take m (drop offset (contents s ino))) buf, s\<lparr>cache := c\<rparr>)"
    "cache_inv c" "fs_step (all_data (fs_disk s) ino) s (s\<lparr>cache := c\<rparr>)"
    "\<forall>y. cview c y = cview (cache s) y" using assms(5) by blast
  have "length_shown ino \<le> i_length ino" using assms(2) by (simp add: inode_wf_def)
  then have "length (take m (drop offset (contents s ino))) = m" using assms(5) by auto
  then have "overwrite 0 (take m (drop offset (contents s ino))) buf = take m (drop offset (contents s ino)) @ drop m buf"
    by (simp add: overwrite_def)
  moreover have "inode_wf (s\<lparr>cache := c\<rparr>) jno \<and> contents (s\<lparr>cache := c\<rparr>) jno = contents s jno"
    if "inode_wf s jno" "all_index (fs_disk s) jno \<inter> all_data (fs_disk s) ino = {}" for jno
  proof -
    note b = fs_step_blocks [OF c(3) that]
    have "file_byte (s\<lparr>cache := c\<rparr>) jno i = file_byte s jno i" if "i < i_length jno" for i
    proof -
      have "i div 512 * 512 < i_length jno" using that div_times_less_eq_dividend [of i 512] by linarith
      with b(1) c(4) show ?thesis by (simp add: file_byte_def)
    qed
    with b(4) show ?thesis by (simp add: contents_def)
  qed
  ultimately show ?thesis using c(1,2) by auto
qed

theorem inode_read_at_correct_witness:
  "\<exists>s'. inode_read_at 0 [0, 0, 0] 2 511 demo_fs = Some (2, [1, 2, 0], s')"
proof -
  have "take 2 (drop 511 (contents demo_fs demo_inode)) = [1, 2]"
    unfolding demo_contents by (simp add: numeral_2_eq_2)
  then show ?thesis
    using inode_read_at_correct [OF demo_state(1) demo_wf demo_state(2), of 2 "[0, 0, 0]" 2 511]
    by (auto simp: demo_inode_def)
qed

text \<open>C4. Writing inside a file changes exactly the bytes written. For a well-formed inode that is
  open for writing, a write of \<open>sz\<close> bytes at an offset inside the file writes all of them; the
  contents of the file are the old ones with these bytes in place; and every other file whose
  sectors are not the file's data sectors keeps its contents.\<close>

theorem inode_write_at_correct:
  assumes "inodes s ip = Some ino" and "inode_wf s ino" and "cache_inv (cache s)" and "writable ino"
    and "length bs = sz" and "offset + sz \<le> i_length ino"
  shows "\<exists>s' ino'. inode_write_at (Suc depth) ip bs sz offset s = Some (sz, s')
     \<and> inodes s' = (inodes s)(ip \<mapsto> ino') \<and> inode_wf s' ino' \<and> cache_inv (cache s')
     \<and> contents s' ino' = overwrite offset bs (contents s ino)
     \<and> (\<forall>jno. inode_wf s jno \<and> all_index (fs_disk s) jno \<inter> all_data (fs_disk s) ino = {}
          \<and> all_data (fs_disk s) jno \<inter> all_data (fs_disk s) ino = {}
          \<longrightarrow> inode_wf s' jno \<and> contents s' jno = contents s jno)"
proof -
  let ?ino = "ino\<lparr>length_shown := min (i_length ino) (length_shown ino + sz)\<rparr>"
  from inode_write_at_inside [OF assms(1-4), of sz bs offset depth] assms(5,6) obtain c where c:
    "inode_write_at (Suc depth) ip bs sz offset s = Some (sz, set_inode ip ?ino (s\<lparr>cache := c\<rparr>))"
    "cache_inv c" "fs_step (all_data (fs_disk s) ino) s (s\<lparr>cache := c\<rparr>)"
    "contents (s\<lparr>cache := c\<rparr>) ino = overwrite offset bs (contents s ino)" by auto
  have wf: "inode_wf (s\<lparr>cache := c\<rparr>) ino"
    using fs_step_blocks(4) [OF c(3) assms(2) inode_wf_disjoint [OF assms(2)]] .
  have "inodes (set_inode ip ?ino (s\<lparr>cache := c\<rparr>)) = (inodes s)(ip \<mapsto> ?ino)" by (simp add: set_inode_def)
  moreover have "inode_wf (s\<lparr>cache := c\<rparr>) jno \<and> contents (s\<lparr>cache := c\<rparr>) jno = contents s jno"
    if "inode_wf s jno" "all_index (fs_disk s) jno \<inter> all_data (fs_disk s) ino = {}"
      "all_data (fs_disk s) jno \<inter> all_data (fs_disk s) ino = {}" for jno
    using fs_step_blocks(4) [OF c(3) that(1,2)] fs_step_contents [OF c(3) that] by blast
  ultimately show ?thesis using c wf
    by (intro exI [of _ "set_inode ip ?ino (s\<lparr>cache := c\<rparr>)"] exI [of _ ?ino]) simp
qed

theorem inode_write_at_correct_witness:
  "\<exists>s' ino'. inode_write_at 1 0 [7, 8] 2 511 demo_fs = Some (2, s')
     \<and> contents s' ino' = replicate 511 1 @ [7, 8] @ replicate 87 2"
proof -
  have "overwrite 511 [7, 8] (contents demo_fs demo_inode) = replicate 511 1 @ [7, 8] @ replicate 87 2"
    unfolding demo_contents by (simp add: overwrite_def)
  moreover have "i_length demo_inode = 600" by (simp add: demo_inode_def)
  ultimately show ?thesis
    using inode_write_at_correct [OF demo_state(1) demo_wf demo_state(2,3), of "[7, 8]" 2 511 0]
    by auto
qed



text \<open>C6. A file survives being closed. When the last opener of a file that was not removed closes
  it, the sector of the inode holds its length, pointers and flags; opening that sector again
  gives an inode with the same fields, all of the file visible.\<close>

theorem inode_close_open:
  assumes "inodes s ip = Some ino" and "open_cnt ino = 1" and "\<not> removed ino" and "inode_bounds ino"
    and "open_ok s" and "ip \<in> set (open_inodes s)"
    and "disk_wf (fs_disk s)" and "valid_sector (fs_disk s) (i_sector ino)" and "\<forall>n. heap_ok (cache s) n"
  shows "\<exists>s1 jp s2. inode_close depth (Some ip) s = Some s1 \<and> inodes s1 ip = None
     \<and> inode_open (i_sector ino) s1 = Some (jp, s2)
     \<and> inodes s2 jp = Some (ino\<lparr>length_shown := i_length ino, deny_write_cnt := 0, i_lock := False\<rparr>)"
proof -
  from inode_close_last [OF assms(1-4,7,8,9)] obtain s1 where s1:
    "inode_close depth (Some ip) s = Some s1" "inodes s1 = (inodes s)(ip := None)"
    "open_inodes s1 = remove1 ip (open_inodes s)" "disk_wf (fs_disk s1)"
    "capacity (fs_disk s1) = capacity (fs_disk s)" "\<forall>n. heap_ok (cache s1) n"
    "sector_at (fs_disk s1) (i_sector ino) = encode_inode (disk_image ino (map (uninit s) [0..<105]))" by blast
  have "\<exists>j. inodes s1 jp = Some j \<and> i_sector j \<noteq> i_sector ino" if "jp \<in> set (open_inodes s1)" for jp
  proof -
    have "jp \<in> set (open_inodes s)" "jp \<noteq> ip"
      using that s1(3) assms(5) by (auto simp: open_ok_def)
    with open_ok_alive [OF assms(5)] open_ok_unique [OF assms(5) _ assms(6) _ assms(1)] s1(2) show ?thesis
      by fastforce
  qed
  then have "find_open (inodes s1) (i_sector ino) (open_inodes s1) = Some None" by (simp add: find_open_None)
  moreover have "valid_sector (fs_disk s1) (i_sector ino)" using assms(8) s1(5) by (simp add: valid_sector_def)
  moreover have "decode_inode (sector_at (fs_disk s1) (i_sector ino)) = disk_image ino (map (uninit s) [0..<105])"
    using s1(7) disk_image_ok [OF assms(4)] by (simp add: decode_encode_inode)
  ultimately show ?thesis
    using inode_open_fresh [of s1 "i_sector ino"] s1 assms(2,3) by (auto simp: disk_image_def Let_def)
qed

theorem inode_close_open_witness:
  "\<exists>s1 jp s2. inode_close 1 (Some 0) demo_fs = Some s1 \<and> inode_open 0 s1 = Some (jp, s2)
     \<and> inodes s2 jp = Some demo_inode"
proof -
  have "inode_bounds demo_inode" "open_cnt demo_inode = 1" "\<not> removed demo_inode" "i_sector demo_inode = 0"
    "demo_inode\<lparr>length_shown := i_length demo_inode, deny_write_cnt := 0, i_lock := False\<rparr> = demo_inode"
    by (simp_all add: inode_bounds_def demo_inode_def)
  moreover have "open_ok demo_fs" "0 \<in> set (open_inodes demo_fs)" "\<forall>n. heap_ok (cache demo_fs) n"
    by (auto simp: open_ok_def demo_fs_def demo_inode_def demo_cache_def split: if_splits)
  moreover have "valid_sector (fs_disk demo_fs) 0" by (simp add: demo_disk_eq valid_sector_def demo_disk_def)
  ultimately show ?thesis
    using inode_close_open [OF demo_state(1), of 1] demo_disk_wf by (auto simp: demo_disk_eq)
qed

text \<open>C7. One inode per sector. Opening a file that is already open returns the inode that is
  there, with one more opener, and opening never breaks the table of open inodes: no sector is
  represented by two of them.\<close>

theorem inode_open_shares:
  assumes "open_ok s" and "inode_open x s = Some (ip, s1)" and "inode_open x s1 = Some (jp, s2)"
  shows "jp = ip \<and> open_ok s2 \<and> open_inodes s2 = open_inodes s1
     \<and> (\<exists>ino. inodes s1 ip = Some ino \<and> i_sector ino = x
          \<and> inodes s2 ip = Some (ino\<lparr>open_cnt := open_cnt ino + 1\<rparr>))"
proof -
  note o1 = open_ok_open [OF assms(1,2)]
  then obtain ino where ino: "inodes s1 ip = Some ino" "i_sector ino = x" "ip \<in> set (open_inodes s1)" by blast
  obtain r where r: "find_open (inodes s1) x (open_inodes s1) = Some r"
    using assms(3) by (auto simp: inode_open_def bind_Some_iff)
  with ino find_open_None [of "inodes s1" x "open_inodes s1"] obtain kp where kp: "r = Some kp" by (cases r) auto
  with r find_open_Some_iff [of "inodes s1" x "open_inodes s1" kp] o1(1) ino have "kp = ip"
    by (fastforce simp: open_ok_def)
  with r kp assms(3) have "jp = ip" "s2 = inode_reopen ip s1" by (auto simp: inode_open_def)
  with ino open_ok_open(1) [OF o1(1) assms(3)] show ?thesis by (auto simp: inode_reopen_def upd_inode_def)
qed

theorem inode_open_shares_witness:
  "\<exists>s1 s2. inode_open 0 demo_fs = Some (0, s1) \<and> inode_open 0 s1 = Some (0, s2) \<and> open_inodes s2 = [0]"
proof -
  have ok: "open_ok demo_fs" by (auto simp: open_ok_def demo_fs_def demo_inode_def split: if_splits)
  have "find_open (inodes demo_fs) 0 (open_inodes demo_fs) = Some (Some 0)"
    by (simp add: demo_fs_def demo_inode_def)
  then have 1: "inode_open 0 demo_fs = Some (0, inode_reopen 0 demo_fs)" by (simp add: inode_open_def)
  moreover have "find_open (inodes (inode_reopen 0 demo_fs)) 0 (open_inodes (inode_reopen 0 demo_fs)) = Some (Some 0)"
    by (simp add: demo_fs_def demo_inode_def inode_reopen_def upd_inode_def)
  then have 2: "inode_open 0 (inode_reopen 0 demo_fs) = Some (0, inode_reopen 0 (inode_reopen 0 demo_fs))"
    by (simp add: inode_open_def)
  moreover have "open_inodes (inode_reopen 0 demo_fs) = [0]" by (simp add: inode_reopen_def upd_inode_def demo_fs_def)
  ultimately show ?thesis using inode_open_shares [OF ok 1 2] by auto
qed

text \<open>A failed allocation is reported as success. \<open>inode_grow\<close> answers \<open>return -1\<close> through a
  \<open>bool\<close>, so that its result is true whatever happened, and the comparison with \<open>-1\<close> in
  \<open>inode_create\<close> and \<open>inode_write_at\<close> never holds: their branches for a full disk are dead code.\<close>

theorem inode_grow_hides_failure:
  assumes "inode_grow alloc ip len s = Some (r, s')"
  shows "r \<and> \<not> is_minus_1 r"
  using assms
  by (auto simp: inode_grow_def is_minus_1_def Let_def bind_Some_iff split: option.splits)

theorem inode_grow_hides_failure_witness:
  "inode_grow (\<lambda>s. Some (None, s)) 0 1025 demo_fs = Some (True, demo_fs) \<and> \<not> is_minus_1 True"
proof -
  have "grow_loop (\<lambda>s. Some (None, s)) 0 2 1 b b demo_fs = Some (None, demo_fs)" for b
    by (subst grow_loop.simps) (simp add: inode_consts)
  moreover have "bytes_to_sectors 1025 = 3" "bytes_to_sectors (i_length demo_inode) = 2" "ptr_idx demo_inode = 2"
    by (simp_all add: bytes_to_sectors_eq demo_inode_def)
  ultimately have "inode_grow (\<lambda>s. Some (None, s)) 0 1025 demo_fs = Some (True, demo_fs)"
    using demo_state(1) by (simp add: inode_grow_def)
  from this inode_grow_hides_failure [OF this] show ?thesis by simp
qed

end
