(* ===== verification/File.thy ===== *)
theory File
  imports Inode
begin

text \<open>
  Open files, \<^verbatim>\<open>filesys/file.c\<close>, and the part of \<^verbatim>\<open>filesys/free-map.c\<close> that opens, reads and writes
  the free map as a file. A \<open>struct file\<close> and a \<open>struct dir\<close> are objects of a heap, addressed by
  natural numbers: the code casts pointers to directories to file pointers, so both kinds live in
  one map. A null pointer is \<open>None\<close>. Positions are natural numbers: the code never makes one
  negative.
\<close>

section \<open>State\<close>

record open_file =
  f_inode :: nat
  f_pos :: nat
  deny_write :: bool

record dir =
  dir_inode :: nat
  dir_pos :: nat

datatype handle = Open_File open_file | Open_Dir dir

record fsys =
  fs :: fs_state
  handles :: "nat \<Rightarrow> handle option"
  next_handle :: nat

definition get_file :: "nat \<Rightarrow> fsys \<Rightarrow> open_file option" where
  "get_file fp s = (case handles s fp of Some (Open_File f) \<Rightarrow> Some f | _ \<Rightarrow> None)"

definition set_file :: "nat \<Rightarrow> open_file \<Rightarrow> fsys \<Rightarrow> fsys" where
  "set_file fp f s = s\<lparr>handles := (handles s)(fp \<mapsto> Open_File f)\<rparr>"

definition new_handle :: "handle \<Rightarrow> fsys \<Rightarrow> nat \<times> fsys" where
  "new_handle h s = (next_handle s, s\<lparr>handles := (handles s)(next_handle s \<mapsto> h), next_handle := Suc (next_handle s)\<rparr>)"

definition free_handle :: "nat \<Rightarrow> fsys \<Rightarrow> fsys" where
  "free_handle fp s = s\<lparr>handles := (handles s)(fp := None)\<rparr>"

text \<open>The depth bound of the operations of \<^verbatim>\<open>inode.c\<close> that may write the free map: one level for the file
  and one for the file of the free map.\<close>

definition write_depth :: nat where "write_depth = 2"

section \<open>Operations\<close>

definition file_open :: "nat option \<Rightarrow> fsys \<Rightarrow> (nat option \<times> fsys) option" where
  "file_open inode s = do {
     let (ok, fs1) = fs_malloc (fs s);
     let s1 = s\<lparr>fs := fs1\<rparr>;
     case inode of
       Some ip \<Rightarrow>
         if ok then let (fp, s2) = new_handle (Open_File \<lparr>f_inode = ip, f_pos = 0, deny_write = False\<rparr>) s1 in Some (Some fp, s2)
         else do { fs2 \<leftarrow> inode_close write_depth inode (fs s1); Some (None, s1\<lparr>fs := fs2\<rparr>) }
     | None \<Rightarrow> Some (None, s1) }"

definition file_reopen :: "nat \<Rightarrow> fsys \<Rightarrow> (nat option \<times> fsys) option" where
  "file_reopen fp s = do {
     f \<leftarrow> get_file fp s;
     file_open (Some (f_inode f)) (s\<lparr>fs := inode_reopen (f_inode f) (fs s)\<rparr>) }"

definition file_deny_write :: "nat \<Rightarrow> fsys \<Rightarrow> fsys option" where
  "file_deny_write fp s = do {
     f \<leftarrow> get_file fp s;
     if \<not> deny_write f
     then do {
       fs1 \<leftarrow> inode_deny_write (f_inode f) (fs s);
       Some (set_file fp (f\<lparr>deny_write := True\<rparr>) (s\<lparr>fs := fs1\<rparr>)) }
     else Some s }"

definition file_allow_write :: "nat \<Rightarrow> fsys \<Rightarrow> fsys option" where
  "file_allow_write fp s = do {
     f \<leftarrow> get_file fp s;
     if deny_write f
     then do {
       fs1 \<leftarrow> inode_allow_write (f_inode f) (fs s);
       Some (set_file fp (f\<lparr>deny_write := False\<rparr>) (s\<lparr>fs := fs1\<rparr>)) }
     else Some s }"

definition file_close :: "nat option \<Rightarrow> fsys \<Rightarrow> fsys option" where
  "file_close fpo s = (case fpo of None \<Rightarrow> Some s
   | Some fp \<Rightarrow> do {
       s1 \<leftarrow> file_allow_write fp s;
       f \<leftarrow> get_file fp s1;
       fs1 \<leftarrow> inode_close write_depth (Some (f_inode f)) (fs s1);
       Some (free_handle fp (s1\<lparr>fs := fs1\<rparr>)) })"

definition file_get_inode :: "nat \<Rightarrow> fsys \<Rightarrow> nat option" where
  "file_get_inode fp s = map_option f_inode (get_file fp s)"

definition file_read :: "nat \<Rightarrow> byte list \<Rightarrow> nat \<Rightarrow> fsys \<Rightarrow> (nat \<times> byte list \<times> fsys) option" where
  "file_read fp buffer sz s = do {
     f \<leftarrow> get_file fp s;
     (bytes_read, buffer1, fs1) \<leftarrow> inode_read_at (f_inode f) buffer sz (f_pos f) (fs s);
     Some (bytes_read, buffer1, set_file fp (f\<lparr>f_pos := f_pos f + bytes_read\<rparr>) (s\<lparr>fs := fs1\<rparr>)) }"

definition file_read_at :: "nat \<Rightarrow> byte list \<Rightarrow> nat \<Rightarrow> nat \<Rightarrow> fsys \<Rightarrow> (nat \<times> byte list \<times> fsys) option" where
  "file_read_at fp buffer sz file_ofs s = do {
     f \<leftarrow> get_file fp s;
     (bytes_read, buffer1, fs1) \<leftarrow> inode_read_at (f_inode f) buffer sz file_ofs (fs s);
     Some (bytes_read, buffer1, s\<lparr>fs := fs1\<rparr>) }"

definition file_write :: "nat \<Rightarrow> byte list \<Rightarrow> nat \<Rightarrow> fsys \<Rightarrow> (int \<times> fsys) option" where
  "file_write fp buffer sz s = do {
     f \<leftarrow> get_file fp s;
     inode \<leftarrow> inodes (fs s) (f_inode f);
     d \<leftarrow> inode_is_dir inode;
     if d then Some (- 1, s)
     else do {
       (bytes_written, fs1) \<leftarrow> inode_write_at write_depth (f_inode f) buffer sz (f_pos f) (fs s);
       Some (int bytes_written, set_file fp (f\<lparr>f_pos := f_pos f + bytes_written\<rparr>) (s\<lparr>fs := fs1\<rparr>)) } }"

definition file_write_at :: "nat \<Rightarrow> byte list \<Rightarrow> nat \<Rightarrow> nat \<Rightarrow> fsys \<Rightarrow> (nat \<times> fsys) option" where
  "file_write_at fp buffer sz file_ofs s = do {
     f \<leftarrow> get_file fp s;
     (bytes_written, fs1) \<leftarrow> inode_write_at write_depth (f_inode f) buffer sz file_ofs (fs s);
     Some (bytes_written, s\<lparr>fs := fs1\<rparr>) }"

definition file_length :: "nat \<Rightarrow> fsys \<Rightarrow> nat option" where
  "file_length fp s = do {
     f \<leftarrow> get_file fp s;
     inode \<leftarrow> inodes (fs s) (f_inode f);
     Some (inode_length inode) }"

definition file_seek :: "nat \<Rightarrow> int \<Rightarrow> fsys \<Rightarrow> fsys option" where
  "file_seek fp new_pos s = do {
     f \<leftarrow> get_file fp s;
     kassert (new_pos \<ge> 0);
     Some (set_file fp (f\<lparr>f_pos := nat new_pos\<rparr>) s) }"

definition file_tell :: "nat \<Rightarrow> fsys \<Rightarrow> nat option" where
  "file_tell fp s = map_option f_pos (get_file fp s)"

section \<open>The free map as a file\<close>

definition FREE_MAP_SECTOR :: disk_sector_t where "FREE_MAP_SECTOR = 0"

definition ROOT_DIR_SECTOR :: disk_sector_t where "ROOT_DIR_SECTOR = 1"

text \<open>The file of the free map is only used through its inode, which \<open>free_map_file\<close> names.
  \<open>header_ok\<close> and \<open>storage\<close> are the results of the calls of \<open>malloc\<close> in \<open>bitmap_create\<close>.\<close>

definition free_map_init :: "bool \<Rightarrow> u32 list option \<Rightarrow> fs_state \<Rightarrow> fs_state option" where
  "free_map_init header_ok storage s = do {
     r \<leftarrow> bitmap_create header_ok storage (unat (disk_size (fs_disk s)));
     b \<leftarrow> r;
     b1 \<leftarrow> bitmap_mark b (unat FREE_MAP_SECTOR);
     b2 \<leftarrow> bitmap_mark b1 (unat ROOT_DIR_SECTOR);
     Some (s\<lparr>free_map := b2\<rparr>) }"

definition bitmap_read :: "bitmap \<Rightarrow> nat \<Rightarrow> fs_state \<Rightarrow> (bool \<times> bitmap \<times> fs_state) option" where
  "bitmap_read b ip s =
     (if bit_cnt b > 0 then do {
        let sz = byte_cnt (bit_cnt b);
        (n, bytes, s1) \<leftarrow> inode_read_at ip (words_bytes (bits b)) sz 0 s;
        let ws = le_words bytes;
        let last0 = elem_cnt (bit_cnt b) - 1;
        Some (n = sz, b\<lparr>bits := ws[last0 := ws ! last0 AND last_mask b]\<rparr>, s1) }
      else Some (True, b, s))"

definition free_map_open :: "fs_state \<Rightarrow> fs_state option" where
  "free_map_open s = do {
     (ip, s1) \<leftarrow> inode_open FREE_MAP_SECTOR s;
     let (ok, s2) = fs_malloc s1;
     kassert ok;
     let s3 = s2\<lparr>free_map_file := Some ip\<rparr>;
     (r, b, s4) \<leftarrow> bitmap_read (free_map s3) ip s3;
     kassert r;
     Some (s4\<lparr>free_map := b\<rparr>) }"

definition free_map_close :: "fs_state \<Rightarrow> fs_state option" where
  "free_map_close s = inode_close write_depth (free_map_file s) s"

definition free_map_create :: "fs_state \<Rightarrow> fs_state option" where
  "free_map_create s = do {
     (ok1, s1) \<leftarrow> inode_create write_depth FREE_MAP_SECTOR (bitmap_file_size (free_map s)) False s;
     kassert ok1;
     (ip, s2) \<leftarrow> inode_open FREE_MAP_SECTOR s1;
     let (ok2, s3) = fs_malloc s2;
     kassert ok2;
     let s4 = s3\<lparr>free_map_file := Some ip\<rparr>;
     (ok3, s5) \<leftarrow> bitmap_write (inode_write_at write_depth) (free_map s4) ip s4;
     kassert ok3;
     Some s5 }"

section \<open>Specification\<close>

text \<open>All open files together: every inode in memory is well formed, and different ones share no sector.\<close>

definition own_sectors :: "fs_state \<Rightarrow> inode \<Rightarrow> disk_sector_t set" where
  "own_sectors s ino = all_data (fs_disk s) ino \<union> all_index (fs_disk s) ino"

definition fs_ok :: "fs_state \<Rightarrow> bool" where
  "fs_ok s \<longleftrightarrow> cache_inv (cache s) \<and> (\<forall>ip ino. inodes s ip = Some ino \<longrightarrow> inode_wf s ino)
     \<and> (\<forall>ip ino jp jno. inodes s ip = Some ino \<longrightarrow> inodes s jp = Some jno \<longrightarrow> ip \<noteq> jp \<longrightarrow> own_sectors s ino \<inter> own_sectors s jno = {})"

text \<open>What a reader sees of a file: its bytes up to the visible length.\<close>

definition shown :: "fs_state \<Rightarrow> nat \<Rightarrow> byte list" where
  "shown s ip = (case inodes s ip of None \<Rightarrow> [] | Some ino \<Rightarrow> take (length_shown ino) (contents s ino))"

section \<open>Reading and writing keep the files apart\<close>

lemma fs_ok_step:
  assumes ok: "fs_ok s" and ip: "inodes s ip = Some ino" and c: "cache_inv c"
    and step: "fs_step (all_data (fs_disk s) ino) s (s\<lparr>cache := c\<rparr>)"
  shows "fs_ok (s\<lparr>cache := c\<rparr>)"
    and "\<And>jp jno. inodes s jp = Some jno \<Longrightarrow> own_sectors (s\<lparr>cache := c\<rparr>) jno = own_sectors s jno"
    and "\<And>jp jno. inodes s jp = Some jno \<Longrightarrow> jp \<noteq> ip \<Longrightarrow> contents (s\<lparr>cache := c\<rparr>) jno = contents s jno"
proof -
  have idx: "inode_wf s jno" "all_index (fs_disk s) jno \<inter> all_data (fs_disk s) ino = {}" if "inodes s jp = Some jno" for jp jno
  proof -
    show wf: "inode_wf s jno" using ok that by (auto simp: fs_ok_def)
    show "all_index (fs_disk s) jno \<inter> all_data (fs_disk s) ino = {}"
    proof (cases "jp = ip")
      case True
      with that ip wf show ?thesis by (auto simp: inode_wf_def)
    next
      case False
      then have "own_sectors s ino \<inter> own_sectors s jno = {}" using ok ip that unfolding fs_ok_def by blast
      then show ?thesis by (auto simp: own_sectors_def)
    qed
  qed
  note b = fs_step_blocks [OF step idx]
  show own: "\<And>jp jno. inodes s jp = Some jno \<Longrightarrow> own_sectors (s\<lparr>cache := c\<rparr>) jno = own_sectors s jno"
    using b(2,3) by (simp add: own_sectors_def)
  show "fs_ok (s\<lparr>cache := c\<rparr>)" using ok c own b(4) unfolding fs_ok_def by auto
  fix jp jno assume j: "inodes s jp = Some jno" "jp \<noteq> ip"
  then have "own_sectors s ino \<inter> own_sectors s jno = {}" using ok ip unfolding fs_ok_def by blast
  then show "contents (s\<lparr>cache := c\<rparr>) jno = contents s jno"
    by (intro fs_step_contents [OF step idx [OF j(1)]]) (auto simp: own_sectors_def)
qed

lemma cview_contents:
  assumes "inode_wf s ino" and "fs_step (all_data (fs_disk s) jno) s (s\<lparr>cache := c\<rparr>)"
    and "all_index (fs_disk s) ino \<inter> all_data (fs_disk s) jno = {}" and "\<forall>y. cview c y = cview (cache s) y"
  shows "contents (s\<lparr>cache := c\<rparr>) ino = contents s ino"
proof -
  note b = fs_step_blocks [OF assms(2,1,3)]
  have "file_byte (s\<lparr>cache := c\<rparr>) ino i = file_byte s ino i" if "i < i_length ino" for i
  proof -
    have "i div 512 * 512 < i_length ino" using that div_times_less_eq_dividend [of i 512] by linarith
    with b(1) assms(4) show ?thesis by (simp add: file_byte_def)
  qed
  then show ?thesis by (simp add: contents_def)
qed

lemma read_at_ok:
  fixes offset :: nat
  assumes ok: "fs_ok s" and ip: "inodes s ip = Some ino" and sz: "sz \<le> length buf"
  defines "m \<equiv> min sz (length_shown ino - offset)"
  shows "\<exists>c. inode_read_at ip buf sz offset s
       = Some (m, take m (drop offset (shown s ip)) @ drop m buf, s\<lparr>cache := c\<rparr>)
     \<and> fs_ok (s\<lparr>cache := c\<rparr>) \<and> (\<forall>jp. shown (s\<lparr>cache := c\<rparr>) jp = shown s jp)
     \<and> (\<forall>jp jno. inodes s jp = Some jno \<longrightarrow> contents (s\<lparr>cache := c\<rparr>) jno = contents s jno)"
proof -
  have wf: "inode_wf s ino" and ci: "cache_inv (cache s)" using ok ip by (auto simp: fs_ok_def)
  from inode_read_at_spec [OF ip wf ci sz, of offset] obtain c where c:
    "inode_read_at ip buf sz offset s = Some (m, overwrite 0 (take m (drop offset (contents s ino))) buf, s\<lparr>cache := c\<rparr>)"
    "cache_inv c" "fs_step (all_data (fs_disk s) ino) s (s\<lparr>cache := c\<rparr>)" "\<forall>y. cview c y = cview (cache s) y"
    unfolding m_def by blast
  have "length_shown ino \<le> i_length ino" using wf by (simp add: inode_wf_def)
  then have "length (take m (drop offset (contents s ino))) = m" "take m (drop offset (contents s ino)) = take m (drop offset (shown s ip))"
    using ip by (auto simp: shown_def m_def drop_take)
  then have "overwrite 0 (take m (drop offset (contents s ino))) buf = take m (drop offset (shown s ip)) @ drop m buf"
    by (simp add: overwrite_def)
  moreover note st = fs_ok_step [OF ok ip c(2,3)]
  moreover have ct: "contents (s\<lparr>cache := c\<rparr>) jno = contents s jno" if "inodes s jp = Some jno" for jp jno
  proof (cases "jp = ip")
    case True
    then show ?thesis using cview_contents [OF wf c(3) _ c(4)] wf ip that by (auto simp: inode_wf_def)
  next
    case False
    then show ?thesis using st(3) [OF that] by simp
  qed
  moreover from ct have "shown (s\<lparr>cache := c\<rparr>) jp = shown s jp" for jp
    by (auto simp: shown_def split: option.splits)
  ultimately show ?thesis using c(1) by auto
qed

lemma write_at_ok:
  fixes depth :: nat
  assumes ok: "fs_ok s" and ip: "inodes s ip = Some ino" and w: "writable ino"
    and sz: "length bs = sz" "offset + sz \<le> i_length ino"
  defines "ino' \<equiv> ino\<lparr>length_shown := min (i_length ino) (length_shown ino + sz)\<rparr>"
  shows "\<exists>c. inode_write_at (Suc depth) ip bs sz offset s = Some (sz, set_inode ip ino' (s\<lparr>cache := c\<rparr>))
     \<and> fs_ok (set_inode ip ino' (s\<lparr>cache := c\<rparr>))
     \<and> contents (set_inode ip ino' (s\<lparr>cache := c\<rparr>)) ino' = overwrite offset bs (contents s ino)
     \<and> (\<forall>jp. jp \<noteq> ip \<longrightarrow> shown (set_inode ip ino' (s\<lparr>cache := c\<rparr>)) jp = shown s jp)"
proof -
  have wf: "inode_wf s ino" and ci: "cache_inv (cache s)" using ok ip by (auto simp: fs_ok_def)
  from inode_write_at_inside [OF ip wf ci w, of sz bs offset depth] sz obtain c where c:
    "inode_write_at (Suc depth) ip bs sz offset s = Some (sz, set_inode ip ino' (s\<lparr>cache := c\<rparr>))"
    "cache_inv c" "fs_step (all_data (fs_disk s) ino) s (s\<lparr>cache := c\<rparr>)"
    "contents (s\<lparr>cache := c\<rparr>) ino = overwrite offset bs (contents s ino)"
    unfolding ino'_def by auto
  note st = fs_ok_step [OF ok ip c(2,3)]
  have same: "contents t ino' = contents t ino" "own_sectors t ino' = own_sectors t ino" "inode_wf t ino \<Longrightarrow> inode_wf t ino'" for t
    using wf by (auto simp: ino'_def inode_wf_def contents_def file_byte_def own_sectors_def all_data_def all_index_def)
  define s' where "s' = set_inode ip ino' (s\<lparr>cache := c\<rparr>)"
  have view: "contents s' j = contents (s\<lparr>cache := c\<rparr>) j" "own_sectors s' j = own_sectors (s\<lparr>cache := c\<rparr>) j"
    "inode_wf s' j = inode_wf (s\<lparr>cache := c\<rparr>) j" for j
    by (simp_all add: s'_def contents_def file_byte_def own_sectors_def inode_wf_def)
  have upd: "inodes s' jp = (if jp = ip then Some ino' else inodes s jp)" for jp by (simp add: s'_def)
  have before: "\<exists>j0. inodes s jp = Some j0 \<and> own_sectors s' j = own_sectors s j0 \<and> inode_wf s' j" if "inodes s' jp = Some j" for jp j
    using that st(1,2) ip same by (cases "jp = ip") (auto simp: view fs_ok_def upd)
  have "fs_ok s'"
  proof (unfold fs_ok_def, intro conjI allI impI)
    show "cache_inv (cache s')" using c(2) by (simp add: s'_def)
  next
    fix jp j assume "inodes s' jp = Some j"
    then show "inode_wf s' j" using before by blast
  next
    fix jp j kp k assume "inodes s' jp = Some j" "inodes s' kp = Some k" "jp \<noteq> kp"
    with before obtain j0 k0 where "inodes s jp = Some j0" "own_sectors s' j = own_sectors s j0"
      "inodes s kp = Some k0" "own_sectors s' k = own_sectors s k0" by metis
    with ok \<open>jp \<noteq> kp\<close> show "own_sectors s' j \<inter> own_sectors s' k = {}" unfolding fs_ok_def by simp
  qed
  moreover have "shown s' jp = shown s jp" if "jp \<noteq> ip" for jp
    using st(3) that by (auto simp: shown_def view s'_def split: option.splits)
  moreover have "contents s' ino' = overwrite offset bs (contents s ino)" using c(4) by (simp add: view same)
  ultimately show ?thesis using c(1) unfolding s'_def by blast
qed

lemma get_set_file [simp]: "get_file fp (set_file gp f s) = (if fp = gp then Some f else get_file fp s)"
  by (simp add: get_file_def set_file_def)

lemma set_file_fs [simp]: "fs (set_file fp f s) = fs s" "get_file fp (s\<lparr>fs := x\<rparr>) = get_file fp s"
  by (simp_all add: set_file_def get_file_def)

lemma shown_length: "fs_ok s \<Longrightarrow> inodes s ip = Some ino \<Longrightarrow> length (shown s ip) = length_shown ino"
  by (auto simp: shown_def fs_ok_def inode_wf_def)

lemma file_read_ok:
  assumes "fs_ok (fs s)" and "get_file fp s = Some f" and "inodes (fs s) (f_inode f) = Some ino" and "sz \<le> length buf"
  defines "m \<equiv> min sz (length_shown ino - f_pos f)"
  shows "\<exists>s'. file_read fp buf sz s = Some (m, take m (drop (f_pos f) (shown (fs s) (f_inode f))) @ drop m buf, s')
     \<and> fs_ok (fs s') \<and> get_file fp s' = Some (f\<lparr>f_pos := f_pos f + m\<rparr>) \<and> inodes (fs s') = inodes (fs s)
     \<and> (\<forall>jp. shown (fs s') jp = shown (fs s) jp)"
proof -
  from read_at_ok [OF assms(1,3,4), of "f_pos f"] show ?thesis
    using assms(2) by (auto simp: file_read_def m_def)
qed

section \<open>Properties\<close>

text \<open>The bytes that successive reads of the given sizes deliver.\<close>

fun read_all :: "nat \<Rightarrow> nat list \<Rightarrow> fsys \<Rightarrow> (byte list \<times> fsys) option" where
  "read_all fp [] s = Some ([], s)"
| "read_all fp (n # ns) s = do {
     (k, buf, s1) \<leftarrow> file_read fp (replicate n 0) n s;
     (rest, s2) \<leftarrow> read_all fp ns s1;
     Some (take k buf @ rest, s2) }"

text \<open>C27. A file is a stream. However the reads are divided, successive calls of \<^const>\<open>file_read\<close> deliver
  the bytes of the file from the current position on, without gap or repetition, up to the end of
  the file; the position ends after the last byte delivered, and no file changes.\<close>

theorem file_read_stream:
  assumes "fs_ok (fs s)" and "get_file fp s = Some f" and "inodes (fs s) (f_inode f) = Some ino"
  shows "\<exists>s'. read_all fp ns s = Some (take (sum_list ns) (drop (f_pos f) (shown (fs s) (f_inode f))), s')
     \<and> file_tell fp s' = Some (f_pos f + min (sum_list ns) (length_shown ino - f_pos f))
     \<and> fs_ok (fs s') \<and> (\<forall>jp. shown (fs s') jp = shown (fs s) jp)"
  using assms
proof (induction ns arbitrary: s f)
  case Nil
  then show ?case by (simp add: file_tell_def)
next
  case (Cons n ns)
  define m where "m = min n (length_shown ino - f_pos f)"
  define bs where "bs = shown (fs s) (f_inode f)"
  from file_read_ok [OF Cons.prems, of n "replicate n 0"] obtain s1 where
    s1: "file_read fp (replicate n 0) n s = Some (m, take m (drop (f_pos f) bs) @ drop m (replicate n 0), s1)"
    "fs_ok (fs s1)" "get_file fp s1 = Some (f\<lparr>f_pos := f_pos f + m\<rparr>)" "inodes (fs s1) = inodes (fs s)"
    "\<forall>jp. shown (fs s1) jp = shown (fs s) jp" by (auto simp: m_def bs_def)
  have in1: "inodes (fs s1) (f_inode (f\<lparr>f_pos := f_pos f + m\<rparr>)) = Some ino" using Cons.prems(3) s1(4) by simp
  from Cons.IH [OF s1(2,3) in1] s1(5) obtain s2 where
    s2: "read_all fp ns s1 = Some (take (sum_list ns) (drop (f_pos f + m) bs), s2)"
    "file_tell fp s2 = Some (f_pos f + m + min (sum_list ns) (length_shown ino - (f_pos f + m)))"
    "fs_ok (fs s2)" "\<forall>jp. shown (fs s2) jp = shown (fs s) jp" by (auto simp: bs_def)
  have len: "length bs = length_shown ino" using shown_length [OF Cons.prems(1,3)] by (simp add: bs_def)
  have t1: "take m (take m (drop (f_pos f) bs) @ drop m (replicate n 0)) = take m (drop (f_pos f) bs)"
    using len by (simp add: m_def)
  have t2: "take m (drop (f_pos f) bs) @ take (sum_list ns) (drop (f_pos f + m) bs) = take (n + sum_list ns) (drop (f_pos f) bs)"
  proof (cases "n \<le> length_shown ino - f_pos f")
    case True
    then show ?thesis by (simp add: m_def take_add add.commute)
  next
    case False
    then have "drop (f_pos f + m) bs = []" "length (drop (f_pos f) bs) \<le> m" "m \<le> n" using len by (auto simp: m_def)
    then show ?thesis by simp
  qed
  have t3: "f_pos f + m + min (sum_list ns) (length_shown ino - (f_pos f + m))
      = f_pos f + min (n + sum_list ns) (length_shown ino - f_pos f)" by (auto simp: m_def)
  have "read_all fp (n # ns) s = Some (take (sum_list (n # ns)) (drop (f_pos f) bs), s2)"
    by (simp only: read_all.simps s1(1) s2(1) Option.bind.bind_lunit prod.case t1 t2 sum_list.Cons)
  with s2(2-4) t3 show ?case by (auto simp: bs_def)
qed

definition demo_fsys :: fsys where
  "demo_fsys = \<lparr>fs = demo_fs, handles = [5 \<mapsto> Open_File \<lparr>f_inode = 0, f_pos = 511, deny_write = False\<rparr>], next_handle = 6\<rparr>"

lemma demo_fsys: "fs_ok (fs demo_fsys)" "get_file 5 demo_fsys = Some \<lparr>f_inode = 0, f_pos = 511, deny_write = False\<rparr>"
  "inodes (fs demo_fsys) 0 = Some demo_inode" "shown (fs demo_fsys) 0 = replicate 512 1 @ replicate 88 2"
proof -
  show "fs_ok (fs demo_fsys)"
    using demo_wf demo_state(2) by (auto simp: fs_ok_def demo_fsys_def demo_fs_def split: if_splits)
  show "shown (fs demo_fsys) 0 = replicate 512 1 @ replicate 88 2"
    using demo_contents demo_state(1) by (simp add: shown_def demo_fsys_def demo_inode_def)
qed (simp_all add: get_file_def demo_fsys_def demo_state)

theorem file_read_stream_witness:
  "\<exists>s'. read_all 5 [1, 1] demo_fsys = Some ([1, 2], s') \<and> file_tell 5 s' = Some 513"
proof -
  have "take 2 (drop 511 (shown (fs demo_fsys) 0)) = [1, 2]" by (simp add: demo_fsys(4) numeral_2_eq_2)
  then show ?thesis
    using file_read_stream [OF demo_fsys(1,2), of demo_inode "[1, 1]"] demo_fsys(3)
    by (auto simp: demo_inode_def numeral_2_eq_2)
qed

text \<open>C28. What is written is read back. A write inside a file reports all its bytes; after seeking back, a
  read returns exactly them; every other file shows what it showed.\<close>

theorem file_write_read:
  assumes "fs_ok (fs s)" and "get_file fp s = Some f" and "inodes (fs s) (f_inode f) = Some ino"
    and "writable ino" and "is_dir ino = 0" and "f_pos f + length bs \<le> length_shown ino"
  shows "\<exists>s1 s2 s3. file_write fp bs (length bs) s = Some (int (length bs), s1)
     \<and> file_seek fp (int (f_pos f)) s1 = Some s2
     \<and> file_read fp (replicate (length bs) 0) (length bs) s2 = Some (length bs, bs, s3)
     \<and> (\<forall>jp. jp \<noteq> f_inode f \<longrightarrow> shown (fs s3) jp = shown (fs s) jp)"
proof -
  let ?n = "length bs"
  have wf: "inode_wf (fs s) ino" using assms(1,3) by (auto simp: fs_ok_def)
  then have le: "f_pos f + ?n \<le> i_length ino" "length_shown ino \<le> i_length ino" using assms(6) by (auto simp: inode_wf_def)
  define ino' where "ino' = ino\<lparr>length_shown := min (i_length ino) (length_shown ino + ?n)\<rparr>"
  from write_at_ok [OF assms(1,3,4) refl le(1), folded ino'_def, of 1] obtain c where
    c: "inode_write_at write_depth (f_inode f) bs ?n (f_pos f) (fs s) = Some (?n, set_inode (f_inode f) ino' ((fs s)\<lparr>cache := c\<rparr>))"
    "fs_ok (set_inode (f_inode f) ino' ((fs s)\<lparr>cache := c\<rparr>))"
    "contents (set_inode (f_inode f) ino' ((fs s)\<lparr>cache := c\<rparr>)) ino' = overwrite (f_pos f) bs (contents (fs s) ino)"
    "\<forall>jp. jp \<noteq> f_inode f \<longrightarrow> shown (set_inode (f_inode f) ino' ((fs s)\<lparr>cache := c\<rparr>)) jp = shown (fs s) jp"
    by (auto simp: write_depth_def numeral_2_eq_2)
  define s1 where "s1 = set_file fp (f\<lparr>f_pos := f_pos f + ?n\<rparr>) (s\<lparr>fs := set_inode (f_inode f) ino' ((fs s)\<lparr>cache := c\<rparr>)\<rparr>)"
  have r1: "file_write fp bs ?n s = Some (int ?n, s1)"
    using assms(2,3,5) c(1) by (simp add: file_write_def inode_is_dir_def s1_def)
  define s2 where "s2 = set_file fp f s1"
  have "f\<lparr>f_pos := f_pos f\<rparr> = f" by simp
  then have r2: "file_seek fp (int (f_pos f)) s1 = Some s2" by (simp add: file_seek_def s1_def s2_def)
  have fs2: "fs s2 = set_inode (f_inode f) ino' ((fs s)\<lparr>cache := c\<rparr>)" by (simp add: s2_def s1_def)
  have ok2: "fs_ok (fs s2)" "get_file fp s2 = Some f" "inodes (fs s2) (f_inode f) = Some ino'" using c(2) fs2 by (simp, simp add: s2_def, simp)
  from file_read_ok [OF ok2, of ?n "replicate ?n 0"] obtain s3 where
    r3: "file_read fp (replicate ?n 0) ?n s2 = Some (?n, take ?n (drop (f_pos f) (shown (fs s2) (f_inode f))), s3)"
    "\<forall>jp. shown (fs s3) jp = shown (fs s2) jp" using assms(6) le by (auto simp: ino'_def)
  have "take ?n (drop (f_pos f) (shown (fs s2) (f_inode f))) = bs"
    using ok2(3) c(3) le assms(6) by (simp add: shown_def fs2 ino'_def drop_take overwrite_def)
  with r1 r2 r3 c(4) fs2 show ?thesis by auto
qed

theorem file_write_read_witness:
  "\<exists>s1 s2 s3. file_write 5 [7, 8] 2 demo_fsys = Some (2, s1) \<and> file_seek 5 511 s1 = Some s2
     \<and> file_read 5 [0, 0] 2 s2 = Some (2, [7, 8], s3)"
  using file_write_read [OF demo_fsys(1,2), of demo_inode "[7, 8]"] demo_fsys(3) demo_state(3)
  by (auto simp: demo_inode_def numeral_2_eq_2)



end
