(* ===== verification/Grow.thy ===== *)
theory Grow
  imports File
begin

text \<open>
  Growing files. This theory shows that the growth of \<^verbatim>\<open>filesys/inode.c\<close> (\<open>inode_grow\<close> with the free
  map of \<^verbatim>\<open>filesys/free-map.c\<close> as its allocator) is right for files of up to 1284 sectors, the range of
  the direct and the indirect pointers: the sectors it adds are fresh, the file keeps its bytes, and
  no other file is touched. While \<open>inode_grow\<close> runs, the inode in memory still has its old length; the
  lemmas therefore speak of the state in which the inode has the length its sectors already allow.

  The allocator interface is a locale: the laws say that an allocation returns a sector that was
  free and disturbs no file. The free map is its interpretation.
\<close>

section \<open>Sectors in use\<close>

definition used_sectors :: "fs_state \<Rightarrow> disk_sector_t set" where
  "used_sectors s = {x. unat x < bit_cnt (free_map s) \<and> bit_at (free_map s) (unat x)}"

definition free_sectors :: "fs_state \<Rightarrow> disk_sector_t set" where
  "free_sectors s = {x. unat x < bit_cnt (free_map s) \<and> \<not> bit_at (free_map s) (unat x)}"

text \<open>The sectors that the file of the free map occupies.\<close>

definition map_data :: "fs_state \<Rightarrow> disk_sector_t set" where
  "map_data s = (case free_map_file s of None \<Rightarrow> {}
     | Some fp \<Rightarrow> (case inodes s fp of None \<Rightarrow> {} | Some ino \<Rightarrow> all_data (fs_disk s) ino))"

definition map_file_ok :: "fs_state \<Rightarrow> bool" where
  "map_file_ok s \<longleftrightarrow> (\<forall>fp. free_map_file s = Some fp \<longrightarrow>
     (\<exists>ino. inodes s fp = Some ino \<and> writable ino \<and> byte_cnt (bit_cnt (free_map s)) \<le> i_length ino))"

text \<open>The invariant of the allocator: the free map covers the disk, every sector of an open file and
  every cached sector is marked as used, and the file of the free map is large enough.\<close>

definition alloc_inv :: "fs_state \<Rightarrow> bool" where
  "alloc_inv s \<longleftrightarrow> fs_ok s \<and> bitmap_wf (free_map s) \<and> bit_cnt (free_map s) = unat (capacity (fs_disk s))
     \<and> unat (capacity (fs_disk s)) \<le> 268435456 \<and> cached (cache s) \<subseteq> used_sectors s
     \<and> (\<forall>ip ino. inodes s ip = Some ino \<longrightarrow> own_sectors s ino \<subseteq> used_sectors s) \<and> map_file_ok s"

text \<open>The fields of an inode that no write changes.\<close>

definition same_id :: "inode \<Rightarrow> inode \<Rightarrow> bool" where
  "same_id ino ino' \<longleftrightarrow> is_dir ino' = is_dir ino \<and> i_lock ino' = i_lock ino \<and> i_sector ino' = i_sector ino \<and> open_cnt ino' = open_cnt ino
     \<and> removed ino' = removed ino \<and> deny_write_cnt ino' = deny_write_cnt ino \<and> parent ino' = parent ino"

definition same_ids :: "inode option \<Rightarrow> inode option \<Rightarrow> bool" where
  "same_ids a b \<longleftrightarrow> (case a of None \<Rightarrow> b = None | Some i \<Rightarrow> \<exists>j. b = Some j \<and> same_id i j)"

lemma same_ids_refl [simp]: "same_ids a a"
  by (cases a) (simp_all add: same_ids_def same_id_def)

lemma same_ids_trans: "same_ids a b \<Longrightarrow> same_ids b c \<Longrightarrow> same_ids a c"
  by (cases a; cases b) (auto simp: same_ids_def same_id_def)

text \<open>What a step for the file \<open>ip\<close> leaves alone.\<close>

definition apart :: "nat \<Rightarrow> fs_state \<Rightarrow> fs_state \<Rightarrow> bool" where
  "apart ip s s' \<longleftrightarrow> free_map_file s' = free_map_file s \<and> open_inodes s' = open_inodes s \<and> next_inode s' = next_inode s
     \<and> uninit s' = uninit s \<and> capacity (fs_disk s') = capacity (fs_disk s) \<and> bit_cnt (free_map s') = bit_cnt (free_map s)
     \<and> (\<forall>jp. jp \<noteq> ip \<longrightarrow> same_ids (inodes s jp) (inodes s' jp))
     \<and> (\<forall>jp. jp \<noteq> ip \<longrightarrow> free_map_file s \<noteq> Some jp \<longrightarrow> inodes s' jp = inodes s jp \<and> shown s' jp = shown s jp)"

lemma apart_refl [simp]: "apart ip s s"
  by (simp add: apart_def)

lemma apart_trans: "apart ip s s' \<Longrightarrow> apart ip s' s'' \<Longrightarrow> apart ip s s''"
  unfolding apart_def using same_ids_trans by (metis (no_types, lifting))

lemma apart_open_ok:
  assumes "apart ip s s'" and "same_ids (inodes s ip) (inodes s' ip)" and "open_ok s"
  shows "open_ok s'"
proof -
  have i: "same_ids (inodes s jp) (inodes s' jp)" for jp using assms(1,2) by (cases "jp = ip") (auto simp: apart_def)
  have up: "\<exists>j'. inodes s' jp = Some j' \<and> i_sector j' = i_sector j \<and> open_cnt j' = open_cnt j" if "inodes s jp = Some j" for jp j
    using i [of jp] that by (auto simp: same_ids_def same_id_def)
  have dn: "inodes s' jp \<noteq> None \<longleftrightarrow> inodes s jp \<noteq> None" for jp using i [of jp] by (auto simp: same_ids_def split: option.splits)
  have o: "open_inodes s' = open_inodes s" "next_inode s' = next_inode s" using assms(1) by (simp_all add: apart_def)
  have "jp = kp" if "jp \<in> set (open_inodes s)" "kp \<in> set (open_inodes s)" "inodes s' jp = Some j'" "inodes s' kp = Some k'" "i_sector j' = i_sector k'" for jp kp j' k'
  proof -
    from that assms(3) obtain j k where "inodes s jp = Some j" "inodes s kp = Some k" by (meson open_ok_alive)
    moreover from this have "i_sector j' = i_sector j" "i_sector k' = i_sector k" using up [of jp j] up [of kp k] that(3,4) by auto
    ultimately show ?thesis using open_ok_unique [OF assms(3) that(1,2)] that(5) by simp
  qed
  moreover have "\<exists>j. inodes s' jp = Some j \<and> open_cnt j > 0" if "jp \<in> set (open_inodes s)" for jp
    using assms(3) that up unfolding open_ok_def by metis
  ultimately show ?thesis using assms(3) dn unfolding open_ok_def o by auto
qed

lemma used_set_inode [simp]:
  "used_sectors (set_inode ip ino s) = used_sectors s" "free_sectors (set_inode ip ino s) = free_sectors s"
  by (simp_all add: used_sectors_def free_sectors_def)

lemma own_set_inode [simp]: "own_sectors (set_inode ip ino s) = own_sectors s" "inode_wf (set_inode ip ino s) = inode_wf s"
  "contents (set_inode ip ino s) = contents s"
  by (simp_all add: own_sectors_def inode_wf_def contents_def file_byte_def fun_eq_iff)

lemma fs_ok_wf: "fs_ok s \<Longrightarrow> inodes s ip = Some ino \<Longrightarrow> inode_wf s ino"
  by (auto simp: fs_ok_def)

lemma fs_ok_disjoint:
  "fs_ok s \<Longrightarrow> inodes s ip = Some ino \<Longrightarrow> inodes s jp = Some jno \<Longrightarrow> ip \<noteq> jp \<Longrightarrow> own_sectors s ino \<inter> own_sectors s jno = {}"
  unfolding fs_ok_def by blast

lemma length_map_bytes: "bitmap_wf b \<Longrightarrow> length (words_bytes (bits b)) = byte_cnt (bit_cnt b)"
proof -
  assume wf: "bitmap_wf b"
  then have "length (bits b) = (bit_cnt b + 31) div 32" "bit_cnt b < 4294967296" by (auto simp: bitmap_wf_def elem_cnt_eq)
  then have "4 * length (bits b) < 4294967296" by simp
  with wf show ?thesis by (simp add: byte_cnt_def bitmap_wf_def usz_id)
qed

text \<open>A sector past the cache.\<close>

lemma fs_write_spec:
  assumes "cache_inv (cache s)" and "valid_sector (fs_disk s) x" and "x \<notin> cached (cache s)" and "length bs = DISK_SECTOR_SIZE"
  shows "\<exists>d. fs_write_sector x bs s = Some (set_disk d s) \<and> cache_inv (cache (set_disk d s)) \<and> fs_step {x} s (set_disk d s)
     \<and> cview (cache (set_disk d s)) x = bs \<and> cached (cache (set_disk d s)) = cached (cache s)
     \<and> (\<forall>y. y \<noteq> x \<longrightarrow> sector_at d y = sector_at (fs_disk s) y) \<and> sector_at d x = bs \<and> capacity d = capacity (fs_disk s)"
proof -
  have wf: "disk_wf (fs_disk s)" by (rule cache_inv_disk [OF assms(1)])
  define d where "d = (fs_disk s)\<lparr>media := (media (fs_disk s))[unat x := bs], write_cnt := Suc (write_cnt (fs_disk s))\<rparr>"
  have w: "fs_write_sector x bs s = Some (set_disk d s)"
    using disk_write_spec [OF wf assms(2,4)] by (simp add: fs_write_sector_def d_def)
  have sa: "sector_at d y = (if y = x then bs else sector_at (fs_disk s) y)" for y
    using sector_at_media [OF wf assms(2), of bs y] by (simp add: d_def sector_at_def)
  have cap: "capacity d = capacity (fs_disk s)" "disk_wf d" using disk_wf_media [OF wf assms(4)] by (simp_all add: d_def)
  have c: "cached (cache (set_disk d s)) = cached (cache s)" by (simp add: cached_def set_disk_def)
  have ent: "entry_ok d e" if "e \<in> set (buffer_cache_list (cache s))" for e
  proof -
    have "bc_sector e \<noteq> x" using that assms(3) by (auto simp: cached_def)
    moreover have "entry_ok (fs_disk s) e" using assms(1) that by (auto simp: cache_inv_def cache_core_def fs_disk_def)
    ultimately show ?thesis using sa cap(1) by (auto simp: entry_ok_def valid_sector_def)
  qed
  have inv: "cache_inv (cache (set_disk d s))"
    using assms(1) ent cap by (auto simp: cache_inv_def cache_core_def set_disk_def)
  have cv: "cview (cache (set_disk d s)) y = (if y = x then bs else cview (cache s) y)" for y
  proof (cases "y \<in> cached (cache s)")
    case True
    then have "y \<noteq> x" "find_cache y (buffer_cache_list (cache s)) \<noteq> None"
      using assms(3) by (auto simp: find_cache_None_iff cached_def)
    then show ?thesis by (auto simp: cview_def set_disk_def entry_def)
  next
    case False
    then show ?thesis using c sa by (simp add: cview_uncached) (simp add: set_disk_def fs_disk_def)
  qed
  show ?thesis using w inv cv c sa cap(1) by (auto simp: fs_step_def)
qed

lemma fs_ok_frame:
  assumes ok: "fs_ok s" and same: "inodes s' = inodes s" and c: "cache_inv (cache s')" and step: "fs_step X s s'"
    and idx': "\<forall>ip ino. inodes s ip = Some ino \<longrightarrow> all_index (fs_disk s) ino \<inter> X = {}"
  shows "fs_ok s'" and "\<And>ip ino. inodes s ip = Some ino \<Longrightarrow> own_sectors s' ino = own_sectors s ino"
    and "\<And>ip ino. inodes s ip = Some ino \<Longrightarrow> all_data (fs_disk s) ino \<inter> X = {} \<Longrightarrow> contents s' ino = contents s ino"
    and "\<And>ip ino. inodes s ip = Some ino \<Longrightarrow> all_data (fs_disk s') ino = all_data (fs_disk s) ino"
proof -
  have idx: "\<And>ip ino. inodes s ip = Some ino \<Longrightarrow> all_index (fs_disk s) ino \<inter> X = {}" using idx' by blast
  note b = fs_step_blocks [OF step fs_ok_wf [OF ok] idx]
  show own: "\<And>ip ino. inodes s ip = Some ino \<Longrightarrow> own_sectors s' ino = own_sectors s ino"
    using b(2,3) by (simp add: own_sectors_def)
  show "\<And>ip ino. inodes s ip = Some ino \<Longrightarrow> all_data (fs_disk s') ino = all_data (fs_disk s) ino" using b(2) by blast
  show "fs_ok s'" using ok c own b(4) same unfolding fs_ok_def by auto
  fix ip ino assume "inodes s ip = Some ino" "all_data (fs_disk s) ino \<inter> X = {}"
  then show "contents s' ino = contents s ino" using fs_step_contents [OF step fs_ok_wf [OF ok] idx] by blast
qed

lemma apart_I:
  assumes ok: "fs_ok (set_inode ip jno s)" and c: "cache_inv (cache s')" and step: "fs_step X s s'"
    and same: "\<And>jp. jp \<noteq> ip \<Longrightarrow> free_map_file s \<noteq> Some jp \<Longrightarrow> inodes s' jp = inodes s jp"
    and X: "\<And>jp ino. jp \<noteq> ip \<Longrightarrow> free_map_file s \<noteq> Some jp \<Longrightarrow> inodes s jp = Some ino \<Longrightarrow> own_sectors s ino \<inter> X = {}"
    and rest: "free_map_file s' = free_map_file s" "open_inodes s' = open_inodes s" "next_inode s' = next_inode s"
      "uninit s' = uninit s" "bit_cnt (free_map s') = bit_cnt (free_map s)" "\<And>jp. same_ids (inodes s jp) (inodes s' jp)"
  shows "apart ip s s'"
proof -
  have "shown s' jp = shown s jp" if jp: "jp \<noteq> ip" "free_map_file s \<noteq> Some jp" for jp
  proof (cases "inodes s jp")
    case None
    then show ?thesis using same [OF jp] by (simp add: shown_def)
  next
    case (Some ino)
    have "inode_wf s ino" using fs_ok_wf [OF ok, of jp ino] Some jp by simp
    then have "contents s' ino = contents s ino"
      using X [OF jp Some] by (intro fs_step_contents [OF step]) (auto simp: own_sectors_def)
    then show ?thesis using same [OF jp] Some by (simp add: shown_def)
  qed
  moreover have "capacity (fs_disk s') = capacity (fs_disk s)" using step by (simp add: fs_step_def)
  ultimately show ?thesis using same rest by (auto simp: apart_def)
qed

text \<open>Files keep their sectors.\<close>

definition same_owners :: "fs_state \<Rightarrow> fs_state \<Rightarrow> bool" where
  "same_owners s s' \<longleftrightarrow> (\<forall>jp j'. inodes s' jp = Some j' \<longrightarrow> (\<exists>j. inodes s jp = Some j \<and> own_sectors s' j' = own_sectors s j))"

lemma same_owners_refl [simp]: "same_owners s s"
  by (simp add: same_owners_def)

lemma same_owners_trans: "same_owners s s' \<Longrightarrow> same_owners s' s'' \<Longrightarrow> same_owners s s''"
  unfolding same_owners_def by metis

section \<open>The free map as an allocator\<close>

lemma used_flip:
  assumes wf: "bitmap_wf b" and b: "bit_cnt b = bit_cnt (free_map s)" "r < bit_cnt b"
    and f: "\<forall>j. bit_at b j = (if r \<le> j \<and> j < r + 1 then \<not> False else bit_at (free_map s) j)"
  shows "used_sectors (s\<lparr>free_map := b\<rparr>) = insert (of_nat r) (used_sectors s)" "unat (of_nat r :: u32) = r"
    "free_sectors (s\<lparr>free_map := b\<rparr>) = free_sectors s - {of_nat r}"
proof -
  have "r < 2 ^ 32" using wf b by (simp add: bitmap_wf_def)
  then show u: "unat (of_nat r :: u32) = r" by (simp add: unsigned_of_nat take_bit_nat_eq_self)
  have e: "x = of_nat r \<longleftrightarrow> unat x = r" for x :: u32 using u by (auto simp: word_unat_eq_iff)
  show "used_sectors (s\<lparr>free_map := b\<rparr>) = insert (of_nat r) (used_sectors s)"
    using f b by (auto simp: used_sectors_def e u)
  show "free_sectors (s\<lparr>free_map := b\<rparr>) = free_sectors s - {of_nat r}"
    using f b by (auto simp: free_sectors_def e u)
qed

lemma bitmap_write_ok:
  fixes depth :: nat
  assumes inv: "fs_ok (set_inode ip jno s)" and nf: "fp \<noteq> ip"
    and fp: "inodes s fp = Some fno" "writable fno" "byte_cnt (bit_cnt (free_map s)) \<le> i_length fno" and wf: "bitmap_wf (free_map s)"
  defines "fno' \<equiv> fno\<lparr>length_shown := min (i_length fno) (length_shown fno + byte_cnt (bit_cnt (free_map s)))\<rparr>"
  shows "\<exists>c. bitmap_write (inode_write_at (Suc depth)) (free_map s) fp s = Some (True, set_inode fp fno' (s\<lparr>cache := c\<rparr>))
     \<and> cache_inv c \<and> fs_step (all_data (fs_disk s) fno) s (s\<lparr>cache := c\<rparr>)"
proof -
  have fw: "inode_wf s fno" using fs_ok_wf [OF inv, of fp fno] fp(1) nf by simp
  have ci: "cache_inv (cache s)" using inv by (simp add: fs_ok_def)
  have len: "length (words_bytes (bits (free_map s))) = byte_cnt (bit_cnt (free_map s))" by (rule length_map_bytes [OF wf])
  from inode_write_at_inside [OF fp(1) fw ci fp(2), of "byte_cnt (bit_cnt (free_map s))" "words_bytes (bits (free_map s))" 0 depth]
  show ?thesis using fp(3) len by (auto simp: bitmap_write_def fno'_def)
qed

lemma file_byte_free_map [simp]: "file_byte (s\<lparr>free_map := b\<rparr>) ino = file_byte s ino"
  by (simp add: file_byte_def fs_disk_def fun_eq_iff)

lemma set_inode_free_map: "set_inode ip jno (s\<lparr>free_map := b\<rparr>) = (set_inode ip jno s)\<lparr>free_map := b\<rparr>"
  by (simp add: set_inode_def)

lemma free_map_irrelevant [simp]:
  "fs_ok (s\<lparr>free_map := b\<rparr>) = fs_ok s" "own_sectors (s\<lparr>free_map := b\<rparr>) = own_sectors s" "fs_disk (s\<lparr>free_map := b\<rparr>) = fs_disk s"
  "contents (s\<lparr>free_map := b\<rparr>) = contents s" "fs_step X (s\<lparr>free_map := b\<rparr>) s' = fs_step X s s'"
  "fs_step X s (s'\<lparr>free_map := b\<rparr>) = fs_step X s s'" "shown (s\<lparr>free_map := b\<rparr>) = shown s"
  by (auto simp: fs_ok_def own_sectors_def fs_disk_def inode_wf_def contents_def file_byte_def fs_step_def shown_def fun_eq_iff
      split: option.splits)

lemma inode_irrelevant [simp]:
  "fs_step X (set_inode ip ino s) s' = fs_step X s s'" "fs_step X s (set_inode ip ino s') = fs_step X s s'"
  by (simp_all add: fs_step_def)

lemma same_sectors:
  assumes "ptrs ino' = ptrs ino" and "i_length ino' = i_length ino"
  shows "own_sectors s ino' = own_sectors s ino" "contents s ino' = contents s ino"
    "length_shown ino' \<le> i_length ino' \<Longrightarrow> inode_wf s ino \<Longrightarrow> inode_wf s ino'" "all_data d ino' = all_data d ino" "all_index d ino' = all_index d ino"
proof -
  show d: "all_data d ino' = all_data d ino" "all_index d ino' = all_index d ino" for d
    using assms by (simp_all add: all_data_def all_index_def)
  then show "own_sectors s ino' = own_sectors s ino" by (simp add: own_sectors_def)
  show "contents s ino' = contents s ino" using assms by (simp add: contents_def file_byte_def)
  show "length_shown ino' \<le> i_length ino' \<Longrightarrow> inode_wf s ino \<Longrightarrow> inode_wf s ino'"
    using assms d by (simp add: inode_wf_def)
qed

lemma fs_ok_replace:
  assumes ok: "fs_ok s" and ip: "inodes s ip = Some ino" and same: "ptrs ino' = ptrs ino" "i_length ino' = i_length ino"
    and sh: "length_shown ino' \<le> i_length ino'"
  shows "fs_ok (set_inode ip ino' s)"
proof -
  note ss = same_sectors [OF same]
  have wf: "inode_wf s ino'" by (rule ss(3) [OF sh fs_ok_wf [OF ok ip]])
  have "\<exists>j0. inodes s jp = Some j0 \<and> own_sectors s j = own_sectors s j0 \<and> inode_wf s j" if "inodes (set_inode ip ino' s) jp = Some j" for jp j
    using that ip ss(1) wf fs_ok_wf [OF ok] by (cases "jp = ip") auto
  then have *: "\<And>jp j. inodes (set_inode ip ino' s) jp = Some j \<Longrightarrow> \<exists>j0. inodes s jp = Some j0 \<and> own_sectors s j = own_sectors s j0 \<and> inode_wf s j" by blast
  show ?thesis
  proof (unfold fs_ok_def, intro conjI allI impI)
    show "cache_inv (cache (set_inode ip ino' s))" using ok by (simp add: fs_ok_def)
  next
    fix jp j assume "inodes (set_inode ip ino' s) jp = Some j"
    from * [OF this] show "inode_wf (set_inode ip ino' s) j" by auto
  next
    fix jp j kp k assume "inodes (set_inode ip ino' s) jp = Some j" "inodes (set_inode ip ino' s) kp = Some k" "jp \<noteq> kp"
    with * obtain j0 k0 where "inodes s jp = Some j0" "own_sectors s j = own_sectors s j0"
      "inodes s kp = Some k0" "own_sectors s k = own_sectors s k0" by metis
    with fs_ok_disjoint [OF ok] \<open>jp \<noteq> kp\<close> show "own_sectors (set_inode ip ino' s) j \<inter> own_sectors (set_inode ip ino' s) k = {}" by simp
  qed
qed

text \<open>The state after an allocation: the bit is set, and the file of the free map was written.\<close>

lemma alloc_done:
  assumes inv: "alloc_inv (set_inode ip jno s)" and nf: "free_map_file s \<noteq> Some ip"
    and b: "bitmap_wf b" "bit_cnt b = bit_cnt (free_map s)" "r < bit_cnt b"
      "\<forall>j. bit_at b j = (if r \<le> j \<and> j < r + 1 then \<not> False else bit_at (free_map s) j)" "\<not> bit_at (free_map s) r"
    and fp: "free_map_file s = Some fp" "inodes s fp = Some fno" "n \<le> i_length fno"
    and c: "cache_inv c" "fs_step (all_data (fs_disk s) fno) s (s\<lparr>cache := c\<rparr>)"
  defines "s' \<equiv> set_inode fp (fno\<lparr>length_shown := n\<rparr>) (s\<lparr>free_map := b, cache := c\<rparr>)"
  shows "alloc_inv (set_inode ip jno s') \<and> apart ip s s' \<and> map_data s' = map_data s \<and> contents s' jno = contents s jno
     \<and> same_owners (set_inode ip jno s) (set_inode ip jno s')"
proof -
  define v where "v = set_inode ip jno s"
  have ok: "fs_ok v" and pf: "fp \<noteq> ip" using inv fp(1) nf by (auto simp: alloc_inv_def v_def)
  have fv: "inodes v fp = Some fno" using fp(2) pf by (simp add: v_def)
  have vd: "fs_disk v = fs_disk s" by (simp add: v_def)
  have cv: "fs_step (all_data (fs_disk v) fno) v (v\<lparr>cache := c\<rparr>)" using c(2) by (simp add: v_def fs_step_def)
  note st = fs_ok_step [OF ok fv c(1) cv]
  have ms: "map_data s = all_data (fs_disk s) fno" using fp by (simp add: map_data_def)
  have "fs_disk (v\<lparr>cache := c\<rparr>) = fs_disk s'" by (simp add: s'_def)
  have w': "set_inode ip jno s' = (set_inode fp (fno\<lparr>length_shown := n\<rparr>) (v\<lparr>cache := c\<rparr>))\<lparr>free_map := b\<rparr>"
    using pf by (simp add: s'_def v_def set_inode_def fun_upd_twist)
  have own: "own_sectors s' j = own_sectors (v\<lparr>cache := c\<rparr>) j" "contents s' j = contents (v\<lparr>cache := c\<rparr>) j" for j
    by (simp_all add: s'_def own_sectors_def contents_def file_byte_def)
  have fsok: "fs_ok (set_inode ip jno s')"
    unfolding w' free_map_irrelevant by (rule fs_ok_replace [OF st(1)]) (use fv fp(3) in auto)
  have us: "used_sectors (set_inode ip jno s') = insert (of_nat r) (used_sectors s)"
    using used_flip(1) [OF b(1-4)] by (simp add: s'_def used_sectors_def)
  have old: "own_sectors v j \<subseteq> used_sectors s" if "inodes v jp = Some j" for jp j
    using inv that unfolding alloc_inv_def v_def by auto
  have so: "same_owners v (set_inode ip jno s')"
    unfolding same_owners_def
  proof (intro allI impI)
    fix jp j assume that: "inodes (set_inode ip jno s') jp = Some j"
    show "\<exists>j0. inodes v jp = Some j0 \<and> own_sectors (set_inode ip jno s') j = own_sectors v j0"
    proof (cases "jp = fp")
      case True
      then have "j = fno\<lparr>length_shown := n\<rparr>" using that pf by (simp add: s'_def)
      then have "own_sectors s' j = own_sectors v fno" using same_sectors(1) [of j fno] st(2) [OF fv] by (simp add: own)
      then show ?thesis using fv True by simp
    next
      case False
      then have j: "inodes v jp = Some j" using that pf by (auto simp: s'_def v_def split: if_splits)
      then show ?thesis using st(2) [OF j] by (simp add: own)
    qed
  qed
  then have "\<forall>jp j. inodes (set_inode ip jno s') jp = Some j \<longrightarrow> own_sectors s' j \<subseteq> used_sectors (set_inode ip jno s')"
    using old us unfolding same_owners_def by fastforce
  moreover have "cached (cache s') \<subseteq> insert (of_nat r) (used_sectors s)"
  proof -
    have "all_data (fs_disk v) fno \<subseteq> used_sectors s" using old [OF fv] by (simp add: own_sectors_def)
    moreover have "cached c \<subseteq> all_data (fs_disk v) fno \<union> cached (cache s)" using cv by (simp add: fs_step_def v_def)
    moreover have "cached (cache s) \<subseteq> used_sectors s" using inv by (simp add: alloc_inv_def)
    ultimately show ?thesis by (auto simp: s'_def)
  qed
  moreover have "map_file_ok (set_inode ip jno s')"
    using inv fp pf b(2) unfolding alloc_inv_def map_file_ok_def by (auto simp: s'_def writable_def)
  moreover have cap: "capacity (fs_disk s') = capacity (fs_disk s)" using c(2) by (simp add: s'_def fs_step_def)
  ultimately have "alloc_inv (set_inode ip jno s')"
    using fsok inv b(1,2) unfolding alloc_inv_def us by (auto simp: s'_def)
  moreover have "apart ip s s'"
  proof (rule apart_I [where X = "all_data (fs_disk s) fno" and jno = jno])
    show "fs_ok (set_inode ip jno s)" using ok by (simp add: v_def)
    show "fs_step (all_data (fs_disk s) fno) s s'" using c(2) by (simp add: s'_def fs_step_def)
    fix jp ino assume jp: "jp \<noteq> ip" "free_map_file s \<noteq> Some jp" "inodes s jp = Some ino"
    then have "own_sectors v fno \<inter> own_sectors v ino = {}"
      using fs_ok_disjoint [OF ok fv, of jp ino] fp(1) by (auto simp: v_def)
    then show "own_sectors s ino \<inter> all_data (fs_disk s) fno = {}" by (auto simp: own_sectors_def v_def)
  next
    show "same_ids (inodes s kp) (inodes s' kp)" for kp using fp(2) by (simp add: s'_def) (simp add: same_ids_def same_id_def)
  qed (use c(1) fp(1) b(2) in \<open>auto simp: s'_def set_inode_def\<close>)
  moreover have "map_data s' = map_data s"
  proof -
    have "all_data (fs_disk (v\<lparr>cache := c\<rparr>)) fno = all_data (fs_disk v) fno"
      using fs_step_blocks(2) [OF cv fs_ok_wf [OF ok fv]] fs_ok_wf [OF ok fv] by (auto simp: inode_wf_def)
    then show ?thesis using ms fp(1) vd by (simp add: map_data_def s'_def same_sectors(4) [of "fno\<lparr>length_shown := n\<rparr>" fno])
  qed
  moreover have "contents s' jno = contents s jno"
    using st(3) [of ip jno] pf by (simp add: own) (simp add: v_def)
  ultimately show ?thesis using so unfolding v_def by blast
qed

lemma alloc_inv_mark:
  assumes "alloc_inv s" and "bitmap_wf b" and "bit_cnt b = bit_cnt (free_map s)" and "used_sectors s \<subseteq> used_sectors (s\<lparr>free_map := b\<rparr>)"
  shows "alloc_inv (s\<lparr>free_map := b\<rparr>)"
proof -
  have "map_file_ok (s\<lparr>free_map := b\<rparr>)" using assms(1,3) by (auto simp: alloc_inv_def map_file_ok_def)
  then show ?thesis using assms unfolding alloc_inv_def by (auto 4 4)
qed

lemma alloc_spec:
  fixes depth :: nat
  assumes inv: "alloc_inv (set_inode ip jno s)" and nf: "free_map_file s \<noteq> Some ip" and fr: "free_sectors s \<noteq> {}"
  shows "\<exists>x s'. free_map_allocate_with (inode_write_at (Suc depth)) 1 s = Some (Some x, s') \<and> x \<in> free_sectors s
     \<and> used_sectors s' = insert x (used_sectors s) \<and> free_sectors s' = free_sectors s - {x}
     \<and> alloc_inv (set_inode ip jno s') \<and> inodes s' ip = inodes s ip \<and> apart ip s s' \<and> fs_step (map_data s) s s'
     \<and> map_data s' = map_data s \<and> contents s' jno = contents s jno \<and> same_owners (set_inode ip jno s) (set_inode ip jno s')
     \<and> cached (cache s') \<subseteq> map_data s \<union> cached (cache s)"
proof -
  have wf: "bitmap_wf (free_map s)" and ok: "fs_ok (set_inode ip jno s)" and mf: "map_file_ok (set_inode ip jno s)"
    using inv by (auto simp: alloc_inv_def)
  show ?thesis
  proof (rule bitmap_scan_and_flip_spec [OF wf le0, of 1 False])
    assume "no_run (free_map s) 1 False 0 (bit_cnt (free_map s))"
    then have "\<forall>i < bit_cnt (free_map s). bit_at (free_map s) i"
      by (fastforce simp: no_run_def bit_run_def Suc_le_eq less_Suc_eq)
    then show ?thesis using fr by (auto simp: free_sectors_def)
  next
    fix r b assume f: "bitmap_scan_and_flip (free_map s) 0 1 False = Some (r, b)" "r \<noteq> BITMAP_ERROR"
      "first_run (free_map s) 1 False 0 (bit_cnt (free_map s)) r" "bitmap_wf b" "bit_cnt b = bit_cnt (free_map s)"
      "\<forall>j. bit_at b j = (if r \<le> j \<and> j < r + 1 then \<not> False else bit_at (free_map s) j)"
    have r: "r < bit_cnt b" "\<not> bit_at (free_map s) r" using f(3,5) by (auto simp: first_run_def bit_run_def)
    note uf = used_flip [OF f(4,5) r(1) f(6)]
    define s1 where "s1 = s\<lparr>free_map := b\<rparr>"
    have x: "of_nat r \<in> free_sectors s" using r f(5) uf(2) by (simp add: free_sectors_def)
    show ?thesis
    proof (cases "free_map_file s")
      case None
      have "alloc_inv ((set_inode ip jno s)\<lparr>free_map := b\<rparr>)"
        by (rule alloc_inv_mark [OF inv f(4)]) (use f(5) uf(1) in \<open>auto simp: used_sectors_def\<close>)
      then have "alloc_inv (set_inode ip jno s1)" by (simp add: s1_def set_inode_free_map)
      moreover have "free_map_allocate_with (inode_write_at (Suc depth)) 1 s = Some (Some (of_nat r), s1)"
        using f(1,2) None by (simp add: free_map_allocate_with_def s1_def)
      moreover have "apart ip s s1" using f(5) by (simp add: apart_def s1_def)
      moreover have "map_data s1 = map_data s" using None by (simp add: map_data_def s1_def)
      moreover have "fs_step (map_data s) s s1" "contents s1 jno = contents s jno" "inodes s1 ip = inodes s ip"
        "same_owners (set_inode ip jno s) (set_inode ip jno s1)" "cached (cache s1) = cached (cache s)"
        by (simp_all add: s1_def same_owners_def)
      ultimately show ?thesis using x uf(1,3) unfolding s1_def by auto
    next
      case (Some fp)
      then have pf: "fp \<noteq> ip" using nf by auto
      with mf Some obtain fno where fno: "inodes s fp = Some fno" "writable fno" "byte_cnt (bit_cnt (free_map s)) \<le> i_length fno"
        by (auto simp: map_file_ok_def)
      define n where "n = min (i_length fno) (length_shown fno + byte_cnt (bit_cnt (free_map s)))"
      have ok1: "fs_ok (set_inode ip jno s1)" using ok by (simp add: s1_def set_inode_free_map)
      have f1: "inodes s1 fp = Some fno" "byte_cnt (bit_cnt (free_map s1)) \<le> i_length fno" "bitmap_wf (free_map s1)"
        "free_map s1 = b" "bit_cnt (free_map s1) = bit_cnt (free_map s)" "fs_disk s1 = fs_disk s"
        using fno f(4,5) by (simp_all add: s1_def)
      from bitmap_write_ok [OF ok1 pf f1(1) fno(2) f1(2,3), of depth] obtain c where
        c: "bitmap_write (inode_write_at (Suc depth)) b fp s1 = Some (True, set_inode fp (fno\<lparr>length_shown := n\<rparr>) (s1\<lparr>cache := c\<rparr>))"
        "cache_inv c" "fs_step (all_data (fs_disk s) fno) s1 (s1\<lparr>cache := c\<rparr>)"
        unfolding f1(4,6) f(5) n_def by blast
      have c3: "fs_step (all_data (fs_disk s) fno) s (s\<lparr>cache := c\<rparr>)" using c(3) by (simp add: s1_def fs_step_def)
      define s' where "s' = set_inode fp (fno\<lparr>length_shown := n\<rparr>) (s\<lparr>free_map := b, cache := c\<rparr>)"
      have run: "free_map_allocate_with (inode_write_at (Suc depth)) 1 s = Some (Some (of_nat r), s')"
        using f(1,2) Some c(1) by (simp add: free_map_allocate_with_def s1_def s'_def)
      have n: "n \<le> i_length fno" by (simp add: n_def)
      note d = alloc_done [OF inv nf f(4,5) r(1) f(6) r(2) Some fno(1) n c(2) c3, folded s'_def]
      have fs1: "fs_step (map_data s) s s'" using c3 Some fno(1) by (simp add: s'_def map_data_def fs_step_def)
      moreover from fs1 have "cached (cache s') \<subseteq> map_data s \<union> cached (cache s)" by (auto simp: fs_step_def)
      moreover have "used_sectors s' = insert (of_nat r) (used_sectors s)" "free_sectors s' = free_sectors s - {of_nat r}"
        using uf(1,3) by (simp_all add: s'_def used_sectors_def free_sectors_def)
      moreover have "inodes s' ip = inodes s ip" using pf by (simp add: s'_def)
      ultimately show ?thesis using run x d by blast
    qed
  qed
qed

section \<open>The allocator interface\<close>

text \<open>\<open>took ip jno X Y s s'\<close>: on behalf of the file \<open>ip\<close>, whose inode is \<open>jno\<close>, the sectors \<open>X\<close> were
  taken from the free ones, and only the sectors \<open>Y\<close> and those of the free map were written.\<close>

definition took :: "nat \<Rightarrow> inode \<Rightarrow> disk_sector_t set \<Rightarrow> disk_sector_t set \<Rightarrow> fs_state \<Rightarrow> fs_state \<Rightarrow> bool" where
  "took ip jno X Y s s' \<longleftrightarrow> X \<subseteq> free_sectors s \<and> used_sectors s' = X \<union> used_sectors s \<and> free_sectors s' = free_sectors s - X
     \<and> alloc_inv (set_inode ip jno s') \<and> inodes s' ip = inodes s ip \<and> apart ip s s' \<and> fs_step (map_data s \<union> Y) s s'
     \<and> map_data s' = map_data s \<and> contents s' jno = contents s jno \<and> cached (cache s') \<subseteq> map_data s \<union> cached (cache s)
     \<and> same_owners (set_inode ip jno s) (set_inode ip jno s')"

lemma took_refl: "alloc_inv (set_inode ip jno s) \<Longrightarrow> took ip jno {} {} s s"
  by (simp add: took_def)

lemma took_trans:
  assumes "took ip jno X Y s s'" and "took ip jno X' Y' s' s''"
  shows "took ip jno (X \<union> X') (Y \<union> Y') s s''"
proof -
  have "fs_step (map_data s \<union> (Y \<union> Y')) s s''"
    using assms by (auto simp: took_def intro: fs_step_trans [of _ s s'] fs_step_mono)
  moreover have "same_owners (set_inode ip jno s) (set_inode ip jno s'')"
    using assms same_owners_trans unfolding took_def by blast
  ultimately show ?thesis using assms apart_trans unfolding took_def by auto
qed

lemma took_mono: "took ip jno X Y s s' \<Longrightarrow> Y \<subseteq> Y' \<Longrightarrow> took ip jno X Y' s s'"
  by (auto simp: took_def intro: fs_step_mono)

lemma free_not_used: "x \<in> free_sectors s \<Longrightarrow> x \<notin> used_sectors s"
  by (auto simp: free_sectors_def used_sectors_def)

lemma took_size:
  assumes "took ip jno X Y s s'" and "n + card X \<le> card (free_sectors s)" and "finite X"
  shows "n \<le> card (free_sectors s')"
proof -
  have "card (free_sectors s') = card (free_sectors s) - card X"
    using assms(1,3) by (simp add: took_def card_Diff_subset)
  with assms(2) show ?thesis by linarith
qed

lemma map_data_used:
  assumes "alloc_inv (set_inode ip jno s)" and "free_map_file s \<noteq> Some ip"
  shows "map_data s \<subseteq> used_sectors s" "own_sectors s jno \<inter> map_data s = {}"
    "\<And>jp j. jp \<noteq> ip \<Longrightarrow> free_map_file s \<noteq> Some jp \<Longrightarrow> inodes s jp = Some j \<Longrightarrow> own_sectors s j \<inter> map_data s = {}"
proof -
  have used: "own_sectors s fno \<subseteq> used_sectors s" if "inodes s fp = Some fno" "fp \<noteq> ip" for fp fno
  proof -
    have "inodes (set_inode ip jno s) fp = Some fno" using that by simp
    then have "own_sectors (set_inode ip jno s) fno \<subseteq> used_sectors (set_inode ip jno s)" using assms(1) unfolding alloc_inv_def by blast
    then show ?thesis by simp
  qed
  have dis: "own_sectors s j \<inter> own_sectors s fno = {}"
    if "inodes (set_inode ip jno s) jp = Some j" "inodes s fp = Some fno" "fp \<noteq> ip" "jp \<noteq> fp" for jp j fp fno
  proof -
    have "fs_ok (set_inode ip jno s)" using assms(1) by (simp add: alloc_inv_def)
    from fs_ok_disjoint [OF this that(1), of fp fno] that show ?thesis by simp
  qed
  have "map_data s \<subseteq> used_sectors s \<and> own_sectors s jno \<inter> map_data s = {}
     \<and> (\<forall>jp j. jp \<noteq> ip \<longrightarrow> free_map_file s \<noteq> Some jp \<longrightarrow> inodes s jp = Some j \<longrightarrow> own_sectors s j \<inter> map_data s = {})"
  proof (cases "map_data s = {}")
    case False
    then obtain fp fno where f: "free_map_file s = Some fp" "fp \<noteq> ip" "inodes s fp = Some fno" "map_data s = all_data (fs_disk s) fno"
      using assms(2) by (auto simp: map_data_def split: option.splits)
    have sub: "map_data s \<subseteq> own_sectors s fno" by (auto simp: f(4) own_sectors_def)
    have "own_sectors s jno \<inter> own_sectors s fno = {}" using dis [of ip jno fp fno] f by simp
    moreover have "own_sectors s j \<inter> own_sectors s fno = {}" if "jp \<noteq> ip" "free_map_file s \<noteq> Some jp" "inodes s jp = Some j" for jp j
      using dis [of jp j fp fno] f that by auto
    ultimately show ?thesis using sub used [OF f(3,2)] by blast
  qed simp
  then show "map_data s \<subseteq> used_sectors s" "own_sectors s jno \<inter> map_data s = {}"
    "\<And>jp j. jp \<noteq> ip \<Longrightarrow> free_map_file s \<noteq> Some jp \<Longrightarrow> inodes s jp = Some j \<Longrightarrow> own_sectors s j \<inter> map_data s = {}" by blast+
qed

lemma alloc_inv_step:
  assumes "alloc_inv s" and "fs_ok s'" and "free_map s' = free_map s" and "capacity (fs_disk s') = capacity (fs_disk s)"
    and "inodes s' = inodes s" and "free_map_file s' = free_map_file s" and "cached (cache s') \<subseteq> used_sectors s"
    and "\<forall>jp j. inodes s jp = Some j \<longrightarrow> own_sectors s' j \<subseteq> used_sectors s"
  shows "alloc_inv s'"
proof -
  have "used_sectors s' = used_sectors s" using assms(3) by (simp add: used_sectors_def)
  moreover have "map_file_ok s'" using assms(1,3,5,6) by (auto simp: alloc_inv_def map_file_ok_def)
  ultimately show ?thesis using assms unfolding alloc_inv_def by simp
qed

lemma write_fresh:
  assumes inv: "alloc_inv (set_inode ip jno s)" and nf: "free_map_file s \<noteq> Some ip" and x: "x \<in> used_sectors s" "x \<notin> cached (cache s)"
    and own: "\<And>jp j. inodes (set_inode ip jno s) jp = Some j \<Longrightarrow> x \<notin> own_sectors s j" and len: "length bs = DISK_SECTOR_SIZE"
  shows "\<exists>s'. fs_write_sector x bs s = Some s' \<and> took ip jno {} {x} s s' \<and> inodes s' = inodes s
     \<and> cview (cache s') x = bs \<and> sector_at (fs_disk s') x = bs \<and> (\<forall>y. y \<noteq> x \<longrightarrow> sector_at (fs_disk s') y = sector_at (fs_disk s) y)
     \<and> cached (cache s') = cached (cache s)"
proof -
  define v where "v = set_inode ip jno s"
  have ok: "fs_ok v" and ci: "cache_inv (cache s)" using inv by (auto simp: alloc_inv_def fs_ok_def v_def)
  have "valid_sector (fs_disk s) x" using x(1) inv by (auto simp: used_sectors_def alloc_inv_def valid_sector_def word_less_nat_alt)
  from fs_write_spec [OF ci this x(2) len] obtain d where d: "fs_write_sector x bs s = Some (set_disk d s)"
    "cache_inv (cache (set_disk d s))" "fs_step {x} s (set_disk d s)" "cview (cache (set_disk d s)) x = bs"
    "cached (cache (set_disk d s)) = cached (cache s)" "\<forall>y. y \<noteq> x \<longrightarrow> sector_at d y = sector_at (fs_disk s) y"
    "sector_at d x = bs" "capacity d = capacity (fs_disk s)" by blast
  define s' where "s' = set_disk d s"
  have vs: "set_inode ip jno s' = set_disk d v" by (simp add: s'_def v_def set_inode_def set_disk_def)
  have st: "fs_step {x} v (set_disk d v)" using d(3) by (simp add: v_def fs_step_def set_disk_def fs_disk_def)
  have civ: "cache_inv (cache (set_disk d v))" using d(2) by (simp add: v_def set_disk_def)
  have idx: "all_index (fs_disk v) j \<inter> {x} = {}" "all_data (fs_disk v) j \<inter> {x} = {}" if "inodes v jp = Some j" for jp j
    using own [of jp j] that by (auto simp: v_def own_sectors_def)
  then have idx': "\<forall>jp j. inodes v jp = Some j \<longrightarrow> all_index (fs_disk v) j \<inter> {x} = {}" by blast
  have same: "inodes (set_disk d v) = inodes v" by simp
  note fr = fs_ok_frame [OF ok same civ st idx']
  have us: "used_sectors s' = used_sectors s" "free_sectors s' = free_sectors s" by (simp_all add: s'_def set_disk_def used_sectors_def free_sectors_def)
  have own': "own_sectors (set_disk d v) j \<subseteq> used_sectors s" if "inodes v jp = Some j" for jp j
    using fr(2) [OF that] inv that unfolding alloc_inv_def v_def by auto
  have inv': "alloc_inv (set_inode ip jno s')"
    unfolding vs
  proof (rule alloc_inv_step [of v])
    show "alloc_inv v" using inv by (simp add: v_def)
    show "cached (cache (set_disk d v)) \<subseteq> used_sectors v"
      using d(5) inv by (simp add: v_def set_disk_def cached_def alloc_inv_def)
    show "\<forall>jp j. inodes v jp = Some j \<longrightarrow> own_sectors (set_disk d v) j \<subseteq> used_sectors v" using own' by (simp add: v_def)
  qed (use fr(1) d(8) in \<open>simp_all add: v_def, simp_all add: set_disk_def fs_disk_def\<close>)
  have ap: "apart ip s s'"
  proof (rule apart_I [where X = "{x}" and jno = jno])
    show "fs_ok (set_inode ip jno s)" using ok by (simp add: v_def)
    show "fs_step {x} s s'" using d(3) by (simp add: s'_def)
    show "cache_inv (cache s')" using d(2) by (simp add: s'_def)
    fix jp j assume "jp \<noteq> ip" "inodes s jp = Some j"
    then show "own_sectors s j \<inter> {x} = {}" using own [of jp j] by simp
  qed (simp_all add: s'_def set_disk_def)
  have "map_data s' = map_data s"
  proof -
    have "all_data (fs_disk s') j = all_data (fs_disk s) j" if "inodes s jp = Some j" "jp \<noteq> ip" for jp j
      using fr(4) [of jp j] that by (simp add: v_def s'_def set_disk_def)
    then show ?thesis using nf by (auto simp: map_data_def s'_def set_disk_def split: option.splits)
  qed
  moreover have "contents s' jno = contents s jno"
  proof -
    have "contents (set_disk d v) jno = contents v jno" using fr(3) [of ip jno] idx(2) [of ip jno] by (simp add: v_def set_disk_def)
    then show ?thesis by (simp add: vs [symmetric]) (simp add: v_def)
  qed
  moreover have "fs_step (map_data s \<union> {x}) s s'" using d(3) by (auto simp: s'_def intro: fs_step_mono)
  moreover have "same_owners v (set_inode ip jno s')" using fr(2) unfolding vs same_owners_def by simp
  ultimately have "took ip jno {} {x} s s'" using inv' ap us d(5) by (simp add: took_def s'_def v_def)
  then show ?thesis using d by (auto simp: s'_def)
qed

text \<open>The inode in memory plays no part in \<open>took\<close>, nor does counting a read.\<close>

lemma shown_other [simp]: "jp \<noteq> ip \<Longrightarrow> shown (set_inode ip ino s) jp = shown s jp"
  by (simp add: shown_def split: option.split)

lemma map_data_set_inode: "free_map_file s \<noteq> Some ip \<Longrightarrow> map_data (set_inode ip ino s) = map_data s"
  by (auto simp: map_data_def split: option.splits)

lemma set_inode_fields [simp]:
  "next_inode (set_inode ip ino s) = next_inode s" "uninit (set_inode ip ino s) = uninit s"
  by (simp_all add: set_inode_def)

lemma took_set:
  assumes "took ip jno X Y s s'" and "free_map_file s \<noteq> Some ip"
  shows "took ip jno X Y (set_inode ip ino s) (set_inode ip ino s')"
proof -
  have "free_map_file s' \<noteq> Some ip" using assms by (simp add: took_def apart_def)
  then show ?thesis using assms by (simp add: took_def apart_def map_data_set_inode)
qed

lemma bump_fields [simp]:
  "free_map (bump n s) = free_map s" "free_map_file (bump n s) = free_map_file s" "next_inode (bump n s) = next_inode s"
  "uninit (bump n s) = uninit s" "set_inode ip ino (bump n s) = bump n (set_inode ip ino s)"
  "own_sectors (bump n s) = own_sectors s" "used_sectors (bump n s) = used_sectors s" "free_sectors (bump n s) = free_sectors s"
  "map_data (bump n s) = map_data s" "shown (bump n s) = shown s"
proof -
  show f: "free_map (bump n s) = free_map s" "free_map_file (bump n s) = free_map_file s" "next_inode (bump n s) = next_inode s"
    "uninit (bump n s) = uninit s" by (simp_all add: bump_def set_disk_def)
  show "set_inode ip ino (bump n s) = bump n (set_inode ip ino s)" by (simp add: bump_def set_disk_def set_inode_def fs_disk_def)
  show "own_sectors (bump n s) = own_sectors s" by (simp add: own_sectors_def fun_eq_iff)
  show "used_sectors (bump n s) = used_sectors s" "free_sectors (bump n s) = free_sectors s"
    using f by (simp_all add: used_sectors_def free_sectors_def)
  show "map_data (bump n s) = map_data s" "shown (bump n s) = shown s"
    using f by (simp_all add: map_data_def shown_def fun_eq_iff split: option.split)
qed

lemma took_bump: "alloc_inv (set_inode ip jno s) \<Longrightarrow> took ip jno {} {} s (bump n s)"
proof -
  assume a: "alloc_inv (set_inode ip jno s)"
  have "alloc_inv (bump n s) = alloc_inv s" for s by (simp add: alloc_inv_def fs_ok_def map_file_ok_def)
  then show ?thesis using a by (simp add: took_def apart_def same_owners_def)
qed

text \<open>An inode whose sectors are given as a list.\<close>

lemma blocks_upto: "{k. k * 512 < 512 * (n :: nat)} = {..<n}"
  by auto

lemma extend_ok:
  assumes inv: "alloc_inv (set_inode ip jno s)" and nf: "free_map_file s \<noteq> Some ip"
    and ino: "length (ptrs ino) = 15" "i_length ino = 512 * K" "K \<le> MAX_BLOCKS" "length_shown ino \<le> i_length ino"
    and bl: "map (data_block (fs_disk s) (ptrs ino)) [0..<K] = bl" "distinct bl"
    and ix: "\<And>k. k < K \<Longrightarrow> index_blocks (fs_disk s) (ptrs ino) k \<subseteq> IX" "set bl \<inter> IX = {}" "IX \<inter> cached (cache s) = {}"
    and us: "set bl \<union> IX \<subseteq> used_sectors s"
    and dis: "\<And>jp j. jp \<noteq> ip \<Longrightarrow> inodes s jp = Some j \<Longrightarrow> own_sectors s j \<inter> (set bl \<union> IX) = {}"
  shows "alloc_inv (set_inode ip ino s)"
proof -
  let ?d = "fs_disk s"
  have ad: "all_data ?d ino = set bl" unfolding all_data_def ino(2) blocks_upto bl(1) [symmetric] by (simp add: atLeast0LessThan)
  have ai: "all_index ?d ino \<subseteq> IX" using ix(1) unfolding all_index_def ino(2) blocks_upto by auto
  have own: "own_sectors s ino \<subseteq> set bl \<union> IX" using ad ai by (auto simp: own_sectors_def)
  have valid: "valid_sector ?d x" if "x \<in> used_sectors s" for x
    using that inv by (auto simp: used_sectors_def alloc_inv_def valid_sector_def word_less_nat_alt)
  have "inj_on (data_block ?d (ptrs ino)) {..<K}"
    using bl by (metis atLeast0LessThan atLeast_upt distinct_map)
  then have wf: "inode_wf s ino"
    using ino ad ai ix(2,3) us valid by (auto simp: inode_wf_def lessThan_def)
  have old: "inode_wf s j" "own_sectors s j \<inter> own_sectors s ino = {}" "own_sectors s j \<subseteq> used_sectors s"
    if "jp \<noteq> ip" "inodes s jp = Some j" for jp j
  proof -
    have j: "inodes (set_inode ip jno s) jp = Some j" using that by simp
    show "inode_wf s j" using fs_ok_wf [OF _ j] inv by (simp add: alloc_inv_def)
    show "own_sectors s j \<inter> own_sectors s ino = {}" using dis [OF that] own by blast
    show "own_sectors s j \<subseteq> used_sectors s" using inv j unfolding alloc_inv_def by (metis own_set_inode(1) used_set_inode(1))
  qed
  have disj: "own_sectors s j \<inter> own_sectors s k = {}"
    if "jp \<noteq> ip" "kp \<noteq> ip" "inodes s jp = Some j" "inodes s kp = Some k" "jp \<noteq> kp" for jp kp j k
    using fs_ok_disjoint [of "set_inode ip jno s" jp j kp k] inv that by (simp add: alloc_inv_def)
  have ok: "fs_ok (set_inode ip ino s)"
    using inv wf old(1,2) disj unfolding alloc_inv_def fs_ok_def
    by (simp split: if_splits) (metis Int_commute option.inject)
  have "map_file_ok (set_inode ip ino s)" using inv nf by (auto simp: alloc_inv_def map_file_ok_def)
  moreover have "own_sectors s j \<subseteq> used_sectors s" if "inodes (set_inode ip ino s) jp = Some j" for jp j
    using that old(3) own us by (auto split: if_splits)
  ultimately show ?thesis using inv ok unfolding alloc_inv_def by auto
qed

lemma same_owners_used:
  assumes "alloc_inv (set_inode ip jno s)" and "took ip jno X Y s s1" and "took ip jx X' Y' s1 s'" and "jp \<noteq> ip" and "inodes s' jp = Some j"
  shows "own_sectors s' j \<subseteq> used_sectors s" "own_sectors s' j \<inter> own_sectors s jno = {}"
proof -
  have so: "same_owners (set_inode ip jx s1) (set_inode ip jx s')" "same_owners (set_inode ip jno s) (set_inode ip jno s1)"
    using assms(2,3) by (simp_all add: took_def)
  have "inodes (set_inode ip jx s') jp = Some j" using assms(4,5) by simp
  with so(1) obtain j1 where "inodes (set_inode ip jx s1) jp = Some j1" "own_sectors s' j = own_sectors s1 j1"
    unfolding same_owners_def own_set_inode by blast
  moreover from this(1) have "inodes (set_inode ip jno s1) jp = Some j1" using assms(4) by simp
  ultimately obtain j0 where j0: "inodes (set_inode ip jno s) jp = Some j0" "own_sectors s' j = own_sectors s j0"
    using so(2) unfolding same_owners_def own_set_inode by metis
  then show "own_sectors s' j \<subseteq> used_sectors s"
    using assms(1) unfolding alloc_inv_def by (metis own_set_inode(1) used_set_inode(1))
  have "fs_ok (set_inode ip jno s)" using assms(1) by (simp add: alloc_inv_def)
  from fs_ok_disjoint [OF this j0(1), of ip jno] assms(4) j0(2) show "own_sectors s' j \<inter> own_sectors s jno = {}" by simp
qed

text \<open>The sectors \<open>xs\<close> and the index block \<open>I\<close> taken from the free map become part of the file.\<close>

lemma extend_blocks:
  assumes inv: "alloc_inv (set_inode ip jno s)" and nf: "free_map_file s \<noteq> Some ip" and len: "i_length jno = 512 * k"
    and t: "took ip jno (set xs \<union> I) (set xs) s s1" "distinct xs" "set xs \<inter> I = {}" and t': "took ip jx {} P s1 s'" "P \<subseteq> IX"
    and IX: "IX = all_index (fs_disk s) jno \<union> I"
    and ino: "length (ptrs ino) = 15" "i_length ino = 512 * (k + length xs)" "k + length xs \<le> MAX_BLOCKS" "length_shown ino \<le> 512 * k"
    and b1: "\<And>j. j < k \<Longrightarrow> data_block (fs_disk s') (ptrs ino) j = data_block (fs_disk s) (ptrs jno) j"
    and b2: "\<And>j. j < length xs \<Longrightarrow> data_block (fs_disk s') (ptrs ino) (k + j) = xs ! j"
    and b3: "\<And>j. j < k + length xs \<Longrightarrow> index_blocks (fs_disk s') (ptrs ino) j \<subseteq> IX"
    and z: "\<forall>x \<in> set xs. cview (cache s1) x = data_default"
  shows "alloc_inv (set_inode ip ino s')" "contents s' ino = contents s jno @ replicate (512 * length xs) 0"
proof -
  let ?d = "fs_disk s" and ?old = "map (data_block (fs_disk s) (ptrs jno)) [0..<k]"
  have ad: "all_data ?d jno = set ?old" unfolding all_data_def len blocks_upto by (simp add: atLeast0LessThan)
  have wf: "inode_wf s jno" using fs_ok_wf [of "set_inode ip jno s" ip jno] inv by (simp add: alloc_inv_def)
  have ou: "own_sectors s jno \<subseteq> used_sectors s"
    using inv unfolding alloc_inv_def by (metis own_set_inode(1) used_set_inode(1) set_inode_simps(6))
  have fresh: "(set xs \<union> I) \<inter> used_sectors s = {}" using t(1) free_not_used by (auto simp: took_def)
  have us: "used_sectors s' = (set xs \<union> I) \<union> used_sectors s" using t(1) t'(1) by (auto simp: took_def)
  have md: "map_data s1 = map_data s" "map_data s \<subseteq> used_sectors s" "own_sectors s jno \<inter> map_data s = {}"
    using t(1) map_data_used(1,2) [OF inv nf] by (auto simp: took_def)
  have ca: "cached (cache s') \<subseteq> map_data s \<union> cached (cache s)" "cached (cache s) \<subseteq> used_sectors s"
    using t(1) t'(1) md(1) inv by (auto simp: took_def alloc_inv_def)
  have nf': "free_map_file s' \<noteq> Some ip" using nf t(1) t'(1) by (auto simp: took_def apart_def)
  have di: "inj_on (data_block ?d (ptrs jno)) {..<k}" using wf len unfolding inode_wf_def blocks_upto by (simp add: lessThan_def)
  have d0: "all_data ?d jno \<inter> all_index ?d jno = {}" "all_index ?d jno \<inter> cached (cache s) = {}" using wf by (auto simp: inode_wf_def)
  have own: "own_sectors s jno = set ?old \<union> all_index ?d jno" by (simp add: own_sectors_def ad)
  have bl: "map (data_block (fs_disk s') (ptrs ino)) [0..<k + length xs] = ?old @ xs"
  proof (rule nth_equalityI)
    fix j assume "j < length (map (data_block (fs_disk s') (ptrs ino)) [0..<k + length xs])"
    then show "map (data_block (fs_disk s') (ptrs ino)) [0..<k + length xs] ! j = (?old @ xs) ! j"
      using b1 [of j] b2 [of "j - k"] by (cases "j < k") (simp_all add: nth_append)
  qed simp
  show "alloc_inv (set_inode ip ino s')"
  proof (rule extend_ok [OF _ nf' ino(1,2,3) _ bl])
    show "alloc_inv (set_inode ip jx s')" using t'(1) by (simp add: took_def)
    show "length_shown ino \<le> i_length ino" using ino(2,4) by simp
    have "distinct ?old" using di by (simp add: distinct_map atLeast0LessThan)
    then show "distinct (?old @ xs)" using t(2) fresh ou own by auto
    show "set (?old @ xs) \<inter> IX = {}" using d0(1) t(3) fresh ou own ad unfolding IX by auto
    show "IX \<inter> cached (cache s') = {}" using ca d0(2) md(2,3) fresh own unfolding IX by blast
    show "set (?old @ xs) \<union> IX \<subseteq> used_sectors s'" using us ou own unfolding IX by auto
    fix jp j assume "jp \<noteq> ip" "inodes s' jp = Some j"
    from same_owners_used [OF inv t(1) t'(1) this] show "own_sectors s' j \<inter> (set (?old @ xs) \<union> IX) = {}"
      using fresh own unfolding IX by auto
  qed (use b3 in blast)
  have st: "fs_step (map_data s \<union> set xs) s s1" "fs_step (map_data s \<union> P) s1 s'" using t(1) t'(1) md(1) by (simp_all add: took_def)
  have old: "cview (cache s') x = cview (cache s) x" if "x \<in> set ?old" for x
  proof -
    have x: "x \<in> all_data ?d jno" "x \<in> own_sectors s jno" using that unfolding own ad by blast+
    then have "x \<notin> map_data s \<union> set xs" "x \<notin> map_data s \<union> P"
      using md(3) fresh ou d0(1) t'(2) unfolding IX by blast+
    then show ?thesis using st by (simp add: fs_step_def)
  qed
  have new: "cview (cache s') x = data_default" if "x \<in> set xs" for x
  proof -
    have "x \<notin> map_data s \<union> P" using that md(2) fresh ou own t(3) t'(2) unfolding IX by blast
    then show ?thesis using st(2) z that by (simp add: fs_step_def)
  qed
  have "file_byte s' ino i = file_byte s jno i" if "i < 512 * k" for i
  proof -
    have j: "i div 512 < k" using that by (simp add: less_mult_imp_div_less mult.commute)
    then show ?thesis using old [of "data_block ?d (ptrs jno) (i div 512)"] by (simp add: file_byte_def b1)
  qed
  moreover have "file_byte s' ino i = 0" if "\<not> i < 512 * k" "i < 512 * (k + length xs)" for i
  proof -
    define i' where "i' = i - 512 * k"
    have i: "i = 512 * k + i'" "i' div 512 < length xs" using that by (simp_all add: i'_def less_mult_imp_div_less algebra_simps)
    then show ?thesis using new [of "xs ! (i' div 512)"] by (simp add: file_byte_def b2 data_default_def DISK_SECTOR_SIZE_def)
  qed
  ultimately show "contents s' ino = contents s jno @ replicate (512 * length xs) 0"
    unfolding contents_def len ino(2) by (intro nth_equalityI) (auto simp: nth_append)
qed

section \<open>A file that grows\<close>

text \<open>The place of the pointer to the \<open>k\<close>-th sector of a file: the index of the pointer in the inode, and
  the slot in the index block it leads to.\<close>

definition slot_pos :: "nat \<Rightarrow> nat" where "slot_pos k = (if k < 4 then k else 4 + (k - 4) div 128)"

definition slot_ofs :: "nat \<Rightarrow> nat" where "slot_ofs k = (if k < 4 then 0 else (k - 4) mod 128)"

text \<open>The file \<open>ip\<close> has \<open>k\<close> sectors, and \<open>inode_grow\<close> would continue behind them.\<close>

definition stage :: "nat \<Rightarrow> nat \<Rightarrow> inode \<Rightarrow> fs_state \<Rightarrow> bool" where
  "stage ip k ino s \<longleftrightarrow> inodes s ip = Some ino \<and> alloc_inv (set_inode ip (ino\<lparr>i_length := 512 * k\<rparr>) s)
     \<and> length_shown ino \<le> 512 * k \<and> free_map_file s \<noteq> Some ip \<and> indir_idx ino = slot_ofs k"

text \<open>What allocations for the file \<open>ip\<close> do not touch: no sector outside the free map's file enters the cache, and
  every other file keeps its sectors.\<close>

definition frame :: "nat \<Rightarrow> fs_state \<Rightarrow> fs_state \<Rightarrow> bool" where
  "frame ip s s' \<longleftrightarrow> map_data s' = map_data s \<and> cached (cache s') \<subseteq> map_data s \<union> cached (cache s)
     \<and> used_sectors s \<subseteq> used_sectors s'
     \<and> (\<forall>jp j'. jp \<noteq> ip \<longrightarrow> inodes s' jp = Some j' \<longrightarrow> (\<exists>j. inodes s jp = Some j \<and> own_sectors s' j' = own_sectors s j))"

lemma frame_refl [simp]: "frame ip s s"
  by (simp add: frame_def)

lemma frame_trans: "frame ip s s' \<Longrightarrow> frame ip s' s'' \<Longrightarrow> frame ip s s''"
proof -
  assume a: "frame ip s s'" "frame ip s' s''"
  have "\<exists>j. inodes s jp = Some j \<and> own_sectors s'' j' = own_sectors s j" if j: "jp \<noteq> ip" "inodes s'' jp = Some j'" for jp j'
  proof -
    from a(2) j obtain k where "inodes s' jp = Some k" "own_sectors s'' j' = own_sectors s' k" unfolding frame_def by blast
    with a(1) j(1) show ?thesis unfolding frame_def by auto
  qed
  then show ?thesis using a unfolding frame_def by blast
qed

lemma took_frame:
  assumes "took ip jno X Y s s'"
  shows "frame ip s s'"
proof -
  have "\<exists>j. inodes s jp = Some j \<and> own_sectors s' j' = own_sectors s j" if "jp \<noteq> ip" "inodes s' jp = Some j'" for jp j'
  proof -
    have "inodes (set_inode ip jno s') jp = Some j'" using that by simp
    with assms obtain j where "inodes (set_inode ip jno s) jp = Some j" "own_sectors s' j' = own_sectors s j"
      unfolding took_def same_owners_def own_set_inode by blast
    then show ?thesis using that(1) by auto
  qed
  then show ?thesis using assms by (auto simp: frame_def took_def)
qed

lemma frame_set_inode:
  assumes "frame ip s s'" and "free_map_file s \<noteq> Some ip" and "free_map_file s' \<noteq> Some ip"
  shows "frame ip s (set_inode ip a s')" "frame ip (set_inode ip a s) s'"
  using assms by (simp_all add: frame_def map_data_set_inode)

text \<open>It has grown from \<open>k\<close> to \<open>k + m\<close> sectors: the new ones hold zeros, and nothing else has changed.\<close>

definition grows :: "nat \<Rightarrow> nat \<Rightarrow> nat \<Rightarrow> inode \<Rightarrow> inode \<Rightarrow> fs_state \<Rightarrow> fs_state \<Rightarrow> bool" where
  "grows ip k m ino ino' s s' \<longleftrightarrow> stage ip (k + m) ino' s'
     \<and> contents s' (ino'\<lparr>i_length := 512 * (k + m)\<rparr>) = contents s (ino\<lparr>i_length := 512 * k\<rparr>) @ replicate (512 * m) 0
     \<and> apart ip s s' \<and> frame ip s s' \<and> ino' = ino\<lparr>ptrs := ptrs ino', indir_idx := indir_idx ino'\<rparr>"

lemma grows_refl: "stage ip k ino s \<Longrightarrow> grows ip k 0 ino ino s s"
  by (simp add: grows_def)

lemma grows_trans:
  assumes "grows ip k m ino ino' s s'" and "grows ip (k + m) m' ino' ino'' s' s''"
  shows "grows ip k (m + m') ino ino'' s s''"
proof -
  have a: "apart ip s s''" "frame ip s s''" using assms apart_trans frame_trans by (auto simp: grows_def)
  have "ino'' = ino'\<lparr>ptrs := ptrs ino'', indir_idx := indir_idx ino''\<rparr>" "ino' = ino\<lparr>ptrs := ptrs ino', indir_idx := indir_idx ino'\<rparr>"
    using assms by (simp_all add: grows_def)
  then have i: "ino'' = ino\<lparr>ptrs := ptrs ino'', indir_idx := indir_idx ino''\<rparr>" by (cases ino; cases ino'; cases ino'') simp
  have "contents s'' (ino''\<lparr>i_length := 512 * (k + m + m')\<rparr>)
      = contents s (ino\<lparr>i_length := 512 * k\<rparr>) @ replicate (512 * m) 0 @ replicate (512 * m') 0"
    using assms unfolding grows_def by simp
  then show ?thesis using assms a i unfolding grows_def by (simp add: add.assoc distrib_left flip: replicate_add)
qed

lemma fs_write_set_inode:
  "fs_write_sector x bs s = Some s' \<Longrightarrow> fs_write_sector x bs (set_inode ip ino s) = Some (set_inode ip ino s')"
  by (auto simp: fs_write_sector_def set_disk_def set_inode_def fs_disk_def bind_Some_iff split: prod.splits)

lemma stage_jno:
  assumes "stage ip k ino s"
  shows "alloc_inv (set_inode ip (ino\<lparr>i_length := 512 * k\<rparr>) s)" "free_map_file s \<noteq> Some ip" "length (ptrs ino) = 15"
    "inode_wf s (ino\<lparr>i_length := 512 * k\<rparr>)"
proof -
  show a: "alloc_inv (set_inode ip (ino\<lparr>i_length := 512 * k\<rparr>) s)" "free_map_file s \<noteq> Some ip"
    using assms by (auto simp: stage_def)
  show "inode_wf s (ino\<lparr>i_length := 512 * k\<rparr>)"
    using fs_ok_wf [of "set_inode ip (ino\<lparr>i_length := 512 * k\<rparr>) s" ip] a(1) by (simp add: alloc_inv_def)
  then show "length (ptrs ino) = 15" by (simp add: inode_wf_def)
qed

text \<open>The index block \<open>p\<close> at the end of the file, with the pointers \<open>xs\<close> added to it.\<close>

lemma index_block_unique:
  assumes wf: "inode_wf s jno" and len: "i_length jno = 512 * k" and k: "k \<le> 1284" "4 + 128 * q < k" and q: "q' < q"
  shows "ptrs jno ! (4 + q') \<noteq> ptrs jno ! (4 + q)"
proof
  assume a: "ptrs jno ! (4 + q') = ptrs jno ! (4 + q)"
  have inj: "inj_on (data_block (fs_disk s) (ptrs jno)) {..<k}" using wf len unfolding inode_wf_def blocks_upto by (simp add: lessThan_def)
  have "data_block (fs_disk s) (ptrs jno) (4 + 128 * q') = data_block (fs_disk s) (ptrs jno) (4 + 128 * q)"
    using a k q by (simp add: data_block_def)
  with inj have "4 + 128 * q' = 4 + 128 * q" using k q by (auto dest: inj_onD)
  with q show False by simp
qed

lemma index_block_extend:
  assumes wf: "inode_wf s jno" and len: "i_length jno = 512 * k" and k: "4 \<le> k" "k < 1284" and xs: "slot_ofs k + length xs \<le> 128"
    and ps: "ps ! slot_pos k = p" "\<And>i. i \<noteq> slot_pos k \<Longrightarrow> ps ! i = ptrs jno ! i" and inner: "length inner = 128"
    and new: "slot_ofs k = 0 \<Longrightarrow> p \<notin> all_index (fs_disk s) jno"
    and old: "slot_ofs k \<noteq> 0 \<Longrightarrow> p = ptrs jno ! slot_pos k \<and> inner = le_words (sector_at (fs_disk s) p)"
    and dp: "sector_at d p = words_bytes (take (slot_ofs k) inner @ xs @ drop (slot_ofs k + length xs) inner)"
    and dy: "\<And>y. y \<in> all_index (fs_disk s) jno \<Longrightarrow> y \<noteq> p \<Longrightarrow> sector_at d y = sector_at (fs_disk s) y"
  shows "j < k \<Longrightarrow> data_block d ps j = data_block (fs_disk s) (ptrs jno) j"
    and "j < length xs \<Longrightarrow> data_block d ps (k + j) = xs ! j"
    and "j < k + length xs \<Longrightarrow> index_blocks d ps j \<subseteq> all_index (fs_disk s) jno \<union> (if slot_ofs k = 0 then {p} else {})"
proof -
  define q f where "q = (k - 4) div 128" and "f = (k - 4) mod 128"
  have kq: "k = 4 + 128 * q + f" "f < 128" using k(1) by (simp_all add: q_def f_def)
  have qf: "slot_pos k = 4 + q" "slot_ofs k = f" using k(1) by (simp_all add: slot_pos_def slot_ofs_def q_def f_def)
  have q10: "q < 10" using k(2) kq by simp
  have idx: "ptrs jno ! (4 + i) \<in> all_index (fs_disk s) jno" if "4 + 128 * i < k" for i
  proof -
    have "index_blocks (fs_disk s) (ptrs jno) (4 + 128 * i) = {ptrs jno ! (4 + i)}" using that k by (simp add: index_blocks_def)
    then show ?thesis using that len unfolding all_index_def len blocks_upto by blast
  qed
  have np: "ptrs jno ! (4 + i) \<noteq> p" if "i < q" for i
  proof (cases "f = 0")
    case True
    then show ?thesis using new idx [of i] that kq qf by auto
  next
    case False
    then show ?thesis using old qf index_block_unique [OF wf len, of q i] that k kq by auto
  qed
  have split: "\<exists>i r. j = 4 + (128 * i + r) \<and> r < 128 \<and> (i < q \<or> i = q \<and> r < f)" if "\<not> j < 4" "j < k" for j
  proof -
    define i r where "i = (j - 4) div 128" and "r = (j - 4) mod 128"
    have jr: "j = 4 + (128 * i + r)" "r < 128" using that by (simp_all add: i_def r_def)
    have "i < q \<or> i = q \<and> r < f" using that(2) jr kq by linarith
    with jr show ?thesis by blast
  qed
  show "data_block d ps j = data_block (fs_disk s) (ptrs jno) j" if j: "j < k"
  proof (cases "j < 4")
    case True
    then show ?thesis using ps(2) [of j] qf by (simp add: data_block_def)
  next
    case False
    from split [OF this j] obtain i r where i: "j = 4 + (128 * i + r)" "r < 128" "i < q \<or> i = q \<and> r < f" by blast
    have e: "data_block d' ps' j = le_words (sector_at d' (ps' ! (4 + i))) ! r" for d' ps'
      using i j k(2) by (simp add: data_block_def)
    show ?thesis
    proof (cases "i = q")
      case True
      then show ?thesis using i qf ps(1) dp old kq inner unfolding e by (simp add: nth_append)
    next
      case False
      then have "sector_at d (ptrs jno ! (4 + i)) = sector_at (fs_disk s) (ptrs jno ! (4 + i))"
        using dy [OF idx np] i j by simp
      then show ?thesis using ps(2) [of "4 + i"] False i qf unfolding e by simp
    qed
  qed
  have kj: "k + j = 4 + (128 * q + (f + j))" for j using kq by simp
  show "data_block d ps (k + j) = xs ! j" if "j < length xs"
  proof -
    have "f + j < 128" using that xs qf by simp
    then have "128 * q + (f + j) < 1280" "(128 * q + (f + j)) div 128 = q" "(128 * q + (f + j)) mod 128 = f + j"
      using q10 by simp_all
    then have "data_block d ps (k + j) = le_words (sector_at d (ps ! (4 + q))) ! (f + j)"
      unfolding kj data_block_def by simp
    then show ?thesis using ps(1) dp qf inner kq that by (simp add: nth_append)
  qed
  show "index_blocks d ps j \<subseteq> all_index (fs_disk s) jno \<union> (if slot_ofs k = 0 then {p} else {})" if j: "j < k + length xs"
  proof (cases "j < 4")
    case True
    then show ?thesis by (simp add: index_blocks_def)
  next
    case False
    define i r where "i = (j - 4) div 128" and "r = (j - 4) mod 128"
    have jr: "j = 4 + (128 * i + r)" "r < 128" using False by (simp_all add: i_def r_def)
    have "f + length xs \<le> 128" using xs qf by simp
    then have "i < Suc q" using j jr kq by linarith
    then have b: "index_blocks d ps j = {ps ! (4 + i)}" using q10 jr by (simp add: index_blocks_def)
    have "ps ! (4 + i) = p \<and> i = q \<or> i < q \<and> ps ! (4 + i) = ptrs jno ! (4 + i)"
      using ps(1) ps(2) [of "4 + i"] qf \<open>i < Suc q\<close> by (cases "i = q") auto
    moreover have "ps ! (4 + i) \<in> all_index (fs_disk s) jno" if "i < q" "ps ! (4 + i) = ptrs jno ! (4 + i)"
      using idx [of i] that kq(1) by simp
    moreover have "p \<in> all_index (fs_disk s) jno" if "f \<noteq> 0" using idx [of q] old that kq(1) qf by simp
    ultimately show ?thesis unfolding b qf by auto
  qed
qed

text \<open>Any part of the sectors of a file may be forgotten; then its index blocks can be rewritten.\<close>

lemma alloc_inv_empty:
  assumes "alloc_inv (set_inode ip jno s)" and "free_map_file s \<noteq> Some ip" and "length (ptrs jno) = 15"
  shows "alloc_inv (set_inode ip (jno\<lparr>i_length := 0, length_shown := 0\<rparr>) s)"
  by (rule extend_ok [OF assms(1,2), where bl = "[]" and IX = "{}" and K = 0]) (use assms(3) in \<open>simp_all add: MAX_BLOCKS_def\<close>)

lemma took_inv:
  assumes "took ip jno X Y s s'" and "free_map_file s \<noteq> Some ip"
  shows "alloc_inv (set_inode ip jno s')" "free_map_file s' \<noteq> Some ip" "used_sectors s' = X \<union> used_sectors s" "X \<inter> used_sectors s = {}"
    "cached (cache s') \<subseteq> map_data s \<union> cached (cache s)" "inodes s' ip = inodes s ip"
  using assms free_not_used by (auto simp: took_def apart_def)

lemma write_index:
  assumes inv: "alloc_inv (set_inode ip jno s)" and nf: "free_map_file s \<noteq> Some ip" and t: "took ip jno X Y s s1"
    and p: "p \<in> all_index (fs_disk s) jno \<union> X" and len: "length bs = DISK_SECTOR_SIZE"
  shows "\<exists>s' jx. fs_write_sector p bs s1 = Some s' \<and> took ip jx {} {p} s1 s' \<and> sector_at (fs_disk s') p = bs
     \<and> (\<forall>y. y \<noteq> p \<longrightarrow> sector_at (fs_disk s') y = sector_at (fs_disk s1) y) \<and> inodes s' = inodes s1"
proof -
  define jx where "jx = jno\<lparr>i_length := 0, length_shown := 0\<rparr>"
  note i = took_inv [OF t nf]
  have wf: "inode_wf s jno" using fs_ok_wf [of "set_inode ip jno s" ip jno] inv by (simp add: alloc_inv_def)
  have inv1: "alloc_inv (set_inode ip jx s1)"
    using alloc_inv_empty [OF i(1,2)] wf by (simp add: jx_def inode_wf_def)
  have ou: "own_sectors s jno \<subseteq> used_sectors s"
    using inv unfolding alloc_inv_def by (metis own_set_inode(1) used_set_inode(1) set_inode_simps(6))
  have cu: "cached (cache s) \<subseteq> used_sectors s" using inv by (simp add: alloc_inv_def)
  have pu: "p \<in> used_sectors s1" using p ou i(3) by (auto simp: own_sectors_def)
  have pc: "p \<notin> cached (cache s1)"
  proof -
    have "all_index (fs_disk s) jno \<inter> cached (cache s) = {}" "all_index (fs_disk s) jno \<inter> map_data s = {}"
      using wf map_data_used(2) [OF inv nf] by (auto simp: inode_wf_def own_sectors_def)
    then show ?thesis using p i(4,5) map_data_used(1) [OF inv nf] cu by blast
  qed
  have po: "p \<notin> own_sectors s1 j" if j: "inodes (set_inode ip jx s1) jp = Some j" for jp j
  proof (cases "jp = ip")
    case True
    then have "j = jx" using j by simp
    then show ?thesis by (simp add: jx_def own_sectors_def all_data_def all_index_def)
  next
    case False
    then have "inodes s1 jp = Some j" using j by simp
    from same_owners_used [OF inv t took_refl [OF i(1)] False this] show ?thesis
      using p i(4) by (auto simp: own_sectors_def)
  qed
  from write_fresh [OF inv1 i(2) pu pc _ len] po show ?thesis by blast
qed

lemma slot_advance:
  assumes "4 \<le> k" and "slot_ofs k + m \<le> 128"
  shows "slot_pos (k + m) = (if slot_ofs k + m = 128 then Suc (slot_pos k) else slot_pos k)"
    "slot_ofs (k + m) = (if slot_ofs k + m = 128 then 0 else slot_ofs k + m)"
proof -
  define q f where "q = (k - 4) div 128" and "f = (k - 4) mod 128"
  have k: "k - 4 = 128 * q + f" "f < 128" by (simp_all add: q_def f_def)
  have sp: "slot_pos k = 4 + q" "slot_ofs k = f" using assms(1) by (simp_all add: slot_pos_def slot_ofs_def q_def f_def)
  have e: "k + m - 4 = 128 * q + (f + m)" using k(1) assms(1) by simp
  have "(k + m - 4) div 128 = (if f + m = 128 then Suc q else q)" "(k + m - 4) mod 128 = (if f + m = 128 then 0 else f + m)"
    unfolding e using assms(2) sp by (cases "f + m = 128"; simp)+
  then show "slot_pos (k + m) = (if slot_ofs k + m = 128 then Suc (slot_pos k) else slot_pos k)"
    "slot_ofs (k + m) = (if slot_ofs k + m = 128 then 0 else slot_ofs k + m)"
    using assms(1) sp by (simp_all add: slot_pos_def slot_ofs_def)
qed

lemma fill_index:
  assumes st: "stage ip k ino s" and k: "4 \<le> k" "k < 1284"
    and ps: "length ps = 15" "\<forall>i. i \<noteq> slot_pos k \<longrightarrow> ps ! i = ptrs ino ! i" "length inner = 128"
    and old: "slot_ofs k \<noteq> 0 \<longrightarrow> ps = ptrs ino \<and> inner = le_words (sector_at (fs_disk s) (ps ! slot_pos k))"
    and pi: "slot_ofs k \<noteq> 0 \<longrightarrow> ps ! slot_pos k \<in> all_index (fs_disk s) (ino\<lparr>i_length := 512 * k\<rparr>)"
    and xs: "slot_ofs k + length xs \<le> 128" "distinct xs" "set xs \<inter> (if slot_ofs k = 0 then {ps ! slot_pos k} else {}) = {}"
    and t: "took ip (ino\<lparr>i_length := 512 * k\<rparr>) (set xs \<union> (if slot_ofs k = 0 then {ps ! slot_pos k} else {})) (set xs)
       (set_inode ip (ino\<lparr>ptrs := ps\<rparr>) s) s2"
    and z: "\<forall>x \<in> set xs. cview (cache s2) x = data_default"
  shows "\<exists>s3. fs_write_sector (ps ! slot_pos k) (words_bytes (take (slot_ofs k) inner @ xs @ drop (slot_ofs k + length xs) inner)) s2 = Some s3
     \<and> inodes s3 ip = Some (ino\<lparr>ptrs := ps\<rparr>) \<and> free_sectors s3 = free_sectors s2
     \<and> grows ip k (length xs) ino (ino\<lparr>ptrs := ps, indir_idx := slot_ofs (k + length xs)\<rparr>) s
         (set_inode ip (ino\<lparr>ptrs := ps, indir_idx := slot_ofs (k + length xs)\<rparr>) s3)"
proof -
  define jno where "jno = ino\<lparr>i_length := 512 * k\<rparr>"
  define I where "I = (if slot_ofs k = 0 then {ps ! slot_pos k} else {})"
  define zs where "zs = set_inode ip (ino\<lparr>ptrs := ps\<rparr>) s"
  define p where "p = ps ! slot_pos k"
  define bs where "bs = words_bytes (take (slot_ofs k) inner @ xs @ drop (slot_ofs k + length xs) inner)"
  define ino' where "ino' = ino\<lparr>ptrs := ps, indir_idx := slot_ofs (k + length xs)\<rparr>"
  note j = stage_jno [OF st, folded jno_def]
  have zi: "alloc_inv (set_inode ip jno zs)" "free_map_file zs \<noteq> Some ip" "fs_disk zs = fs_disk s" "cache zs = cache s"
    using j(1,2) by (simp_all add: zs_def)
  note t' = t [folded jno_def I_def zs_def]
  have pI: "p \<in> all_index (fs_disk zs) jno \<union> (set xs \<union> I)" using pi zi(3) by (auto simp: p_def I_def jno_def)
  have lb: "length bs = DISK_SECTOR_SIZE" using ps(3) xs(1) by (simp add: bs_def DISK_SECTOR_SIZE_def)
  from write_index [OF zi(1,2) t' pI lb] obtain s3 jx where w: "fs_write_sector p bs s2 = Some s3" "took ip jx {} {p} s2 s3"
    "sector_at (fs_disk s3) p = bs" "\<forall>y. y \<noteq> p \<longrightarrow> sector_at (fs_disk s3) y = sector_at (fs_disk s2) y" "inodes s3 = inodes s2" by blast
  have xf: "(set xs \<union> I) \<inter> used_sectors s = {}" using t' free_not_used by (auto simp: took_def zs_def)
  have ou: "own_sectors s jno \<subseteq> used_sectors s"
    using j(1) unfolding alloc_inv_def by (metis own_set_inode(1) used_set_inode(1) set_inode_simps(6))
  have dy: "sector_at (fs_disk s3) y = sector_at (fs_disk s) y" if "y \<in> all_index (fs_disk s) jno" "y \<noteq> p" for y
  proof -
    have "all_index (fs_disk zs) jno \<inter> (map_data zs \<union> set xs) = {}" "all_index (fs_disk zs) jno \<inter> cached (cache zs) = {}"
      using map_data_used(2) [OF zi(1,2)] xf ou j(4) zi(3,4) by (auto simp: own_sectors_def inode_wf_def)
    from fs_step_index [OF _ this, of s2 y] t' that zi(3) have "sector_at (fs_disk s2) y = sector_at (fs_disk s) y" by (simp add: took_def)
    then show ?thesis using w(4) that(2) by simp
  qed
  have new: "p \<notin> all_index (fs_disk s) jno" if "slot_ofs k = 0" using xf ou that by (auto simp: I_def p_def own_sectors_def)
  have len: "i_length jno = 512 * k" by (simp add: jno_def)
  have f: "ps ! slot_pos k = p" "\<And>i. i \<noteq> slot_pos k \<Longrightarrow> ps ! i = ptrs jno ! i" "sector_at (fs_disk s3) p = bs"
    "slot_ofs k \<noteq> 0 \<Longrightarrow> p = ptrs jno ! slot_pos k \<and> inner = le_words (sector_at (fs_disk s) p)"
    using ps(2) old w(3) by (simp_all add: p_def jno_def)
  note b = index_block_extend [OF j(4) len k xs(1), where p = p and inner = inner]
  have b1: "data_block (fs_disk s3) ps j = data_block (fs_disk zs) (ptrs jno) j" if "j < k" for j
    unfolding zi(3) by (rule b(1)) (fact f ps(3) new dy that f(3) [unfolded bs_def])+
  have b2: "data_block (fs_disk s3) ps (k + j) = xs ! j" if "j < length xs" for j
    by (rule b(2)) (fact f ps(3) new dy that f(3) [unfolded bs_def])+
  have b3: "index_blocks (fs_disk s3) ps j \<subseteq> all_index (fs_disk zs) jno \<union> I" if "j < k + length xs" for j
    unfolding zi(3) I_def p_def [symmetric] by (rule b(3)) (fact f ps(3) new dy that f(3) [unfolded bs_def])+
  have g: "k + length xs \<le> MAX_BLOCKS" "length_shown ino \<le> 512 * k" using st k xs(1) by (simp_all add: MAX_BLOCKS_def stage_def)
  have pI': "{p} \<subseteq> all_index (fs_disk zs) jno \<union> I" using pI xs(3) pi zi(3) by (auto simp: p_def I_def jno_def)
  note e = extend_blocks [OF zi(1,2) len t' xs(2) xs(3) [folded I_def] w(2) pI' refl]
  have e: "alloc_inv (set_inode ip (ino'\<lparr>i_length := 512 * (k + length xs)\<rparr>) s3)"
    "contents s3 (ino'\<lparr>i_length := 512 * (k + length xs)\<rparr>) = contents zs jno @ replicate (512 * length xs) 0"
    by ((rule e; use b1 b2 b3 z ps(1) g in \<open>simp add: ino'_def\<close>))+
  have "apart ip zs s3" using t' w(2) apart_trans by (auto simp: took_def)
  then have ap: "apart ip s (set_inode ip ino' s3)" by (simp add: apart_def zs_def)
  have nf3: "free_map_file s3 \<noteq> Some ip" using ap j(2) by (simp add: apart_def)
  have "frame ip zs s3" using frame_trans [OF took_frame [OF t'] took_frame [OF w(2)]] .
  then have fr: "frame ip s (set_inode ip ino' s3)" using frame_set_inode [of ip s s3] zi(2) nf3 j(2) by (simp add: zs_def frame_def map_data_set_inode)
  have "contents zs jno = contents s jno" by (simp add: zs_def)
  then have "grows ip k (length xs) ino ino' s (set_inode ip ino' s3)"
    using e ap fr nf3 st by (simp add: grows_def stage_def jno_def) (simp add: ino'_def)
  moreover have "inodes s3 ip = Some (ino\<lparr>ptrs := ps\<rparr>)" using w(5) t' by (simp add: took_def zs_def)
  moreover have "free_sectors s3 = free_sectors s2" using w(2) by (simp add: took_def)
  ultimately show ?thesis using w(1) by (auto simp: p_def bs_def ino'_def)
qed

text \<open>The length within the last sector does not matter.\<close>

lemma sectors_iff: "k < bytes_to_sectors n \<longleftrightarrow> k * 512 < n" if "n < 2 ^ 31"
proof -
  have "k * 512 < n \<longleftrightarrow> Suc k * 512 \<le> n + 511" by auto
  also have "\<dots> \<longleftrightarrow> Suc k \<le> (n + 511) div 512" by (rule less_eq_div_iff_mult_less_eq [symmetric]) simp
  finally show ?thesis using that by (simp add: bytes_to_sectors_eq Suc_le_eq)
qed

lemma alloc_inv_swap:
  assumes "alloc_inv (set_inode ip a s)" and "free_map_file s \<noteq> Some ip" and "own_sectors s b = own_sectors s a" and "inode_wf s b"
  shows "alloc_inv (set_inode ip b s)"
proof -
  have e: "\<exists>j'. inodes (set_inode ip a s) jp = Some j' \<and> own_sectors s j = own_sectors s j' \<and> inode_wf s j"
    if "inodes (set_inode ip b s) jp = Some j" for jp j
    using that assms(3,4) fs_ok_wf [of "set_inode ip a s" jp j] assms(1) by (auto simp: alloc_inv_def split: if_splits)
  then have "fs_ok (set_inode ip b s)"
  proof -
    have o: "fs_ok (set_inode ip a s)" using assms(1) by (simp add: alloc_inv_def)
    have "own_sectors s j \<inter> own_sectors s k = {}"
      if h: "inodes (set_inode ip b s) jp = Some j" "inodes (set_inode ip b s) kp = Some k" "jp \<noteq> kp" for jp kp j k
    proof -
      from e [OF h(1)] e [OF h(2)] obtain j' k' where "inodes (set_inode ip a s) jp = Some j'" "inodes (set_inode ip a s) kp = Some k'"
        "own_sectors s j = own_sectors s j'" "own_sectors s k = own_sectors s k'" by blast
      then show ?thesis using fs_ok_disjoint [OF o _ _ h(3)] by simp
    qed
    moreover have "cache_inv (cache (set_inode ip b s))" using o by (simp add: fs_ok_def)
    moreover have "inode_wf s j" if "inodes (set_inode ip b s) jp = Some j" for jp j using e [OF that] by blast
    ultimately show ?thesis unfolding fs_ok_def own_set_inode by blast
  qed
  moreover have "map_file_ok (set_inode ip b s)" using assms(1,2) by (auto simp: alloc_inv_def map_file_ok_def)
  ultimately show ?thesis using assms(1) e unfolding alloc_inv_def own_set_inode used_set_inode
    by (metis set_inode_simps(1-3))
qed

lemma alloc_inv_length:
  assumes "alloc_inv (set_inode ip (ino\<lparr>i_length := m\<rparr>) s)" and "free_map_file s \<noteq> Some ip"
    and len: "bytes_to_sectors m = bytes_to_sectors n" "m < 2 ^ 31" "n \<le> MAX_BLOCKS * 512" "length_shown ino \<le> n"
  shows "alloc_inv (set_inode ip (ino\<lparr>i_length := n\<rparr>) s)"
proof -
  have n: "n < 2 ^ 31" using len(3) by (simp add: MAX_BLOCKS_def)
  have eq: "k * 512 < m \<longleftrightarrow> k * 512 < n" for k using sectors_iff [OF len(2), of k] sectors_iff [OF n, of k] len(1) by simp
  have "inode_wf s (ino\<lparr>i_length := m\<rparr>)"
    using fs_ok_wf [of "set_inode ip (ino\<lparr>i_length := m\<rparr>) s" ip] assms(1) by (simp add: alloc_inv_def)
  then have "inode_wf s (ino\<lparr>i_length := n\<rparr>)" using len eq by (simp add: inode_wf_def all_data_def all_index_def)
  then show ?thesis by (rule alloc_inv_swap [OF assms(1,2), rotated]) (simp add: own_sectors_def all_data_def all_index_def eq)
qed

lemma contents_prefix: "n \<le> m \<Longrightarrow> contents s (ino\<lparr>i_length := n\<rparr>) = take n (contents s (ino\<lparr>i_length := m\<rparr>))"
  by (simp add: contents_def file_byte_def take_map)

lemma sectors_of_sectors: "512 * k < 2 ^ 31 \<Longrightarrow> bytes_to_sectors (512 * k) = k"
  by (simp add: bytes_to_sectors_eq)

lemma sectors_cover: "n < 2 ^ 31 \<Longrightarrow> n \<le> 512 * bytes_to_sectors n"
  by (simp add: bytes_to_sectors_eq)

text \<open>The place of the next sector, as \<open>inode_grow\<close> leaves it in the inode.\<close>

definition at_end :: "inode \<Rightarrow> bool" where
  "at_end ino \<longleftrightarrow> ptr_idx ino = slot_pos (bytes_to_sectors (i_length ino)) \<and> indir_idx ino = slot_ofs (bytes_to_sectors (i_length ino))"

locale sector_allocator =
  fixes alloc :: allocator
  assumes alloc_law: "alloc_inv (set_inode ip jno s) \<Longrightarrow> free_map_file s \<noteq> Some ip \<Longrightarrow> free_sectors s \<noteq> {} \<Longrightarrow>
    \<exists>x s'. alloc s = Some (Some x, s') \<and> took ip jno {x} {} s s'"
begin

lemma new_block:
  assumes inv: "alloc_inv (set_inode ip jno s)" and nf: "free_map_file s \<noteq> Some ip" and fr: "free_sectors s \<noteq> {}"
  shows "\<exists>x s1 s2. alloc s = Some (Some x, s1) \<and> inodes s1 ip = inodes s ip \<and> fs_write_sector x data_default s1 = Some s2
     \<and> took ip jno {x} {x} s s2 \<and> cview (cache s2) x = data_default"
proof -
  from alloc_law [OF assms] obtain x s1 where x: "alloc s = Some (Some x, s1)" "took ip jno {x} {} s s1" by blast
  have n: "x \<notin> used_sectors s" using x(2) free_not_used by (auto simp: took_def)
  have inv1: "alloc_inv (set_inode ip jno s1)" and nf1: "free_map_file s1 \<noteq> Some ip" and u1: "x \<in> used_sectors s1"
    using x(2) nf by (auto simp: took_def apart_def)
  have c1: "x \<notin> cached (cache s1)"
    using x(2) n map_data_used(1) [OF inv nf] inv by (auto simp: took_def alloc_inv_def)
  have own: "x \<notin> own_sectors s1 j" if j: "inodes (set_inode ip jno s1) jp = Some j" for jp j
  proof -
    from x(2) j obtain j0 where "inodes (set_inode ip jno s) jp = Some j0" "own_sectors s1 j = own_sectors s j0"
      unfolding took_def same_owners_def by (metis own_set_inode(1))
    then have "own_sectors s1 j \<subseteq> used_sectors s" using inv unfolding alloc_inv_def by (metis own_set_inode(1) used_set_inode(1))
    with n show ?thesis by blast
  qed
  have "length data_default = DISK_SECTOR_SIZE" by (simp add: data_default_def)
  from write_fresh [OF inv1 nf1 u1 c1 _ this] own obtain s2 where
    "fs_write_sector x data_default s1 = Some s2" "took ip jno {} {x} s1 s2" "cview (cache s2) x = data_default"
    by blast
  then show ?thesis using x took_trans [OF x(2), of "{}" "{x}" s2] by (auto simp: took_def)
qed

lemma fill_loop_spec:
  assumes "alloc_inv (set_inode ip jno s)" and "free_map_file s \<noteq> Some ip" and "min n sectors \<le> card (free_sectors s)"
    and "i + n \<le> length block"
  shows "\<exists>xs s'. fill_loop n alloc i sectors block s
        = Some (True, i + min n sectors, sectors - min n sectors, take i block @ xs @ drop (i + min n sectors) block, s')
     \<and> length xs = min n sectors \<and> distinct xs \<and> took ip jno (set xs) (set xs) s s' \<and> (\<forall>x \<in> set xs. cview (cache s') x = data_default)"
  using assms
proof (induction n arbitrary: i sectors block s)
  case 0
  then show ?case using took_refl [of ip jno s] by (intro exI [of _ "[]"]) simp
next
  case (Suc n)
  show ?case
  proof (cases "sectors = 0")
    case True
    then show ?thesis using took_refl [OF Suc.prems(1)] by (intro exI [of _ "[]"]) simp
  next
    case False
    then have m: "min (Suc n) sectors = Suc (min n (sectors - 1))" by simp
    have "free_sectors s \<noteq> {}" using Suc.prems(3) m by auto
    from new_block [OF Suc.prems(1,2) this] obtain x s1 s2 where x: "alloc s = Some (Some x, s1)"
      "fs_write_sector x data_default s1 = Some s2" "took ip jno {x} {x} s s2" "cview (cache s2) x = data_default" by blast
    have c: "min n (sectors - 1) \<le> card (free_sectors s2)" by (rule took_size [OF x(3)]) (use Suc.prems(3) m in simp_all)
    have i2: "alloc_inv (set_inode ip jno s2)" "free_map_file s2 \<noteq> Some ip" using x(3) Suc.prems(2) by (auto simp: took_def apart_def)
    have "Suc i + n \<le> length (block[i := x])" using Suc.prems(4) by simp
    from Suc.IH [OF i2 c this] obtain xs s' where xs: "fill_loop n alloc (Suc i) (sectors - 1) (block[i := x]) s2
        = Some (True, Suc i + min n (sectors - 1), sectors - 1 - min n (sectors - 1),
            take (Suc i) (block[i := x]) @ xs @ drop (Suc i + min n (sectors - 1)) (block[i := x]), s')"
      "length xs = min n (sectors - 1)" "distinct xs" "took ip jno (set xs) (set xs) s2 s'"
      "\<forall>y \<in> set xs. cview (cache s') y = data_default" by blast
    have t: "took ip jno (set (x # xs)) (set (x # xs)) s s'" using took_trans [OF x(3) xs(4)] by simp
    have nx: "x \<notin> set xs" using xs(4) x(3) free_not_used by (fastforce simp: took_def)
    have "map_data s \<subseteq> used_sectors s" "x \<notin> used_sectors s"
      using map_data_used(1) [OF Suc.prems(1,2)] x(3) free_not_used by (auto simp: took_def)
    then have "x \<notin> map_data s2 \<union> set xs" using x(3) nx by (auto simp: took_def)
    then have "cview (cache s') x = data_default" using xs(4) x(4) by (simp add: took_def fs_step_def)
    moreover have "take (Suc i) (block[i := x]) @ xs @ drop (Suc i + min n (sectors - 1)) (block[i := x])
        = take i block @ (x # xs) @ drop (i + min (Suc n) sectors) block"
      using Suc.prems(4) m by (simp add: take_Suc_conv_app_nth)
    ultimately show ?thesis using x(1,2) xs nx t m False by (intro exI [of _ "x # xs"] exI [of _ s']) simp
  qed
qed

lemma direct_step:
  assumes st: "stage ip k ino s" and k: "k < 4" and fr: "free_sectors s \<noteq> {}"
  shows "\<exists>x s1 s' ino'. alloc s = Some (Some x, s1)
     \<and> fs_write_sector x data_default (upd_inode ip (\<lambda>ino. ino\<lparr>ptrs := (ptrs ino)[k := x]\<rparr>) s1) = Some s'
     \<and> grows ip k 1 ino ino' s s' \<and> x \<in> free_sectors s \<and> free_sectors s' = free_sectors s - {x}"
proof -
  define jno where "jno = ino\<lparr>i_length := 512 * k\<rparr>"
  note j = stage_jno [OF st, folded jno_def]
  from new_block [OF j(1,2) fr] obtain x s1 s2 where x: "alloc s = Some (Some x, s1)" "inodes s1 ip = inodes s ip"
    "fs_write_sector x data_default s1 = Some s2" "took ip jno {x} {x} s s2" "cview (cache s2) x = data_default" by blast
  define ino' where "ino' = ino\<lparr>ptrs := (ptrs ino)[k := x]\<rparr>"
  have io: "inodes s ip = Some ino" using st by (simp add: stage_def)
  have w: "fs_write_sector x data_default (upd_inode ip (\<lambda>ino. ino\<lparr>ptrs := (ptrs ino)[k := x]\<rparr>) s1) = Some (set_inode ip ino' s2)"
    using fs_write_set_inode [OF x(3), of ip ino'] x(2) io by (simp add: upd_inode_eq ino'_def)
  have inv2: "alloc_inv (set_inode ip jno s2)" "free_map_file s2 \<noteq> Some ip" using x(4) j(2) by (auto simp: took_def apart_def)
  have b: "data_block (fs_disk s') (ptrs ino') i = (if i = k then x else data_block (fs_disk s) (ptrs jno) i)"
    "index_blocks (fs_disk s') (ptrs ino') i = {}" if "i < Suc k" for i s'
    using that k j(3) by (auto simp: data_block_def index_blocks_def ino'_def jno_def nth_list_update)
  have t: "took ip jno (set [x] \<union> {}) (set [x]) s s2" using x(4) by simp
  note e = extend_blocks [OF j(1,2) _ t _ _ took_refl [OF inv2(1)], where k = k and IX = "all_index (fs_disk s) jno" and ino = "ino'\<lparr>i_length := 512 * Suc k\<rparr>"]
  have "alloc_inv (set_inode ip (ino'\<lparr>i_length := 512 * Suc k\<rparr>) s2) \<and>
      contents s2 (ino'\<lparr>i_length := 512 * Suc k\<rparr>) = contents s jno @ replicate (512 * length [x]) 0"
    by (intro conjI e) (use k st j(3) b x(5) in \<open>simp_all add: jno_def ino'_def MAX_BLOCKS_def stage_def\<close>)
  moreover have "slot_ofs (Suc k) = slot_ofs k" using k by (simp add: slot_ofs_def)
  moreover have "apart ip s (set_inode ip ino' s2)" using x(4) by (simp add: took_def apart_def)
  moreover have "frame ip s (set_inode ip ino' s2)" by (rule frame_set_inode(1) [OF took_frame [OF x(4)] j(2) inv2(2)])
  ultimately have "grows ip k 1 ino ino' s (set_inode ip ino' s2)"
    using st inv2(2) by (simp add: grows_def stage_def jno_def) (simp add: ino'_def)
  moreover have "x \<in> free_sectors s" "free_sectors (set_inode ip ino' s2) = free_sectors s - {x}" using x(4) by (auto simp: took_def)
  ultimately show ?thesis using x(1) w by blast
qed

lemma index_block:
  assumes st: "stage ip k ino s" and k: "4 \<le> k" "k < 1284" and fr: "slot_ofs k = 0 \<Longrightarrow> free_sectors s \<noteq> {}" and inner: "length inner = 128"
  defines "jno \<equiv> ino\<lparr>i_length := 512 * k\<rparr>" and "idx \<equiv> slot_pos k"
  shows "\<exists>inner1 ps s1. (if indir_idx ino = 0
         then Option.bind (alloc s) (\<lambda>(r, s1). case r of
             None \<Rightarrow> Some (False, inner, s1)
           | Some x \<Rightarrow> Some (True, inner, upd_inode ip (\<lambda>ino. ino\<lparr>ptrs := (ptrs ino)[idx := x]\<rparr>) s1))
         else Option.bind (ptr_at (ptrs ino) idx) (\<lambda>p.
              Option.bind (fs_read_sector p s) (\<lambda>(bytes, s1). Some (True, le_words bytes, s1)))) = Some (True, inner1, s1)
     \<and> length inner1 = 128 \<and> length ps = 15 \<and> (\<forall>i. i \<noteq> idx \<longrightarrow> ps ! i = ptrs ino ! i)
     \<and> took ip jno (if slot_ofs k = 0 then {ps ! idx} else {}) {} (set_inode ip (ino\<lparr>ptrs := ps\<rparr>) s) s1
     \<and> (slot_ofs k \<noteq> 0 \<longrightarrow> ps = ptrs ino \<and> inner1 = le_words (sector_at (fs_disk s) (ps ! idx)) \<and> ps ! idx \<in> all_index (fs_disk s) jno)"
proof -
  note j = stage_jno [OF st, folded jno_def]
  have io: "inodes s ip = Some ino" "indir_idx ino = slot_ofs k" using st by (simp_all add: stage_def)
  have idx: "idx < 15" using k by (simp add: idx_def slot_pos_def)
  show ?thesis
  proof (cases "slot_ofs k = 0")
    case True
    from alloc_law [OF j(1,2) fr [OF True]] obtain x s1 where x: "alloc s = Some (Some x, s1)" "took ip jno {x} {} s s1" by blast
    define ps where "ps = (ptrs ino)[idx := x]"
    have "inodes s1 ip = Some ino" using x(2) io by (simp add: took_def)
    moreover have "took ip jno {ps ! idx} {} (set_inode ip (ino\<lparr>ptrs := ps\<rparr>) s) (set_inode ip (ino\<lparr>ptrs := ps\<rparr>) s1)"
      using took_set [OF x(2) j(2)] j(3) idx by (simp add: ps_def)
    ultimately show ?thesis using x(1) True io j(3) inner
      by (intro exI [of _ inner] exI [of _ ps] exI [of _ "set_inode ip (ino\<lparr>ptrs := ps\<rparr>) s1"]) (simp add: upd_inode_eq ps_def)
  next
    case False
    let ?p = "ptrs ino ! idx" and ?j = "k - 1"
    have "k - 5 = k - 4 - 1" by simp
    moreover have "(k - 4 - 1) div 128 = (k - 4) div 128"
    proof -
      define q f where "q = (k - 4) div 128" and "f = (k - 4) mod 128"
      have "k - 4 = 128 * q + f" "f < 128" "f \<noteq> 0" using False k by (simp_all add: q_def f_def slot_ofs_def)
      then have "k - 4 - 1 = 128 * q + (f - 1)" "f - 1 < 128" by simp_all
      then show ?thesis by (simp add: q_def [symmetric])
    qed
    moreover have "\<not> ?j < 4" "?j < 1284" using False k by (auto simp: slot_ofs_def)
    ultimately have "index_blocks (fs_disk s) (ptrs ino) ?j = {?p}" using k by (simp add: index_blocks_def idx_def slot_pos_def)
    moreover have "?j * 512 < i_length jno" using k by (simp add: jno_def)
    ultimately have p: "?p \<in> all_index (fs_disk s) jno" by (force simp: all_index_def jno_def)
    then have v: "valid_sector (fs_disk s) ?p" using j(4) by (auto simp: inode_wf_def)
    have d: "disk_wf (fs_disk s)" using j(1) by (auto simp: alloc_inv_def fs_ok_def intro: cache_inv_disk)
    have "took ip jno {} {} s (bump (Suc (read_cnt (fs_disk s))) s)" by (rule took_bump [OF j(1)])
    then show ?thesis using False io fs_read_sector_spec [OF d v] le_words_sector [OF d v] j(3) p idx
      by (intro exI [of _ "le_words (sector_at (fs_disk s) ?p)"] exI [of _ "ptrs ino"] exI [of _ "bump (Suc (read_cnt (fs_disk s))) s"])
        (simp add: ptr_at_def)
  qed
qed

lemma indirect_step:
  assumes st: "stage ip k ino s" and k: "4 \<le> k" "k < 1284" and inner: "length inner = 128" and sec: "sectors \<noteq> 0"
  defines "m \<equiv> min (128 - slot_ofs k) sectors"
  assumes fr: "m + (if slot_ofs k = 0 then 1 else 0) \<le> card (free_sectors s)"
  shows "\<exists>ino' inner' s'. grow_loop alloc ip (slot_pos k) sectors inner dbl s = grow_loop alloc ip (slot_pos (k + m)) (sectors - m) inner' dbl s'
     \<and> length inner' = 128 \<and> grows ip k m ino ino' s s'
     \<and> card (free_sectors s) \<le> card (free_sectors s') + m + (if slot_ofs k = 0 then 1 else 0)"
proof -
  define jno where "jno = ino\<lparr>i_length := 512 * k\<rparr>"
  have ofs: "slot_ofs k < 128" by (simp add: slot_ofs_def)
  have m: "0 < m" "slot_ofs k + m \<le> 128" using sec ofs by (auto simp: m_def)
  have idx: "\<not> slot_pos k < 4" "slot_pos k < 14" using k by (auto simp: slot_pos_def)
  have io: "inodes s ip = Some ino" "indir_idx ino = slot_ofs k" "free_map_file s \<noteq> Some ip" using st by (simp_all add: stage_def)
  have "slot_ofs k = 0 \<Longrightarrow> free_sectors s \<noteq> {}" using fr by auto
  from index_block [OF st k this inner, folded jno_def] obtain inner1 ps s1 where
    ib: "(if indir_idx ino = 0
         then Option.bind (alloc s) (\<lambda>(r, s1). case r of
             None \<Rightarrow> Some (False, inner, s1)
           | Some x \<Rightarrow> Some (True, inner, upd_inode ip (\<lambda>ino. ino\<lparr>ptrs := (ptrs ino)[slot_pos k := x]\<rparr>) s1))
         else Option.bind (ptr_at (ptrs ino) (slot_pos k)) (\<lambda>p.
              Option.bind (fs_read_sector p s) (\<lambda>(bytes, s1). Some (True, le_words bytes, s1)))) = Some (True, inner1, s1)"
    and ps: "length inner1 = 128" "length ps = 15" "\<forall>i. i \<noteq> slot_pos k \<longrightarrow> ps ! i = ptrs ino ! i"
    and t1: "took ip jno (if slot_ofs k = 0 then {ps ! slot_pos k} else {}) {} (set_inode ip (ino\<lparr>ptrs := ps\<rparr>) s) s1"
    and old: "slot_ofs k \<noteq> 0 \<longrightarrow> ps = ptrs ino \<and> inner1 = le_words (sector_at (fs_disk s) (ps ! slot_pos k)) \<and> ps ! slot_pos k \<in> all_index (fs_disk s) jno"
    by blast
  define I where "I = (if slot_ofs k = 0 then {ps ! slot_pos k} else {})"
  note t1 = t1 [folded I_def]
  have nz: "free_map_file (set_inode ip (ino\<lparr>ptrs := ps\<rparr>) s) \<noteq> Some ip" using io by simp
  note i1 = took_inv [OF t1 nz]
  have in1: "inodes s1 ip = Some (ino\<lparr>ptrs := ps\<rparr>)" using i1(6) by simp
  have cI: "card I = (if slot_ofs k = 0 then 1 else 0)" "finite I" by (simp_all add: I_def)
  have c1: "min (128 - slot_ofs k) sectors \<le> card (free_sectors s1)" by (rule took_size [OF t1]) (use fr cI in \<open>simp_all add: m_def\<close>)
  have "slot_ofs k + (128 - slot_ofs k) \<le> length inner1" using ofs ps(1) by simp
  from fill_loop_spec [OF i1(1,2) c1 this, folded m_def] obtain xs s2 where
    fl: "fill_loop (128 - slot_ofs k) alloc (slot_ofs k) sectors inner1 s1
        = Some (True, slot_ofs k + m, sectors - m, take (slot_ofs k) inner1 @ xs @ drop (slot_ofs k + m) inner1, s2)"
    and xs: "length xs = m" "distinct xs" "took ip jno (set xs) (set xs) s1 s2" "\<forall>x \<in> set xs. cview (cache s2) x = data_default" by blast
  have xI: "set xs \<inter> I = {}" using took_inv(4) [OF xs(3) i1(2)] i1(3) by auto
  have t2: "took ip jno (set xs \<union> I) (set xs) (set_inode ip (ino\<lparr>ptrs := ps\<rparr>) s) s2"
    using took_trans [OF t1 xs(3)] by (simp add: Un_commute)
  define inner2 where "inner2 = take (slot_ofs k) inner1 @ xs @ drop (slot_ofs k + m) inner1"
  have "slot_ofs k + length xs \<le> 128" using xs(1) m(2) by simp
  moreover have "slot_ofs k \<noteq> 0 \<longrightarrow> ps = ptrs ino \<and> inner1 = le_words (sector_at (fs_disk s) (ps ! slot_pos k))"
    "slot_ofs k \<noteq> 0 \<longrightarrow> ps ! slot_pos k \<in> all_index (fs_disk s) (ino\<lparr>i_length := 512 * k\<rparr>)" using old unfolding jno_def by blast+
  ultimately obtain s3 where
    w: "fs_write_sector (ps ! slot_pos k) (words_bytes inner2) s2 = Some s3" "inodes s3 ip = Some (ino\<lparr>ptrs := ps\<rparr>)"
      "free_sectors s3 = free_sectors s2"
    and g: "grows ip k m ino (ino\<lparr>ptrs := ps, indir_idx := slot_ofs (k + m)\<rparr>) s (set_inode ip (ino\<lparr>ptrs := ps, indir_idx := slot_ofs (k + m)\<rparr>) s3)"
    using fill_index [OF st k ps(2,3,1) _ _ _ xs(2) xI [unfolded I_def] t2 [unfolded I_def jno_def] xs(4)]
    unfolding xs(1) inner2_def by blast
  have in2: "inodes s2 ip = Some (ino\<lparr>ptrs := ps\<rparr>)" using took_inv(6) [OF xs(3) i1(2)] in1 by simp
  have "grow_loop alloc ip (slot_pos k) sectors inner dbl s =
      (if slot_ofs k + m = 128
       then grow_loop alloc ip (Suc (slot_pos k)) (sectors - m) inner2 dbl (set_inode ip (ino\<lparr>ptrs := ps, indir_idx := 0\<rparr>) s3)
       else grow_loop alloc ip (slot_pos k) (sectors - m) inner2 dbl (set_inode ip (ino\<lparr>ptrs := ps, indir_idx := slot_ofs k + m\<rparr>) s3))"
  proof -
    have c: "(\<not> slot_pos k < NUM_PTRS \<or> sectors = 0) = False" "(slot_pos k < NUM_PTRS_DIR) = False"
      "(slot_pos k < NUM_PTRS_DIR + NUM_PTRS_INDIR) = True" using idx sec by (simp_all add: inode_consts)
    have fl': "fill_loop (128 - indir_idx (ino\<lparr>ptrs := ps\<rparr>)) alloc (indir_idx (ino\<lparr>ptrs := ps\<rparr>)) sectors inner1 s1
        = Some (True, slot_ofs k + m, sectors - m, inner2, s2)" using fl io(2) by (simp add: inner2_def PTR_PER_BLOCK_def)
    have pa: "ptr_at (ptrs (ino\<lparr>ptrs := ps\<rparr>)) (slot_pos k) = Some (ps ! slot_pos k)" using idx ps(2) by (simp add: ptr_at_def)
    let ?i = "ino\<lparr>ptrs := ps, indir_idx := slot_ofs k + m\<rparr>"
    have u: "upd_inode ip (\<lambda>ino. ino\<lparr>indir_idx := slot_ofs k + m\<rparr>) s2 = set_inode ip ?i s2"
      "upd_inode ip (\<lambda>ino. ino\<lparr>indir_idx := 0\<rparr>) (set_inode ip ?i s3) = set_inode ip (ino\<lparr>ptrs := ps, indir_idx := 0\<rparr>) s3"
      using in2 by (simp_all add: upd_inode_eq)
    have w': "fs_write_sector (ps ! slot_pos k) (words_bytes inner2) (set_inode ip ?i s2) = Some (set_inode ip ?i s3)"
      by (rule fs_write_set_inode [OF w(1)])
    show ?thesis
      by (subst grow_loop.simps)
        (simp only: c if_False if_True io(1) Option.bind.bind_lunit ib prod.case not_True_eq_False in1 fl' in2 pa u w' PTR_PER_BLOCK_def)
  qed
  then have run: "grow_loop alloc ip (slot_pos k) sectors inner dbl s =
      grow_loop alloc ip (slot_pos (k + m)) (sectors - m) inner2 dbl (set_inode ip (ino\<lparr>ptrs := ps, indir_idx := slot_ofs (k + m)\<rparr>) s3)"
    using slot_advance [OF k(1) m(2)] by simp
  have "card (free_sectors s) \<le> card (free_sectors s2) + m + card I"
    using t2 card_Un_le [of "set xs" I] distinct_card [OF xs(2)] xs(1) diff_card_le_card_Diff [of "set xs \<union> I" "free_sectors s"] cI(2)
    by (simp add: took_def)
  then have free: "card (free_sectors s) \<le> card (free_sectors (set_inode ip (ino\<lparr>ptrs := ps, indir_idx := slot_ofs (k + m)\<rparr>) s3)) + m
      + (if slot_ofs k = 0 then 1 else 0)" unfolding cI(1) by (simp add: w(3))
  have "length inner2 = 128" using ps(1) xs(1) m(2) by (simp add: inner2_def)
  with run g free show ?thesis by blast
qed

lemma grow_loop_spec:
  assumes "stage ip k ino s" and "k + n \<le> 1284" and "length inner = 128" and "n \<noteq> 0 \<Longrightarrow> n + (14 - slot_pos k) \<le> card (free_sectors s)"
  shows "\<exists>ino' s'. grow_loop alloc ip (slot_pos k) n inner dbl s = Some (Some (slot_pos (k + n)), s') \<and> grows ip k n ino ino' s s'"
  using assms
proof (induction n arbitrary: k ino inner s rule: less_induct)
  case (less n)
  consider "n = 0" | "n \<noteq> 0" "k < 4" | "n \<noteq> 0" "4 \<le> k" by linarith
  then show ?case
  proof cases
    case 1
    then show ?thesis using grows_refl [OF less.prems(1)] by (subst grow_loop.simps) auto
  next
    case 2
    have io: "inodes s ip = Some ino" using less.prems(1) by (simp add: stage_def)
    have fr: "free_sectors s \<noteq> {}" using less.prems(4) 2 by auto
    from direct_step [OF less.prems(1) 2(2) fr] obtain x s1 s2 ino2 where x: "alloc s = Some (Some x, s1)"
      "fs_write_sector x data_default (upd_inode ip (\<lambda>ino. ino\<lparr>ptrs := (ptrs ino)[k := x]\<rparr>) s1) = Some s2"
      "grows ip k 1 ino ino2 s s2" "x \<in> free_sectors s" "free_sectors s2 = free_sectors s - {x}" by blast
    have sp: "slot_pos k = k" "slot_pos (Suc k) = Suc k" using 2 by (auto simp: slot_pos_def)
    have st: "stage ip (Suc k) ino2 s2" using x(3) by (simp add: grows_def)
    have c: "n - 1 + (14 - slot_pos (Suc k)) \<le> card (free_sectors s2)" using less.prems(4) 2 x(4,5) sp by (simp add: card_Diff_singleton)
    have "\<exists>ino' s'. grow_loop alloc ip (slot_pos (Suc k)) (n - 1) inner dbl s2 = Some (Some (slot_pos (Suc k + (n - 1))), s')
        \<and> grows ip (Suc k) (n - 1) ino2 ino' s2 s'"
      by (rule less.IH [OF _ st _ less.prems(3) c]) (use 2 less.prems(2) in auto)
    then obtain ino' s' where r: "grow_loop alloc ip (Suc k) (n - 1) inner dbl s2 = Some (Some (slot_pos (k + n)), s')"
      "grows ip (Suc k) (n - 1) ino2 ino' s2 s'" using 2 sp by auto
    have "grow_loop alloc ip k n inner dbl s = Some (Some (slot_pos (k + n)), s')"
      using 2 r(1) x(1,2) by (subst grow_loop.simps) (simp add: inode_consts)
    moreover have "grows ip k n ino ino' s s'" using grows_trans [OF x(3), of "n - 1" ino' s'] r(2) 2 by simp
    ultimately show ?thesis using sp by auto
  next
    case 3
    define m where "m = min (128 - slot_ofs k) n"
    have m: "0 < m" "m \<le> n" using 3 by (auto simp: m_def slot_ofs_def)
    have k: "k < 1284" using less.prems(2) 3 by simp
    have sp: "slot_pos k < 14" using 3 k by (auto simp: slot_pos_def)
    have fr: "m + (if slot_ofs k = 0 then 1 else 0) \<le> card (free_sectors s)" using less.prems(4) 3 m sp by auto
    from indirect_step [OF less.prems(1) 3(2) k less.prems(3) 3(1) fr [unfolded m_def], of dbl, folded m_def] obtain ino2 inner2 s2 where
      r: "grow_loop alloc ip (slot_pos k) n inner dbl s = grow_loop alloc ip (slot_pos (k + m)) (n - m) inner2 dbl s2"
      "length inner2 = 128" "grows ip k m ino ino2 s s2" "card (free_sectors s) \<le> card (free_sectors s2) + m + (if slot_ofs k = 0 then 1 else 0)"
      by blast
    have st: "stage ip (k + m) ino2 s2" using r(3) by (simp add: grows_def)
    have c: "n - m + (14 - slot_pos (k + m)) \<le> card (free_sectors s2)" if "n - m \<noteq> 0"
    proof -
      have "slot_ofs k + m = 128" using that 3 by (auto simp: m_def slot_ofs_def)
      then have "slot_pos (k + m) = Suc (slot_pos k)" using slot_advance(1) [OF 3(2), of m] by simp
      then show ?thesis using r(4) less.prems(4) 3(1) sp m by (auto split: if_splits)
    qed
    have "\<exists>ino' s'. grow_loop alloc ip (slot_pos (k + m)) (n - m) inner2 dbl s2 = Some (Some (slot_pos (k + m + (n - m))), s')
        \<and> grows ip (k + m) (n - m) ino2 ino' s2 s'"
      by (rule less.IH [OF _ st _ r(2) c]) (use m 3 less.prems(2) in auto)
    then obtain ino' s' where r2: "grow_loop alloc ip (slot_pos (k + m)) (n - m) inner2 dbl s2 = Some (Some (slot_pos (k + n)), s')"
      "grows ip (k + m) (n - m) ino2 ino' s2 s'" using m by auto
    have "grows ip k n ino ino' s s'" using grows_trans [OF r(3) r2(2)] m by simp
    with r(1) r2(1) show ?thesis by auto
  qed
qed

lemma inode_grow_spec:
  assumes inv: "alloc_inv s" and ip: "inodes s ip = Some ino" and nf: "free_map_file s \<noteq> Some ip" and e: "at_end ino"
    and len: "i_length ino \<le> len" "len \<le> 1284 * 512"
    and fr: "bytes_to_sectors len - bytes_to_sectors (i_length ino) + 14 \<le> card (free_sectors s)"
  shows "\<exists>ps ii s'. inode_grow alloc ip len s = Some (True, s')
     \<and> inodes s' ip = Some (ino\<lparr>ptrs := ps, indir_idx := ii, ptr_idx := slot_pos (bytes_to_sectors len), is_allocated := 1\<rparr>)
     \<and> ii = slot_ofs (bytes_to_sectors len) \<and> apart ip s s' \<and> frame ip s s'
     \<and> alloc_inv (set_inode ip (ino\<lparr>ptrs := ps, i_length := len\<rparr>) s')
     \<and> take (i_length ino) (contents s' (ino\<lparr>ptrs := ps, i_length := len\<rparr>)) = contents s ino"
proof -
  define k n where "k = bytes_to_sectors (i_length ino)" and "n = bytes_to_sectors len - k"
  have b: "i_length ino < 2 ^ 31" "len < 2 ^ 31" using len by simp_all
  have kn: "k + n = bytes_to_sectors len" "k + n \<le> 1284"
    using len b div_le_mono [of "i_length ino + 511" "len + 511" 512] div_le_mono [of "len + 511" "1284 * 512 + 511" 512]
    by (simp_all add: k_def n_def bytes_to_sectors_eq)
  have k: "k \<le> 1284" "i_length ino \<le> 512 * k" using kn sectors_cover [OF b(1)] by (simp_all add: k_def)
  have wf: "inode_wf s ino" using fs_ok_wf [OF _ ip] inv by (simp add: alloc_inv_def)
  have sh: "length_shown ino \<le> i_length ino" using wf by (simp add: inode_wf_def)
  have inv0: "alloc_inv (set_inode ip (ino\<lparr>i_length := i_length ino\<rparr>) s)" using inv ip by simp
  have "alloc_inv (set_inode ip (ino\<lparr>i_length := 512 * k\<rparr>) s)"
    by (rule alloc_inv_length [OF inv0 nf _ b(1)]) (use k sh in \<open>simp_all add: sectors_of_sectors MAX_BLOCKS_def k_def [symmetric]\<close>)
  then have st: "stage ip k ino s" using ip nf e k(2) sh by (simp add: stage_def at_end_def k_def)
  have "length (uninit_block s) = 128" by (simp add: uninit_block_def PTR_PER_BLOCK_def)
  moreover have "n + (14 - slot_pos k) \<le> card (free_sectors s)" using fr by (simp add: n_def k_def)
  ultimately obtain ino' s' where
    r: "grow_loop alloc ip (slot_pos k) n (uninit_block s) (uninit_block s) s = Some (Some (slot_pos (k + n)), s')" "grows ip k n ino ino' s s'"
    using grow_loop_spec [OF st kn(2), of "uninit_block s" "uninit_block s"] by blast
  define ps where "ps = ptrs ino'"
  have ino': "ino' = ino\<lparr>ptrs := ps, indir_idx := slot_ofs (k + n)\<rparr>" using r(2) by (auto simp: grows_def stage_def ps_def)
  have s': "stage ip (k + n) ino' s'" "apart ip s s'" "frame ip s s'" using r(2) by (simp_all add: grows_def)
  let ?s = "set_inode ip (ino\<lparr>ptrs := ps, indir_idx := slot_ofs (k + n), ptr_idx := slot_pos (k + n), is_allocated := 1\<rparr>) s'"
  have run: "inode_grow alloc ip len s = Some (True, ?s)"
    using r(1) ip s'(1) e by (simp add: inode_grow_def stage_def at_end_def n_def k_def upd_inode_eq ino')
  have irrel: "inode_wf z (x\<lparr>indir_idx := i\<rparr>) = inode_wf z x" "own_sectors z (x\<lparr>indir_idx := i\<rparr>) = own_sectors z x"
    "contents z (x\<lparr>indir_idx := i\<rparr>) = contents z x" for z x i
    by (simp_all add: inode_wf_def own_sectors_def all_data_def all_index_def contents_def file_byte_def)
  have c: "ino'\<lparr>i_length := l\<rparr> = (ino\<lparr>ptrs := ps, i_length := l\<rparr>)\<lparr>indir_idx := slot_ofs (k + n)\<rparr>" for l by (simp add: ino')
  note j = stage_jno [OF s'(1)]
  have "alloc_inv (set_inode ip (ino\<lparr>ptrs := ps, i_length := 512 * (k + n)\<rparr>) s')"
    by (rule alloc_inv_swap [OF j(1,2)]) (use j(4) in \<open>simp_all add: c irrel\<close>)
  then have "alloc_inv (set_inode ip ((ino\<lparr>ptrs := ps\<rparr>)\<lparr>i_length := len\<rparr>) s')"
    by (rule alloc_inv_length [where m = "512 * (k + n)", OF _ j(2)]) (use kn len sh in \<open>simp_all add: sectors_of_sectors MAX_BLOCKS_def\<close>)
  moreover have "take (i_length ino) (contents s' ((ino\<lparr>ptrs := ps\<rparr>)\<lparr>i_length := len\<rparr>)) = contents s (ino\<lparr>i_length := i_length ino\<rparr>)"
  proof -
    have "contents s' (ino\<lparr>ptrs := ps, i_length := 512 * (k + n)\<rparr>) = contents s (ino\<lparr>i_length := 512 * k\<rparr>) @ replicate (512 * n) 0"
      using r(2) unfolding grows_def c irrel by blast
    moreover have "contents s' ((ino\<lparr>ptrs := ps\<rparr>)\<lparr>i_length := len\<rparr>) = take len (contents s' ((ino\<lparr>ptrs := ps\<rparr>)\<lparr>i_length := 512 * (k + n)\<rparr>))"
      using contents_prefix sectors_cover [OF b(2)] kn(1) by metis
    moreover have "contents s (ino\<lparr>i_length := i_length ino\<rparr>) = take (i_length ino) (contents s (ino\<lparr>i_length := 512 * k\<rparr>))"
      using contents_prefix k(2) by blast
    ultimately show ?thesis using k(2) len(1) by (simp add: min_def)
  qed
  moreover have "apart ip s ?s" "frame ip s ?s" using s'(2) frame_set_inode(1) [OF s'(3) nf] j(2) by (simp_all add: apart_def)
  ultimately show ?thesis using run kn(1) by (intro exI [of _ ps]) auto
qed

end

interpretation free_map_alloc: sector_allocator "free_map_allocate_with (inode_write_at (Suc depth)) 1" for depth
proof
  fix ip jno s
  assume "alloc_inv (set_inode ip jno s)" "free_map_file s \<noteq> Some ip" "free_sectors s \<noteq> {}"
  from alloc_spec [OF this, of depth]
  show "\<exists>x s'. free_map_allocate_with (inode_write_at (Suc depth)) 1 s = Some (Some x, s') \<and> took ip jno {x} {} s s'"
    by (fastforce simp: took_def fs_step_def)
qed

section \<open>Appending\<close>

text \<open>A write past the end of a file first grows it, and is then a write inside it.\<close>

lemma inode_write_grow:
  fixes depth :: nat
  assumes inv: "alloc_inv s" and ip: "inodes s ip = Some ino" and w: "writable ino" and nf: "free_map_file s \<noteq> Some ip" and e: "at_end ino"
    and len: "i_length ino < len" "len \<le> 1284 * 512" "len = sz + offset"
    and fr: "bytes_to_sectors len - bytes_to_sectors (i_length ino) + 14 \<le> card (free_sectors s)"
  shows "\<exists>ino' s'. inode_write_at (Suc (Suc depth)) ip buf sz offset s = inode_write_at (Suc (Suc depth)) ip buf sz offset s'
     \<and> inodes s' ip = Some ino' \<and> writable ino' \<and> at_end ino' \<and> i_length ino' = len \<and> length_shown ino' = length_shown ino
     \<and> same_id ino ino' \<and> apart ip s s' \<and> alloc_inv s' \<and> take (i_length ino) (contents s' ino') = contents s ino"
proof -
  define l where "l = (if is_dir ino = 0 then ino\<lparr>i_lock := True\<rparr> else ino)"
  define s1 where "s1 = set_inode ip l s"
  have lf: "ptrs l = ptrs ino" "i_length l = i_length ino" "length_shown l = length_shown ino" "at_end l" "is_dir l = is_dir ino"
    "deny_write_cnt l = deny_write_cnt ino" using e by (simp_all add: l_def at_end_def)
  have wf: "inode_wf s ino" using fs_ok_wf [OF _ ip] inv by (simp add: alloc_inv_def)
  have inv1: "alloc_inv s1" unfolding s1_def
    by (rule alloc_inv_swap [of ip ino]) (use inv ip nf wf same_sectors [OF lf(1,2)] lf(2,3) in \<open>auto simp: inode_wf_def\<close>)
  have i1: "inodes s1 ip = Some l" "free_map_file s1 \<noteq> Some ip" "apart ip s s1" using nf by (simp_all add: s1_def apart_def)
  have fr1: "bytes_to_sectors len - bytes_to_sectors (i_length l) + 14 \<le> card (free_sectors s1)" using fr lf(2) by (simp add: s1_def)
  have len1: "i_length l \<le> len" using len(1) lf(2) by simp
  from free_map_alloc.inode_grow_spec [OF inv1 i1(1,2) lf(4) len1 len(2) fr1, of depth] obtain ps s2 where
    g: "inode_grow (free_map_allocate_with (inode_write_at (Suc depth)) 1) ip len s1 = Some (True, s2)"
    "inodes s2 ip = Some (l\<lparr>ptrs := ps, indir_idx := slot_ofs (bytes_to_sectors len), ptr_idx := slot_pos (bytes_to_sectors len), is_allocated := 1\<rparr>)"
    "apart ip s1 s2" "alloc_inv (set_inode ip (l\<lparr>ptrs := ps, i_length := len\<rparr>) s2)"
    "take (i_length l) (contents s2 (l\<lparr>ptrs := ps, i_length := len\<rparr>)) = contents s1 l" by blast
  define ino' where "ino' = ino\<lparr>ptrs := ps, i_length := len, indir_idx := slot_ofs (bytes_to_sectors len),
    ptr_idx := slot_pos (bytes_to_sectors len), is_allocated := 1\<rparr>"
  define s' where "s' = set_inode ip ino' s2"
  have same: "ptrs ino' = ptrs (l\<lparr>ptrs := ps, i_length := len\<rparr>)" "i_length ino' = i_length (l\<lparr>ptrs := ps, i_length := len\<rparr>)"
    by (simp_all add: ino'_def)
  have w': "writable ino'" "at_end ino'" "i_length ino' = len" "length_shown ino' = length_shown ino" "same_id ino ino'"
    using w by (simp_all add: ino'_def writable_def at_end_def same_id_def)
  have run: "inode_write_at (Suc (Suc depth)) ip buf sz offset s = write_loop ip buf sz offset 0 s'"
    using ip w len g(1,2) unfolding inode_write_at.simps(2) [of "Suc depth"] inode_write_body_def
    by (cases "is_dir ino = 0") (auto simp: writable_def inode_is_dir_def inode_lock_acquire_def inode_lock_release_def upd_inode_eq
        is_minus_1_def s1_def l_def s'_def ino'_def simp del: inode_write_at.simps, (cases ino, simp)+)
  have in': "inodes s' ip = Some ino'" by (simp add: s'_def)
  have run': "inode_write_at (Suc (Suc depth)) ip buf sz offset s' = write_loop ip buf sz offset 0 s'"
    using inode_write_body_inside [OF in' w'(1)] w'(3) len(3) by simp
  have wf2: "inode_wf s2 (l\<lparr>ptrs := ps, i_length := len\<rparr>)"
    using fs_ok_wf [of "set_inode ip (l\<lparr>ptrs := ps, i_length := len\<rparr>) s2" ip] g(4) by (simp add: alloc_inv_def)
  have nf2: "free_map_file s2 \<noteq> Some ip" using g(3) i1(2) by (simp add: apart_def)
  have "inode_wf s2 ino'" using same_sectors(3) [OF same _ wf2] wf2 lf(3) by (simp add: inode_wf_def ino'_def)
  then have inv': "alloc_inv s'" unfolding s'_def
    by (rule alloc_inv_swap [OF g(4) nf2, rotated]) (rule same_sectors(1) [OF same])
  have "contents s' ino' = contents s2 (l\<lparr>ptrs := ps, i_length := len\<rparr>)" using same_sectors(2) [OF same] by (simp add: s'_def)
  moreover have "contents s1 l = contents s ino" using same_sectors(2) [OF lf(1,2)] by (simp add: s1_def)
  ultimately have "take (i_length ino) (contents s' ino') = contents s ino" using g(5) lf(2) by simp
  moreover have "apart ip s s'" using apart_trans [OF i1(3) g(3)] by (simp add: s'_def apart_def)
  ultimately show ?thesis using run run' in' w' inv' by metis
qed

lemma write_inside_inv:
  fixes depth :: nat
  assumes inv: "alloc_inv s" and ip: "inodes s ip = Some ino" and w: "writable ino" and nf: "free_map_file s \<noteq> Some ip"
    and len: "offset + length bs \<le> i_length ino"
  defines "ino' \<equiv> ino\<lparr>length_shown := min (i_length ino) (length_shown ino + length bs)\<rparr>"
  shows "\<exists>s'. inode_write_at (Suc depth) ip bs (length bs) offset s = Some (length bs, s') \<and> alloc_inv s' \<and> inodes s' ip = Some ino'
     \<and> contents s' ino' = overwrite offset bs (contents s ino) \<and> apart ip s s'"
proof -
  have ok: "fs_ok s" using inv by (simp add: alloc_inv_def)
  have wf: "inode_wf s ino" and ci: "cache_inv (cache s)" using ok ip by (auto simp: fs_ok_def)
  from inode_write_at_inside [OF ip wf ci w, of "length bs" bs offset depth] len obtain c where c:
    "inode_write_at (Suc depth) ip bs (length bs) offset s = Some (length bs, set_inode ip ino' (s\<lparr>cache := c\<rparr>))"
    "cache_inv c" "fs_step (all_data (fs_disk s) ino) s (s\<lparr>cache := c\<rparr>)"
    "contents (s\<lparr>cache := c\<rparr>) ino = overwrite offset bs (contents s ino)" unfolding ino'_def by auto
  define s1 where "s1 = s\<lparr>cache := c\<rparr>"
  note st = fs_ok_step [OF ok ip c(2,3), folded s1_def]
  have own: "own_sectors s1 j \<subseteq> used_sectors s" if "inodes s jp = Some j" for jp j
    using st(2) [OF that] inv that unfolding alloc_inv_def by auto
  have cs: "fs_step (all_data (fs_disk s) ino) s s1" using c(3) by (simp add: s1_def)
  have inv1: "alloc_inv s1"
  proof (rule alloc_inv_step [OF inv st(1)])
    have "all_data (fs_disk s) ino \<subseteq> used_sectors s" "cached (cache s) \<subseteq> used_sectors s"
      using inv ip unfolding alloc_inv_def own_sectors_def by auto
    then show "cached (cache s1) \<subseteq> used_sectors s" using cs by (auto simp: fs_step_def)
  qed (use own cs in \<open>auto simp: fs_step_def, auto simp: s1_def\<close>)
  have same: "ptrs ino' = ptrs ino" "i_length ino' = i_length ino" by (simp_all add: ino'_def)
  have wf1: "inode_wf s1 ino" using fs_ok_wf [OF st(1), of ip ino] ip by (simp add: s1_def)
  have in1: "inodes s1 ip = Some ino" "free_map_file s1 \<noteq> Some ip" using ip nf by (simp_all add: s1_def)
  have "alloc_inv (set_inode ip ino' s1)"
    by (rule alloc_inv_swap [of ip ino])
      (use in1 inv1 same_sectors(1) [OF same] same_sectors(3) [OF same _ wf1] in \<open>simp_all add: ino'_def\<close>)
  moreover have "contents (set_inode ip ino' s1) ino' = overwrite offset bs (contents s ino)"
    using c(4) same_sectors(2) [OF same] by (simp add: s1_def)
  moreover have "apart ip s (set_inode ip ino' s1)"
    using st(3) cs by (auto simp: apart_def s1_def shown_def fs_step_def split: option.split)
  ultimately show ?thesis using c(1) by (auto simp: s1_def)
qed

lemma inode_append:
  fixes depth :: nat
  assumes inv: "alloc_inv s" and ip: "inodes s ip = Some ino" and w: "writable ino" and nf: "free_map_file s \<noteq> Some ip" and e: "at_end ino"
    and sh: "length_shown ino = i_length ino" and len: "i_length ino + length bs \<le> 1284 * 512"
    and fr: "bytes_to_sectors (i_length ino + length bs) - bytes_to_sectors (i_length ino) + 14 \<le> card (free_sectors s)"
  shows "\<exists>s' ino'. inode_write_at (Suc (Suc depth)) ip bs (length bs) (i_length ino) s = Some (length bs, s') \<and> alloc_inv s'
     \<and> inodes s' ip = Some ino' \<and> contents s' ino' = contents s ino @ bs \<and> apart ip s s' \<and> writable ino' \<and> at_end ino'
     \<and> i_length ino' = i_length ino + length bs \<and> length_shown ino' = i_length ino' \<and> same_id ino ino'"
proof -
  let ?n = "length bs" and ?len = "i_length ino + length bs"
  have "\<exists>ino1 s1. inode_write_at (Suc (Suc depth)) ip bs ?n (i_length ino) s = inode_write_at (Suc (Suc depth)) ip bs ?n (i_length ino) s1
     \<and> inodes s1 ip = Some ino1 \<and> writable ino1 \<and> at_end ino1 \<and> i_length ino1 = ?len \<and> length_shown ino1 = length_shown ino
     \<and> same_id ino ino1 \<and> apart ip s s1 \<and> alloc_inv s1 \<and> take (i_length ino) (contents s1 ino1) = contents s ino"
  proof (cases "bs = []")
    case True
    then show ?thesis using assms by (intro exI [of _ ino] exI [of _ s]) (simp add: same_id_def)
  next
    case False
    then have "i_length ino < ?len" by simp
    from inode_write_grow [OF inv ip w nf e this len add.commute fr, of depth bs] show ?thesis by blast
  qed
  then obtain ino1 s1 where g: "inode_write_at (Suc (Suc depth)) ip bs ?n (i_length ino) s = inode_write_at (Suc (Suc depth)) ip bs ?n (i_length ino) s1"
    "inodes s1 ip = Some ino1" "writable ino1" "at_end ino1" "i_length ino1 = ?len" "length_shown ino1 = length_shown ino"
    "apart ip s s1" "alloc_inv s1" "take (i_length ino) (contents s1 ino1) = contents s ino" "same_id ino ino1" by blast
  have nf1: "free_map_file s1 \<noteq> Some ip" using g(7) nf by (simp add: apart_def)
  define ino' where "ino' = ino1\<lparr>length_shown := ?len\<rparr>"
  from write_inside_inv [OF g(8,2,3) nf1, of "i_length ino" bs "Suc depth"] g(5,6) sh obtain s2 where
    w2: "inode_write_at (Suc (Suc depth)) ip bs ?n (i_length ino) s1 = Some (?n, s2)" "alloc_inv s2" "inodes s2 ip = Some ino'"
    "contents s2 ino' = overwrite (i_length ino) bs (contents s1 ino1)" "apart ip s1 s2" by (auto simp: ino'_def)
  have "overwrite (i_length ino) bs (contents s1 ino1) = contents s ino @ bs" using g(5,9) by (simp add: overwrite_def)
  moreover have "apart ip s s2" by (rule apart_trans [OF g(7) w2(5)])
  moreover have "writable ino'" "at_end ino'" "i_length ino' = ?len" "length_shown ino' = i_length ino'" "same_id ino ino'"
    using g(3-5,10) by (simp_all add: ino'_def writable_def at_end_def same_id_def)
  ultimately show ?thesis using g(1) w2 by auto
qed


text \<open>A disk of 32 sectors with a file of 600 bytes, and with the free map in sector 3.\<close>

definition grow_disk :: disk where
  "grow_disk = demo_disk\<lparr>capacity := 32, media := replicate 32 (replicate 512 1)\<rparr>"

definition map_inode :: inode where
  "map_inode = demo_inode\<lparr>i_sector := 5, i_length := 4, length_shown := 4, ptrs := [3, 0, 0, 0, 0, 0, 0, 0, 0, 0, 0, 0, 0, 0, 0], ptr_idx := 1\<rparr>"

definition grow_fs :: fs_state where
  "grow_fs = demo_fs\<lparr>cache := demo_cache\<lparr>filesys_disk := grow_disk\<rparr>, free_map := \<lparr>bit_cnt = 32, bits = [15]\<rparr>, free_map_file := Some 1,
     inodes := [0 \<mapsto> demo_inode, 1 \<mapsto> map_inode]\<rparr>"

definition grow_fsys :: fsys where
  "grow_fsys = demo_fsys\<lparr>fs := grow_fs, handles := [5 \<mapsto> Open_File \<lparr>f_inode = 0, f_pos = 600, deny_write = False\<rparr>]\<rparr>"

lemma grow_cache: "cache_inv (cache grow_fs)" "fs_disk grow_fs = grow_disk" "cached (cache grow_fs) = {}"
proof -
  have "answers (\<lambda>_. STA_DRQ)"
    unfolding answers_def by (rule exI [of _ 0]) (simp add: STA_DRQ_def STA_BSY_def)
  then have "disk_wf grow_disk" by (simp add: disk_wf_def grow_disk_def demo_disk_def DISK_SECTOR_SIZE_def)
  then show "cache_inv (cache grow_fs)" by (simp add: cache_inv_def cache_core_def grow_fs_def demo_cache_def)
qed (simp_all add: grow_fs_def fs_disk_def cached_def demo_cache_def)

lemma grow_blocks:
  "all_data d demo_inode = {1, 2}" "all_index d demo_inode = {}" "all_data d map_inode = {3}" "all_index d map_inode = {}"
  "inode_wf grow_fs demo_inode" "inode_wf grow_fs map_inode"
proof -
  have K: "{k. k * 512 < i_length demo_inode} = {0, 1 :: nat}" "{k. k * 512 < i_length map_inode} = {0 :: nat}"
    by (auto simp: demo_inode_def map_inode_def)
  have b: "data_block d (ptrs demo_inode) 0 = 1" "data_block d (ptrs demo_inode) 1 = 2" "data_block d (ptrs map_inode) 0 = 3"
    "index_blocks d ps 0 = {}" "index_blocks d ps 1 = {}" for d ps
    by (simp_all add: data_block_def index_blocks_def demo_inode_def map_inode_def)
  show a: "all_data d demo_inode = {1, 2}" "all_index d demo_inode = {}" "all_data d map_inode = {3}" "all_index d map_inode = {}" for d
    unfolding all_data_def all_index_def K using b by auto
  show "inode_wf grow_fs demo_inode" "inode_wf grow_fs map_inode"
    unfolding inode_wf_def K a grow_cache using b
    by (auto simp: demo_inode_def map_inode_def MAX_BLOCKS_def valid_sector_def grow_disk_def)
qed

lemma grow_map: "used_sectors grow_fs = {0, 1, 2, 3}" "28 \<le> card (free_sectors grow_fs)"
proof -
  have bit: "bit (15 :: u32) i \<longleftrightarrow> i < 4" if "i < 32" for i
  proof -
    have "bit (mask 4 :: u32) i \<longleftrightarrow> i < 4" using that by (simp add: bit_mask_iff)
    then show ?thesis by (simp add: mask_eq_exp_minus_1)
  qed
  have b: "bit_at (free_map grow_fs) i \<longleftrightarrow> i < 4" if "i < 32" for i
    using that bit by (simp add: bit_at_def grow_fs_def)
  have c: "bit_cnt (free_map grow_fs) = 32" by (simp add: grow_fs_def)
  have u4: "unat x < 4 \<longleftrightarrow> x \<in> {0, 1, 2, 3}" for x :: u32
  proof -
    have "unat x < 4 \<longleftrightarrow> unat x = 0 \<or> unat x = 1 \<or> unat x = 2 \<or> unat x = 3" by auto
    then show ?thesis by (simp add: word_unat_eq_iff)
  qed
  show "used_sectors grow_fs = {0, 1, 2, 3}"
  proof -
    have "used_sectors grow_fs = {x. unat x < 4}" unfolding used_sectors_def c using b by auto
    then show ?thesis using u4 by auto
  qed
  have "of_nat ` {4..<32} \<subseteq> free_sectors grow_fs"
    using b by (auto simp: free_sectors_def c unsigned_of_nat take_bit_nat_eq_self)
  moreover have "inj_on (of_nat :: nat \<Rightarrow> u32) {4..<32}"
  proof (rule inj_onI)
    fix x y :: nat assume "x \<in> {4..<32}" "y \<in> {4..<32}" "of_nat x = (of_nat y :: u32)"
    then have "unat (of_nat x :: u32) = unat (of_nat y :: u32)" "x < 2 ^ 32" "y < 2 ^ 32" by simp_all
    then show "x = y" by (simp add: unsigned_of_nat take_bit_nat_eq_self)
  qed
  ultimately show "28 \<le> card (free_sectors grow_fs)" using card_mono [of "free_sectors grow_fs" "of_nat ` {4..<32}"] by (simp add: card_image)
qed

lemma grow_alloc_inv: "alloc_inv grow_fs"
proof -
  have i: "ip = 0 \<and> ino = demo_inode \<or> ip = 1 \<and> ino = map_inode" if "inodes grow_fs ip = Some ino" for ip ino
    using that by (auto simp: grow_fs_def split: if_splits)
  have own: "own_sectors grow_fs demo_inode = {1, 2}" "own_sectors grow_fs map_inode = {3}"
    by (simp_all add: own_sectors_def grow_blocks)
  have "fs_ok grow_fs" unfolding fs_ok_def using grow_cache(1) i grow_blocks(5,6) own by (fastforce dest!: i)
  moreover have "bitmap_wf (free_map grow_fs)" by (simp add: bitmap_wf_def grow_fs_def elem_cnt_eq)
  moreover have "own_sectors grow_fs ino \<subseteq> used_sectors grow_fs" if "inodes grow_fs ip = Some ino" for ip ino
    using i [OF that] own grow_map(1) by auto
  moreover have "map_file_ok grow_fs"
    by (simp add: map_file_ok_def grow_fs_def writable_def map_inode_def demo_inode_def byte_cnt_def elem_cnt_eq usz_id)
  moreover have "bit_cnt (free_map grow_fs) = 32" "unat (capacity grow_disk) = 32" by (simp_all add: grow_fs_def grow_disk_def)
  ultimately show ?thesis using grow_cache by (simp add: alloc_inv_def)
qed


end
