(* ===== verification/Directory.thy ===== *)
theory Directory
  imports Grow
begin

text \<open>
  Directories, \<^verbatim>\<open>filesys/directory.c\<close>. A directory is a file of entries of 20 bytes: the sector of an
  inode, a name of at most 14 characters with its terminator, and a flag. A \<open>struct dir\<close> that an
  operation only reads is passed by value; \<open>dir_readdir\<close> returns it with the new position. A null
  \<open>dir\<close>, which the assertions exclude, has no value. Names are character arrays.

  The theory shows that lookup, insertion and removal act on the entries of a directory as on a
  finite map from names to sectors.
\<close>

definition NAME_MAX :: nat where "NAME_MAX = 14"

record dir_entry =
  inode_sector :: disk_sector_t
  e_name :: "byte list"
  in_use :: bool

text \<open>The bytes of an entry in memory and on disk; \<open>sizeof (struct dir_entry)\<close> is 20.\<close>

definition DIR_ENTRY_SIZE :: nat where "DIR_ENTRY_SIZE = 20"

definition encode_entry :: "dir_entry \<Rightarrow> byte list" where
  "encode_entry e = le32 (inode_sector e) @ e_name e @ [if in_use e then 1 else 0]"

definition decode_entry :: "byte list \<Rightarrow> dir_entry" where
  "decode_entry bs = \<lparr>inode_sector = hd (le_words (take 4 bs)), e_name = take (NAME_MAX + 1) (drop 4 bs), in_use = bs ! 19 \<noteq> 0\<rparr>"

text \<open>A local variable \<open>struct dir_entry e\<close>, uninitialised, and the call
  \<open>inode_read_at (inode, &e, sizeof e, ofs) == sizeof e\<close>.\<close>

definition uninit_entry :: "fs_state \<Rightarrow> dir_entry" where
  "uninit_entry s = decode_entry (map (\<lambda>i. ucast (uninit s i)) [0..<DIR_ENTRY_SIZE])"

definition read_entry :: "nat \<Rightarrow> dir_entry \<Rightarrow> nat \<Rightarrow> fs_state \<Rightarrow> (bool \<times> dir_entry \<times> fs_state) option" where
  "read_entry ip e ofs s = do {
     (n, bs, s1) \<leftarrow> inode_read_at ip (encode_entry e) DIR_ENTRY_SIZE ofs s;
     Some (n = DIR_ENTRY_SIZE, decode_entry bs, s1) }"

section \<open>Opening and closing\<close>

definition dir_create :: "disk_sector_t \<Rightarrow> nat \<Rightarrow> fs_state \<Rightarrow> (bool \<times> fs_state) option" where
  "dir_create sector entry_cnt s = inode_create write_depth sector (entry_cnt * DIR_ENTRY_SIZE) True s"

definition dir_open :: "nat option \<Rightarrow> fsys \<Rightarrow> (nat option \<times> fsys) option" where
  "dir_open inode s = do {
     let (ok, fs1) = fs_malloc (fs s);
     let s1 = s\<lparr>fs := fs1\<rparr>;
     case inode of
       Some ip \<Rightarrow>
         if ok then let (dp, s2) = new_handle (Open_Dir \<lparr>dir_inode = ip, dir_pos = 0\<rparr>) s1 in Some (Some dp, s2)
         else do { fs2 \<leftarrow> inode_close write_depth inode (fs s1); Some (None, s1\<lparr>fs := fs2\<rparr>) }
     | None \<Rightarrow> Some (None, s1) }"

definition dir_open_root :: "fsys \<Rightarrow> (nat option \<times> fsys) option" where
  "dir_open_root s = do {
     (ip, fs1) \<leftarrow> inode_open ROOT_DIR_SECTOR (fs s);
     dir_open (Some ip) (s\<lparr>fs := fs1\<rparr>) }"

definition get_dir :: "nat \<Rightarrow> fsys \<Rightarrow> dir option" where
  "get_dir dp s = (case handles s dp of Some (Open_Dir d) \<Rightarrow> Some d | _ \<Rightarrow> None)"

definition set_dir :: "nat \<Rightarrow> dir \<Rightarrow> fsys \<Rightarrow> fsys" where
  "set_dir dp d s = s\<lparr>handles := (handles s)(dp \<mapsto> Open_Dir d)\<rparr>"

definition dir_reopen :: "nat \<Rightarrow> fsys \<Rightarrow> (nat option \<times> fsys) option" where
  "dir_reopen dp s = do {
     d \<leftarrow> get_dir dp s;
     dir_open (Some (dir_inode d)) (s\<lparr>fs := inode_reopen (dir_inode d) (fs s)\<rparr>) }"

definition dir_get_inode :: "dir \<Rightarrow> nat" where
  "dir_get_inode d = dir_inode d"

definition dir_get_parent_inode :: "dir \<Rightarrow> fs_state \<Rightarrow> (nat \<times> fs_state) option" where
  "dir_get_parent_inode d s = do {
     inode \<leftarrow> inodes s (dir_get_inode d);
     inode_open (inode_parent inode) s }"

definition dir_open_parent :: "dir \<Rightarrow> fsys \<Rightarrow> (nat option \<times> fsys) option" where
  "dir_open_parent d s = do {
     inode \<leftarrow> inodes (fs s) (dir_get_inode d);
     (ip, fs1) \<leftarrow> inode_open (inode_parent inode) (fs s);
     dir_open (Some ip) (s\<lparr>fs := fs1\<rparr>) }"

definition dir_close :: "nat option \<Rightarrow> fsys \<Rightarrow> fsys option" where
  "dir_close dpo s = (case dpo of None \<Rightarrow> Some s
   | Some dp \<Rightarrow> do {
       d \<leftarrow> get_dir dp s;
       fs1 \<leftarrow> inode_close write_depth (Some (dir_inode d)) (fs s);
       Some (free_handle dp (s\<lparr>fs := fs1\<rparr>)) })"

definition dir_close_by_inode :: "nat option \<Rightarrow> fs_state \<Rightarrow> fs_state option" where
  "dir_close_by_inode inode s = (case inode of None \<Rightarrow> Some s | Some ip \<Rightarrow> inode_close write_depth (Some ip) s)"

section \<open>Entries\<close>

text \<open>The loop of \<open>lookup\<close> and its result: whether there is such an entry, the entry read last and its
  offset.\<close>

partial_function (option) lookup_loop :: "nat \<Rightarrow> byte list \<Rightarrow> dir_entry \<Rightarrow> nat \<Rightarrow> fs_state \<Rightarrow> (bool \<times> dir_entry \<times> nat \<times> fs_state) option" where
  "lookup_loop ip name e ofs s =
     Option.bind (read_entry ip e ofs s) (\<lambda>(full, e1, s1).
       if \<not> full then Some (False, e1, ofs, s1)
       else if in_use e1
       then Option.bind (strcmp name (e_name e1)) (\<lambda>r.
              if r = 0 then Some (True, e1, ofs, s1) else lookup_loop ip name e1 (ofs + DIR_ENTRY_SIZE) s1)
       else lookup_loop ip name e1 (ofs + DIR_ENTRY_SIZE) s1)"

definition lookup :: "dir \<Rightarrow> byte list \<Rightarrow> fs_state \<Rightarrow> (bool \<times> dir_entry \<times> nat \<times> fs_state) option" where
  "lookup d name s = lookup_loop (dir_inode d) name (uninit_entry s) 0 s"

definition dir_lookup :: "dir \<Rightarrow> byte list \<Rightarrow> fs_state \<Rightarrow> (bool \<times> nat option \<times> fs_state) option" where
  "dir_lookup d name s = do {
     s1 \<leftarrow> inode_lock_acquire (dir_get_inode d) s;
     (found, e, ofs, s2) \<leftarrow> lookup d name s1;
     (inode, s3) \<leftarrow> (if found then do { (ip, s3) \<leftarrow> inode_open (inode_sector e) s2; Some (Some ip, s3) } else Some (None, s2));
     s4 \<leftarrow> inode_lock_release (dir_get_inode d) s3;
     Some (inode \<noteq> None, inode, s4) }"

text \<open>The search of \<open>dir_add\<close> for a free slot: the entry read last and its offset.\<close>

partial_function (option) slot_loop :: "nat \<Rightarrow> dir_entry \<Rightarrow> nat \<Rightarrow> fs_state \<Rightarrow> (dir_entry \<times> nat \<times> fs_state) option" where
  "slot_loop ip e ofs s =
     Option.bind (read_entry ip e ofs s) (\<lambda>(full, e1, s1).
       if full \<and> in_use e1 then slot_loop ip e1 (ofs + DIR_ENTRY_SIZE) s1 else Some (e1, ofs, s1))"

definition dir_add :: "dir \<Rightarrow> byte list \<Rightarrow> disk_sector_t \<Rightarrow> fs_state \<Rightarrow> (bool \<times> fs_state) option" where
  "dir_add d name sector s = do {
     s1 \<leftarrow> inode_lock_acquire (dir_get_inode d) s;
     len \<leftarrow> strlen name;
     if hd name = 0 \<or> len > NAME_MAX
     then do { s2 \<leftarrow> inode_lock_release (dir_get_inode d) s1; Some (False, s2) }
     else do {
       (found, e0, ofs0, s2) \<leftarrow> lookup d name s1;
       (success, s3) \<leftarrow>
         (if found then Some (False, s2)
          else do {
            (ip, s3) \<leftarrow> inode_open sector s2;
            dino \<leftarrow> inodes s3 (dir_inode d);
            s4 \<leftarrow> inode_close write_depth (Some ip) (inode_set_parent ip (inode_get_inumber dino) s3);
            (e1, ofs, s5) \<leftarrow> slot_loop (dir_inode d) (uninit_entry s4) 0 s4;
            (n, name1) \<leftarrow> strlcpy (e_name e1) 0 name (NAME_MAX + 1);
            let e2 = \<lparr>inode_sector = sector, e_name = name1, in_use = True\<rparr>;
            (written, s6) \<leftarrow> inode_write_at write_depth (dir_inode d) (encode_entry e2) DIR_ENTRY_SIZE ofs s5;
            Some (written = DIR_ENTRY_SIZE, s6) });
       s7 \<leftarrow> inode_lock_release (dir_get_inode d) s3;
       Some (success, s7) } }"

text \<open>The search of \<open>dir_remove\<close> for an entry in the directory to be removed.\<close>

partial_function (option) empty_loop :: "nat \<Rightarrow> dir_entry \<Rightarrow> nat \<Rightarrow> fs_state \<Rightarrow> (bool \<times> fs_state) option" where
  "empty_loop ip e pos s =
     Option.bind (read_entry ip e pos s) (\<lambda>(full, e1, s1).
       if \<not> full then Some (True, s1)
       else if in_use e1 then Some (False, s1) else empty_loop ip e1 (pos + DIR_ENTRY_SIZE) s1)"

definition dir_remove :: "dir \<Rightarrow> byte list \<Rightarrow> fs_state \<Rightarrow> (bool \<times> fs_state) option" where
  "dir_remove d name s = do {
     s1 \<leftarrow> inode_lock_acquire (dir_get_inode d) s;
     (found, e, ofs, s2) \<leftarrow> lookup d name s1;
     (success, inode, s3) \<leftarrow>
       (if \<not> found then Some (False, None, s2)
        else do {
          (ip, s3) \<leftarrow> inode_open (inode_sector e) s2;
          ino \<leftarrow> inodes s3 ip;
          isdir \<leftarrow> inode_is_dir ino;
          (busy, s4) \<leftarrow>
            (if isdir then do {
               (empty, s4) \<leftarrow> empty_loop ip (uninit_entry s3) 0 s3;
               Some (\<not> empty \<or> inode_is_opened ino, s4) }
             else Some (False, s3));
          if busy then Some (False, Some ip, s4)
          else do {
            (written, s5) \<leftarrow> inode_write_at write_depth (dir_inode d) (encode_entry (e\<lparr>in_use := False\<rparr>)) DIR_ENTRY_SIZE ofs s4;
            if written \<noteq> DIR_ENTRY_SIZE then Some (False, Some ip, s5)
            else Some (True, Some ip, inode_remove ip s5) } });
     s4 \<leftarrow> inode_close write_depth inode s3;
     s5 \<leftarrow> inode_lock_release (dir_get_inode d) s4;
     Some (success, s5) }"

partial_function (option) readdir_loop :: "dir \<Rightarrow> dir_entry \<Rightarrow> fs_state \<Rightarrow> (dir_entry option \<times> dir \<times> fs_state) option" where
  "readdir_loop d e s =
     Option.bind (read_entry (dir_inode d) e (dir_pos d) s) (\<lambda>(full, e1, s1).
       if \<not> full then Some (None, d, s1)
       else if in_use e1 then Some (Some e1, d\<lparr>dir_pos := dir_pos d + DIR_ENTRY_SIZE\<rparr>, s1)
       else readdir_loop (d\<lparr>dir_pos := dir_pos d + DIR_ENTRY_SIZE\<rparr>) e1 s1)"

definition dir_readdir :: "dir \<Rightarrow> byte list \<Rightarrow> fs_state \<Rightarrow> (bool \<times> byte list \<times> dir \<times> fs_state) option" where
  "dir_readdir d name s = do {
     s1 \<leftarrow> inode_lock_acquire (dir_get_inode d) s;
     (r, d1, s2) \<leftarrow> readdir_loop d (uninit_entry s1) s1;
     case r of
       Some e \<Rightarrow> do {
         (n, name1) \<leftarrow> strlcpy name 0 (e_name e) (NAME_MAX + 1);
         s3 \<leftarrow> inode_lock_release (dir_get_inode d) s2;
         Some (True, name1, d1, s3) }
     | None \<Rightarrow> do {
         s3 \<leftarrow> inode_lock_release (dir_get_inode d) s2;
         Some (False, name, d1, s3) } }"

section \<open>Specification\<close>

text \<open>The entries of a directory with the bytes \<open>bs\<close>, and the map from names to sectors they stand for.\<close>

definition dir_entries :: "byte list \<Rightarrow> dir_entry list" where
  "dir_entries bs = map (\<lambda>i. decode_entry (take 20 (drop (20 * i) bs))) [0..<length bs div 20]"

definition name_of :: "dir_entry \<Rightarrow> byte list" where
  "name_of e = takeWhile (\<lambda>c. c \<noteq> 0) (e_name e)"

definition names :: "byte list \<Rightarrow> dir_entry \<Rightarrow> bool" where
  "names nm e \<longleftrightarrow> in_use e \<and> name_of e = nm"

definition dir_map :: "dir_entry list \<Rightarrow> byte list \<Rightarrow> disk_sector_t option" where
  "dir_map es nm = map_option inode_sector (find (names nm) es)"

text \<open>Names are terminated and no name occurs twice.\<close>

definition entries_ok :: "dir_entry list \<Rightarrow> bool" where
  "entries_ok es \<longleftrightarrow> (\<forall>k < length es. length (e_name (es ! k)) = 15 \<and> (in_use (es ! k) \<longrightarrow> 0 \<in> set (e_name (es ! k))))
     \<and> (\<forall>k l. k < length es \<and> l < length es \<and> in_use (es ! k) \<and> in_use (es ! l) \<and> name_of (es ! k) = name_of (es ! l) \<longrightarrow> k = l)"

lemma decode_encode: "length (e_name e) = 15 \<Longrightarrow> decode_entry (encode_entry e) = e"
  by (simp add: decode_entry_def encode_entry_def NAME_MAX_def le32_def nth_append)

lemma length_encode [simp]: "length (e_name e) = 15 \<Longrightarrow> length (encode_entry e) = 20"
  by (simp add: encode_entry_def)

lemma length_decode: "19 \<le> length bs \<Longrightarrow> length (e_name (decode_entry bs)) = 15"
  by (simp add: decode_entry_def NAME_MAX_def)

lemma length_uninit [simp]: "length (e_name (uninit_entry s)) = 15"
  by (simp add: uninit_entry_def length_decode DIR_ENTRY_SIZE_def)

lemma length_entries [simp]: "length (dir_entries bs) = length bs div 20"
  by (simp add: dir_entries_def)

lemma nth_entries: "i < length bs div 20 \<Longrightarrow> dir_entries bs ! i = decode_entry (take 20 (drop (20 * i) bs))"
  by (simp add: dir_entries_def)

lemma cstr_name: "0 \<in> set (e_name e) \<Longrightarrow> cstr (name_of e) (e_name e)"
  unfolding cstr_def name_of_def
  by (metis (mono_tags, lifting) dropWhile_eq_Cons_conv dropWhile_eq_Nil_conv neq_Nil_conv set_takeWhileD takeWhile_dropWhile_id)

text \<open>Reading changes no file.\<close>

definition quiet :: "fs_state \<Rightarrow> fs_state \<Rightarrow> bool" where
  "quiet s s' \<longleftrightarrow> (\<exists>c. s' = s\<lparr>cache := c\<rparr>) \<and> alloc_inv s'
     \<and> (\<forall>jp j. inodes s jp = Some j \<longrightarrow> contents s' j = contents s j \<and> own_sectors s' j = own_sectors s j)
     \<and> (\<forall>x \<in> cached (cache s') - cached (cache s). \<exists>jp j. inodes s jp = Some j \<and> x \<in> own_sectors s j)"

lemma quiet_refl: "alloc_inv s \<Longrightarrow> quiet s s"
  unfolding quiet_def by (intro conjI exI [of _ "cache s"]) simp_all

lemma quiet_trans:
  assumes "quiet s s'" and "quiet s' s''"
  shows "quiet s s''"
proof -
  have i: "inodes s' = inodes s" using assms(1) by (auto simp: quiet_def)
  have "\<exists>jp j. inodes s jp = Some j \<and> x \<in> own_sectors s j" if "x \<in> cached (cache s'') - cached (cache s)" for x
  proof (cases "x \<in> cached (cache s')")
    case True
    then show ?thesis using assms(1) that unfolding quiet_def by blast
  next
    case False
    then have "x \<in> cached (cache s'') - cached (cache s')" using that by simp
    then obtain jp j where "inodes s jp = Some j" "x \<in> own_sectors s' j" using assms(2) i unfolding quiet_def by metis
    then show ?thesis using assms(1) unfolding quiet_def by auto
  qed
  then show ?thesis using assms i unfolding quiet_def by auto
qed

lemma quiet_simps:
  assumes "quiet s s'"
  shows "inodes s' = inodes s" "free_map s' = free_map s" "free_map_file s' = free_map_file s" "open_inodes s' = open_inodes s"
    "next_inode s' = next_inode s" "uninit s' = uninit s" "shown s' jp = shown s jp" "alloc_inv s'"
    "used_sectors s' = used_sectors s" "free_sectors s' = free_sectors s"
  using assms by (auto simp: quiet_def shown_def used_sectors_def free_sectors_def split: option.split)

lemma read_quiet:
  fixes offset :: nat
  assumes inv: "alloc_inv s" and ip: "inodes s ip = Some ino" and sz: "sz \<le> length buf"
  defines "m \<equiv> min sz (length_shown ino - offset)"
  shows "\<exists>s'. inode_read_at ip buf sz offset s = Some (m, take m (drop offset (shown s ip)) @ drop m buf, s') \<and> quiet s s'"
proof -
  have ok: "fs_ok s" using inv by (simp add: alloc_inv_def)
  have wf: "inode_wf s ino" and ci: "cache_inv (cache s)" using ok ip by (auto simp: fs_ok_def)
  from inode_read_at_spec [OF ip wf ci sz, of offset] obtain c where c:
    "inode_read_at ip buf sz offset s = Some (m, overwrite 0 (take m (drop offset (contents s ino))) buf, s\<lparr>cache := c\<rparr>)"
    "cache_inv c" "fs_step (all_data (fs_disk s) ino) s (s\<lparr>cache := c\<rparr>)" unfolding m_def by blast
  from read_at_ok [OF ok ip sz, of offset, folded m_def] c(1) have r:
    "inode_read_at ip buf sz offset s = Some (m, take m (drop offset (shown s ip)) @ drop m buf, s\<lparr>cache := c\<rparr>)" "fs_ok (s\<lparr>cache := c\<rparr>)"
    "\<forall>jp jno. inodes s jp = Some jno \<longrightarrow> contents (s\<lparr>cache := c\<rparr>) jno = contents s jno" by auto
  have own: "own_sectors (s\<lparr>cache := c\<rparr>) j \<subseteq> used_sectors s" if "inodes s jp = Some j" for jp j
    using fs_ok_step(2) [OF ok ip c(2,3) that] inv that unfolding alloc_inv_def by auto
  have "alloc_inv (s\<lparr>cache := c\<rparr>)"
  proof (rule alloc_inv_step [OF inv r(2)])
    have "all_data (fs_disk s) ino \<subseteq> used_sectors s" "cached (cache s) \<subseteq> used_sectors s"
      using inv ip unfolding alloc_inv_def own_sectors_def by auto
    then show "cached (cache (s\<lparr>cache := c\<rparr>)) \<subseteq> used_sectors s" using c(3) by (auto simp: fs_step_def)
    show "capacity (fs_disk (s\<lparr>cache := c\<rparr>)) = capacity (fs_disk s)" using c(3) unfolding fs_step_def by blast
  qed (use own in auto)
  moreover have "cached c \<subseteq> own_sectors s ino \<union> cached (cache s)" using c(3) by (auto simp: fs_step_def own_sectors_def)
  then have "\<exists>jp j. inodes s jp = Some j \<and> x \<in> own_sectors s j" if "x \<in> cached (cache (s\<lparr>cache := c\<rparr>)) - cached (cache s)" for x
    using that ip by auto
  ultimately show ?thesis using r fs_ok_step(2) [OF ok ip c(2,3)] unfolding quiet_def by blast
qed

lemma read_entry_spec:
  assumes inv: "alloc_inv s" and ip: "inodes s ip = Some ino" and e: "length (e_name e) = 15"
    and es: "es = dir_entries (shown s ip)" and len: "20 dvd length_shown ino"
  shows "i < length es \<Longrightarrow> \<exists>s'. read_entry ip e (20 * i) s = Some (True, es ! i, s') \<and> quiet s s'"
    and "\<not> i < length es \<Longrightarrow> \<exists>s'. read_entry ip e (20 * i) s = Some (False, e, s') \<and> quiet s s'"
proof -
  have "fs_ok s" using inv by (simp add: alloc_inv_def)
  then have ls: "length (shown s ip) = length_shown ino" using shown_length ip by blast
  from len obtain q where q: "length_shown ino = 20 * q" by blast
  then have le: "length es = q" using ls es by simp
  note r = read_quiet [OF inv ip, of 20 "encode_entry e" "20 * i"]
  show "\<exists>s'. read_entry ip e (20 * i) s = Some (True, es ! i, s') \<and> quiet s s'" if "i < length es"
  proof -
    have "min 20 (length_shown ino - 20 * i) = 20" using that q le by auto
    with r e obtain s' where "inode_read_at ip (encode_entry e) 20 (20 * i) s = Some (20, take 20 (drop (20 * i) (shown s ip)), s')" "quiet s s'"
      by auto
    moreover have "es ! i = decode_entry (take 20 (drop (20 * i) (shown s ip)))" using that es by (simp add: nth_entries)
    ultimately show ?thesis by (simp add: read_entry_def DIR_ENTRY_SIZE_def)
  qed
  show "\<exists>s'. read_entry ip e (20 * i) s = Some (False, e, s') \<and> quiet s s'" if "\<not> i < length es"
  proof -
    have "min 20 (length_shown ino - 20 * i) = 0" using that q le by auto
    with r e obtain s' where "inode_read_at ip (encode_entry e) 20 (20 * i) s = Some (0, encode_entry e, s')" "quiet s s'" by auto
    then show ?thesis using e by (simp add: read_entry_def DIR_ENTRY_SIZE_def decode_encode)
  qed
qed

section \<open>The loops over the entries\<close>

text \<open>\<open>least_from P es i j\<close>: position \<open>j\<close> is the first one from \<open>i\<close> on where \<open>P\<close> holds, or the end.\<close>

definition least_from :: "('a \<Rightarrow> bool) \<Rightarrow> 'a list \<Rightarrow> nat \<Rightarrow> nat \<Rightarrow> bool" where
  "least_from P es i j \<longleftrightarrow> i \<le> j \<and> j \<le> length es \<and> (\<forall>k. i \<le> k \<and> k < j \<longrightarrow> \<not> P (es ! k)) \<and> (j < length es \<longrightarrow> P (es ! j))"

lemma least_from_step: "least_from P es (Suc i) j \<Longrightarrow> \<not> P (es ! i) \<Longrightarrow> least_from P es i j"
  unfolding least_from_def by (metis Suc_leD Suc_leI le_neq_implies_less)

lemma least_from_none: "least_from P es 0 j \<Longrightarrow> \<not> j < length es \<Longrightarrow> \<not> (\<exists>e \<in> set es. P e)"
  by (auto simp: least_from_def in_set_conv_nth)

lemma lookup_loop_spec:
  assumes "alloc_inv s" and "inodes s ip = Some ino" and "20 dvd length_shown ino" and "entries_ok (dir_entries (shown s ip))"
    and "cstr nm name" and "length (e_name e) = 15" and "i \<le> length (dir_entries (shown s ip))"
  shows "\<exists>j e' s'. lookup_loop ip name e (20 * i) s = Some (j < length (dir_entries (shown s ip)), e', 20 * j, s')
     \<and> least_from (names nm) (dir_entries (shown s ip)) i j \<and> quiet s s' \<and> length (e_name e') = 15
     \<and> (j < length (dir_entries (shown s ip)) \<longrightarrow> e' = dir_entries (shown s ip) ! j)"
  using assms
proof (induction "length (dir_entries (shown s ip)) - i" arbitrary: i e s)
  case 0
  define es where "es = dir_entries (shown s ip)"
  have i: "i = length es" using 0 by (simp add: es_def)
  from read_entry_spec(2) [OF "0.prems"(1,2,6) es_def "0.prems"(3), of i] i obtain s' where
    r: "read_entry ip e (20 * i) s = Some (False, e, s')" "quiet s s'" by auto
  then show ?case using i "0.prems"(6) unfolding es_def [symmetric]
    by (subst lookup_loop.simps) (auto simp: least_from_def intro!: exI [of _ i])
next
  case (Suc n)
  define es where "es = dir_entries (shown s ip)"
  have i: "i < length es" using Suc(2) by (simp add: es_def)
  from read_entry_spec(1) [OF Suc.prems(1,2,6) es_def Suc.prems(3) i] obtain s1 where
    r: "read_entry ip e (20 * i) s = Some (True, es ! i, s1)" "quiet s s1" by blast
  note q = quiet_simps [OF r(2)]
  have e15: "length (e_name (es ! i)) = 15" using Suc.prems(4) i unfolding entries_ok_def es_def by blast
  have next_: "20 * i + DIR_ENTRY_SIZE = 20 * Suc i" by (simp add: DIR_ENTRY_SIZE_def)
  show ?case
  proof (cases "names nm (es ! i)")
    case True
    then have "cstr (name_of (es ! i)) (e_name (es ! i))" using Suc.prems(4) i unfolding entries_ok_def es_def names_def by (blast intro: cstr_name)
    with True Suc.prems(5) have "strcmp name (e_name (es ! i)) = Some 0" by (simp add: strcmp_zero_iff names_def)
    then show ?thesis using r True e15 i unfolding es_def [symmetric]
      by (subst lookup_loop.simps) (auto simp: names_def least_from_def intro!: exI [of _ i])
  next
    case False
    have "lookup_loop ip name e (20 * i) s = lookup_loop ip name (es ! i) (20 * Suc i) s1"
    proof (cases "in_use (es ! i)")
      case True
      then have "cstr (name_of (es ! i)) (e_name (es ! i))" using Suc.prems(4) i unfolding entries_ok_def es_def by (blast intro: cstr_name)
      with True False Suc.prems(5) obtain x where "strcmp name (e_name (es ! i)) = Some x" "x \<noteq> 0"
        using strcmp_zero_iff strcmp_spec by (fastforce simp: names_def)
      then show ?thesis using r(1) True by (subst lookup_loop.simps) (simp add: next_)
    next
      case False
      then show ?thesis using r(1) by (subst lookup_loop.simps) (simp add: next_)
    qed
    moreover have "\<exists>j e' s'. lookup_loop ip name (es ! i) (20 * Suc i) s1 = Some (j < length (dir_entries (shown s1 ip)), e', 20 * j, s')
       \<and> least_from (names nm) (dir_entries (shown s1 ip)) (Suc i) j \<and> quiet s1 s' \<and> length (e_name e') = 15
       \<and> (j < length (dir_entries (shown s1 ip)) \<longrightarrow> e' = dir_entries (shown s1 ip) ! j)"
      using Suc(2) i Suc.prems q e15 by (intro Suc(1)) (simp_all add: es_def)
    ultimately show ?thesis using quiet_trans [OF r(2)] least_from_step [of "names nm" es i] False unfolding q es_def [symmetric] by auto
  qed
qed

lemma slot_loop_spec:
  assumes "alloc_inv s" and "inodes s ip = Some ino" and "20 dvd length_shown ino" and "entries_ok (dir_entries (shown s ip))"
    and "length (e_name e) = 15" and "i \<le> length (dir_entries (shown s ip))"
  shows "\<exists>j e' s'. slot_loop ip e (20 * i) s = Some (e', 20 * j, s')
     \<and> least_from (\<lambda>e. \<not> in_use e) (dir_entries (shown s ip)) i j \<and> quiet s s' \<and> length (e_name e') = 15"
  using assms
proof (induction "length (dir_entries (shown s ip)) - i" arbitrary: i e s)
  case 0
  define es where "es = dir_entries (shown s ip)"
  have i: "i = length es" using 0 by (simp add: es_def)
  from read_entry_spec(2) [OF "0.prems"(1,2,5) es_def "0.prems"(3), of i] i obtain s' where
    r: "read_entry ip e (20 * i) s = Some (False, e, s')" "quiet s s'" by auto
  then show ?case using i "0.prems"(5) unfolding es_def [symmetric]
    by (subst slot_loop.simps) (auto simp: least_from_def intro!: exI [of _ i])
next
  case (Suc n)
  define es where "es = dir_entries (shown s ip)"
  have i: "i < length es" using Suc(2) by (simp add: es_def)
  from read_entry_spec(1) [OF Suc.prems(1,2,5) es_def Suc.prems(3) i] obtain s1 where
    r: "read_entry ip e (20 * i) s = Some (True, es ! i, s1)" "quiet s s1" by blast
  note q = quiet_simps [OF r(2)]
  have e15: "length (e_name (es ! i)) = 15" using Suc.prems(4) i unfolding entries_ok_def es_def by blast
  have next_: "20 * i + DIR_ENTRY_SIZE = 20 * Suc i" by (simp add: DIR_ENTRY_SIZE_def)
  show ?case
  proof (cases "in_use (es ! i)")
    case False
    then show ?thesis using r e15 i unfolding es_def [symmetric]
      by (subst slot_loop.simps) (auto simp: least_from_def intro!: exI [of _ i])
  next
    case True
    have "slot_loop ip e (20 * i) s = slot_loop ip (es ! i) (20 * Suc i) s1"
      using r(1) True by (subst slot_loop.simps) (simp add: next_)
    moreover have "\<exists>j e' s'. slot_loop ip (es ! i) (20 * Suc i) s1 = Some (e', 20 * j, s')
       \<and> least_from (\<lambda>e. \<not> in_use e) (dir_entries (shown s1 ip)) (Suc i) j \<and> quiet s1 s' \<and> length (e_name e') = 15"
      using Suc(2) i Suc.prems q e15 by (intro Suc(1)) (simp_all add: es_def)
    moreover have "\<not> \<not> in_use (es ! i)" using True by simp
    ultimately show ?thesis using quiet_trans [OF r(2)] least_from_step [of "\<lambda>e. \<not> in_use e" es i] unfolding q es_def [symmetric] by auto
  qed
qed

section \<open>Recording the parent of a file\<close>

text \<open>The sector \<open>x\<close> of an inode: in use, not cached, and part of no open file.\<close>

definition inode_sector_ok :: "fs_state \<Rightarrow> disk_sector_t \<Rightarrow> bool" where
  "inode_sector_ok s x \<longleftrightarrow> x \<in> used_sectors s \<and> x \<notin> cached (cache s) \<and> (\<forall>jp j. inodes s jp = Some j \<longrightarrow> x \<notin> own_sectors s j)
     \<and> (\<forall>jp j. inodes s jp = Some j \<and> i_sector j = x \<longrightarrow> free_map_file s \<noteq> Some jp)"

text \<open>What a step that does not touch the file \<open>ip\<close> keeps of it, and of the others.\<close>

definition keeps :: "nat \<Rightarrow> inode \<Rightarrow> fs_state \<Rightarrow> fs_state \<Rightarrow> bool" where
  "keeps ip ino s s' \<longleftrightarrow> alloc_inv s' \<and> open_ok s' \<and> inodes s' ip = Some ino \<and> contents s' ino = contents s ino
     \<and> free_map_file s' = free_map_file s \<and> free_sectors s' = free_sectors s
     \<and> (\<forall>jp. jp \<noteq> ip \<longrightarrow> free_map_file s \<noteq> Some jp \<longrightarrow> shown s' jp = shown s jp)"

lemma heap_cnt_irrelevant:
  fixes n :: nat
  defines "t s \<equiv> s\<lparr>cache := (cache s)\<lparr>heap_cnt := n\<rparr>\<rparr>"
  shows "fs_disk (t s) = fs_disk s" "cached (cache (t s)) = cached (cache s)" "cview (cache (t s)) = cview (cache s)"
    "own_sectors (t s) = own_sectors s" "contents (t s) = contents s" "used_sectors (t s) = used_sectors s" "free_sectors (t s) = free_sectors s"
    "shown (t s) = shown s" "alloc_inv (t s) = alloc_inv s"
proof -
  show d: "fs_disk (t s) = fs_disk s" "cached (cache (t s)) = cached (cache s)" for s by (simp_all add: t_def fs_disk_def cached_def)
  show v: "cview (cache (t s)) = cview (cache s)" for s by (simp add: t_def cview_def entry_def fun_eq_iff split: option.split)
  show o: "own_sectors (t s) = own_sectors s" "contents (t s) = contents s" for s
    by (simp_all add: own_sectors_def contents_def file_byte_def d v fun_eq_iff)
  show u: "used_sectors (t s) = used_sectors s" "free_sectors (t s) = free_sectors s" for s by (simp_all add: t_def used_sectors_def free_sectors_def)
  have i: "inodes (t s) = inodes s" "free_map (t s) = free_map s" "free_map_file (t s) = free_map_file s" for s by (simp_all add: t_def)
  show "shown (t s) = shown s" by (simp add: shown_def i o fun_eq_iff split: option.split)
  have "cache_inv (cache (t s)) = cache_inv (cache s)" by (simp add: t_def cache_inv_def cache_core_def)
  then show "alloc_inv (t s) = alloc_inv s"
    unfolding alloc_inv_def fs_ok_def inode_wf_def map_file_ok_def d o u i by simp
qed

lemma next_inode_irrelevant:
  fixes n :: nat
  defines "t s \<equiv> s\<lparr>next_inode := n\<rparr>"
  shows "alloc_inv (t s) = alloc_inv s" "contents (t s) = contents s" "shown (t s) = shown s" "free_sectors (t s) = free_sectors s"
proof -
  have d: "fs_disk (t s) = fs_disk s" "cache (t s) = cache s" "inodes (t s) = inodes s" "free_map (t s) = free_map s"
    "free_map_file (t s) = free_map_file s" for s by (simp_all add: t_def fs_disk_def)
  show c: "contents (t s) = contents s" "free_sectors (t s) = free_sectors s" for s
    by (simp_all add: contents_def file_byte_def d fun_eq_iff free_sectors_def)
  show "shown (t s) = shown s" by (simp add: shown_def d c fun_eq_iff split: option.split)
  show "alloc_inv (t s) = alloc_inv s"
    unfolding alloc_inv_def fs_ok_def inode_wf_def map_file_ok_def own_sectors_def used_sectors_def d by simp
qed

lemma touch_open:
  assumes inv: "alloc_inv s" and op: "open_ok s" and j: "jp \<in> set (open_inodes s)" "inodes s jp = Some j" "i_sector j = x"
    and f: "find_open (inodes s) x (open_inodes s) = Some (Some jp)"
    and ip: "inodes s ip = Some ino" "i_sector ino \<noteq> x" and x: "inode_sector_ok s x"
  shows "\<exists>s3 s4. inode_open x s = Some (jp, s3) \<and> inodes s3 ip = Some ino
     \<and> inode_close write_depth (Some jp) (inode_set_parent jp p s3) = Some s4 \<and> keeps ip ino s s4"
proof -
  have ne: "jp \<noteq> ip" using j ip by auto
  have oc: "open_cnt j > 0" using op j by (auto simp: open_ok_def)
  let ?s4 = "set_inode jp (j\<lparr>parent := p\<rparr>) s"
  have "inode_open x s = Some (jp, inode_reopen jp s)" using f by (simp add: inode_open_def)
  moreover have "inode_close write_depth (Some jp) (inode_set_parent jp p (inode_reopen jp s)) = Some ?s4"
    using j oc by (simp add: inode_close_def inode_set_parent_def inode_reopen_def upd_inode_eq)
  moreover have "inodes (inode_reopen jp s) ip = Some ino" using ne ip by (simp add: inode_reopen_def)
  moreover have "alloc_inv ?s4"
  proof (rule alloc_inv_swap [of jp j])
    show "inode_wf s (j\<lparr>parent := p\<rparr>)" using fs_ok_wf [OF _ j(2)] inv by (simp add: alloc_inv_def inode_wf_def all_data_def all_index_def)
    show "own_sectors s (j\<lparr>parent := p\<rparr>) = own_sectors s j" by (simp add: own_sectors_def all_data_def all_index_def)
  qed (use inv j x in \<open>auto simp: inode_sector_ok_def\<close>)
  moreover have "open_ok ?s4" using op j oc by (auto simp: open_ok_def split: if_splits)
  moreover have "shown ?s4 kp = shown s kp" for kp
    using j same_sectors(2) [of "j\<lparr>parent := p\<rparr>" j s] by (cases "kp = jp") (simp_all, simp add: shown_def)
  ultimately show ?thesis using ne ip by (auto simp: keeps_def)
qed

lemma touch_closed:
  assumes inv: "alloc_inv s" and op: "open_ok s" and f: "find_open (inodes s) x (open_inodes s) = Some None"
    and ip: "inodes s ip = Some ino" "free_map_file s \<noteq> Some ip" and x: "inode_sector_ok s x"
  shows "\<exists>jp s3 s4. inode_open x s = Some (jp, s3) \<and> inodes s3 ip = Some ino
     \<and> inode_close write_depth (Some jp) (inode_set_parent jp p s3) = Some s4 \<and> keeps ip ino s s4"
proof -
  define dk where "dk = decode_inode (sector_at (fs_disk s) x)"
  define jp where "jp = next_inode s"
  define h where "h = heap_cnt (cache s)"
  define b where "b = encode_inode \<lparr>d_length = d_length dk, d_magic = INODE_MAGIC, d_is_allocated = d_is_allocated dk, d_ptrs = d_ptrs dk,
    d_ptr_idx = d_ptr_idx dk, d_indir_idx = d_indir_idx dk, d_double_indir_idx = d_double_indir_idx dk, d_is_dir = d_is_dir dk,
    d_parent = p, d_unused = map (uninit s) [0..<105]\<rparr>"
  define t where "t = bump (Suc (read_cnt (fs_disk s))) (s\<lparr>cache := (cache s)\<lparr>heap_cnt := Suc (Suc (Suc h))\<rparr>\<rparr>)"
  have ci: "cache_inv (cache s)" using inv by (simp add: alloc_inv_def fs_ok_def)
  have heap: "\<forall>n. heap_ok (cache s) n" using ci by (simp add: cache_inv_def cache_core_def)
  have dw: "disk_wf (fs_disk s)" by (rule cache_inv_disk [OF ci])
  have xv: "valid_sector (fs_disk s) x"
    using x inv by (auto simp: inode_sector_ok_def used_sectors_def alloc_inv_def valid_sector_def word_less_nat_alt)
  have lt: "kp < jp" if "inodes s kp \<noteq> None" for kp using op that by (simp add: open_ok_def jp_def)
  have none: "inodes s jp = None" "ip \<noteq> jp" using lt [of jp] lt [of ip] ip by blast+
  then have nin: "jp \<notin> set (open_inodes s)" using op by (auto simp: open_ok_def)
  have "length (d_ptrs dk) = 15" using le_words_sector [OF dw xv] by (simp add: dk_def decode_inode_def Let_def)
  then have lb: "length b = DISK_SECTOR_SIZE" by (simp add: b_def encode_inode_def DISK_SECTOR_SIZE_def)
  have inb: "alloc_inv (bump k s) = alloc_inv s" for k s by (simp add: alloc_inv_def fs_ok_def map_file_ok_def)
  have invt: "alloc_inv (set_inode ip ino t)"
    using inv ip(1) by (simp add: t_def inb heap_cnt_irrelevant)
  have it: "inodes t = inodes s" "free_map_file t = free_map_file s" by (simp_all add: t_def)
  have "cached (cache t) = cached (cache s)" by (simp add: t_def) (simp add: cached_def)
  then have tx: "x \<in> used_sectors t" "x \<notin> cached (cache t)" "\<And>kp k. inodes (set_inode ip ino t) kp = Some k \<Longrightarrow> x \<notin> own_sectors t k"
    using x ip(1) by (auto simp: t_def heap_cnt_irrelevant inode_sector_ok_def split: if_splits)
  have nft: "free_map_file t \<noteq> Some ip" using it ip(2) by simp
  from write_fresh [OF invt nft tx(1,2) _ lb] tx(3) obtain t' where
    w: "fs_write_sector x b t = Some t'" "took ip ino {} {x} t t'" "inodes t' = inodes t" by blast
  define s4 where "s4 = t'\<lparr>next_inode := Suc jp\<rparr>"
  from w(1) obtain d where d: "disk_write (fs_disk t) x b = Some d" "t' = set_disk d t" by (auto simp: fs_write_sector_def bind_Some_iff)
  have t_eq: "t = s\<lparr>cache := (cache s)\<lparr>heap_cnt := Suc (Suc (Suc h)), filesys_disk := (fs_disk s)\<lparr>read_cnt := Suc (read_cnt (fs_disk s))\<rparr>\<rparr>\<rparr>"
    by (simp add: t_def bump_def set_disk_def fs_disk_def)
  have d': "disk_write ((filesys_disk (cache s))\<lparr>read_cnt := Suc (read_cnt (filesys_disk (cache s)))\<rparr>) x b = Some d"
    using d(1) by (simp add: t_def fs_disk_def bump_def set_disk_def)
  have run: "\<exists>s3. inode_open x s = Some (jp, s3) \<and> inodes s3 ip = Some ino \<and> inode_close write_depth (Some jp) (inode_set_parent jp p s3) = Some s4"
    using f heap dw xv none nin ip(1) d' lt unfolding s4_def d(2) t_eq
    by (simp add: inode_open_def Let_def fs_malloc_ok fs_read_sector_def fs_disk_def disk_read_spec set_disk_def inode_close_def
        inode_set_parent_def upd_inode_def fs_write_sector_def jp_def [symmetric] h_def [symmetric] dk_def [unfolded fs_disk_def, symmetric] b_def
        fun_upd_idem remove1_idem)
  have k: "keeps ip ino s s4"
  proof -
    have a: "alloc_inv (set_inode ip ino t')" "inodes t' ip = Some ino" "contents t' ino = contents t ino" "apart ip t t'" "free_sectors t' = free_sectors t"
      using w(2,3) it ip(1) by (auto simp: took_def)
    then have "alloc_inv s4" by (simp add: s4_def next_inode_irrelevant)
    moreover have "contents t = contents s" "shown t = shown s" "free_sectors t = free_sectors s"
      by (simp_all add: t_def heap_cnt_irrelevant fun_eq_iff)
    moreover have "open_ok s4"
    proof -
      have "open_inodes t' = open_inodes s" "inodes t' = inodes s" using a(4) w(3) it by (auto simp: apart_def t_def)
      then show ?thesis using op lt unfolding open_ok_def s4_def by (auto dest: less_SucI)
    qed
    ultimately show ?thesis using a it ip(2) unfolding keeps_def s4_def by (auto simp: next_inode_irrelevant apart_def)
  qed
  from run k show ?thesis by blast
qed

section \<open>The entries as a map\<close>

lemma dir_map_iff:
  assumes "entries_ok es"
  shows "dir_map es nm = Some x \<longleftrightarrow> (\<exists>k < length es. names nm (es ! k) \<and> inode_sector (es ! k) = x)"
proof
  assume "dir_map es nm = Some x"
  then show "\<exists>k < length es. names nm (es ! k) \<and> inode_sector (es ! k) = x" by (auto simp: dir_map_def find_Some_iff)
next
  assume "\<exists>k < length es. names nm (es ! k) \<and> inode_sector (es ! k) = x"
  then obtain k where k: "k < length es" "names nm (es ! k)" "inode_sector (es ! k) = x" by blast
  have "\<not> names nm (es ! l)" if "l < k" for l
    using assms k that unfolding entries_ok_def names_def by (metis less_trans nat_neq_iff)
  then have "find (names nm) es = Some (es ! k)" using k by (auto simp: find_Some_iff intro!: exI [of _ k])
  then show "dir_map es nm = Some x" using k by (simp add: dir_map_def)
qed

lemma dir_map_None: "dir_map es nm = None \<longleftrightarrow> (\<forall>k < length es. \<not> names nm (es ! k))"
  by (auto simp: dir_map_def find_None_iff in_set_conv_nth)

text \<open>Storing an entry in a slot \<open>j\<close>, or behind the last one.\<close>

definition put_entry :: "nat \<Rightarrow> dir_entry \<Rightarrow> dir_entry list \<Rightarrow> dir_entry list" where
  "put_entry j e es = (if j < length es then es[j := e] else es @ [e])"

lemma nth_put: "j \<le> length es \<Longrightarrow> k < length (put_entry j e es) \<Longrightarrow> put_entry j e es ! k = (if k = j then e else es ! k)"
  by (auto simp: put_entry_def nth_append nth_list_update)

lemma length_put: "j \<le> length es \<Longrightarrow> length (put_entry j e es) = (if j < length es then length es else Suc j)"
  by (auto simp: put_entry_def)

lemma entries_overwrite:
  assumes len: "length bs = 20 * n" and j: "j \<le> n" and e: "length (e_name e) = 15"
  shows "dir_entries (overwrite (20 * j) (encode_entry e) bs) = put_entry j e (dir_entries bs)"
proof (rule nth_equalityI)
  let ?o = "overwrite (20 * j) (encode_entry e) bs"
  have lo: "length ?o = 20 * (if j < n then n else Suc j)" using len j e by (auto simp: overwrite_def)
  then show "length (dir_entries ?o) = length (put_entry j e (dir_entries bs))" using len j by (auto simp: length_put)
  fix k assume "k < length (dir_entries ?o)"
  then have k: "k < (if j < n then n else Suc j)" using lo by simp
  have "take 20 (drop (20 * k) ?o) = (if k = j then encode_entry e else take 20 (drop (20 * k) bs))"
  proof -
    consider "k < j" | "k = j" | "j < k" by linarith
    then show ?thesis
    proof cases
      case 1
      define a where "a = take (20 * j) bs"
      have a: "length a = 20 * j" "20 * k + 20 \<le> length a" using 1 len j by (simp_all add: a_def)
      then have "take 20 (drop (20 * k) ?o) = take 20 (drop (20 * k) a)" by (simp add: overwrite_def flip: a_def)
      moreover have "take 20 (drop (20 * k) a) = take 20 (drop (20 * k) bs)" using a by (simp add: a_def drop_take)
      ultimately show ?thesis using 1 by simp
    next
      case 2
      then show ?thesis using e len j by (simp add: overwrite_def)
    next
      case 3
      then have "20 * k = 20 * j + 20 + 20 * (k - Suc j)" by simp
      then have "drop (20 * k) ?o = drop (20 * k) bs" using e len j by (simp add: overwrite_def add.commute)
      then show ?thesis using 3 by simp
    qed
  qed
  moreover have "dir_entries ?o ! k = decode_entry (take 20 (drop (20 * k) ?o))" using k lo by (intro nth_entries) simp
  moreover have "put_entry j e (dir_entries bs) ! k = (if k = j then e else dir_entries bs ! k)"
    using k j len by (intro nth_put) (auto simp: length_put)
  ultimately show "dir_entries ?o ! k = put_entry j e (dir_entries bs) ! k"
    using k j len e by (auto simp: decode_encode nth_entries split: if_splits)
qed

lemma put_new:
  assumes ok: "entries_ok es" and j: "j \<le> length es" "j < length es \<Longrightarrow> \<not> in_use (es ! j)"
    and e: "length (e_name e) = 15" "0 \<in> set (e_name e)" "in_use e" and new: "dir_map es (name_of e) = None"
  shows "entries_ok (put_entry j e es)" "dir_map (put_entry j e es) = (dir_map es)(name_of e \<mapsto> inode_sector e)"
proof -
  note nth = nth_put [OF j(1), of _ e] and len = length_put [OF j(1), of e]
  have old: "k < length es" if "k < length (put_entry j e es)" "k \<noteq> j" for k using that j len by (auto split: if_splits)
  have no: "\<not> names (name_of e) (es ! k)" if "k < length es" for k using new that by (auto simp: dir_map_None)
  show ok': "entries_ok (put_entry j e es)"
    unfolding entries_ok_def
  proof (intro conjI allI impI)
    fix k assume k: "k < length (put_entry j e es)"
    then show "length (e_name (put_entry j e es ! k)) = 15" using nth [of k] e ok old [of k] by (auto simp: entries_ok_def)
    show "0 \<in> set (e_name (put_entry j e es ! k))" if "in_use (put_entry j e es ! k)"
      using k nth [of k] e ok old [of k] that by (auto simp: entries_ok_def split: if_splits)
  next
    fix k l assume a: "k < length (put_entry j e es) \<and> l < length (put_entry j e es) \<and> in_use (put_entry j e es ! k)
      \<and> in_use (put_entry j e es ! l) \<and> name_of (put_entry j e es ! k) = name_of (put_entry j e es ! l)"
    then have kl: "k = j \<or> k < length es \<and> put_entry j e es ! k = es ! k" "l = j \<or> l < length es \<and> put_entry j e es ! l = es ! l"
      "k = j \<Longrightarrow> put_entry j e es ! k = e" "l = j \<Longrightarrow> put_entry j e es ! l = e"
      using nth [of k] nth [of l] old [of k] old [of l] by auto
    from kl(1,2) show "k = l"
    proof (elim disjE conjE)
      assume "k < length es" "put_entry j e es ! k = es ! k" "l < length es" "put_entry j e es ! l = es ! l"
      then show ?thesis using a ok unfolding entries_ok_def by metis
    qed (use a kl(3,4) no [of k] no [of l] in \<open>auto simp: names_def\<close>)
  qed
  show "dir_map (put_entry j e es) = (dir_map es)(name_of e \<mapsto> inode_sector e)"
  proof
    fix nm
    have jl: "j < length (put_entry j e es)" using len j by auto
    have "dir_map (put_entry j e es) nm = Some x \<longleftrightarrow> ((dir_map es)(name_of e \<mapsto> inode_sector e)) nm = Some x" for x
    proof (cases "nm = name_of e")
      case True
      then show ?thesis using nth jl no old e(3) unfolding dir_map_iff [OF ok'] by (auto simp: names_def)
    next
      case False
      have "k < length (put_entry j e es)" if "k < length es" for k using that len by auto
      moreover have "\<not> names nm e" using False by (simp add: names_def)
      moreover have "\<not> names nm (es ! j)" if "j < length es" using j(2) that by (simp add: names_def)
      ultimately show ?thesis using False nth old unfolding dir_map_iff [OF ok'] by (auto simp: dir_map_iff [OF ok]) metis+
    qed
    then show "dir_map (put_entry j e es) nm = ((dir_map es)(name_of e \<mapsto> inode_sector e)) nm"
      by (metis option.exhaust)
  qed
qed

lemma put_unused:
  assumes ok: "entries_ok es" and j: "j < length es" "names nm (es ! j)"
  shows "entries_ok (put_entry j ((es ! j)\<lparr>in_use := False\<rparr>) es)" "dir_map (put_entry j ((es ! j)\<lparr>in_use := False\<rparr>) es) = (dir_map es)(nm := None)"
proof -
  let ?e = "(es ! j)\<lparr>in_use := False\<rparr>"
  have p: "put_entry j ?e es = es[j := ?e]" using j by (simp add: put_entry_def)
  have nth: "es[j := ?e] ! k = (if k = j then ?e else es ! k)" if "k < length es" for k using that by (simp add: nth_list_update)
  have nm: "name_of ?e = name_of (es ! j)" "length (e_name ?e) = length (e_name (es ! j))" by (simp_all add: name_of_def)
  show ok': "entries_ok (put_entry j ?e es)"
  proof -
    have "(in_use (es[j := ?e] ! k) \<longrightarrow> in_use (es ! k)) \<and> e_name (es[j := ?e] ! k) = e_name (es ! k) \<and> name_of (es[j := ?e] ! k) = name_of (es ! k)"
      if "k < length es" for k using nth [OF that] nm by auto
    then show ?thesis using ok unfolding p entries_ok_def by (metis length_list_update)
  qed
  show "dir_map (put_entry j ?e es) = (dir_map es)(nm := None)"
  proof
    fix m
    have uniq: "k = j" if "k < length es" "names nm (es ! k)" for k using ok j that unfolding entries_ok_def names_def by blast
    have n: "names m (es[j := ?e] ! k) \<longleftrightarrow> k \<noteq> j \<and> names m (es ! k)" "k \<noteq> j \<Longrightarrow> es[j := ?e] ! k = es ! k" if "k < length es" for k
      using nth [OF that] by (auto simp: names_def)
    have "dir_map (put_entry j ?e es) m = Some x \<longleftrightarrow> (\<exists>k < length es. k \<noteq> j \<and> names m (es ! k) \<and> inode_sector (es ! k) = x)" for x
      unfolding dir_map_iff [OF ok'] unfolding p length_list_update using n by metis
    moreover have "names m (es ! j) \<longleftrightarrow> m = nm" using j(2) by (auto simp: names_def)
    ultimately have "dir_map (put_entry j ?e es) m = Some x \<longleftrightarrow> ((dir_map es)(nm := None)) m = Some x" for x
      using uniq by (cases "m = nm") (auto simp: dir_map_iff [OF ok])
    then show "dir_map (put_entry j ?e es) m = ((dir_map es)(nm := None)) m" by (metis option.exhaust)
  qed
qed

section \<open>Adding an entry\<close>

text \<open>An open directory: all its entries are visible, and it can be written.\<close>

definition dir_ok :: "fs_state \<Rightarrow> nat \<Rightarrow> inode \<Rightarrow> bool" where
  "dir_ok s ip ino \<longleftrightarrow> inodes s ip = Some ino \<and> is_dir ino = 1 \<and> deny_write_cnt ino = 0 \<and> at_end ino
     \<and> length_shown ino = i_length ino \<and> 20 dvd i_length ino \<and> free_map_file s \<noteq> Some ip \<and> entries_ok (dir_entries (shown s ip))"

lemma dir_ok_quiet: "quiet s s' \<Longrightarrow> dir_ok s ip ino \<Longrightarrow> dir_ok s' ip ino"
  by (simp add: dir_ok_def quiet_simps)

lemma sector_ok_quiet: "quiet s s' \<Longrightarrow> inode_sector_ok s x \<Longrightarrow> inode_sector_ok s' x"
proof -
  assume q: "quiet s s'" and x: "inode_sector_ok s x"
  have "x \<notin> cached (cache s')" using q x unfolding quiet_def inode_sector_ok_def by blast
  moreover have "x \<notin> own_sectors s' j" if "inodes s jp = Some j" for jp j using q x that unfolding quiet_def inode_sector_ok_def by metis
  ultimately show ?thesis using x by (auto simp: inode_sector_ok_def quiet_simps [OF q])
qed

lemma open_ok_quiet: "quiet s s' \<Longrightarrow> open_ok s \<Longrightarrow> open_ok s'"
  by (simp add: open_ok_def quiet_simps)

text \<open>Taking and giving back the lock of a directory.\<close>

lemma set_lock:
  fixes l :: bool
  assumes inv: "alloc_inv s" and d: "dir_ok s ip ino"
  defines "ino' \<equiv> ino\<lparr>i_lock := l\<rparr>" and "s' \<equiv> set_inode ip (ino\<lparr>i_lock := l\<rparr>) s"
  shows "alloc_inv s'" "dir_ok s' ip ino'" "shown s' = shown s" "open_ok s \<Longrightarrow> open_ok s'" "inode_sector_ok s x \<Longrightarrow> inode_sector_ok s' x"
proof -
  have i: "inodes s ip = Some ino" "free_map_file s \<noteq> Some ip" using d by (simp_all add: dir_ok_def)
  have same: "ptrs ino' = ptrs ino" "i_length ino' = i_length ino" "length_shown ino' = length_shown ino" by (simp_all add: ino'_def)
  note ss = same_sectors [OF same(1,2)]
  have wf: "inode_wf s ino" using fs_ok_wf [OF _ i(1)] inv by (simp add: alloc_inv_def)
  have "inode_wf s ino'" by (rule ss(3) [OF _ wf]) (use wf in \<open>simp add: ino'_def inode_wf_def\<close>)
  then have "alloc_inv (set_inode ip ino' s)" by (rule alloc_inv_swap [of ip ino, rotated 3]) (use inv i ss(1) in simp_all)
  then show "alloc_inv s'" by (simp add: s'_def ino'_def)
  show sh: "shown s' = shown s"
  proof
    fix jp
    have e: "s' = set_inode ip ino' s" by (simp add: s'_def ino'_def)
    show "shown s' jp = shown s jp"
    proof (cases "jp = ip")
      case True
      then show ?thesis using i(1) ss(2) [of s] same(3) unfolding e shown_def by simp
    qed (simp add: e)
  qed
  then show "dir_ok s' ip ino'" using d by (simp add: dir_ok_def s'_def ino'_def at_end_def)
  show "open_ok s'" if "open_ok s" using that i(1) by (auto simp: open_ok_def s'_def split: if_splits)
  show "inode_sector_ok s' x" if "inode_sector_ok s x"
    using that i ss(1) by (auto simp: inode_sector_ok_def s'_def ino'_def split: if_splits)
qed

lemma write_slot:
  assumes inv: "alloc_inv s" and d: "dir_ok s ip ino" and e: "length (e_name e) = 15" and j: "j \<le> length (dir_entries (shown s ip))"
    and room': "\<not> j < length (dir_entries (shown s ip)) \<Longrightarrow> i_length ino + 20 \<le> 1284 * 512 \<and> 15 \<le> card (free_sectors s)"
    and ok: "entries_ok (put_entry j e (dir_entries (shown s ip)))"
  shows "\<exists>s' ino'. inode_write_at write_depth ip (encode_entry e) DIR_ENTRY_SIZE (20 * j) s = Some (DIR_ENTRY_SIZE, s') \<and> alloc_inv s'
     \<and> dir_ok s' ip ino' \<and> dir_entries (shown s' ip) = put_entry j e (dir_entries (shown s ip)) \<and> same_id ino ino' \<and> apart ip s s'"
proof -
  have i: "inodes s ip = Some ino" "is_dir ino = 1" "deny_write_cnt ino = 0" "at_end ino" "length_shown ino = i_length ino" "free_map_file s \<noteq> Some ip"
    using d by (simp_all add: dir_ok_def)
  have w: "writable ino" using i by (simp add: writable_def)
  from d obtain n where n: "i_length ino = 20 * n" by (auto simp: dir_ok_def)
  have sh: "shown s ip = contents s ino" using i by (simp add: shown_def)
  have jn: "j \<le> n" using j n by (simp add: sh)
  have l20: "length (encode_entry e) = 20" using e by simp
  have "\<exists>s' ino'. inode_write_at (Suc (Suc 0)) ip (encode_entry e) 20 (20 * j) s = Some (20, s') \<and> alloc_inv s' \<and> inodes s' ip = Some ino'
     \<and> contents s' ino' = overwrite (20 * j) (encode_entry e) (contents s ino) \<and> apart ip s s' \<and> at_end ino'
     \<and> length_shown ino' = i_length ino' \<and> 20 dvd i_length ino' \<and> same_id ino ino'"
  proof (cases "j < n")
    case True
    then have "20 * j + length (encode_entry e) \<le> i_length ino" using n l20 by simp
    from write_inside_inv [OF inv i(1) w i(6) this, of "Suc 0"] l20 i(5) obtain s' where
      "inode_write_at (Suc (Suc 0)) ip (encode_entry e) 20 (20 * j) s = Some (20, s')" "alloc_inv s'"
      "inodes s' ip = Some (ino\<lparr>length_shown := i_length ino\<rparr>)" "apart ip s s'"
      "contents s' (ino\<lparr>length_shown := i_length ino\<rparr>) = overwrite (20 * j) (encode_entry e) (contents s ino)" by auto
    then show ?thesis using i(4) n
      by (intro exI [of _ s'] exI [of _ "ino\<lparr>length_shown := i_length ino\<rparr>"]) (auto simp: same_id_def at_end_def)
  next
    case False
    then have jn: "j = n" using jn by simp
    then have room: "i_length ino + 20 \<le> 1284 * 512" "15 \<le> card (free_sectors s)" using room' n by (simp_all add: sh)
    have "bytes_to_sectors (i_length ino + 20) - bytes_to_sectors (i_length ino) \<le> 1"
      using room(1) by (simp add: bytes_to_sectors_eq)
    then have "bytes_to_sectors (i_length ino + length (encode_entry e)) - bytes_to_sectors (i_length ino) + 14 \<le> card (free_sectors s)"
      using room(2) l20 by simp
    from inode_append [OF inv i(1) w i(6,4,5) _ this, of 0] room(1) l20 obtain s' ino' where
      a: "inode_write_at (Suc (Suc 0)) ip (encode_entry e) 20 (i_length ino) s = Some (20, s')" "alloc_inv s'" "inodes s' ip = Some ino'"
      "contents s' ino' = contents s ino @ encode_entry e" "apart ip s s'" "at_end ino'" "i_length ino' = i_length ino + 20"
      "length_shown ino' = i_length ino'" "same_id ino ino'" by auto
    have "overwrite (20 * j) (encode_entry e) (contents s ino) = contents s ino @ encode_entry e" using jn n by (simp add: overwrite_def)
    then show ?thesis using a jn n by (intro exI [of _ s'] exI [of _ ino']) simp
  qed
  then obtain s' ino' where r: "inode_write_at (Suc (Suc 0)) ip (encode_entry e) 20 (20 * j) s = Some (20, s')" "alloc_inv s'" "inodes s' ip = Some ino'"
    "contents s' ino' = overwrite (20 * j) (encode_entry e) (contents s ino)" "apart ip s s'" "at_end ino'"
    "length_shown ino' = i_length ino'" "20 dvd i_length ino'" "same_id ino ino'" by blast
  have "shown s' ip = overwrite (20 * j) (encode_entry e) (shown s ip)" using r(3,4,7) sh by (simp add: shown_def) (metis length_contents take_all order_refl)
  then have es: "dir_entries (shown s' ip) = put_entry j e (dir_entries (shown s ip))"
    using entries_overwrite [OF _ jn e, of "shown s ip"] n by (simp add: sh)
  have "dir_ok s' ip ino'" using r i es ok by (simp add: dir_ok_def same_id_def apart_def)
  then show ?thesis using r es by (auto simp: write_depth_def numeral_2_eq_2 DIR_ENTRY_SIZE_def)
qed

lemma find_open_total:
  assumes "open_ok s"
  shows "\<exists>r. find_open (inodes s) x (open_inodes s) = Some r"
proof -
  have "\<forall>jp \<in> set l. inodes s jp \<noteq> None \<Longrightarrow> \<exists>r. find_open (inodes s) x l = Some r" for l by (induction l) auto
  moreover have "\<forall>jp \<in> set (open_inodes s). inodes s jp \<noteq> None" using assms by (auto simp: open_ok_def)
  ultimately show ?thesis by blast
qed

text \<open>The body of \<open>dir_add\<close> after the name has been found to be valid and new.\<close>

lemma add_body:
  assumes inv: "alloc_inv s" and op: "open_ok s" and d: "dir_ok s ip ino" and nm: "cstr nm name" "nm \<noteq> []" "length nm \<le> 14"
    and new: "dir_map (dir_entries (shown s ip)) nm = None"
    and x: "inode_sector_ok s x" "i_sector ino \<noteq> x" and room: "i_length ino + 20 \<le> 1284 * 512" "15 \<le> card (free_sectors s)"
  shows "\<exists>jp s3 s4 e1 j s5 n name1 s6 ino'. inode_open x s = Some (jp, s3) \<and> inodes s3 ip = Some ino
     \<and> inode_close write_depth (Some jp) (inode_set_parent jp (inode_get_inumber ino) s3) = Some s4
     \<and> slot_loop ip (uninit_entry s4) 0 s4 = Some (e1, 20 * j, s5) \<and> strlcpy (e_name e1) 0 name (NAME_MAX + 1) = Some (n, name1)
     \<and> inode_write_at write_depth ip (encode_entry \<lparr>inode_sector = x, e_name = name1, in_use = True\<rparr>) DIR_ENTRY_SIZE (20 * j) s5 = Some (DIR_ENTRY_SIZE, s6)
     \<and> alloc_inv s6 \<and> dir_ok s6 ip ino' \<and> same_id ino ino' \<and> dir_map (dir_entries (shown s6 ip)) = (dir_map (dir_entries (shown s ip)))(nm \<mapsto> x)
     \<and> (\<forall>jp. jp \<noteq> ip \<longrightarrow> free_map_file s \<noteq> Some jp \<longrightarrow> shown s6 jp = shown s jp) \<and> free_map_file s6 = free_map_file s"
proof -
  have i: "inodes s ip = Some ino" "free_map_file s \<noteq> Some ip" using d by (simp_all add: dir_ok_def)
  from find_open_total [OF op] obtain r where r: "find_open (inodes s) x (open_inodes s) = Some r" by blast
  have "\<exists>jp s3 s4. inode_open x s = Some (jp, s3) \<and> inodes s3 ip = Some ino
     \<and> inode_close write_depth (Some jp) (inode_set_parent jp (inode_get_inumber ino) s3) = Some s4 \<and> keeps ip ino s s4"
  proof (cases r)
    case None
    then show ?thesis using touch_closed [OF inv op _ i x(1)] r by blast
  next
    case (Some jp)
    then obtain j where j: "jp \<in> set (open_inodes s)" "inodes s jp = Some j" "i_sector j = x"
      using r find_open_Some_iff [of "inodes s" x "open_inodes s" jp] by auto
    then show ?thesis using touch_open [OF inv op j _ i(1) x(2,1)] r Some by blast
  qed
  then obtain jp s3 s4 where t: "inode_open x s = Some (jp, s3)" "inodes s3 ip = Some ino"
    "inode_close write_depth (Some jp) (inode_set_parent jp (inode_get_inumber ino) s3) = Some s4" "keeps ip ino s s4" by blast
  have k: "alloc_inv s4" "inodes s4 ip = Some ino" "shown s4 ip = shown s ip" "free_map_file s4 = free_map_file s" "free_sectors s4 = free_sectors s"
    using t(4) i(1) by (simp_all add: keeps_def shown_def)
  have d4: "dir_ok s4 ip ino" using d k by (simp add: dir_ok_def)
  have dv: "20 dvd length_shown ino" "entries_ok (dir_entries (shown s4 ip))" using d4 by (auto simp: dir_ok_def)
  define es where "es = dir_entries (shown s ip)"
  from slot_loop_spec [OF k(1,2) dv, of "uninit_entry s4" 0] obtain j e1 s5 where
    sl: "slot_loop ip (uninit_entry s4) 0 s4 = Some (e1, 20 * j, s5)" "least_from (\<lambda>e. \<not> in_use e) es 0 j" "quiet s4 s5" "length (e_name e1) = 15"
    using k(3) by (auto simp: es_def)
  define name1 where "name1 = overwrite 0 (nm @ [0]) (e_name e1)"
  have cp: "strlcpy (e_name e1) 0 name (NAME_MAX + 1) = Some (length nm, name1)"
    using strlcpy_spec [OF nm(1), of 15 0 "e_name e1"] sl(4) nm(3) by (simp add: NAME_MAX_def name1_def)
  define e2 where "e2 = \<lparr>inode_sector = x, e_name = name1, in_use = True\<rparr>"
  have "0 \<notin> set nm" using nm(1) by (simp add: cstr_def)
  then have "takeWhile (\<lambda>c. c \<noteq> 0) (nm @ 0 # ys) = nm" for ys by (induction nm) auto
  then have e2: "length (e_name e2) = 15" "0 \<in> set (e_name e2)" "in_use e2" "name_of e2 = nm" "inode_sector e2 = x"
    using sl(4) nm(3) by (auto simp: e2_def name1_def overwrite_def name_of_def)
  have j: "j \<le> length es" "j < length es \<Longrightarrow> \<not> in_use (es ! j)" using sl(2) by (auto simp: least_from_def)
  have ok: "entries_ok es" using d by (simp add: dir_ok_def es_def)
  have "dir_map es (name_of e2) = None" using new e2(4) by (simp add: es_def)
  note put = put_new [OF ok j e2(1-3) this]
  note q = quiet_simps [OF sl(3)]
  have es5: "dir_entries (shown s5 ip) = es" using q k(3) by (simp add: es_def)
  have "\<exists>s6 ino'. inode_write_at write_depth ip (encode_entry e2) DIR_ENTRY_SIZE (20 * j) s5 = Some (DIR_ENTRY_SIZE, s6) \<and> alloc_inv s6
     \<and> dir_ok s6 ip ino' \<and> dir_entries (shown s6 ip) = put_entry j e2 (dir_entries (shown s5 ip)) \<and> same_id ino ino' \<and> apart ip s5 s6"
    by (rule write_slot [OF q(8) dir_ok_quiet [OF sl(3) d4] e2(1)]) (use j put(1) room q k es5 in simp_all)
  then obtain s6 ino' where w: "inode_write_at write_depth ip (encode_entry e2) DIR_ENTRY_SIZE (20 * j) s5 = Some (DIR_ENTRY_SIZE, s6)" "alloc_inv s6"
    "dir_ok s6 ip ino'" "dir_entries (shown s6 ip) = put_entry j e2 es" "same_id ino ino'" "apart ip s5 s6" unfolding es5 by blast
  have "dir_map (dir_entries (shown s6 ip)) = (dir_map es)(nm \<mapsto> x)" using put(2) w(4) e2(4,5) by simp
  moreover have "shown s6 kp = shown s kp" if "kp \<noteq> ip" "free_map_file s \<noteq> Some kp" for kp
    using that w(6) q(3,7) k(4) t(4) by (simp add: apart_def keeps_def)
  moreover have "free_map_file s6 = free_map_file s" using w(6) q(3) k(4) by (simp add: apart_def)
  ultimately show ?thesis using t(1-3) sl(1) cp w(1-3,5) unfolding e2_def es_def by blast
qed

lemma lookup_dir:
  assumes inv: "alloc_inv s" and d: "dir_ok s (dir_inode dir) ino" and nm: "cstr nm name"
  defines "es \<equiv> dir_entries (shown s (dir_inode dir))"
  shows "\<exists>j e' s'. lookup dir name s = Some (dir_map es nm \<noteq> None, e', 20 * j, s') \<and> quiet s s'
     \<and> (dir_map es nm \<noteq> None \<longrightarrow> j < length es \<and> e' = es ! j \<and> names nm e' \<and> dir_map es nm = Some (inode_sector e'))"
proof -
  have i: "inodes s (dir_inode dir) = Some ino" "20 dvd length_shown ino" "entries_ok es" using d by (auto simp: dir_ok_def es_def)
  from lookup_loop_spec [OF inv i(1,2) i(3) [unfolded es_def] nm, of "uninit_entry s" 0] obtain j e' s' where
    l: "lookup dir name s = Some (j < length es, e', 20 * j, s')" "least_from (names nm) es 0 j" "quiet s s'" "j < length es \<longrightarrow> e' = es ! j"
    by (auto simp: lookup_def es_def)
  have "dir_map es nm \<noteq> None \<longleftrightarrow> j < length es"
  proof
    assume "dir_map es nm \<noteq> None"
    then show "j < length es" using l(2) unfolding dir_map_None least_from_def by (meson le_less_trans not_less zero_le)
  next
    assume "j < length es"
    then show "dir_map es nm \<noteq> None" using l(2) unfolding dir_map_None least_from_def by blast
  qed
  moreover have "names nm e' \<and> dir_map es nm = Some (inode_sector e')" if "j < length es"
    using that l(2,4) dir_map_iff [OF i(3)] by (auto simp: least_from_def)
  ultimately show ?thesis using l by auto
qed

lemma unlock:
  assumes "inodes t ip = Some k" and "i_lock k"
  shows "inode_lock_release ip t = Some (set_inode ip (k\<lparr>i_lock := False\<rparr>) t)" "shown (set_inode ip (k\<lparr>i_lock := False\<rparr>) t) = shown t"
proof -
  have "shown (set_inode ip (k\<lparr>i_lock := False\<rparr>) t) kp = shown t kp" for kp
    using assms(1) same_sectors(2) [of "k\<lparr>i_lock := False\<rparr>" k t] by (cases "kp = ip") (simp_all, simp add: shown_def)
  then show "shown (set_inode ip (k\<lparr>i_lock := False\<rparr>) t) = shown t" by blast
  show "inode_lock_release ip t = Some (set_inode ip (k\<lparr>i_lock := False\<rparr>) t)"
    using assms by (simp add: inode_lock_release_def upd_inode_eq)
qed

text \<open>Every operation starts by taking the lock and looking the name up.\<close>

lemma locked_lookup:
  assumes inv: "alloc_inv s" and op: "open_ok s" and d: "dir_ok s (dir_inode dir) ino" and nl: "\<not> i_lock ino" and nm: "cstr nm name"
  defines "ip \<equiv> dir_inode dir" and "es \<equiv> dir_entries (shown s (dir_inode dir))" and "l \<equiv> ino\<lparr>i_lock := True\<rparr>"
  shows "\<exists>s1 j e s2. inode_lock_acquire ip s = Some s1 \<and> lookup dir name s1 = Some (dir_map es nm \<noteq> None, e, 20 * j, s2)
     \<and> (dir_map es nm \<noteq> None \<longrightarrow> j < length es \<and> e = es ! j \<and> names nm e \<and> dir_map es nm = Some (inode_sector e))
     \<and> alloc_inv s2 \<and> open_ok s2 \<and> dir_ok s2 ip l \<and> shown s2 = shown s \<and> free_sectors s2 = free_sectors s \<and> free_map_file s2 = free_map_file s
     \<and> open_inodes s2 = open_inodes s \<and> (\<forall>kp. kp \<noteq> ip \<longrightarrow> inodes s2 kp = inodes s kp)
     \<and> capacity (fs_disk s2) = capacity (fs_disk s) \<and> (\<forall>x. inode_sector_ok s x \<longrightarrow> inode_sector_ok s2 x)"
proof -
  define s1 where "s1 = set_inode ip l s"
  note d = d [folded ip_def]
  note sl = set_lock [OF inv d, where l = True, folded l_def s1_def]
  have acq: "inode_lock_acquire ip s = Some s1" using nl d by (simp add: inode_lock_acquire_def dir_ok_def upd_inode_eq l_def s1_def)
  have "dir_entries (shown s1 ip) = es" using sl(3) by (simp add: es_def ip_def)
  with lookup_dir [of s1 dir l, folded ip_def, OF sl(1,2) nm] obtain j e s2 where
    lk: "lookup dir name s1 = Some (dir_map es nm \<noteq> None, e, 20 * j, s2)" "quiet s1 s2"
      "dir_map es nm \<noteq> None \<longrightarrow> j < length es \<and> e = es ! j \<and> names nm e \<and> dir_map es nm = Some (inode_sector e)" by auto
  note q = quiet_simps [OF lk(2)]
  have sh: "shown s2 = shown s" using q(7) sl(3) by auto
  have same: "free_sectors s2 = free_sectors s" "free_map_file s2 = free_map_file s" "open_inodes s2 = open_inodes s"
    "\<forall>kp. kp \<noteq> ip \<longrightarrow> inodes s2 kp = inodes s kp" using q by (simp_all add: s1_def)
  have "unat (capacity (fs_disk s2)) = unat (capacity (fs_disk s))" using q(2,8) inv by (simp add: alloc_inv_def s1_def)
  then have cap: "capacity (fs_disk s2) = capacity (fs_disk s)" by (simp add: word_unat_eq_iff)
  have x: "\<forall>x. inode_sector_ok s x \<longrightarrow> inode_sector_ok s2 x" using sector_ok_quiet [OF lk(2) sl(5)] by blast
  have op2: "open_ok s2" by (rule open_ok_quiet [OF lk(2) sl(4) [OF op]])
  have d2: "dir_ok s2 ip l" by (rule dir_ok_quiet [OF lk(2) sl(2)])
  show ?thesis using acq lk(1,3) q(8) op2 d2 sh same cap x by blast
qed

section \<open>An example\<close>

text \<open>A disk of 32 sectors: a file of 600 bytes, the free map, and a directory of two slots in sector 4 that has the
  file under the name \<open>a\<close>. Sectors up to 8 are in use.\<close>

definition demo_entry :: dir_entry where
  "demo_entry = \<lparr>inode_sector = 0, e_name = 97 # replicate 14 0, in_use = True\<rparr>"

definition demo_dir_inode :: inode where
  "demo_dir_inode = demo_inode\<lparr>i_sector := 8, i_length := 40, length_shown := 40, ptrs := [4, 0, 0, 0, 0, 0, 0, 0, 0, 0, 0, 0, 0, 0, 0],
     ptr_idx := 1, is_dir := 1\<rparr>"

definition demo_dir_fs :: fs_state where
  "demo_dir_fs = grow_fs\<lparr>cache := demo_cache\<lparr>filesys_disk := grow_disk\<lparr>media := (media grow_disk)[4 := encode_entry demo_entry @ replicate 492 0]\<rparr>\<rparr>,
     free_map := \<lparr>bit_cnt = 32, bits = [511]\<rparr>, inodes := [0 \<mapsto> demo_inode, 1 \<mapsto> map_inode, 2 \<mapsto> demo_dir_inode], open_inodes := [0, 1, 2],
     next_inode := 3\<rparr>"

definition demo_dir :: dir where "demo_dir = \<lparr>dir_inode = 2, dir_pos = 0\<rparr>"

lemma demo_dir_disk:
  "cache_inv (cache demo_dir_fs)" "cached (cache demo_dir_fs) = {}" "capacity (fs_disk demo_dir_fs) = 32"
  "sector_at (fs_disk demo_dir_fs) 4 = encode_entry demo_entry @ replicate 492 0"
proof -
  have "answers (\<lambda>_. STA_DRQ)"
    unfolding answers_def by (rule exI [of _ 0]) (simp add: STA_DRQ_def STA_BSY_def)
  moreover have "length (encode_entry demo_entry) = 20" by (simp add: demo_entry_def)
  ultimately have "disk_wf (fs_disk demo_dir_fs)"
    by (auto simp: disk_wf_def demo_dir_fs_def grow_disk_def demo_disk_def DISK_SECTOR_SIZE_def fs_disk_def dest!: set_update_subset_insert [THEN subsetD])
  then show "cache_inv (cache demo_dir_fs)" by (simp add: cache_inv_def cache_core_def demo_dir_fs_def demo_cache_def fs_disk_def)
qed (simp_all add: demo_dir_fs_def fs_disk_def cached_def demo_cache_def grow_disk_def sector_at_def)

lemma demo_dir_map: "used_sectors demo_dir_fs = {x. unat x < 9}" "23 \<le> card (free_sectors demo_dir_fs)"
proof -
  have "bit (511 :: u32) i \<longleftrightarrow> i < 9" if "i < 32" for i
  proof -
    have "bit (mask 9 :: u32) i \<longleftrightarrow> i < 9" using that by (simp add: bit_mask_iff)
    then show ?thesis by (simp add: mask_eq_exp_minus_1)
  qed
  then have b: "bit_at (free_map demo_dir_fs) i \<longleftrightarrow> i < 9" if "i < 32" for i
    using that by (simp add: bit_at_def demo_dir_fs_def)
  have c: "bit_cnt (free_map demo_dir_fs) = 32" by (simp add: demo_dir_fs_def)
  show "used_sectors demo_dir_fs = {x. unat x < 9}" unfolding used_sectors_def c using b by auto
  have "of_nat ` {9..<32} \<subseteq> free_sectors demo_dir_fs"
    using b by (auto simp: free_sectors_def c unsigned_of_nat take_bit_nat_eq_self)
  moreover have "inj_on (of_nat :: nat \<Rightarrow> u32) {9..<32}"
  proof (rule inj_onI)
    fix x y :: nat assume "x \<in> {9..<32}" "y \<in> {9..<32}" "of_nat x = (of_nat y :: u32)"
    then have "unat (of_nat x :: u32) = unat (of_nat y :: u32)" "x < 2 ^ 32" "y < 2 ^ 32" by simp_all
    then show "x = y" by (simp add: unsigned_of_nat take_bit_nat_eq_self)
  qed
  ultimately show "23 \<le> card (free_sectors demo_dir_fs)"
    using card_mono [of "free_sectors demo_dir_fs" "of_nat ` {9..<32}"] by (simp add: card_image)
qed

lemma demo_dir_blocks:
  "all_data d demo_dir_inode = {4}" "all_index d demo_dir_inode = {}"
  "inode_wf demo_dir_fs demo_inode" "inode_wf demo_dir_fs map_inode" "inode_wf demo_dir_fs demo_dir_inode"
proof -
  have K: "{k. k * 512 < i_length demo_inode} = {0, 1 :: nat}" "{k. k * 512 < i_length map_inode} = {0 :: nat}"
    "{k. k * 512 < i_length demo_dir_inode} = {0 :: nat}"
    by (auto simp: demo_inode_def map_inode_def demo_dir_inode_def)
  have b: "data_block d (ptrs demo_inode) 0 = 1" "data_block d (ptrs demo_inode) 1 = 2" "data_block d (ptrs map_inode) 0 = 3"
    "data_block d (ptrs demo_dir_inode) 0 = 4" "index_blocks d ps 0 = {}" "index_blocks d ps 1 = {}" for d ps
    by (simp_all add: data_block_def index_blocks_def demo_inode_def map_inode_def demo_dir_inode_def)
  show a: "all_data d demo_dir_inode = {4}" "all_index d demo_dir_inode = {}" for d
    unfolding all_data_def all_index_def K using b by auto
  show "inode_wf demo_dir_fs demo_inode" "inode_wf demo_dir_fs map_inode" "inode_wf demo_dir_fs demo_dir_inode"
    unfolding inode_wf_def K a grow_blocks demo_dir_disk using b
    by (auto simp: demo_inode_def map_inode_def demo_dir_inode_def MAX_BLOCKS_def valid_sector_def demo_dir_disk)
qed

lemma demo_dir_files:
  "inodes demo_dir_fs ip = Some ino \<Longrightarrow> ip = 0 \<and> ino = demo_inode \<or> ip = 1 \<and> ino = map_inode \<or> ip = 2 \<and> ino = demo_dir_inode"
  "own_sectors demo_dir_fs demo_inode = {1, 2}" "own_sectors demo_dir_fs map_inode = {3}" "own_sectors demo_dir_fs demo_dir_inode = {4}"
  by (auto simp: demo_dir_fs_def split: if_splits) (simp_all add: own_sectors_def grow_blocks demo_dir_blocks)

lemma demo_dir_inv: "alloc_inv demo_dir_fs" "open_ok demo_dir_fs"
proof -
  note i = demo_dir_files(1) and own = demo_dir_files(2-4)
  have "fs_ok demo_dir_fs" unfolding fs_ok_def using demo_dir_disk(1) demo_dir_blocks(3-5) own by (fastforce dest!: i)
  moreover have "bitmap_wf (free_map demo_dir_fs)" by (simp add: bitmap_wf_def demo_dir_fs_def elem_cnt_eq)
  moreover have "own_sectors demo_dir_fs ino \<subseteq> used_sectors demo_dir_fs" if "inodes demo_dir_fs ip = Some ino" for ip ino
    using i [OF that] own demo_dir_map(1) by auto
  moreover have "map_file_ok demo_dir_fs"
    by (simp add: map_file_ok_def demo_dir_fs_def grow_fs_def writable_def map_inode_def demo_inode_def byte_cnt_def elem_cnt_eq usz_id)
  moreover have "bit_cnt (free_map demo_dir_fs) = 32" by (simp add: demo_dir_fs_def)
  ultimately show "alloc_inv demo_dir_fs" using demo_dir_disk by (simp add: alloc_inv_def)
  show "open_ok demo_dir_fs"
    by (auto simp: open_ok_def demo_dir_fs_def demo_inode_def map_inode_def demo_dir_inode_def split: if_splits)
qed

lemma demo_dir_shown: "shown demo_dir_fs 2 = encode_entry demo_entry @ replicate 20 0"
proof -
  have "cview (cache demo_dir_fs) 4 = encode_entry demo_entry @ replicate 492 0"
    using cview_uncached [of 4 "cache demo_dir_fs"] demo_dir_disk(2,4) by (simp add: fs_disk_def)
  then have "file_byte demo_dir_fs demo_dir_inode i = (encode_entry demo_entry @ replicate 492 0) ! i" if "i < 40" for i
    using that by (simp add: file_byte_def data_block_def demo_dir_inode_def)
  moreover have l: "i_length demo_dir_inode = 40" "length_shown demo_dir_inode = 40" by (simp_all add: demo_dir_inode_def)
  moreover have e: "length (encode_entry demo_entry) = 20" by (simp add: demo_entry_def)
  ultimately have "contents demo_dir_fs demo_dir_inode = take 40 (encode_entry demo_entry @ replicate 492 0)"
    by (intro nth_equalityI) (simp_all add: contents_def del: take_append)
  moreover have "inodes demo_dir_fs 2 = Some demo_dir_inode" by (simp add: demo_dir_fs_def)
  ultimately show ?thesis using l e by (simp add: shown_def)
qed

lemma demo_dir_entries: "dir_entries (shown demo_dir_fs 2) = [demo_entry, decode_entry (replicate 20 0)]"
proof -
  have "[0..<2] = [0, Suc 0]" by (simp add: numeral_2_eq_2)
  then show ?thesis unfolding demo_dir_shown by (simp add: dir_entries_def demo_entry_def decode_encode)
qed

lemma demo_dir_ok: "dir_ok demo_dir_fs 2 demo_dir_inode" "dir_map (dir_entries (shown demo_dir_fs 2)) = [[97] \<mapsto> 0]"
proof -
  have n: "name_of demo_entry = [97]" by (simp add: name_of_def demo_entry_def)
  have e: "\<not> in_use (decode_entry (replicate 20 0))" "length (e_name (decode_entry (replicate 20 0))) = 15" "in_use demo_entry"
    "length (e_name demo_entry) = 15" "0 \<in> set (e_name demo_entry)"
    by (simp_all add: decode_entry_def NAME_MAX_def demo_entry_def)
  then have "entries_ok (dir_entries (shown demo_dir_fs 2))"
    unfolding demo_dir_entries entries_ok_def by (auto simp: less_Suc_eq)
  then show "dir_ok demo_dir_fs 2 demo_dir_inode"
    by (simp add: dir_ok_def demo_dir_fs_def demo_dir_inode_def demo_inode_def at_end_def bytes_to_sectors_eq slot_pos_def slot_ofs_def grow_fs_def)
  show "dir_map (dir_entries (shown demo_dir_fs 2)) = [[97] \<mapsto> 0]"
    unfolding demo_dir_entries using n e by (auto simp: dir_map_def names_def fun_eq_iff demo_entry_def)
qed

text \<open>C31. Adding a file to a directory. \<^const>\<open>dir_add\<close> succeeds exactly when the name is valid and not yet in the
  directory; then the map from names to sectors that the directory stands for has the new name in addition,
  and otherwise it is as before. The directory grows when it has no free slot. Every other file keeps its
  bytes.\<close>

theorem dir_add_refines:
  assumes "alloc_inv s" and "open_ok s" and "dir_ok s (dir_inode dir) ino" and "\<not> i_lock ino" and "cstr nm name"
    and "inode_sector_ok s x" and "i_sector ino \<noteq> x"
    and "i_length ino + 20 \<le> 1284 * 512" and "15 \<le> card (free_sectors s)"
  shows "\<exists>s' ino'. dir_add dir name x s
       = Some (nm \<noteq> [] \<and> length nm \<le> 14 \<and> dir_map (dir_entries (shown s (dir_inode dir))) nm = None, s')
     \<and> alloc_inv s' \<and> dir_ok s' (dir_inode dir) ino' \<and> \<not> i_lock ino'
     \<and> dir_map (dir_entries (shown s' (dir_inode dir)))
       = (if nm \<noteq> [] \<and> length nm \<le> 14 \<and> dir_map (dir_entries (shown s (dir_inode dir))) nm = None
          then (dir_map (dir_entries (shown s (dir_inode dir))))(nm \<mapsto> x) else dir_map (dir_entries (shown s (dir_inode dir))))
     \<and> (\<forall>jp. jp \<noteq> dir_inode dir \<longrightarrow> free_map_file s \<noteq> Some jp \<longrightarrow> shown s' jp = shown s jp)"
proof -
  define ip where "ip = dir_inode dir"
  define es where "es = dir_entries (shown s ip)"
  define l where "l = ino\<lparr>i_lock := True\<rparr>"
  define good where "good \<longleftrightarrow> nm \<noteq> [] \<and> length nm \<le> 14"
  from locked_lookup [OF assms(1-5), folded ip_def, folded es_def l_def] obtain s1 j e s2 where
    acq: "inode_lock_acquire ip s = Some s1" and lk: "lookup dir name s1 = Some (dir_map es nm \<noteq> None, e, 20 * j, s2)"
    and s2: "alloc_inv s2" "open_ok s2" "dir_ok s2 ip l" "shown s2 = shown s" "free_sectors s2 = free_sectors s" "free_map_file s2 = free_map_file s"
      "inode_sector_ok s2 x" using assms(6) by blast
  have len: "strlen name = Some (length nm)" by (rule strlen_spec [OF assms(5)])
  have hd: "hd name = 0 \<longleftrightarrow> nm = []" using assms(5) by (cases nm) (auto simp: cstr_def)
  have s1: "s1 = set_inode ip l s" using acq assms(3,4) by (auto simp: inode_lock_acquire_def dir_ok_def upd_inode_eq ip_def l_def)
  note sl = set_lock [OF assms(1) assms(3) [folded ip_def], where l = True, folded l_def, folded s1]
  have es2: "dir_entries (shown s2 ip) = es" by (simp add: s2(4) es_def)
  have "\<exists>t k. alloc_inv t \<and> dir_ok t ip k \<and> i_lock k
     \<and> dir_add dir name x s = Option.bind (inode_lock_release ip t) (\<lambda>t'. Some (good \<and> dir_map es nm = None, t'))
     \<and> dir_map (dir_entries (shown t ip)) = (if good \<and> dir_map es nm = None then (dir_map es)(nm \<mapsto> x) else dir_map es)
     \<and> (\<forall>jp. jp \<noteq> ip \<longrightarrow> free_map_file s \<noteq> Some jp \<longrightarrow> shown t jp = shown s jp)"
  proof (cases "good \<and> dir_map es nm = None")
    case True
    then have "nm \<noteq> []" "length nm \<le> 14" "dir_map (dir_entries (shown s2 ip)) nm = None" using es2 by (simp_all add: good_def)
    moreover have "i_sector l \<noteq> x" "i_length l + 20 \<le> 1284 * 512" "15 \<le> card (free_sectors s2)" using assms(7-9) s2(5) by (simp_all add: l_def)
    ultimately obtain jp s3 s4 e1 j1 s5 n name1 s6 ino6 where b: "inode_open x s2 = Some (jp, s3)" "inodes s3 ip = Some l"
      "inode_close write_depth (Some jp) (inode_set_parent jp (inode_get_inumber l) s3) = Some s4"
      "slot_loop ip (uninit_entry s4) 0 s4 = Some (e1, 20 * j1, s5)" "strlcpy (e_name e1) 0 name (NAME_MAX + 1) = Some (n, name1)"
      "inode_write_at write_depth ip (encode_entry \<lparr>inode_sector = x, e_name = name1, in_use = True\<rparr>) DIR_ENTRY_SIZE (20 * j1) s5 = Some (DIR_ENTRY_SIZE, s6)"
      "alloc_inv s6" "dir_ok s6 ip ino6" "same_id l ino6" "dir_map (dir_entries (shown s6 ip)) = (dir_map es)(nm \<mapsto> x)"
      "\<forall>jp. jp \<noteq> ip \<longrightarrow> free_map_file s \<noteq> Some jp \<longrightarrow> shown s6 jp = shown s jp"
      using add_body [OF s2(1-3) assms(5) _ _ _ s2(7)] unfolding es2 unfolding s2(4,6) by blast
    have "dir_add dir name x s = Option.bind (inode_lock_release ip s6) (\<lambda>t'. Some (good \<and> dir_map es nm = None, t'))"
      using acq len hd True lk b(1-6) by (auto simp: dir_add_def dir_get_inode_def NAME_MAX_def Let_def good_def simp flip: ip_def)
    moreover have "i_lock ino6" using b(9) by (simp add: same_id_def l_def)
    ultimately show ?thesis using True b(7,8,10,11) by (intro exI [of _ s6] exI [of _ ino6]) simp
  next
    case False
    define t where "t = (if good then s2 else s1)"
    have "dir_add dir name x s = Option.bind (inode_lock_release ip t) (\<lambda>t'. Some (good \<and> dir_map es nm = None, t'))"
      using acq len hd False lk by (auto simp: dir_add_def dir_get_inode_def NAME_MAX_def good_def t_def simp flip: ip_def)
    moreover have "alloc_inv t" "dir_ok t ip l" "shown t = shown s" using s2 sl by (simp_all add: t_def)
    ultimately show ?thesis using False by (intro exI [of _ t] exI [of _ l]) (auto simp: l_def es_def)
  qed
  then obtain t k where t: "alloc_inv t" "dir_ok t ip k" "i_lock k"
    "dir_add dir name x s = Option.bind (inode_lock_release ip t) (\<lambda>t'. Some (good \<and> dir_map es nm = None, t'))"
    "dir_map (dir_entries (shown t ip)) = (if good \<and> dir_map es nm = None then (dir_map es)(nm \<mapsto> x) else dir_map es)"
    "\<forall>jp. jp \<noteq> ip \<longrightarrow> free_map_file s \<noteq> Some jp \<longrightarrow> shown t jp = shown s jp" by blast
  have "inodes t ip = Some k" using t(2) by (simp add: dir_ok_def)
  note u = unlock [OF this t(3)] and r = set_lock [OF t(1,2), where l = False]
  show ?thesis using t(4-6) u r(1,2)
    by (intro exI [of _ "set_inode ip (k\<lparr>i_lock := False\<rparr>) t"] exI [of _ "k\<lparr>i_lock := False\<rparr>"]) (auto simp: good_def es_def simp flip: ip_def)
qed

theorem dir_add_refines_witness:
  "\<exists>s'. dir_add demo_dir [98, 0] 7 demo_dir_fs = Some (True, s') \<and> dir_map (dir_entries (shown s' 2)) = [[97] \<mapsto> 0, [98] \<mapsto> 7]"
proof -
  have "inode_sector_ok demo_dir_fs 7"
  proof -
    have "i_sector demo_inode = 0" "i_sector map_inode = 5" "i_sector demo_dir_inode = 8"
      by (simp_all add: demo_inode_def map_inode_def demo_dir_inode_def)
    then have "7 \<notin> own_sectors demo_dir_fs ino \<and> i_sector ino \<noteq> 7" if "inodes demo_dir_fs ip = Some ino" for ip ino
      using demo_dir_files(1) [OF that] demo_dir_files(2-4) by auto
    then show ?thesis using demo_dir_map(1) demo_dir_disk(2) by (auto simp: inode_sector_ok_def)
  qed
  moreover have "cstr [98] [98, 0]" by (simp add: cstr_def)
  moreover have "\<not> i_lock demo_dir_inode" "i_sector demo_dir_inode \<noteq> 7" "i_length demo_dir_inode = 40"
    by (simp_all add: demo_dir_inode_def demo_inode_def)
  moreover have "15 \<le> card (free_sectors demo_dir_fs)" using demo_dir_map(2) by simp
  ultimately show ?thesis
    using dir_add_refines [of demo_dir_fs demo_dir demo_dir_inode "[98]" "[98, 0]" 7] demo_dir_inv demo_dir_ok by (auto simp: demo_dir_def)
qed

section \<open>Looking up a name\<close>

lemma open_spec:
  assumes inv: "alloc_inv s" and op: "open_ok s" and x: "valid_sector (fs_disk s) x"
  shows "\<exists>jp j s'. inode_open x s = Some (jp, s') \<and> inodes s' jp = Some j \<and> i_sector j = x \<and> open_ok s'
     \<and> (\<forall>kp k. inodes s kp = Some k \<longrightarrow> shown s' kp = shown s kp
          \<and> inodes s' kp = Some (if kp = jp then k\<lparr>open_cnt := open_cnt k + 1\<rparr> else k))"
proof -
  from find_open_total [OF op] obtain r where r: "find_open (inodes s) x (open_inodes s) = Some r" by blast
  have ci: "cache_inv (cache s)" using inv by (simp add: alloc_inv_def fs_ok_def)
  have heap: "\<forall>n. heap_ok (cache s) n" using ci by (simp add: cache_inv_def cache_core_def)
  have dw: "disk_wf (fs_disk s)" by (rule cache_inv_disk [OF ci])
  show ?thesis
  proof (cases r)
    case (Some jp)
    then obtain j where j: "jp \<in> set (open_inodes s)" "inodes s jp = Some j" "i_sector j = x"
      using r find_open_Some_iff [of "inodes s" x "open_inodes s" jp] by auto
    let ?j = "j\<lparr>open_cnt := open_cnt j + 1\<rparr>"
    have o: "inode_open x s = Some (jp, set_inode jp ?j s)" using r Some j(2) by (simp add: inode_open_def inode_reopen_def upd_inode_eq)
    have "shown (set_inode jp ?j s) kp = shown s kp" for kp
      using j(2) same_sectors(2) [of ?j j s] by (cases "kp = jp") (simp_all, simp add: shown_def)
    then show ?thesis using o j open_ok_open(1) [OF op o] by (intro exI [of _ jp] exI [of _ ?j] exI [of _ "set_inode jp ?j s"]) auto
  next
    case None
    define jp where "jp = next_inode s"
    from inode_open_fresh [OF _ dw x heap] r None obtain s' where o: "inode_open x s = Some (jp, s')" by (auto simp: jp_def)
    from open_ok_open [OF op o] obtain j where j: "inodes s' jp = Some j" "i_sector j = x" "open_ok s'" by blast
    have lt: "kp < jp" if "inodes s kp \<noteq> None" for kp using op that by (simp add: open_ok_def jp_def)
    have s': "inodes s' kp = inodes s kp" if "kp \<noteq> jp" for kp
      using o r None heap dw x that by (auto simp: inode_open_def Let_def fs_malloc_ok fs_read_sector_def fs_disk_def disk_read_spec set_disk_def jp_def)
    have v: "\<exists>n. cache s' = cache (bump (Suc (read_cnt (fs_disk s))) (s\<lparr>cache := (cache s)\<lparr>heap_cnt := n\<rparr>\<rparr>))"
      using o r None heap dw x
      by (auto simp: inode_open_def Let_def fs_malloc_ok fs_read_sector_def fs_disk_def disk_read_spec set_disk_def bump_def)
    have c: "contents s' k = contents s k" for k
    proof -
      from v obtain n where n: "cache s' = cache (bump (Suc (read_cnt (fs_disk s))) (s\<lparr>cache := (cache s)\<lparr>heap_cnt := n\<rparr>\<rparr>))" (is "_ = cache ?b") by blast
      then have "contents s' k = contents ?b k" by (simp add: contents_def file_byte_def fs_disk_def)
      then show ?thesis by (simp add: heap_cnt_irrelevant)
    qed
    have "shown s' kp = shown s kp \<and> inodes s' kp = Some k \<and> kp \<noteq> jp" if "inodes s kp = Some k" for kp k
      using that lt [of kp] s' [of kp] c by (auto simp: shown_def)
    then show ?thesis using o j by (intro exI [of _ jp] exI [of _ j] exI [of _ s']) auto
  qed
qed

text \<open>C32. Looking up a name. \<^const>\<open>dir_lookup\<close> finds a name exactly when the directory maps it to a sector, and then
  opens the inode of that sector; no file changes.\<close>

theorem dir_lookup_refines:
  assumes "alloc_inv s" and "open_ok s" and "dir_ok s (dir_inode dir) ino" and "\<not> i_lock ino" and "cstr nm name"
    and "\<forall>x. dir_map (dir_entries (shown s (dir_inode dir))) nm = Some x \<longrightarrow> valid_sector (fs_disk s) x"
  shows "\<exists>r s'. dir_lookup dir name s = Some (r \<noteq> None, r, s')
     \<and> (case dir_map (dir_entries (shown s (dir_inode dir))) nm of
          None \<Rightarrow> r = None
        | Some x \<Rightarrow> \<exists>jp j. r = Some jp \<and> inodes s' jp = Some j \<and> i_sector j = x)
     \<and> (\<forall>kp k. inodes s kp = Some k \<longrightarrow> shown s' kp = shown s kp)"
proof -
  define ip where "ip = dir_inode dir"
  define es where "es = dir_entries (shown s ip)"
  define l where "l = ino\<lparr>i_lock := True\<rparr>"
  from locked_lookup [OF assms(1-5), folded ip_def, folded es_def l_def] obtain s1 j0 e s2 where
    acq: "inode_lock_acquire ip s = Some s1" and lk: "lookup dir name s1 = Some (dir_map es nm \<noteq> None, e, 20 * j0, s2)"
      "dir_map es nm \<noteq> None \<longrightarrow> dir_map es nm = Some (inode_sector e)"
    and s2: "alloc_inv s2" "open_ok s2" "dir_ok s2 ip l" "shown s2 = shown s" "\<forall>kp. kp \<noteq> ip \<longrightarrow> inodes s2 kp = inodes s kp"
      "capacity (fs_disk s2) = capacity (fs_disk s)" by blast
  have i2: "inodes s2 ip = Some l" "i_lock l" using s2(3) by (simp_all add: dir_ok_def l_def)
  show ?thesis
  proof (cases "dir_map es nm")
    case None
    note u = unlock [OF i2]
    have "dir_lookup dir name s = Some (False, None, set_inode ip (l\<lparr>i_lock := False\<rparr>) s2)"
      using acq lk(1) None u(1) by (simp add: dir_lookup_def dir_get_inode_def flip: ip_def)
    then show ?thesis using None u(2) s2(4)
      by (intro exI [of _ None] exI [of _ "set_inode ip (l\<lparr>i_lock := False\<rparr>) s2"]) (simp flip: ip_def es_def)
  next
    case (Some x)
    then have x: "x = inode_sector e" using lk(2) by simp
    have "valid_sector (fs_disk s2) x" using assms(6) Some s2(6) by (simp add: valid_sector_def flip: ip_def es_def)
    from open_spec [OF s2(1,2) this] obtain jp j s3 where
      o: "inode_open x s2 = Some (jp, s3)" "inodes s3 jp = Some j" "i_sector j = x"
      "\<forall>kp k. inodes s2 kp = Some k \<longrightarrow> shown s3 kp = shown s2 kp \<and> inodes s3 kp = Some (if kp = jp then k\<lparr>open_cnt := open_cnt k + 1\<rparr> else k)" by blast
    have "\<exists>k. inodes s3 ip = Some k \<and> i_lock k" using o(4) i2 by (auto simp: l_def)
    then obtain k where k: "inodes s3 ip = Some k" "i_lock k" by blast
    note u = unlock [OF k]
    let ?s' = "set_inode ip (k\<lparr>i_lock := False\<rparr>) s3"
    have "dir_lookup dir name s = Some (True, Some jp, ?s')"
      using acq lk(1) Some x o(1) u(1) by (simp add: dir_lookup_def dir_get_inode_def flip: ip_def)
    moreover have "shown ?s' kp = shown s kp" if "inodes s kp = Some k" for kp k
    proof -
      have "\<exists>k. inodes s2 kp = Some k" using that s2(5) i2(1) by (cases "kp = ip") simp_all
      then show ?thesis using o(4) u(2) s2(4) by auto
    qed
    moreover have "\<exists>j'. inodes ?s' jp = Some j' \<and> i_sector j' = x" using o(2,3) k(1) by auto
    ultimately show ?thesis using Some by (intro exI [of _ "Some jp"] exI [of _ ?s']) (auto simp flip: ip_def es_def)
  qed
qed

theorem dir_lookup_refines_witness:
  "\<exists>jp j s'. dir_lookup demo_dir [97, 0] demo_dir_fs = Some (True, Some jp, s') \<and> inodes s' jp = Some j \<and> i_sector j = 0"
proof -
  have "cstr [97] [97, 0]" "\<not> i_lock demo_dir_inode" "valid_sector (fs_disk demo_dir_fs) 0"
    by (simp_all add: cstr_def demo_dir_inode_def demo_inode_def valid_sector_def demo_dir_disk)
  then show ?thesis
    using dir_lookup_refines [of demo_dir_fs demo_dir demo_dir_inode "[97]" "[97, 0]"] demo_dir_inv demo_dir_ok by (auto simp: demo_dir_def)
qed

section \<open>Removing an entry\<close>

lemma find_open_unique:
  assumes op: "open_ok s" and j: "jp \<in> set (open_inodes s)" "inodes s jp = Some j" "i_sector j = x"
  shows "find_open (inodes s) x (open_inodes s) = Some (Some jp)"
proof -
  from find_open_total [OF op] obtain r where r: "find_open (inodes s) x (open_inodes s) = Some r" by blast
  then show ?thesis
  proof (cases r)
    case None
    then show ?thesis using r j by (auto simp: find_open_None)
  next
    case (Some kp)
    then obtain k where "kp \<in> set (open_inodes s)" "inodes s kp = Some k" "i_sector k = x"
      using r find_open_Some_iff [of "inodes s" x "open_inodes s" kp] by auto
    then have "kp = jp" using open_ok_unique [OF op, of kp jp] j by auto
    with r Some show ?thesis by simp
  qed
qed

text \<open>The body of \<open>dir_remove\<close> for the entry number \<open>i\<close>, that of an open regular file.\<close>

lemma remove_body:
  assumes inv: "alloc_inv s" and op: "open_ok s" and d: "dir_ok s ip l"
    and j: "jp \<in> set (open_inodes s)" "inodes s jp = Some j" "i_sector j = x" "jp \<noteq> ip" "free_map_file s \<noteq> Some jp"
    and i: "i < length (dir_entries (shown s ip))" "names nm (dir_entries (shown s ip) ! i)"
  defines "e' \<equiv> (dir_entries (shown s ip) ! i)\<lparr>in_use := False\<rparr>" and "j1 \<equiv> j\<lparr>open_cnt := open_cnt j + 1\<rparr>"
  shows "\<exists>s3 s4 ino'. inode_open x s = Some (jp, s3) \<and> inodes s3 jp = Some j1
     \<and> inode_write_at write_depth ip (encode_entry e') DIR_ENTRY_SIZE (20 * i) s3 = Some (DIR_ENTRY_SIZE, s4)
     \<and> inode_close write_depth (Some jp) (inode_remove jp s4) = Some (set_inode jp (j\<lparr>removed := True\<rparr>) s4)
     \<and> inodes s4 ip = Some ino' \<and> same_id l ino' \<and> dir_map (dir_entries (shown s4 ip)) = (dir_map (dir_entries (shown s ip)))(nm := None)
     \<and> shown (set_inode jp (j\<lparr>removed := True\<rparr>) s4) = shown s4 \<and> (\<forall>kp. kp \<noteq> ip \<longrightarrow> free_map_file s \<noteq> Some kp \<longrightarrow> shown s4 kp = shown s kp)"
proof -
  define es where "es = dir_entries (shown s ip)"
  have oc: "open_cnt j > 0" using op j by (auto simp: open_ok_def)
  define s3 where "s3 = set_inode jp j1 s"
  have o: "inode_open x s = Some (jp, s3)"
    using find_open_unique [OF op j(1-3)] j(2) by (simp add: inode_open_def inode_reopen_def upd_inode_eq s3_def j1_def)
  have j1: "ptrs j1 = ptrs j" "i_length j1 = i_length j" by (simp_all add: j1_def)
  have wfj: "inode_wf s j" using fs_ok_wf [OF _ j(2)] inv by (simp add: alloc_inv_def)
  have inv3: "alloc_inv s3" unfolding s3_def
    by (rule alloc_inv_swap [of jp j]) (use inv j same_sectors(1,3) [OF j1] wfj in \<open>auto simp: j1_def inode_wf_def\<close>)
  have sh3: "shown s3 kp = shown s kp" for kp
    using j(2) same_sectors(2) [OF j1] by (cases "kp = jp") (simp_all add: s3_def, simp add: shown_def j1_def)
  have d3: "dir_ok s3 ip l" using d sh3 j(4) by (simp add: dir_ok_def s3_def)
  have ok: "entries_ok es" using d by (simp add: dir_ok_def es_def)
  have e15: "length (e_name e') = 15" using ok i(1) by (simp add: entries_ok_def e'_def es_def)
  have es3: "dir_entries (shown s3 ip) = es" using sh3 by (simp add: es_def)
  note put = put_unused [OF ok i [folded es_def], folded e'_def [folded es_def]]
  have "\<exists>s4 ino'. inode_write_at write_depth ip (encode_entry e') DIR_ENTRY_SIZE (20 * i) s3 = Some (DIR_ENTRY_SIZE, s4) \<and> alloc_inv s4
     \<and> dir_ok s4 ip ino' \<and> dir_entries (shown s4 ip) = put_entry i e' (dir_entries (shown s3 ip)) \<and> same_id l ino' \<and> apart ip s3 s4"
    by (rule write_slot [OF inv3 d3 e15]) (use i(1) es3 put(1) in \<open>simp_all add: es_def\<close>)
  then obtain s4 ino4 where w: "inode_write_at write_depth ip (encode_entry e') DIR_ENTRY_SIZE (20 * i) s3 = Some (DIR_ENTRY_SIZE, s4)"
    "inodes s4 ip = Some ino4" "dir_entries (shown s4 ip) = put_entry i e' es" "same_id l ino4" "apart ip s3 s4" unfolding es3 dir_ok_def by blast
  have j4: "inodes s4 jp = Some j1" using w(5) j(4,5) by (simp add: apart_def s3_def)
  have cl: "inode_close write_depth (Some jp) (inode_remove jp s4) = Some (set_inode jp (j\<lparr>removed := True\<rparr>) s4)"
    using j4 oc by (simp add: inode_close_def inode_remove_def upd_inode_eq j1_def)
  have shr: "shown (set_inode jp (j\<lparr>removed := True\<rparr>) s4) kp = shown s4 kp" for kp
    using j4 same_sectors(2) [of "j\<lparr>removed := True\<rparr>" j1 s4] by (cases "kp = jp") (simp_all add: j1_def, simp add: shown_def j1_def)
  have oth: "\<forall>kp. kp \<noteq> ip \<longrightarrow> free_map_file s \<noteq> Some kp \<longrightarrow> shown s4 kp = shown s kp" using w(5) sh3 by (simp add: apart_def s3_def)
  have "shown (set_inode jp (j\<lparr>removed := True\<rparr>) s4) = shown s4" using shr by blast
  moreover have "dir_map (dir_entries (shown s4 ip)) = (dir_map es)(nm := None)" using w(3) put(2) by simp
  moreover have "inodes s3 jp = Some j1" by (simp add: s3_def)
  ultimately show ?thesis using o w(1,2,4) cl oth unfolding es_def by blast
qed

text \<open>C33. Removing a name. If the directory does not have the name, \<^const>\<open>dir_remove\<close> fails and changes nothing. If the
  name belongs to a regular file that is open, exactly that name disappears from the directory, the file keeps
  its bytes and its inode is marked for deletion on the last close.\<close>

theorem dir_remove_refines:
  assumes "alloc_inv s" and "open_ok s" and "dir_ok s (dir_inode dir) ino" and "\<not> i_lock ino" and "cstr nm name"
    and "\<forall>x. dir_map (dir_entries (shown s (dir_inode dir))) nm = Some x \<longrightarrow>
       jp \<in> set (open_inodes s) \<and> inodes s jp = Some j \<and> i_sector j = x \<and> is_dir j = 0 \<and> jp \<noteq> dir_inode dir \<and> free_map_file s \<noteq> Some jp"
  shows "\<exists>s'. dir_remove dir name s = Some (dir_map (dir_entries (shown s (dir_inode dir))) nm \<noteq> None, s')
     \<and> dir_map (dir_entries (shown s' (dir_inode dir))) = (dir_map (dir_entries (shown s (dir_inode dir))))(nm := None)
     \<and> (\<forall>kp. kp \<noteq> dir_inode dir \<longrightarrow> shown s' kp = shown s kp \<or> free_map_file s = Some kp)
     \<and> (dir_map (dir_entries (shown s (dir_inode dir))) nm \<noteq> None \<longrightarrow> inodes s' jp = Some (j\<lparr>removed := True\<rparr>))"
proof -
  define ip where "ip = dir_inode dir"
  define es where "es = dir_entries (shown s ip)"
  define l where "l = ino\<lparr>i_lock := True\<rparr>"
  from locked_lookup [OF assms(1-5), folded ip_def, folded es_def l_def] obtain s1 i e s2 where
    acq: "inode_lock_acquire ip s = Some s1" and lk: "lookup dir name s1 = Some (dir_map es nm \<noteq> None, e, 20 * i, s2)"
      "dir_map es nm \<noteq> None \<longrightarrow> i < length es \<and> e = es ! i \<and> names nm e \<and> dir_map es nm = Some (inode_sector e)"
    and s2: "alloc_inv s2" "open_ok s2" "dir_ok s2 ip l" "shown s2 = shown s" "free_map_file s2 = free_map_file s" "open_inodes s2 = open_inodes s"
      "\<forall>kp. kp \<noteq> ip \<longrightarrow> inodes s2 kp = inodes s kp" by blast
  have es2: "dir_entries (shown s2 ip) = es" by (simp add: s2(4) es_def)
  show ?thesis
  proof (cases "dir_map es nm")
    case None
    have "inodes s2 ip = Some l" "i_lock l" using s2(3) by (simp_all add: dir_ok_def l_def)
    note u = unlock [OF this]
    let ?s' = "set_inode ip (l\<lparr>i_lock := False\<rparr>) s2"
    have "dir_remove dir name s = Some (False, ?s')"
      using acq lk(1) None u(1) by (simp add: dir_remove_def dir_get_inode_def inode_close_def flip: ip_def)
    then show ?thesis using None u(2) s2(4) by (intro exI [of _ ?s']) (auto simp: fun_upd_idem_iff simp flip: ip_def es_def)
  next
    case (Some x)
    then have e: "i < length es" "e = es ! i" "names nm (es ! i)" "x = inode_sector e" using lk(2) by auto
    have j: "jp \<in> set (open_inodes s2)" "inodes s2 jp = Some j" "i_sector j = x" "jp \<noteq> ip" "free_map_file s2 \<noteq> Some jp" and dj: "is_dir j = 0"
      using assms(6) Some s2(5-7) by (auto simp: es_def ip_def)
    from remove_body [OF s2(1-3) j, of i nm, unfolded es2, OF e(1,3), folded e(2)] obtain s3 s4 ino4 where
      b: "inode_open x s2 = Some (jp, s3)" "inodes s3 jp = Some (j\<lparr>open_cnt := open_cnt j + 1\<rparr>)"
      "inode_write_at write_depth ip (encode_entry (e\<lparr>in_use := False\<rparr>)) DIR_ENTRY_SIZE (20 * i) s3 = Some (DIR_ENTRY_SIZE, s4)"
      "inode_close write_depth (Some jp) (inode_remove jp s4) = Some (set_inode jp (j\<lparr>removed := True\<rparr>) s4)" "inodes s4 ip = Some ino4"
      "same_id l ino4" "dir_map (dir_entries (shown s4 ip)) = (dir_map es)(nm := None)" "shown (set_inode jp (j\<lparr>removed := True\<rparr>) s4) = shown s4"
      "\<forall>kp. kp \<noteq> ip \<longrightarrow> free_map_file s2 \<noteq> Some kp \<longrightarrow> shown s4 kp = shown s2 kp" by blast
    have "inodes (set_inode jp (j\<lparr>removed := True\<rparr>) s4) ip = Some ino4" "i_lock ino4" using b(5,6) j(4) by (simp_all add: same_id_def l_def)
    note u = unlock [OF this]
    let ?s' = "set_inode ip (ino4\<lparr>i_lock := False\<rparr>) (set_inode jp (j\<lparr>removed := True\<rparr>) s4)"
    have "inode_is_dir (j\<lparr>open_cnt := open_cnt j + 1\<rparr>) = Some False" using dj by (simp add: inode_is_dir_def)
    then have "dir_remove dir name s = Some (True, ?s')"
      using acq lk(1) Some e(4) b(1-4) u(1) by (simp add: dir_remove_def dir_get_inode_def flip: ip_def)
    moreover have "inodes ?s' jp = Some (j\<lparr>removed := True\<rparr>)" using j(4) by simp
    ultimately show ?thesis using Some u(2) b(7-9) s2(4,5) by (intro exI [of _ ?s']) (auto simp flip: ip_def es_def)
  qed
qed

theorem dir_remove_refines_witness:
  "\<exists>s'. dir_remove demo_dir [97, 0] demo_dir_fs = Some (True, s') \<and> dir_map (dir_entries (shown s' 2)) = Map.empty
     \<and> inodes s' 0 = Some (demo_inode\<lparr>removed := True\<rparr>)"
proof -
  have "cstr [97] [97, 0]" "\<not> i_lock demo_dir_inode" by (simp_all add: cstr_def demo_dir_inode_def demo_inode_def)
  moreover have "0 \<in> set (open_inodes demo_dir_fs)" "inodes demo_dir_fs 0 = Some demo_inode" "i_sector demo_inode = 0" "is_dir demo_inode = 0"
    "free_map_file demo_dir_fs \<noteq> Some 0"
    by (simp_all add: demo_dir_fs_def grow_fs_def demo_inode_def)
  ultimately show ?thesis
    using dir_remove_refines [of demo_dir_fs demo_dir demo_dir_inode "[97]" "[97, 0]" 0 demo_inode] demo_dir_inv demo_dir_ok
    by (auto simp: demo_dir_def)
qed

end
