(* ===== verification/Filesys.thy ===== *)
theory Filesys
  imports Directory
begin

text \<open>
  The file system's interface, \<^verbatim>\<open>filesys/filesys.c\<close>: path names, and the operations on files by name.
  \<open>current_dir\<close>, a field of the running thread, is an argument. Path names are character arrays, and a
  string that the code builds with \<open>malloc\<close> is the array it returns. A failing \<open>malloc\<close> stops the
  kernel here: the code uses the result without looking at it.
\<close>

definition slash :: "byte list" where "slash = [47, 0]"

definition dot :: "byte list" where "dot = [46, 0]"

definition dotdot :: "byte list" where "dotdot = [46, 46, 0]"

text \<open>\<open>name_copy = malloc (strlen (name) + 1); strlcpy (name_copy, name, strlen (name) + 1)\<close>.\<close>

definition copy_name :: "byte list \<Rightarrow> fs_state \<Rightarrow> (byte list \<times> fs_state) option" where
  "copy_name name s = do {
     n \<leftarrow> strlen name;
     let (ok, s1) = fs_malloc s;
     kassert ok;
     (m, copy) \<leftarrow> strlcpy (map (\<lambda>i. ucast (uninit s1 i)) [0..<n + 1]) 0 name (n + 1);
     Some (copy, s1) }"

section \<open>Path names\<close>

text \<open>The loop of \<open>parse_dir\<close>. \<open>buf\<close> is the copy of the name that \<open>strtok_r\<close> cuts up; \<open>dir_name\<close> and \<open>next_dir\<close> are
  positions in it.\<close>

partial_function (option) parse_loop ::
    "byte list \<Rightarrow> nat \<Rightarrow> nat option \<Rightarrow> nat \<Rightarrow> nat option \<Rightarrow> fsys \<Rightarrow> (nat option \<times> fsys) option" where
  "parse_loop buf dir_name next_dir save dp s =
     (case next_dir of None \<Rightarrow> Some (dp, s)
      | Some nx \<Rightarrow> (case dp of None \<Rightarrow> Some (dp, s)
        | Some p \<Rightarrow>
          Option.bind (strcmp (drop dir_name buf) dot) (\<lambda>r1.
          if r1 = 0
          then Option.bind (strtok_r buf None slash save) (\<lambda>(next1, buf1, save1). parse_loop buf1 nx next1 save1 dp s)
          else Option.bind (strcmp (drop dir_name buf) dotdot) (\<lambda>r2.
            Option.bind (get_dir p s) (\<lambda>d.
            if r2 = 0
            then Option.bind (dir_get_parent_inode d (fs s)) (\<lambda>(ip, fs1).
                 Option.bind (strtok_r buf None slash save) (\<lambda>(next1, buf1, save1). parse_loop buf1 nx next1 save1 dp (s\<lparr>fs := fs1\<rparr>)))
            else Option.bind (dir_lookup d (drop dir_name buf) (fs s)) (\<lambda>(found, inode, fs1).
              if \<not> found then Some (None, s\<lparr>fs := fs1\<rparr>)
              else Option.bind inode (\<lambda>ip.
                   Option.bind (inodes fs1 ip) (\<lambda>ino.
                   Option.bind (inode_is_dir ino) (\<lambda>isdir.
                   Option.bind
                     (if isdir
                      then Option.bind (dir_close dp (s\<lparr>fs := fs1\<rparr>)) (\<lambda>s2. dir_open (Some ip) s2)
                      else Option.bind (inode_close write_depth (Some ip) fs1) (\<lambda>fs2. Some (dp, s\<lparr>fs := fs2\<rparr>)))
                     (\<lambda>(dp1, s3).
                       Option.bind (strtok_r buf None slash save) (\<lambda>(next1, buf1, save1). parse_loop buf1 nx next1 save1 dp1 s3)))))))))))"

definition parse_dir :: "nat option \<Rightarrow> byte list \<Rightarrow> fsys \<Rightarrow> (nat option \<times> fsys) option" where
  "parse_dir current_dir name s = do {
     (buf, fs1) \<leftarrow> copy_name name (fs s);
     let s1 = s\<lparr>fs := fs1\<rparr>;
     (dp, s2) \<leftarrow>
       (if hd buf = 47 then dir_open_root s1
        else case current_dir of None \<Rightarrow> dir_open_root s1 | Some cp \<Rightarrow> dir_reopen cp s1);
     (dir_name, buf1, save1) \<leftarrow> strtok_r buf (Some 0) slash 0;
     case dir_name of
       None \<Rightarrow> Some (dp, s2)
     | Some dn \<Rightarrow> do {
         (next_dir, buf2, save2) \<leftarrow> strtok_r buf1 None slash save1;
         parse_loop buf2 dn next_dir save2 dp s2 } }"

text \<open>The loop of \<open>parse_file\<close>; a token is a position in the copy, and there is no token at first.\<close>

partial_function (option) last_loop :: "byte list \<Rightarrow> nat option \<Rightarrow> nat option \<Rightarrow> nat \<Rightarrow> (nat option \<times> byte list) option" where
  "last_loop buf token next_token save =
     (case next_token of None \<Rightarrow> Some (token, buf)
      | Some i \<Rightarrow> Option.bind (strtok_r buf None slash save) (\<lambda>(next1, buf1, save1). last_loop buf1 (Some i) next1 save1))"

definition parse_file :: "byte list \<Rightarrow> fs_state \<Rightarrow> (byte list \<times> fs_state) option" where
  "parse_file name s = do {
     (buf, s1) \<leftarrow> copy_name name s;
     (next_token, buf1, save1) \<leftarrow> strtok_r buf (Some 0) slash 0;
     (token, buf2) \<leftarrow> last_loop buf1 None next_token save1;
     copy_name (case token of None \<Rightarrow> [0] | Some i \<Rightarrow> drop i buf2) s1 }"

section \<open>Starting and stopping\<close>

text \<open>\<open>channels\<close> are the disks that the driver has found; the other arguments are those of \<^const>\<open>free_map_init\<close>.\<close>

definition do_format :: "fs_state \<Rightarrow> fs_state option" where
  "do_format s = do {
     s1 \<leftarrow> free_map_create s;
     (ok, s2) \<leftarrow> dir_create ROOT_DIR_SECTOR 16 s1;
     kassert ok;
     free_map_close s2 }"

definition filesys_init :: "disk list list \<Rightarrow> bool \<Rightarrow> u32 list option \<Rightarrow> bool \<Rightarrow> fs_state \<Rightarrow> fs_state option" where
  "filesys_init channels header_ok storage format s = do {
     r \<leftarrow> disk_get channels 0 1;
     d \<leftarrow> r;
     let s1 = inode_init (set_disk d s);
     s2 \<leftarrow> free_map_init header_ok storage s1;
     let s3 = s2\<lparr>cache := cache_init (cache s2)\<rparr>;
     s4 \<leftarrow> (if format then do_format s3 else Some s3);
     free_map_open s4 }"

definition filesys_done :: "fs_state \<Rightarrow> fs_state option" where
  "filesys_done s = do {
     c \<leftarrow> cache_write_behind_loop (cache s);
     free_map_close (s\<lparr>cache := c\<rparr>) }"

section \<open>Files by name\<close>

definition filesys_create :: "nat option \<Rightarrow> byte list \<Rightarrow> nat \<Rightarrow> bool \<Rightarrow> fsys \<Rightarrow> (bool \<times> fsys) option" where
  "filesys_create current_dir name initial_size isdir s = do {
     (dp, s1) \<leftarrow> parse_dir current_dir name s;
     (filename, fs2) \<leftarrow> parse_file name (fs s1);
     (success, inode_sector, fs3) \<leftarrow>
       (case dp of
          None \<Rightarrow> Some (False, 0, fs2)
        | Some p \<Rightarrow> do {
            d \<leftarrow> get_dir p s1;
            (r, fs3) \<leftarrow> free_map_allocate write_depth 1 fs2;
            case r of
              None \<Rightarrow> Some (False, 0, fs3)
            | Some x \<Rightarrow> do {
                (ok, fs4) \<leftarrow> inode_create write_depth x initial_size isdir fs3;
                if \<not> ok then Some (False, x, fs4)
                else do {
                  (added, fs5) \<leftarrow> dir_add d filename x fs4;
                  Some (added, x, fs5) } } });
     fs4 \<leftarrow> (if \<not> success \<and> inode_sector \<noteq> 0 then free_map_release write_depth inode_sector 1 fs3 else Some fs3);
     s5 \<leftarrow> dir_close dp (s1\<lparr>fs := fs4\<rparr>);
     Some (success, s5) }"

definition filesys_open :: "nat option \<Rightarrow> byte list \<Rightarrow> fsys \<Rightarrow> (nat option \<times> fsys) option" where
  "filesys_open current_dir name s = do {
     n \<leftarrow> strlen name;
     if n = 0 then Some (None, s)
     else do {
       (dp, s1) \<leftarrow> parse_dir current_dir name s;
       case dp of
         None \<Rightarrow> Some (None, s1)
       | Some p \<Rightarrow> do {
           (filename, fs2) \<leftarrow> parse_file name (fs s1);
           let s2 = s1\<lparr>fs := fs2\<rparr>;
           r1 \<leftarrow> strcmp filename dot;
           r2 \<leftarrow> strcmp filename dotdot;
           m \<leftarrow> strlen filename;
           d \<leftarrow> get_dir p s2;
           dino \<leftarrow> inodes fs2 (dir_get_inode d);
           if r1 = 0 then Some (Some p, s2)
           else if inode_get_inumber dino = ROOT_DIR_SECTOR \<and> m = 0 then Some (Some p, s2)
           else do {
             (inode, s3) \<leftarrow>
               (if r2 = 0
                then do { (ip, fs3) \<leftarrow> dir_get_parent_inode d fs2; Some (None, s2\<lparr>fs := fs3\<rparr>) }
                else do { (found, inode, fs3) \<leftarrow> dir_lookup d filename fs2; Some (inode, s2\<lparr>fs := fs3\<rparr>) });
             s4 \<leftarrow> dir_close dp s3;
             case inode of
               None \<Rightarrow> Some (None, s4)
             | Some ip \<Rightarrow> do {
                 ino \<leftarrow> inodes (fs s4) ip;
                 isdir \<leftarrow> inode_is_dir ino;
                 if isdir then dir_open inode s4 else file_open inode s4 } } } } }"

definition filesys_remove :: "nat option \<Rightarrow> byte list \<Rightarrow> fsys \<Rightarrow> (bool \<times> fsys) option" where
  "filesys_remove current_dir name s = do {
     (dp, s1) \<leftarrow> parse_dir current_dir name s;
     (filename, fs2) \<leftarrow> parse_file name (fs s1);
     (success, fs3) \<leftarrow>
       (case dp of
          None \<Rightarrow> Some (False, fs2)
        | Some p \<Rightarrow> do { d \<leftarrow> get_dir p s1; dir_remove d filename fs2 });
     s4 \<leftarrow> dir_close dp (s1\<lparr>fs := fs3\<rparr>);
     Some (success, s4) }"

section \<open>The last component of a path\<close>

definition heap_tick :: "nat \<Rightarrow> fs_state \<Rightarrow> fs_state" where
  "heap_tick n s = s\<lparr>cache := (cache s)\<lparr>heap_cnt := heap_cnt (cache s) + n\<rparr>\<rparr>"

lemma heap_tick_tick [simp]: "heap_tick m (heap_tick n s) = heap_tick (n + m) s"
  by (simp add: heap_tick_def add.assoc)

lemma heap_tick_fields [simp]:
  "inodes (heap_tick n s) = inodes s" "open_inodes (heap_tick n s) = open_inodes s" "next_inode (heap_tick n s) = next_inode s"
  "free_map (heap_tick n s) = free_map s" "free_map_file (heap_tick n s) = free_map_file s" "uninit (heap_tick n s) = uninit s"
  "heap_ok (cache (heap_tick n s)) = heap_ok (cache s)"
  by (simp_all add: heap_tick_def)

lemma heap_tick_irrelevant [simp]:
  "fs_disk (heap_tick n s) = fs_disk s" "shown (heap_tick n s) = shown s" "alloc_inv (heap_tick n s) = alloc_inv s"
  "open_ok (heap_tick n s) = open_ok s"
  by (simp_all only: heap_tick_def heap_cnt_irrelevant) (simp add: open_ok_def)

lemma dir_ok_tick [simp]: "dir_ok (heap_tick n s) ip ino = dir_ok s ip ino"
  by (simp add: dir_ok_def)

lemma copy_name_malloc:
  assumes "cstr nm name"
  shows "copy_name name s = (if heap_ok (cache s) (heap_cnt (cache s)) then Some (nm @ [0], heap_tick 1 s) else None)"
proof -
  have m: "fs_malloc s = (heap_ok (cache s) (heap_cnt (cache s)), heap_tick 1 s)" by (simp add: fs_malloc_def malloc_def heap_tick_def)
  let ?junk = "map (\<lambda>i. ucast (uninit s i)) [0..<length nm + 1] :: byte list"
  have "strlcpy ?junk 0 name (length nm + 1) = Some (length nm, overwrite 0 (take (length nm) nm @ [0]) ?junk)"
    using strlcpy_spec [OF assms, of "length nm + 1" 0 ?junk] by simp
  moreover have "overwrite 0 (nm @ [0]) ?junk = nm @ [0]" by (simp add: overwrite_def)
  ultimately show ?thesis using strlen_spec [OF assms] m by (simp add: copy_name_def)
qed

lemma copy_name_spec: "cstr nm name \<Longrightarrow> \<forall>n. heap_ok (cache s) n \<Longrightarrow> copy_name name s = Some (nm @ [0], heap_tick 1 s)"
  by (simp add: copy_name_malloc)

lemma last_loop_spec:
  "strtok_all fuel buf a slash save = Some (is, buf') \<Longrightarrow>
   \<exists>next buf1 save1. strtok_r buf a slash save = Some (next, buf1, save1)
     \<and> last_loop buf1 tok next save1 = Some (if is = [] then tok else Some (last is), buf')"
proof (induction fuel arbitrary: buf a save "is" tok)
  case (Suc fuel)
  from Suc.prems obtain t b sv where t: "strtok_r buf a slash save = Some (t, b, sv)" by (auto simp: bind_Some_iff)
  show ?case
  proof (cases t)
    case None
    then have "is = []" "buf' = b" using Suc.prems t by simp_all
    then show ?thesis using t None by (subst last_loop.simps) simp
  next
    case (Some i)
    then obtain js where js: "strtok_all fuel b None slash sv = Some (js, buf')" "is = i # js"
      using Suc.prems t by (auto simp: bind_Some_iff)
    from Suc.IH [OF js(1), of "Some i"] obtain nx b1 sv1 where
      "strtok_r b None slash sv = Some (nx, b1, sv1)" "last_loop b1 (Some i) nx sv1 = Some (if js = [] then Some i else Some (last js), buf')" by blast
    then have "last_loop b tok (Some i) sv = Some (Some (last is), buf')" using js(2) by (subst last_loop.simps) simp
    then show ?thesis using t Some js(2) by simp
  qed
qed simp

definition components :: "byte list \<Rightarrow> byte list list" where
  "components nm = tokens {47} nm"

definition last_component :: "byte list \<Rightarrow> byte list" where
  "last_component nm = (if components nm = [] then [] else last (components nm))"

lemma parse_file_token:
  assumes nm: "cstr nm name"
  shows "\<exists>t. cstr (last_component nm) t \<and> parse_file name s = Option.bind (copy_name name s) (\<lambda>(b, s1). copy_name t s1)"
proof -
  have c: "cstr nm (drop 0 (nm @ [0]))" "cstr [47] slash" using nm by (auto simp: cstr_def slash_def)
  from strtok_all_spec [OF c, where a = "Some 0" and save = 0 and fuel = "Suc (length nm)"] obtain js buf' where
    a: "strtok_all (Suc (length nm)) (nm @ [0]) (Some 0) slash 0 = Some (js, buf')" "list_all2 (\<lambda>i t. cstr t (drop i buf')) js (components nm)"
    by (auto simp: components_def)
  from last_loop_spec [OF a(1), of None] obtain nx b sv where
    l: "strtok_r (nm @ [0]) (Some 0) slash 0 = Some (nx, b, sv)" "last_loop b None nx sv = Some (if js = [] then None else Some (last js), buf')" by blast
  let ?t = "case (if js = [] then None else Some (last js)) of None \<Rightarrow> [0] | Some i \<Rightarrow> drop i buf'"
  have "cstr (last_component nm) ?t"
  proof (cases "js = []")
    case True
    then show ?thesis using a(2) by (simp add: last_component_def cstr_def)
  next
    case False
    moreover have n: "components nm \<noteq> []" using False a(2) by auto
    moreover have "cstr (last (components nm)) (drop (last js) buf')"
    proof -
      have "length js = length (components nm)" using a(2) by (rule list_all2_lengthD)
      then show ?thesis using list_all2_nthD [OF a(2), of "length js - 1"] False n by (simp add: last_conv_nth)
    qed
    ultimately show ?thesis by (simp add: last_component_def)
  qed
  moreover have "parse_file name s = Option.bind (copy_name name s) (\<lambda>(b, s1). copy_name ?t s1)"
    using copy_name_malloc [OF nm, of s] l by (simp add: parse_file_def)
  ultimately show ?thesis by blast
qed

lemma parse_file_spec:
  assumes nm: "cstr nm name" and heap: "\<forall>n. heap_ok (cache s) n"
  shows "parse_file name s = Some (last_component nm @ [0], heap_tick 2 s)"
proof -
  from parse_file_token [OF nm] obtain t where t: "cstr (last_component nm) t" "parse_file name s = Option.bind (copy_name name s) (\<lambda>(b, s1). copy_name t s1)"
    by blast
  then show ?thesis using copy_name_spec [OF nm heap] copy_name_spec [OF t(1), of "heap_tick 1 s"] heap by (simp add: numeral_2_eq_2)
qed

lemma parse_file_result:
  assumes nm: "cstr nm name" and r: "parse_file name s = Some (out, s')"
  shows "out = last_component nm @ [0] \<and> cstr (last_component nm) out"
proof -
  from parse_file_token [OF nm] obtain t where t: "cstr (last_component nm) t" "parse_file name s = Option.bind (copy_name name s) (\<lambda>(b, s1). copy_name t s1)"
    by blast
  then have "out = last_component nm @ [0]" using r by (auto simp: copy_name_malloc [OF t(1)] copy_name_malloc [OF nm] split: if_splits)
  then show ?thesis using t(1) by (simp add: cstr_def)
qed

text \<open>A path of at most one component needs no steps through directories.\<close>

definition base_dir :: "nat option \<Rightarrow> byte list \<Rightarrow> fsys \<Rightarrow> (nat option \<times> fsys) option" where
  "base_dir current_dir nm s =
     (if nm \<noteq> [] \<and> hd nm = 47 then dir_open_root s else case current_dir of None \<Rightarrow> dir_open_root s | Some cp \<Rightarrow> dir_reopen cp s)"

lemma parse_dir_one:
  assumes nm: "cstr nm name" and one: "length (components nm) \<le> 1" and heap: "\<forall>n. heap_ok (cache (fs s)) n"
  shows "parse_dir current_dir name s = base_dir current_dir nm (s\<lparr>fs := heap_tick 1 (fs s)\<rparr>)"
proof -
  let ?s1 = "s\<lparr>fs := heap_tick 1 (fs s)\<rparr>" and ?t = "dropWhile (\<lambda>c. c \<in> {47}) nm"
  have c: "cstr nm (drop 0 (nm @ [0]))" "cstr [47] slash" using nm by (auto simp: cstr_def slash_def)
  have h: "hd (nm @ [0]) = 47 \<longleftrightarrow> nm \<noteq> [] \<and> hd nm = 47" by (cases nm) simp_all
  have b: "parse_dir current_dir name s = Option.bind (base_dir current_dir nm ?s1) (\<lambda>(dp, s2).
      Option.bind (strtok_r (nm @ [0]) (Some 0) slash 0) (\<lambda>(dir_name, buf1, save1). case dir_name of None \<Rightarrow> Some (dp, s2)
        | Some dn \<Rightarrow> Option.bind (strtok_r buf1 None slash save1) (\<lambda>(next_dir, buf2, save2). parse_loop buf2 dn next_dir save2 dp s2)))"
    unfolding parse_dir_def base_dir_def copy_name_spec [OF nm heap] by (simp add: Let_def h del: One_nat_def split del: if_split)
  have "Option.bind (strtok_r (nm @ [0]) (Some 0) slash 0) (\<lambda>(dir_name, buf1, save1). case dir_name of None \<Rightarrow> Some (dp, s2)
        | Some dn \<Rightarrow> Option.bind (strtok_r buf1 None slash save1) (\<lambda>(next_dir, buf2, save2). parse_loop buf2 dn next_dir save2 dp s2)) = Some (dp, s2)"
    for dp s2
  proof (cases "?t = []")
    case True
    then have "strtok_r (nm @ [0]) (Some 0) slash 0 = Some (None, nm @ [0], 0 + length nm)"
      by (intro strtok_r_spec(1) [OF c _ refl]) simp_all
    then show ?thesis by simp
  next
    case False
    then have "dropWhile (\<lambda>c. c \<in> set [47]) nm \<noteq> []" by simp
    from strtok_r_spec(2) [OF c, of 0 "Some 0", OF _ refl this] obtain i b e where
      r: "strtok_r (nm @ [0]) (Some 0) slash 0 = Some (Some i, b, e)" "cstr (after_token (set [47]) nm) (drop e b)" by auto
    have "components nm = takeWhile (\<lambda>c. c \<notin> {47}) ?t # tokens {47} (after_token {47} nm)"
      unfolding components_def by (rule tokens_after_token [OF refl False])
    then have "tokens {47} (after_token {47} nm) = []" using one by simp
    then have "dropWhile (\<lambda>c. c \<in> set [47]) (after_token (set [47]) nm) = []"
      by (subst (asm) tokens.simps) (simp add: Let_def split: if_splits)
    from strtok_r_spec(1) [OF r(2) c(2), where a = None and save = e, OF _ refl this] obtain e' where "strtok_r b None slash e = Some (None, b, e')" by auto
    then show ?thesis using r(1) by (simp add: parse_loop.simps)
  qed
  then show ?thesis unfolding b by (cases "base_dir current_dir nm ?s1") auto
qed

section \<open>Properties\<close>

text \<open>C34. The last component of a path. Whatever slashes it has, leading, trailing or repeated, \<^const>\<open>parse_file\<close> ends
  and returns the last component of the path, terminated, or the empty name if there is none.\<close>

theorem parse_file_correct:
  assumes "cstr nm name" and "\<forall>n. heap_ok (cache s) n"
  shows "\<exists>s'. parse_file name s = Some ((if tokens {47} nm = [] then [] else last (tokens {47} nm)) @ [0], s') \<and> inodes s' = inodes s \<and> fs_disk s' = fs_disk s"
  using parse_file_spec [OF assms] by (simp add: last_component_def components_def)

theorem parse_file_correct_witness:
  "\<exists>s'. parse_file [47, 97, 47, 47, 98, 47, 0] demo_dir_fs = Some ([98, 0], s')"
proof -
  have "tokens {47} [47, 97, 47, 47, 98, 47] = [[97], [98 :: byte]]" by (simp add: tokens.simps)
  moreover have "\<forall>n. heap_ok (cache demo_dir_fs) n" using demo_dir_disk(1) by (simp add: cache_inv_def cache_core_def)
  moreover have "cstr [47, 97, 47, 47, 98, 47] [47, 97, 47, 47, 98, 47, 0]" by (simp add: cstr_def)
  ultimately show ?thesis using parse_file_correct [of "[47, 97, 47, 47, 98, 47]" "[47, 97, 47, 47, 98, 47, 0]" demo_dir_fs] by auto
qed


definition demo_dir_fsys :: fsys where
  "demo_dir_fsys = \<lparr>fs = demo_dir_fs, handles = [9 \<mapsto> Open_Dir demo_dir], next_handle = 10\<rparr>"


end
