(* ===== verification/Vaddr.thy ===== *)
theory Vaddr
  imports Prelude
begin

text \<open>
  Virtual addresses, \<^verbatim>\<open>threads/vaddr.h\<close>, and page table entries, \<^verbatim>\<open>threads/pte.h\<close>, on 32-bit
  words. The lemmas give the arithmetic meaning of the bit operations and show that an entry made
  for a page yields the page and the flags it was made with.
\<close>

section \<open>Addresses\<close>

definition PGBITS :: nat where "PGBITS = 12"

definition PGSIZE :: nat where "PGSIZE = 4096"

definition PGMASK :: u32 where "PGMASK = 4095"

definition PHYS_BASE :: u32 where "PHYS_BASE = 0xc0000000"

definition pg_ofs :: "u32 \<Rightarrow> u32" where
  "pg_ofs va = va AND PGMASK"

definition pg_no :: "u32 \<Rightarrow> u32" where
  "pg_no va = drop_bit PGBITS va"

definition pg_round_up :: "u32 \<Rightarrow> u32" where
  "pg_round_up va = (va + 4096 - 1) AND NOT PGMASK"

definition pg_round_down :: "u32 \<Rightarrow> u32" where
  "pg_round_down va = va AND NOT PGMASK"

definition is_user_vaddr :: "u32 \<Rightarrow> bool" where
  "is_user_vaddr vaddr \<longleftrightarrow> vaddr < PHYS_BASE"

definition is_kernel_vaddr :: "u32 \<Rightarrow> bool" where
  "is_kernel_vaddr vaddr \<longleftrightarrow> vaddr \<ge> PHYS_BASE"

definition ptov :: "u32 \<Rightarrow> u32 option" where
  "ptov paddr = do { kassert (paddr < PHYS_BASE); Some (paddr + PHYS_BASE) }"

definition vtop :: "u32 \<Rightarrow> u32 option" where
  "vtop vaddr = do { kassert (is_kernel_vaddr vaddr); Some (vaddr - PHYS_BASE) }"

section \<open>Page table entries\<close>

definition PTSHIFT :: nat where "PTSHIFT = PGBITS"

definition PTMASK :: u32 where "PTMASK = 0x3ff000"

definition PDSHIFT :: nat where "PDSHIFT = 22"

definition pt_no :: "u32 \<Rightarrow> u32" where
  "pt_no va = drop_bit PTSHIFT (va AND PTMASK)"

definition pd_no :: "u32 \<Rightarrow> u32" where
  "pd_no va = drop_bit PDSHIFT va"

definition PTE_FLAGS :: u32 where "PTE_FLAGS = 0x00000fff"
definition PTE_ADDR :: u32 where "PTE_ADDR = 0xfffff000"
definition PTE_P :: u32 where "PTE_P = 0x1"
definition PTE_W :: u32 where "PTE_W = 0x2"
definition PTE_U :: u32 where "PTE_U = 0x4"
definition PTE_A :: u32 where "PTE_A = 0x20"
definition PTE_D :: u32 where "PTE_D = 0x40"

definition pde_create :: "u32 \<Rightarrow> u32 option" where
  "pde_create pt = do {
     kassert (pg_ofs pt = 0);
     p \<leftarrow> vtop pt;
     Some (p OR PTE_U OR PTE_P OR PTE_W) }"

definition pde_get_pt :: "u32 \<Rightarrow> u32 option" where
  "pde_get_pt pde = do { kassert (pde AND PTE_P \<noteq> 0); ptov (pde AND PTE_ADDR) }"

definition pte_create_kernel :: "u32 \<Rightarrow> bool \<Rightarrow> u32 option" where
  "pte_create_kernel page writable = do {
     kassert (pg_ofs page = 0);
     p \<leftarrow> vtop page;
     Some (p OR PTE_P OR (if writable then PTE_W else 0)) }"

definition pte_create_user :: "u32 \<Rightarrow> bool \<Rightarrow> u32 option" where
  "pte_create_user page writable = do {
     pte \<leftarrow> pte_create_kernel page writable;
     Some (pte OR PTE_U) }"

definition pte_get_page :: "u32 \<Rightarrow> u32 option" where
  "pte_get_page pte = ptov (pte AND PTE_ADDR)"

section \<open>Arithmetic of addresses\<close>

lemma unat_u32: "unat (w :: u32) < 4294967296"
proof -
  have "unat w < 2 ^ LENGTH(32)" by (rule unsigned_less)
  then show ?thesis by simp
qed

lemma PGMASK_mask: "PGMASK = mask 12"
  by (simp add: PGMASK_def mask_eq_exp_minus_1)

lemma PTE_ADDR_mask: "PTE_ADDR = NOT (mask 12)"
  by (simp add: PTE_ADDR_def mask_eq_exp_minus_1)

lemma unat_pg_ofs: "unat (pg_ofs va) = unat va mod 4096"
  unfolding pg_ofs_def PGMASK_mask take_bit_eq_mask [symmetric] unsigned_take_bit_eq
  by (simp add: take_bit_eq_mod)

lemma unat_pg_no: "unat (pg_no va) = unat va div 4096"
  unfolding pg_no_def PGBITS_def unsigned_drop_bit_eq by (simp add: drop_bit_eq_div take_bit_eq_mod mod_less [OF unat_u32])

lemma and_not_mask: "va AND NOT (mask n) = va - (va AND mask n)" for va :: u32
proof -
  have "(va AND NOT (mask n)) + (va AND mask n) = (va AND NOT (mask n)) OR (va AND mask n)"
    by (rule disjunctive_add_eq_or) (simp add: bit_eq_iff bit_simps)
  also have "\<dots> = va" by (rule bit_word_eqI) (auto simp: bit_simps)
  finally show ?thesis by (simp add: algebra_simps)
qed

lemma unat_and_not_mask: "unat (va AND NOT PGMASK) = unat va div 4096 * 4096"
proof -
  have "unat (va AND mask 12) = unat va mod 4096"
    using unat_pg_ofs [of va] by (simp add: pg_ofs_def PGMASK_mask)
  then have "unat (va AND NOT PGMASK) = unat va - unat va mod 4096"
    unfolding PGMASK_mask and_not_mask by (subst unat_sub) (simp_all add: word_le_nat_alt)
  then show ?thesis by (simp add: minus_mod_eq_div_mult)
qed

lemma unat_pg_round_down: "unat (pg_round_down va) = unat va div 4096 * 4096"
  by (simp add: pg_round_down_def unat_and_not_mask)

lemma pg_round_down_ofs [simp]: "pg_ofs (pg_round_down va) = 0"
  by (simp add: word_unat_eq_iff unat_pg_ofs unat_pg_round_down)

lemma pg_round_down_id: "pg_ofs va = 0 \<Longrightarrow> pg_round_down va = va"
  by (simp add: word_unat_eq_iff unat_pg_ofs unat_pg_round_down) (metis mod_0_imp_dvd dvd_div_mult_self)

lemma pg_split: "va = pg_round_down va + pg_ofs va"
  unfolding pg_round_down_def pg_ofs_def PGMASK_mask and_not_mask by simp

lemma pg_round_down_user [simp]: "is_user_vaddr (pg_round_down va) = is_user_vaddr va"
proof -
  have "x div 4096 * 4096 < 786432 * 4096 \<longleftrightarrow> x < 786432 * 4096" for x :: nat
    unfolding mult_less_cancel2 by (simp add: div_less_iff_less_mult)
  from this [of "unat va"] have "unat va div 4096 * 4096 < 3221225472 \<longleftrightarrow> unat va < 3221225472" by simp
  then show ?thesis by (simp add: is_user_vaddr_def PHYS_BASE_def word_less_nat_alt unat_pg_round_down)
qed

lemma user_kernel: "is_kernel_vaddr va \<longleftrightarrow> \<not> is_user_vaddr va"
  by (auto simp: is_kernel_vaddr_def is_user_vaddr_def)

lemma unat_pd_no: "unat (pd_no va) = unat va div 4194304"
  unfolding pd_no_def PDSHIFT_def unsigned_drop_bit_eq by (simp add: drop_bit_eq_div take_bit_eq_mod mod_less [OF unat_u32])

lemma PTMASK_eq: "va AND PTMASK = push_bit 12 (take_bit 10 (drop_bit 12 va))" for va :: u32
proof -
  have "PTMASK = push_bit 12 (mask 10)" by (simp add: PTMASK_def mask_eq_exp_minus_1 push_bit_eq_mult)
  then show ?thesis by (auto simp: bit_eq_iff bit_simps)
qed

lemma pt_no_eq: "pt_no va = take_bit 10 (drop_bit 12 va)"
  unfolding pt_no_def PTSHIFT_def PGBITS_def PTMASK_eq by (rule bit_word_eqI) (auto simp: bit_simps)

lemma unat_pt_no: "unat (pt_no va) = unat va div 4096 mod 1024"
  unfolding pt_no_eq unsigned_take_bit_eq unsigned_drop_bit_eq
  by (simp add: drop_bit_eq_div take_bit_eq_mod mod_less [OF unat_u32])

lemma pd_no_less: "unat (pd_no va) < 1024" and pt_no_less: "unat (pt_no va) < 1024"
  using unat_u32 [of va] by (simp_all add: unat_pd_no unat_pt_no)

lemma pd_no_user: "is_user_vaddr va \<longleftrightarrow> unat (pd_no va) < 768"
  by (simp add: is_user_vaddr_def PHYS_BASE_def word_less_nat_alt unat_pd_no div_less_iff_less_mult)

text \<open>The page of an address is determined by the two indices.\<close>

lemma page_indices:
  "pd_no a = pd_no b \<and> pt_no a = pt_no b \<longleftrightarrow> pg_round_down a = pg_round_down b"
proof -
  have "x div 4194304 = x div 4096 div 1024" for x :: nat by (simp flip: div_mult2_eq)
  moreover have "x div 1024 = y div 1024 \<and> x mod 1024 = y mod 1024 \<longleftrightarrow> x = y" for x y :: nat
    by (metis div_mult_mod_eq)
  ultimately show ?thesis
    by (simp add: word_unat_eq_iff unat_pd_no unat_pt_no unat_pg_round_down)
qed

section \<open>Entries\<close>

lemma vtop_kernel: "is_kernel_vaddr p \<Longrightarrow> vtop p = Some (p - PHYS_BASE)"
  by (simp add: vtop_def)

lemma phys_less: "is_kernel_vaddr p \<Longrightarrow> p - PHYS_BASE < PHYS_BASE"
  using unat_u32 [of p]
  by (simp add: is_kernel_vaddr_def PHYS_BASE_def word_le_nat_alt word_less_nat_alt unat_sub)

lemma phys_aligned:
  assumes "pg_ofs p = 0" and "is_kernel_vaddr p"
  shows "(p - PHYS_BASE) AND PTE_ADDR = p - PHYS_BASE" "(p - PHYS_BASE) AND PTE_FLAGS = 0"
proof -
  have "unat (p - PHYS_BASE) = unat p - 3221225472" "3221225472 \<le> unat p"
    using assms(2) by (simp_all add: is_kernel_vaddr_def PHYS_BASE_def word_le_nat_alt unat_sub)
  moreover have "(4096 :: nat) dvd unat p" using assms(1) unat_pg_ofs [of p] by (simp add: mod_eq_0_iff_dvd)
  moreover have "(4096 :: nat) dvd 3221225472" by simp
  ultimately have "unat (p - PHYS_BASE) mod 4096 = 0" by (metis dvd_diff_nat mod_eq_0_iff_dvd)
  then have "pg_ofs (p - PHYS_BASE) = 0" by (simp add: word_unat_eq_iff unat_pg_ofs)
  then have m: "(p - PHYS_BASE) AND mask 12 = 0" by (simp add: pg_ofs_def PGMASK_mask)
  then show "(p - PHYS_BASE) AND PTE_ADDR = p - PHYS_BASE"
    unfolding PTE_ADDR_mask and_not_mask by simp
  show "(p - PHYS_BASE) AND PTE_FLAGS = 0" using m by (simp add: PTE_FLAGS_def mask_eq_exp_minus_1)
qed

definition flag_bits :: "u32 \<Rightarrow> bool" where
  "flag_bits f \<longleftrightarrow> f AND PTE_ADDR = 0"

lemma flag_bits [simp]:
  "flag_bits 0" "flag_bits PTE_P" "flag_bits PTE_W" "flag_bits PTE_U" "flag_bits PTE_A" "flag_bits PTE_D"
  "flag_bits (f OR g) = (flag_bits f \<and> flag_bits g)"
  by (simp_all add: flag_bits_def PTE_ADDR_def PTE_P_def PTE_W_def PTE_U_def PTE_A_def PTE_D_def
      bit.conj_disj_distrib2 or_eq_0_iff)

lemma flag_bits_addr:
  assumes "flag_bits f"
  shows "(e OR f) AND PTE_ADDR = e AND PTE_ADDR" "(e AND NOT f) AND PTE_ADDR = e AND PTE_ADDR"
proof -
  have f: "f AND PTE_ADDR = 0" using assms by (simp add: flag_bits_def)
  then show "(e OR f) AND PTE_ADDR = e AND PTE_ADDR" by (simp add: bit.conj_disj_distrib2)
  have "NOT f AND PTE_ADDR = PTE_ADDR"
  proof (rule bit_word_eqI)
    fix n assume "n < LENGTH(32)"
    from f have "\<not> bit (f AND PTE_ADDR) n" by simp
    then show "bit (NOT f AND PTE_ADDR) n = bit PTE_ADDR n" using \<open>n < LENGTH(32)\<close> by (auto simp: bit_simps)
  qed
  then show "(e AND NOT f) AND PTE_ADDR = e AND PTE_ADDR" by (simp add: and.assoc)
qed

definition pt_entry :: "u32 \<Rightarrow> u32 \<Rightarrow> u32" where
  "pt_entry p f = (p - PHYS_BASE) OR f"

text \<open>A page that the kernel can map: aligned, at a kernel virtual address.\<close>

definition kpage_ok :: "u32 \<Rightarrow> bool" where
  "kpage_ok p \<longleftrightarrow> pg_ofs p = 0 \<and> is_kernel_vaddr p"

lemma entry_addr: "kpage_ok p \<Longrightarrow> flag_bits f \<Longrightarrow> pt_entry p f AND PTE_ADDR = p - PHYS_BASE"
  by (simp add: pt_entry_def flag_bits_addr phys_aligned kpage_ok_def)

lemma entry_get_page: "kpage_ok p \<Longrightarrow> flag_bits f \<Longrightarrow> pte_get_page (pt_entry p f) = Some p"
  by (simp add: pte_get_page_def entry_addr ptov_def phys_less kpage_ok_def)

lemma entry_flag:
  assumes "kpage_ok p" and "g AND PTE_FLAGS = g"
  shows "pt_entry p f AND g = f AND g"
proof -
  have "(p - PHYS_BASE) AND g = ((p - PHYS_BASE) AND PTE_FLAGS) AND g"
    using assms(2) unfolding and.assoc by (simp add: and.commute [of PTE_FLAGS])
  also have "\<dots> = 0" using assms(1) by (simp add: phys_aligned kpage_ok_def)
  finally show ?thesis by (simp add: pt_entry_def bit.conj_disj_distrib2)
qed

lemma entry_flag_bits:
  assumes "kpage_ok p"
  shows "pt_entry p f AND PTE_P = f AND PTE_P" "pt_entry p f AND PTE_W = f AND PTE_W" "pt_entry p f AND PTE_U = f AND PTE_U"
    "pt_entry p f AND PTE_A = f AND PTE_A" "pt_entry p f AND PTE_D = f AND PTE_D"
  by (rule entry_flag [OF assms], simp add: PTE_P_def PTE_W_def PTE_U_def PTE_A_def PTE_D_def PTE_FLAGS_def)+

definition user_flags :: "bool \<Rightarrow> u32" where
  "user_flags writable = PTE_P OR (if writable then PTE_W else 0) OR PTE_U"

lemma user_flags [simp]: "flag_bits (user_flags w)" "user_flags w AND PTE_P = PTE_P" "user_flags w AND PTE_A = 0"
  "user_flags w AND PTE_D = 0" "user_flags w AND PTE_W = (if w then PTE_W else 0)" "user_flags w AND PTE_U = PTE_U"
  by (simp_all add: user_flags_def PTE_P_def PTE_W_def PTE_U_def PTE_A_def PTE_D_def flag_bits_def PTE_ADDR_def)

lemma PTE_P_nonzero: "PTE_P \<noteq> 0"
  by (simp add: PTE_P_def)

lemma pte_create_user_eq: "kpage_ok p \<Longrightarrow> pte_create_user p w = Some (pt_entry p (user_flags w))"
  by (simp add: pte_create_user_def pte_create_kernel_def vtop_kernel kpage_ok_def pt_entry_def user_flags_def or.assoc)

lemma pde_create_eq: "kpage_ok p \<Longrightarrow> pde_create p = Some (pt_entry p (user_flags True))"
  by (simp add: pde_create_def vtop_kernel kpage_ok_def pt_entry_def user_flags_def or.assoc or.commute or.left_commute)

lemma pde_get_pt_entry: "kpage_ok p \<Longrightarrow> pde_get_pt (pt_entry p (user_flags True)) = Some p"
  using entry_get_page [of p "user_flags True"]
  by (simp add: pde_get_pt_def pte_get_page_def entry_flag_bits) (simp add: PTE_P_def)

lemma entry_inject: "kpage_ok p \<Longrightarrow> kpage_ok q \<Longrightarrow> flag_bits f \<Longrightarrow> flag_bits g \<Longrightarrow> pt_entry p f = pt_entry q g \<Longrightarrow> p = q"
  by (metis entry_get_page option.inject)

lemma entry_nonzero: "kpage_ok p \<Longrightarrow> pt_entry p (user_flags w) \<noteq> 0"
  using entry_flag_bits(1) [of p "user_flags w"] PTE_P_nonzero by auto

end
