(* ===== verification/Swap.thy ===== *)
theory Swap
  imports Disk Bitmap Vaddr
begin

text \<open>
  The swap device, \<^verbatim>\<open>vm/swap.c\<close>: the device is divided into slots of one page, eight sectors
  each, and a bitmap records the slots in use. A slot is named by its first sector. The page
  that is written or read is the contents of a frame, a list of \<open>PGSIZE\<close> bytes. The arithmetic
  on sector numbers is that of 32-bit words, as in the code.
\<close>

section \<open>State\<close>

record swap_state =
  swap_device :: disk
  swap_table :: bitmap
  swap_lock :: bool

definition acquire_swap_lock :: "swap_state \<Rightarrow> swap_state option" where
  "acquire_swap_lock s = do { kassert (\<not> swap_lock s); Some (s\<lparr>swap_lock := True\<rparr>) }"

definition release_swap_lock :: "swap_state \<Rightarrow> swap_state option" where
  "release_swap_lock s = do { kassert (swap_lock s); Some (s\<lparr>swap_lock := False\<rparr>) }"

section \<open>Operations\<close>

text \<open>\<open>header_ok\<close> and \<open>storage\<close> are the results of the calls of \<open>malloc\<close> in \<open>bitmap_create\<close>.\<close>

definition swap_init :: "bool \<Rightarrow> u32 list option \<Rightarrow> disk list list \<Rightarrow> swap_state option" where
  "swap_init header_ok storage channels = do {
     d \<leftarrow> disk_get channels 1 1;
     dev \<leftarrow> d;
     t \<leftarrow> bitmap_create header_ok storage (unat (disk_size dev * 512) div PGSIZE);
     table \<leftarrow> t;
     table1 \<leftarrow> bitmap_set_all table False;
     Some \<lparr>swap_device = dev, swap_table = table1, swap_lock = False\<rparr> }"

text \<open>The loops over the sectors of a page: \<open>n\<close> sectors left, the next is \<open>i\<close>.\<close>

primrec swap_read_loop :: "nat \<Rightarrow> nat \<Rightarrow> disk_sector_t \<Rightarrow> byte list \<Rightarrow> disk \<Rightarrow> (byte list \<times> disk) option" where
  "swap_read_loop 0 i sector_num frame d = Some (frame, d)"
| "swap_read_loop (Suc n) i sector_num frame d = do {
     (bytes, d1) \<leftarrow> disk_read d (of_nat i + sector_num);
     swap_read_loop n (Suc i) sector_num
       (take (i * DISK_SECTOR_SIZE) frame @ bytes @ drop (i * DISK_SECTOR_SIZE + DISK_SECTOR_SIZE) frame) d1 }"

definition read_from_disk :: "byte list \<Rightarrow> disk_sector_t \<Rightarrow> swap_state \<Rightarrow> (byte list \<times> swap_state) option" where
  "read_from_disk frame sector_num s = do {
     (frame1, d) \<leftarrow> swap_read_loop (PGSIZE div DISK_SECTOR_SIZE) 0 sector_num frame (swap_device s);
     Some (frame1, s\<lparr>swap_device := d\<rparr>) }"

primrec swap_write_loop :: "nat \<Rightarrow> nat \<Rightarrow> disk_sector_t \<Rightarrow> byte list \<Rightarrow> disk \<Rightarrow> disk option" where
  "swap_write_loop 0 i sector_num frame d = Some d"
| "swap_write_loop (Suc n) i sector_num frame d = do {
     d1 \<leftarrow> disk_write d (of_nat i + sector_num) (drop (i * DISK_SECTOR_SIZE) frame);
     swap_write_loop n (Suc i) sector_num frame d1 }"

definition write_to_disk :: "byte list \<Rightarrow> disk_sector_t \<Rightarrow> swap_state \<Rightarrow> swap_state option" where
  "write_to_disk frame sector_num s = do {
     d \<leftarrow> swap_write_loop (PGSIZE div DISK_SECTOR_SIZE) 0 sector_num frame (swap_device s);
     Some (s\<lparr>swap_device := d\<rparr>) }"

definition get_empty_sector_num :: "swap_state \<Rightarrow> (disk_sector_t \<times> swap_state) option" where
  "get_empty_sector_num s = do {
     (bitmap_idx, b) \<leftarrow> bitmap_scan_and_flip (swap_table s) 0 1 False;
     kassert (bitmap_idx \<noteq> BITMAP_ERROR);
     Some (of_nat (usz (bitmap_idx * PGSIZE) div DISK_SECTOR_SIZE), s\<lparr>swap_table := b\<rparr>) }"

definition swap_in :: "byte list \<Rightarrow> disk_sector_t \<Rightarrow> swap_state \<Rightarrow> (byte list \<times> swap_state) option" where
  "swap_in frame sector_num s = do {
     s1 \<leftarrow> acquire_swap_lock s;
     let bitmap_idx = unat (sector_num * 512) div PGSIZE;
     success \<leftarrow> bitmap_test (swap_table s1) bitmap_idx;
     kassert success;
     b \<leftarrow> bitmap_flip (swap_table s1) bitmap_idx;
     (frame1, s2) \<leftarrow> read_from_disk frame sector_num (s1\<lparr>swap_table := b\<rparr>);
     s3 \<leftarrow> release_swap_lock s2;
     Some (frame1, s3) }"

definition swap_out :: "byte list \<Rightarrow> swap_state \<Rightarrow> (disk_sector_t \<times> swap_state) option" where
  "swap_out frame s = do {
     s1 \<leftarrow> acquire_swap_lock s;
     (sector_num, s2) \<leftarrow> get_empty_sector_num s1;
     s3 \<leftarrow> write_to_disk frame sector_num s2;
     s4 \<leftarrow> release_swap_lock s3;
     Some (sector_num, s4) }"

section \<open>Specification\<close>

definition slot_sector :: "nat \<Rightarrow> disk_sector_t" where
  "slot_sector i = of_nat (8 * i)"

definition slot_page :: "disk \<Rightarrow> nat \<Rightarrow> byte list" where
  "slot_page d i = concat (map (\<lambda>k. media d ! (8 * i + k)) [0..<8])"

definition slot_cnt :: "disk \<Rightarrow> nat" where
  "slot_cnt d = unat (capacity d) div 8"

definition swap_inv :: "swap_state \<Rightarrow> bool" where
  "swap_inv s \<longleftrightarrow> disk_wf (swap_device s) \<and> bitmap_wf (swap_table s) \<and> unat (capacity (swap_device s)) < 8388608
     \<and> bit_cnt (swap_table s) = slot_cnt (swap_device s) \<and> \<not> swap_lock s"

text \<open>The pages the device holds, by the sector that names the slot.\<close>

definition swap_view :: "swap_state \<Rightarrow> disk_sector_t \<Rightarrow> byte list option" where
  "swap_view s x = (let i = unat x div 8 in
     if x = slot_sector i \<and> i < bit_cnt (swap_table s) \<and> bit_at (swap_table s) i then Some (slot_page (swap_device s) i) else None)"

definition swap_full :: "swap_state \<Rightarrow> bool" where
  "swap_full s \<longleftrightarrow> (\<forall>i < bit_cnt (swap_table s). bit_at (swap_table s) i)"

section \<open>Lemmas\<close>

lemma slot_sector:
  assumes "i < 1048576"
  shows "unat (slot_sector i) = 8 * i" "k < 8 \<Longrightarrow> unat (of_nat k + slot_sector i) = 8 * i + k"
    "unat (slot_sector i * 512) div PGSIZE = i" "slot_sector i = of_nat (usz (i * PGSIZE) div DISK_SECTOR_SIZE)"
proof -
  show u: "unat (slot_sector i) = 8 * i"
    using assms by (simp add: slot_sector_def unsigned_of_nat take_bit_nat_eq_self del: of_nat_mult)
  show "unat (of_nat k + slot_sector i) = 8 * i + k" if "k < 8"
    using that assms by (simp add: unat_word_ariths unsigned_of_nat take_bit_nat_eq_self u)
  show "unat (slot_sector i * 512) div PGSIZE = i"
  proof -
    have "unat (slot_sector i) * unat (512 :: u32) < 2 ^ LENGTH(32)" using assms by (simp add: u)
    then have "unat (slot_sector i * 512) = unat (slot_sector i) * unat (512 :: u32)" by (rule unat_mult_lem [THEN iffD1])
    also have "\<dots> = i * 4096" by (simp add: u)
    finally show ?thesis by (simp only: PGSIZE_def)
  qed
  have "usz (i * PGSIZE) = i * 4096" using assms by (intro trans [OF usz_id]) (simp_all add: PGSIZE_def)
  then show "slot_sector i = of_nat (usz (i * PGSIZE) div DISK_SECTOR_SIZE)"
    by (simp add: slot_sector_def DISK_SECTOR_SIZE_def)
qed

lemma slot_inj: "i < 1048576 \<Longrightarrow> j < 1048576 \<Longrightarrow> slot_sector i = slot_sector j \<longleftrightarrow> i = j"
proof
  assume i: "i < 1048576" and j: "j < 1048576" and "slot_sector i = slot_sector j"
  then have "unat (slot_sector i) = unat (slot_sector j)" by simp
  then show "i = j" by (simp add: slot_sector(1) [OF i] slot_sector(1) [OF j])
qed simp

lemma swap_index: "swap_inv s \<Longrightarrow> i < bit_cnt (swap_table s) \<Longrightarrow> i < 1048576"
  by (auto simp: swap_inv_def slot_cnt_def)

lemma slot_valid:
  assumes "unat (capacity d) < 8388608" and "i < slot_cnt d" and "k < 8"
  shows "valid_sector d (of_nat k + slot_sector i)" "8 * i + k < unat (capacity d)"
proof -
  have i: "i < 1048576" using assms by (simp add: slot_cnt_def)
  show c: "8 * i + k < unat (capacity d)" using assms(2,3) by (simp add: slot_cnt_def)
  then show "valid_sector d (of_nat k + slot_sector i)"
    using slot_sector(2) [OF i assms(3)] assms(1) by (simp add: valid_sector_def word_less_nat_alt)
qed

lemma swap_view_slot:
  assumes "swap_inv s" and "i < 1048576"
  shows "swap_view s (slot_sector i) = (if i < bit_cnt (swap_table s) \<and> bit_at (swap_table s) i then Some (slot_page (swap_device s) i) else None)"
  using slot_sector(1) [OF assms(2)] by (simp add: swap_view_def Let_def)

lemma swap_view_Some:
  assumes "swap_view s x = Some p"
  obtains i where "x = slot_sector i" "i < bit_cnt (swap_table s)" "bit_at (swap_table s) i" "p = slot_page (swap_device s) i"
  using assms by (auto simp: swap_view_def Let_def split: if_splits)

lemma swap_read_loop_spec:
  assumes "disk_wf d" and "unat (capacity d) < 8388608" and "i < slot_cnt d" and "length frame = PGSIZE" and "k + n = 8"
  shows "\<exists>c. swap_read_loop n k (slot_sector i) frame d
     = Some (take (k * 512) frame @ concat (map (\<lambda>j. media d ! (8 * i + j)) [k..<8]), d\<lparr>read_cnt := c\<rparr>)"
  using assms
proof (induction n arbitrary: k frame d)
  case 0
  then have "d\<lparr>read_cnt := read_cnt d\<rparr> = d" "take (k * 512) frame = frame" by (simp_all add: PGSIZE_def)
  with 0 show ?case by (intro exI [of _ "read_cnt d"]) simp
next
  case (Suc n)
  have k: "k < 8" using Suc.prems by simp
  note v = slot_valid [OF Suc.prems(2,3) k]
  have i: "i < 1048576" using Suc.prems by (simp add: slot_cnt_def)
  define x where "x = media d ! (8 * i + k)"
  have x: "sector_at d (of_nat k + slot_sector i) = x" by (simp add: sector_at_def x_def slot_sector(2) [OF i k])
  have xl: "length x = 512" using sector_at_length [OF Suc.prems(1) v(1)] by (simp add: x DISK_SECTOR_SIZE_def)
  define fr where "fr = take (k * 512) frame @ x @ drop (k * 512 + 512) frame"
  have fr: "length fr = PGSIZE" "take (Suc k * 512) fr = take (k * 512) frame @ x"
    using Suc.prems(4) k xl by (simp_all add: fr_def PGSIZE_def)
  from Suc.IH [of "d\<lparr>read_cnt := Suc (read_cnt d)\<rparr>" fr "Suc k"] Suc.prems fr(1) obtain c where
    "swap_read_loop n (Suc k) (slot_sector i) fr (d\<lparr>read_cnt := Suc (read_cnt d)\<rparr>)
       = Some (take (Suc k * 512) fr @ concat (map (\<lambda>j. media d ! (8 * i + j)) [Suc k..<8]), d\<lparr>read_cnt := c\<rparr>)"
    by (auto simp: slot_cnt_def)
  moreover have "[k..<8] = k # [Suc k..<8]" using k by (simp add: upt_rec)
  ultimately show ?case
    using disk_read_spec [OF Suc.prems(1) v(1)] fr(2) x
    by (intro exI [of _ c]) (simp add: fr_def DISK_SECTOR_SIZE_def x_def)
qed

lemma swap_write_loop_spec:
  assumes "disk_wf d" and "unat (capacity d) < 8388608" and "i < slot_cnt d" and "length frame = PGSIZE" and "k + n = 8"
  shows "\<exists>d'. swap_write_loop n k (slot_sector i) frame d = Some d' \<and> disk_wf d' \<and> capacity d' = capacity d
     \<and> (\<forall>m. media d' ! m = (if 8 * i + k \<le> m \<and> m < 8 * i + 8 then take 512 (drop ((m - 8 * i) * 512) frame) else media d ! m))"
  using assms
proof (induction n arbitrary: k d)
  case (Suc n)
  have k: "k < 8" using Suc.prems by simp
  note v = slot_valid [OF Suc.prems(2,3) k]
  have i: "i < 1048576" using Suc.prems by (simp add: slot_cnt_def)
  define b where "b = take 512 (drop (k * 512) frame)"
  have b: "length b = DISK_SECTOR_SIZE" using Suc.prems(4) k by (simp add: b_def PGSIZE_def DISK_SECTOR_SIZE_def)
  define d1 where "d1 = d\<lparr>media := (media d)[8 * i + k := b], write_cnt := Suc (write_cnt d)\<rparr>"
  obtain r where r: "select_sector d (of_nat k + slot_sector i) = Some r" "ata_lba r = 8 * i + k"
    using select_sector_spec [OF v(1)] by (auto simp: slot_sector(2) [OF i k])
  have len: "length (media d) = unat (capacity d)" using Suc.prems(1) by (simp add: disk_wf_def)
  have w: "disk_write d (of_nat k + slot_sector i) (drop (k * DISK_SECTOR_SIZE) frame) = Some d1"
    using r v(2) Suc.prems(1,4) k len
    by (simp add: kassert_bind disk_write_def d1_def b_def PGSIZE_def DISK_SECTOR_SIZE_def disk_wf_def wait_while_busy_answers)
  have d1: "disk_wf d1" "capacity d1 = capacity d" using disk_wf_media [OF Suc.prems(1) b] by (simp_all add: d1_def)
  have m1: "media d1 ! m = (if m = 8 * i + k then b else media d ! m)" for m
    using v(2) len by (simp add: d1_def nth_list_update)
  from Suc.IH [OF d1(1), of "Suc k"] d1(2) Suc.prems obtain d' where
    d': "swap_write_loop n (Suc k) (slot_sector i) frame d1 = Some d'" "disk_wf d'" "capacity d' = capacity d"
    "\<forall>m. media d' ! m = (if 8 * i + Suc k \<le> m \<and> m < 8 * i + 8 then take 512 (drop ((m - 8 * i) * 512) frame) else media d1 ! m)"
    by (auto simp: slot_cnt_def)
  have "media d' ! m = (if 8 * i + k \<le> m \<and> m < 8 * i + 8 then take 512 (drop ((m - 8 * i) * 512) frame) else media d ! m)" for m
    using spec [OF d'(4), of m] m1 [of m] k by (auto simp: b_def)
  with d' w show ?case by auto
qed auto

lemma pages_of_slots:
  assumes "length p = PGSIZE" and "\<And>k. k < 8 \<Longrightarrow> media d ! (8 * i + k) = take 512 (drop (k * 512) p)"
  shows "slot_page d i = p"
proof -
  have "concat (map (\<lambda>k. take 512 (drop (k * 512) p)) [0..<n]) = take (n * 512) p" for n
    by (induction n) (simp_all add: take_add [symmetric] add.commute)
  from this [of 8] have "concat (map (\<lambda>k. take 512 (drop (k * 512) p)) [0..<8]) = p" using assms(1) by (simp add: PGSIZE_def)
  moreover have m: "map (\<lambda>k. media d ! (8 * i + k)) [0..<8] = map (\<lambda>k. take 512 (drop (k * 512) p)) [0..<8]"
    by (rule map_cong) (use assms(2) in auto)
  ultimately show ?thesis unfolding slot_page_def m by blast
qed

lemma swap_in_spec:
  assumes inv: "swap_inv s" and x: "swap_view s x = Some p" and len: "length frame = PGSIZE"
  shows "\<exists>s'. swap_in frame x s = Some (p, s') \<and> swap_inv s' \<and> swap_view s' = (swap_view s)(x := None)"
proof -
  obtain i where i: "x = slot_sector i" "i < bit_cnt (swap_table s)" "bit_at (swap_table s) i" "p = slot_page (swap_device s) i"
    using swap_view_Some [OF x] by blast
  have s: "disk_wf (swap_device s)" "unat (capacity (swap_device s)) < 8388608" "i < slot_cnt (swap_device s)"
    "bitmap_wf (swap_table s)" "\<not> swap_lock s" "bit_cnt (swap_table s) = slot_cnt (swap_device s)"
    using inv i(2) by (auto simp: swap_inv_def)
  have small: "i < 1048576" by (rule swap_index [OF inv i(2)])
  have "elem_idx i < length (bits (swap_table s))" by (rule elem_idx_less [OF s(4) i(2)])
  then obtain b where b: "bitmap_flip (swap_table s) i = Some b" by (simp add: bitmap_flip_def Let_def)
  have bw: "bitmap_wf b" using bitmap_flip_bit(2,3) [OF b] s(4) by (simp add: bitmap_wf_def)
  from swap_read_loop_spec [OF s(1-3) len, of 0 8] obtain c where
    c: "swap_read_loop 8 0 (slot_sector i) frame (swap_device s) = Some (p, (swap_device s)\<lparr>read_cnt := c\<rparr>)"
    by (auto simp: i(4) slot_page_def)
  define s' where "s' = s\<lparr>swap_table := b, swap_device := (swap_device s)\<lparr>read_cnt := c\<rparr>\<rparr>"
  have eight: "PGSIZE div DISK_SECTOR_SIZE = 8" by (simp add: PGSIZE_def DISK_SECTOR_SIZE_def)
  have "swap_in frame x s = Some (p, s')"
    using s(5) b c bitmap_test_spec [OF s(4) i(2)] i(3)
    by (simp add: swap_in_def acquire_swap_lock_def release_swap_lock_def read_from_disk_def i(1) slot_sector(3) [OF small]
        eight s'_def)
  moreover have "swap_inv s'" using inv bw bitmap_flip_bit(2) [OF b] by (simp add: swap_inv_def s'_def slot_cnt_def)
  moreover have "swap_view s' y = ((swap_view s)(x := None)) y" for y
  proof (cases "y = x")
    case True
    then show ?thesis
      using bitmap_flip_bit(1) [OF b, of i] i(3) slot_sector(1) [OF small]
      by (simp add: swap_view_def s'_def i(1) Let_def)
  next
    case False
    then have "y = slot_sector (unat y div 8) \<Longrightarrow> unat y div 8 \<noteq> i" using i(1) by auto
    then show ?thesis
      using False bitmap_flip_bit(1) [OF b, of "unat y div 8"] bitmap_flip_bit(2) [OF b]
      by (auto simp: swap_view_def s'_def Let_def slot_page_def)
  qed
  ultimately show ?thesis by blast
qed

lemma swap_out_spec:
  assumes inv: "swap_inv s" and len: "length p = PGSIZE"
  shows "if swap_full s then swap_out p s = None
    else \<exists>x s'. swap_out p s = Some (x, s') \<and> swap_view s x = None \<and> swap_inv s' \<and> swap_view s' = (swap_view s)(x \<mapsto> p)"
proof -
  have s: "disk_wf (swap_device s)" "unat (capacity (swap_device s)) < 8388608" "bitmap_wf (swap_table s)" "\<not> swap_lock s"
    "bit_cnt (swap_table s) = slot_cnt (swap_device s)"
    using inv by (auto simp: swap_inv_def)
  have eight: "PGSIZE div DISK_SECTOR_SIZE = 8" by (simp add: PGSIZE_def DISK_SECTOR_SIZE_def)
  show ?thesis
  proof (rule bitmap_scan_and_flip_spec [OF s(3) le0, of 1 False])
    assume n: "bitmap_scan_and_flip (swap_table s) 0 1 False = Some (BITMAP_ERROR, swap_table s)"
      "no_run (swap_table s) 1 False 0 (bit_cnt (swap_table s))"
    then have "swap_full s" by (fastforce simp: swap_full_def no_run_def bit_run_def Suc_le_eq less_Suc_eq)
    moreover have "swap_out p s = None"
      using n(1) s(4) by (simp add: swap_out_def get_empty_sector_num_def acquire_swap_lock_def)
    ultimately show ?thesis by simp
  next
    fix i b assume f: "bitmap_scan_and_flip (swap_table s) 0 1 False = Some (i, b)" "i \<noteq> BITMAP_ERROR"
      "first_run (swap_table s) 1 False 0 (bit_cnt (swap_table s)) i" "bitmap_wf b" "bit_cnt b = bit_cnt (swap_table s)"
      "\<forall>j. bit_at b j = (if i \<le> j \<and> j < i + 1 then \<not> False else bit_at (swap_table s) j)"
    have i: "i < bit_cnt (swap_table s)" "\<not> bit_at (swap_table s) i" using f(3) by (auto simp: first_run_def bit_run_def)
    have nf: "\<not> swap_full s" using i by (auto simp: swap_full_def)
    have small: "i < 1048576" by (rule swap_index [OF inv i(1)])
    from swap_write_loop_spec [OF s(1,2) _ len, of i 0 8] i(1) s(5) obtain d where
      d: "swap_write_loop 8 0 (slot_sector i) p (swap_device s) = Some d" "disk_wf d" "capacity d = capacity (swap_device s)"
      "\<forall>m. media d ! m = (if 8 * i \<le> m \<and> m < 8 * i + 8 then take 512 (drop ((m - 8 * i) * 512) p) else media (swap_device s) ! m)"
      by auto
    define s' where "s' = s\<lparr>swap_table := b, swap_device := d\<rparr>"
    have "swap_out p s = Some (slot_sector i, s')"
      using f(1,2) d(1) s(4)
      by (simp add: swap_out_def get_empty_sector_num_def acquire_swap_lock_def release_swap_lock_def write_to_disk_def
          slot_sector(4) [OF small, symmetric] eight s'_def)
    moreover have "swap_view s (slot_sector i) = None" using swap_view_slot [OF inv small] i by simp
    moreover have "swap_inv s'" using inv f(4,5) d(2,3) by (simp add: swap_inv_def s'_def slot_cnt_def)
    moreover have "swap_view s' y = ((swap_view s)(slot_sector i \<mapsto> p)) y" for y
    proof (cases "y = slot_sector i")
      case True
      have "slot_page d i = p" using d(4) by (intro pages_of_slots [OF len]) simp
      then show ?thesis using True slot_sector(1) [OF small] f(5,6) i(1) by (simp add: swap_view_def s'_def Let_def)
    next
      case False
      define j where "j = unat y div 8"
      have "slot_page d j = slot_page (swap_device s) j" if "j \<noteq> i"
        using that d(4) by (auto simp: slot_page_def intro!: arg_cong [of _ _ concat])
      moreover have "y = slot_sector j \<Longrightarrow> j \<noteq> i" using False by auto
      ultimately show ?thesis using False f(5,6) by (auto simp: swap_view_def s'_def Let_def j_def [symmetric])
    qed
    ultimately show ?thesis using nf by auto
  qed
qed

section \<open>A store of pages\<close>

text \<open>What the virtual memory system relies on: a page that was put in the store is there, unchanged,
  until it is taken out; the store picks a free name for it.\<close>

fun store_run :: "('p \<Rightarrow> 's \<Rightarrow> ('k \<times> 's) option) \<Rightarrow> ('k \<Rightarrow> 's \<Rightarrow> ('p \<times> 's) option) \<Rightarrow> ('p + 'k) list \<Rightarrow> 's \<Rightarrow> 's option" where
  "store_run out take_out [] s = Some s"
| "store_run out take_out (Inl p # ops) s = do { (x, s1) \<leftarrow> out p s; store_run out take_out ops s1 }"
| "store_run out take_out (Inr x # ops) s = do { (p, s1) \<leftarrow> take_out x s; store_run out take_out ops s1 }"

locale page_store =
  fixes inv :: "'s \<Rightarrow> bool"
    and page_ok :: "'p \<Rightarrow> bool"
    and name_ok :: "'k \<Rightarrow> bool"
    and view :: "'s \<Rightarrow> 'k \<Rightarrow> 'p option"
    and out :: "'p \<Rightarrow> 's \<Rightarrow> ('k \<times> 's) option"
    and take_out :: "'k \<Rightarrow> 's \<Rightarrow> ('p \<times> 's) option"
  assumes out_fresh: "inv s \<Longrightarrow> page_ok p \<Longrightarrow> out p s = Some (x, s') \<Longrightarrow> name_ok x \<and> view s x = None \<and> inv s' \<and> view s' = (view s)(x \<mapsto> p)"
    and take_there: "inv s \<Longrightarrow> view s x = Some p \<Longrightarrow> \<exists>s'. take_out x s = Some (p, s') \<and> inv s' \<and> view s' = (view s)(x := None)"
    and take_missing: "inv s \<Longrightarrow> name_ok x \<Longrightarrow> view s x = None \<Longrightarrow> take_out x s = None"
begin

lemma run_keeps:
  assumes "store_run out take_out ops s = Some s'" and "inv s" and "view s x = Some p"
    and "\<forall>q. Inl q \<in> set ops \<longrightarrow> page_ok q" and "\<forall>y. Inr y \<in> set ops \<longrightarrow> name_ok y \<and> y \<noteq> x"
  shows "inv s' \<and> view s' x = Some p"
  using assms
proof (induction ops arbitrary: s)
  case (Cons op ops)
  show ?case
  proof (cases op)
    case (Inl q)
    with Cons.prems(1) obtain y s1 where o: "out q s = Some (y, s1)" "store_run out take_out ops s1 = Some s'"
      by (auto simp: bind_Some_iff)
    have "page_ok q" using Cons.prems(4) Inl by auto
    from out_fresh [OF Cons.prems(2) this o(1)] have "inv s1" "view s1 x = Some p" using Cons.prems(3) by auto
    from Cons.IH [OF o(2) this] Cons.prems(4,5) show ?thesis by auto
  next
    case (Inr y)
    have y: "name_ok y" "y \<noteq> x" using Cons.prems(5) Inr by auto
    from Cons.prems(1) Inr obtain q s1 where o: "take_out y s = Some (q, s1)" "store_run out take_out ops s1 = Some s'"
      by (auto simp: bind_Some_iff)
    then obtain r where "view s y = Some r" using take_missing [OF Cons.prems(2) y(1)] by (cases "view s y") auto
    from take_there [OF Cons.prems(2) this] o(1) have "inv s1" "view s1 = (view s)(y := None)" by auto
    then have "inv s1" "view s1 x = Some p" using y(2) Cons.prems(3) by auto
    from Cons.IH [OF o(2) this] Cons.prems(4,5) show ?thesis by auto
  qed
qed simp

lemma out_in:
  assumes "inv s" and "page_ok p" and "out p s = Some (x, s1)" and "store_run out take_out ops s1 = Some s2"
    and "\<forall>q. Inl q \<in> set ops \<longrightarrow> page_ok q" and "\<forall>y. Inr y \<in> set ops \<longrightarrow> name_ok y \<and> y \<noteq> x"
  shows "\<exists>s3. take_out x s2 = Some (p, s3) \<and> inv s3 \<and> view s3 = (view s2)(x := None)"
proof -
  from out_fresh [OF assms(1-3)] have "inv s1" "view s1 x = Some p" by auto
  from run_keeps [OF assms(4) this assms(5,6)] show ?thesis using take_there by blast
qed

end

definition slot_name :: "disk_sector_t \<Rightarrow> bool" where
  "slot_name x \<longleftrightarrow> unat x mod 8 = 0 \<and> unat x < 8388608"

definition swap_fetch :: "disk_sector_t \<Rightarrow> swap_state \<Rightarrow> (byte list \<times> swap_state) option" where
  "swap_fetch x s = swap_in (replicate PGSIZE 0) x s"

lemma slot_name_sector: "slot_name x \<longleftrightarrow> (\<exists>i < 1048576. x = slot_sector i)"
proof
  assume x: "slot_name x"
  then have i: "unat x div 8 < 1048576" by (simp add: slot_name_def div_less_iff_less_mult)
  moreover have "x = slot_sector (unat x div 8)"
    using x mult_div_mod_eq [of 8 "unat x"]
    by (intro word_unat_eq_iff [THEN iffD2]) (simp add: slot_sector(1) [OF i] slot_name_def)
  ultimately show "\<exists>i < 1048576. x = slot_sector i" by blast
next
  assume "\<exists>i < 1048576. x = slot_sector i"
  then show "slot_name x" using slot_sector(1) by (auto simp: slot_name_def)
qed

interpretation swapdev: page_store swap_inv "\<lambda>p. length p = PGSIZE" slot_name swap_view swap_out swap_fetch
proof (unfold_locales, goal_cases)
  case (1 s p x s')
  then have nf: "\<not> swap_full s" using swap_out_spec [OF 1(1,2)] by auto
  with swap_out_spec [OF 1(1,2)] 1(3) have *: "swap_view s x = None" "swap_inv s'" "swap_view s' = (swap_view s)(x \<mapsto> p)" by auto
  then have "swap_view s' x = Some p" by simp
  from swap_view_Some [OF this] obtain i where "x = slot_sector i" "i < bit_cnt (swap_table s')" by blast
  then have "slot_name x" using swap_index [OF *(2)] slot_name_sector by blast
  with * show ?case by blast
next
  case (2 s x p)
  then show ?case using swap_in_spec [of s x p "replicate PGSIZE 0"] by (simp add: swap_fetch_def)
next
  case (3 s x)
  from 3(2) slot_name_sector obtain i where i: "i < 1048576" "x = slot_sector i" by blast
  with 3 have "\<not> (i < bit_cnt (swap_table s) \<and> bit_at (swap_table s) i)"
    using swap_view_slot [OF 3(1) i(1)] by (auto split: if_splits)
  moreover have "bitmap_test (swap_table s) i = None" if "\<not> i < bit_cnt (swap_table s)" using that by (simp add: bitmap_test_def)
  moreover have "bitmap_test (swap_table s) i = Some (bit_at (swap_table s) i)" if "i < bit_cnt (swap_table s)"
    using bitmap_test_spec 3(1) that by (simp add: swap_inv_def)
  ultimately show ?case
    using slot_sector(3) [OF i(1)] 3(1)
    by (cases "i < bit_cnt (swap_table s)") (simp_all add: swap_fetch_def swap_in_def acquire_swap_lock_def i(2) swap_inv_def)
qed

lemma swap_init_spec:
  assumes "disk_wf d" and "is_ata d" and "channels ! 1 ! 1 = d" and "unat (capacity d) < 8388608" and "length ws = elem_cnt (slot_cnt d)"
  shows "\<exists>s. swap_init True (Some ws) channels = Some s \<and> swap_inv s \<and> swap_view s = (\<lambda>_. None)"
proof -
  have cap: "unat (capacity d) * unat (512 :: u32) < 2 ^ LENGTH(32)" using assms(4) by simp
  have "unat (disk_size d * 512) = unat (capacity d) * unat (512 :: u32)"
    unfolding disk_size_def by (rule unat_mult_lem [THEN iffD1, OF cap])
  also have "\<dots> = unat (capacity d) * 512" by simp
  finally have n: "unat (disk_size d * 512) div PGSIZE = slot_cnt d"
    using div_mult_mult2 [of 512 "unat (capacity d)" 8] by (simp add: PGSIZE_def slot_cnt_def)
  have "slot_cnt d < 1048576" using assms(4) by (simp add: slot_cnt_def)
  then have wf: "bitmap_wf \<lparr>bit_cnt = slot_cnt d, bits = ws\<rparr>" using assms(5) by (simp add: bitmap_wf_def)
  from bitmap_set_all_spec [OF this, of False] obtain b where b: "bitmap_set_all \<lparr>bit_cnt = slot_cnt d, bits = ws\<rparr> False = Some b"
    "bitmap_wf b" "bit_cnt b = slot_cnt d" by auto
  from bitmap_set_all_spec [OF b(2), of False] obtain b' where b': "bitmap_set_all b False = Some b'" "bitmap_wf b'"
    "bit_cnt b' = slot_cnt d" "bm_abs b' = replicate (slot_cnt d) False" using b(3) by auto
  have "\<not> bit_at b' i" if "i < slot_cnt d" for i
  proof -
    have "bm_abs b' ! i = bit_at b' i" using that b'(3) by (simp add: bm_abs_def)
    then show ?thesis using b'(4) that by simp
  qed
  then show ?thesis
    using assms(1-4) b b' n
    by (auto simp: swap_init_def disk_get_def Let_def bitmap_create_def swap_inv_def swap_view_def)
qed

section \<open>Properties\<close>

text \<open>C26. Swapping is lossless. The slot that \<^const>\<open>swap_out\<close> picks was free, and however many
  pages are swapped out and in afterwards, as long as this slot is not read back, \<^const>\<open>swap_in\<close> on it
  returns exactly the page that was written and frees the slot.\<close>

theorem swap_roundtrip:
  assumes "swap_inv s" and "length p = PGSIZE" and "swap_out p s = Some (x, s1)"
    and "store_run swap_out swap_fetch ops s1 = Some s2"
    and "\<forall>q. Inl q \<in> set ops \<longrightarrow> length q = PGSIZE" and "\<forall>y. Inr y \<in> set ops \<longrightarrow> slot_name y \<and> y \<noteq> x"
    and "length frame = PGSIZE"
  shows "swap_view s x = None \<and> (\<exists>s3. swap_in frame x s2 = Some (p, s3) \<and> swap_inv s3 \<and> swap_view s3 = (swap_view s2)(x := None))"
proof
  have o: "swap_view s x = None \<and> swap_inv s1 \<and> swap_view s1 = (swap_view s)(x \<mapsto> p)"
    using swapdev.out_fresh [OF assms(1-3)] by blast
  then show "swap_view s x = None" by blast
  have "swap_inv s2 \<and> swap_view s2 x = Some p"
    using swapdev.run_keeps [OF assms(4), of x p] o assms(5,6) by auto
  then show "\<exists>s3. swap_in frame x s2 = Some (p, s3) \<and> swap_inv s3 \<and> swap_view s3 = (swap_view s2)(x := None)"
    using swap_in_spec assms(7) by blast
qed

definition demo_swap_disk :: disk where
  "demo_swap_disk = \<lparr>dev_no = 1, is_ata = True, capacity = 16, read_cnt = 0, write_cnt = 0,
     media = replicate 16 (replicate 512 0), alt_status = (\<lambda>_ _. 0x08)\<rparr>"

definition demo_swap :: swap_state where
  "demo_swap = \<lparr>swap_device = demo_swap_disk, swap_table = \<lparr>bit_cnt = 2, bits = [0]\<rparr>, swap_lock = False\<rparr>"

lemma demo_swap_inv: "swap_inv demo_swap" "\<not> swap_full demo_swap"
proof -
  have "answers (\<lambda>_. 0x08)" unfolding answers_def by (rule exI [of _ 0]) (simp add: STA_BSY_def STA_DRQ_def)
  then show "swap_inv demo_swap"
    by (simp add: demo_swap_def demo_swap_disk_def swap_inv_def disk_wf_def DISK_SECTOR_SIZE_def slot_cnt_def bitmap_wf_def elem_cnt_eq)
  show "\<not> swap_full demo_swap" by (auto simp: demo_swap_def swap_full_def bit_at_def intro: exI [of _ 0])
qed

theorem swap_roundtrip_witness:
  "\<exists>x s1 s3. swap_out (replicate PGSIZE 7) demo_swap = Some (x, s1) \<and> swap_in (replicate PGSIZE 0) x s1 = Some (replicate PGSIZE 7, s3)"
proof -
  obtain x s1 where o: "swap_out (replicate PGSIZE 7) demo_swap = Some (x, s1)"
    using swap_out_spec [OF demo_swap_inv(1), of "replicate PGSIZE 7"] demo_swap_inv(2) by auto
  from swap_roundtrip [OF demo_swap_inv(1) _ o, of "[]" s1 "replicate PGSIZE 0"] o show ?thesis by auto
qed

end
