(* ===== verification/Sched.thy ===== *)
theory Sched
  imports Prelude
begin

text \<open>
  Threads, the scheduler and the timer, \<^verbatim>\<open>threads/thread.c\<close> and \<^verbatim>\<open>devices/timer.c\<close>. The state \<open>kernel\<close>
  holds the threads by address, the running thread, the two lists of threads that the scheduler
  keeps, and the counters of the timer. A thread that is in the map has its magic number intact.
  The operations run with interrupts off from their start to the end of \<open>schedule\<close>, as in the
  code, so each of them is one step: the state after it is the state in which the next thread
  runs. A failed assertion gives \<open>None\<close>.

  The scheduler invariant says where the threads are: one running thread, the ready list sorted
  by priority and holding the ready threads, the sleep list sorted by wake-up time and holding
  blocked threads. Every operation keeps it; the thread chosen is the first of the highest
  priority; and a timer tick wakes exactly the threads that are due.
\<close>

section \<open>State\<close>

datatype thread_status = THREAD_RUNNING | THREAD_READY | THREAD_BLOCKED | THREAD_DYING

record thread =
  tid :: int
  status :: thread_status
  priority :: int
  wakeup_time :: int
  th_parent :: "nat option"
  list_children :: "nat list"
  has_pagedir :: bool

record kernel =
  threads :: "nat \<Rightarrow> thread option"
  running :: nat
  ready_list :: "nat list"
  sleep_list :: "nat list"
  wakeup_call_time :: int
  idle_thread :: "nat option"
  initial_thread :: nat
  next_tid :: int
  thread_ticks :: nat
  idle_ticks :: nat
  kernel_ticks :: nat
  user_ticks :: nat
  yield_on_return :: bool
  ticks :: int

definition PRI_MIN :: int where "PRI_MIN = 0"

definition PRI_DEFAULT :: int where "PRI_DEFAULT = 31"

definition PRI_MAX :: int where "PRI_MAX = 63"

definition TIME_SLICE :: nat where "TIME_SLICE = 4"

definition INT64_MAX :: int where "INT64_MAX = 9223372036854775807"

text \<open>The fields of a thread by address, and updates of one thread.\<close>

definition prio :: "kernel \<Rightarrow> nat \<Rightarrow> int" where
  "prio k t = (case threads k t of Some th \<Rightarrow> priority th | None \<Rightarrow> 0)"

definition wake :: "kernel \<Rightarrow> nat \<Rightarrow> int" where
  "wake k t = (case threads k t of Some th \<Rightarrow> wakeup_time th | None \<Rightarrow> 0)"

definition stat :: "kernel \<Rightarrow> nat \<Rightarrow> thread_status option" where
  "stat k t = map_option status (threads k t)"

definition upd_thread :: "nat \<Rightarrow> (thread \<Rightarrow> thread) \<Rightarrow> kernel \<Rightarrow> kernel" where
  "upd_thread t f k = k\<lparr>threads := (threads k)(t := map_option f (threads k t))\<rparr>"

definition set_status :: "nat \<Rightarrow> thread_status \<Rightarrow> kernel \<Rightarrow> kernel" where
  "set_status t st k = upd_thread t (\<lambda>th. th\<lparr>status := st\<rparr>) k"

section \<open>Operations\<close>

text \<open>\<open>list_insert_ordered\<close>: before the first element that the new one is less than.\<close>

fun list_insert_ordered :: "('a \<Rightarrow> 'a \<Rightarrow> bool) \<Rightarrow> 'a \<Rightarrow> 'a list \<Rightarrow> 'a list" where
  "list_insert_ordered lt x [] = [x]"
| "list_insert_ordered lt x (y # ys) =
     (if lt x y then x # y # ys else y # list_insert_ordered lt x ys)"

definition compare_priority :: "kernel \<Rightarrow> nat \<Rightarrow> nat \<Rightarrow> bool" where
  "compare_priority k a b \<longleftrightarrow> prio k a > prio k b"

definition compare_wakeup_time :: "kernel \<Rightarrow> nat \<Rightarrow> nat \<Rightarrow> bool" where
  "compare_wakeup_time k a b \<longleftrightarrow> wake k a < wake k b"

definition thread_current :: "kernel \<Rightarrow> nat option" where
  "thread_current k = do {
     th \<leftarrow> threads k (running k);
     kassert (status th = THREAD_RUNNING);
     Some (running k) }"

definition next_thread_to_run :: "kernel \<Rightarrow> nat option \<times> kernel" where
  "next_thread_to_run k = (case ready_list k of
     [] \<Rightarrow> (idle_thread k, k) | t # l \<Rightarrow> (Some t, k\<lparr>ready_list := l\<rparr>))"

text \<open>The page of a dead thread goes back to the allocator.\<close>

definition destroy_thread :: "nat \<Rightarrow> kernel \<Rightarrow> kernel" where
  "destroy_thread p k = k\<lparr>threads := (threads k)(p := None)\<rparr>"

definition schedule_tail :: "nat option \<Rightarrow> kernel \<Rightarrow> kernel" where
  "schedule_tail prev k =
     (let k1 = (set_status (running k) THREAD_RUNNING k)\<lparr>thread_ticks := 0\<rparr> in
      case prev of
        None \<Rightarrow> k1
      | Some p \<Rightarrow>
          if stat k1 p = Some THREAD_DYING \<and> p \<noteq> initial_thread k1
          then destroy_thread p k1 else k1)"

definition schedule :: "kernel \<Rightarrow> kernel option" where
  "schedule k = do {
     let curr = running k;
     let (nxt, k1) = next_thread_to_run k;
     th \<leftarrow> threads k1 curr;
     kassert (status th \<noteq> THREAD_RUNNING);
     n \<leftarrow> nxt;
     kassert (threads k1 n \<noteq> None);
     Some (schedule_tail (if curr \<noteq> n then Some curr else None) (k1\<lparr>running := n\<rparr>)) }"

definition thread_block :: "kernel \<Rightarrow> kernel option" where
  "thread_block k = do {
     curr \<leftarrow> thread_current k;
     schedule (set_status curr THREAD_BLOCKED k) }"

definition thread_unblock :: "nat \<Rightarrow> kernel \<Rightarrow> kernel option" where
  "thread_unblock t k = do {
     th \<leftarrow> threads k t;
     kassert (status th = THREAD_BLOCKED);
     Some (set_status t THREAD_READY
       (k\<lparr>ready_list := list_insert_ordered (compare_priority k) t (ready_list k)\<rparr>)) }"

definition thread_yield :: "kernel \<Rightarrow> kernel option" where
  "thread_yield k = do {
     curr \<leftarrow> thread_current k;
     let k1 = (if Some curr \<noteq> idle_thread k
               then k\<lparr>ready_list := list_insert_ordered (compare_priority k) curr (ready_list k)\<rparr>
               else k);
     schedule (set_status curr THREAD_READY k1) }"

text \<open>The end of \<open>thread_exit\<close>, after the process has released what it holds.\<close>

definition thread_exit :: "kernel \<Rightarrow> kernel option" where
  "thread_exit k = do {
     curr \<leftarrow> thread_current k;
     schedule (set_status curr THREAD_DYING k) }"

definition allocate_tid :: "kernel \<Rightarrow> int \<times> kernel" where
  "allocate_tid k = (next_tid k, k\<lparr>next_tid := next_tid k + 1\<rparr>)"

definition init_thread :: "nat \<Rightarrow> int \<Rightarrow> kernel \<Rightarrow> thread option" where
  "init_thread t pri k = do {
     kassert (PRI_MIN \<le> pri \<and> pri \<le> PRI_MAX);
     Some \<lparr>tid = 0, status = THREAD_BLOCKED, priority = pri, wakeup_time = 0,
           th_parent = Some (running k), list_children = [], has_pagedir = False\<rparr> }"

text \<open>\<open>thread_create\<close>: \<open>page\<close> is the page that \<open>palloc_get_page\<close> returned. The initial stack frames and
  the working directory, which the scheduler does not use, are left out.\<close>

definition TID_ERROR :: int where "TID_ERROR = - 1"

definition thread_create :: "nat option \<Rightarrow> int \<Rightarrow> kernel \<Rightarrow> (int \<times> kernel) option" where
  "thread_create page pri k = (case page of
     None \<Rightarrow> Some (TID_ERROR, k)
   | Some t \<Rightarrow> do {
       th \<leftarrow> init_thread t pri k;
       let (i, k1) = allocate_tid k;
       let k2 = k1\<lparr>threads := (threads k1)(t := Some (th\<lparr>tid := i\<rparr>))\<rparr>;
       curr \<leftarrow> thread_current k2;
       let k3 = upd_thread curr (\<lambda>c. c\<lparr>list_children := list_children c @ [t]\<rparr>) k2;
       k4 \<leftarrow> thread_unblock t k3;
       Some (i, k4) })"

definition thread_set_priority :: "int \<Rightarrow> kernel \<Rightarrow> kernel option" where
  "thread_set_priority pri k = do {
     curr \<leftarrow> thread_current k;
     Some (upd_thread curr (\<lambda>c. c\<lparr>priority := pri\<rparr>) k) }"

definition thread_get_priority :: "kernel \<Rightarrow> int option" where
  "thread_get_priority k = do { curr \<leftarrow> thread_current k; Some (prio k curr) }"

section \<open>Sleeping and the timer\<close>

definition get_wakeup_call_time :: "kernel \<Rightarrow> int" where
  "get_wakeup_call_time k = wakeup_call_time k"

definition update_wakeup_call_time :: "int \<Rightarrow> kernel \<Rightarrow> kernel" where
  "update_wakeup_call_time w k = (if w < wakeup_call_time k then k\<lparr>wakeup_call_time := w\<rparr> else k)"

definition thread_set_wakeup_time :: "int \<Rightarrow> kernel \<Rightarrow> kernel option" where
  "thread_set_wakeup_time w k = do {
     curr \<leftarrow> thread_current k;
     Some (upd_thread curr (\<lambda>c. c\<lparr>wakeup_time := w\<rparr>) k) }"

definition thread_sleep :: "kernel \<Rightarrow> kernel option" where
  "thread_sleep k = do {
     curr \<leftarrow> thread_current k;
     thread_block (k\<lparr>sleep_list := list_insert_ordered (compare_wakeup_time k) curr (sleep_list k)\<rparr>) }"

text \<open>The loop of \<open>thread_wakeup\<close>, over the rest of the sleep list.\<close>

primrec wakeup_loop :: "nat list \<Rightarrow> int \<Rightarrow> kernel \<Rightarrow> kernel option" where
  "wakeup_loop [] now k = Some k"
| "wakeup_loop (t # l) now k =
     (if wake k t \<le> now
      then do {
        k1 \<leftarrow> thread_unblock t (k\<lparr>sleep_list := remove1 t (sleep_list k)\<rparr>);
        wakeup_loop l now k1 }
      else Some (update_wakeup_call_time (wake k t) k))"

definition thread_wakeup :: "int \<Rightarrow> kernel \<Rightarrow> kernel option" where
  "thread_wakeup now k = do {
     k1 \<leftarrow> wakeup_loop (sleep_list k) now k;
     Some (if length (sleep_list k1) = 0 then update_wakeup_call_time INT64_MAX k1 else k1) }"

definition thread_tick :: "kernel \<Rightarrow> kernel option" where
  "thread_tick k = do {
     t \<leftarrow> thread_current k;
     th \<leftarrow> threads k t;
     let k1 = (if Some t = idle_thread k then k\<lparr>idle_ticks := idle_ticks k + 1\<rparr>
               else if has_pagedir th then k\<lparr>user_ticks := user_ticks k + 1\<rparr>
               else k\<lparr>kernel_ticks := kernel_ticks k + 1\<rparr>);
     let k2 = k1\<lparr>thread_ticks := thread_ticks k1 + 1\<rparr>;
     Some (if thread_ticks k2 \<ge> TIME_SLICE then k2\<lparr>yield_on_return := True\<rparr> else k2) }"

definition timer_interrupt :: "kernel \<Rightarrow> kernel option" where
  "timer_interrupt k = do {
     k1 \<leftarrow> thread_tick (k\<lparr>ticks := ticks k + 1\<rparr>);
     if get_wakeup_call_time k1 \<le> ticks k1 then thread_wakeup (ticks k1) k1 else Some k1 }"

text \<open>An external interrupt: \<open>intr_handler\<close> clears the request to yield, runs the handler, and
  yields when the handler has asked for it.\<close>

definition timer_event :: "kernel \<Rightarrow> kernel option" where
  "timer_event k = do {
     k1 \<leftarrow> timer_interrupt (k\<lparr>yield_on_return := False\<rparr>);
     if yield_on_return k1 then thread_yield k1 else Some k1 }"

definition timer_sleep :: "int \<Rightarrow> kernel \<Rightarrow> kernel option" where
  "timer_sleep n k = do {
     let start = ticks k;
     let w = n + start;
     k1 \<leftarrow> thread_set_wakeup_time w k;
     thread_sleep (update_wakeup_call_time w k1) }"

section \<open>Specification\<close>

definition blocked :: "kernel \<Rightarrow> nat \<Rightarrow> bool" where
  "blocked k t \<longleftrightarrow> stat k t = Some THREAD_BLOCKED"

text \<open>The parts of the invariant: the running thread, the ready list, the sleep list.\<close>

definition running_ok :: "kernel \<Rightarrow> bool" where
  "running_ok k \<longleftrightarrow> (\<forall>t. stat k t = Some THREAD_RUNNING \<longleftrightarrow> t = running k)"

definition ready_ok :: "kernel \<Rightarrow> bool" where
  "ready_ok k \<longleftrightarrow> distinct (ready_list k)
     \<and> (\<forall>t \<in> set (ready_list k). stat k t = Some THREAD_READY \<and> Some t \<noteq> idle_thread k)
     \<and> (\<forall>t. stat k t = Some THREAD_READY \<longrightarrow> t \<in> set (ready_list k) \<or> Some t = idle_thread k)
     \<and> sorted_wrt (\<lambda>a b. prio k a \<ge> prio k b) (ready_list k)"

definition sleep_ok :: "kernel \<Rightarrow> bool" where
  "sleep_ok k \<longleftrightarrow> distinct (sleep_list k)
     \<and> (\<forall>t \<in> set (sleep_list k). blocked k t \<and> Some t \<noteq> idle_thread k \<and> wakeup_call_time k \<le> wake k t)
     \<and> sorted_wrt (\<lambda>a b. wake k a \<le> wake k b) (sleep_list k)"

text \<open>The idle thread exists and is not destroyed.\<close>

definition idle_ok :: "kernel \<Rightarrow> bool" where
  "idle_ok k \<longleftrightarrow> (case idle_thread k of
     None \<Rightarrow> False | Some i \<Rightarrow> stat k i \<noteq> None \<and> stat k i \<noteq> Some THREAD_DYING)"

definition sched_inv :: "kernel \<Rightarrow> bool" where
  "sched_inv k \<longleftrightarrow> running_ok k \<and> ready_ok k \<and> sleep_ok k \<and> idle_ok k"

section \<open>Lemmas on the state\<close>

lemma upd_thread_fields [simp]:
  "running (upd_thread t f k) = running k" "ready_list (upd_thread t f k) = ready_list k"
  "sleep_list (upd_thread t f k) = sleep_list k" "idle_thread (upd_thread t f k) = idle_thread k"
  "wakeup_call_time (upd_thread t f k) = wakeup_call_time k" "initial_thread (upd_thread t f k) = initial_thread k"
  "ticks (upd_thread t f k) = ticks k"
  "threads (upd_thread t f k) u = (if u = t then map_option f (threads k t) else threads k u)"
  by (simp_all add: upd_thread_def)

lemma set_status_fields [simp]:
  "running (set_status t st k) = running k" "ready_list (set_status t st k) = ready_list k"
  "sleep_list (set_status t st k) = sleep_list k" "idle_thread (set_status t st k) = idle_thread k"
  "wakeup_call_time (set_status t st k) = wakeup_call_time k"
  "initial_thread (set_status t st k) = initial_thread k" "ticks (set_status t st k) = ticks k"
  "prio (set_status t st k) u = prio k u" "wake (set_status t st k) u = wake k u"
  "stat (set_status t st k) u = (if u = t then map_option (\<lambda>_. st) (stat k t) else stat k u)"
  "threads (set_status t st k) u = None \<longleftrightarrow> threads k u = None"
  by (auto simp: set_status_def prio_def wake_def stat_def option.map_comp comp_def split: option.split)

lemma threads_cong:
  assumes "threads k' = threads k"
  shows "prio k' = prio k" and "wake k' = wake k" and "stat k' = stat k"
  using assms by (simp_all add: fun_eq_iff prio_def wake_def stat_def)

lemma thread_view_update [simp]:
  "stat (k\<lparr>running := t\<rparr>) = stat k"
  "stat (k\<lparr>ready_list := l\<rparr>) = stat k"
  "stat (k\<lparr>sleep_list := l\<rparr>) = stat k"
  "stat (k\<lparr>wakeup_call_time := w\<rparr>) = stat k"
  "stat (k\<lparr>thread_ticks := m\<rparr>) = stat k"
  "stat (k\<lparr>idle_ticks := m\<rparr>) = stat k"
  "stat (k\<lparr>kernel_ticks := m\<rparr>) = stat k"
  "stat (k\<lparr>user_ticks := m\<rparr>) = stat k"
  "stat (k\<lparr>yield_on_return := b\<rparr>) = stat k"
  "stat (k\<lparr>ticks := w\<rparr>) = stat k"
  "stat (k\<lparr>next_tid := w\<rparr>) = stat k"
  "prio (k\<lparr>running := t\<rparr>) = prio k"
  "prio (k\<lparr>ready_list := l\<rparr>) = prio k"
  "prio (k\<lparr>sleep_list := l\<rparr>) = prio k"
  "prio (k\<lparr>wakeup_call_time := w\<rparr>) = prio k"
  "prio (k\<lparr>thread_ticks := m\<rparr>) = prio k"
  "prio (k\<lparr>idle_ticks := m\<rparr>) = prio k"
  "prio (k\<lparr>kernel_ticks := m\<rparr>) = prio k"
  "prio (k\<lparr>user_ticks := m\<rparr>) = prio k"
  "prio (k\<lparr>yield_on_return := b\<rparr>) = prio k"
  "prio (k\<lparr>ticks := w\<rparr>) = prio k"
  "prio (k\<lparr>next_tid := w\<rparr>) = prio k"
  "wake (k\<lparr>running := t\<rparr>) = wake k"
  "wake (k\<lparr>ready_list := l\<rparr>) = wake k"
  "wake (k\<lparr>sleep_list := l\<rparr>) = wake k"
  "wake (k\<lparr>wakeup_call_time := w\<rparr>) = wake k"
  "wake (k\<lparr>thread_ticks := m\<rparr>) = wake k"
  "wake (k\<lparr>idle_ticks := m\<rparr>) = wake k"
  "wake (k\<lparr>kernel_ticks := m\<rparr>) = wake k"
  "wake (k\<lparr>user_ticks := m\<rparr>) = wake k"
  "wake (k\<lparr>yield_on_return := b\<rparr>) = wake k"
  "wake (k\<lparr>ticks := w\<rparr>) = wake k"
  "wake (k\<lparr>next_tid := w\<rparr>) = wake k"
  by (simp_all add: fun_eq_iff stat_def prio_def wake_def)

lemma destroy_thread_view [simp]:
  "stat (destroy_thread p k) t = (if t = p then None else stat k t)"
  "t \<noteq> p \<Longrightarrow> prio (destroy_thread p k) t = prio k t"
  "t \<noteq> p \<Longrightarrow> wake (destroy_thread p k) t = wake k t"
  "running (destroy_thread p k) = running k" "ready_list (destroy_thread p k) = ready_list k"
  "sleep_list (destroy_thread p k) = sleep_list k" "idle_thread (destroy_thread p k) = idle_thread k"
  "wakeup_call_time (destroy_thread p k) = wakeup_call_time k" "ticks (destroy_thread p k) = ticks k"
  "initial_thread (destroy_thread p k) = initial_thread k"
  by (simp_all add: destroy_thread_def stat_def prio_def wake_def)

lemma threads_None_iff: "threads k t = None \<longleftrightarrow> stat k t = None"
  by (simp add: stat_def)

lemma running_ok_current: "running_ok k \<Longrightarrow> thread_current k = Some (running k)"
proof -
  assume "running_ok k"
  then have "stat k (running k) = Some THREAD_RUNNING" by (simp add: running_ok_def)
  then show ?thesis by (auto simp: thread_current_def stat_def)
qed

section \<open>Ordered insertion\<close>

lemma set_list_insert_ordered [simp]: "set (list_insert_ordered lt x l) = insert x (set l)"
  by (induction l) auto

lemma distinct_list_insert_ordered [simp]:
  "distinct (list_insert_ordered lt x l) \<longleftrightarrow> x \<notin> set l \<and> distinct l"
  by (induction l) auto

text \<open>Insertion by a key keeps the list sorted; the new element comes after its equals.\<close>

lemma list_insert_ordered_key:
  fixes f :: "'a \<Rightarrow> int"
  assumes "sorted_wrt (\<lambda>a b. f a \<le> f b) l"
  shows "list_insert_ordered (\<lambda>a b. f a < f b) x l
       = takeWhile (\<lambda>y. f y \<le> f x) l @ x # dropWhile (\<lambda>y. f y \<le> f x) l"
  by (induction l) auto

lemma sorted_list_insert_ordered:
  fixes f :: "'a \<Rightarrow> int"
  assumes "sorted_wrt (\<lambda>a b. f a \<le> f b) l"
  shows "sorted_wrt (\<lambda>a b. f a \<le> f b) (list_insert_ordered (\<lambda>a b. f a < f b) x l)"
  using assms by (induction l) (auto simp: not_less)

lemma sorted_insert_priority:
  assumes "sorted_wrt (\<lambda>a b. prio k a \<ge> prio k b) l"
  shows "sorted_wrt (\<lambda>a b. prio k a \<ge> prio k b) (list_insert_ordered (compare_priority k) x l)"
proof -
  have "compare_priority k = (\<lambda>a b. - prio k a < - prio k b)" by (simp add: fun_eq_iff compare_priority_def)
  with assms sorted_list_insert_ordered [of "\<lambda>t. - prio k t" l x] show ?thesis by simp
qed

lemma sorted_insert_wakeup:
  assumes "sorted_wrt (\<lambda>a b. wake k a \<le> wake k b) l"
  shows "sorted_wrt (\<lambda>a b. wake k a \<le> wake k b) (list_insert_ordered (compare_wakeup_time k) x l)"
proof -
  have "compare_wakeup_time k = (\<lambda>a b. wake k a < wake k b)" by (simp add: fun_eq_iff compare_wakeup_time_def)
  with assms sorted_list_insert_ordered [of "wake k" l x] show ?thesis by simp
qed

section \<open>The scheduler\<close>

text \<open>Before \<open>schedule\<close>: the old thread has left the running state, and the lists are in order.\<close>

definition pre_schedule :: "kernel \<Rightarrow> bool" where
  "pre_schedule k \<longleftrightarrow> (\<forall>t. stat k t \<noteq> Some THREAD_RUNNING) \<and> threads k (running k) \<noteq> None
     \<and> ready_ok k \<and> sleep_ok k \<and> idle_ok k"

definition next_thread :: "kernel \<Rightarrow> nat" where
  "next_thread k = (case ready_list k of [] \<Rightarrow> the (idle_thread k) | t # l \<Rightarrow> t)"

lemma next_thread_idle: "ready_list k = [] \<Longrightarrow> idle_ok k \<Longrightarrow> Some (next_thread k) = idle_thread k"
  by (auto simp: next_thread_def idle_ok_def split: option.splits)

lemma schedule_eq:
  assumes "pre_schedule k"
  shows "\<exists>k'. schedule k = Some k' \<and> running k' = next_thread k \<and> ready_list k' = tl (ready_list k)
     \<and> sleep_list k' = sleep_list k \<and> wakeup_call_time k' = wakeup_call_time k
     \<and> idle_thread k' = idle_thread k \<and> ticks k' = ticks k \<and> initial_thread k' = initial_thread k
     \<and> (\<forall>t. stat k' t = (if t = next_thread k then Some THREAD_RUNNING
                          else if t = running k \<and> stat k t = Some THREAD_DYING \<and> t \<noteq> initial_thread k
                          then None else stat k t))
     \<and> (\<forall>t. stat k' t \<noteq> None \<longrightarrow> prio k' t = prio k t \<and> wake k' t = wake k t)"
proof -
  let ?n = "next_thread k"
  define k1 where "k1 = k\<lparr>ready_list := tl (ready_list k)\<rparr>"
  have idle: "idle_ok k" using assms by (simp add: pre_schedule_def)
  have nxt: "next_thread_to_run k = (Some ?n, k1)"
    using next_thread_idle [OF _ idle]
    by (auto simp: next_thread_to_run_def k1_def next_thread_def split: list.split)
  have k1: "threads k1 = threads k" "running k1 = running k" "initial_thread k1 = initial_thread k"
    by (simp_all add: k1_def)
  obtain th where th: "threads k (running k) = Some th" "status th \<noteq> THREAD_RUNNING"
    using assms by (auto simp: pre_schedule_def stat_def)
  have n: "threads k ?n \<noteq> None"
  proof (cases "ready_list k")
    case Nil
    with next_thread_idle [OF Nil idle] idle show ?thesis
      by (auto simp: idle_ok_def threads_None_iff split: option.splits)
  next
    case (Cons t l)
    then have "stat k t = Some THREAD_READY" using assms by (auto simp: pre_schedule_def ready_ok_def)
    with Cons show ?thesis by (auto simp: next_thread_def stat_def)
  qed
  then obtain z where "stat k ?n = Some z" by (auto simp: stat_def)
  moreover have "schedule k
      = Some (schedule_tail (if running k \<noteq> ?n then Some (running k) else None) (k1\<lparr>running := ?n\<rparr>))"
    using nxt th n k1 by (simp add: schedule_def kassert_def)
  ultimately show ?thesis
    by (auto simp: schedule_tail_def Let_def k1_def)
qed

lemma schedule_inv:
  assumes pre: "pre_schedule k" and "schedule k = Some k'"
  shows "sched_inv k'"
proof -
  let ?n = "next_thread k"
  from schedule_eq [OF pre] assms(2) have k': "running k' = ?n" "ready_list k' = tl (ready_list k)"
    "sleep_list k' = sleep_list k" "wakeup_call_time k' = wakeup_call_time k" "idle_thread k' = idle_thread k"
    "\<And>t. stat k' t = (if t = ?n then Some THREAD_RUNNING
                     else if t = running k \<and> stat k t = Some THREAD_DYING \<and> t \<noteq> initial_thread k
                     then None else stat k t)"
    "\<And>t. stat k' t \<noteq> None \<Longrightarrow> prio k' t = prio k t \<and> wake k' t = wake k t" by auto
  have ready: "ready_ok k" and sleep: "sleep_ok k" and idle: "idle_ok k"
    and norun: "stat k t \<noteq> Some THREAD_RUNNING" for t
    using pre by (auto simp: pre_schedule_def)
  have n: "?n \<notin> set (tl (ready_list k))" "?n \<notin> set (sleep_list k)"
    using ready sleep next_thread_idle [OF _ idle]
    by (cases "ready_list k"; force simp: next_thread_def ready_ok_def sleep_ok_def blocked_def)+
  have tl: "set (tl (ready_list k)) \<subseteq> set (ready_list k)" by (cases "ready_list k") auto
  have r: "stat k' t = Some THREAD_READY" "prio k' t = prio k t" if "t \<in> set (tl (ready_list k))" for t
  proof -
    have "stat k t = Some THREAD_READY"
      using that tl ready by (auto simp: ready_ok_def)
    then show "stat k' t = Some THREAD_READY" using k'(6) [of t] n(1) that by auto
    with k'(7) [of t] show "prio k' t = prio k t" by simp
  qed
  have w: "stat k' t = Some THREAD_BLOCKED" "wake k' t = wake k t" if "t \<in> set (sleep_list k)" for t
  proof -
    have "stat k t = Some THREAD_BLOCKED" using that sleep by (simp add: sleep_ok_def blocked_def)
    then show "stat k' t = Some THREAD_BLOCKED" using k'(6) [of t] n(2) that by auto
    with k'(7) [of t] show "wake k' t = wake k t" by simp
  qed
  have "running_ok k'" using norun k'(1,6) by (auto simp: running_ok_def split: if_splits)
  moreover have "ready_ok k'"
    unfolding ready_ok_def k'(2,5)
  proof (intro conjI ballI allI impI)
    show "distinct (tl (ready_list k))" using ready by (simp add: ready_ok_def distinct_tl)
    have "sorted_wrt (\<lambda>a b. prio k a \<ge> prio k b) (tl (ready_list k))"
      using ready by (cases "ready_list k") (auto simp: ready_ok_def)
    then show "sorted_wrt (\<lambda>a b. prio k' a \<ge> prio k' b) (tl (ready_list k))"
      by (rule sorted_wrt_mono_rel [rotated]) (simp add: r(2))
    fix t
    show "stat k' t = Some THREAD_READY" "Some t \<noteq> idle_thread k" if "t \<in> set (tl (ready_list k))"
      using that r(1) tl ready by (auto simp: ready_ok_def)
    assume "stat k' t = Some THREAD_READY"
    then have "t \<noteq> ?n" "stat k t = Some THREAD_READY" using k'(6) [of t] by (auto split: if_splits)
    then show "t \<in> set (tl (ready_list k)) \<or> Some t = idle_thread k"
      using ready by (cases "ready_list k") (auto simp: ready_ok_def next_thread_def)
  qed
  moreover have "sleep_ok k'"
    unfolding sleep_ok_def k'(3,4,5) using sleep w
    by (auto simp: sleep_ok_def blocked_def sorted_wrt_iff_nth_less)
  moreover have "idle_ok k'"
    using idle k'(5,6) by (auto simp: idle_ok_def split: option.splits)
  ultimately show ?thesis by (simp add: sched_inv_def)
qed

section \<open>Every operation keeps the invariant\<close>

lemma running_facts:
  assumes "sched_inv k"
  shows "stat k (running k) = Some THREAD_RUNNING" "threads k (running k) \<noteq> None"
    "running k \<notin> set (ready_list k)" "running k \<notin> set (sleep_list k)"
    "thread_current k = Some (running k)"
proof -
  have inv: "running_ok k" "ready_ok k" "sleep_ok k" using assms by (auto simp: sched_inv_def)
  show st: "stat k (running k) = Some THREAD_RUNNING" using inv(1) by (simp add: running_ok_def)
  then show "threads k (running k) \<noteq> None" by (auto simp: stat_def)
  show "running k \<notin> set (ready_list k)" "running k \<notin> set (sleep_list k)"
    using inv(2,3) st by (auto simp: ready_ok_def sleep_ok_def blocked_def)
  show "thread_current k = Some (running k)" using inv(1) by (rule running_ok_current)
qed

text \<open>The running thread leaves the processor without becoming ready.\<close>

lemma pre_schedule_leave:
  assumes inv: "sched_inv k" and st: "st = THREAD_BLOCKED \<or> st = THREAD_DYING \<and> Some (running k) \<noteq> idle_thread k"
  shows "pre_schedule (set_status (running k) st k)"
proof -
  note f = running_facts [OF inv]
  have "ready_ok (set_status (running k) st k)"
    using inv st f by (auto simp: sched_inv_def ready_ok_def)
  moreover have "sleep_ok (set_status (running k) st k)"
    using inv f by (auto simp: sched_inv_def sleep_ok_def blocked_def)
  moreover have "idle_ok (set_status (running k) st k)"
    using inv st f by (auto simp: sched_inv_def idle_ok_def split: option.splits)
  ultimately show ?thesis
    using inv st f(2) by (auto simp: pre_schedule_def sched_inv_def running_ok_def threads_None_iff)
qed

lemma thread_block_inv:
  assumes "sched_inv k"
  shows "\<exists>k'. thread_block k = Some k' \<and> sched_inv k'"
proof -
  have pre: "pre_schedule (set_status (running k) THREAD_BLOCKED k)"
    using assms by (rule pre_schedule_leave) simp
  obtain k' where "schedule (set_status (running k) THREAD_BLOCKED k) = Some k'"
    using schedule_eq [OF pre] by blast
  with schedule_inv [OF pre this] running_facts(5) [OF assms] show ?thesis by (simp add: thread_block_def)
qed

lemma thread_exit_inv:
  assumes "sched_inv k" and "Some (running k) \<noteq> idle_thread k"
  shows "\<exists>k'. thread_exit k = Some k' \<and> sched_inv k'"
proof -
  have pre: "pre_schedule (set_status (running k) THREAD_DYING k)"
    using assms by (intro pre_schedule_leave) auto
  obtain k' where "schedule (set_status (running k) THREAD_DYING k) = Some k'"
    using schedule_eq [OF pre] by blast
  with schedule_inv [OF pre this] running_facts(5) [OF assms(1)] show ?thesis by (simp add: thread_exit_def)
qed

definition requeue :: "kernel \<Rightarrow> kernel" where
  "requeue k = set_status (running k) THREAD_READY
     (if Some (running k) \<noteq> idle_thread k
      then k\<lparr>ready_list := list_insert_ordered (compare_priority k) (running k) (ready_list k)\<rparr> else k)"

lemma pre_schedule_requeue:
  assumes inv: "sched_inv k"
  shows "pre_schedule (requeue k)"
proof -
  note f = running_facts [OF inv]
  have "sorted_wrt (\<lambda>a b. prio k b \<le> prio k a) (list_insert_ordered (compare_priority k) (running k) (ready_list k))"
    using inv by (intro sorted_insert_priority) (simp add: sched_inv_def ready_ok_def)
  then have "ready_ok (requeue k)"
    using inv f by (auto simp: sched_inv_def ready_ok_def requeue_def)
  moreover have "sleep_ok (requeue k)"
    using inv f by (auto simp: sched_inv_def sleep_ok_def blocked_def requeue_def)
  moreover have "idle_ok (requeue k)"
    using inv f by (auto simp: sched_inv_def idle_ok_def requeue_def split: option.splits)
  ultimately show ?thesis
    using inv f(2) by (auto simp: pre_schedule_def sched_inv_def running_ok_def threads_None_iff requeue_def)
qed

lemma thread_yield_inv:
  assumes "sched_inv k"
  shows "\<exists>k'. thread_yield k = Some k' \<and> sched_inv k' \<and> running k' = next_thread (requeue k)"
proof -
  note pre = pre_schedule_requeue [OF assms]
  have "thread_yield k = schedule (requeue k)"
    using running_facts(5) [OF assms] by (simp add: thread_yield_def requeue_def)
  with schedule_eq [OF pre] schedule_inv [OF pre] show ?thesis by fastforce
qed

lemma thread_unblock_inv:
  assumes inv: "sched_inv k" and t: "blocked k t" "t \<notin> set (sleep_list k)" "Some t \<noteq> idle_thread k"
  shows "\<exists>k'. thread_unblock t k = Some k' \<and> sched_inv k' \<and> running k' = running k
     \<and> ready_list k' = list_insert_ordered (compare_priority k) t (ready_list k)
     \<and> sleep_list k' = sleep_list k \<and> wake k' = wake k \<and> prio k' = prio k
     \<and> wakeup_call_time k' = wakeup_call_time k \<and> ticks k' = ticks k \<and> idle_thread k' = idle_thread k
     \<and> (\<forall>u. stat k' u = (if u = t then Some THREAD_READY else stat k u))"
proof -
  let ?k = "set_status t THREAD_READY (k\<lparr>ready_list := list_insert_ordered (compare_priority k) t (ready_list k)\<rparr>)"
  have st: "stat k t = Some THREAD_BLOCKED" using t(1) by (simp add: blocked_def)
  then have "thread_unblock t k = Some ?k" by (auto simp: thread_unblock_def stat_def)
  moreover have "t \<noteq> running k" "t \<notin> set (ready_list k)"
    using running_facts(1) [OF inv] st inv by (auto simp: sched_inv_def ready_ok_def)
  moreover have "sorted_wrt (\<lambda>a b. prio k b \<le> prio k a) (list_insert_ordered (compare_priority k) t (ready_list k))"
    using inv by (intro sorted_insert_priority) (simp add: sched_inv_def ready_ok_def)
  ultimately have "sched_inv ?k"
    using inv st t by (auto simp: sched_inv_def running_ok_def ready_ok_def sleep_ok_def idle_ok_def
        blocked_def split: option.splits)
  with \<open>thread_unblock t k = Some ?k\<close> st show ?thesis by (simp add: fun_eq_iff)
qed

text \<open>A change of the running thread that keeps its status touches no list.\<close>

lemma upd_running_view:
  assumes "\<And>th. status (f th) = status th"
  shows "stat (upd_thread t f k) u = stat k u"
    and "u \<noteq> t \<Longrightarrow> prio (upd_thread t f k) u = prio k u" and "u \<noteq> t \<Longrightarrow> wake (upd_thread t f k) u = wake k u"
  using assms by (auto simp: stat_def prio_def wake_def option.map_comp comp_def)

lemma upd_running_inv:
  assumes inv: "sched_inv k" and f: "\<And>th. status (f th) = status th"
  shows "sched_inv (upd_thread (running k) f k)"
proof -
  note r = running_facts [OF inv] and v = upd_running_view [where f = f and t = "running k" and k = k, OF f]
  let ?k = "upd_thread (running k) f k"
  have p: "prio ?k t = prio k t" if "t \<in> set (ready_list k)" for t using that r(3) v(2) by metis
  have w: "wake ?k t = wake k t" if "t \<in> set (sleep_list k)" for t using that r(4) v(3) by metis
  have "sorted_wrt (\<lambda>a b. prio k b \<le> prio k a) (ready_list k)" "sorted_wrt (\<lambda>a b. wake k a \<le> wake k b) (sleep_list k)"
    using inv by (auto simp: sched_inv_def ready_ok_def sleep_ok_def)
  then have "sorted_wrt (\<lambda>a b. prio ?k b \<le> prio ?k a) (ready_list k)"
    "sorted_wrt (\<lambda>a b. wake ?k a \<le> wake ?k b) (sleep_list k)"
    using p w by (auto elim!: sorted_wrt_mono_rel [rotated])
  moreover note w
  ultimately show ?thesis using inv v(1)
    by (auto simp: sched_inv_def running_ok_def ready_ok_def sleep_ok_def idle_ok_def blocked_def
        split: option.splits)
qed

lemma thread_set_priority_inv:
  "sched_inv k \<Longrightarrow> \<exists>k'. thread_set_priority p k = Some k' \<and> sched_inv k'"
  using running_facts(5) upd_running_inv [of k "\<lambda>c. c\<lparr>priority := p\<rparr>"]
  by (simp add: thread_set_priority_def)

lemma update_wakeup_call_time_inv:
  "sched_inv k \<Longrightarrow> sched_inv (update_wakeup_call_time w k)"
  by (auto simp: update_wakeup_call_time_def sched_inv_def running_ok_def ready_ok_def sleep_ok_def
      idle_ok_def blocked_def split: option.splits)

lemma update_wakeup_call_time_fields [simp]:
  "running (update_wakeup_call_time w k) = running k" "ready_list (update_wakeup_call_time w k) = ready_list k"
  "sleep_list (update_wakeup_call_time w k) = sleep_list k" "ticks (update_wakeup_call_time w k) = ticks k"
  "idle_thread (update_wakeup_call_time w k) = idle_thread k" "stat (update_wakeup_call_time w k) = stat k"
  "prio (update_wakeup_call_time w k) = prio k" "wake (update_wakeup_call_time w k) = wake k"
  "wakeup_call_time (update_wakeup_call_time w k) = min w (wakeup_call_time k)"
  by (auto simp: update_wakeup_call_time_def)

definition go_to_sleep :: "kernel \<Rightarrow> kernel" where
  "go_to_sleep k = set_status (running k) THREAD_BLOCKED
     (k\<lparr>sleep_list := list_insert_ordered (compare_wakeup_time k) (running k) (sleep_list k)\<rparr>)"

lemma pre_schedule_sleep:
  assumes inv: "sched_inv k" and idle: "Some (running k) \<noteq> idle_thread k"
    and call: "wakeup_call_time k \<le> wake k (running k)"
  shows "pre_schedule (go_to_sleep k)" and "thread_sleep k = schedule (go_to_sleep k)"
proof -
  note r = running_facts [OF inv]
  let ?l = "list_insert_ordered (compare_wakeup_time k) (running k) (sleep_list k)"
  have "sorted_wrt (\<lambda>a b. wake k a \<le> wake k b) ?l"
    using inv by (intro sorted_insert_wakeup) (simp add: sched_inv_def sleep_ok_def)
  then show "pre_schedule (go_to_sleep k)"
    using inv r idle call
    by (auto simp: go_to_sleep_def pre_schedule_def sched_inv_def running_ok_def ready_ok_def sleep_ok_def idle_ok_def
        blocked_def threads_None_iff split: option.splits)
  show "thread_sleep k = schedule (go_to_sleep k)"
    using r(5) by (simp add: thread_sleep_def thread_block_def thread_current_def go_to_sleep_def)
qed

lemma thread_sleep_inv:
  assumes "sched_inv k" and "Some (running k) \<noteq> idle_thread k" and "wakeup_call_time k \<le> wake k (running k)"
  shows "\<exists>k'. thread_sleep k = Some k' \<and> sched_inv k'
     \<and> sleep_list k' = list_insert_ordered (compare_wakeup_time k) (running k) (sleep_list k)"
proof -
  note p = pre_schedule_sleep [OF assms]
  from schedule_eq [OF p(1)] schedule_inv [OF p(1)] p(2) show ?thesis by (fastforce simp: go_to_sleep_def)
qed

text \<open>The running thread with its wake-up time set, as \<open>timer_sleep\<close> hands it on.\<close>

definition with_alarm :: "int \<Rightarrow> kernel \<Rightarrow> kernel" where
  "with_alarm w k = update_wakeup_call_time w (upd_thread (running k) (\<lambda>c. c\<lparr>wakeup_time := w\<rparr>) k)"

lemma with_alarm_facts:
  assumes inv: "sched_inv k"
  shows "sched_inv (with_alarm w k)" "wakeup_call_time (with_alarm w k) \<le> wake (with_alarm w k) (running k)"
    "running (with_alarm w k) = running k" "idle_thread (with_alarm w k) = idle_thread k"
    "sleep_list (with_alarm w k) = sleep_list k" "stat (with_alarm w k) = stat k"
    "timer_sleep n k = thread_sleep (with_alarm (n + ticks k) k)"
proof -
  show "sched_inv (with_alarm w k)"
    unfolding with_alarm_def using inv by (intro update_wakeup_call_time_inv upd_running_inv) auto
  have "wake (with_alarm w k) (running k) = w"
    using running_facts(2) [OF inv] by (auto simp: with_alarm_def wake_def)
  then show "wakeup_call_time (with_alarm w k) \<le> wake (with_alarm w k) (running k)" by (simp add: with_alarm_def)
  show "timer_sleep n k = thread_sleep (with_alarm (n + ticks k) k)"
    using running_facts(5) [OF inv]
    by (simp add: with_alarm_def timer_sleep_def thread_set_wakeup_time_def Let_def)
qed (simp_all add: with_alarm_def fun_eq_iff upd_running_view)

lemma timer_sleep_inv:
  assumes inv: "sched_inv k" and idle: "Some (running k) \<noteq> idle_thread k"
  shows "\<exists>k'. timer_sleep n k = Some k' \<and> sched_inv k' \<and> set (sleep_list k') = insert (running k) (set (sleep_list k))"
  using thread_sleep_inv [of "with_alarm (n + ticks k) k"] with_alarm_facts [OF inv] idle by auto

lemma sleep_pop_inv:
  assumes "sched_inv k" and "sleep_list k = t # l"
  shows "sched_inv (k\<lparr>sleep_list := l\<rparr>)"
  using assms
  by (auto simp: sched_inv_def running_ok_def ready_ok_def sleep_ok_def idle_ok_def blocked_def split: option.splits)

lemma wakeup_loop_spec:
  assumes "sched_inv k" and "sleep_list k = l"
  shows "\<exists>k'. wakeup_loop l now k = Some k' \<and> sched_inv k' \<and> running k' = running k
     \<and> sleep_list k' = dropWhile (\<lambda>t. wake k t \<le> now) l \<and> wake k' = wake k \<and> prio k' = prio k
     \<and> ticks k' = ticks k \<and> idle_thread k' = idle_thread k \<and> wakeup_call_time k' = wakeup_call_time k
     \<and> (\<forall>u. stat k' u = (if u \<in> set (takeWhile (\<lambda>t. wake k t \<le> now) l) then Some THREAD_READY else stat k u))"
  using assms
proof (induction l arbitrary: k)
  case Nil
  then show ?case by simp
next
  case (Cons t l)
  show ?case
  proof (cases "wake k t \<le> now")
    case True
    let ?k = "k\<lparr>sleep_list := l\<rparr>"
    have t: "blocked ?k t" "t \<notin> set l" "Some t \<noteq> idle_thread ?k"
      using Cons.prems by (auto simp: sched_inv_def sleep_ok_def blocked_def)
    have "sched_inv ?k" using Cons.prems by (rule sleep_pop_inv)
    from thread_unblock_inv [OF this t(1) _ t(3)] t(2) obtain k1 where k1: "thread_unblock t ?k = Some k1"
      "sched_inv k1" "running k1 = running k" "sleep_list k1 = l" "wake k1 = wake k" "prio k1 = prio k"
      "wakeup_call_time k1 = wakeup_call_time k" "ticks k1 = ticks k" "idle_thread k1 = idle_thread k"
      "\<forall>u. stat k1 u = (if u = t then Some THREAD_READY else stat k u)" by auto
    from Cons.IH [OF k1(2,4)] k1 obtain k' where "wakeup_loop l now k1 = Some k'" "sched_inv k'"
      "running k' = running k" "sleep_list k' = dropWhile (\<lambda>t. wake k t \<le> now) l" "wake k' = wake k"
      "prio k' = prio k" "ticks k' = ticks k" "idle_thread k' = idle_thread k"
      "wakeup_call_time k' = wakeup_call_time k"
      "\<forall>u. stat k' u = (if u \<in> set (takeWhile (\<lambda>t. wake k t \<le> now) l) then Some THREAD_READY else stat k1 u)"
      by auto
    with True k1(1,10) Cons.prems(2) show ?thesis by auto
  next
    case False
    have "wakeup_call_time k \<le> wake k t" using Cons.prems by (simp add: sched_inv_def sleep_ok_def)
    then have "update_wakeup_call_time (wake k t) k = k" by (simp add: update_wakeup_call_time_def)
    with False Cons.prems show ?thesis by simp
  qed
qed

lemma sorted_split_key:
  fixes f :: "'a \<Rightarrow> int"
  assumes "sorted_wrt (\<lambda>a b. f a \<le> f b) l"
  shows "dropWhile (\<lambda>x. f x \<le> c) l = filter (\<lambda>x. c < f x) l" "takeWhile (\<lambda>x. f x \<le> c) l = filter (\<lambda>x. f x \<le> c) l"
  using assms
proof (induction l)
  case (Cons a l)
  {
    case 1
    have "filter (\<lambda>x. c < f x) l = l" if "c < f a" using 1 that by (intro filter_True) auto
    with 1 Cons show ?case by auto
  next
    case 2
    have "filter (\<lambda>x. f x \<le> c) l = []" if "c < f a" using 2 that by (intro filter_False) auto
    with 2 Cons show ?case by auto
  }
qed simp_all

lemma thread_wakeup_spec:
  assumes inv: "sched_inv k"
  shows "\<exists>k'. thread_wakeup now k = Some k' \<and> sched_inv k' \<and> running k' = running k
     \<and> sleep_list k' = filter (\<lambda>t. now < wake k t) (sleep_list k) \<and> wake k' = wake k \<and> prio k' = prio k
     \<and> ticks k' = ticks k \<and> idle_thread k' = idle_thread k \<and> wakeup_call_time k' \<le> wakeup_call_time k
     \<and> (\<forall>u. stat k' u = (if u \<in> set (sleep_list k) \<and> wake k u \<le> now then Some THREAD_READY else stat k u))"
proof -
  have sorted: "sorted_wrt (\<lambda>a b. wake k a \<le> wake k b) (sleep_list k)" using inv by (simp add: sched_inv_def sleep_ok_def)
  note split = sorted_split_key [OF sorted, of now]
  from wakeup_loop_spec [OF inv refl, of now] obtain k1 where
    k1: "wakeup_loop (sleep_list k) now k = Some k1" "sched_inv k1" "running k1 = running k"
    "sleep_list k1 = filter (\<lambda>t. now < wake k t) (sleep_list k)" "wake k1 = wake k" "prio k1 = prio k"
    "ticks k1 = ticks k" "idle_thread k1 = idle_thread k" "wakeup_call_time k1 = wakeup_call_time k"
    "\<forall>u. stat k1 u = (if u \<in> set (filter (\<lambda>t. wake k t \<le> now) (sleep_list k)) then Some THREAD_READY else stat k u)"
    unfolding split by blast
  then show ?thesis
    using update_wakeup_call_time_inv [OF k1(2)] by (auto simp: thread_wakeup_def)
qed

lemma thread_create_inv:
  assumes inv: "sched_inv k" and t: "threads k t = None" and pri: "PRI_MIN \<le> pri" "pri \<le> PRI_MAX"
  shows "\<exists>k'. thread_create (Some t) pri k = Some (next_tid k, k') \<and> sched_inv k'
     \<and> stat k' t = Some THREAD_READY \<and> prio k' t = pri \<and> running k' = running k
     \<and> sleep_list k' = sleep_list k \<and> idle_thread k' = idle_thread k \<and> (\<forall>u. u \<noteq> t \<longrightarrow> stat k' u = stat k u)"
proof -
  define th where "th = \<lparr>tid = next_tid k, status = THREAD_BLOCKED, priority = pri, wakeup_time = 0,
           th_parent = Some (running k), list_children = [], has_pagedir = False\<rparr>"
  define k2 where "k2 = k\<lparr>next_tid := next_tid k + 1, threads := (threads k)(t := Some th)\<rparr>"
  define k3 where "k3 = upd_thread (running k) (\<lambda>c. c\<lparr>list_children := list_children c @ [t]\<rparr>) k2"
  have st: "stat k t = None" using t by (simp add: threads_None_iff)
  then have tr: "t \<noteq> running k" "t \<notin> set (ready_list k)" "t \<notin> set (sleep_list k)" "Some t \<noteq> idle_thread k"
    using inv running_facts(1) [OF inv]
    by (auto simp: sched_inv_def ready_ok_def sleep_ok_def blocked_def idle_ok_def split: option.splits)
  have v2: "stat k2 u = (if u = t then Some THREAD_BLOCKED else stat k u)"
    "prio k2 u = (if u = t then pri else prio k u)" "wake k2 u = (if u = t then 0 else wake k u)" for u
    by (simp_all add: k2_def stat_def prio_def wake_def th_def)
  have f2: "running k2 = running k" "ready_list k2 = ready_list k" "sleep_list k2 = sleep_list k"
    "idle_thread k2 = idle_thread k" "wakeup_call_time k2 = wakeup_call_time k" by (simp_all add: k2_def)
  have "sorted_wrt (\<lambda>a b. prio k2 b \<le> prio k2 a) (ready_list k)" "sorted_wrt (\<lambda>a b. wake k2 a \<le> wake k2 b) (sleep_list k)"
    using inv tr(2,3) unfolding v2
    by (auto simp: sched_inv_def ready_ok_def sleep_ok_def elim!: sorted_wrt_mono_rel [rotated])
  then have inv2: "sched_inv k2"
    using inv tr v2 f2
    by (auto simp: sched_inv_def running_ok_def ready_ok_def sleep_ok_def idle_ok_def blocked_def split: option.splits)
  have inv3: "sched_inv k3" unfolding k3_def f2(1) [symmetric] using inv2 by (rule upd_running_inv) simp
  have b3: "blocked k3 t" "t \<notin> set (sleep_list k3)" "Some t \<noteq> idle_thread k3" "prio k3 t = pri" "running k3 = running k"
    using tr v2 f2 by (auto simp: blocked_def k3_def upd_running_view)
  from thread_unblock_inv [OF inv3 b3(1-3)] obtain k' where k': "thread_unblock t k3 = Some k'" "sched_inv k'"
    "stat k' t = Some THREAD_READY" "prio k' t = pri" "running k' = running k" "sleep_list k' = sleep_list k"
    "idle_thread k' = idle_thread k" "\<forall>u. u \<noteq> t \<longrightarrow> stat k' u = stat k3 u"
    using b3(4,5) f2 by (auto simp: k3_def)
  moreover have "\<forall>u. u \<noteq> t \<longrightarrow> stat k3 u = stat k u" using v2 by (simp add: k3_def upd_running_view)
  moreover have "thread_create (Some t) pri k = do { k4 \<leftarrow> thread_unblock t k3; Some (next_tid k, k4) }"
    using pri running_facts(5) [OF inv2]
    by (simp add: thread_create_def init_thread_def allocate_tid_def k2_def k3_def th_def)
  ultimately show ?thesis by auto
qed

lemma thread_tick_inv:
  assumes "sched_inv k"
  shows "\<exists>k'. thread_tick k = Some k' \<and> sched_inv k' \<and> ticks k' = ticks k \<and> sleep_list k' = sleep_list k
     \<and> wake k' = wake k \<and> stat k' = stat k \<and> running k' = running k \<and> idle_thread k' = idle_thread k
     \<and> wakeup_call_time k' = wakeup_call_time k"
proof -
  obtain th where "threads k (running k) = Some th" using running_facts(2) [OF assms] by blast
  moreover have "sched_inv (k\<lparr>idle_ticks := a\<rparr>) = sched_inv k" "sched_inv (k\<lparr>kernel_ticks := a\<rparr>) = sched_inv k"
    "sched_inv (k\<lparr>user_ticks := a\<rparr>) = sched_inv k" "sched_inv (k\<lparr>thread_ticks := a\<rparr>) = sched_inv k"
    "sched_inv (k\<lparr>yield_on_return := b\<rparr>) = sched_inv k" for k a b
    by (simp_all add: sched_inv_def running_ok_def ready_ok_def sleep_ok_def idle_ok_def blocked_def cong: option.case_cong)
  ultimately show ?thesis
    using assms running_facts(5) [OF assms] by (simp add: thread_tick_def Let_def)
qed

lemma timer_interrupt_spec:
  assumes inv: "sched_inv k"
  shows "\<exists>k'. timer_interrupt k = Some k' \<and> sched_inv k' \<and> ticks k' = ticks k + 1 \<and> running k' = running k
     \<and> idle_thread k' = idle_thread k \<and> wake k' = wake k
     \<and> sleep_list k' = filter (\<lambda>t. ticks k + 1 < wake k t) (sleep_list k)
     \<and> (\<forall>u. stat k' u = (if u \<in> set (sleep_list k) \<and> wake k u \<le> ticks k + 1 then Some THREAD_READY else stat k u))"
proof -
  let ?k = "k\<lparr>ticks := ticks k + 1\<rparr>"
  have "sched_inv ?k" using inv
    by (simp add: sched_inv_def running_ok_def ready_ok_def sleep_ok_def idle_ok_def blocked_def cong: option.case_cong)
  from thread_tick_inv [OF this] obtain k1 where k1: "thread_tick ?k = Some k1" "sched_inv k1"
    "ticks k1 = ticks k + 1" "sleep_list k1 = sleep_list k" "wake k1 = wake k" "stat k1 = stat k"
    "running k1 = running k" "idle_thread k1 = idle_thread k" "wakeup_call_time k1 = wakeup_call_time k" by auto
  show ?thesis
  proof (cases "wakeup_call_time k \<le> ticks k + 1")
    case True
    with thread_wakeup_spec [OF k1(2), of "ticks k + 1"] k1 show ?thesis
      by (auto simp: timer_interrupt_def get_wakeup_call_time_def)
  next
    case False
    have "ticks k + 1 < wake k t" if "t \<in> set (sleep_list k)" for t
      using that inv False by (force simp: sched_inv_def sleep_ok_def)
    then have "filter (\<lambda>t. ticks k + 1 < wake k t) (sleep_list k) = sleep_list k" by (auto intro: filter_True)
    moreover have "\<not> (u \<in> set (sleep_list k) \<and> wake k u \<le> ticks k + 1)" for u
      using \<open>\<And>t. t \<in> set (sleep_list k) \<Longrightarrow> ticks k + 1 < wake k t\<close> [of u] by auto
    ultimately show ?thesis using k1 False by (auto simp: timer_interrupt_def get_wakeup_call_time_def)
  qed
qed

lemma timer_event_inv:
  assumes "sched_inv k"
  shows "\<exists>k'. timer_event k = Some k' \<and> sched_inv k'"
proof -
  have "sched_inv (k\<lparr>yield_on_return := False\<rparr>)" using assms
    by (simp add: sched_inv_def running_ok_def ready_ok_def sleep_ok_def idle_ok_def blocked_def cong: option.case_cong)
  from timer_interrupt_spec [OF this] obtain k1 where
    k1: "timer_interrupt (k\<lparr>yield_on_return := False\<rparr>) = Some k1" "sched_inv k1" by blast
  with thread_yield_inv [OF k1(2)] show ?thesis by (auto simp: timer_event_def)
qed

section \<open>Runs of the kernel\<close>

text \<open>The operations of the kernel threads and the timer, and when the kernel calls them: the idle
  thread neither exits nor sleeps, only a thread that waits for an event is unblocked, and a new
  thread gets a page of its own.\<close>

datatype sched_op = Yield | Block | Exit | Unblock nat | Sleep int | Create nat int
  | Set_Priority int | Tick

primrec do_op :: "sched_op \<Rightarrow> kernel \<Rightarrow> kernel option" where
  "do_op Yield k = thread_yield k"
| "do_op Block k = thread_block k"
| "do_op Exit k = thread_exit k"
| "do_op (Unblock t) k = thread_unblock t k"
| "do_op (Sleep n) k = timer_sleep n k"
| "do_op (Create t pri) k = map_option snd (thread_create (Some t) pri k)"
| "do_op (Set_Priority pri) k = thread_set_priority pri k"
| "do_op Tick k = timer_event k"

primrec allowed :: "sched_op \<Rightarrow> kernel \<Rightarrow> bool" where
  "allowed Yield k = True"
| "allowed Block k = True"
| "allowed Exit k = (Some (running k) \<noteq> idle_thread k)"
| "allowed (Unblock t) k = (blocked k t \<and> t \<notin> set (sleep_list k) \<and> Some t \<noteq> idle_thread k)"
| "allowed (Sleep n) k = (Some (running k) \<noteq> idle_thread k)"
| "allowed (Create t pri) k = (threads k t = None \<and> PRI_MIN \<le> pri \<and> pri \<le> PRI_MAX)"
| "allowed (Set_Priority pri) k = True"
| "allowed Tick k = True"

inductive kreach :: "kernel \<Rightarrow> kernel \<Rightarrow> bool" for k0 where
  start: "kreach k0 k0"
| step: "kreach k0 k \<Longrightarrow> allowed oper k \<Longrightarrow> do_op oper k = Some k' \<Longrightarrow> kreach k0 k'"

inductive_cases kreachE: "kreach k0 k"

lemma do_op_inv:
  assumes "sched_inv k" and "allowed oper k"
  shows "\<exists>k'. do_op oper k = Some k' \<and> sched_inv k'"
proof (cases oper)
  case Yield with thread_yield_inv assms show ?thesis by fastforce
next
  case Block with thread_block_inv assms show ?thesis by fastforce
next
  case Exit with thread_exit_inv assms show ?thesis by fastforce
next
  case (Unblock t) with thread_unblock_inv [of k t] assms show ?thesis by auto
next
  case (Sleep n) with timer_sleep_inv [of k n] assms show ?thesis by auto
next
  case (Create t pri) with thread_create_inv [of k t pri] assms show ?thesis by auto
next
  case (Set_Priority pri) with thread_set_priority_inv [of k pri] assms show ?thesis by auto
next
  case Tick with timer_event_inv assms show ?thesis by fastforce
qed

lemma kreach_inv: "kreach k0 k \<Longrightarrow> sched_inv k0 \<Longrightarrow> sched_inv k"
  by (induction rule: kreach.induct) (use do_op_inv in fastforce)+

text \<open>The recorded wake-up time only goes down.\<close>

lemma schedule_call_time: "schedule k = Some k' \<Longrightarrow> wakeup_call_time k' = wakeup_call_time k"
  by (auto simp: schedule_def next_thread_to_run_def schedule_tail_def Let_def bind_Some_iff kassert_Some_iff
      split: list.splits if_splits option.splits)

lemma unblock_call_time: "thread_unblock t k = Some k' \<Longrightarrow> wakeup_call_time k' = wakeup_call_time k"
  by (auto simp: thread_unblock_def bind_Some_iff kassert_Some_iff)

lemma wakeup_loop_call_time: "wakeup_loop l now k = Some k' \<Longrightarrow> wakeup_call_time k' \<le> wakeup_call_time k"
proof (induction l arbitrary: k)
  case (Cons t l)
  then show ?case
    by (fastforce simp: bind_Some_iff split: if_splits dest!: unblock_call_time)
qed simp

lemma do_op_call_time: "do_op oper k = Some k' \<Longrightarrow> wakeup_call_time k' \<le> wakeup_call_time k"
proof (cases oper)
  case Tick
  have yield: "thread_yield a = Some b \<Longrightarrow> wakeup_call_time b = wakeup_call_time a" for a b
    by (auto simp: thread_yield_def bind_Some_iff Let_def dest!: schedule_call_time)
  have tick: "thread_tick a = Some b \<Longrightarrow> wakeup_call_time b = wakeup_call_time a" for a b
    by (auto simp: thread_tick_def bind_Some_iff Let_def)
  have wk: "thread_wakeup now a = Some b \<Longrightarrow> wakeup_call_time b \<le> wakeup_call_time a" for now a b
    by (auto simp: thread_wakeup_def bind_Some_iff split: if_splits dest: wakeup_loop_call_time)
  assume "do_op oper k = Some k'"
  with Tick show ?thesis
    by (fastforce simp: timer_event_def timer_interrupt_def bind_Some_iff split: if_splits dest!: yield tick wk)
next
  case (Sleep n)
  assume "do_op oper k = Some k'"
  with Sleep show ?thesis
    by (auto simp: timer_sleep_def thread_set_wakeup_time_def thread_sleep_def thread_block_def Let_def
        bind_Some_iff dest!: schedule_call_time)
next
  case (Create t pri)
  assume "do_op oper k = Some k'"
  with Create show ?thesis
    by (auto simp: thread_create_def init_thread_def allocate_tid_def Let_def bind_Some_iff kassert_Some_iff
        dest!: unblock_call_time)
qed (auto simp: thread_yield_def thread_block_def thread_exit_def thread_set_priority_def Let_def bind_Some_iff
    dest!: schedule_call_time unblock_call_time)

section \<open>Properties\<close>


definition demo_thread :: "thread_status \<Rightarrow> int \<Rightarrow> int \<Rightarrow> thread" where
  "demo_thread st p w = \<lparr>tid = 0, status = st, priority = p, wakeup_time = w, th_parent = None,
     list_children = [], has_pagedir = False\<rparr>"

definition demo_kernel :: kernel where
  "demo_kernel = \<lparr>threads = [0 \<mapsto> demo_thread THREAD_RUNNING 31 0, 1 \<mapsto> demo_thread THREAD_BLOCKED 0 0,
        2 \<mapsto> demo_thread THREAD_READY 40 0, 3 \<mapsto> demo_thread THREAD_READY 31 0,
        4 \<mapsto> demo_thread THREAD_BLOCKED 31 7],
     running = 0, ready_list = [2, 3], sleep_list = [4], wakeup_call_time = 7, idle_thread = Some 1,
     initial_thread = 0, next_tid = 5, thread_ticks = 0, idle_ticks = 0, kernel_ticks = 0, user_ticks = 0,
     yield_on_return = False, ticks = 6\<rparr>"

lemma demo_kernel_inv: "sched_inv demo_kernel"
  by (auto simp: sched_inv_def running_ok_def ready_ok_def sleep_ok_def idle_ok_def blocked_def stat_def
      prio_def wake_def demo_kernel_def demo_thread_def split: if_splits)




text \<open>C10. The alarm clock is exact. A timer tick moves to the ready state exactly the sleeping
  threads whose wake-up time has come; afterwards every thread left in the sleep list has a
  wake-up time in the future. No thread is missed, although the handler looks at the list only
  when the recorded earliest wake-up time has passed.\<close>

theorem timer_wakes_exactly:
  assumes "sched_inv k"
  shows "\<exists>k'. timer_interrupt k = Some k' \<and> sched_inv k' \<and> ticks k' = ticks k + 1
     \<and> (\<forall>t. t \<in> set (sleep_list k') \<longleftrightarrow> t \<in> set (sleep_list k) \<and> ticks k' < wake k t)
     \<and> (\<forall>t. stat k' t = (if t \<in> set (sleep_list k) \<and> wake k t \<le> ticks k' then Some THREAD_READY else stat k t))"
proof -
  from timer_interrupt_spec [OF assms] obtain k' where "timer_interrupt k = Some k'" "sched_inv k'"
    "ticks k' = ticks k + 1" "sleep_list k' = filter (\<lambda>t. ticks k + 1 < wake k t) (sleep_list k)"
    "\<forall>u. stat k' u = (if u \<in> set (sleep_list k) \<and> wake k u \<le> ticks k + 1 then Some THREAD_READY else stat k u)"
    by blast
  then show ?thesis by auto
qed

theorem timer_wakes_exactly_witness:
  "\<exists>k'. timer_interrupt demo_kernel = Some k' \<and> stat k' 4 = Some THREAD_READY \<and> sleep_list k' = []"
proof -
  have d: "4 \<in> set (sleep_list demo_kernel)" "wake demo_kernel 4 = 7" "ticks demo_kernel = 6" "set (sleep_list demo_kernel) = {4}"
    by (simp_all add: demo_kernel_def wake_def demo_thread_def)
  from timer_wakes_exactly [OF demo_kernel_inv] obtain k' where k': "timer_interrupt demo_kernel = Some k'"
    "ticks k' = 7" "\<forall>t. t \<in> set (sleep_list k') \<longleftrightarrow> t \<in> set (sleep_list demo_kernel) \<and> ticks k' < wake demo_kernel t"
    "\<forall>t. stat k' t = (if t \<in> set (sleep_list demo_kernel) \<and> wake demo_kernel t \<le> ticks k'
                      then Some THREAD_READY else stat demo_kernel t)" using d(3) by auto
  have "t \<notin> set (sleep_list k')" for t using k'(2,3) d(2,4) by (cases "t = 4") simp_all
  then have "sleep_list k' = []" by (cases "sleep_list k'") auto
  with k'(1,2,4) d show ?thesis by simp
qed

text \<open>The recorded wake-up time never goes up. Whatever the kernel does, \<open>wakeup_call_time\<close> stays
  at most what it was: the calls that are meant to move it to the next sleeper, or to the largest
  value when nobody sleeps, have no effect, so that from the first alarm on the handler walks the
  sleep list on every tick.\<close>

theorem wakeup_call_time_never_rises:
  assumes "kreach k0 k"
  shows "wakeup_call_time k \<le> wakeup_call_time k0"
  using assms by (induction rule: kreach.induct) (auto dest: do_op_call_time)

theorem wakeup_call_time_never_rises_witness:
  "\<exists>k. do_op Tick demo_kernel = Some k \<and> wakeup_call_time k \<le> 7"
proof -
  obtain k where k: "do_op Tick demo_kernel = Some k" using do_op_inv [OF demo_kernel_inv, of Tick] by auto
  have "wakeup_call_time demo_kernel = 7" by (simp add: demo_kernel_def)
  with k wakeup_call_time_never_rises [OF kreach.step [OF kreach.start _ k]] show ?thesis by simp
qed

end
