(* ===== verification/Synch.thy ===== *)
theory Synch
  imports Sched
begin

text \<open>
  Semaphores, locks and condition variables, \<^verbatim>\<open>threads/synch.c\<close>, on top of the scheduler. The state
  \<open>sys\<close> adds to the kernel the semaphores, the holders of the locks and the waiters of the
  condition variables. A semaphore is named by what it is part of: itself, a lock, or the
  \<open>semaphore_elem\<close> on the stack of a thread that waits for a condition.

  An operation that can block is cut where the code can lose the processor: \<open>act\<close> records for
  each thread the point inside an operation at which it will continue when it runs again, and
  \<open>resume\<close> continues it. The loop of \<open>sema_down\<close> is one iteration per step. The interval between
  taking a lock's semaphore and storing the holder, and that between clearing the holder and
  raising the semaphore, are points of their own.

  The invariants are that a thread waits on a semaphore exactly when it is blocked inside
  \<open>sema_down\<close> on it, that a lock has at most one owner, and that no wake-up is lost.
\<close>

section \<open>State\<close>

datatype sema_id = Sema nat | Of_Lock nat | Of_Waiter nat

record semaphore =
  sema_value :: nat
  waiters :: "nat list"

datatype activity =
    Free
  | Downing sema_id
  | Acquiring nat
  | Owning nat
  | Releasing nat
  | Wait_Releasing nat
  | Waiting nat
  | Reacquiring nat

record sys =
  kern :: kernel
  semas :: "sema_id \<Rightarrow> semaphore"
  lock_holder :: "nat \<Rightarrow> nat option"
  cond_waiters :: "nat \<Rightarrow> nat list"
  act :: "nat \<Rightarrow> activity"

definition set_sema :: "sema_id \<Rightarrow> semaphore \<Rightarrow> sys \<Rightarrow> sys" where
  "set_sema x m s = s\<lparr>semas := (semas s)(x := m)\<rparr>"

definition set_act :: "nat \<Rightarrow> activity \<Rightarrow> sys \<Rightarrow> sys" where
  "set_act t a s = s\<lparr>act := (act s)(t := a)\<rparr>"

definition set_holder :: "nat \<Rightarrow> nat option \<Rightarrow> sys \<Rightarrow> sys" where
  "set_holder l h s = s\<lparr>lock_holder := (lock_holder s)(l := h)\<rparr>"

definition set_kern :: "kernel \<Rightarrow> sys \<Rightarrow> sys" where
  "set_kern k s = s\<lparr>kern := k\<rparr>"

definition set_cond :: "nat \<Rightarrow> nat list \<Rightarrow> sys \<Rightarrow> sys" where
  "set_cond c l s = s\<lparr>cond_waiters := (cond_waiters s)(c := l)\<rparr>"

abbreviation cur :: "sys \<Rightarrow> nat" where
  "cur s \<equiv> running (kern s)"

section \<open>Operations\<close>

definition sema_init :: "sema_id \<Rightarrow> nat \<Rightarrow> sys \<Rightarrow> sys" where
  "sema_init x v s = set_sema x \<lparr>sema_value = v, waiters = []\<rparr> s"

text \<open>One iteration of the loop of \<open>sema_down\<close>: whether the semaphore was taken.\<close>

definition sema_down_iter :: "sema_id \<Rightarrow> sys \<Rightarrow> (bool \<times> sys) option" where
  "sema_down_iter x s = do {
     t \<leftarrow> thread_current (kern s);
     let m = semas s x;
     if sema_value m = 0
     then do {
       k \<leftarrow> thread_block (kern s);
       Some (False, set_kern k (set_sema x (m\<lparr>waiters := waiters m @ [t]\<rparr>) s)) }
     else Some (True, set_sema x (m\<lparr>sema_value := sema_value m - 1\<rparr>) s) }"

text \<open>An iteration by the running thread, which then stands at \<open>stay\<close> or goes on to \<open>go\<close>.\<close>

definition down_step :: "sema_id \<Rightarrow> activity \<Rightarrow> activity \<Rightarrow> sys \<Rightarrow> sys option" where
  "down_step x stay go s = do {
     (ok, s1) \<leftarrow> sema_down_iter x s;
     Some (set_act (cur s) (if ok then go else stay) s1) }"

definition sema_down :: "sema_id \<Rightarrow> sys \<Rightarrow> sys option" where
  "sema_down x s = down_step x (Downing x) Free s"

definition sema_try_down :: "sema_id \<Rightarrow> sys \<Rightarrow> bool \<times> sys" where
  "sema_try_down x s = (let m = semas s x in
     if sema_value m > 0 then (True, set_sema x (m\<lparr>sema_value := sema_value m - 1\<rparr>) s)
     else (False, s))"

definition sema_up :: "sema_id \<Rightarrow> sys \<Rightarrow> sys option" where
  "sema_up x s = do {
     let m = semas s x;
     s1 \<leftarrow> (case waiters m of
              [] \<Rightarrow> Some (set_sema x (m\<lparr>sema_value := sema_value m + 1\<rparr>) s)
            | t # l \<Rightarrow> do {
                k \<leftarrow> thread_unblock t (kern s);
                Some (set_kern k (set_sema x \<lparr>sema_value = sema_value m + 1, waiters = l\<rparr> s)) });
     Some s1 }"

definition lock_init :: "nat \<Rightarrow> sys \<Rightarrow> sys" where
  "lock_init l s = sema_init (Of_Lock l) 1 (set_holder l None s)"

definition lock_held_by_current_thread :: "nat \<Rightarrow> sys \<Rightarrow> bool" where
  "lock_held_by_current_thread l s \<longleftrightarrow> lock_holder s l = Some (cur s)"

definition lock_acquire :: "nat \<Rightarrow> sys \<Rightarrow> sys option" where
  "lock_acquire l s = do {
     kassert (\<not> lock_held_by_current_thread l s);
     down_step (Of_Lock l) (Acquiring l) (Owning l) s }"

definition lock_try_acquire :: "nat \<Rightarrow> sys \<Rightarrow> (bool \<times> sys) option" where
  "lock_try_acquire l s = do {
     kassert (\<not> lock_held_by_current_thread l s);
     let (ok, s1) = sema_try_down (Of_Lock l) s;
     Some (ok, if ok then set_act (cur s) (Owning l) s1 else s1) }"

definition lock_release :: "nat \<Rightarrow> sys \<Rightarrow> sys option" where
  "lock_release l s = do {
     kassert (lock_held_by_current_thread l s);
     Some (set_act (cur s) (Releasing l) (set_holder l None s)) }"

definition cond_init :: "nat \<Rightarrow> sys \<Rightarrow> sys" where
  "cond_init c s = set_cond c [] s"

definition cond_wait :: "nat \<Rightarrow> nat \<Rightarrow> sys \<Rightarrow> sys option" where
  "cond_wait c l s = do {
     kassert (lock_held_by_current_thread l s);
     let s1 = sema_init (Of_Waiter (cur s)) 0 s;
     let s2 = set_cond c (cond_waiters s1 c @ [cur s]) s1;
     Some (set_act (cur s) (Wait_Releasing l) (set_holder l None s2)) }"

definition cond_signal :: "nat \<Rightarrow> nat \<Rightarrow> sys \<Rightarrow> sys option" where
  "cond_signal c l s = do {
     kassert (lock_held_by_current_thread l s);
     (case cond_waiters s c of
        [] \<Rightarrow> Some s
      | t # r \<Rightarrow> sema_up (Of_Waiter t) (set_cond c r s)) }"

text \<open>The loop of \<open>cond_broadcast\<close>: \<open>n\<close> waiters left.\<close>

primrec broadcast_loop :: "nat \<Rightarrow> nat \<Rightarrow> nat \<Rightarrow> sys \<Rightarrow> sys option" where
  "broadcast_loop 0 c l s = Some s"
| "broadcast_loop (Suc n) c l s =
     (if cond_waiters s c = [] then Some s
      else do { s1 \<leftarrow> cond_signal c l s; broadcast_loop n c l s1 })"

definition cond_broadcast :: "nat \<Rightarrow> nat \<Rightarrow> sys \<Rightarrow> sys option" where
  "cond_broadcast c l s = broadcast_loop (length (cond_waiters s c)) c l s"

text \<open>The running thread continues inside an operation.\<close>

definition resume :: "sys \<Rightarrow> sys option" where
  "resume s = (case act s (cur s) of
     Free \<Rightarrow> Some s
   | Downing x \<Rightarrow> down_step x (Downing x) Free s
   | Acquiring l \<Rightarrow> down_step (Of_Lock l) (Acquiring l) (Owning l) s
   | Owning l \<Rightarrow> Some (set_act (cur s) Free (set_holder l (Some (cur s)) s))
   | Releasing l \<Rightarrow> do { s1 \<leftarrow> sema_up (Of_Lock l) s; Some (set_act (cur s) Free s1) }
   | Wait_Releasing l \<Rightarrow> do { s1 \<leftarrow> sema_up (Of_Lock l) s; Some (set_act (cur s) (Waiting l) s1) }
   | Waiting l \<Rightarrow> down_step (Of_Waiter (cur s)) (Waiting l) (Reacquiring l) s
   | Reacquiring l \<Rightarrow> lock_acquire l s)"

section \<open>Specification\<close>

text \<open>The semaphore a thread is taking at a point of an operation.\<close>

primrec wanted :: "nat \<Rightarrow> activity \<Rightarrow> sema_id option" where
  "wanted t Free = None"
| "wanted t (Downing x) = Some x"
| "wanted t (Acquiring l) = Some (Of_Lock l)"
| "wanted t (Owning l) = None"
| "wanted t (Releasing l) = None"
| "wanted t (Wait_Releasing l) = None"
| "wanted t (Waiting l) = Some (Of_Waiter t)"
| "wanted t (Reacquiring l) = None"

definition wants :: "sys \<Rightarrow> nat \<Rightarrow> sema_id option" where
  "wants s t = wanted t (act s t)"

text \<open>The waiters of the semaphores: threads blocked inside \<open>sema_down\<close> on them, each waiting
  once.\<close>

definition waiters_ok :: "sys \<Rightarrow> bool" where
  "waiters_ok s \<longleftrightarrow> (\<forall>x. distinct (waiters (semas s x)))
     \<and> (\<forall>x t. t \<in> set (waiters (semas s x)) \<longleftrightarrow> wants s t = Some x \<and> blocked (kern s) t)"

text \<open>A thread inside an operation is alive, does not sleep and is not the idle thread. Threads
  outside locks and condition variables down plain semaphores only.\<close>

definition alive :: "kernel \<Rightarrow> nat \<Rightarrow> bool" where
  "alive k t \<longleftrightarrow> stat k t \<noteq> None \<and> stat k t \<noteq> Some THREAD_DYING"

definition quiet :: "kernel \<Rightarrow> nat \<Rightarrow> bool" where
  "quiet k t \<longleftrightarrow> t \<notin> set (sleep_list k) \<and> Some t \<noteq> idle_thread k \<and> alive k t"

fun lock_of :: "activity \<Rightarrow> nat option" where
  "lock_of Free = None"
| "lock_of (Downing x) = None"
| "lock_of (Acquiring l) = Some l"
| "lock_of (Owning l) = Some l"
| "lock_of (Releasing l) = Some l"
| "lock_of (Wait_Releasing l) = Some l"
| "lock_of (Waiting l) = Some l"
| "lock_of (Reacquiring l) = Some l"

fun plain :: "activity \<Rightarrow> bool" where
  "plain (Downing (Sema n)) = True"
| "plain (Downing x) = False"
| "plain a = True"

definition acts_ok :: "sys \<Rightarrow> bool" where
  "acts_ok s \<longleftrightarrow> (\<forall>t. act s t \<noteq> Free \<longrightarrow> quiet (kern s) t) \<and> finite {t. act s t \<noteq> Free}
     \<and> (\<forall>t. plain (act s t)) \<and> (\<forall>t l. lock_of (act s t) = Some l \<longrightarrow> lock_holder s l \<noteq> Some t)"

text \<open>The owners of a lock: its holder, and a thread that has its semaphore without being the
  holder yet or any more.\<close>

definition owners :: "sys \<Rightarrow> nat \<Rightarrow> nat set" where
  "owners s l = {t. lock_holder s l = Some t} \<union> {t. act s t \<in> {Owning l, Releasing l, Wait_Releasing l}}"

definition lock_ok :: "sys \<Rightarrow> nat \<Rightarrow> bool" where
  "lock_ok s l \<longleftrightarrow> (sema_value (semas s (Of_Lock l)) = 1 \<and> owners s l = {})
     \<or> (sema_value (semas s (Of_Lock l)) = 0 \<and> (\<exists>t. owners s l = {t}))"

text \<open>No lost wake-up: while threads wait on a semaphore, every unit of its value is matched by a
  thread that is awake and about to take it.\<close>

definition awake :: "sys \<Rightarrow> sema_id \<Rightarrow> nat set" where
  "awake s x = {t. wants s t = Some x \<and> \<not> blocked (kern s) t}"

definition wakeups_ok :: "sys \<Rightarrow> bool" where
  "wakeups_ok s \<longleftrightarrow> (\<forall>x. waiters (semas s x) \<noteq> [] \<longrightarrow> sema_value (semas s x) \<le> card (awake s x))"

definition core_inv :: "sys \<Rightarrow> bool" where
  "core_inv s \<longleftrightarrow> sched_inv (kern s) \<and> waiters_ok s \<and> acts_ok s \<and> wakeups_ok s"

definition sync_inv :: "sys \<Rightarrow> bool" where
  "sync_inv s \<longleftrightarrow> core_inv s \<and> (\<forall>l. lock_ok s l)"

section \<open>Lemmas on the state\<close>

lemma set_sema_fields [simp]:
  "semas (set_sema x m s) = (semas s)(x := m)" "kern (set_sema x m s) = kern s"
  "lock_holder (set_sema x m s) = lock_holder s" "cond_waiters (set_sema x m s) = cond_waiters s"
  "act (set_sema x m s) = act s" "wants (set_sema x m s) = wants s"
  by (simp_all add: set_sema_def wants_def fun_eq_iff)

lemma set_act_fields [simp]:
  "semas (set_act t a s) = semas s" "kern (set_act t a s) = kern s"
  "lock_holder (set_act t a s) = lock_holder s" "cond_waiters (set_act t a s) = cond_waiters s"
  "act (set_act t a s) = (act s)(t := a)" "wants (set_act t a s) = (wants s)(t := wanted t a)"
  by (simp_all add: set_act_def wants_def fun_eq_iff)

lemma set_holder_fields [simp]:
  "semas (set_holder l h s) = semas s" "kern (set_holder l h s) = kern s"
  "lock_holder (set_holder l h s) = (lock_holder s)(l := h)" "cond_waiters (set_holder l h s) = cond_waiters s"
  "act (set_holder l h s) = act s" "wants (set_holder l h s) = wants s"
  by (simp_all add: set_holder_def wants_def fun_eq_iff)

lemma set_kern_fields [simp]:
  "semas (set_kern k s) = semas s" "kern (set_kern k s) = k"
  "lock_holder (set_kern k s) = lock_holder s" "cond_waiters (set_kern k s) = cond_waiters s"
  "act (set_kern k s) = act s" "wants (set_kern k s) = wants s"
  by (simp_all add: set_kern_def wants_def fun_eq_iff)

lemma set_cond_fields [simp]:
  "semas (set_cond c l s) = semas s" "kern (set_cond c l s) = kern s"
  "lock_holder (set_cond c l s) = lock_holder s" "cond_waiters (set_cond c l s) = (cond_waiters s)(c := l)"
  "act (set_cond c l s) = act s" "wants (set_cond c l s) = wants s"
  by (simp_all add: set_cond_def wants_def fun_eq_iff)

lemma wants_act: "wants s t = Some x \<Longrightarrow> act s t \<noteq> Free"
  by (auto simp: wants_def)

lemma finite_awake: "acts_ok s \<Longrightarrow> finite (awake s x)"
  by (rule finite_subset [of _ "{t. act s t \<noteq> Free}"]) (auto simp: awake_def acts_ok_def dest: wants_act)

section \<open>The kernel below\<close>

text \<open>What a step of the scheduler does to threads that neither run nor sleep nor idle.\<close>

definition keeps :: "nat \<Rightarrow> kernel \<Rightarrow> kernel \<Rightarrow> bool" where
  "keeps t k k' \<longleftrightarrow> (quiet k t \<longrightarrow> quiet k' t \<and> blocked k' t = blocked k t)"

lemma schedule_keeps:
  assumes "pre_schedule k" and "schedule k = Some k'" and "alive k t" and "blocked k t \<longrightarrow> Some t \<noteq> idle_thread k"
  shows "alive k' t \<and> blocked k' t = blocked k t \<and> sleep_list k' = sleep_list k \<and> idle_thread k' = idle_thread k"
proof -
  from schedule_eq [OF assms(1)] assms(2) have k': "sleep_list k' = sleep_list k" "idle_thread k' = idle_thread k"
    "\<And>t. stat k' t = (if t = next_thread k then Some THREAD_RUNNING
          else if t = running k \<and> stat k t = Some THREAD_DYING \<and> t \<noteq> initial_thread k then None else stat k t)" by auto
  have "t = next_thread k \<Longrightarrow> \<not> blocked k t"
    using assms next_thread_idle [of k]
    by (cases "ready_list k") (auto simp: pre_schedule_def next_thread_def ready_ok_def blocked_def)
  with k' assms(3) show ?thesis by (auto simp: alive_def blocked_def)
qed

lemma thread_block_view:
  assumes inv: "sched_inv k"
  shows "\<exists>k'. thread_block k = Some k' \<and> sched_inv k' \<and> (\<forall>t. t \<noteq> running k \<longrightarrow> keeps t k k')
     \<and> (Some (running k) \<noteq> idle_thread k \<longrightarrow> quiet k' (running k) \<and> blocked k' (running k))"
proof -
  let ?k = "set_status (running k) THREAD_BLOCKED k"
  have pre: "pre_schedule ?k" using inv by (rule pre_schedule_leave) simp
  obtain k' where k': "thread_block k = Some k'" "sched_inv k'" using thread_block_inv [OF inv] by blast
  then have s: "schedule ?k = Some k'" using running_facts(5) [OF inv] by (simp add: thread_block_def)
  have "keeps t k k'" if "t \<noteq> running k" for t
    using schedule_keeps [OF pre s, of t] that by (auto simp: keeps_def quiet_def alive_def blocked_def)
  moreover have "Some (running k) \<noteq> idle_thread k \<Longrightarrow> quiet k' (running k) \<and> blocked k' (running k)"
    using schedule_keeps [OF pre s, of "running k"] running_facts [OF inv]
    by (auto simp: quiet_def alive_def blocked_def)
  ultimately show ?thesis using k' by blast
qed

lemma unblock_view:
  assumes inv: "sched_inv k" and t: "quiet k t" "blocked k t"
  shows "\<exists>k'. thread_unblock t k = Some k' \<and> sched_inv k' \<and> running k' = running k
     \<and> quiet k' t \<and> \<not> blocked k' t \<and> (\<forall>u. u \<noteq> t \<longrightarrow> keeps u k k')"
  using thread_unblock_inv [OF inv t(2)] t(1) by (auto simp: quiet_def alive_def keeps_def blocked_def)

text \<open>The steps of the scheduler that are not part of a synchronisation: preemption, and what a
  thread outside every operation does.\<close>

primrec sched_allowed :: "sched_op \<Rightarrow> sys \<Rightarrow> bool" where
  "sched_allowed Yield s = True"
| "sched_allowed Block s = (Some (cur s) = idle_thread (kern s))"
| "sched_allowed Exit s = (act s (cur s) = Free \<and> Some (cur s) \<noteq> idle_thread (kern s))"
| "sched_allowed (Unblock t) s = False"
| "sched_allowed (Sleep n) s = (act s (cur s) = Free \<and> Some (cur s) \<noteq> idle_thread (kern s))"
| "sched_allowed (Create t pri) s = (threads (kern s) t = None \<and> PRI_MIN \<le> pri \<and> pri \<le> PRI_MAX)"
| "sched_allowed (Set_Priority pri) s = True"
| "sched_allowed Tick s = True"

lemma yield_keeps:
  assumes inv: "sched_inv k" and "thread_yield k = Some k'"
  shows "keeps t k k'"
proof -
  have pre: "pre_schedule (requeue k)" by (rule pre_schedule_requeue [OF inv])
  have s: "schedule (requeue k) = Some k'"
    using assms(2) running_facts(5) [OF inv] by (simp add: thread_yield_def requeue_def split: if_splits)
  have "quiet k t \<Longrightarrow> alive (requeue k) t \<and> blocked (requeue k) t = blocked k t"
    using running_facts(1) [OF inv] by (auto simp: requeue_def quiet_def alive_def blocked_def)
  with schedule_keeps [OF pre s, of t] show ?thesis
    by (auto simp: keeps_def quiet_def requeue_def split: if_splits)
qed

lemma leave_keeps:
  assumes inv: "sched_inv k" and "schedule (set_status (running k) st k) = Some k'" and "t \<noteq> running k"
    and "st = THREAD_DYING" and "Some (running k) \<noteq> idle_thread k"
  shows "keeps t k k'"
  using schedule_keeps [OF pre_schedule_leave [OF inv] assms(2), of t] assms(3-)
  by (auto simp: keeps_def quiet_def alive_def blocked_def)

lemma sleep_keeps:
  assumes inv: "sched_inv k" and "thread_sleep k = Some k'" and "t \<noteq> running k"
    and idle: "Some (running k) \<noteq> idle_thread k" and call: "wakeup_call_time k \<le> wake k (running k)"
  shows "keeps t k k'"
proof -
  note p = pre_schedule_sleep [OF inv idle call]
  have s: "schedule (go_to_sleep k) = Some k'" using p(2) assms(2) by simp
  show ?thesis
    using schedule_keeps [OF p(1) s, of t] assms(3)
    by (auto simp: keeps_def quiet_def alive_def blocked_def go_to_sleep_def)
qed

lemma tick_keeps:
  assumes inv: "sched_inv k" and "timer_event k = Some k'"
  shows "keeps t k k'"
proof -
  let ?k = "k\<lparr>yield_on_return := False\<rparr>"
  have "sched_inv ?k" using inv
    by (simp add: sched_inv_def running_ok_def ready_ok_def sleep_ok_def idle_ok_def blocked_def cong: option.case_cong)
  from timer_interrupt_spec [OF this] obtain k1 where k1: "timer_interrupt ?k = Some k1" "sched_inv k1"
    "idle_thread k1 = idle_thread k" "sleep_list k1 = filter (\<lambda>t. ticks k + 1 < wake k t) (sleep_list k)"
    "\<forall>u. stat k1 u = (if u \<in> set (sleep_list k) \<and> wake k u \<le> ticks k + 1 then Some THREAD_READY else stat k u)"
    by auto
  then have "keeps t k k1" by (auto simp: keeps_def quiet_def alive_def blocked_def)
  moreover have "keeps t k1 k'"
  proof (cases "yield_on_return k1")
    case True
    with assms(2) k1(1) have "thread_yield k1 = Some k'" by (simp add: timer_event_def)
    then show ?thesis by (rule yield_keeps [OF k1(2)])
  next
    case False
    with assms(2) k1(1) show ?thesis by (simp add: timer_event_def keeps_def)
  qed
  ultimately show ?thesis by (auto simp: keeps_def)
qed

lemma sched_op_keeps:
  assumes inv: "sched_inv (kern s)" and "sched_allowed oper s"
  shows "\<exists>k'. do_op oper (kern s) = Some k' \<and> sched_inv k' \<and> (\<forall>t. act s t \<noteq> Free \<and> quiet (kern s) t \<longrightarrow> keeps t (kern s) k')"
proof -
  let ?k = "kern s"
  have "allowed oper ?k" using assms(2) by (cases oper) auto
  from do_op_inv [OF inv this] obtain k' where k': "do_op oper ?k = Some k'" "sched_inv k'" by blast
  have "keeps t ?k k'" if t: "act s t \<noteq> Free" "quiet ?k t" for t
  proof (cases oper)
    case Yield with yield_keeps [OF inv] k' show ?thesis by simp
  next
    case Block
    then have "t \<noteq> cur s" using t assms(2) by (auto simp: quiet_def)
    with Block thread_block_view [OF inv] k' show ?thesis by auto
  next
    case Exit
    with k' assms(2) t show ?thesis
      using running_facts(5) [OF inv] by (intro leave_keeps [OF inv _ _ refl]) (auto simp: thread_exit_def)
  next
    case (Sleep n)
    let ?a = "with_alarm (n + ticks ?k) ?k"
    note a = with_alarm_facts [OF inv]
    have "thread_sleep ?a = Some k'" using Sleep k' a(7) [of n] by simp
    then have "keeps t ?a k'" using a Sleep assms(2) t by (intro sleep_keeps [OF a(1)]) auto
    then show ?thesis using a by (simp add: keeps_def quiet_def alive_def blocked_def)
  next
    case (Create u pri)
    with thread_create_inv [OF inv, of u pri] k' assms(2) t show ?thesis
      by (cases "t = u") (auto simp: keeps_def quiet_def alive_def blocked_def threads_None_iff)
  next
    case (Set_Priority pri)
    with k' running_facts(5) [OF inv] show ?thesis
      by (auto simp: thread_set_priority_def keeps_def quiet_def alive_def blocked_def upd_running_view)
  next
    case Tick with tick_keeps [OF inv] k' show ?thesis by simp
  qed (use assms(2) in simp)
  with k' show ?thesis by blast
qed

section \<open>The operations keep the invariants\<close>

lemma core_invD:
  assumes "core_inv s"
  shows "sched_inv (kern s)" "waiters_ok s" "acts_ok s" "wakeups_ok s"
    "\<not> blocked (kern s) (cur s)" "thread_current (kern s) = Some (cur s)"
    "t \<in> set (waiters (semas s x)) \<Longrightarrow> blocked (kern s) t \<and> wants s t = Some x \<and> quiet (kern s) t \<and> t \<noteq> cur s"
proof -
  show inv: "sched_inv (kern s)" "waiters_ok s" "acts_ok s" "wakeups_ok s" using assms by (auto simp: core_inv_def)
  show run: "\<not> blocked (kern s) (cur s)" "thread_current (kern s) = Some (cur s)"
    using running_facts [OF inv(1)] by (auto simp: blocked_def)
  show "t \<in> set (waiters (semas s x)) \<Longrightarrow> blocked (kern s) t \<and> wants s t = Some x \<and> quiet (kern s) t \<and> t \<noteq> cur s"
    using inv(2,3) run(1) wants_act [of s t x] by (auto simp: waiters_ok_def acts_ok_def)
qed

text \<open>A change of the kernel that keeps the threads inside operations as they are.\<close>

lemma kern_core:
  assumes "core_inv s" and "sched_inv k'" and "\<And>t. act s t \<noteq> Free \<Longrightarrow> keeps t (kern s) k'"
  shows "core_inv (set_kern k' s)"
proof -
  note c = core_invD [OF assms(1)]
  have q: "quiet k' t" "blocked k' t = blocked (kern s) t" if "act s t \<noteq> Free" for t
    using that c(3) assms(3) [OF that] by (auto simp: keeps_def acts_ok_def)
  have w: "wants s t = Some x \<Longrightarrow> blocked k' t = blocked (kern s) t" for t x by (auto dest: wants_act q(2))
  have "awake (set_kern k' s) x = awake s x" for x using w by (auto simp: awake_def)
  then have "wakeups_ok (set_kern k' s)" using c(4) by (simp add: wakeups_ok_def)
  moreover have "waiters_ok (set_kern k' s)" using c(2) w by (auto simp: waiters_ok_def)
  moreover have "acts_ok (set_kern k' s)" using c(3) q(1) by (auto simp: acts_ok_def)
  ultimately show ?thesis using assms(2) by (simp add: core_inv_def)
qed

text \<open>A change of the activity of the running thread outside the loops of \<open>sema_down\<close>.\<close>

definition act_fits :: "sys \<Rightarrow> nat \<Rightarrow> activity \<Rightarrow> bool" where
  "act_fits s t a \<longleftrightarrow> plain a \<and> (\<forall>l. lock_of a = Some l \<longrightarrow> lock_holder s l \<noteq> Some t)"

lemma acts_ok_set_act:
  assumes "acts_ok s" and "act_fits s t a" and "a \<noteq> Free \<Longrightarrow> quiet (kern s) t"
  shows "acts_ok (set_act t a s)"
proof -
  have "finite (insert t {u. act s u \<noteq> Free})" using assms(1) by (simp add: acts_ok_def)
  then have "finite {u. ((act s)(t := a)) u \<noteq> Free}" by (rule finite_subset [rotated]) auto
  then show ?thesis using assms by (auto simp: acts_ok_def act_fits_def)
qed

lemma act_core:
  assumes "core_inv s" and "act_fits s (cur s) a" and "a \<noteq> Free \<Longrightarrow> quiet (kern s) (cur s)"
    and "wants s (cur s) = None"
  shows "core_inv (set_act (cur s) a s)"
proof -
  note c = core_invD [OF assms(1)]
  have w: "blocked (kern s) t \<Longrightarrow> t \<noteq> cur s" for t using c(5) by auto
  have "awake s x \<subseteq> awake (set_act (cur s) a s) x" for x using assms(4) by (auto simp: awake_def)
  moreover have "acts_ok (set_act (cur s) a s)" using c(3) assms(2,3) by (rule acts_ok_set_act)
  ultimately have "card (awake s x) \<le> card (awake (set_act (cur s) a s) x)" for x
    by (simp add: card_mono finite_awake)
  then have "wakeups_ok (set_act (cur s) a s)" using c(4) by (auto simp: wakeups_ok_def intro: order_trans)
  moreover have "waiters_ok (set_act (cur s) a s)" using c(2) w by (auto simp: waiters_ok_def)
  ultimately show ?thesis using c(1) \<open>acts_ok (set_act (cur s) a s)\<close> by (simp add: core_inv_def)
qed

lemma holder_core:
  assumes "core_inv s" and "\<And>t. h = Some t \<Longrightarrow> lock_of (act s t) \<noteq> Some l"
  shows "core_inv (set_holder l h s)"
  using assms by (auto simp: core_inv_def waiters_ok_def acts_ok_def wakeups_ok_def awake_def)

lemma cond_core: "core_inv (set_cond c l s) = core_inv s"
  by (simp add: core_inv_def waiters_ok_def acts_ok_def wakeups_ok_def awake_def)

lemma sema_init_core:
  assumes "core_inv s" and "\<And>t. wants s t \<noteq> Some x"
  shows "core_inv (sema_init x v s)"
proof -
  note c = core_invD(1-4) [OF assms(1)]
  have "waiters_ok (sema_init x v s)" using c(2) assms(2) by (simp add: waiters_ok_def sema_init_def)
  moreover have "wakeups_ok (sema_init x v s)" using c(4) by (simp add: wakeups_ok_def awake_def sema_init_def)
  moreover have "acts_ok (sema_init x v s)" using c(3) by (simp add: acts_ok_def sema_init_def)
  ultimately show ?thesis using c(1) by (simp add: core_inv_def sema_init_def)
qed

lemma value_core:
  assumes "core_inv s" and "waiters (semas s x) \<noteq> [] \<Longrightarrow> v \<le> card (awake s x)"
  shows "core_inv (set_sema x ((semas s x)\<lparr>sema_value := v\<rparr>) s)"
  using core_invD(1-4) [OF assms(1)] assms(2)
  by (auto simp: core_inv_def waiters_ok_def acts_ok_def wakeups_ok_def awake_def)

text \<open>\<open>sema_up\<close>: the first waiter wakes and the value goes up; nothing else changes.\<close>

lemma sema_up_core:
  assumes core: "core_inv s"
  shows "\<exists>s'. sema_up x s = Some s' \<and> core_inv s' \<and> act s' = act s \<and> lock_holder s' = lock_holder s
     \<and> cond_waiters s' = cond_waiters s \<and> cur s' = cur s \<and> idle_thread (kern s') = idle_thread (kern s)
     \<and> waiters (semas s' x) = tl (waiters (semas s x))
     \<and> (\<forall>y. sema_value (semas s' y) = sema_value (semas s y) + (if y = x then 1 else 0))"
proof (cases "waiters (semas s x)")
  case Nil
  then show ?thesis using value_core [OF core, of x "sema_value (semas s x) + 1"]
    by (auto simp: sema_up_def Let_def)
next
  case (Cons t l)
  note c = core_invD [OF core]
  have t: "blocked (kern s) t" "wants s t = Some x" "quiet (kern s) t" using c(7) [of t x] Cons by auto
  from unblock_view [OF c(1) t(3,1)] obtain k' where k': "thread_unblock t (kern s) = Some k'" "sched_inv k'"
    "running k' = cur s" "quiet k' t" "\<not> blocked k' t" "\<forall>u. u \<noteq> t \<longrightarrow> keeps u (kern s) k'" by blast
  have idle: "idle_thread k' = idle_thread (kern s)"
    using k'(1) by (auto simp: thread_unblock_def bind_Some_iff kassert_Some_iff)
  define s' where "s' = set_kern k' (set_sema x \<lparr>sema_value = sema_value (semas s x) + 1, waiters = l\<rparr> s)"
  have b: "blocked k' u \<longleftrightarrow> u \<noteq> t \<and> blocked (kern s) u" "quiet k' u" if "act s u \<noteq> Free" for u
    using that k'(4-6) c(3) by (auto simp: keeps_def acts_ok_def)
  have w: "wants s u = Some y \<Longrightarrow> blocked k' u \<longleftrightarrow> u \<noteq> t \<and> blocked (kern s) u" for u y
    using wants_act [of s u y] b by blast
  have acts: "acts_ok s'" using c(3) b(2) by (auto simp: acts_ok_def s'_def)
  have "t \<notin> set l" "distinct l" using c(2) Cons unfolding waiters_ok_def by (metis distinct.simps(2))+
  then have wait: "waiters_ok s'" using c(2) t(2) w Cons unfolding waiters_ok_def s'_def
    by (auto simp del: not_None_eq) (metis list.set_intros set_ConsD)+
  have "awake s' x = insert t (awake s x)" "t \<notin> awake s x" using w t by (auto simp: awake_def s'_def)
  then have "card (awake s' x) = card (awake s x) + 1" using finite_awake [OF c(3)] by simp
  moreover have "awake s' y = awake s y" if "y \<noteq> x" for y using that w t by (auto simp: awake_def s'_def)
  ultimately have "wakeups_ok s'" using c(4) Cons by (auto simp: wakeups_ok_def s'_def)
  with acts wait k'(2) have "core_inv s'" by (simp add: core_inv_def s'_def)
  then show ?thesis using k' Cons idle by (auto simp: sema_up_def Let_def s'_def)
qed

text \<open>An iteration of \<open>sema_down\<close>: the running thread takes a unit, or waits.\<close>

lemma down_step_core:
  assumes core: "core_inv s" and quiet: "quiet (kern s) (cur s)"
    and stay: "wanted (cur s) stay = Some x" "act_fits s (cur s) stay"
    and go: "wanted (cur s) go = None" "act_fits s (cur s) go"
    and now: "wants s (cur s) = None \<or> wants s (cur s) = Some x"
  shows "\<exists>s'. down_step x stay go s = Some s' \<and> core_inv s' \<and> lock_holder s' = lock_holder s
     \<and> cond_waiters s' = cond_waiters s
     \<and> (\<forall>y. sema_value (semas s' y) = sema_value (semas s y) - (if y = x then 1 else 0))
     \<and> act s' = (act s)(cur s := if sema_value (semas s x) = 0 then stay else go)"
proof (cases "sema_value (semas s x)")
  case (Suc v)
  note c = core_invD [OF core]
  let ?m = "(semas s x)\<lparr>sema_value := v\<rparr>"
  define s' where "s' = set_act (cur s) go (set_sema x ?m s)"
  have acts: "acts_ok s'" using acts_ok_set_act [OF c(3) go(2)] quiet by (simp add: s'_def acts_ok_def)
  have wait: "waiters_ok s'" using c(2,5) go(1) by (auto simp: waiters_ok_def s'_def)
  have aw: "awake s' y = awake s y - {cur s}" for y using go(1) by (auto simp: awake_def s'_def)
  have "sema_value (semas s' y) \<le> card (awake s' y)" if "waiters (semas s' y) \<noteq> []" for y
  proof (cases "y = x")
    case True
    then have "Suc v \<le> card (awake s x)" using c(4) that Suc by (simp add: wakeups_ok_def s'_def) metis
    moreover have "card (awake s x) \<le> Suc (card (awake s x - {cur s}))"
    proof -
      have "n \<le> Suc (n - 1)" for n :: nat by arith
      then show ?thesis by (simp add: card_Diff_singleton_if)
    qed
    ultimately show ?thesis using True aw [of x] by (simp add: s'_def)
  next
    case False
    then have "awake s' y = awake s y" using aw now by (auto simp: awake_def)
    with False c(4) that show ?thesis by (simp add: wakeups_ok_def s'_def)
  qed
  then have "core_inv s'" using c(1) acts wait by (simp add: core_inv_def wakeups_ok_def s'_def)
  then show ?thesis using Suc c(6) by (simp add: down_step_def sema_down_iter_def Let_def s'_def)
next
  case 0
  note c = core_invD [OF core]
  from thread_block_view [OF c(1)] quiet obtain k' where k': "thread_block (kern s) = Some k'" "sched_inv k'"
    "\<forall>t. t \<noteq> cur s \<longrightarrow> keeps t (kern s) k'" "quiet k' (cur s)" "blocked k' (cur s)" by (auto simp: quiet_def)
  let ?m = "(semas s x)\<lparr>waiters := waiters (semas s x) @ [cur s]\<rparr>"
  define s1 where "s1 = set_kern k' (set_sema x ?m s)"
  define s' where "s' = set_act (cur s) stay s1"
  have b: "blocked k' t \<longleftrightarrow> t = cur s \<or> blocked (kern s) t" "quiet k' t" if "act s t \<noteq> Free" for t
    using that k'(3-5) c(3) by (cases "t = cur s"; auto simp: keeps_def acts_ok_def)+
  have w: "wants s t = Some y \<Longrightarrow> blocked k' t \<longleftrightarrow> t = cur s \<or> blocked (kern s) t" for t y
    using wants_act [of s t y] b by blast
  have "acts_ok s1" using c(3) b(2) by (auto simp: acts_ok_def s1_def)
  then have acts: "acts_ok s'" unfolding s'_def
    by (rule acts_ok_set_act) (use stay(2) k'(4) in \<open>simp_all add: act_fits_def s1_def\<close>)
  have wait: "waiters_ok s'" using c(2,5) k'(5) stay(1) w now by (auto simp: waiters_ok_def s'_def s1_def)
  have "awake s' y = awake s y" if "y \<noteq> x" for y
    using that w stay(1) now k'(5) by (auto simp: awake_def s'_def s1_def)
  then have "wakeups_ok s'" using c(4) 0 by (simp add: wakeups_ok_def s'_def s1_def)
  then have "core_inv s'" using k'(2) acts wait by (simp add: core_inv_def s'_def s1_def)
  then show ?thesis using 0 c(6) k'(1) by (simp add: down_step_def sema_down_iter_def Let_def s'_def s1_def)
qed

section \<open>Runs\<close>

text \<open>The steps of the system: the scheduler's, the start of an operation by the running thread,
  and its continuation. Locks are acquired and waits are started by threads outside every
  operation, as the assertions of the code demand of their callers.\<close>

datatype sync_op = Sched sched_op | Down nat | Try_Down nat | Up nat | Acquire nat | Try_Acquire nat
  | Release nat | Wait nat nat | Signal nat nat | Broadcast nat nat | Resume

primrec do_sync :: "sync_op \<Rightarrow> sys \<Rightarrow> sys option" where
  "do_sync (Sched oper) s = map_option (\<lambda>k. set_kern k s) (do_op oper (kern s))"
| "do_sync (Down n) s = sema_down (Sema n) s"
| "do_sync (Try_Down n) s = Some (snd (sema_try_down (Sema n) s))"
| "do_sync (Up n) s = sema_up (Sema n) s"
| "do_sync (Acquire l) s = lock_acquire l s"
| "do_sync (Try_Acquire l) s = map_option snd (lock_try_acquire l s)"
| "do_sync (Release l) s = lock_release l s"
| "do_sync (Wait c l) s = cond_wait c l s"
| "do_sync (Signal c l) s = cond_signal c l s"
| "do_sync (Broadcast c l) s = cond_broadcast c l s"
| "do_sync Resume s = resume s"

definition caller :: "sys \<Rightarrow> bool" where
  "caller s \<longleftrightarrow> act s (cur s) = Free \<and> Some (cur s) \<noteq> idle_thread (kern s)"

primrec sync_allowed :: "sync_op \<Rightarrow> sys \<Rightarrow> bool" where
  "sync_allowed (Sched oper) s = sched_allowed oper s"
| "sync_allowed (Down n) s = caller s"
| "sync_allowed (Try_Down n) s = True"
| "sync_allowed (Up n) s = True"
| "sync_allowed (Acquire l) s = (caller s \<and> \<not> lock_held_by_current_thread l s)"
| "sync_allowed (Try_Acquire l) s = (caller s \<and> \<not> lock_held_by_current_thread l s)"
| "sync_allowed (Release l) s = (caller s \<and> lock_held_by_current_thread l s)"
| "sync_allowed (Wait c l) s = (caller s \<and> lock_held_by_current_thread l s)"
| "sync_allowed (Signal c l) s = (caller s \<and> lock_held_by_current_thread l s)"
| "sync_allowed (Broadcast c l) s = (caller s \<and> lock_held_by_current_thread l s)"
| "sync_allowed Resume s = (act s (cur s) \<noteq> Free)"

inductive sreach :: "sys \<Rightarrow> sys \<Rightarrow> bool" for s0 where
  sstart: "sreach s0 s0"
| sstep: "sreach s0 s \<Longrightarrow> sync_allowed oper s \<Longrightarrow> do_sync oper s = Some s' \<Longrightarrow> sreach s0 s'"

lemma quiet_caller: "core_inv s \<Longrightarrow> caller s \<Longrightarrow> quiet (kern s) (cur s) \<and> wants s (cur s) = None"
  using core_invD(1) [of s] running_facts [of "kern s"]
  by (auto simp: caller_def quiet_def alive_def wants_def)

lemma quiet_act: "core_inv s \<Longrightarrow> act s t \<noteq> Free \<Longrightarrow> quiet (kern s) t"
  using core_invD(3) [of s] by (auto simp: acts_ok_def)

lemma owners_cong:
  assumes "lock_holder s' l = lock_holder s l"
    and "\<And>t. act s' t \<in> {Owning l, Releasing l, Wait_Releasing l} \<longleftrightarrow> act s t \<in> {Owning l, Releasing l, Wait_Releasing l}"
  shows "owners s' l = owners s l"
  using assms by (auto simp: owners_def)

text \<open>A step of \<open>sema_down\<close> on a semaphore that is not a lock's, by a thread that owns no lock in
  between.\<close>

lemma plain_down_inv:
  assumes inv: "sync_inv s" and quiet: "quiet (kern s) (cur s)"
    and stay: "wanted (cur s) stay = Some x" "act_fits s (cur s) stay"
    and go: "wanted (cur s) go = None" "act_fits s (cur s) go"
    and now: "wants s (cur s) = None \<or> wants s (cur s) = Some x"
    and x: "\<And>l. x \<noteq> Of_Lock l"
    and none: "\<And>a l. a \<in> {stay, go, act s (cur s)} \<Longrightarrow> a \<notin> {Owning l, Releasing l, Wait_Releasing l}"
  shows "\<exists>s'. down_step x stay go s = Some s' \<and> sync_inv s'"
proof -
  have core: "core_inv s" and lock: "lock_ok s l" for l using inv by (auto simp: sync_inv_def)
  from down_step_core [OF core quiet stay go now] obtain s' where
    s': "down_step x stay go s = Some s'" "core_inv s'" "lock_holder s' = lock_holder s"
    "\<And>y. sema_value (semas s' y) = sema_value (semas s y) - (if y = x then 1 else 0)"
    "act s' = (act s)(cur s := if sema_value (semas s x) = 0 then stay else go)" by blast
  have "owners s' l = owners s l" for l
    using s'(3,5) none [of stay l] none [of go l] none [of "act s (cur s)" l] by (intro owners_cong) auto
  moreover have "sema_value (semas s' (Of_Lock l)) = sema_value (semas s (Of_Lock l))" for l
    using s'(4) x [of l] by simp
  ultimately have "lock_ok s' l" for l using lock [of l] by (simp add: lock_ok_def)
  with s' show ?thesis by (auto simp: sync_inv_def)
qed

text \<open>A step of \<open>lock_acquire\<close>.\<close>

lemma lock_down_inv:
  assumes inv: "sync_inv s" and quiet: "quiet (kern s) (cur s)"
    and now: "wants s (cur s) = None \<or> wants s (cur s) = Some (Of_Lock l)"
    and free: "lock_holder s l \<noteq> Some (cur s)"
    and none: "\<And>m. act s (cur s) \<notin> {Owning m, Releasing m, Wait_Releasing m}"
  shows "\<exists>s'. down_step (Of_Lock l) (Acquiring l) (Owning l) s = Some s' \<and> sync_inv s'"
proof -
  have core: "core_inv s" and lock: "lock_ok s m" for m using inv by (auto simp: sync_inv_def)
  have fits: "act_fits s (cur s) (Acquiring l)" "act_fits s (cur s) (Owning l)" using free by (auto simp: act_fits_def)
  from down_step_core [OF core quiet _ fits(1) _ fits(2) now] obtain s' where
    s': "down_step (Of_Lock l) (Acquiring l) (Owning l) s = Some s'" "core_inv s'" "lock_holder s' = lock_holder s"
    "\<And>y. sema_value (semas s' y) = sema_value (semas s y) - (if y = Of_Lock l then 1 else 0)"
    "act s' = (act s)(cur s := if sema_value (semas s (Of_Lock l)) = 0 then Acquiring l else Owning l)" by auto
  have "lock_ok s' m" for m
  proof (cases "m = l \<and> sema_value (semas s (Of_Lock l)) \<noteq> 0")
    case True
    with lock [of l] have "sema_value (semas s (Of_Lock l)) = 1" "owners s l = {}" by (auto simp: lock_ok_def)
    moreover have "owners s' l = insert (cur s) (owners s l)" using s'(3,5) calculation by (auto simp: owners_def)
    ultimately show ?thesis using True s'(4) by (simp add: lock_ok_def)
  next
    case False
    then have "owners s' m = owners s m" using s'(3,5) none [of m] by (intro owners_cong) auto
    with False lock [of m] s'(4) show ?thesis by (auto simp: lock_ok_def)
  qed
  with s' show ?thesis by (auto simp: sync_inv_def)
qed

text \<open>The end of \<open>lock_release\<close>: the semaphore goes up, and the releasing thread owns nothing.\<close>

lemma lock_up_inv:
  assumes inv: "sync_inv s" and rel: "act s (cur s) = Releasing l \<or> act s (cur s) = Wait_Releasing l"
    and a: "a = Free \<or> a = Waiting l"
  shows "\<exists>s1. sema_up (Of_Lock l) s = Some s1 \<and> sync_inv (set_act (cur s) a s1) \<and> cur s1 = cur s"
proof -
  have core: "core_inv s" and lock: "lock_ok s m" for m using inv by (auto simp: sync_inv_def)
  have quiet: "quiet (kern s) (cur s)" using quiet_act [OF core, of "cur s"] rel by auto
  have own: "cur s \<in> owners s l" using rel by (auto simp: owners_def)
  then have l: "sema_value (semas s (Of_Lock l)) = 0" "owners s l = {cur s}" using lock [of l] by (auto simp: lock_ok_def)
  from sema_up_core [OF core, of "Of_Lock l"] obtain s1 where s1: "sema_up (Of_Lock l) s = Some s1" "core_inv s1"
    "act s1 = act s" "lock_holder s1 = lock_holder s" "cur s1 = cur s"
    "\<And>y. sema_value (semas s1 y) = sema_value (semas s y) + (if y = Of_Lock l then 1 else 0)" by blast
  have nh: "lock_holder s l \<noteq> Some (cur s)"
    using rel core_invD(3) [OF core] by (auto simp: acts_ok_def)
  have "wants s1 (cur s) = None" using rel s1(3) by (auto simp: wants_def)
  moreover have "quiet (kern s1) (cur s1)" using quiet_act [OF s1(2), of "cur s"] rel s1(3,5) by auto
  ultimately have "core_inv (set_act (cur s1) a s1)"
    using nh a s1 by (intro act_core) (auto simp: act_fits_def)
  moreover have "lock_ok (set_act (cur s) a s1) m" for m
  proof (cases "m = l")
    case True
    have "owners (set_act (cur s) a s1) l = owners s l - {cur s}"
      using s1(3,4) a nh by (auto simp: owners_def)
    with True l s1(6) show ?thesis by (simp add: lock_ok_def)
  next
    case False
    then have "owners (set_act (cur s) a s1) m = owners s m" using s1(3,4) a rel by (intro owners_cong) auto
    with False lock [of m] s1(6) show ?thesis by (auto simp: lock_ok_def)
  qed
  ultimately show ?thesis using s1 by (auto simp: sync_inv_def)
qed

lemma lock_ok_cong:
  assumes "lock_ok s l" and "sema_value (semas s' (Of_Lock l)) = sema_value (semas s (Of_Lock l))"
    and "owners s' l = owners s l"
  shows "lock_ok s' l"
  using assms by (simp add: lock_ok_def)

lemma sema_up_inv:
  assumes inv: "sync_inv s" and x: "\<And>l. x \<noteq> Of_Lock l"
  shows "\<exists>s'. sema_up x s = Some s' \<and> sync_inv s' \<and> act s' = act s \<and> lock_holder s' = lock_holder s
     \<and> cond_waiters s' = cond_waiters s \<and> cur s' = cur s \<and> idle_thread (kern s') = idle_thread (kern s)"
proof -
  have core: "core_inv s" and lock: "lock_ok s m" for m using inv by (auto simp: sync_inv_def)
  from sema_up_core [OF core, of x] obtain s' where s': "sema_up x s = Some s'" "core_inv s'"
    "act s' = act s" "lock_holder s' = lock_holder s" "cond_waiters s' = cond_waiters s" "cur s' = cur s"
    "idle_thread (kern s') = idle_thread (kern s)"
    "\<And>y. sema_value (semas s' y) = sema_value (semas s y) + (if y = x then 1 else 0)" by blast
  have "lock_ok s' l" for l
    using s'(8) [of "Of_Lock l"] x [of l] s'(3,4)
    by (intro lock_ok_cong [OF lock]) (auto simp: owners_def)
  with s' show ?thesis by (auto simp: sync_inv_def)
qed

text \<open>The steps that release a lock or store its holder.\<close>

lemma release_inv:
  assumes inv: "sync_inv s" and c: "caller s" and held: "lock_held_by_current_thread l s"
    and a: "a = Releasing l \<or> a = Wait_Releasing l"
  shows "sync_inv (set_act (cur s) a (set_holder l None s))"
proof -
  have core: "core_inv s" and lock: "lock_ok s m" for m using inv by (auto simp: sync_inv_def)
  let ?s = "set_holder l None s"
  have "core_inv ?s" using core by (rule holder_core) simp
  moreover have "quiet (kern s) (cur s)" "wants s (cur s) = None" using quiet_caller [OF core c] by auto
  ultimately have "core_inv (set_act (cur ?s) a ?s)"
    using a by (intro act_core) (auto simp: act_fits_def)
  moreover have "owners (set_act (cur s) a ?s) m = owners s m" for m
    using held c a by (auto simp: owners_def lock_held_by_current_thread_def caller_def)
  then have "lock_ok (set_act (cur s) a ?s) m" for m by (intro lock_ok_cong [OF lock]) simp_all
  ultimately show ?thesis by (simp add: sync_inv_def)
qed

lemma store_holder_inv:
  assumes inv: "sync_inv s" and own: "act s (cur s) = Owning l"
  shows "sync_inv (set_act (cur s) Free (set_holder l (Some (cur s)) s))"
proof -
  have core: "core_inv s" and lock: "lock_ok s m" for m using inv by (auto simp: sync_inv_def)
  let ?a = "set_act (cur s) Free s"
  let ?s = "set_act (cur s) Free (set_holder l (Some (cur s)) s)"
  have "core_inv ?a" using core own by (intro act_core) (auto simp: act_fits_def wants_def)
  then have "core_inv (set_holder l (Some (cur s)) ?a)" by (rule holder_core) simp
  moreover have "set_holder l (Some (cur s)) ?a = ?s" by (simp add: set_holder_def set_act_def)
  moreover have "cur s \<in> owners s l" using own by (simp add: owners_def)
  then have l: "owners s l = {cur s}" using lock [of l] by (auto simp: lock_ok_def)
  have "owners ?s m = owners s m" for m
  proof (cases "m = l")
    case True with l show ?thesis by (auto simp: owners_def)
  next
    case False with own show ?thesis by (intro owners_cong) auto
  qed
  then have "lock_ok ?s m" for m by (intro lock_ok_cong [OF lock]) simp_all
  ultimately show ?thesis by (simp add: sync_inv_def)
qed

lemma try_down_core:
  assumes "core_inv s"
  shows "core_inv (snd (sema_try_down x s))"
proof -
  have "waiters (semas s x) \<noteq> [] \<Longrightarrow> sema_value (semas s x) - 1 \<le> card (awake s x)"
    using core_invD(4) [OF assms] by (meson diff_le_self order_trans wakeups_ok_def)
  from value_core [OF assms this] assms show ?thesis by (simp add: sema_try_down_def Let_def)
qed

lemma sema_try_down_fields [simp]:
  "act (snd (sema_try_down x s)) = act s" "kern (snd (sema_try_down x s)) = kern s"
  "lock_holder (snd (sema_try_down x s)) = lock_holder s" "wants (snd (sema_try_down x s)) = wants s"
  "sema_value (semas (snd (sema_try_down x s)) y) = sema_value (semas s y) - (if y = x then 1 else 0)"
  "fst (sema_try_down x s) \<longleftrightarrow> 0 < sema_value (semas s x)"
  by (simp_all add: sema_try_down_def Let_def)

lemma try_acquire_inv:
  assumes inv: "sync_inv s" and c: "caller s" and free: "\<not> lock_held_by_current_thread l s"
  shows "\<exists>ok s'. lock_try_acquire l s = Some (ok, s') \<and> sync_inv s' \<and> (ok \<longleftrightarrow> owners s l = {})"
proof -
  have core: "core_inv s" and lock: "lock_ok s m" for m using inv by (auto simp: sync_inv_def)
  obtain ok s1 where t: "sema_try_down (Of_Lock l) s = (ok, s1)" by (cases "sema_try_down (Of_Lock l) s")
  note f = sema_try_down_fields [of "Of_Lock l" s, unfolded t, simplified]
  have ok: "ok \<longleftrightarrow> owners s l = {}" using f(6) lock [of l] by (auto simp: lock_ok_def)
  have core1: "core_inv s1" using try_down_core [OF core, of "Of_Lock l"] t by simp
  have q: "quiet (kern s) (cur s)" "wants s (cur s) = None" "act s (cur s) = Free"
    using quiet_caller [OF core c] c by (auto simp: caller_def)
  let ?s = "if ok then set_act (cur s) (Owning l) s1 else s1"
  have "core_inv (set_act (cur s1) (Owning l) s1)"
    using core1 q f free by (intro act_core) (auto simp: act_fits_def lock_held_by_current_thread_def)
  then have "core_inv ?s" using core1 f by simp
  moreover have "lock_ok ?s m" for m
  proof (cases "ok \<and> m = l")
    case True
    then have "owners ?s m = {cur s}" using ok f q by (auto simp: owners_def)
    moreover have "sema_value (semas s (Of_Lock l)) = 1" using True ok lock [of l] by (auto simp: lock_ok_def)
    ultimately show ?thesis using True f(5) by (simp add: lock_ok_def)
  next
    case False
    then have "owners ?s m = owners s m" using f q by (intro owners_cong) auto
    moreover have "sema_value (semas ?s (Of_Lock m)) = sema_value (semas s (Of_Lock m))"
      using False f(5,6) by auto
    ultimately show ?thesis by (intro lock_ok_cong [OF lock])
  qed
  ultimately have "sync_inv ?s" by (simp add: sync_inv_def)
  moreover have "lock_try_acquire l s = Some (ok, ?s)"
    using free t by (simp add: lock_try_acquire_def kassert_def)
  ultimately show ?thesis using ok by blast
qed

text \<open>Signals: \<open>sema_up\<close> on the semaphores of the first waiters of the condition.\<close>

lemma sync_inv_cond [simp]: "sync_inv (set_cond c l s) = sync_inv s"
  by (simp add: sync_inv_def cond_core lock_ok_def owners_def)

lemma signal_inv:
  assumes inv: "sync_inv s" and held: "lock_held_by_current_thread l s"
  shows "\<exists>s'. cond_signal c l s = Some s' \<and> sync_inv s' \<and> lock_held_by_current_thread l s'
     \<and> act s' = act s \<and> cond_waiters s' = (cond_waiters s)(c := tl (cond_waiters s c))"
proof (cases "cond_waiters s c")
  case Nil
  then have "(cond_waiters s)(c := []) = cond_waiters s" by (auto simp: fun_eq_iff)
  with Nil inv held show ?thesis by (simp add: cond_signal_def kassert_def)
next
  case (Cons t r)
  from sema_up_inv [of "set_cond c r s" "Of_Waiter t"] inv Cons held show ?thesis
    by (auto simp: cond_signal_def kassert_def lock_held_by_current_thread_def)
qed

lemma broadcast_inv:
  assumes "sync_inv s" and "lock_held_by_current_thread l s" and "length (cond_waiters s c) \<le> n"
  shows "\<exists>s'. broadcast_loop n c l s = Some s' \<and> sync_inv s' \<and> cond_waiters s' c = []
     \<and> act s' = act s \<and> lock_held_by_current_thread l s'"
  using assms
proof (induction n arbitrary: s)
  case (Suc n)
  show ?case
  proof (cases "cond_waiters s c = []")
    case False
    from signal_inv [OF Suc.prems(1,2), of c] obtain s1 where s1: "cond_signal c l s = Some s1" "sync_inv s1"
      "lock_held_by_current_thread l s1" "act s1 = act s" "cond_waiters s1 c = tl (cond_waiters s c)" by auto
    from Suc.IH [OF s1(2,3)] Suc.prems(3) s1 False show ?thesis by auto
  qed (use Suc.prems in simp)
qed simp

lemma wait_inv:
  assumes inv: "sync_inv s" and c: "caller s" and held: "lock_held_by_current_thread l s"
  shows "\<exists>s'. cond_wait v l s = Some s' \<and> sync_inv s'"
proof -
  have core: "core_inv s" using inv by (simp add: sync_inv_def)
  let ?w = "Of_Waiter (cur s)"
  let ?s1 = "sema_init ?w 0 s"
  have "wants s t \<noteq> Some ?w" for t
  proof (cases "act s t")
    case (Downing x)
    moreover have "plain (act s t)" using core_invD(3) [OF core] by (simp add: acts_ok_def)
    ultimately show ?thesis by (cases x) (simp_all add: wants_def)
  qed (use c in \<open>auto simp: wants_def caller_def\<close>)
  with core have "core_inv ?s1" by (rule sema_init_core)
  moreover have "lock_ok ?s1 m" for m using inv by (simp add: sync_inv_def lock_ok_def owners_def sema_init_def)
  ultimately have inv1: "sync_inv ?s1" by (simp add: sync_inv_def)
  let ?s2 = "set_cond v (cond_waiters ?s1 v @ [cur s]) ?s1"
  have f: "cur ?s2 = cur s" "caller ?s2" "lock_held_by_current_thread l ?s2"
    using c held by (simp_all add: sema_init_def caller_def lock_held_by_current_thread_def)
  have "sync_inv (set_act (cur ?s2) (Wait_Releasing l) (set_holder l None ?s2))"
    using inv1 f by (intro release_inv) simp_all
  with held show ?thesis by (simp add: cond_wait_def Let_def kassert_def f(1) del: set_cond_fields)
qed

lemma resume_inv:
  assumes inv: "sync_inv s" and a: "act s (cur s) \<noteq> Free"
  shows "\<exists>s'. resume s = Some s' \<and> sync_inv s'"
proof -
  have core: "core_inv s" using inv by (simp add: sync_inv_def)
  have q: "quiet (kern s) (cur s)" by (rule quiet_act [OF core a])
  have acts: "plain (act s (cur s))" "\<And>l. lock_of (act s (cur s)) = Some l \<Longrightarrow> lock_holder s l \<noteq> Some (cur s)"
    using core_invD(3) [OF core] by (auto simp: acts_ok_def)
  show ?thesis
  proof (cases "act s (cur s)")
    case (Downing x)
    then obtain n where "x = Sema n" using acts(1) by (cases x) auto
    with Downing plain_down_inv [OF inv q, of "Downing x" x Free] show ?thesis
      by (auto simp: resume_def wants_def act_fits_def)
  next
    case (Acquiring l)
    with lock_down_inv [OF inv q, of l] acts(2) show ?thesis by (auto simp: resume_def wants_def)
  next
    case (Owning l)
    with store_holder_inv [OF inv] show ?thesis by (simp add: resume_def)
  next
    case (Releasing l)
    with lock_up_inv [OF inv, of l Free] show ?thesis by (auto simp: resume_def)
  next
    case (Wait_Releasing l)
    with lock_up_inv [OF inv, of l "Waiting l"] show ?thesis by (auto simp: resume_def)
  next
    case (Waiting l)
    with plain_down_inv [OF inv q, of "Waiting l" "Of_Waiter (cur s)" "Reacquiring l"] acts(2) show ?thesis
      by (auto simp: resume_def wants_def act_fits_def)
  next
    case (Reacquiring l)
    with lock_down_inv [OF inv q, of l] acts(2) show ?thesis
      by (auto simp: resume_def wants_def lock_acquire_def kassert_def lock_held_by_current_thread_def)
  qed (use a in simp)
qed

lemma do_sync_inv:
  assumes inv: "sync_inv s" and ok: "sync_allowed oper s"
  shows "\<exists>s'. do_sync oper s = Some s' \<and> sync_inv s'"
proof -
  have core: "core_inv s" and lock: "lock_ok s m" for m using inv by (auto simp: sync_inv_def)
  note q = quiet_caller [OF core]
  show ?thesis
  proof (cases oper)
    case (Sched x)
    with sched_op_keeps [OF core_invD(1) [OF core], of x] ok obtain k' where k': "do_op x (kern s) = Some k'"
      "sched_inv k'" "\<forall>t. act s t \<noteq> Free \<and> quiet (kern s) t \<longrightarrow> keeps t (kern s) k'" by auto
    then have "core_inv (set_kern k' s)" using quiet_act [OF core] by (intro kern_core [OF core]) auto
    with k' lock Sched show ?thesis by (simp add: sync_inv_def lock_ok_def owners_def)
  next
    case (Down n)
    with ok q plain_down_inv [OF inv, of "Downing (Sema n)" "Sema n" Free] show ?thesis
      by (auto simp: sema_down_def act_fits_def caller_def)
  next
    case (Try_Down n)
    with try_down_core [OF core, of "Sema n"] lock show ?thesis by (simp add: sync_inv_def lock_ok_def owners_def)
  next
    case (Up n)
    with sema_up_inv [OF inv, of "Sema n"] show ?thesis by auto
  next
    case (Acquire l)
    with ok q lock_down_inv [OF inv, of l] show ?thesis
      by (auto simp: lock_acquire_def kassert_def lock_held_by_current_thread_def caller_def)
  next
    case (Try_Acquire l)
    with ok try_acquire_inv [OF inv, of l] show ?thesis by auto
  next
    case (Release l)
    with ok release_inv [OF inv, of l "Releasing l"] show ?thesis by (simp add: lock_release_def kassert_def)
  next
    case (Wait v l)
    with ok wait_inv [OF inv] show ?thesis by simp
  next
    case (Signal v l)
    with ok signal_inv [OF inv, of l v] show ?thesis by auto
  next
    case (Broadcast v l)
    with ok broadcast_inv [OF inv, of l v] show ?thesis by (auto simp: cond_broadcast_def)
  next
    case Resume
    with ok resume_inv [OF inv] show ?thesis by simp
  qed
qed

lemma sreach_inv: "sreach s0 s \<Longrightarrow> sync_inv s0 \<Longrightarrow> sync_inv s"
  by (induction rule: sreach.induct) (use do_sync_inv in fastforce)+

section \<open>Properties\<close>

text \<open>C11. Mutual exclusion and safety of the synchronisation primitives. In every state that the
  kernel reaches by running operations on semaphores, locks and condition variables, with
  preemption at every point where interrupts are on, a lock has at most one owner, where a thread
  is an owner from the moment it takes the lock's semaphore until it gives it back; the lock's
  semaphore is positive exactly when nobody owns it; and no operation that may be called next, nor
  the continuation of one that was interrupted, fails an assertion.\<close>

theorem lock_mutual_exclusion:
  assumes "sync_inv s0" and "sreach s0 s"
  shows "(\<forall>l t u. t \<in> owners s l \<longrightarrow> u \<in> owners s l \<longrightarrow> t = u)
     \<and> (\<forall>l. 0 < sema_value (semas s (Of_Lock l)) \<longleftrightarrow> owners s l = {})
     \<and> (\<forall>oper. sync_allowed oper s \<longrightarrow> (\<exists>s'. do_sync oper s = Some s'))"
proof -
  have inv: "sync_inv s" by (rule sreach_inv [OF assms(2,1)])
  then have lock: "lock_ok s l" for l by (simp add: sync_inv_def)
  have "t = u" if "t \<in> owners s l" "u \<in> owners s l" for l t u
    using lock [of l] that by (auto simp: lock_ok_def)
  moreover have "0 < sema_value (semas s (Of_Lock l)) \<longleftrightarrow> owners s l = {}" for l
    using lock [of l] by (auto simp: lock_ok_def)
  ultimately show ?thesis using do_sync_inv [OF inv] by blast
qed

definition demo_sys :: sys where
  "demo_sys = \<lparr>kern = demo_kernel,
     semas = (\<lambda>x. case x of Of_Lock l \<Rightarrow> \<lparr>sema_value = 1, waiters = []\<rparr> | _ \<Rightarrow> \<lparr>sema_value = 0, waiters = []\<rparr>),
     lock_holder = (\<lambda>_. None), cond_waiters = (\<lambda>_. []), act = (\<lambda>_. Free)\<rparr>"

lemma demo_sys_inv: "sync_inv demo_sys"
  using demo_kernel_inv
  by (auto simp: sync_inv_def core_inv_def demo_sys_def waiters_ok_def acts_ok_def wakeups_ok_def wants_def
      lock_ok_def owners_def split: sema_id.split)

text \<open>A run in which thread 0 takes lock 9 and is preempted before it stores the holder, and thread
  2 comes to wait for the lock.\<close>

definition demo_run :: "sys option" where
  "demo_run = do {
     s1 \<leftarrow> do_sync (Acquire 9) demo_sys;
     s2 \<leftarrow> do_sync (Sched Yield) s1;
     do_sync (Acquire 9) s2 }"

lemmas demo_eval = demo_sys_def demo_kernel_def demo_thread_def caller_def lock_held_by_current_thread_def
  lock_acquire_def down_step_def sema_down_iter_def thread_current_def kassert_def set_act_def set_sema_def
  set_kern_def Let_def thread_yield_def thread_block_def schedule_def schedule_tail_def next_thread_to_run_def
  set_status_def upd_thread_def stat_def compare_priority_def prio_def blocked_def

lemma demo_run_facts:
  "\<exists>s. demo_run = Some s \<and> act s 0 = Owning 9 \<and> act s 2 = Acquiring 9 \<and> stat (kern s) 2 = Some THREAD_BLOCKED \<and> cur s = 3"
  by (simp add: demo_run_def demo_eval)

lemma demo_run_reached: "demo_run = Some s \<Longrightarrow> sreach demo_sys s"
proof -
  assume "demo_run = Some s"
  then obtain s1 s2 where s: "do_sync (Acquire 9) demo_sys = Some s1" "do_sync (Sched Yield) s1 = Some s2"
    "do_sync (Acquire 9) s2 = Some s" by (auto simp: demo_run_def bind_Some_iff)
  have a1: "sync_allowed (Acquire 9) demo_sys" by (simp add: demo_eval)
  have "sync_allowed (Acquire 9) s2" using s(1,2) by (auto simp: demo_eval)
  then show "sreach demo_sys s"
    using sreach.intros s a1 sync_allowed.simps(1) sched_allowed.simps(1) by metis
qed

theorem lock_mutual_exclusion_witness:
  "\<exists>s. demo_run = Some s \<and> owners s 9 = {0} \<and> (\<exists>s'. do_sync (Sched Tick) s = Some s')"
proof -
  obtain s where s: "demo_run = Some s" "act s 0 = Owning 9" using demo_run_facts by blast
  note p = lock_mutual_exclusion [OF demo_sys_inv demo_run_reached [OF s(1)]]
  have "0 \<in> owners s 9" using s(2) by (simp add: owners_def)
  with p have "owners s 9 = {0}" by blast
  moreover have "\<exists>s'. do_sync (Sched Tick) s = Some s'"
    using p sync_allowed.simps(1) sched_allowed.simps(8) by blast
  ultimately show ?thesis using s(1) by blast
qed

text \<open>C12. No wake-up is lost. In every reachable state a thread that is blocked inside
  \<open>sema_down\<close>, whether for a semaphore, a lock or a condition variable, is among the waiters of
  that semaphore, and the value of the semaphore is at most the number of threads that are awake
  and about to take a unit of it: units that nobody is about to take and threads that wait for
  them do not exist together.\<close>

theorem no_lost_wakeup:
  assumes "sync_inv s0" and "sreach s0 s" and "wants s t = Some x" and "blocked (kern s) t"
  shows "t \<in> set (waiters (semas s x)) \<and> sema_value (semas s x) \<le> card (awake s x) \<and> finite (awake s x)"
proof -
  have "core_inv s" using sreach_inv [OF assms(2,1)] by (simp add: sync_inv_def)
  note c = core_invD [OF this]
  have "t \<in> set (waiters (semas s x))" using c(2) assms(3,4) by (simp add: waiters_ok_def)
  moreover from this have "waiters (semas s x) \<noteq> []" by auto
  ultimately show ?thesis using c(4) finite_awake [OF c(3)] by (simp add: wakeups_ok_def)
qed

theorem no_lost_wakeup_witness:
  "\<exists>s. demo_run = Some s \<and> 2 \<in> set (waiters (semas s (Of_Lock 9)))"
proof -
  obtain s where s: "demo_run = Some s" "act s 2 = Acquiring 9" "stat (kern s) 2 = Some THREAD_BLOCKED"
    using demo_run_facts by blast
  with no_lost_wakeup [OF demo_sys_inv demo_run_reached [OF s(1)], of 2 "Of_Lock 9"] show ?thesis
    by (auto simp: wants_def blocked_def)
qed


definition demo_signal :: sys where
  "demo_signal = demo_sys\<lparr>lock_holder := [9 \<mapsto> 0], cond_waiters := (\<lambda>_. [])(5 := [2]),
     semas := (semas demo_sys)(Of_Lock 9 := \<lparr>sema_value = 0, waiters = []\<rparr>),
     act := (\<lambda>_. Free)(2 := Waiting 9)\<rparr>"


end
