(* ===== verification/Klist.thy ===== *)
theory Klist
  imports Prelude
begin

text \<open>
  The doubly linked lists of \<^verbatim>\<open>lib/kernel/list.c\<close>, at the level of pointers. A heap gives the two
  links of every list element by address; address 0 is the null pointer. A list is the pair of
  its header elements. The loops are partial functions: \<open>None\<close> stands for a failed assertion, a
  null dereference, or a loop that does not end, so an equation with \<open>Some\<close> says that the code
  terminates without any of them.

  \<open>dll\<close> relates a list in a heap to the sequence of its elements. Under it every operation refines
  the operation on sequences that its comment describes, and leaves all other elements of the heap
  alone; the other theories of the development use sequences for that reason. \<open>list_sort\<close>, the
  in-place natural merge sort, ends and is the stable sort.
\<close>

section \<open>Heap and lists\<close>

record heap =
  prv :: "nat \<Rightarrow> nat"
  nxt :: "nat \<Rightarrow> nat"

record klist =
  head_at :: nat
  tail_at :: nat

definition set_prv :: "nat \<Rightarrow> nat \<Rightarrow> heap \<Rightarrow> heap" where
  "set_prv p v h = h\<lparr>prv := (prv h)(p := v)\<rparr>"

definition set_nxt :: "nat \<Rightarrow> nat \<Rightarrow> heap \<Rightarrow> heap" where
  "set_nxt p v h = h\<lparr>nxt := (nxt h)(p := v)\<rparr>"

text \<open>Access to the links of an element, which must not be null.\<close>

definition get_prv :: "nat \<Rightarrow> heap \<Rightarrow> nat option" where
  "get_prv p h = (if p = 0 then None else Some (prv h p))"

definition get_nxt :: "nat \<Rightarrow> heap \<Rightarrow> nat option" where
  "get_nxt p h = (if p = 0 then None else Some (nxt h p))"

definition put_prv :: "nat \<Rightarrow> nat \<Rightarrow> heap \<Rightarrow> heap option" where
  "put_prv p v h = (if p = 0 then None else Some (set_prv p v h))"

definition put_nxt :: "nat \<Rightarrow> nat \<Rightarrow> heap \<Rightarrow> heap option" where
  "put_nxt p v h = (if p = 0 then None else Some (set_nxt p v h))"

definition is_head :: "nat \<Rightarrow> heap \<Rightarrow> bool" where
  "is_head e h \<longleftrightarrow> e \<noteq> 0 \<and> prv h e = 0 \<and> nxt h e \<noteq> 0"

definition is_interior :: "nat \<Rightarrow> heap \<Rightarrow> bool" where
  "is_interior e h \<longleftrightarrow> e \<noteq> 0 \<and> prv h e \<noteq> 0 \<and> nxt h e \<noteq> 0"

definition is_tail :: "nat \<Rightarrow> heap \<Rightarrow> bool" where
  "is_tail e h \<longleftrightarrow> e \<noteq> 0 \<and> prv h e \<noteq> 0 \<and> nxt h e = 0"

section \<open>Operations\<close>

definition list_init :: "klist \<Rightarrow> heap \<Rightarrow> heap" where
  "list_init l h = set_nxt (tail_at l) 0 (set_prv (tail_at l) (head_at l)
     (set_nxt (head_at l) (tail_at l) (set_prv (head_at l) 0 h)))"

definition list_begin :: "klist \<Rightarrow> heap \<Rightarrow> nat" where
  "list_begin l h = nxt h (head_at l)"

definition list_next :: "nat \<Rightarrow> heap \<Rightarrow> nat option" where
  "list_next e h = do { kassert (is_head e h \<or> is_interior e h); Some (nxt h e) }"

definition list_end :: "klist \<Rightarrow> nat" where
  "list_end l = tail_at l"

definition list_rbegin :: "klist \<Rightarrow> heap \<Rightarrow> nat" where
  "list_rbegin l h = prv h (tail_at l)"

definition list_prev :: "nat \<Rightarrow> heap \<Rightarrow> nat option" where
  "list_prev e h = do { kassert (is_interior e h \<or> is_tail e h); Some (prv h e) }"

definition list_rend :: "klist \<Rightarrow> nat" where
  "list_rend l = head_at l"

definition list_head :: "klist \<Rightarrow> nat" where
  "list_head l = head_at l"

definition list_tail :: "klist \<Rightarrow> nat" where
  "list_tail l = tail_at l"

definition list_insert :: "nat \<Rightarrow> nat \<Rightarrow> heap \<Rightarrow> heap option" where
  "list_insert before e h = do {
     kassert (is_interior before h \<or> is_tail before h);
     kassert (e \<noteq> 0);
     h1 \<leftarrow> put_prv e (prv h before) h;
     h2 \<leftarrow> put_nxt e before h1;
     h3 \<leftarrow> put_nxt (prv h2 before) e h2;
     put_prv before e h3 }"

definition list_splice :: "nat \<Rightarrow> nat \<Rightarrow> nat \<Rightarrow> heap \<Rightarrow> heap option" where
  "list_splice before first last0 h = do {
     kassert (is_interior before h \<or> is_tail before h);
     if first = last0 then Some h
     else do {
       lst \<leftarrow> list_prev last0 h;
       kassert (is_interior first h);
       kassert (is_interior lst h);
       h1 \<leftarrow> put_nxt (prv h first) (nxt h lst) h;
       h2 \<leftarrow> put_prv (nxt h1 lst) (prv h1 first) h1;
       h3 \<leftarrow> put_prv first (prv h2 before) h2;
       h4 \<leftarrow> put_nxt lst before h3;
       h5 \<leftarrow> put_nxt (prv h4 before) first h4;
       put_prv before lst h5 } }"

definition list_push_front :: "klist \<Rightarrow> nat \<Rightarrow> heap \<Rightarrow> heap option" where
  "list_push_front l e h = list_insert (list_begin l h) e h"

definition list_push_back :: "klist \<Rightarrow> nat \<Rightarrow> heap \<Rightarrow> heap option" where
  "list_push_back l e h = list_insert (list_end l) e h"

definition list_remove :: "nat \<Rightarrow> heap \<Rightarrow> (nat \<times> heap) option" where
  "list_remove e h = do {
     kassert (is_interior e h);
     h1 \<leftarrow> put_nxt (prv h e) (nxt h e) h;
     h2 \<leftarrow> put_prv (nxt h1 e) (prv h1 e) h1;
     Some (nxt h2 e, h2) }"

definition list_empty :: "klist \<Rightarrow> heap \<Rightarrow> bool" where
  "list_empty l h \<longleftrightarrow> list_begin l h = list_end l"

definition list_front :: "klist \<Rightarrow> heap \<Rightarrow> nat option" where
  "list_front l h = do { kassert (\<not> list_empty l h); Some (nxt h (head_at l)) }"

definition list_back :: "klist \<Rightarrow> heap \<Rightarrow> nat option" where
  "list_back l h = do { kassert (\<not> list_empty l h); Some (prv h (tail_at l)) }"

definition list_pop_front :: "klist \<Rightarrow> heap \<Rightarrow> (nat \<times> heap) option" where
  "list_pop_front l h = do {
     front \<leftarrow> list_front l h;
     (_, h1) \<leftarrow> list_remove front h;
     Some (front, h1) }"

definition list_pop_back :: "klist \<Rightarrow> heap \<Rightarrow> (nat \<times> heap) option" where
  "list_pop_back l h = do {
     back \<leftarrow> list_back l h;
     (_, h1) \<leftarrow> list_remove back h;
     Some (back, h1) }"

partial_function (option) size_loop :: "klist \<Rightarrow> nat \<Rightarrow> nat \<Rightarrow> heap \<Rightarrow> nat option" where
  "size_loop l e cnt h =
     (if e = list_end l then Some cnt
      else do { e1 \<leftarrow> list_next e h; size_loop l e1 (cnt + 1) h })"

definition list_size :: "klist \<Rightarrow> heap \<Rightarrow> nat option" where
  "list_size l h = size_loop l (list_begin l h) 0 h"

text \<open>\<open>swap (&e->prev, &e->next)\<close>.\<close>

definition swap_links :: "nat \<Rightarrow> heap \<Rightarrow> heap" where
  "swap_links e h = set_nxt e (prv h e) (set_prv e (nxt h e) h)"

partial_function (option) reverse_loop :: "klist \<Rightarrow> nat \<Rightarrow> heap \<Rightarrow> heap option" where
  "reverse_loop l e h =
     (if e = list_end l then Some h
      else if e = 0 then None
      else reverse_loop l (prv (swap_links e h) e) (swap_links e h))"

definition list_reverse :: "klist \<Rightarrow> heap \<Rightarrow> heap option" where
  "list_reverse l h =
     (if list_empty l h then Some h
      else do {
        h1 \<leftarrow> reverse_loop l (list_begin l h) h;
        let a = nxt h1 (head_at l);
        let b = prv h1 (tail_at l);
        let h2 = set_prv (tail_at l) a (set_nxt (head_at l) b h1);
        x \<leftarrow> get_prv b h2;
        y \<leftarrow> get_nxt a h2;
        h3 \<leftarrow> put_prv b y h2;
        put_nxt a x h3 })"

type_synonym less_func = "nat \<Rightarrow> nat \<Rightarrow> bool"

partial_function (option) is_sorted_loop :: "nat \<Rightarrow> nat \<Rightarrow> less_func \<Rightarrow> heap \<Rightarrow> bool option" where
  "is_sorted_loop a b lt h = do {
     a1 \<leftarrow> list_next a h;
     if a1 = b then Some True
     else do {
       p \<leftarrow> list_prev a1 h;
       if lt a1 p then Some False else is_sorted_loop a1 b lt h } }"

definition is_sorted :: "nat \<Rightarrow> nat \<Rightarrow> less_func \<Rightarrow> heap \<Rightarrow> bool option" where
  "is_sorted a b lt h = (if a \<noteq> b then is_sorted_loop a b lt h else Some True)"

partial_function (option) run_loop :: "nat \<Rightarrow> nat \<Rightarrow> less_func \<Rightarrow> heap \<Rightarrow> nat option" where
  "run_loop a b lt h = do {
     a1 \<leftarrow> list_next a h;
     if a1 = b then Some a1
     else do {
       p \<leftarrow> list_prev a1 h;
       if \<not> lt a1 p then run_loop a1 b lt h else Some a1 } }"

definition find_end_of_run :: "nat \<Rightarrow> nat \<Rightarrow> less_func \<Rightarrow> heap \<Rightarrow> nat option" where
  "find_end_of_run a b lt h = do {
     kassert (a \<noteq> 0);
     kassert (b \<noteq> 0);
     kassert (a \<noteq> b);
     run_loop a b lt h }"

partial_function (option) merge_loop :: "nat \<Rightarrow> nat \<Rightarrow> nat \<Rightarrow> less_func \<Rightarrow> heap \<Rightarrow> heap option" where
  "merge_loop a0 a1b0 b1 lt h =
     (if a0 \<noteq> a1b0 \<and> a1b0 \<noteq> b1 then
        if \<not> lt a1b0 a0 then do {
          a \<leftarrow> list_next a0 h;
          merge_loop a a1b0 b1 lt h }
        else do {
          b \<leftarrow> list_next a1b0 h;
          p \<leftarrow> list_prev b h;
          h1 \<leftarrow> list_splice a0 p b h;
          merge_loop a0 b b1 lt h1 }
      else Some h)"

definition inplace_merge :: "nat \<Rightarrow> nat \<Rightarrow> nat \<Rightarrow> less_func \<Rightarrow> heap \<Rightarrow> heap option" where
  "inplace_merge a0 a1b0 b1 lt h = do {
     kassert (a0 \<noteq> 0);
     kassert (a1b0 \<noteq> 0);
     kassert (b1 \<noteq> 0);
     s1 \<leftarrow> is_sorted a0 a1b0 lt h;
     kassert s1;
     s2 \<leftarrow> is_sorted a1b0 b1 lt h;
     kassert s2;
     merge_loop a0 a1b0 b1 lt h }"

text \<open>One pass of \<open>list_sort\<close>: the number of runs written.\<close>

partial_function (option) pass_loop :: "klist \<Rightarrow> nat \<Rightarrow> nat \<Rightarrow> less_func \<Rightarrow> heap \<Rightarrow> (nat \<times> heap) option" where
  "pass_loop l a0 cnt lt h =
     (if a0 = list_end l then Some (cnt, h)
      else do {
        a1b0 \<leftarrow> find_end_of_run a0 (list_end l) lt h;
        if a1b0 = list_end l then Some (cnt + 1, h)
        else do {
          b1 \<leftarrow> find_end_of_run a1b0 (list_end l) lt h;
          h1 \<leftarrow> inplace_merge a0 a1b0 b1 lt h;
          pass_loop l b1 (cnt + 1) lt h1 } })"

partial_function (option) sort_loop :: "klist \<Rightarrow> less_func \<Rightarrow> heap \<Rightarrow> heap option" where
  "sort_loop l lt h = do {
     (cnt, h1) \<leftarrow> pass_loop l (list_begin l h) 0 lt h;
     if cnt > 1 then sort_loop l lt h1 else Some h1 }"

definition list_sort :: "klist \<Rightarrow> less_func \<Rightarrow> heap \<Rightarrow> heap option" where
  "list_sort l lt h = do {
     h1 \<leftarrow> sort_loop l lt h;
     s \<leftarrow> is_sorted (list_begin l h1) (list_end l) lt h1;
     kassert s;
     Some h1 }"

partial_function (option) insert_loop :: "klist \<Rightarrow> nat \<Rightarrow> nat \<Rightarrow> less_func \<Rightarrow> heap \<Rightarrow> nat option" where
  "insert_loop l x e lt h =
     (if e = list_end l then Some e
      else if lt x e then Some e
      else do { e1 \<leftarrow> list_next e h; insert_loop l x e1 lt h })"

definition insert_ordered :: "klist \<Rightarrow> nat \<Rightarrow> less_func \<Rightarrow> heap \<Rightarrow> heap option" where
  "insert_ordered l x lt h = do {
     kassert (x \<noteq> 0);
     e \<leftarrow> insert_loop l x (list_begin l h) lt h;
     list_insert e x h }"

partial_function (option) unique_loop :: "klist \<Rightarrow> klist option \<Rightarrow> nat \<Rightarrow> less_func \<Rightarrow> heap \<Rightarrow> heap option" where
  "unique_loop l dups e lt h = do {
     n \<leftarrow> list_next e h;
     if n = list_end l then Some h
     else if \<not> lt e n \<and> \<not> lt n e then do {
       (_, h1) \<leftarrow> list_remove n h;
       h2 \<leftarrow> (case dups of None \<Rightarrow> Some h1 | Some d \<Rightarrow> list_push_back d n h1);
       unique_loop l dups e lt h2 }
     else unique_loop l dups n lt h }"

definition list_unique :: "klist \<Rightarrow> klist option \<Rightarrow> less_func \<Rightarrow> heap \<Rightarrow> heap option" where
  "list_unique l dups lt h =
     (if list_empty l h then Some h else unique_loop l dups (list_begin l h) lt h)"

partial_function (option) max_loop :: "klist \<Rightarrow> nat \<Rightarrow> nat \<Rightarrow> less_func \<Rightarrow> heap \<Rightarrow> nat option" where
  "max_loop l m e lt h =
     (if e = list_end l then Some m
      else do { e1 \<leftarrow> list_next e h; max_loop l (if lt m e then e else m) e1 lt h })"

definition list_max :: "klist \<Rightarrow> less_func \<Rightarrow> heap \<Rightarrow> nat option" where
  "list_max l lt h = (let m = list_begin l h in
     if m \<noteq> list_end l then do { e \<leftarrow> list_next m h; max_loop l m e lt h } else Some m)"

partial_function (option) min_loop :: "klist \<Rightarrow> nat \<Rightarrow> nat \<Rightarrow> less_func \<Rightarrow> heap \<Rightarrow> nat option" where
  "min_loop l m e lt h =
     (if e = list_end l then Some m
      else do { e1 \<leftarrow> list_next e h; min_loop l (if lt e m then e else m) e1 lt h })"

definition list_min :: "klist \<Rightarrow> less_func \<Rightarrow> heap \<Rightarrow> nat option" where
  "list_min l lt h = (let m = list_begin l h in
     if m \<noteq> list_end l then do { e \<leftarrow> list_next m h; min_loop l m e lt h } else Some m)"

section \<open>The sequence of a list\<close>

fun links :: "heap \<Rightarrow> nat list \<Rightarrow> bool" where
  "links h (a # b # r) \<longleftrightarrow> nxt h a = b \<and> prv h b = a \<and> links h (b # r)"
| "links h _ \<longleftrightarrow> True"

definition nodes :: "klist \<Rightarrow> nat list \<Rightarrow> nat list" where
  "nodes l xs = head_at l # xs @ [tail_at l]"

definition dll :: "heap \<Rightarrow> klist \<Rightarrow> nat list \<Rightarrow> bool" where
  "dll h l xs \<longleftrightarrow> links h (nodes l xs) \<and> distinct (nodes l xs) \<and> 0 \<notin> set (nodes l xs)
     \<and> prv h (head_at l) = 0 \<and> nxt h (tail_at l) = 0"

text \<open>The element at the start of a suffix of the list; the tail at its end.\<close>

definition first_of :: "klist \<Rightarrow> nat list \<Rightarrow> nat" where
  "first_of l ys = hd (ys @ [tail_at l])"

text \<open>The heaps agree outside a set of elements.\<close>

definition same_but :: "nat set \<Rightarrow> heap \<Rightarrow> heap \<Rightarrow> bool" where
  "same_but S h h' \<longleftrightarrow> (\<forall>q. q \<notin> S \<longrightarrow> prv h' q = prv h q \<and> nxt h' q = nxt h q)"

lemma links_simps [simp]:
  "prv (set_prv p v h) = (prv h)(p := v)" "nxt (set_prv p v h) = nxt h"
  "prv (set_nxt p v h) = prv h" "nxt (set_nxt p v h) = (nxt h)(p := v)"
  by (simp_all add: set_prv_def set_nxt_def)

lemma put_simps [simp]:
  "p \<noteq> 0 \<Longrightarrow> put_prv p v h = Some (set_prv p v h)" "p \<noteq> 0 \<Longrightarrow> put_nxt p v h = Some (set_nxt p v h)"
  "p \<noteq> 0 \<Longrightarrow> get_prv p h = Some (prv h p)" "p \<noteq> 0 \<Longrightarrow> get_nxt p h = Some (nxt h p)"
  by (simp_all add: put_prv_def put_nxt_def get_prv_def get_nxt_def)

lemma links_append:
  "links h (xs @ ys) \<longleftrightarrow> links h xs \<and> links h ys
     \<and> (xs \<noteq> [] \<and> ys \<noteq> [] \<longrightarrow> nxt h (last xs) = hd ys \<and> prv h (hd ys) = last xs)"
proof (induction xs rule: induct_list012)
  case (2 x) then show ?case by (cases ys) auto
next
  case (3 x y zs) then show ?case by auto
qed simp

lemma links_Cons: "links h (a # ys) \<longleftrightarrow> links h ys \<and> (ys \<noteq> [] \<longrightarrow> nxt h a = hd ys \<and> prv h (hd ys) = a)"
  by (cases ys) auto

lemma links_cong:
  assumes "\<And>q. q \<in> set (butlast ps) \<Longrightarrow> nxt h' q = nxt h q" and "\<And>q. q \<in> set (tl ps) \<Longrightarrow> prv h' q = prv h q"
  shows "links h' ps = links h ps"
  using assms
proof (induction ps rule: induct_list012)
  case (3 x y zs)
  have "links h' (y # zs) = links h (y # zs)"
  proof (rule "3.IH"(2))
    fix q assume "q \<in> set (butlast (y # zs))"
    then show "nxt h' q = nxt h q" by (intro "3.prems"(1)) simp
  next
    fix q assume "q \<in> set (tl (y # zs))"
    then show "prv h' q = prv h q" by (intro "3.prems"(2)) simp
  qed
  moreover have "nxt h' x = nxt h x" "prv h' y = prv h y" using "3.prems"(1) [of x] "3.prems"(2) [of y] by auto
  ultimately show ?case by simp
qed simp_all

lemma dll_frame:
  assumes "dll h m zs" and "same_but S h h'" and "set (nodes m zs) \<inter> S = {}"
  shows "dll h' m zs"
proof -
  have "prv h' q = prv h q \<and> nxt h' q = nxt h q" if "q \<in> set (nodes m zs)" for q
    using assms(2,3) that by (auto simp: same_but_def)
  moreover from this have "links h' (nodes m zs) = links h (nodes m zs)"
    by (intro links_cong) (auto dest: in_set_butlastD simp: nodes_def)
  ultimately show ?thesis using assms(1) by (auto simp: dll_def nodes_def)
qed

lemma last_nz: "0 \<notin> set xs \<Longrightarrow> xs \<noteq> [] \<Longrightarrow> last xs \<noteq> (0 :: nat)"
  and hd_nz: "0 \<notin> set xs \<Longrightarrow> xs \<noteq> [] \<Longrightarrow> hd xs \<noteq> (0 :: nat)"
  by (metis last_in_set, metis hd_in_set)

text \<open>A list cut in two: the parts before and after a point.\<close>

lemma dll_cut:
  assumes "dll h l (xs @ ys)"
  defines "as \<equiv> head_at l # xs" and "bs \<equiv> ys @ [tail_at l]"
  shows "links h as" "links h bs" "nxt h (last as) = hd bs" "prv h (hd bs) = last as"
    "distinct (as @ bs)" "0 \<notin> set (as @ bs)" "prv h (head_at l) = 0" "nxt h (tail_at l) = 0"
  using assms links_append [of h as bs] by (auto simp: dll_def nodes_def)

lemma dll_join:
  assumes "links h as" "links h bs" "nxt h (last as) = hd bs" "prv h (hd bs) = last as"
    "distinct (as @ bs)" "0 \<notin> set (as @ bs)" "prv h (head_at l) = 0" "nxt h (tail_at l) = 0"
    and "as = head_at l # xs" and "bs = ys @ [tail_at l]"
  shows "dll h l (xs @ ys)"
  using assms links_append [of h as bs] by (simp add: dll_def nodes_def)

lemma dll_next:
  assumes "dll h l (xs @ e # ys)"
  shows "list_next e h = Some (first_of l ys)" "is_interior e h" "e \<noteq> tail_at l" "e \<noteq> head_at l" "e \<noteq> 0"
proof -
  note c = dll_cut [OF assms]
  have n: "nxt h e = first_of l ys" using c(2) links_Cons [of h e "ys @ [tail_at l]"] by (simp add: first_of_def)
  have "first_of l ys \<noteq> 0" using c(6) by (cases ys) (auto simp: first_of_def)
  moreover have "prv h e \<noteq> 0" using c(4,6) last_nz [of "head_at l # xs"] by simp
  ultimately show "is_interior e h" using n c(6) by (auto simp: is_interior_def)
  then show "list_next e h = Some (first_of l ys)" using n by (simp add: list_next_def)
  show "e \<noteq> tail_at l" "e \<noteq> head_at l" "e \<noteq> 0" using c(5,6) by auto
qed

lemma dll_interior: "dll h l xs \<Longrightarrow> e \<in> set xs \<Longrightarrow> is_interior e h"
  using dll_next(2) by (metis split_list)

lemma dll_begin: "dll h l xs \<Longrightarrow> list_begin l h = first_of l xs"
  using dll_cut(3) [of h l "[]" xs] by (simp add: list_begin_def first_of_def)

lemma dll_point:
  assumes "dll h l (xs @ ys)"
  shows "is_interior (first_of l ys) h \<or> is_tail (first_of l ys) h"
    "prv h (first_of l ys) = last (head_at l # xs)" "nxt h (last (head_at l # xs)) = first_of l ys"
    "last (head_at l # xs) \<noteq> 0" "first_of l ys \<noteq> 0"
proof -
  note c = dll_cut [OF assms]
  show p: "prv h (first_of l ys) = last (head_at l # xs)" "nxt h (last (head_at l # xs)) = first_of l ys"
    using c(3,4) by (simp_all add: first_of_def)
  show nz: "last (head_at l # xs) \<noteq> 0" "first_of l ys \<noteq> 0"
    using c(6) last_nz [of "head_at l # xs"] hd_nz [of "ys @ [tail_at l]"] by (simp_all add: first_of_def)
  then show "is_interior (first_of l ys) h \<or> is_tail (first_of l ys) h"
    using p by (auto simp: is_interior_def is_tail_def)
qed

lemma dll_prev:
  assumes "dll h l (xs @ a # ys)"
  shows "list_prev (first_of l ys) h = Some a"
  using dll_point [of h l "xs @ [a]" ys] assms by (simp add: list_prev_def)

lemma first_of_end: "dll h l xs \<Longrightarrow> xs = us @ ys \<Longrightarrow> first_of l ys = list_end l \<longleftrightarrow> ys = []"
  by (cases ys) (auto simp: first_of_def list_end_def dll_def nodes_def)

section \<open>Insertion, removal and splicing\<close>

text \<open>A segment stays linked when only the outer links of its ends change.\<close>

lemma links_inner:
  assumes "distinct ps" and "\<And>q. q \<in> set ps \<Longrightarrow> q \<noteq> last ps \<Longrightarrow> nxt h' q = nxt h q"
    and "\<And>q. q \<in> set ps \<Longrightarrow> q \<noteq> hd ps \<Longrightarrow> prv h' q = prv h q"
  shows "links h' ps = links h ps"
proof (cases "ps = []")
  case False
  have "distinct (butlast ps @ [last ps])" "distinct (hd ps # tl ps)" using assms(1) False by simp_all
  then have l: "last ps \<notin> set (butlast ps)" and f: "hd ps \<notin> set (tl ps)" by auto
  show ?thesis
  proof (rule links_cong)
    fix q assume "q \<in> set (butlast ps)"
    with l show "nxt h' q = nxt h q" by (intro assms(2)) (auto dest: in_set_butlastD)
  next
    fix q assume "q \<in> set (tl ps)"
    with f False show "prv h' q = prv h q" by (intro assms(3)) (auto dest: list.set_sel(2))
  qed
qed simp

lemma dll_insert:
  assumes d: "dll h l (xs @ ys)" and e: "e \<noteq> 0" "e \<notin> set (nodes l (xs @ ys))"
  shows "\<exists>h'. list_insert (first_of l ys) e h = Some h' \<and> dll h' l (xs @ e # ys)
     \<and> same_but (insert e (set (nodes l (xs @ ys)))) h h'"
proof -
  define as where "as = head_at l # xs"
  define bs where "bs = ys @ [tail_at l]"
  define p where "p = last as"
  define b where "b = hd bs"
  note c = dll_cut [OF d, folded as_def bs_def, folded p_def b_def] and pt = dll_point [OF d, folded as_def, folded p_def]
  have f: "first_of l ys = b" by (simp add: first_of_def b_def bs_def)
  have mem: "p \<in> set as" "b \<in> set bs"
    using last_in_set [of as] hd_in_set [of bs] by (auto simp: p_def b_def as_def bs_def simp del: last_in_set hd_in_set)
  have e': "e \<notin> set as" "e \<notin> set bs" using e(2) by (auto simp: nodes_def as_def bs_def)
  have ne: "e \<noteq> p" "e \<noteq> b" "p \<noteq> b" using mem e' c(5) by auto
  let ?h = "set_prv b e (set_nxt p e (set_nxt e b (set_prv e p h)))"
  have ins: "list_insert b e h = Some ?h"
    using pt e(1) f ne by (auto simp: list_insert_def)
  have "links ?h as = links h as" "links ?h bs = links h bs"
    by (rule links_inner; use c(5) mem e' in \<open>auto simp: p_def b_def\<close>)+
  then have "links ?h (e # bs)" "links ?h as" using c(1,2) ne by (simp_all add: links_Cons b_def bs_def)
  moreover have "nxt ?h (last as) = hd (e # bs)" "prv ?h (hd (e # bs)) = last as"
    using ne by (auto simp: p_def [symmetric])
  moreover have "head_at l \<in> set as" "tail_at l \<in> set bs" by (simp_all add: as_def bs_def)
  then have "head_at l \<notin> {b, e}" "tail_at l \<notin> {p, e}" using mem c(5) e' by auto
  then have "prv ?h (head_at l) = 0" "nxt ?h (tail_at l) = 0" using c(7,8) by auto
  moreover have "distinct (as @ e # bs)" "0 \<notin> set (as @ e # bs)" using c(5,6) e(1) e' by auto
  moreover have "e # bs = (e # ys) @ [tail_at l]" by (simp add: bs_def)
  ultimately have "dll ?h l (xs @ e # ys)" by (intro dll_join [OF _ _ _ _ _ _ _ _ as_def])
  moreover have "same_but (insert e (set (nodes l (xs @ ys)))) h ?h"
    using mem by (auto simp: same_but_def nodes_def as_def bs_def)
  ultimately show ?thesis using f ins by blast
qed

lemma dll_remove:
  assumes d: "dll h l (xs @ e # ys)"
  shows "\<exists>h'. list_remove e h = Some (first_of l ys, h') \<and> dll h' l (xs @ ys)
     \<and> same_but (set (nodes l (xs @ e # ys))) h h'"
proof -
  define as where "as = head_at l # xs"
  define bs where "bs = ys @ [tail_at l]"
  define p where "p = last as"
  define b where "b = hd bs"
  note c = dll_cut [OF d, folded as_def, folded p_def] and n = dll_next [OF d]
  have f: "first_of l ys = b" by (simp add: first_of_def b_def bs_def)
  have bs: "(e # ys) @ [tail_at l] = e # bs" by (simp add: bs_def)
  have mem: "p \<in> set as" "b \<in> set bs"
    using last_in_set [of as] hd_in_set [of bs] by (auto simp: p_def b_def as_def bs_def simp del: last_in_set hd_in_set)
  have nz: "p \<noteq> 0" "b \<noteq> 0" using mem c(6) unfolding bs by (metis Un_iff list.set_intros(2) set_append)+
  have ne: "e \<noteq> p" "e \<noteq> b" "p \<noteq> b" "distinct as" "distinct bs" "e \<notin> set as" "e \<notin> set bs" "set as \<inter> set bs = {}"
    using mem c(5) unfolding bs by auto
  let ?h = "set_prv b p (set_nxt p b h)"
  have e: "prv h e = p" "nxt h e = b" "links h bs"
    using c(2,4) unfolding bs by (simp_all add: links_Cons b_def bs_def)
  then have rm: "list_remove e h = Some (b, ?h)"
    using n(2) nz ne by (simp add: list_remove_def)
  have "links ?h as = links h as" "links ?h bs = links h bs"
    by (rule links_inner; use ne mem in \<open>auto simp: p_def b_def\<close>)+
  then have j: "links ?h as" "links ?h bs" "nxt ?h (last as) = hd bs" "prv ?h (hd bs) = last as"
    using c(1) e(3) ne(3) by (simp_all add: p_def [symmetric] b_def [symmetric])
  have "head_at l \<in> set as" "tail_at l \<in> set bs" by (simp_all add: as_def bs_def)
  then have "head_at l \<noteq> b" "tail_at l \<noteq> p" using mem ne(8) by auto
  then have o: "prv ?h (head_at l) = 0" "nxt ?h (tail_at l) = 0" using c(7,8) by simp_all
  have "distinct (as @ bs)" "0 \<notin> set (as @ bs)" using ne c(6) unfolding bs by auto
  then have "dll ?h l (xs @ ys)" by (rule dll_join [OF j _ _ o as_def bs_def])
  moreover have "same_but (set (nodes l (xs @ e # ys))) h ?h"
    using mem by (auto simp: same_but_def nodes_def as_def bs_def)
  ultimately show ?thesis using f rm by blast
qed

lemma list_splice_eq:
  assumes "is_interior b h \<or> is_tail b h" and "list_prev q h = Some z" and "is_interior f h" "is_interior z h"
    and "prv h f = m" "nxt h z = q" "prv h b = p"
    and "f \<noteq> q" "q \<noteq> b" "f \<noteq> b" "m \<noteq> z" "m \<noteq> 0" "q \<noteq> 0" "p \<noteq> 0"
  shows "list_splice b f q h = Some (set_prv b z (set_nxt p f (set_nxt z b (set_prv f p (set_prv q m (set_nxt m q h))))))"
proof -
  have "b \<noteq> 0" "f \<noteq> 0" "z \<noteq> 0" using assms(1,3,4) by (auto simp: is_interior_def is_tail_def)
  with assms show ?thesis by (auto simp: list_splice_def)
qed

text \<open>Splicing a segment of a list to an earlier place of the same list.\<close>

lemma dll_splice_back:
  assumes d: "dll h l (xs @ ms @ seg @ ys)" and ms: "ms \<noteq> []" and seg: "seg \<noteq> []"
  shows "\<exists>h'. list_splice (hd ms) (hd seg) (first_of l ys) h = Some h' \<and> dll h' l (xs @ seg @ ms @ ys)
     \<and> same_but (set (nodes l (xs @ ms @ seg @ ys))) h h'"
proof -
  define as where "as = head_at l # xs"
  define bs where "bs = ys @ [tail_at l]"
  define p where "p = last as"
  define q where "q = hd bs"
  define a where "a = hd ms"
  define m where "m = last ms"
  define f where "f = hd seg"
  define z where "z = last seg"
  have all: "nodes l (xs @ ms @ seg @ ys) = as @ ms @ seg @ bs" by (simp add: nodes_def as_def bs_def)
  have nb: "as \<noteq> []" "bs \<noteq> []" by (simp_all add: as_def bs_def)
  have L: "links h as" "links h ms" "links h seg" "links h bs" "nxt h p = a" "prv h a = p" "nxt h m = f" "prv h f = m"
    "nxt h z = q" "prv h q = z" and D: "distinct (as @ ms @ seg @ bs)" "0 \<notin> set (as @ ms @ seg @ bs)"
    and E: "prv h (head_at l) = 0" "nxt h (tail_at l) = 0"
    using d ms seg nb unfolding dll_def all
    by (auto simp: links_append p_def q_def a_def m_def f_def z_def)
  have mem: "p \<in> set as" "q \<in> set bs" "a \<in> set ms" "m \<in> set ms" "f \<in> set seg" "z \<in> set seg"
    using ms seg nb by (simp_all add: p_def q_def a_def m_def f_def z_def)
  have F: "first_of l ys = q" by (simp add: first_of_def q_def bs_def)
  let ?h = "set_prv a z (set_nxt p f (set_nxt z a (set_prv f p (set_prv q m (set_nxt m q h)))))"
  have nz: "p \<noteq> 0" "q \<noteq> 0" "a \<noteq> 0" "m \<noteq> 0" "f \<noteq> 0" "z \<noteq> 0" using mem D(2) by (metis Un_iff set_append)+
  have i: "is_interior a h" "is_interior f h" "is_interior z h" using dll_interior [OF d] mem by auto
  have ne: "f \<noteq> q" "q \<noteq> a" "f \<noteq> a" "m \<noteq> z" using mem D(1) by auto
  have pr: "list_prev q h = Some z" using L(10) nz by (auto simp: list_prev_def is_interior_def is_tail_def kassert_def)
  have sp: "list_splice a f q h = Some ?h"
    by (rule list_splice_eq [OF disjI1 [OF i(1)] pr i(2,3) L(8,9,6) ne nz(4,2,1)])
  have "links ?h as = links h as" "links ?h ms = links h ms" "links ?h seg = links h seg" "links ?h bs = links h bs"
    by (rule links_inner; use D(1) mem in \<open>auto simp: p_def q_def a_def m_def f_def z_def\<close>)+
  moreover have "p \<noteq> z" "p \<noteq> m" using mem D(1) by auto
  then have "nxt ?h p = f" "prv ?h f = p" "nxt ?h z = a" "prv ?h a = z" "nxt ?h m = q" "prv ?h q = m" using ne by auto
  ultimately have "links ?h (as @ seg @ ms @ bs)"
    using L(1-4) ms seg nb by (simp add: links_append p_def q_def a_def m_def f_def z_def)
  moreover have "nodes l (xs @ seg @ ms @ ys) = as @ seg @ ms @ bs" by (simp add: nodes_def as_def bs_def)
  moreover have "head_at l \<in> set as" "tail_at l \<in> set bs" by (simp_all add: as_def bs_def)
  then have "head_at l \<notin> {a, f, q}" "tail_at l \<notin> {p, z, m}" using mem D(1) by auto
  then have "prv ?h (head_at l) = 0" "nxt ?h (tail_at l) = 0" using E by auto
  ultimately have "dll ?h l (xs @ seg @ ms @ ys)" using D unfolding dll_def by auto
  moreover have "same_but (set (nodes l (xs @ ms @ seg @ ys))) h ?h"
    using mem unfolding all by (auto simp: same_but_def)
  ultimately show ?thesis using F sp unfolding a_def f_def by metis
qed

text \<open>Splicing a segment of one list into another.\<close>

lemma dll_splice_over:
  assumes d: "dll h l (xs @ ys)" and k: "dll h k (us @ seg @ vs)" and seg: "seg \<noteq> []"
    and dj: "set (nodes l (xs @ ys)) \<inter> set (nodes k (us @ seg @ vs)) = {}"
  shows "\<exists>h'. list_splice (first_of l ys) (hd seg) (first_of k vs) h = Some h'
     \<and> dll h' l (xs @ seg @ ys) \<and> dll h' k (us @ vs)
     \<and> same_but (set (nodes l (xs @ ys)) \<union> set (nodes k (us @ seg @ vs))) h h'"
proof -
  define as where "as = head_at l # xs"
  define bs where "bs = ys @ [tail_at l]"
  define cs where "cs = head_at k # us"
  define ds where "ds = vs @ [tail_at k]"
  define p where "p = last as"
  define b where "b = hd bs"
  define u where "u = last cs"
  define q where "q = hd ds"
  define f where "f = hd seg"
  define z where "z = last seg"
  have all: "nodes l (xs @ ys) = as @ bs" "nodes k (us @ seg @ vs) = cs @ seg @ ds"
    by (simp_all add: nodes_def as_def bs_def cs_def ds_def)
  have nb: "as \<noteq> []" "bs \<noteq> []" "cs \<noteq> []" "ds \<noteq> []" by (simp_all add: as_def bs_def cs_def ds_def)
  have L: "links h as" "links h bs" "links h cs" "links h seg" "links h ds" "nxt h p = b" "prv h b = p"
    "nxt h u = f" "prv h f = u" "nxt h z = q" "prv h q = z"
    and E: "prv h (head_at l) = 0" "nxt h (tail_at l) = 0" "prv h (head_at k) = 0" "nxt h (tail_at k) = 0"
    using d k seg nb unfolding dll_def all by (auto simp: links_append p_def q_def b_def u_def f_def z_def)
  have D: "distinct (as @ bs @ cs @ seg @ ds)" "0 \<notin> set (as @ bs @ cs @ seg @ ds)"
    using d k dj unfolding dll_def all by auto
  have mem: "p \<in> set as" "b \<in> set bs" "u \<in> set cs" "f \<in> set seg" "z \<in> set seg" "q \<in> set ds"
    using seg nb by (simp_all add: p_def q_def b_def u_def f_def z_def)
  have F: "first_of l ys = b" "first_of k vs = q" by (simp_all add: first_of_def q_def b_def bs_def ds_def)
  let ?h = "set_prv b z (set_nxt p f (set_nxt z b (set_prv f p (set_prv q u (set_nxt u q h)))))"
  have nz: "p \<noteq> 0" "q \<noteq> 0" "b \<noteq> 0" "u \<noteq> 0" "f \<noteq> 0" "z \<noteq> 0" using mem D(2) by (metis Un_iff set_append)+
  have n: "is_interior f h" "is_interior z h" using dll_interior [OF k] mem by auto
  have ne: "f \<noteq> q" "q \<noteq> b" "f \<noteq> b" "u \<noteq> z" using mem D(1) by auto
  have pr: "list_prev q h = Some z" using L(11) nz by (auto simp: list_prev_def is_interior_def is_tail_def kassert_def)
  have sp: "list_splice b f q h = Some ?h"
    by (rule list_splice_eq [OF dll_point(1) [OF d, unfolded F] pr n L(9,10,7) ne nz(4,2,1)])
  have "links ?h as = links h as" "links ?h bs = links h bs" "links ?h seg = links h seg"
    "links ?h cs = links h cs" "links ?h ds = links h ds"
    by (rule links_inner; use D(1) mem in \<open>auto simp: p_def q_def b_def u_def f_def z_def\<close>)+
  moreover have "p \<noteq> z" "p \<noteq> u" using mem D(1) by auto
  then have "nxt ?h p = f" "prv ?h f = p" "nxt ?h z = b" "prv ?h b = z" "nxt ?h u = q" "prv ?h q = u" using ne by auto
  ultimately have "links ?h (as @ seg @ bs)" "links ?h (cs @ ds)"
    using L(1-5) seg nb by (simp_all add: links_append p_def q_def b_def u_def f_def z_def)
  moreover have "nodes l (xs @ seg @ ys) = as @ seg @ bs" "nodes k (us @ vs) = cs @ ds"
    by (simp_all add: nodes_def as_def bs_def cs_def ds_def)
  moreover have "head_at l \<in> set as" "tail_at l \<in> set bs" "head_at k \<in> set cs" "tail_at k \<in> set ds"
    by (simp_all add: as_def bs_def cs_def ds_def)
  then have "head_at l \<notin> {b, f, q}" "head_at k \<notin> {b, f, q}" "tail_at l \<notin> {p, z, u}" "tail_at k \<notin> {p, z, u}"
    using mem D(1) by auto
  then have "prv ?h (head_at l) = 0" "nxt ?h (tail_at l) = 0" "prv ?h (head_at k) = 0" "nxt ?h (tail_at k) = 0"
    using E by auto
  ultimately have "dll ?h l (xs @ seg @ ys)" "dll ?h k (us @ vs)" using D unfolding dll_def by auto
  moreover have "same_but (set (nodes l (xs @ ys)) \<union> set (nodes k (us @ seg @ vs))) h ?h"
    using mem unfolding all by (auto simp: same_but_def)
  ultimately show ?thesis using F sp unfolding f_def by metis
qed

section \<open>The operations on sequences\<close>

lemma list_init_dll:
  "head_at l \<noteq> 0 \<Longrightarrow> tail_at l \<noteq> 0 \<Longrightarrow> head_at l \<noteq> tail_at l \<Longrightarrow> dll (list_init l h) l []"
  by (simp add: dll_def nodes_def list_init_def)

lemma push_back_dll:
  assumes "dll h l xs" and "e \<noteq> 0" "e \<notin> set (nodes l xs)"
  shows "\<exists>h'. list_push_back l e h = Some h' \<and> dll h' l (xs @ [e]) \<and> same_but (insert e (set (nodes l xs))) h h'"
  using dll_insert [of h l xs "[]" e] assms by (simp add: list_push_back_def first_of_def list_end_def)

lemma push_front_dll:
  assumes "dll h l xs" and "e \<noteq> 0" "e \<notin> set (nodes l xs)"
  shows "\<exists>h'. list_push_front l e h = Some h' \<and> dll h' l (e # xs) \<and> same_but (insert e (set (nodes l xs))) h h'"
  using dll_insert [of h l "[]" xs e] assms by (simp add: list_push_front_def dll_begin)

lemma list_empty_dll: "dll h l xs \<Longrightarrow> list_empty l h \<longleftrightarrow> xs = []"
  using first_of_end [of h l xs "[]" xs] by (simp add: list_empty_def dll_begin)

lemma pop_front_dll:
  assumes "dll h l (x # xs)"
  shows "\<exists>h'. list_pop_front l h = Some (x, h') \<and> dll h' l xs \<and> same_but (set (nodes l (x # xs))) h h'"
proof -
  have "list_front l h = Some x"
    using list_empty_dll [OF assms] dll_begin [OF assms] by (simp add: list_front_def list_begin_def first_of_def)
  with dll_remove [of h l "[]" x xs] assms show ?thesis by (auto simp: list_pop_front_def)
qed

lemma pop_back_dll:
  assumes "dll h l (xs @ [x])"
  shows "\<exists>h'. list_pop_back l h = Some (x, h') \<and> dll h' l xs \<and> same_but (set (nodes l (xs @ [x]))) h h'"
proof -
  have "prv h (tail_at l) = x" using dll_point(2) [of h l "xs @ [x]" "[]"] assms by (simp add: first_of_def)
  then have "list_back l h = Some x" using list_empty_dll [OF assms] by (simp add: list_back_def)
  with dll_remove [of h l xs x "[]"] assms show ?thesis by (auto simp: list_pop_back_def)
qed

text \<open>A loop that walks the list: at the start of a suffix, it is either at the end or at an
  element, and then goes on to the rest.\<close>

lemma at_end: "first_of l [] = list_end l"
  by (simp add: first_of_def list_end_def)

lemma at_elem:
  assumes "dll h l (xs @ e # ys)"
  shows "first_of l (e # ys) = e" "e \<noteq> list_end l" "list_next e h = Some (first_of l ys)"
    "first_of l ys = list_end l \<longleftrightarrow> ys = []"
  using dll_next [OF assms] first_of_end [OF assms, of "xs @ [e]" ys]
  by (simp_all add: first_of_def list_end_def)

lemma size_loop_dll: "dll h l (xs @ ys) \<Longrightarrow> size_loop l (first_of l ys) n h = Some (n + length ys)"
proof (induction ys arbitrary: xs n)
  case Nil
  show ?case by (subst size_loop.simps) (simp add: at_end)
next
  case (Cons e ys)
  from Cons.IH [of "xs @ [e]" "n + 1"] at_elem [OF Cons.prems] Cons.prems show ?case
    by (subst size_loop.simps) simp
qed

lemma list_size_dll: "dll h l xs \<Longrightarrow> list_size l h = Some (length xs)"
  using size_loop_dll [of h l "[]" xs 0] by (simp add: list_size_def dll_begin)

lemma insert_loop_dll:
  "dll h l (xs @ ys) \<Longrightarrow> insert_loop l x (first_of l ys) lt h = Some (first_of l (dropWhile (\<lambda>y. \<not> lt x y) ys))"
proof (induction ys arbitrary: xs)
  case Nil
  show ?case by (subst insert_loop.simps) (simp add: at_end)
next
  case (Cons e ys)
  from Cons.IH [of "xs @ [e]"] at_elem [OF Cons.prems] Cons.prems show ?case
    by (subst insert_loop.simps) simp
qed

lemma insert_ordered_dll:
  assumes d: "dll h l xs" and x: "x \<noteq> 0" "x \<notin> set (nodes l xs)"
  shows "\<exists>h'. insert_ordered l x lt h = Some h'
     \<and> dll h' l (takeWhile (\<lambda>y. \<not> lt x y) xs @ x # dropWhile (\<lambda>y. \<not> lt x y) xs)
     \<and> same_but (insert x (set (nodes l xs))) h h'"
  using dll_insert [of h l "takeWhile (\<lambda>y. \<not> lt x y) xs" "dropWhile (\<lambda>y. \<not> lt x y) xs" x]
    insert_loop_dll [of h l "[]" xs x lt] d x
  by (simp add: insert_ordered_def dll_begin)

text \<open>The first of the largest, and the first of the smallest elements.\<close>

lemma max_loop_dll:
  "dll h l (xs @ ys) \<Longrightarrow> max_loop l m (first_of l ys) lt h = Some (foldl (\<lambda>m e. if lt m e then e else m) m ys)"
proof (induction ys arbitrary: xs m)
  case Nil
  show ?case by (subst max_loop.simps) (simp add: at_end)
next
  case (Cons e ys)
  from Cons.IH [of "xs @ [e]" "if lt m e then e else m"] at_elem [OF Cons.prems] Cons.prems show ?case
    by (cases "lt m e"; subst max_loop.simps) simp_all
qed

lemma min_loop_dll:
  "dll h l (xs @ ys) \<Longrightarrow> min_loop l m (first_of l ys) lt h = Some (foldl (\<lambda>m e. if lt e m then e else m) m ys)"
proof (induction ys arbitrary: xs m)
  case Nil
  show ?case by (subst min_loop.simps) (simp add: at_end)
next
  case (Cons e ys)
  from Cons.IH [of "xs @ [e]" "if lt e m then e else m"] at_elem [OF Cons.prems] Cons.prems show ?case
    by (cases "lt e m"; subst min_loop.simps) simp_all
qed

section \<open>Reversal\<close>

definition swap_all :: "nat set \<Rightarrow> heap \<Rightarrow> heap" where
  "swap_all S h = h\<lparr>prv := (\<lambda>q. if q \<in> S then nxt h q else prv h q),
                    nxt := (\<lambda>q. if q \<in> S then prv h q else nxt h q)\<rparr>"

lemma swap_all_simps [simp]:
  "prv (swap_all S h) q = (if q \<in> S then nxt h q else prv h q)"
  "nxt (swap_all S h) q = (if q \<in> S then prv h q else nxt h q)"
  by (simp_all add: swap_all_def)

lemma swap_links_simps [simp]:
  "prv (swap_links e h) = (prv h)(e := nxt h e)" "nxt (swap_links e h) = (nxt h)(e := prv h e)"
  by (simp_all add: swap_links_def)

lemma heap_eqI: "prv h = prv h' \<Longrightarrow> nxt h = nxt h' \<Longrightarrow> h = (h' :: heap)"
  by (cases h; cases h') simp

lemma reverse_loop_eq:
  "links h (ys @ [tail_at l]) \<Longrightarrow> distinct (ys @ [tail_at l]) \<Longrightarrow> 0 \<notin> set ys
     \<Longrightarrow> reverse_loop l (hd (ys @ [tail_at l])) h = Some (swap_all (set ys) h)"
proof (induction ys arbitrary: h)
  case Nil
  have "swap_all {} h = h" by (rule heap_eqI) auto
  then show ?case by (subst reverse_loop.simps) (simp add: list_end_def)
next
  case (Cons e ys)
  let ?h = "swap_links e h"
  have c: "links h (ys @ [tail_at l])" "nxt h e = hd (ys @ [tail_at l])" "e \<notin> set (ys @ [tail_at l])" "e \<noteq> 0"
    using Cons.prems by (auto simp: links_Cons)
  have "links ?h (ys @ [tail_at l]) = links h (ys @ [tail_at l])"
    using c(3) by (intro links_cong) (auto dest: in_set_butlastD list.set_sel(2) [rotated])
  then have "reverse_loop l (hd (ys @ [tail_at l])) ?h = Some (swap_all (set ys) ?h)"
    using Cons.prems c(1) by (intro Cons.IH) auto
  moreover have "swap_all (set ys) ?h = swap_all (set (e # ys)) h"
    using c(3) by (intro heap_eqI) (auto simp: fun_eq_iff)
  ultimately show ?case
    using c by (subst reverse_loop.simps) (simp add: list_end_def)
qed

lemma links_rev:
  "links h ps \<Longrightarrow> (\<And>q. q \<in> set ps \<Longrightarrow> prv h' q = nxt h q \<and> nxt h' q = prv h q) \<Longrightarrow> links h' (rev ps)"
proof (induction ps)
  case (Cons a ps)
  then have "links h' (rev ps)" by (simp add: links_Cons)
  with Cons.prems show ?case by (cases ps) (auto simp: links_append)
qed simp

lemma list_reverse_dll:
  assumes d: "dll h l xs"
  shows "\<exists>h'. list_reverse l h = Some h' \<and> dll h' l (rev xs) \<and> same_but (set (nodes l xs)) h h'"
proof (cases "xs = []")
  case True
  with d show ?thesis by (auto simp: list_reverse_def list_empty_dll [OF d] same_but_def)
next
  case False
  let ?hd = "head_at l" and ?tl = "tail_at l"
  define a where "a = hd xs"
  define b where "b = last xs"
  have mem: "a \<in> set xs" "b \<in> set xs" using False by (simp_all add: a_def b_def)
  have D: "distinct xs" "?hd \<notin> set xs" "?tl \<notin> set xs" "?hd \<noteq> ?tl" "0 \<notin> set xs" "?hd \<noteq> 0" "?tl \<noteq> 0"
    and E: "prv h ?hd = 0" "nxt h ?tl = 0" using d by (auto simp: dll_def nodes_def)
  have L: "links h xs" "links h (xs @ [?tl])" "nxt h ?hd = a" "prv h a = ?hd" "nxt h b = ?tl" "prv h ?tl = b"
    using d False by (auto simp: dll_def nodes_def links_Cons links_append a_def b_def)
  have nz: "a \<noteq> 0" "b \<noteq> 0" using mem D(5) by metis+
  define h1 where "h1 = swap_all (set xs) h"
  have loop: "reverse_loop l (list_begin l h) h = Some h1"
    using reverse_loop_eq [of h xs l] L(2) D by (simp add: dll_begin [OF d] first_of_def h1_def)
  let ?h2 = "set_prv ?tl a (set_nxt ?hd b h1)"
  let ?h = "set_nxt a ?tl (set_prv b ?hd ?h2)"
  have ne: "a \<noteq> ?hd" "a \<noteq> ?tl" "b \<noteq> ?hd" "b \<noteq> ?tl" using mem D by auto
  have h1: "nxt h1 ?hd = a" "prv h1 ?tl = b" "prv h1 b = ?tl" "nxt h1 a = ?hd"
    using L mem D by (simp_all add: h1_def)
  have eq: "list_reverse l h = Some ?h"
    using h1 ne nz False list_empty_dll [OF d] loop by (auto simp: list_reverse_def Let_def)
  have "links h1 (rev xs)" using L(1) by (rule links_rev) (simp add: h1_def)
  moreover have "links ?h (rev xs) = links h1 (rev xs)"
    by (rule links_inner; use D mem ne in \<open>auto simp: a_def b_def hd_rev last_rev\<close>)
  moreover have "nxt ?h ?hd = b" "prv ?h b = ?hd" "nxt ?h a = ?tl" "prv ?h ?tl = a" "prv ?h ?hd = 0" "nxt ?h ?tl = 0"
    using ne D E by (auto simp: h1_def)
  ultimately have "dll ?h l (rev xs)"
    using False D by (simp add: dll_def nodes_def links_Cons links_append hd_rev last_rev a_def b_def)
  moreover have "same_but (set (nodes l xs)) h ?h" using mem by (auto simp: same_but_def nodes_def h1_def)
  ultimately show ?thesis using eq by blast
qed

section \<open>Removal of adjacent duplicates\<close>

text \<open>The elements kept and the elements removed after \<open>e\<close>.\<close>

fun uniq :: "less_func \<Rightarrow> nat \<Rightarrow> nat list \<Rightarrow> nat list \<times> nat list" where
  "uniq lt e [] = ([], [])"
| "uniq lt e (y # ys) =
     (if \<not> lt e y \<and> \<not> lt y e then (fst (uniq lt e ys), y # snd (uniq lt e ys))
      else (y # fst (uniq lt y ys), snd (uniq lt y ys)))"

definition dups_rep :: "heap \<Rightarrow> klist option \<Rightarrow> nat list \<Rightarrow> nat set \<Rightarrow> bool" where
  "dups_rep h dups ds S \<longleftrightarrow> (case dups of None \<Rightarrow> True | Some d \<Rightarrow> dll h d ds \<and> set (nodes d ds) \<inter> S = {})"

lemma unique_loop_dll:
  assumes "dll h l (xs @ e # ys)" and "dups_rep h dups ds (set (nodes l (xs @ e # ys)))"
  shows "\<exists>h'. unique_loop l dups e lt h = Some h' \<and> dll h' l (xs @ e # fst (uniq lt e ys))
     \<and> dups_rep h' dups (ds @ snd (uniq lt e ys)) {}"
  using assms
proof (induction ys arbitrary: xs e h ds)
  case Nil
  have "dups_rep h dups ds {}" using Nil(2) by (auto simp: dups_rep_def split: option.splits)
  with Nil(1) at_elem [OF Nil(1)] show ?case by (subst unique_loop.simps) (simp add: at_end)
next
  case (Cons y ys)
  note a = at_elem [OF Cons.prems(1)]
  have f: "first_of l (y # ys) = y" by (simp add: first_of_def)
  show ?case
  proof (cases "\<not> lt e y \<and> \<not> lt y e")
    case False
    from Cons.IH [of h "xs @ [e]" y ds] Cons.prems False a f show ?thesis by (subst unique_loop.simps) auto
  next
    case True
    from dll_remove [of h l "xs @ [e]" y ys] Cons.prems(1) obtain h1 where
      h1: "list_remove y h = Some (first_of l ys, h1)" "dll h1 l (xs @ e # ys)"
      "same_but (set (nodes l (xs @ e # y # ys))) h h1" by auto
    have sub: "set (nodes l (xs @ e # ys)) \<subseteq> set (nodes l (xs @ e # y # ys))"
      and y: "y \<noteq> 0" "y \<notin> set (nodes l (xs @ e # ys))"
      using Cons.prems(1) by (auto simp: nodes_def dll_def)
    have "\<exists>h2. (case dups of None \<Rightarrow> Some h1 | Some d \<Rightarrow> list_push_back d y h1) = Some h2
       \<and> dll h2 l (xs @ e # ys) \<and> dups_rep h2 dups (ds @ [y]) (set (nodes l (xs @ e # ys)))"
    proof (cases dups)
      case None
      with h1(2) show ?thesis by (simp add: dups_rep_def)
    next
      case (Some d)
      then have d: "dll h d ds" "set (nodes d ds) \<inter> set (nodes l (xs @ e # y # ys)) = {}"
        using Cons.prems(2) by (auto simp: dups_rep_def)
      then have "dll h1 d ds" using dll_frame [OF _ h1(3)] by blast
      moreover have yd: "y \<notin> set (nodes d ds)" using d(2) by (auto simp: nodes_def)
      ultimately obtain h2 where h2: "list_push_back d y h1 = Some h2" "dll h2 d (ds @ [y])"
        "same_but (insert y (set (nodes d ds))) h1 h2" using push_back_dll [of h1 d ds y] y(1) by blast
      have "set (nodes l (xs @ e # ys)) \<inter> insert y (set (nodes d ds)) = {}" using d(2) sub y(2) by blast
      then have "dll h2 l (xs @ e # ys)" by (rule dll_frame [OF h1(2) h2(3)])
      moreover have "set (nodes d (ds @ [y])) \<inter> set (nodes l (xs @ e # ys)) = {}"
        using d(2) sub y(2) by (auto simp: nodes_def)
      ultimately show ?thesis using h2 Some by (simp add: dups_rep_def)
    qed
    then obtain h2 where h2: "(case dups of None \<Rightarrow> Some h1 | Some d \<Rightarrow> list_push_back d y h1) = Some h2"
       "dll h2 l (xs @ e # ys)" "dups_rep h2 dups (ds @ [y]) (set (nodes l (xs @ e # ys)))" by blast
    from Cons.IH [OF h2(2,3)] h1(1) h2(1) True a f show ?thesis by (subst unique_loop.simps) simp
  qed
qed

lemma list_unique_dll:
  assumes "dll h l (x # xs)" and "dups_rep h dups ds (set (nodes l (x # xs)))"
  shows "\<exists>h'. list_unique l dups lt h = Some h' \<and> dll h' l (x # fst (uniq lt x xs))
     \<and> dups_rep h' dups (ds @ snd (uniq lt x xs)) {}"
  using unique_loop_dll [of h l "[]" x xs dups ds lt] assms list_empty_dll [OF assms(1)] dll_begin [OF assms(1)]
  by (simp add: list_unique_def first_of_def)

text \<open>By a key, what is kept has no two adjacent equal keys.\<close>

lemma uniq_key:
  fixes key :: "nat \<Rightarrow> 'k :: linorder"
  shows "map key (x # fst (uniq (\<lambda>a b. key a < key b) x xs)) = remdups_adj (map key (x # xs))"
  by (induction xs arbitrary: x) (auto simp: remdups_adj_Cons' not_less split: list.splits)

section \<open>Sorting\<close>

text \<open>The passes of the natural merge sort on sequences. The order is that of a key, so that
  elements with equal keys are told apart.\<close>

fun run_of :: "(nat \<Rightarrow> 'k :: linorder) \<Rightarrow> nat list \<Rightarrow> nat list \<times> nat list" where
  "run_of key (x # y # r) = (if key y < key x then ([x], y # r)
     else (x # fst (run_of key (y # r)), snd (run_of key (y # r))))"
| "run_of key xs = (xs, [])"

fun mrg :: "(nat \<Rightarrow> 'k :: linorder) \<Rightarrow> nat list \<Rightarrow> nat list \<Rightarrow> nat list" where
  "mrg key (a # as) (b # bs) = (if key b < key a then b # mrg key (a # as) bs else a # mrg key as (b # bs))"
| "mrg key as bs = as @ bs"

fun desc :: "(nat \<Rightarrow> 'k :: linorder) \<Rightarrow> nat list \<Rightarrow> nat" where
  "desc key (x # y # r) = (if key y < key x then 1 else 0) + desc key (y # r)"
| "desc key _ = 0"

lemma run_of_hd: "xs \<noteq> [] \<Longrightarrow> fst (run_of key xs) \<noteq> [] \<and> hd (fst (run_of key xs)) = hd xs"
  by (induction key xs rule: run_of.induct) auto

lemma run_of_split: "fst (run_of key xs) @ snd (run_of key xs) = xs"
  by (induction key xs rule: run_of.induct) auto

lemma run_of_sorted: "sorted (map key (fst (run_of key xs)))"
proof (induction key xs rule: run_of.induct)
  case (1 key x y r)
  have "key y \<le> key z" if "sorted (map key (fst (run_of key (y # r))))" "z \<in> set (fst (run_of key (y # r)))" for z
    using run_of_hd [of "y # r" key] that by (cases "fst (run_of key (y # r))") auto
  with 1 show ?case by (force simp: not_less)
qed auto

lemma run_of_length: "xs \<noteq> [] \<Longrightarrow> length (snd (run_of key xs)) < length xs"
  using arg_cong [OF run_of_split [of key xs], of length] run_of_hd [of xs key]
  by (cases "fst (run_of key xs)") auto

function pass :: "(nat \<Rightarrow> 'k :: linorder) \<Rightarrow> nat list \<Rightarrow> nat list \<times> nat" where
  "pass key xs =
     (if xs = [] then ([], 0)
      else let (as, r) = run_of key xs in
        if r = [] then (xs, 1)
        else let (bs, r2) = run_of key r; (zs, n) = pass key r2 in (mrg key as bs @ zs, Suc n))"
  by auto
termination
proof (relation "measure (length \<circ> snd)", goal_cases)
  case (2 key xs p as r q bs r2)
  then show ?case
    using run_of_length [of xs key] run_of_length [of r key] by (auto simp: prod_eq_iff)
qed simp

declare pass.simps [simp del]

lemma mset_mrg: "mset (mrg key as bs) = mset as + mset bs"
  by (induction key as bs rule: mrg.induct) auto

lemma set_mrg: "set (mrg key as bs) = set as \<union> set bs"
  by (metis mset_mrg set_mset_mset set_mset_union)

lemma sorted_mrg: "sorted (map key as) \<Longrightarrow> sorted (map key bs) \<Longrightarrow> sorted (map key (mrg key as bs))"
  by (induction key as bs rule: mrg.induct) (auto simp: set_mrg not_less intro: order_trans)

lemma stable_mrg:
  "sorted (map key as) \<Longrightarrow> filter (\<lambda>x. key x = k) (mrg key as bs) = filter (\<lambda>x. key x = k) (as @ bs)"
proof (induction key as bs rule: mrg.induct)
  case (1 key a as b bs)
  then show ?case
  proof (cases "key b < key a")
    case True
    with 1 have "\<forall>x \<in> set (a # as). key b < key x" by auto
    then have "key b = k \<Longrightarrow> filter (\<lambda>x. key x = k) (a # as) = []" by (auto simp: filter_empty_conv)
    with 1 True show ?thesis by auto
  qed auto
qed auto

lemma desc_0: "desc key xs = 0 \<longleftrightarrow> sorted (map key xs)"
  by (induction key xs rule: desc.induct) (auto simp: not_less intro: order_trans)

lemma desc_append: "desc key (xs @ ys) \<le> desc key xs + 1 + desc key ys"
proof (induction key xs rule: desc.induct [case_names 1 2 3])
  case (3 key v) then show ?case by (cases ys) auto
qed auto

lemma desc_run: "desc key xs = (if snd (run_of key xs) = [] then 0 else 1 + desc key (snd (run_of key xs)))"
  by (induction key xs rule: run_of.induct) auto

lemma pass_Nil [simp]: "pass key [] = ([], 0)"
  by (simp add: pass.simps)

lemma pass_step:
  assumes "xs \<noteq> []"
  shows "pass key xs = (let as = fst (run_of key xs); r = snd (run_of key xs) in
     if r = [] then (xs, 1)
     else let bs = fst (run_of key r); r2 = snd (run_of key r) in (mrg key as bs @ fst (pass key r2), Suc (snd (pass key r2))))"
  using assms by (subst pass.simps) (simp add: Let_def split_beta)

text \<open>Induction over the pairs of runs of a sequence.\<close>

lemma runs_induct [case_names Nil One Two]:
  fixes key :: "nat \<Rightarrow> 'k :: linorder"
  assumes "P []"
    and "\<And>xs. xs \<noteq> [] \<Longrightarrow> snd (run_of key xs) = [] \<Longrightarrow> P xs"
    and "\<And>xs. xs \<noteq> [] \<Longrightarrow> snd (run_of key xs) \<noteq> [] \<Longrightarrow> P (snd (run_of key (snd (run_of key xs)))) \<Longrightarrow> P xs"
  shows "P xs"
proof (induction xs rule: length_induct)
  case (1 xs)
  consider "xs = []" | "xs \<noteq> []" "snd (run_of key xs) = []" | "xs \<noteq> []" "snd (run_of key xs) \<noteq> []" by blast
  then show ?case
  proof cases
    case 1
    show ?thesis unfolding 1 by (rule assms(1))
  next
    case 2
    then show ?thesis by (rule assms(2))
  next
    case 3
    then have "length (snd (run_of key (snd (run_of key xs)))) < length xs"
      using run_of_length [of xs key] run_of_length [of "snd (run_of key xs)" key] by simp
    with 1 have "P (snd (run_of key (snd (run_of key xs))))" by simp
    with 3 show ?thesis by (rule assms(3))
  qed
qed

lemma pass_stable:
  "filter (\<lambda>x. key x = k) (fst (pass key xs)) = filter (\<lambda>x. key x = k) xs \<and> mset (fst (pass key xs)) = mset xs"
proof (induction xs rule: runs_induct [where key = key])
  case (Two xs)
  let ?r = "snd (run_of key xs)"
  have "xs = fst (run_of key xs) @ fst (run_of key ?r) @ snd (run_of key ?r)" by (simp add: run_of_split)
  then have "filter (\<lambda>x. key x = k) xs = filter (\<lambda>x. key x = k) (fst (run_of key xs) @ fst (run_of key ?r) @ snd (run_of key ?r))"
    and "mset xs = mset (fst (run_of key xs)) + mset (fst (run_of key ?r)) + mset (snd (run_of key ?r))"
    by (metis, metis mset_append add.assoc)
  with Two show ?case
    by (simp add: pass_step Let_def stable_mrg [OF run_of_sorted] mset_mrg)
next
  case (One xs)
  then show ?case by (simp add: pass_step Let_def)
next
  case Nil
  show ?case by simp
qed

lemma pass_runs:
  "xs \<noteq> [] \<Longrightarrow> desc key (fst (pass key xs)) + 1 \<le> snd (pass key xs) \<and> 2 * snd (pass key xs) \<le> desc key xs + 2"
proof (induction xs rule: runs_induct [where key = key])
  case (One xs)
  then show ?case using desc_run [of key xs] by (simp add: pass_step Let_def)
next
  case (Two xs)
  let ?r = "snd (run_of key xs)"
  let ?r2 = "snd (run_of key ?r)"
  let ?m = "mrg key (fst (run_of key xs)) (fst (run_of key ?r))"
  have m: "desc key ?m = 0" by (simp add: desc_0 sorted_mrg run_of_sorted)
  have p: "pass key xs = (?m @ fst (pass key ?r2), Suc (snd (pass key ?r2)))"
    using Two by (simp add: pass_step Let_def)
  show ?case
  proof (cases "?r2 = []")
    case True
    with m p Two desc_run [of key xs] show ?thesis by simp
  next
    case False
    have "desc key xs = 2 + desc key ?r2" using False Two desc_run [of key xs] desc_run [of key ?r] by simp
    with Two.IH [OF False] desc_append [of key ?m "fst (pass key ?r2)"] m p show ?thesis by simp
  qed
qed simp

text \<open>The pointer loops compute these functions.\<close>

lemma run_loop_dll:
  "dll h l (xs @ e # ys)
     \<Longrightarrow> run_loop e (list_end l) (\<lambda>a b. key a < key b) h = Some (first_of l (snd (run_of key (e # ys))))"
proof (induction ys arbitrary: xs e)
  case Nil
  from at_elem [OF Nil] show ?case by (subst run_loop.simps) (simp add: at_end)
next
  case (Cons y ys)
  have d: "dll h l ((xs @ [e]) @ y # ys)" using Cons.prems by simp
  note a = at_elem [OF Cons.prems] and b = at_elem [OF d]
  have "list_prev y h = Some e" using dll_prev [OF Cons.prems] b(1) by simp
  with Cons.IH [OF d] a b show ?case by (subst run_loop.simps) simp
qed

lemma find_end_of_run_dll:
  assumes d: "dll h l (xs @ ys)" and ys: "ys \<noteq> []"
  shows "find_end_of_run (first_of l ys) (list_end l) (\<lambda>a b. key a < key b) h = Some (first_of l (snd (run_of key ys)))"
proof -
  obtain e r where y: "ys = e # r" using ys by (cases ys) auto
  have "tail_at l \<noteq> 0" using d by (auto simp: dll_def nodes_def)
  with run_loop_dll [of h l xs e r key] d dll_next [of h l xs e r] y show ?thesis
    by (simp add: find_end_of_run_def first_of_def list_end_def)
qed

lemma first_of_append:
  assumes "dll h l (xs @ as @ ys)"
  shows "first_of l (as @ ys) = first_of l ys \<longleftrightarrow> as = []"
proof (cases as)
  case (Cons a r)
  have "a \<notin> set (ys @ [tail_at l])" using assms Cons by (auto simp: dll_def nodes_def)
  moreover have "first_of l ys \<in> set (ys @ [tail_at l])" unfolding first_of_def by (rule hd_in_set) simp
  ultimately show ?thesis using Cons by (auto simp: first_of_def)
qed simp

lemma is_sorted_loop_dll:
  "dll h l (xs @ e # as @ ys) \<Longrightarrow> sorted (map key (e # as))
     \<Longrightarrow> is_sorted_loop e (first_of l ys) (\<lambda>a b. key a < key b) h = Some True"
proof (induction as arbitrary: xs e)
  case Nil
  with at_elem [of h l xs e ys] show ?case by (subst is_sorted_loop.simps) simp
next
  case (Cons y as)
  have d: "dll h l ((xs @ [e]) @ y # as @ ys)" using Cons.prems by simp
  note a = at_elem [of h l xs e "y # as @ ys"] and b = at_elem [OF d]
  have "list_prev y h = Some e" using dll_prev [of h l xs e "y # as @ ys"] Cons.prems(1) b(1) by simp
  moreover have "y \<noteq> first_of l ys" using first_of_append [of h l "xs @ [e]" "y # as" ys] d by (simp add: first_of_def)
  ultimately show ?case
    using Cons.IH [OF d] Cons.prems a b by (subst is_sorted_loop.simps) auto
qed

lemma is_sorted_dll:
  assumes d: "dll h l (xs @ as @ ys)" and s: "sorted (map key as)"
  shows "is_sorted (first_of l (as @ ys)) (first_of l ys) (\<lambda>a b. key a < key b) h = Some True"
proof (cases as)
  case (Cons e r)
  with first_of_append [OF d] is_sorted_loop_dll [of h l xs e r ys key] d s show ?thesis
    by (simp add: is_sorted_def first_of_def)
qed (simp add: is_sorted_def)

lemma same_but_trans:
  "same_but S h h1 \<Longrightarrow> same_but T h1 h2 \<Longrightarrow> T \<subseteq> S \<Longrightarrow> same_but S h h2"
  by (auto simp: same_but_def)

lemma merge_loop_dll:
  assumes "dll h l (xs @ as @ bs @ ys)"
  shows "\<exists>h'. merge_loop (first_of l (as @ bs @ ys)) (first_of l (bs @ ys)) (first_of l ys) (\<lambda>a b. key a < key b) h = Some h'
     \<and> dll h' l (xs @ mrg key as bs @ ys) \<and> same_but (set (nodes l (xs @ as @ bs @ ys))) h h'"
  using assms
proof (induction key as bs arbitrary: xs h rule: mrg.induct [case_names 1 2 3])
  case (1 key a as b bs)
  let ?lt = "\<lambda>x y. key x < key y"
  have d: "dll h l (xs @ a # as @ b # bs @ ys)" using "1.prems" by simp
  have ne: "first_of l ((a # as) @ (b # bs) @ ys) \<noteq> first_of l ((b # bs) @ ys)" "first_of l ((b # bs) @ ys) \<noteq> first_of l ys"
    using first_of_append [of h l xs "a # as" "(b # bs) @ ys"] first_of_append [of h l "xs @ a # as" "b # bs" ys] "1.prems"
    by simp_all
  have f: "first_of l ((a # as) @ (b # bs) @ ys) = a" "first_of l ((b # bs) @ ys) = b" by (simp_all add: first_of_def)
  show ?case
  proof (cases "key b < key a")
    case False
    have "list_next a h = Some (first_of l (as @ (b # bs) @ ys))" using dll_next(1) [OF d] by simp
    moreover from "1.IH"(2) [OF False, of h "xs @ [a]"] d obtain h' where
      "merge_loop (first_of l (as @ (b # bs) @ ys)) (first_of l ((b # bs) @ ys)) (first_of l ys) ?lt h = Some h'"
      "dll h' l (xs @ a # mrg key as (b # bs) @ ys)" "same_but (set (nodes l (xs @ a # as @ b # bs @ ys))) h h'" by auto
    ultimately show ?thesis using False ne f by (subst merge_loop.simps) simp
  next
    case True
    have n: "list_next b h = Some (first_of l (bs @ ys))" "list_prev (first_of l (bs @ ys)) h = Some b"
      using dll_next(1) [of h l "xs @ a # as" b "bs @ ys"] dll_prev [of h l "xs @ a # as" b "bs @ ys"] d by simp_all
    from dll_splice_back [of h l xs "a # as" "[b]" "bs @ ys"] d obtain h1 where
      h1: "list_splice a b (first_of l (bs @ ys)) h = Some h1" "dll h1 l ((xs @ [b]) @ (a # as) @ bs @ ys)"
      "same_but (set (nodes l (xs @ a # as @ b # bs @ ys))) h h1" by auto
    from "1.IH"(1) [OF True h1(2)] obtain h' where
      h': "merge_loop (first_of l ((a # as) @ bs @ ys)) (first_of l (bs @ ys)) (first_of l ys) ?lt h1 = Some h'"
      "dll h' l ((xs @ [b]) @ mrg key (a # as) bs @ ys)" "same_but (set (nodes l ((xs @ [b]) @ (a # as) @ bs @ ys))) h1 h'"
      by blast
    have "same_but (set (nodes l (xs @ a # as @ b # bs @ ys))) h h'"
      by (rule same_but_trans [OF h1(3) h'(3)]) (auto simp: nodes_def)
    moreover have "first_of l ((a # as) @ bs @ ys) = a" by (simp add: first_of_def)
    ultimately show ?thesis using True ne f n h1(1) h' by (subst merge_loop.simps) simp
  qed
next
  case (2 key bs)
  then show ?case by (subst merge_loop.simps) (simp add: same_but_def)
next
  case (3 key as)
  then show ?case by (subst merge_loop.simps) (simp add: same_but_def)
qed

lemma first_of_nz: "dll h l (xs @ ys) \<Longrightarrow> first_of l ys \<noteq> 0"
  by (rule dll_point(5))

lemma inplace_merge_dll:
  assumes d: "dll h l (xs @ as @ bs @ ys)" and s: "sorted (map key as)" "sorted (map key bs)"
  shows "\<exists>h'. inplace_merge (first_of l (as @ bs @ ys)) (first_of l (bs @ ys)) (first_of l ys) (\<lambda>a b. key a < key b) h = Some h'
     \<and> dll h' l (xs @ mrg key as bs @ ys) \<and> same_but (set (nodes l (xs @ as @ bs @ ys))) h h'"
proof -
  have d2: "dll h l ((xs @ as) @ bs @ ys)" "dll h l ((xs @ as @ bs) @ ys)" using d by simp_all
  show ?thesis
    using merge_loop_dll [OF d, of key] is_sorted_dll [OF d s(1)] is_sorted_dll [OF d2(1) s(2)]
      first_of_nz [OF d] first_of_nz [OF d2(1)] first_of_nz [OF d2(2)]
    by (simp add: inplace_merge_def)
qed

lemma pass_loop_dll:
  assumes "dll h l (us @ xs)"
  shows "\<exists>h'. pass_loop l (first_of l xs) cnt (\<lambda>a b. key a < key b) h = Some (cnt + snd (pass key xs), h')
     \<and> dll h' l (us @ fst (pass key xs)) \<and> same_but (set (nodes l (us @ xs))) h h'"
  using assms
proof (induction xs arbitrary: us h cnt rule: runs_induct [where key = key])
  case Nil
  then show ?case by (subst pass_loop.simps) (simp add: at_end same_but_def)
next
  case (One xs)
  have "first_of l xs \<noteq> list_end l" using first_of_end [OF One.prems refl] One.hyps(1) by simp
  with One find_end_of_run_dll [OF One.prems One.hyps(1), of key] show ?case
    by (subst pass_loop.simps) (simp add: pass_step Let_def at_end same_but_def)
next
  case (Two xs)
  let ?lt = "\<lambda>a b. key a < key b"
  define as where "as = fst (run_of key xs)"
  define r where "r = snd (run_of key xs)"
  define bs where "bs = fst (run_of key r)"
  define ys where "ys = snd (run_of key r)"
  have xs: "xs = as @ r" "r = bs @ ys" by (simp_all add: as_def r_def bs_def ys_def run_of_split)
  have r: "r \<noteq> []" using Two.hyps(2) by (simp add: r_def)
  have d: "dll h l (us @ as @ bs @ ys)" using Two.prems xs by simp
  have sorted: "sorted (map key as)" "sorted (map key bs)" by (simp_all add: as_def bs_def run_of_sorted)
  have ends: "first_of l xs \<noteq> list_end l" "first_of l r \<noteq> list_end l"
    using first_of_end [OF Two.prems refl] first_of_end [of h l "us @ xs" "us @ as" r] Two.prems Two.hyps(1) r xs by simp_all
  have run1: "find_end_of_run (first_of l xs) (list_end l) ?lt h = Some (first_of l r)"
    using find_end_of_run_dll [OF Two.prems Two.hyps(1), of key] by (simp add: r_def)
  have run2: "find_end_of_run (first_of l r) (list_end l) ?lt h = Some (first_of l ys)"
    unfolding ys_def by (rule find_end_of_run_dll [of h l "us @ as", OF _ r]) (use Two.prems xs(1) in simp)
  from inplace_merge_dll [OF d sorted] obtain h1 where
    h1: "inplace_merge (first_of l xs) (first_of l r) (first_of l ys) ?lt h = Some h1"
    "dll h1 l ((us @ mrg key as bs) @ ys)" "same_but (set (nodes l (us @ xs))) h h1"
    using xs by auto
  from Two.IH [folded r_def, folded ys_def, OF h1(2), of "cnt + 1"] obtain h' where
    h': "pass_loop l (first_of l ys) (cnt + 1) ?lt h1 = Some (cnt + 1 + snd (pass key ys), h')"
    "dll h' l ((us @ mrg key as bs) @ fst (pass key ys))" "same_but (set (nodes l ((us @ mrg key as bs) @ ys))) h1 h'" by blast
  have "same_but (set (nodes l (us @ xs))) h h'"
    by (rule same_but_trans [OF h1(3) h'(3)]) (simp add: nodes_def set_mrg xs, blast)
  moreover have "pass key xs = (mrg key as bs @ fst (pass key ys), Suc (snd (pass key ys)))"
    using Two.hyps by (simp add: pass_step Let_def as_def r_def bs_def ys_def)
  ultimately show ?case using run1 run2 ends h1(1) h' by (subst pass_loop.simps) simp
qed

lemma sort_loop_dll:
  assumes "dll h l xs"
  shows "\<exists>h'. sort_loop l (\<lambda>a b. key a < key b) h = Some h' \<and> dll h' l (sort_key key xs)
     \<and> same_but (set (nodes l xs)) h h'"
  using assms
proof (induction "desc key xs" arbitrary: xs h rule: less_induct)
  case less
  let ?lt = "\<lambda>a b. key a < key b"
  from pass_loop_dll [of h l "[]" xs 0 key] less.prems obtain h1 where
    h1: "pass_loop l (list_begin l h) 0 ?lt h = Some (snd (pass key xs), h1)" "dll h1 l (fst (pass key xs))"
    "same_but (set (nodes l xs)) h h1" by (auto simp: dll_begin)
  have st: "filter (\<lambda>x. key x = k) (fst (pass key xs)) = filter (\<lambda>x. key x = k) xs" "mset (fst (pass key xs)) = mset xs" for k
    using pass_stable [of key k xs] by auto
  have st': "filter (\<lambda>x. key k = key x) (fst (pass key xs)) = filter (\<lambda>x. key k = key x) xs" for k
    using st(1) [of "key k"] by (simp add: eq_commute [of "key k"])
  show ?case
  proof (cases "snd (pass key xs) > 1")
    case True
    then have "xs \<noteq> []" by auto
    from pass_runs [OF this, of key] True have "desc key (fst (pass key xs)) < desc key xs" by linarith
    from less.hyps [OF this h1(2)] obtain h' where h': "sort_loop l ?lt h1 = Some h'"
      "dll h' l (sort_key key (fst (pass key xs)))" "same_but (set (nodes l (fst (pass key xs)))) h1 h'" by blast
    have "sort_key key (fst (pass key xs)) = sort_key key xs"
    proof (rule properties_for_sort_key [symmetric])
      show "mset (sort_key key (fst (pass key xs))) = mset xs" using st(2) by simp
      show "filter (\<lambda>x. key k = key x) (sort_key key (fst (pass key xs))) = filter (\<lambda>x. key k = key x) xs" for k
        using st' [of k] sort_key_stable [of key "key k" "fst (pass key xs)"] by (simp add: eq_commute [of "key k"])
    qed simp
    moreover have "set (fst (pass key xs)) = set xs" using st(2) by (metis set_mset_mset)
    then have "same_but (set (nodes l xs)) h h'"
      by (intro same_but_trans [OF h1(3) h'(3)]) (simp add: nodes_def)
    ultimately show ?thesis using h1(1) h' True by (subst sort_loop.simps) simp
  next
    case False
    have "desc key (fst (pass key xs)) = 0"
      using pass_runs [of xs key] False by (cases "xs = []") (simp, linarith)
    then have "sort_key key xs = fst (pass key xs)"
      by (intro properties_for_sort_key st(2) st') (simp add: desc_0)
    with h1 False show ?thesis by (subst sort_loop.simps) simp
  qed
qed

lemma list_sort_dll:
  assumes d: "dll h l xs"
  shows "\<exists>h'. list_sort l (\<lambda>a b. key a < key b) h = Some h' \<and> dll h' l (sort_key key xs)
     \<and> same_but (set (nodes l xs)) h h'"
proof -
  from sort_loop_dll [OF d, of key] obtain h' where h': "sort_loop l (\<lambda>a b. key a < key b) h = Some h'"
    "dll h' l (sort_key key xs)" "same_but (set (nodes l xs)) h h'" by blast
  from is_sorted_dll [of h' l "[]" "sort_key key xs" "[]" key] h'(2)
  have "is_sorted (list_begin l h') (list_end l) (\<lambda>a b. key a < key b) h' = Some True"
    by (simp add: dll_begin at_end)
  with h' show ?thesis by (simp add: list_sort_def)
qed

section \<open>Lists as queues\<close>

text \<open>What the kernel's queues rely on: elements come out in the order they went in. The interface
  is any representation of sequences with insertion at the back and removal at the front.\<close>

primrec feed :: "('e \<Rightarrow> 'h \<Rightarrow> 'h option) \<Rightarrow> 'e list \<Rightarrow> 'h \<Rightarrow> 'h option" where
  "feed push [] h = Some h"
| "feed push (e # es) h = do { h1 \<leftarrow> push e h; feed push es h1 }"

primrec drain :: "('h \<Rightarrow> ('e \<times> 'h) option) \<Rightarrow> nat \<Rightarrow> 'h \<Rightarrow> ('e list \<times> 'h) option" where
  "drain pop 0 h = Some ([], h)"
| "drain pop (Suc n) h = do { (e, h1) \<leftarrow> pop h; (es, h2) \<leftarrow> drain pop n h1; Some (e # es, h2) }"

locale queue =
  fixes rep :: "'h \<Rightarrow> 'e list \<Rightarrow> bool"
    and fresh :: "'e \<Rightarrow> 'e list \<Rightarrow> bool"
    and push :: "'e \<Rightarrow> 'h \<Rightarrow> 'h option"
    and pop :: "'h \<Rightarrow> ('e \<times> 'h) option"
  assumes push_rep: "rep h xs \<Longrightarrow> fresh e xs \<Longrightarrow> \<exists>h'. push e h = Some h' \<and> rep h' (xs @ [e])"
    and pop_rep: "rep h (e # xs) \<Longrightarrow> \<exists>h'. pop h = Some (e, h') \<and> rep h' xs"
    and fresh_snoc: "fresh e (xs @ [y]) \<longleftrightarrow> fresh e xs \<and> e \<noteq> y"
begin

lemma feed_rep:
  assumes "rep h xs" and "\<And>e. e \<in> set es \<Longrightarrow> fresh e xs" and "distinct es"
  shows "\<exists>h'. feed push es h = Some h' \<and> rep h' (xs @ es)"
  using assms
proof (induction es arbitrary: h xs)
  case (Cons e es)
  from push_rep [OF Cons.prems(1), of e] Cons.prems(2) obtain h1 where h1: "push e h = Some h1" "rep h1 (xs @ [e])" by auto
  with Cons.IH [OF h1(2)] Cons.prems(2,3) show ?case by (auto simp: fresh_snoc)
qed simp

lemma drain_rep: "rep h (es @ xs) \<Longrightarrow> \<exists>h'. drain pop (length es) h = Some (es, h') \<and> rep h' xs"
proof (induction es arbitrary: h)
  case (Cons e es)
  from pop_rep [of h e "es @ xs"] Cons.prems obtain h1 where h1: "pop h = Some (e, h1)" "rep h1 (es @ xs)" by auto
  with Cons.IH [OF h1(2)] show ?case by auto
qed simp

lemma fifo:
  assumes "rep h xs" and "\<And>e. e \<in> set es \<Longrightarrow> fresh e xs" and "distinct es"
  shows "\<exists>h1 h2. feed push es h = Some h1 \<and> drain pop (length xs + length es) h1 = Some (xs @ es, h2) \<and> rep h2 []"
proof -
  from feed_rep [OF assms] obtain h1 where h1: "feed push es h = Some h1" "rep h1 ((xs @ es) @ [])" by auto
  from drain_rep [OF h1(2)] h1(1) show ?thesis by auto
qed

end

interpretation lq: queue "\<lambda>h. dll h l" "\<lambda>e xs. e \<noteq> 0 \<and> e \<notin> set (nodes l xs)" "list_push_back l" "list_pop_front l"
proof unfold_locales
  show "\<exists>h'. list_push_back l e h = Some h' \<and> dll h' l (xs @ [e])"
    if "dll h l xs" "e \<noteq> 0 \<and> e \<notin> set (nodes l xs)" for h xs e using push_back_dll [of h l xs e] that by blast
  show "\<exists>h'. list_pop_front l h = Some (e, h') \<and> dll h' l xs" if "dll h l (e # xs)" for h e xs
    using pop_front_dll [OF that] by blast
qed (auto simp: nodes_def)

section \<open>Properties\<close>

text \<open>C14. \<open>list_sort\<close> is a stable sort, in place. On every well-formed list and for every order given by
  a key, it terminates without a failed assertion, the list then holds the same elements in
  nondecreasing order of their keys, elements with equal keys stay in their order, and no link
  outside the list changes.\<close>

theorem list_sort_correct:
  fixes key :: "nat \<Rightarrow> 'k :: linorder"
  assumes "dll h l xs"
  shows "\<exists>h'. list_sort l (\<lambda>a b. key a < key b) h = Some h' \<and> dll h' l (sort_key key xs)
     \<and> same_but (set (nodes l xs)) h h'"
  using assms by (rule list_sort_dll)

text \<open>A list with the elements 5, 3, 4 and 6.\<close>

definition demo_list :: klist where "demo_list = \<lparr>head_at = 1, tail_at = 2\<rparr>"

definition demo_heap :: heap where
  "demo_heap = \<lparr>prv = (\<lambda>_. 0)(5 := 1, 3 := 5, 4 := 3, 6 := 4, 2 := 6),
                nxt = (\<lambda>_. 0)(1 := 5, 5 := 3, 3 := 4, 4 := 6, 6 := 2)\<rparr>"

lemma demo_dll: "dll demo_heap demo_list [5, 3, 4, 6]"
  by (simp add: dll_def nodes_def demo_heap_def demo_list_def)

theorem list_sort_correct_witness:
  "\<exists>h'. list_sort demo_list (\<lambda>a b. a mod 2 < b mod 2) demo_heap = Some h' \<and> dll h' demo_list [4, 6, 5, 3]"
  using list_sort_correct [OF demo_dll, of "\<lambda>a. a mod 2"] by auto

text \<open>A kernel list used as a queue delivers every element exactly once and in order: after any
  distinct new elements are pushed to the back of a list, popping from the front gives first the
  old elements and then the new ones, in order, and ends with the empty list.\<close>

theorem list_queue_fifo:
  assumes "dll h l xs" and "\<forall>e \<in> set es. e \<noteq> 0 \<and> e \<notin> set (nodes l xs)" and "distinct es"
  shows "\<exists>h1 h2. feed (list_push_back l) es h = Some h1
     \<and> drain (list_pop_front l) (length xs + length es) h1 = Some (xs @ es, h2) \<and> dll h2 l []"
  using lq.fifo [OF assms(1) _ assms(3)] assms(2) by blast

theorem list_queue_fifo_witness:
  "\<exists>h1 h2. feed (list_push_back demo_list) [8, 7] demo_heap = Some h1
     \<and> drain (list_pop_front demo_list) 6 h1 = Some ([5, 3, 4, 6, 8, 7], h2)"
proof -
  have new: "\<forall>e \<in> set [8, 7]. e \<noteq> 0 \<and> e \<notin> set (nodes demo_list [5, 3, 4, 6])" by (simp add: nodes_def demo_list_def)
  have "distinct [8, 7 :: nat]" and len: "length [5, 3, 4, 6 :: nat] + length [8, 7 :: nat] = 6" by simp_all
  from list_queue_fifo [OF demo_dll new this(1)] show ?thesis unfolding len append.simps by blast
qed

text \<open>\<open>list_reverse\<close> and \<open>list_unique\<close>. Reversal gives the elements in reverse order. On a non-empty
  list, removal of duplicates keeps the first element of each group of adjacent elements with equal
  keys and moves the others, in order, to the end of the list of duplicates.\<close>

theorem list_reverse_unique_correct:
  fixes key :: "nat \<Rightarrow> 'k :: linorder"
  assumes "dll h l (x # xs)" and "dll h d ds" and "set (nodes d ds) \<inter> set (nodes l (x # xs)) = {}"
  shows "(\<exists>h'. list_reverse l h = Some h' \<and> dll h' l (rev (x # xs)) \<and> dll h' d ds)
     \<and> (\<exists>h' ks rs. list_unique l (Some d) (\<lambda>a b. key a < key b) h = Some h' \<and> dll h' l (x # ks) \<and> dll h' d (ds @ rs)
          \<and> map key (x # ks) = remdups_adj (map key (x # xs)) \<and> mset (ks @ rs) = mset xs)"
proof
  from list_reverse_dll [OF assms(1)] obtain h' where h': "list_reverse l h = Some h'" "dll h' l (rev (x # xs))"
    "same_but (set (nodes l (x # xs))) h h'" by blast
  from dll_frame [OF assms(2) h'(3) assms(3)] h' show "\<exists>h'. list_reverse l h = Some h' \<and> dll h' l (rev (x # xs)) \<and> dll h' d ds"
    by blast
next
  let ?lt = "\<lambda>a b. key a < key b"
  have "dups_rep h (Some d) ds (set (nodes l (x # xs)))" using assms(2,3) by (simp add: dups_rep_def)
  from list_unique_dll [OF assms(1) this, of ?lt]
  obtain h' where "list_unique l (Some d) ?lt h = Some h'" "dll h' l (x # fst (uniq ?lt x xs))"
    "dll h' d (ds @ snd (uniq ?lt x xs))" by (auto simp: dups_rep_def)
  moreover have "mset (fst (uniq ?lt x xs) @ snd (uniq ?lt x xs)) = mset xs" by (induction xs arbitrary: x) auto
  ultimately show "\<exists>h' ks rs. list_unique l (Some d) ?lt h = Some h' \<and> dll h' l (x # ks) \<and> dll h' d (ds @ rs)
      \<and> map key (x # ks) = remdups_adj (map key (x # xs)) \<and> mset (ks @ rs) = mset xs"
    using uniq_key [of key x xs] by blast
qed

theorem list_reverse_unique_correct_witness:
  "\<exists>h'. list_reverse demo_list (list_init \<lparr>head_at = 10, tail_at = 11\<rparr> demo_heap) = Some h' \<and> dll h' demo_list [6, 4, 3, 5]"
proof -
  let ?d = "\<lparr>head_at = 10, tail_at = 11\<rparr>"
  let ?h = "list_init ?d demo_heap"
  have "dll ?h demo_list [5, 3, 4, 6]" by (simp add: dll_def nodes_def demo_heap_def demo_list_def list_init_def)
  moreover have "dll ?h ?d []" by (rule list_init_dll) simp_all
  moreover have "set (nodes ?d []) \<inter> set (nodes demo_list [5, 3, 4, 6]) = {}" by (simp add: nodes_def demo_list_def)
  ultimately show ?thesis using list_reverse_unique_correct [of ?h demo_list 5 "[3, 4, 6]" ?d "[]" "\<lambda>a. a"] by auto
qed

end
