(* ===== verification/Hash.thy ===== *)
theory Hash
  imports Kstring Bytes
begin

text \<open>
  The hash tables of \<^verbatim>\<open>lib/kernel/hash.c\<close>. An element is an address; the functions that the user of a
  table passes to \<open>hash_init\<close>, the hash function and the order, are parameters \<open>hf\<close> and \<open>lt\<close> of the
  operations. A bucket is the sequence of its elements, as justified by the theory of linked
  lists. The result of \<open>malloc\<close> is an argument, \<open>mem\<close>.

  The contents of a table are a partial function from keys to elements; every operation refines
  the operation on that function, whether or not the table is resized and whether or not the
  allocation of new buckets succeeds. Resizing always ends, with a power of two.
\<close>

section \<open>State\<close>

record hash =
  elem_cnt :: u32
  bucket_cnt :: u32
  buckets :: "nat list list"

record hash_iterator =
  it_bucket :: nat
  it_elem :: "nat option"
  it_rest :: "nat list"

definition MIN_ELEMS_PER_BUCKET :: u32 where "MIN_ELEMS_PER_BUCKET = 1"

definition BEST_ELEMS_PER_BUCKET :: u32 where "BEST_ELEMS_PER_BUCKET = 2"

definition MAX_ELEMS_PER_BUCKET :: u32 where "MAX_ELEMS_PER_BUCKET = 4"

definition FNV_32_PRIME :: u32 where "FNV_32_PRIME = 16777619"

definition FNV_32_BASIS :: u32 where "FNV_32_BASIS = 2166136261"

section \<open>Operations\<close>

text \<open>\<open>hash_clear\<close>: the elements given to the destructor, in order, and the empty table.\<close>

definition hash_clear :: "hash \<Rightarrow> bool \<Rightarrow> nat list \<times> hash" where
  "hash_clear h destructor =
     (if destructor then concat (buckets h) else [],
      h\<lparr>buckets := replicate (unat (bucket_cnt h)) [], elem_cnt := 0\<rparr>)"

definition hash_init :: "bool \<Rightarrow> bool \<times> hash" where
  "hash_init mem = (let h = \<lparr>elem_cnt = 0, bucket_cnt = 4, buckets = []\<rparr> in
     if mem then (True, snd (hash_clear h False)) else (False, h))"

definition hash_destroy :: "hash \<Rightarrow> bool \<Rightarrow> nat list" where
  "hash_destroy h destructor = (if destructor then fst (hash_clear h True) else [])"

definition find_bucket :: "(nat \<Rightarrow> u32) \<Rightarrow> hash \<Rightarrow> nat \<Rightarrow> nat" where
  "find_bucket hf h e = unat (hf e AND (bucket_cnt h - 1))"

definition find_elem :: "(nat \<Rightarrow> nat \<Rightarrow> bool) \<Rightarrow> nat list \<Rightarrow> nat \<Rightarrow> nat option" where
  "find_elem lt bucket e = List.find (\<lambda>hi. \<not> lt hi e \<and> \<not> lt e hi) bucket"

definition turn_off_least_1bit :: "u32 \<Rightarrow> u32" where
  "turn_off_least_1bit x = x AND (x - 1)"

definition is_power_of_2 :: "u32 \<Rightarrow> bool" where
  "is_power_of_2 x \<longleftrightarrow> x \<noteq> 0 \<and> turn_off_least_1bit x = 0"

text \<open>The loop that rounds the new number of buckets down to a power of two.\<close>

partial_function (option) round_loop :: "u32 \<Rightarrow> u32 option" where
  "round_loop n = (if \<not> is_power_of_2 n then round_loop (turn_off_least_1bit n) else Some n)"

text \<open>An element moves to the front of its new bucket.\<close>

definition move_elem :: "(nat \<Rightarrow> u32) \<Rightarrow> nat \<Rightarrow> hash \<Rightarrow> hash" where
  "move_elem hf e h = (let i = find_bucket hf h e in h\<lparr>buckets := (buckets h)[i := e # buckets h ! i]\<rparr>)"

definition rehash :: "(nat \<Rightarrow> u32) \<Rightarrow> bool \<Rightarrow> hash \<Rightarrow> hash option" where
  "rehash hf mem h = do {
     let n0 = elem_cnt h div BEST_ELEMS_PER_BUCKET;
     let n1 = (if n0 < 4 then 4 else n0);
     n \<leftarrow> round_loop n1;
     if n = bucket_cnt h then Some h
     else if \<not> mem then Some h
     else Some (fold (move_elem hf) (concat (buckets h))
                  (h\<lparr>buckets := replicate (unat n) [], bucket_cnt := n\<rparr>)) }"

definition insert_elem :: "hash \<Rightarrow> nat \<Rightarrow> nat \<Rightarrow> hash" where
  "insert_elem h i e = h\<lparr>elem_cnt := elem_cnt h + 1, buckets := (buckets h)[i := e # buckets h ! i]\<rparr>"

definition remove_elem :: "hash \<Rightarrow> nat \<Rightarrow> hash" where
  "remove_elem h e = h\<lparr>elem_cnt := elem_cnt h - 1, buckets := map (remove1 e) (buckets h)\<rparr>"

definition hash_insert :: "(nat \<Rightarrow> u32) \<Rightarrow> (nat \<Rightarrow> nat \<Rightarrow> bool) \<Rightarrow> bool \<Rightarrow> hash \<Rightarrow> nat \<Rightarrow> (nat option \<times> hash) option" where
  "hash_insert hf lt mem h new = do {
     let i = find_bucket hf h new;
     let old = find_elem lt (buckets h ! i) new;
     h1 \<leftarrow> rehash hf mem (if old = None then insert_elem h i new else h);
     Some (old, h1) }"

definition hash_replace :: "(nat \<Rightarrow> u32) \<Rightarrow> (nat \<Rightarrow> nat \<Rightarrow> bool) \<Rightarrow> bool \<Rightarrow> hash \<Rightarrow> nat \<Rightarrow> (nat option \<times> hash) option" where
  "hash_replace hf lt mem h new = do {
     let i = find_bucket hf h new;
     let old = find_elem lt (buckets h ! i) new;
     let h1 = (case old of None \<Rightarrow> h | Some e \<Rightarrow> remove_elem h e);
     h2 \<leftarrow> rehash hf mem (insert_elem h1 i new);
     Some (old, h2) }"

definition hash_find :: "(nat \<Rightarrow> u32) \<Rightarrow> (nat \<Rightarrow> nat \<Rightarrow> bool) \<Rightarrow> hash \<Rightarrow> nat \<Rightarrow> nat option" where
  "hash_find hf lt h e = find_elem lt (buckets h ! find_bucket hf h e) e"

definition hash_delete :: "(nat \<Rightarrow> u32) \<Rightarrow> (nat \<Rightarrow> nat \<Rightarrow> bool) \<Rightarrow> bool \<Rightarrow> hash \<Rightarrow> nat \<Rightarrow> (nat option \<times> hash) option" where
  "hash_delete hf lt mem h e = (case hash_find hf lt h e of
     None \<Rightarrow> Some (None, h)
   | Some x \<Rightarrow> do { h1 \<leftarrow> rehash hf mem (remove_elem h x); Some (Some x, h1) })"

text \<open>\<open>hash_apply\<close>: the elements given to the action, in order.\<close>

definition hash_apply :: "hash \<Rightarrow> nat list" where
  "hash_apply h = concat (buckets h)"

definition hash_size :: "hash \<Rightarrow> u32" where
  "hash_size h = elem_cnt h"

definition hash_empty :: "hash \<Rightarrow> bool" where
  "hash_empty h \<longleftrightarrow> elem_cnt h = 0"

text \<open>Iterators. The position inside a bucket is the sequence of the elements after it.\<close>

definition hash_first :: "hash \<Rightarrow> hash_iterator" where
  "hash_first h = \<lparr>it_bucket = 0, it_elem = None, it_rest = buckets h ! 0\<rparr>"

function next_bucket :: "hash \<Rightarrow> nat \<Rightarrow> hash_iterator" where
  "next_bucket h i =
     (if unat (bucket_cnt h) \<le> i + 1 then \<lparr>it_bucket = i + 1, it_elem = None, it_rest = []\<rparr>
      else case buckets h ! (i + 1) of
        [] \<Rightarrow> next_bucket h (i + 1)
      | e # r \<Rightarrow> \<lparr>it_bucket = i + 1, it_elem = Some e, it_rest = r\<rparr>)"
  by auto
termination
  by (relation "measure (\<lambda>(h, i). unat (bucket_cnt h) - i)") auto

definition hash_next :: "hash \<Rightarrow> hash_iterator \<Rightarrow> nat option \<times> hash_iterator" where
  "hash_next h it = (let it1 =
     (case it_rest it of
        e # r \<Rightarrow> it\<lparr>it_elem := Some e, it_rest := r\<rparr>
      | [] \<Rightarrow> next_bucket h (it_bucket it)) in (it_elem it1, it1))"

definition hash_cur :: "hash_iterator \<Rightarrow> nat option" where
  "hash_cur it = it_elem it"

text \<open>The iteration idiom of the comment of \<open>hash_first\<close>, for at most \<open>n\<close> elements.\<close>

primrec iterate :: "nat \<Rightarrow> hash \<Rightarrow> hash_iterator \<Rightarrow> nat list option" where
  "iterate 0 h it = None"
| "iterate (Suc n) h it = (case hash_next h it of
     (None, it1) \<Rightarrow> Some []
   | (Some e, it1) \<Rightarrow> map_option ((#) e) (iterate n h it1))"

section \<open>Hash functions\<close>

definition fnv :: "byte list \<Rightarrow> u32" where
  "fnv bs = fold (\<lambda>b acc. (acc * FNV_32_PRIME) XOR ucast b) bs FNV_32_BASIS"

definition hash_bytes :: "byte list \<Rightarrow> nat \<Rightarrow> u32 option" where
  "hash_bytes buf size0 = (if length buf < size0 then None else Some (fnv (take size0 buf)))"

fun string_loop :: "byte list \<Rightarrow> u32 \<Rightarrow> u32 option" where
  "string_loop [] acc = None"
| "string_loop (b # s) acc = (if b \<noteq> 0 then string_loop s ((acc * FNV_32_PRIME) XOR ucast b) else Some acc)"

definition hash_string :: "byte list \<Rightarrow> u32 option" where
  "hash_string s = string_loop s FNV_32_BASIS"

definition hash_int :: "u32 \<Rightarrow> u32 option" where
  "hash_int i = hash_bytes (le32 i) 4"

section \<open>Powers of two\<close>

definition off :: "nat \<Rightarrow> nat" where
  "off n = n AND (n - 1)"

lemma off_double: "0 < m \<Longrightarrow> off (2 * m) = 2 * off m"
proof -
  assume "0 < m"
  then have "(2 * m - 1) div 2 = m - 1" by linarith
  then show ?thesis by (simp add: off_def and_rec [of "2 * m"])
qed

lemma off_odd: "off (2 * m + 1) = 2 * m"
  by (simp add: off_def and_rec [of "Suc (2 * m)"] and_rec [of m m, symmetric])

lemma off_less: "0 < n \<Longrightarrow> off n < n"
proof (induction n rule: less_induct)
  case (less n)
  show ?case
  proof (cases "even n")
    case True
    then obtain m where m: "n = 2 * m" by blast
    with less have "off m < m" by simp
    with m less.prems show ?thesis by (simp add: off_double)
  next
    case False
    then obtain m where "n = 2 * m + 1" by (rule oddE)
    then show ?thesis using off_odd [of m] by simp
  qed
qed

text \<open>Turning off the lowest bit keeps the highest one, unless they are the same.\<close>

lemma off_high: "2 ^ k \<le> n \<Longrightarrow> n < 2 ^ (k + 1) \<Longrightarrow> (off n = 0 \<longleftrightarrow> n = 2 ^ k) \<and> (off n \<noteq> 0 \<longrightarrow> 2 ^ k \<le> off n)"
proof (induction k arbitrary: n)
  case 0
  then have "n = 1" by simp
  then show ?case by (simp add: off_def)
next
  case (Suc k)
  show ?case
  proof (cases "even n")
    case True
    then obtain m where m: "n = 2 * m" by blast
    with Suc.prems have "2 ^ k \<le> m" "m < 2 ^ (k + 1)" by auto
    moreover from this have "0 < m" by (meson less_le_trans zero_less_numeral zero_less_power)
    ultimately show ?thesis using Suc.IH [of m] m by (auto simp: off_double)
  next
    case False
    then obtain m where m: "n = 2 * m + 1" by (rule oddE)
    with Suc.prems have "2 ^ k \<le> m" by simp
    moreover have "(0 :: nat) < 2 ^ k" by simp
    ultimately have "0 < m" by linarith
    moreover have "n \<noteq> 2 ^ Suc k" using m by (metis even_Suc even_mult_iff even_two_times_div_two Suc_eq_plus1 dvd_triv_left power_Suc)
    ultimately show ?thesis using m off_odd [of m] \<open>2 ^ k \<le> m\<close> by simp
  qed
qed

lemma unat_turn_off: "x \<noteq> 0 \<Longrightarrow> unat (turn_off_least_1bit x) = off (unat x)"
  by (simp add: turn_off_least_1bit_def off_def unsigned_and_eq unat_minus_one)

lemma power_of_2_off: "x \<noteq> 0 \<Longrightarrow> is_power_of_2 x \<longleftrightarrow> off (unat x) = 0"
  using unat_turn_off [of x] by (auto simp: is_power_of_2_def unat_eq_zero)

lemma round_loop_spec:
  assumes "2 ^ k \<le> unat x" and "unat x < 2 ^ (k + 1)"
  shows "\<exists>y. round_loop x = Some y \<and> unat y = 2 ^ k \<and> is_power_of_2 y"
  using assms
proof (induction "unat x" arbitrary: x rule: less_induct)
  case less
  have nz: "x \<noteq> 0" using less.prems(1) by auto
  note o = off_high [OF less.prems]
  show ?case
  proof (cases "is_power_of_2 x")
    case True
    with o nz power_of_2_off show ?thesis by (subst round_loop.simps) simp
  next
    case False
    then have "off (unat x) \<noteq> 0" using power_of_2_off [OF nz] by simp
    with o have "2 ^ k \<le> unat (turn_off_least_1bit x)" using unat_turn_off [OF nz] by simp
    moreover have lt: "unat (turn_off_least_1bit x) < unat x"
      using unat_turn_off [OF nz] off_less [of "unat x"] nz by (simp add: unat_gt_0)
    ultimately show ?thesis
      using less.hyps [OF lt] less.prems(2) False by (subst round_loop.simps) auto
  qed
qed

section \<open>The invariant of a table\<close>

text \<open>The order of the elements is that of a key, and elements with equal keys have equal hash
  values, which is what a user of a table must provide.\<close>

definition hash_fits :: "(nat \<Rightarrow> u32) \<Rightarrow> (nat \<Rightarrow> 'k) \<Rightarrow> bool" where
  "hash_fits hf key \<longleftrightarrow> (\<forall>a b. key a = key b \<longrightarrow> hf a = hf b)"

definition elems :: "hash \<Rightarrow> nat list" where
  "elems h = concat (buckets h)"

definition placed :: "(nat \<Rightarrow> u32) \<Rightarrow> hash \<Rightarrow> bool" where
  "placed hf h \<longleftrightarrow> length (buckets h) = unat (bucket_cnt h) \<and> bucket_cnt h \<noteq> 0
     \<and> (\<forall>i < length (buckets h). \<forall>e \<in> set (buckets h ! i). find_bucket hf h e = i)"

definition hash_inv :: "(nat \<Rightarrow> u32) \<Rightarrow> (nat \<Rightarrow> 'k) \<Rightarrow> hash \<Rightarrow> bool" where
  "hash_inv hf key h \<longleftrightarrow> placed hf h \<and> is_power_of_2 (bucket_cnt h) \<and> 4 \<le> bucket_cnt h
     \<and> distinct (map key (elems h)) \<and> unat (elem_cnt h) = length (elems h)"

text \<open>The contents: the element of each key.\<close>

definition tbl :: "(nat \<Rightarrow> 'k) \<Rightarrow> hash \<Rightarrow> 'k \<Rightarrow> nat option" where
  "tbl key h k = List.find (\<lambda>e. key e = k) (elems h)"

lemma find_Some_distinct:
  "distinct (map key xs) \<Longrightarrow> List.find (\<lambda>e. key e = k) xs = Some e \<longleftrightarrow> e \<in> set xs \<and> key e = k"
  by (induction xs) (auto simp: image_iff)

lemma find_bucket_less: "bucket_cnt h \<noteq> 0 \<Longrightarrow> find_bucket hf h e < unat (bucket_cnt h)"
proof -
  assume nz: "bucket_cnt h \<noteq> 0"
  have "hf e AND (bucket_cnt h - 1) \<le> bucket_cnt h - 1" by (rule word_and_le1)
  then have "find_bucket hf h e \<le> unat (bucket_cnt h - 1)" by (simp add: find_bucket_def word_le_nat_alt)
  moreover have "0 < unat (bucket_cnt h)" using nz by (simp add: unat_gt_0)
  ultimately show ?thesis using unat_minus_one [OF nz] by linarith
qed

lemma in_elems: "e \<in> set (elems h) \<longleftrightarrow> (\<exists>i < length (buckets h). e \<in> set (buckets h ! i))"
  by (simp add: elems_def) (metis in_set_conv_nth)

lemma placed_elem:
  assumes "placed hf h"
  shows "e \<in> set (elems h) \<longleftrightarrow> e \<in> set (buckets h ! find_bucket hf h e)" and "find_bucket hf h e < length (buckets h)"
proof -
  show f: "find_bucket hf h e < length (buckets h)" using assms find_bucket_less by (simp add: placed_def)
  then show "e \<in> set (elems h) \<longleftrightarrow> e \<in> set (buckets h ! find_bucket hf h e)"
    using assms by (auto simp: in_elems placed_def)
qed

lemma mset_concat_update:
  "i < length bs \<Longrightarrow> mset (concat (bs[i := e # bs ! i])) = add_mset e (mset (concat bs))"
  by (induction bs arbitrary: i) (auto split: nat.split)

lemma mset_concat_remove1:
  assumes "distinct (concat bs)" and "e \<in> set (concat bs)"
  shows "mset (concat (map (remove1 e) bs)) = mset (concat bs) - {#e#}"
  using assms
proof (induction bs)
  case (Cons b bs)
  show ?case
  proof (cases "e \<in> set b")
    case True
    with Cons.prems have "e \<notin> set (concat bs)" by auto
    then have "map (remove1 e) bs = bs" by (auto intro!: map_idI remove1_idem)
    with True show ?thesis by (simp add: mset_remove1)
  next
    case False
    with Cons.prems have "{#e#} \<subseteq># mset (concat bs)" by auto
    with False Cons show ?thesis by (simp add: remove1_idem subset_mset.add_diff_assoc)
  qed
qed simp

text \<open>Lookup inside the bucket of a key is lookup in the whole table.\<close>

lemma find_elem_tbl:
  assumes fits: "hash_fits hf key" and p: "placed hf h" and d: "distinct (map key (elems h))"
  shows "find_elem (\<lambda>a b. key a < (key b :: 'k :: linorder)) (buckets h ! find_bucket hf h e) e = tbl key h (key e)"
proof -
  let ?b = "buckets h ! find_bucket hf h e"
  have "distinct (map key ?b)"
  proof -
    have "?b \<in> set (buckets h)" using placed_elem(2) [OF p] by (rule nth_mem)
    from split_list [OF this] obtain us vs where "buckets h = us @ ?b # vs" by blast
    from arg_cong [OF this, of concat] have "elems h = concat us @ ?b @ concat vs" by (simp add: elems_def)
    then have "distinct (map key (concat us @ ?b @ concat vs))" using d by simp
    then show ?thesis by simp
  qed
  moreover have "x \<in> set ?b \<longleftrightarrow> x \<in> set (elems h)" if "key x = key e" for x
  proof -
    have "hf x = hf e" using fits that unfolding hash_fits_def by blast
    then have "find_bucket hf h x = find_bucket hf h e" by (simp add: find_bucket_def)
    then show ?thesis using placed_elem(1) [OF p, of x] by simp
  qed
  moreover have "find_elem (\<lambda>a b. key a < key b) ?b e = List.find (\<lambda>x. key x = key e) ?b"
    unfolding find_elem_def by (rule arg_cong [of _ _ "\<lambda>P. List.find P ?b"]) (auto simp: fun_eq_iff)
  ultimately have "find_elem (\<lambda>a b. key a < key b) ?b e = Some x \<longleftrightarrow> tbl key h (key e) = Some x" for x
    using find_Some_distinct [of key ?b "key e" x] find_Some_distinct [OF d, of "key e" x] by (auto simp: tbl_def)
  then show ?thesis by (metis option.exhaust)
qed

lemma tbl_Some: "distinct (map key (elems h)) \<Longrightarrow> tbl key h k = Some e \<longleftrightarrow> e \<in> set (elems h) \<and> key e = k"
  unfolding tbl_def by (rule find_Some_distinct)

lemma tbl_None: "tbl key h k = None \<longleftrightarrow> k \<notin> key ` set (elems h)"
  by (auto simp: tbl_def find_None_iff)

text \<open>A table is determined by the set of its elements.\<close>

lemma tbl_cong:
  assumes "distinct (map key (elems h))" "mset (elems h') = mset (elems h)"
  shows "tbl key h' = tbl key h" and "distinct (map key (elems h'))"
proof -
  show d: "distinct (map key (elems h'))"
    using assms mset_eq_imp_distinct_iff [of "map key (elems h')" "map key (elems h)"] by simp
  have "set (elems h') = set (elems h)" using assms(2) by (rule mset_eq_setD)
  then have "tbl key h' k = Some e \<longleftrightarrow> tbl key h k = Some e" for k e
    by (simp add: tbl_Some [OF d] tbl_Some [OF assms(1)])
  then show "tbl key h' = tbl key h" by (metis option.exhaust ext)
qed

section \<open>The operations keep the invariant\<close>

lemma move_elem_fields [simp]:
  "bucket_cnt (move_elem hf e h) = bucket_cnt h" "elem_cnt (move_elem hf e h) = elem_cnt h"
  "find_bucket hf (move_elem hf e h) = find_bucket hf h"
  by (simp_all add: move_elem_def Let_def find_bucket_def fun_eq_iff)

lemma add_front_placed:
  assumes "placed hf h" and "h' = h\<lparr>buckets := (buckets h)[i := e # buckets h ! i]\<rparr>" and "i = find_bucket hf h e"
  shows "placed hf h'" and "mset (elems h') = add_mset e (mset (elems h))"
proof -
  have i: "i < length (buckets h)" using placed_elem(2) [OF assms(1)] assms(3) by simp
  have f: "find_bucket hf h' = find_bucket hf h" by (simp add: assms(2) find_bucket_def fun_eq_iff)
  show "placed hf h'"
    using assms(1) assms(3) i unfolding placed_def f by (auto simp: assms(2) nth_list_update split: if_splits)
  show "mset (elems h') = add_mset e (mset (elems h))"
    using mset_concat_update [OF i] by (simp add: elems_def assms(2))
qed

lemma move_elem_placed:
  assumes "placed hf h"
  shows "placed hf (move_elem hf e h)" "mset (elems (move_elem hf e h)) = add_mset e (mset (elems h))"
  using add_front_placed [OF assms, of "move_elem hf e h" "find_bucket hf h e" e] by (simp_all add: move_elem_def Let_def)

lemma fold_move:
  "placed hf h \<Longrightarrow> placed hf (fold (move_elem hf) es h)
     \<and> mset (elems (fold (move_elem hf) es h)) = mset es + mset (elems h)
     \<and> bucket_cnt (fold (move_elem hf) es h) = bucket_cnt h \<and> elem_cnt (fold (move_elem hf) es h) = elem_cnt h"
proof (induction es arbitrary: h)
  case (Cons e es)
  from Cons.IH [OF move_elem_placed(1) [OF Cons.prems]] move_elem_placed(2) [OF Cons.prems] show ?case by simp
qed simp

lemma nat_log2: "0 < (n :: nat) \<Longrightarrow> \<exists>k. 2 ^ k \<le> n \<and> n < 2 ^ (k + 1)"
  using ex_power_ivl1 [of 2 n] by simp

text \<open>Resizing keeps the elements; the number of buckets is a power of two, at least four, and when
  the allocation succeeds it is the largest one that fits.\<close>

lemma rehash_spec:
  assumes p: "placed hf h" and pow: "is_power_of_2 (bucket_cnt h)" "4 \<le> bucket_cnt h"
  shows "\<exists>h'. rehash hf mem h = Some h' \<and> placed hf h' \<and> mset (elems h') = mset (elems h) \<and> elem_cnt h' = elem_cnt h
     \<and> is_power_of_2 (bucket_cnt h') \<and> 4 \<le> bucket_cnt h'
     \<and> (mem \<longrightarrow> unat (bucket_cnt h') \<le> max 4 (unat (elem_cnt h) div 2) \<and> max 4 (unat (elem_cnt h) div 2) < 2 * unat (bucket_cnt h'))"
proof -
  define n0 where "n0 = elem_cnt h div BEST_ELEMS_PER_BUCKET"
  define n1 where "n1 = (if n0 < 4 then 4 else n0)"
  have n0: "unat n0 = unat (elem_cnt h) div 2" by (simp add: n0_def BEST_ELEMS_PER_BUCKET_def unat_div)
  have n1: "unat n1 = max 4 (unat (elem_cnt h) div 2)"
    using n0 by (auto simp: n1_def word_less_nat_alt)
  then have "0 < unat n1" by simp
  from nat_log2 [OF this] obtain k where k: "2 ^ k \<le> unat n1" "unat n1 < 2 ^ (k + 1)" by blast
  have "2 \<le> k"
  proof (rule ccontr)
    assume "\<not> 2 \<le> k"
    then have "(2 :: nat) ^ (k + 1) \<le> 2 ^ 2" by (intro power_increasing) auto
    with k(2) n1 show False by simp
  qed
  then have k4: "(4 :: nat) \<le> 2 ^ k" using power_increasing [of 2 k "2 :: nat"] by simp
  from round_loop_spec [OF k] obtain n where n: "round_loop n1 = Some n" "unat n = 2 ^ k" "is_power_of_2 n" by blast
  have n4: "4 \<le> n" using n(2) k4 by (simp add: word_le_nat_alt)
  have eq: "rehash hf mem h = (if n = bucket_cnt h \<or> \<not> mem then Some h
      else Some (fold (move_elem hf) (concat (buckets h)) (h\<lparr>buckets := replicate (unat n) [], bucket_cnt := n\<rparr>)))"
    using n(1) by (simp add: rehash_def Let_def n0_def [symmetric] n1_def [symmetric])
  show ?thesis
  proof (cases "n = bucket_cnt h \<or> \<not> mem")
    case True
    with eq p pow n k n1 show ?thesis by auto
  next
    case False
    let ?h = "h\<lparr>buckets := replicate (unat n) [], bucket_cnt := n\<rparr>"
    have "placed hf ?h" using n4 by (auto simp: placed_def)
    from fold_move [OF this, of "concat (buckets h)"] False eq n n4 k n1 show ?thesis
      by (simp add: elems_def)
  qed
qed

lemma rehash_inv:
  assumes "hash_inv hf key h"
  shows "\<exists>h'. rehash hf mem h = Some h' \<and> hash_inv hf key h' \<and> tbl key h' = tbl key h \<and> elem_cnt h' = elem_cnt h"
proof -
  from assms have p: "placed hf h" "is_power_of_2 (bucket_cnt h)" "4 \<le> bucket_cnt h"
    and d: "distinct (map key (elems h))" and c: "unat (elem_cnt h) = length (elems h)" by (auto simp: hash_inv_def)
  from rehash_spec [OF p, of mem] obtain h' where h': "rehash hf mem h = Some h'" "placed hf h'"
    "mset (elems h') = mset (elems h)" "elem_cnt h' = elem_cnt h" "is_power_of_2 (bucket_cnt h')" "4 \<le> bucket_cnt h'" by blast
  note t = tbl_cong [OF d h'(3)]
  have "length (elems h') = length (elems h)" using h'(3) by (rule mset_eq_length)
  with h' t c show ?thesis by (simp add: hash_inv_def)
qed

text \<open>Inserting an element with a new key, and removing an element.\<close>

lemma insert_elem_inv:
  assumes inv: "hash_inv hf key h" and new: "tbl key h (key e) = None" and room: "length (elems h) < 2 ^ 32 - 1"
  shows "hash_inv hf key (insert_elem h (find_bucket hf h e) e)"
    and "tbl key (insert_elem h (find_bucket hf h e) e) = (tbl key h)(key e \<mapsto> e)"
proof -
  let ?h = "insert_elem h (find_bucket hf h e) e"
  let ?g = "h\<lparr>buckets := (buckets h)[find_bucket hf h e := e # buckets h ! find_bucket hf h e]\<rparr>"
  have p: "placed hf h" and d: "distinct (map key (elems h))" and c: "unat (elem_cnt h) = length (elems h)"
    using inv by (auto simp: hash_inv_def)
  have same: "placed hf ?h = placed hf ?g" "elems ?h = elems ?g" by (simp_all add: insert_elem_def placed_def find_bucket_def elems_def)
  note a = add_front_placed [OF p refl refl, of e, folded same]
  from a(2) have m: "mset (elems ?h) = mset (e # elems h)" by simp
  have "distinct (map key (e # elems h))" using d new by (auto simp: tbl_None)
  moreover have "mset (map key (elems ?h)) = mset (map key (e # elems h))" using m by (simp only: mset_map)
  ultimately have d': "distinct (map key (elems ?h))" using mset_eq_imp_distinct_iff by metis
  have "unat (elem_cnt ?h) = unat (elem_cnt h) + 1"
    using c room by (simp add: insert_elem_def unat_word_ariths)
  moreover have "length (elems ?h) = length (elems h) + 1" using mset_eq_length [OF m] by simp
  ultimately show "hash_inv hf key ?h" using inv a(1) d' c by (simp add: hash_inv_def insert_elem_def)
  have new_key: "key x \<noteq> key e" if "x \<in> set (elems h)" for x using new that unfolding tbl_None by (metis imageI)
  have "set (elems ?h) = insert e (set (elems h))" using mset_eq_setD [OF m] by simp
  then have "tbl key ?h k = Some x \<longleftrightarrow> ((tbl key h)(key e \<mapsto> e)) k = Some x" for k x
    using new_key by (auto simp: tbl_Some [OF d'] tbl_Some [OF d])
  then show "tbl key ?h = (tbl key h)(key e \<mapsto> e)" by (metis option.exhaust ext)
qed

lemma remove_elem_inv:
  assumes inv: "hash_inv hf key h" and e: "e \<in> set (elems h)"
  shows "hash_inv hf key (remove_elem h e)" and "tbl key (remove_elem h e) = (tbl key h)(key e := None)"
    and "elems (remove_elem h e) = [] \<or> length (elems (remove_elem h e)) < length (elems h)"
    and "find_bucket hf (remove_elem h e) = find_bucket hf h"
proof -
  let ?h = "remove_elem h e"
  have p: "placed hf h" and d: "distinct (map key (elems h))" and c: "unat (elem_cnt h) = length (elems h)"
    using inv by (auto simp: hash_inv_def)
  show f: "find_bucket hf ?h = find_bucket hf h" by (simp add: remove_elem_def find_bucket_def fun_eq_iff)
  have dd: "distinct (elems h)" using d by (rule distinct_map [THEN iffD1, THEN conjunct1])
  have m: "mset (elems ?h) = mset (elems h) - {#e#}"
    using mset_concat_remove1 [of "buckets h" e] dd e by (simp add: elems_def remove_elem_def)
  then have m': "mset (elems ?h) = mset (remove1 e (elems h))" by (simp add: mset_remove1)
  have "distinct (map key (remove1 e (elems h)))"
    using d by (auto simp: distinct_map intro: inj_on_diff)
  moreover have "mset (map key (elems ?h)) = mset (map key (remove1 e (elems h)))" using m' by (simp only: mset_map)
  ultimately have d': "distinct (map key (elems ?h))" using mset_eq_imp_distinct_iff by metis
  have len: "length (elems ?h) = length (elems h) - 1" "0 < length (elems h)"
    using mset_eq_length [OF m'] e by (auto simp: length_remove1)
  then show "elems ?h = [] \<or> length (elems ?h) < length (elems h)" by linarith
  have "elem_cnt h \<noteq> 0" using c len(2) by auto
  then have "unat (elem_cnt ?h) = length (elems ?h)" using c len by (simp add: remove_elem_def unat_minus_one)
  moreover have "placed hf ?h"
    using p unfolding placed_def f by (auto simp: remove_elem_def dest: notin_set_remove1 set_remove1_subset [THEN subsetD])
  ultimately show "hash_inv hf key ?h" using inv d' by (simp add: hash_inv_def remove_elem_def)
  have "set (elems ?h) = set (elems h) - {e}" using mset_eq_setD [OF m'] dd by simp
  moreover have "x = e" if "x \<in> set (elems h)" "key x = key e" for x
    using d that e by (auto simp: distinct_map inj_on_def)
  ultimately have "tbl key ?h k = Some x \<longleftrightarrow> ((tbl key h)(key e := None)) k = Some x" for k x
    by (auto simp: tbl_Some [OF d'] tbl_Some [OF d])
  then show "tbl key ?h = (tbl key h)(key e := None)" by (metis option.exhaust ext)
qed

section \<open>Iteration\<close>

declare next_bucket.simps [simp del]

text \<open>What an iterator has still to deliver.\<close>

definition it_left :: "hash \<Rightarrow> hash_iterator \<Rightarrow> nat list" where
  "it_left h it = it_rest it @ concat (drop (it_bucket it + 1) (buckets h))"

lemma next_bucket_left:
  assumes "length (buckets h) = unat (bucket_cnt h)"
  shows "case concat (drop (i + 1) (buckets h)) of
       [] \<Rightarrow> it_elem (next_bucket h i) = None
     | e # r \<Rightarrow> it_elem (next_bucket h i) = Some e \<and> it_left h (next_bucket h i) = r"
  using assms
proof (induction h i rule: next_bucket.induct)
  case (1 h i)
  show ?case
  proof (cases "unat (bucket_cnt h) \<le> i + 1")
    case True
    with "1.prems" show ?thesis by (simp add: next_bucket.simps)
  next
    case False
    then have d: "drop (i + 1) (buckets h) = buckets h ! (i + 1) # drop (i + 2) (buckets h)"
      using "1.prems" by (simp add: Cons_nth_drop_Suc [symmetric])
    show ?thesis
    proof (cases "buckets h ! (i + 1)")
      case Nil
      with d False have "next_bucket h i = next_bucket h (i + 1)" by (subst next_bucket.simps) simp
      moreover have "concat (drop (i + 1) (buckets h)) = concat (drop (i + 1 + 1) (buckets h))" using d Nil by simp
      ultimately show ?thesis using "1.IH" [OF False Nil "1.prems"] by (simp only:)
    next
      case (Cons e r)
      with d False show ?thesis by (simp add: next_bucket.simps [of h i] it_left_def)
    qed
  qed
qed

lemma iterate_all:
  assumes "length (buckets h) = unat (bucket_cnt h)" and "length (it_left h it) < n"
  shows "iterate n h it = Some (it_left h it)"
  using assms(2)
proof (induction n arbitrary: it)
  case (Suc n)
  show ?case
  proof (cases "it_left h it")
    case Nil
    then have "it_rest it = []" "concat (drop (it_bucket it + 1) (buckets h)) = []" by (simp_all add: it_left_def)
    moreover from this next_bucket_left [OF assms(1), of "it_bucket it"]
    have "it_elem (next_bucket h (it_bucket it)) = None" by (simp only: list.case)
    ultimately show ?thesis using Nil by (simp add: hash_next_def Let_def)
  next
    case (Cons e r)
    obtain it1 where it1: "hash_next h it = (Some e, it1)" "it_left h it1 = r"
    proof (cases "it_rest it")
      case Nil
      with Cons next_bucket_left [OF assms(1), of "it_bucket it"] that show ?thesis
        by (auto simp: it_left_def hash_next_def Let_def)
    next
      case (Cons x r')
      with \<open>it_left h it = e # r\<close> that show ?thesis by (auto simp: it_left_def hash_next_def Let_def)
    qed
    from Suc.IH [of it1] it1 Cons Suc.prems show ?thesis by simp
  qed
qed simp

section \<open>Properties\<close>

text \<open>C15. A hash table is a finite map. For a hash function that respects the keys, \<open>hash_find\<close> returns
  the element of the key; \<open>hash_insert\<close> adds an element only when its key is new and returns the
  element that was there; \<open>hash_replace\<close> installs the element in any case; \<open>hash_delete\<close> removes it.
  All of them keep the invariant of the table, whether the table is resized or not, and also when
  the memory for new buckets cannot be allocated.\<close>

theorem hash_refines_map:
  fixes key :: "nat \<Rightarrow> 'k :: linorder"
  assumes fits: "hash_fits hf key" and inv: "hash_inv hf key h" and room: "length (elems h) < 2 ^ 32 - 1"
  shows "hash_find hf (\<lambda>a b. key a < key b) h e = tbl key h (key e)
     \<and> (\<exists>h'. hash_insert hf (\<lambda>a b. key a < key b) mem h e = Some (tbl key h (key e), h') \<and> hash_inv hf key h'
          \<and> tbl key h' = (if tbl key h (key e) = None then (tbl key h)(key e \<mapsto> e) else tbl key h))
     \<and> (\<exists>h'. hash_replace hf (\<lambda>a b. key a < key b) mem h e = Some (tbl key h (key e), h') \<and> hash_inv hf key h'
          \<and> tbl key h' = (tbl key h)(key e \<mapsto> e))
     \<and> (\<exists>h'. hash_delete hf (\<lambda>a b. key a < key b) mem h e = Some (tbl key h (key e), h') \<and> hash_inv hf key h'
          \<and> tbl key h' = (tbl key h)(key e := None))"
proof -
  let ?lt = "\<lambda>a b. key a < key b"
  have d: "distinct (map key (elems h))" and p: "placed hf h" using inv by (auto simp: hash_inv_def)
  note look = find_elem_tbl [OF fits p d, of e]
  have find: "hash_find hf ?lt h e = tbl key h (key e)" by (simp add: hash_find_def look)
  have ins: "\<exists>h'. rehash hf mem (insert_elem g (find_bucket hf g e) e) = Some h' \<and> hash_inv hf key h'
      \<and> tbl key h' = (tbl key g)(key e \<mapsto> e)"
    if "hash_inv hf key g" "tbl key g (key e) = None" "length (elems g) < 2 ^ 32 - 1" for g
    using rehash_inv [OF insert_elem_inv(1) [OF that], of mem] insert_elem_inv(2) [OF that] by auto
  have rem: "hash_inv hf key (remove_elem h x)" "tbl key (remove_elem h x) = (tbl key h)(key e := None)"
    "length (elems (remove_elem h x)) < 2 ^ 32 - 1" "find_bucket hf (remove_elem h x) = find_bucket hf h"
    if "tbl key h (key e) = Some x" for x
  proof -
    have "x \<in> set (elems h)" "key x = key e" using that by (simp_all add: tbl_Some [OF d])
    with remove_elem_inv [OF inv this(1)] room
    show "hash_inv hf key (remove_elem h x)" "tbl key (remove_elem h x) = (tbl key h)(key e := None)"
      "length (elems (remove_elem h x)) < 2 ^ 32 - 1" "find_bucket hf (remove_elem h x) = find_bucket hf h" by auto
  qed
  show ?thesis
  proof (cases "tbl key h (key e)")
    case None
    moreover from this have "(tbl key h)(key e := None) = tbl key h" by (auto simp: fun_eq_iff)
    ultimately show ?thesis
      using ins [OF inv None room] find inv
      by (auto simp: hash_insert_def hash_replace_def hash_delete_def look Let_def)
  next
    case (Some x)
    note r = rem [OF Some]
    have "\<exists>h'. rehash hf mem (insert_elem (remove_elem h x) (find_bucket hf h e) e) = Some h' \<and> hash_inv hf key h'
        \<and> tbl key h' = (tbl key h)(key e \<mapsto> e)"
      using ins [OF r(1) _ r(3)] r(2,4) by simp
    moreover have "\<exists>h'. rehash hf mem (remove_elem h x) = Some h' \<and> hash_inv hf key h' \<and> tbl key h' = (tbl key h)(key e := None)"
      using rehash_inv [OF r(1), of mem] r(2) by auto
    moreover note rehash_inv [OF inv, of mem]
    ultimately show ?thesis
      using Some find by (auto simp: hash_insert_def hash_replace_def hash_delete_def look Let_def)
  qed
qed

lemma hash_init_inv: "hash_inv hf key (snd (hash_init True))"
proof -
  have "is_power_of_2 4" by (simp add: is_power_of_2_def turn_off_least_1bit_def)
  then show ?thesis by (auto simp: hash_inv_def placed_def hash_init_def hash_clear_def elems_def)
qed

theorem hash_refines_map_witness:
  "\<exists>h'. hash_insert (\<lambda>e. of_nat (e mod 8)) (\<lambda>a b. a mod 8 < b mod 8) False (snd (hash_init True)) 13 = Some (None, h')
     \<and> tbl (\<lambda>e. e mod 8) h' 5 = Some 13"
proof -
  let ?h = "snd (hash_init True)"
  have "hash_fits (\<lambda>e. of_nat (e mod 8)) (\<lambda>e. e mod 8)" by (simp add: hash_fits_def)
  moreover have "elems ?h = []" by (simp add: hash_init_def hash_clear_def elems_def)
  moreover from this have "tbl (\<lambda>e. e mod 8) ?h k = None" for k by (simp add: tbl_def)
  ultimately show ?thesis
    using hash_refines_map [OF _ hash_init_inv, of "\<lambda>e. of_nat (e mod 8)" "\<lambda>e. e mod 8" 13 False] by auto
qed

text \<open>Resizing. After every insertion or deletion for which memory is available, the number of
  buckets is the power of two that is right for the number of elements: with \<open>m\<close> the larger of four
  and half the number of elements, it is at most \<open>m\<close> and more than half of \<open>m\<close>. The loop that
  computes it ends, and no element is lost or duplicated.\<close>

theorem rehash_ratio:
  assumes "hash_inv hf key h"
  shows "\<exists>h'. rehash hf True h = Some h' \<and> mset (elems h') = mset (elems h)
     \<and> unat (bucket_cnt h') \<le> max 4 (length (elems h) div 2) \<and> max 4 (length (elems h) div 2) < 2 * unat (bucket_cnt h')"
  using rehash_spec [of hf h True] assms by (auto simp: hash_inv_def)

theorem rehash_ratio_witness: "\<exists>h'. rehash (\<lambda>_. 0) True (snd (hash_init True)) = Some h' \<and> unat (bucket_cnt h') \<le> 4"
  using rehash_ratio [OF hash_init_inv [of "\<lambda>_. 0" "\<lambda>e. e"]] by (auto simp: hash_init_def hash_clear_def elems_def)

text \<open>C16. Iteration visits every element exactly once: the loop of \<open>hash_first\<close> and \<open>hash_next\<close> ends
  after one step more than there are elements and has delivered the elements of all buckets, the
  same as \<open>hash_apply\<close>.\<close>

theorem hash_iterate_all:
  assumes "placed hf h"
  shows "iterate (Suc (length (elems h))) h (hash_first h) = Some (elems h) \<and> hash_apply h = elems h"
proof -
  have b: "length (buckets h) = unat (bucket_cnt h)" "buckets h \<noteq> []" using assms by (auto simp: placed_def unat_eq_zero)
  then have "it_left h (hash_first h) = elems h"
    by (cases "buckets h") (simp_all add: it_left_def hash_first_def elems_def)
  with iterate_all [OF b(1), of "hash_first h" "Suc (length (elems h))"] show ?thesis
    by (simp add: hash_apply_def elems_def)
qed

theorem hash_iterate_all_witness:
  "iterate 3 \<lparr>elem_cnt = 2, bucket_cnt = 2, buckets = [[4, 2], []]\<rparr> (hash_first \<lparr>elem_cnt = 2, bucket_cnt = 2, buckets = [[4, 2], []]\<rparr>)
     = Some [4, 2]"
proof -
  let ?h = "\<lparr>elem_cnt = 2, bucket_cnt = 2, buckets = [[4, 2], []]\<rparr>"
  have "placed (\<lambda>_. 0) ?h" by (auto simp: placed_def find_bucket_def less_Suc_eq)
  from hash_iterate_all [OF this] show ?thesis by (simp add: elems_def numeral_3_eq_3)
qed

text \<open>The hash of a string is the hash of its bytes up to the terminator.\<close>

lemma hash_string_bytes:
  assumes "0 \<notin> set s"
  shows "hash_string (s @ 0 # r) = hash_bytes s (length s)"
proof -
  have "string_loop (s @ 0 # r) acc = Some (fold (\<lambda>b acc. (acc * FNV_32_PRIME) XOR ucast b) s acc)" for acc
    using assms by (induction s arbitrary: acc) auto
  then show ?thesis by (simp add: hash_string_def hash_bytes_def fnv_def)
qed

end
