(* ===== verification/Arith64.thy ===== *)
theory Arith64
  imports Prelude "HOL-Library.Signed_Division"
begin

text \<open>
  The 64-bit division routines of \<^verbatim>\<open>lib/arithmetic.c\<close>, which the compiler calls for \<open>/\<close> and \<open>%\<close> on
  \<open>long long\<close>. The words have the widths of the C types. The instruction \<open>divl\<close> divides 64 by 32 bits
  and traps, \<open>None\<close>, when the divisor is zero or the quotient does not fit 32 bits.

  Division never traps for a nonzero divisor and gives the quotient. The remainder is computed by
  functions whose result type has 32 bits, so that it is right only when it fits.
\<close>

definition divl :: "u64 \<Rightarrow> u32 \<Rightarrow> u32 option" where
  "divl n d = (if d = 0 \<or> unat n div unat d \<ge> 2 ^ 32 then None else Some (of_nat (unat n div unat d)))"

text \<open>One of the conditional shifts of \<open>nlz\<close>.\<close>

definition nlz_shift :: "u32 \<Rightarrow> nat \<Rightarrow> nat \<times> u32 \<Rightarrow> nat \<times> u32" where
  "nlz_shift limit w p = (if snd p \<le> limit then (fst p + w, push_bit w (snd p)) else p)"

definition nlz :: "u32 \<Rightarrow> nat" where
  "nlz x0 =
     (let p = nlz_shift 0x3FFFFFFF 2 (nlz_shift 0x0FFFFFFF 4 (nlz_shift 0x00FFFFFF 8 (nlz_shift 0x0000FFFF 16 (0, x0))))
      in if snd p \<le> 0x7FFFFFFF then fst p + 1 else fst p)"

definition udiv64 :: "u64 \<Rightarrow> u64 \<Rightarrow> u64 option" where
  "udiv64 n d =
     (if drop_bit 32 d = 0 then
        let b = push_bit 32 1; n1 = ucast (drop_bit 32 n) :: u32; n0 = ucast n :: u32; d0 = ucast d :: u32
        in if d0 = 0 then None
           else do {
             q \<leftarrow> divl (b * ucast (n1 mod d0) + ucast n0) d0;
             Some (ucast q + b * ucast (n1 div d0)) }
      else if n < d then Some 0
      else
        let d1 = ucast (drop_bit 32 d) :: u32; s = nlz d1
        in do {
          q0 \<leftarrow> divl (drop_bit 1 n) (ucast (drop_bit 32 (push_bit s d)));
          let q = (ucast (drop_bit (31 - s) q0) :: u64);
          Some (if n - (q - 1) * d < d then q - 1 else q) })"

definition umod64 :: "u64 \<Rightarrow> u64 \<Rightarrow> u32 option" where
  "umod64 n d = do { q \<leftarrow> udiv64 n d; Some (ucast (n - d * q)) }"

definition sdiv64 :: "u64 \<Rightarrow> u64 \<Rightarrow> u64 option" where
  "sdiv64 n d = do {
     let n_abs = (if 0 \<le>s n then n else - n);
     let d_abs = (if 0 \<le>s d then d else - d);
     q_abs \<leftarrow> udiv64 n_abs d_abs;
     Some (if (n <s 0) = (d <s 0) then q_abs else - q_abs) }"

definition smod64 :: "u64 \<Rightarrow> u64 \<Rightarrow> u32 option" where
  "smod64 n d = do { q \<leftarrow> sdiv64 n d; Some (ucast (n - d * q)) }"

definition divdi3 :: "u64 \<Rightarrow> u64 \<Rightarrow> u64 option" where
  "divdi3 n d = sdiv64 n d"

text \<open>The result of type \<open>int32_t\<close> is widened with its sign.\<close>

definition moddi3 :: "u64 \<Rightarrow> u64 \<Rightarrow> u64 option" where
  "moddi3 n d = do { r \<leftarrow> smod64 n d; Some (scast r) }"

definition udivdi3 :: "u64 \<Rightarrow> u64 \<Rightarrow> u64 option" where
  "udivdi3 n d = udiv64 n d"

definition umoddi3 :: "u64 \<Rightarrow> u64 \<Rightarrow> u64 option" where
  "umoddi3 n d = do { r \<leftarrow> umod64 n d; Some (ucast r) }"

section \<open>Leading zeros\<close>

lemma unat_push_bit_small:
  fixes x :: "'a :: len word"
  assumes "unat x * 2 ^ w < 2 ^ LENGTH('a)"
  shows "unat (push_bit w x) = unat x * 2 ^ w"
  unfolding unsigned_push_bit_eq using assms by (simp add: push_bit_eq_mult take_bit_nat_eq_self)

definition nlz_step :: "nat \<Rightarrow> nat \<times> u32 \<Rightarrow> nat \<times> u32" where
  "nlz_step w p = (if unat (snd p) < 2 ^ (32 - w) then (fst p + w, push_bit w (snd p)) else p)"

lemma nlz_step_spec:
  assumes "unat (snd p) = x * 2 ^ fst p" and "2 ^ (32 - 2 * w) \<le> unat (snd p)" and "2 * w \<le> 32"
  shows "unat (snd (nlz_step w p)) = x * 2 ^ fst (nlz_step w p)" "2 ^ (32 - w) \<le> unat (snd (nlz_step w p))"
proof -
  have "unat (push_bit w (snd p)) = unat (snd p) * 2 ^ w \<and> 2 ^ (32 - w) \<le> unat (snd p) * 2 ^ w"
    if "unat (snd p) < 2 ^ (32 - w)"
  proof
    have "unat (snd p) * 2 ^ w < 2 ^ (32 - w) * 2 ^ w" using that by simp
    then have "unat (snd p) * 2 ^ w < 2 ^ 32" using assms(3) by (simp flip: power_add)
    then show "unat (push_bit w (snd p)) = unat (snd p) * 2 ^ w"
      by (intro unat_push_bit_small) simp
    have "(2 :: nat) ^ (32 - w) = 2 ^ (32 - 2 * w) * 2 ^ w" using assms(3) by (simp flip: power_add)
    with assms(2) show "2 ^ (32 - w) \<le> unat (snd p) * 2 ^ w" by simp
  qed
  then show "unat (snd (nlz_step w p)) = x * 2 ^ fst (nlz_step w p)" "2 ^ (32 - w) \<le> unat (snd (nlz_step w p))"
    using assms(1) by (auto simp: nlz_step_def power_add)
qed

lemma nlz_eq: "nlz x = fst (nlz_step 1 (nlz_step 2 (nlz_step 4 (nlz_step 8 (nlz_step 16 (0, x))))))"
proof -
  have c: "y \<le> 0x0000FFFF \<longleftrightarrow> unat y < 2 ^ (32 - 16)" "y \<le> 0x00FFFFFF \<longleftrightarrow> unat y < 2 ^ (32 - 8)"
    "y \<le> 0x0FFFFFFF \<longleftrightarrow> unat y < 2 ^ (32 - 4)" "y \<le> 0x3FFFFFFF \<longleftrightarrow> unat y < 2 ^ (32 - 2)"
    "y \<le> 0x7FFFFFFF \<longleftrightarrow> unat y < 2 ^ (32 - 1)" for y :: u32
    unfolding word_le_nat_alt by (simp_all, arith+)
  have s: "nlz_shift 0x0000FFFF 16 = nlz_step 16" "nlz_shift 0x00FFFFFF 8 = nlz_step 8"
    "nlz_shift 0x0FFFFFFF 4 = nlz_step 4" "nlz_shift 0x3FFFFFFF 2 = nlz_step 2"
    unfolding nlz_shift_def nlz_step_def fun_eq_iff c by simp_all
  show ?thesis unfolding nlz_def s Let_def c nlz_step_def [of 1] by (simp only: fst_conv if_distrib [of fst])
qed

lemma nlz_spec:
  assumes "x \<noteq> 0"
  shows "2 ^ 31 \<le> unat x * 2 ^ nlz x" "unat x * 2 ^ nlz x < 2 ^ 32" "nlz x \<le> 31"
proof -
  define p where "p = nlz_step 2 (nlz_step 4 (nlz_step 8 (nlz_step 16 (0, x))))"
  define r where "r x n p \<longleftrightarrow> unat (snd p) = x * 2 ^ fst p \<and> 2 ^ (32 - n) \<le> unat (snd p)" for x n and p :: "nat \<times> u32"
  have step: "r x (2 * w) p \<Longrightarrow> 2 * w \<le> 32 \<Longrightarrow> r x w (nlz_step w p)" for x w p
    using nlz_step_spec [of p x w] by (simp add: r_def)
  have "r (unat x) 32 (0, x)" using assms by (simp add: r_def unat_gt_0 Suc_leI)
  then have "r (unat x) 16 (nlz_step 16 (0, x))" by (intro step) simp_all
  then have "r (unat x) 8 (nlz_step 8 (nlz_step 16 (0, x)))" by (intro step) simp_all
  then have "r (unat x) 4 (nlz_step 4 (nlz_step 8 (nlz_step 16 (0, x))))" by (intro step) simp_all
  then have "r (unat x) 2 p" unfolding p_def by (intro step) simp_all
  then have p: "unat (snd p) = unat x * 2 ^ fst p" "2 ^ (32 - 2 * 1) \<le> unat (snd p)" by (simp_all add: r_def)
  note f = nlz_step_spec [OF p]
  let ?q = "nlz_step 1 p"
  have n: "nlz x = fst ?q" by (simp add: nlz_eq p_def)
  show "2 ^ 31 \<le> unat x * 2 ^ nlz x" using f by (simp add: n)
  show lt: "unat x * 2 ^ nlz x < 2 ^ 32" 
  proof -
    have "unat (snd ?q) < 2 ^ LENGTH(32)" by (rule unsigned_less)
    with f(1) show ?thesis by (simp add: n)
  qed
  show "nlz x \<le> 31"
  proof (rule ccontr)
    assume "\<not> nlz x \<le> 31"
    then have "(2 :: nat) ^ 32 \<le> 2 ^ nlz x" by (intro power_increasing) auto
    moreover have "0 < unat x" using assms by (simp add: unat_gt_0)
    ultimately show False using lt by (metis One_nat_def Suc_leI mult_le_mono nat_mult_1 not_less)
  qed
qed

section \<open>Unsigned division\<close>

text \<open>The quotient by a number of 32 bits, in two digits.\<close>

lemma two_digit_div:
  fixes n1 n0 d b :: nat
  assumes "0 < d" and "n0 < b"
  shows "(b * (n1 mod d) + n0) div d < b" and "(b * n1 + n0) div d = (b * (n1 mod d) + n0) div d + b * (n1 div d)"
proof -
  have "n1 mod d + 1 \<le> d" using assms(1) by (simp add: Suc_leI)
  then have "b * (n1 mod d) + n0 < b * d"
    using assms(2) mult_le_mono2 [of "n1 mod d + 1" d b] by (simp add: algebra_simps)
  then show "(b * (n1 mod d) + n0) div d < b" by (simp add: less_mult_imp_div_less)
  have "b * n1 + n0 = b * (n1 mod d) + n0 + d * (b * (n1 div d))"
    using mult_div_mod_eq [of d n1] by (metis add.commute add.left_commute distrib_left mult.left_commute)
  then have "(b * n1 + n0) div d = (b * (n1 mod d) + n0 + d * (b * (n1 div d))) div d" by (simp only:)
  with assms(1) show "(b * n1 + n0) div d = (b * (n1 mod d) + n0) div d + b * (n1 div d)"
    using div_mult_self2 [of d "b * (n1 mod d) + n0" "b * (n1 div d)"] by simp
qed

text \<open>The quotient by a larger number, estimated from its leading 32 bits: \<open>e\<close> is the divisor with its
  low bits cleared.\<close>

lemma estimate_div:
  fixes n d e :: nat
  assumes e: "e \<le> d" "0 < e" and small: "n * (d - e) < d * e" and n: "d \<le> n"
  shows "n div d = n div e - 1 \<or> n div d = n div e" "(n div e - 1) * d \<le> n" "1 \<le> n div e"
proof -
  define q where "q = n div e"
  have q: "q * e \<le> n" "n < (q + 1) * e" using e(2) by (simp_all add: q_def dividend_less_div_times)
  show q1: "1 \<le> n div e" using e n by (simp add: div_greater_zero_iff Suc_leI)
  have "q * (d - e) * e \<le> n * (d - e)" using q(1) by (metis mult.assoc mult.commute mult_le_mono1)
  with small have "q * (d - e) * e < d * e" by (rule le_less_trans [rotated])
  then have "q * (d - e) < d" by (rule mult_less_cancel2 [THEN iffD1, THEN conjunct2])
  moreover have "q * d = q * e + q * (d - e)" using e(1) by (metis distrib_left le_add_diff_inverse)
  ultimately have "q * d < n + d" using q(1) by linarith
  then show le: "(n div e - 1) * d \<le> n" using q1 by (simp add: q_def algebra_simps)
  have d0: "0 < d" using e by simp
  have "n div d \<le> q" using e by (simp add: q_def div_le_mono2)
  moreover have "q - 1 \<le> n div d" using le d0 by (simp add: q_def less_eq_div_iff_mult_less_eq)
  ultimately show "n div d = n div e - 1 \<or> n div d = n div e" by (auto simp: q_def)
qed

text \<open>The estimate is good for every 64-bit dividend.\<close>

lemma estimate_small:
  fixes n d :: nat
  assumes "n < 2 ^ 64" and s: "s \<le> 31" and d: "2 ^ (63 - s) \<le> d"
  shows "n * (d - d div 2 ^ (32 - s) * 2 ^ (32 - s)) < d * (d div 2 ^ (32 - s) * 2 ^ (32 - s))"
    and "2 ^ (63 - s) \<le> d div 2 ^ (32 - s) * 2 ^ (32 - s)"
proof -
  let ?w = "(2 :: nat) ^ (32 - s)"
  let ?e = "d div ?w * ?w"
  have "31 + (32 - s) = 63 - s" using s by simp
  then have "(2 :: nat) ^ (63 - s) = 2 ^ 31 * ?w" using power_add [of "2 :: nat" 31 "32 - s"] by (simp only:)
  with d have "2 ^ 31 \<le> d div ?w" by (metis div_le_mono mult.commute nonzero_mult_div_cancel_left power_eq_0_iff zero_neq_numeral)
  then show e: "2 ^ (63 - s) \<le> ?e" using \<open>2 ^ (63 - s) = 2 ^ 31 * ?w\<close> by simp
  have "d - ?e = d mod ?w" by (simp add: minus_div_mult_eq_mod)
  also have "\<dots> \<le> ?w - 1" using mod_less_divisor [of ?w d] by (simp add: Suc_leI less_eq_Suc_le le_diff_conv2)
  finally have diff: "d - ?e \<le> ?w - 1" .
  have sq: "2 ^ (63 - s) * 2 ^ (63 - s) \<le> d * ?e" using d e by (rule mult_le_mono)
  have "n * (d - ?e) < 2 ^ (63 - s) * 2 ^ (63 - s)"
  proof (cases "s = 31")
    case True
    then have "d - ?e \<le> 1" using diff by simp
    then have "n * (d - ?e) \<le> n" using mult_le_mono2 [of "d - ?e" 1 n] by (simp only: mult_1_right)
    also have "\<dots> < 2 ^ (63 - s) * 2 ^ (63 - s)" using assms(1) True by simp
    finally show ?thesis .
  next
    case False
    have "n * (d - ?e) \<le> 2 ^ 64 * (?w - 1)" using assms(1) diff by (intro mult_le_mono) simp_all
    also have "\<dots> < 2 ^ 64 * ?w" by simp
    also have "\<dots> = 2 ^ (64 + (32 - s))" by (simp only: power_add)
    also have "\<dots> \<le> 2 ^ ((63 - s) + (63 - s))" using s False by (intro power_increasing) auto
    finally show ?thesis by (simp only: power_add)
  qed
  with sq show "n * (d - ?e) < d * ?e" by linarith
qed

lemma unat_drop_bit: "unat (drop_bit k (x :: 'a :: len word)) = unat x div 2 ^ k"
  unfolding unsigned_drop_bit_eq by (simp add: drop_bit_eq_div take_bit_nat_eq_self [OF unsigned_less])

lemma unat_lt_64: "unat (n :: u64) < 2 ^ 64"
proof -
  have "unat n < 2 ^ LENGTH(64)" by (rule unsigned_less)
  then show ?thesis by simp
qed

lemma unat_split32:
  fixes n :: u64
  shows "unat (ucast (drop_bit 32 n) :: u32) = unat n div 2 ^ 32" "unat (ucast n :: u32) = unat n mod 2 ^ 32"
    "unat n div 2 ^ 32 < 2 ^ 32"
proof -
  have "unat n < 2 ^ LENGTH(64)" by (rule unsigned_less)
  then show lt: "unat n div 2 ^ 32 < 2 ^ 32" by (simp add: less_mult_imp_div_less)
  then show "unat (ucast (drop_bit 32 n) :: u32) = unat n div 2 ^ 32"
    unfolding unsigned_ucast_eq unsigned_drop_bit_eq by (simp add: drop_bit_eq_div take_bit_eq_mod)
  show "unat (ucast n :: u32) = unat n mod 2 ^ 32" by (simp add: unsigned_ucast_eq take_bit_eq_mod)
qed

lemma unat_mult_add_64: "unat (a :: u64) * unat b + unat c < 2 ^ 64 \<Longrightarrow> unat (a * b + c) = unat a * unat b + unat c"
  by (simp add: unat_word_ariths)

lemma unat_ucast_64: "unat (ucast (x :: u32) :: u64) = unat x"
  by (simp add: unsigned_ucast_eq take_bit_nat_eq_self less_trans [OF unsigned_less])

lemma divl_Some:
  assumes "0 < unat d" and "unat n div unat d < 2 ^ 32"
  shows "\<exists>q. divl n d = Some q \<and> unat q = unat n div unat d"
proof -
  have "unat (of_nat (unat n div unat d) :: u32) = unat n div unat d"
    using assms(2) by (simp add: unsigned_of_nat take_bit_nat_eq_self)
  with assms show ?thesis by (auto simp: divl_def unat_gt_0)
qed

lemma udiv64_small:
  assumes "unat d < 2 ^ 32" and "0 < unat d"
  shows "udiv64 n d = Some (n div d)"
proof -
  let ?n1 = "ucast (drop_bit 32 n) :: u32" and ?n0 = "ucast n :: u32" and ?d0 = "ucast d :: u32"
  let ?b = "push_bit 32 1 :: u64"
  have d0: "unat ?d0 = unat d" using assms(1) unat_split32(2) [of d] by simp
  have b: "unat ?b = 2 ^ 32" by simp
  note n = unat_split32 [of n]
  have n0: "unat n mod 2 ^ 32 < 2 ^ 32" by simp
  note td = two_digit_div [OF assms(2) n0, of "unat n div 2 ^ 32"]
  have m: "unat (?n1 mod ?d0) = unat n div 2 ^ 32 mod unat d" by (simp only: unat_mod n(1) d0)
  have q: "unat (?n1 div ?d0) = unat n div 2 ^ 32 div unat d" by (simp only: unat_div n(1) d0)
  have mlt: "unat n div 2 ^ 32 mod unat d < 2 ^ 32" using assms by (meson mod_less_divisor less_trans)
  then have "unat n div 2 ^ 32 mod unat d \<le> 2 ^ 32 - 1" by simp
  then have arg: "2 ^ 32 * (unat n div 2 ^ 32 mod unat d) + unat n mod 2 ^ 32 < 2 ^ 64" using n0 by simp
  have "unat (?b * ucast (?n1 mod ?d0) + ucast ?n0) = 2 ^ 32 * (unat n div 2 ^ 32 mod unat d) + unat n mod 2 ^ 32"
    using unat_mult_add_64 [of ?b "ucast (?n1 mod ?d0)" "ucast ?n0"] arg unfolding b unat_ucast_64 m n(2) by blast
  with divl_Some [of ?d0 "?b * ucast (?n1 mod ?d0) + ucast ?n0"] td(1) d0 assms(2)
  obtain r where r: "divl (?b * ucast (?n1 mod ?d0) + ucast ?n0) ?d0 = Some r"
    "unat r = (2 ^ 32 * (unat n div 2 ^ 32 mod unat d) + unat n mod 2 ^ 32) div unat d" by auto
  have tot: "unat n div unat d = unat r + 2 ^ 32 * (unat n div 2 ^ 32 div unat d)"
    using td(2) r(2) by simp
  have "unat n div unat d < 2 ^ 64" using div_le_dividend unat_lt_64 by (rule le_less_trans)
  then have "unat (?b * ucast (?n1 div ?d0) + ucast r) = unat n div unat d"
    using unat_mult_add_64 [of ?b "ucast (?n1 div ?d0)" "ucast r"] unfolding tot b unat_ucast_64 q
    by (simp only: add.commute)
  then have "unat (ucast r + ?b * ucast (?n1 div ?d0)) = unat n div unat d" by (simp only: add.commute)
  then have "ucast r + ?b * ucast (?n1 div ?d0) = n div d" by (simp add: word_unat_eq_iff unat_div del: push_bit_of_1)
  moreover have "drop_bit 32 d = 0" using assms(1) by (simp only: word_unat_eq_iff unat_drop_bit unsigned_0 div_less)
  moreover have "?d0 \<noteq> 0" using d0 assms(2) by (metis unsigned_0 less_irrefl)
  ultimately show ?thesis using r(1) by (simp add: udiv64_def Let_def del: push_bit_of_1)
qed

text \<open>The normalised divisor: its leading 32 bits.\<close>

lemma normalised:
  assumes "2 ^ 32 \<le> unat (d :: u64)"
  defines "s \<equiv> nlz (ucast (drop_bit 32 d))"
  shows "unat (ucast (drop_bit 32 (push_bit s d)) :: u32) = unat d div 2 ^ (32 - s)" "s \<le> 31" "2 ^ (63 - s) \<le> unat d"
    "2 ^ 31 \<le> unat d div 2 ^ (32 - s)"
proof -
  define d1 where "d1 = unat d div 2 ^ 32"
  have u: "unat (ucast (drop_bit 32 d) :: u32) = d1" by (simp only: unat_split32(1) d1_def)
  have "1 \<le> d1" using assms(1) by (simp add: d1_def div_greater_zero_iff Suc_leI)
  then have "(ucast (drop_bit 32 d) :: u32) \<noteq> 0" using u by (metis not_one_le_zero unsigned_0)
  from nlz_spec [OF this] u have n: "2 ^ 31 \<le> d1 * 2 ^ s" "d1 * 2 ^ s < 2 ^ 32" and s: "s \<le> 31" by (auto simp: s_def)
  show "s \<le> 31" by (rule s)
  have w: "(2 :: nat) ^ 32 = 2 ^ (32 - s) * 2 ^ s" using s power_add [of "2 :: nat" "32 - s" s] by simp
  from n(2) have "d1 < 2 ^ (32 - s)" unfolding w by simp
  then have "d1 + 1 \<le> 2 ^ (32 - s)" by simp
  moreover have "unat d < (d1 + 1) * 2 ^ 32"
    using dividend_less_times_div [of "2 ^ 32" "unat d"] by (simp add: d1_def algebra_simps)
  ultimately have "unat d < 2 ^ (32 - s) * 2 ^ 32" by (meson less_le_trans mult_le_mono1)
  then have "unat d * 2 ^ s < 2 ^ (32 - s) * 2 ^ 32 * 2 ^ s" by simp
  also have "\<dots> = 2 ^ (32 - s) * 2 ^ s * 2 ^ 32" by (simp only: mult_ac)
  also have "\<dots> = 2 ^ 64" unfolding w [symmetric] by simp
  finally have "unat (push_bit s d) = unat d * 2 ^ s" by (intro unat_push_bit_small) simp
  then have "unat (ucast (drop_bit 32 (push_bit s d)) :: u32) = unat d * 2 ^ s div 2 ^ 32" by (simp only: unat_split32(1))
  also have "\<dots> = unat d div 2 ^ (32 - s)" unfolding w by simp
  finally show "unat (ucast (drop_bit 32 (push_bit s d)) :: u32) = unat d div 2 ^ (32 - s)" .
  have e: "(2 :: nat) ^ 31 * 2 ^ (32 - s) = 2 ^ (63 - s)" using s power_add [of "2 :: nat" 31 "32 - s"] by simp
  have "2 ^ 31 * 2 ^ (32 - s) \<le> d1 * 2 ^ s * 2 ^ (32 - s)" using n(1) by (rule mult_le_mono1)
  also have "\<dots> = d1 * 2 ^ 32" using w by (simp only: mult.commute mult.left_commute)
  also have "\<dots> \<le> unat d" by (simp add: d1_def)
  finally show le: "2 ^ (63 - s) \<le> unat d" unfolding e .
  from le show "2 ^ 31 \<le> unat d div 2 ^ (32 - s)" unfolding e [symmetric] by (simp add: less_eq_div_iff_mult_less_eq)
qed

lemma udiv64_large:
  assumes d: "2 ^ 32 \<le> unat d" and nd: "d \<le> n"
  shows "udiv64 n d = Some (n div d)"
proof -
  define s where "s = nlz (ucast (drop_bit 32 d))"
  define v where "v = unat d div 2 ^ (32 - s)"
  let ?dv = "ucast (drop_bit 32 (push_bit s d)) :: u32"
  note nm = normalised [OF d, folded s_def, folded v_def]
  have v: "unat ?dv = v" "2 ^ 31 \<le> v" using nm by simp_all
  have n1: "unat (drop_bit 1 n) = unat n div 2" unfolding unat_drop_bit by simp
  have "unat n div 2 < 2 ^ 32 * 2 ^ 31" using unat_lt_64 [of n] by simp
  also have "\<dots> \<le> 2 ^ 32 * v" using v(2) by simp
  finally have "unat (drop_bit 1 n) div unat ?dv < 2 ^ 32" unfolding v(1) n1 by (simp add: less_mult_imp_div_less)
  moreover have "0 < unat ?dv" using v by simp
  ultimately obtain q0 where q0: "divl (drop_bit 1 n) ?dv = Some q0" "unat q0 = unat n div 2 div v"
    using divl_Some [of ?dv "drop_bit 1 n"] v(1) n1 by auto
  define q where "q = (ucast (drop_bit (31 - s) q0) :: u64)"
  define e where "e = v * 2 ^ (32 - s)"
  have "32 - s = Suc (31 - s)" using nm(2) by simp
  then have "2 * v * 2 ^ (31 - s) = e" by (simp add: e_def)
  then have q: "unat q = unat n div e"
    unfolding q_def unat_ucast_64 unat_drop_bit q0(2) by (simp flip: div_mult2_eq)
  note est = estimate_small [OF unat_lt_64 [of n] nm(2,3), folded v_def, folded e_def]
  have e: "e \<le> unat d" "0 < e" using v(2) by (simp_all add: e_def v_def)
  have nle: "unat d \<le> unat n" using nd by (simp add: word_le_nat_alt)
  note ed = estimate_div [OF e est(1) nle, folded q]
  have q1: "unat (q - 1) = unat q - 1" using ed(3) by (intro unat_minus_one) auto
  have p: "unat ((q - 1) * d) = (unat q - 1) * unat d"
    using unat_mult_add_64 [of "q - 1" d 0] ed(2) unat_lt_64 [of n] unfolding q1 by simp
  have diff: "unat (n - (q - 1) * d) = unat n - (unat q - 1) * unat d"
    using ed(2) p by (simp add: unat_sub word_le_nat_alt)
  have d0: "0 < unat d" using e by simp
  have "(if n - (q - 1) * d < d then q - 1 else q) = n div d"
  proof (cases "n - (q - 1) * d < d")
    case True
    then have "unat n < unat q * unat d"
      using diff ed(2,3) by (simp add: word_less_nat_alt algebra_simps)
    then have "unat n div unat d < unat q" by (simp add: less_mult_imp_div_less)
    with ed(1) True q1 show ?thesis by (simp add: word_unat_eq_iff unat_div)
  next
    case False
    then have "unat q * unat d \<le> unat n"
      using diff ed(2,3) by (simp add: word_less_nat_alt algebra_simps)
    then have "unat q \<le> unat n div unat d" using d0 by (simp add: less_eq_div_iff_mult_less_eq)
    with ed(1,3) False show ?thesis by (auto simp: word_unat_eq_iff unat_div)
  qed
  moreover have "drop_bit 32 d \<noteq> 0" using d by (simp only: word_unat_eq_iff unat_drop_bit unsigned_0 div_eq_0_iff) simp
  moreover have "\<not> n < d" using nd by simp
  ultimately show ?thesis using q0(1)
    by (simp add: udiv64_def Let_def s_def [symmetric] q_def [symmetric] split: if_splits)
qed

lemma udiv64_correct: "d \<noteq> 0 \<Longrightarrow> udiv64 n d = Some (n div d)"
proof -
  assume nz: "d \<noteq> 0"
  consider "unat d < 2 ^ 32" | "2 ^ 32 \<le> unat d" "d \<le> n" | "2 ^ 32 \<le> unat d" "n < d" by force
  then show ?thesis
  proof cases
    case 1
    with nz show ?thesis by (intro udiv64_small) (simp_all add: unat_gt_0)
  next
    case 2
    then show ?thesis by (rule udiv64_large)
  next
    case 3
    then have "drop_bit 32 d \<noteq> 0" by (simp only: word_unat_eq_iff unat_drop_bit unsigned_0 div_eq_0_iff) simp
    moreover have "n div d = 0" using 3(2) by (simp add: word_unat_eq_iff unat_div word_less_nat_alt)
    ultimately show ?thesis using 3(2) by (simp add: udiv64_def)
  qed
qed

section \<open>Signed division\<close>

lemma abs_word:
  fixes n :: u64
  defines "a \<equiv> if 0 \<le>s n then n else - n"
  shows "uint a = \<bar>sint n\<bar>"
proof -
  have r: "- (2 ^ 63) \<le> sint n" "sint n < 2 ^ 63"
    using sint_greater_eq [of n] sint_less [of n] by simp_all
  have "a = word_of_int \<bar>sint n\<bar>" by (auto simp: a_def word_sle_eq abs_if)
  then have "uint a = \<bar>sint n\<bar> mod 2 ^ 64" by (simp add: unsigned_of_int take_bit_eq_mod)
  then show ?thesis using r by simp
qed

lemma sint_of_int_64: "- (2 ^ 63) \<le> k \<Longrightarrow> k < 2 ^ 63 \<Longrightarrow> sint (word_of_int k :: u64) = k"
  by (simp add: signed_of_int signed_take_bit_int_eq_self)

lemma sdiv64_correct:
  assumes "d \<noteq> 0" and "\<not> (sint n = - (2 ^ 63) \<and> sint d = - 1)"
  shows "\<exists>q. sdiv64 n d = Some q \<and> sint q = sint n sdiv sint d"
proof -
  let ?n = "if 0 \<le>s n then n else - n" and ?d = "if 0 \<le>s d then d else - d"
  define q where "q = \<bar>sint n\<bar> div \<bar>sint d\<bar>"
  have "?d \<noteq> 0" using assms(1) by simp
  then have u: "udiv64 ?n ?d = Some (?n div ?d)" by (rule udiv64_correct)
  have qw: "?n div ?d = word_of_int q" by (simp only: word_div_def abs_word q_def)
  have neg: "x <s 0 \<longleftrightarrow> sint x < 0" for x :: u64 by (simp add: word_sless_alt)
  define z where "z = (if (n <s 0) = (d <s 0) then q else - q)"
  have sd: "sint d \<noteq> 0" using assms(1) signed_eq_0_iff [where ?'a = int] by blast
  have z: "z = sint n sdiv sint d"
    using sd by (auto simp: z_def q_def neg signed_divide_int_def sgn_if)
  have eq: "sdiv64 n d = Some (word_of_int z)" unfolding sdiv64_def Let_def u qw by (simp add: z_def)
  have r: "\<bar>sint n\<bar> \<le> 2 ^ 63" using sint_greater_eq [of n] sint_less [of n] by simp
  have q0: "0 \<le> q" by (simp add: q_def pos_imp_zdiv_nonneg_iff sd)
  have qn: "q \<le> \<bar>sint n\<bar>" 
    using zdiv_mono2 [of "\<bar>sint n\<bar>" 1 "\<bar>sint d\<bar>"] sd by (simp add: q_def)
  have "z < 2 ^ 63"
  proof (cases "(n <s 0) = (d <s 0)")
    case True
    have "q < 2 ^ 63"
    proof (rule ccontr)
      assume "\<not> q < 2 ^ 63"
      then have "\<bar>sint n\<bar> = 2 ^ 63" "q = \<bar>sint n\<bar>" using qn r by auto
      moreover from this have "\<bar>sint d\<bar> = 1" unfolding q_def using sd int_div_less_self [of "\<bar>sint n\<bar>" "\<bar>sint d\<bar>"] by force
      ultimately show False using True assms(2) sint_less [of n] by (auto simp: neg abs_if split: if_splits)
    qed
    with True show ?thesis by (simp add: z_def)
  next
    case False
    with q0 show ?thesis by (simp add: z_def)
  qed
  moreover have "- (2 ^ 63) \<le> z" using q0 qn r by (auto simp: z_def)
  ultimately show ?thesis using eq z sint_of_int_64 [of z] by simp
qed

section \<open>Properties\<close>

text \<open>C17. Division of 64-bit integers is right for every pair of operands with a nonzero divisor, and
  never executes a \<open>divl\<close> that traps: the unsigned routine gives the quotient, and the signed routine
  gives the quotient truncated towards zero, except for the one overflowing case of the smallest
  integer divided by minus one.\<close>

theorem division_correct:
  assumes "d \<noteq> 0"
  shows "udivdi3 n d = Some (n div d)
     \<and> (\<not> (sint n = - (2 ^ 63) \<and> sint d = - 1) \<longrightarrow> (\<exists>q. divdi3 n d = Some q \<and> sint q = sint n sdiv sint d))"
  using udiv64_correct [OF assms] sdiv64_correct [OF assms] by (simp add: udivdi3_def divdi3_def)

theorem division_correct_witness:
  "udivdi3 18446744073709551615 4294967297 = Some 4294967295 \<and> (\<exists>q. divdi3 (- 7) 2 = Some q \<and> sint q = - 3)"
proof -
  have "\<exists>q. divdi3 (- 7) 2 = Some q \<and> sint q = sint (- 7 :: u64) sdiv sint (2 :: u64)"
    using division_correct [of 2 "- 7"] by simp
  then show ?thesis using division_correct [of 4294967297 18446744073709551615] by (simp add: signed_divide_int_def)
qed

text \<open>The unsigned 64-bit remainder is only right when it fits 32 bits: for every nonzero divisor,
  \<open>__umoddi3\<close> returns the remainder modulo \<open>2 ^ 32\<close>, because \<open>umod64\<close> returns a \<open>uint32_t\<close>.\<close>

theorem umod_truncates:
  assumes "d \<noteq> 0"
  shows "\<exists>r. umoddi3 n d = Some r \<and> unat r = (unat n mod unat d) mod 2 ^ 32"
proof -
  have "n - d * (n div d) = n mod d" by (simp add: minus_mult_div_eq_mod)
  then have "umoddi3 n d = Some (ucast (ucast (n mod d) :: u32))"
    using udiv64_correct [OF assms] by (simp add: umoddi3_def umod64_def)
  moreover have "unat (ucast (ucast (n mod d) :: u32) :: u64) = (unat n mod unat d) mod 2 ^ 32"
    unfolding unat_ucast_64 unat_split32(2) unat_mod ..
  ultimately show ?thesis by blast
qed

theorem umod_truncates_witness:
  "\<exists>r. umoddi3 4294967296 8589934592 = Some r \<and> unat r = 0 \<and> (4294967296 :: nat) mod 8589934592 \<noteq> 0"
  using umod_truncates [of 8589934592 4294967296] by simp

end
