(* ===== verification/Kstdlib.thy ===== *)
theory Kstdlib
  imports Kstring
begin

text \<open>
  Conversion, sorting and searching, \<^verbatim>\<open>lib/stdlib.c\<close>, and the character classes of \<^verbatim>\<open>lib/ctype.h\<close>.
  An array of \<open>cnt\<close> elements of \<open>size\<close> bytes is the list of its elements; a comparison function returns
  an integer as \<open>strcmp\<close> does. An access outside the array gives \<open>None\<close>.

  \<open>sort\<close> is a heapsort: the array ends as an ordered permutation of itself. \<open>binary_search\<close> finds an
  element exactly when there is one. \<open>atoi\<close> reads back the decimal numerals of all 32-bit integers.
\<close>

section \<open>Character classes\<close>

definition islower :: "int \<Rightarrow> bool" where "islower c \<longleftrightarrow> c \<ge> 97 \<and> c \<le> 122"

definition isupper :: "int \<Rightarrow> bool" where "isupper c \<longleftrightarrow> c \<ge> 65 \<and> c \<le> 90"

definition isalpha :: "int \<Rightarrow> bool" where "isalpha c \<longleftrightarrow> islower c \<or> isupper c"

definition isdigit :: "int \<Rightarrow> bool" where "isdigit c \<longleftrightarrow> c \<ge> 48 \<and> c \<le> 57"

definition isalnum :: "int \<Rightarrow> bool" where "isalnum c \<longleftrightarrow> isalpha c \<or> isdigit c"

definition isxdigit :: "int \<Rightarrow> bool" where
  "isxdigit c \<longleftrightarrow> isdigit c \<or> (c \<ge> 97 \<and> c \<le> 102) \<or> (c \<ge> 65 \<and> c \<le> 70)"

definition isspace :: "int \<Rightarrow> bool" where
  "isspace c \<longleftrightarrow> c = 32 \<or> c = 12 \<or> c = 10 \<or> c = 13 \<or> c = 9 \<or> c = 11"

definition isblank :: "int \<Rightarrow> bool" where "isblank c \<longleftrightarrow> c = 32 \<or> c = 9"

definition isgraph :: "int \<Rightarrow> bool" where "isgraph c \<longleftrightarrow> c > 32 \<and> c < 127"

definition isprint :: "int \<Rightarrow> bool" where "isprint c \<longleftrightarrow> c \<ge> 32 \<and> c < 127"

definition iscntrl :: "int \<Rightarrow> bool" where "iscntrl c \<longleftrightarrow> (c \<ge> 0 \<and> c < 32) \<or> c = 127"

definition isascii :: "int \<Rightarrow> bool" where "isascii c \<longleftrightarrow> c \<ge> 0 \<and> c < 128"

definition ispunct :: "int \<Rightarrow> bool" where "ispunct c \<longleftrightarrow> isprint c \<and> \<not> isalnum c \<and> \<not> isspace c"

definition tolower :: "int \<Rightarrow> int" where "tolower c = (if isupper c then c - 65 + 97 else c)"

definition toupper :: "int \<Rightarrow> int" where "toupper c = (if islower c then c - 97 + 65 else c)"

section \<open>Conversion of numerals\<close>

text \<open>A \<open>char\<close> is signed; \<open>isspace\<close> is given the unsigned value. The value is an \<open>int\<close>, which wraps.\<close>

fun skip_space :: "byte list \<Rightarrow> byte list option" where
  "skip_space [] = None"
| "skip_space (c # s) = (if isspace (uint c) then skip_space s else Some (c # s))"

fun digits_loop :: "byte list \<Rightarrow> u32 \<Rightarrow> u32 option" where
  "digits_loop [] value = None"
| "digits_loop (c # s) value =
     (if isdigit (sint c) then digits_loop s (value * 10 - word_of_int (sint c - 48)) else Some value)"

definition atoi :: "byte list \<Rightarrow> u32 option" where
  "atoi str = do {
     s \<leftarrow> skip_space str;
     let (negative, s1) =
       (case s of c # r \<Rightarrow> if sint c = 43 then (False, r) else if sint c = 45 then (True, r) else (False, s)
        | [] \<Rightarrow> (False, s));
     value \<leftarrow> digits_loop s1 0;
     Some (if \<not> negative then - value else value) }"

section \<open>Heapsort\<close>

definition do_swap :: "'a list \<Rightarrow> nat \<Rightarrow> nat \<Rightarrow> 'a list option" where
  "do_swap a i j = (if 1 \<le> i \<and> i \<le> length a \<and> 1 \<le> j \<and> j \<le> length a
     then Some (a[i - 1 := a ! (j - 1), j - 1 := a ! (i - 1)]) else None)"

definition do_compare :: "('a \<Rightarrow> 'a \<Rightarrow> int) \<Rightarrow> 'a list \<Rightarrow> nat \<Rightarrow> nat \<Rightarrow> int option" where
  "do_compare cmp a i j = (if 1 \<le> i \<and> i \<le> length a \<and> 1 \<le> j \<and> j \<le> length a
     then Some (cmp (a ! (i - 1)) (a ! (j - 1))) else None)"

text \<open>The index of the largest of an element and its children, as \<open>heapify\<close> computes it.\<close>

definition pick :: "('a \<Rightarrow> 'a \<Rightarrow> int) \<Rightarrow> 'a list \<Rightarrow> nat \<Rightarrow> nat \<Rightarrow> nat \<Rightarrow> nat option" where
  "pick cmp a cnt c m = (if c \<le> cnt then do { r \<leftarrow> do_compare cmp a c m; Some (if r > 0 then c else m) } else Some m)"

partial_function (option) heapify :: "('a \<Rightarrow> 'a \<Rightarrow> int) \<Rightarrow> 'a list \<Rightarrow> nat \<Rightarrow> nat \<Rightarrow> 'a list option" where
  "heapify cmp a i cnt = do {
     let l = 2 * i;
     let r = 2 * i + 1;
     m1 \<leftarrow> pick cmp a cnt l i;
     m \<leftarrow> pick cmp a cnt r m1;
     if m = i then Some a
     else do { a1 \<leftarrow> do_swap a i m; heapify cmp a1 m cnt } }"

primrec build_loop :: "('a \<Rightarrow> 'a \<Rightarrow> int) \<Rightarrow> 'a list \<Rightarrow> nat \<Rightarrow> nat \<Rightarrow> 'a list option" where
  "build_loop cmp a cnt 0 = Some a"
| "build_loop cmp a cnt (Suc i) = do { a1 \<leftarrow> heapify cmp a (Suc i) cnt; build_loop cmp a1 cnt i }"

fun extract_loop :: "('a \<Rightarrow> 'a \<Rightarrow> int) \<Rightarrow> 'a list \<Rightarrow> nat \<Rightarrow> 'a list option" where
  "extract_loop cmp a i =
     (if i > 1 then do {
        a1 \<leftarrow> do_swap a 1 i;
        a2 \<leftarrow> heapify cmp a1 1 (i - 1);
        extract_loop cmp a2 (i - 1) }
      else Some a)"

definition sort_array :: "('a \<Rightarrow> 'a \<Rightarrow> int) \<Rightarrow> 'a list \<Rightarrow> nat \<Rightarrow> 'a list option" where
  "sort_array cmp a cnt = do {
     a1 \<leftarrow> build_loop cmp a cnt (cnt div 2);
     extract_loop cmp a1 cnt }"

definition qsort :: "('a \<Rightarrow> 'a \<Rightarrow> int) \<Rightarrow> 'a list \<Rightarrow> nat \<Rightarrow> 'a list option" where
  "qsort cmp a cnt = sort_array cmp a cnt"

section \<open>Binary search\<close>

text \<open>The range between \<open>fst0\<close> and \<open>lst\<close>; the result is the index of a match.\<close>

function search_loop :: "('k \<Rightarrow> 'a \<Rightarrow> int) \<Rightarrow> 'k \<Rightarrow> 'a list \<Rightarrow> nat \<Rightarrow> nat \<Rightarrow> nat option" where
  "search_loop cmp key a fst0 lst =
     (if fst0 < lst then
        let middle = fst0 + (lst - fst0) div 2; c = cmp key (a ! middle)
        in if c < 0 then search_loop cmp key a fst0 middle
           else if c > 0 then search_loop cmp key a (middle + 1) lst
           else Some middle
      else None)"
  by auto
termination
  by (relation "measure (\<lambda>(cmp, key, a, fst0, lst). lst - fst0)") auto

definition binary_search :: "('k \<Rightarrow> 'a \<Rightarrow> int) \<Rightarrow> 'k \<Rightarrow> 'a list \<Rightarrow> nat \<Rightarrow> nat option option" where
  "binary_search cmp key a cnt = (if cnt \<le> length a then Some (search_loop cmp key a 0 cnt) else None)"

definition bsearch :: "('k \<Rightarrow> 'a \<Rightarrow> int) \<Rightarrow> 'k \<Rightarrow> 'a list \<Rightarrow> nat \<Rightarrow> nat option option" where
  "bsearch cmp key a cnt = binary_search cmp key a cnt"

declare search_loop.simps [simp del] extract_loop.simps [simp del]

section \<open>Correctness of the sort\<close>

text \<open>A comparison function that compares by a key.\<close>

definition compares :: "('a \<Rightarrow> 'a \<Rightarrow> int) \<Rightarrow> ('a \<Rightarrow> 'k :: linorder) \<Rightarrow> bool" where
  "compares cmp key \<longleftrightarrow> (\<forall>x y. (cmp x y > 0 \<longleftrightarrow> key x > key y) \<and> (cmp x y < 0 \<longleftrightarrow> key x < key y))"

definition key_at :: "('a \<Rightarrow> 'k) \<Rightarrow> 'a list \<Rightarrow> nat \<Rightarrow> 'k" where
  "key_at key a j = key (a ! (j - 1))"

definition child :: "nat \<Rightarrow> nat \<Rightarrow> bool" where
  "child p c \<longleftrightarrow> c = 2 * p \<or> c = 2 * p + 1"

text \<open>The heap property from index \<open>l\<close> on, and with the exception of one index whose children are
  still below its parent.\<close>

definition heap_from :: "('a \<Rightarrow> 'k :: linorder) \<Rightarrow> 'a list \<Rightarrow> nat \<Rightarrow> nat \<Rightarrow> bool" where
  "heap_from key a l cnt \<longleftrightarrow> (\<forall>p c. l \<le> p \<and> child p c \<and> c \<le> cnt \<longrightarrow> key_at key a c \<le> key_at key a p)"

definition heap_but :: "('a \<Rightarrow> 'k :: linorder) \<Rightarrow> 'a list \<Rightarrow> nat \<Rightarrow> nat \<Rightarrow> nat \<Rightarrow> bool" where
  "heap_but key a l i cnt \<longleftrightarrow> (\<forall>p c. l \<le> p \<and> p \<noteq> i \<and> child p c \<and> c \<le> cnt \<longrightarrow> key_at key a c \<le> key_at key a p)
     \<and> (\<forall>p c. l \<le> p \<and> child p i \<and> child i c \<and> c \<le> cnt \<longrightarrow> key_at key a c \<le> key_at key a p)"

lemma child_less: "child p c \<Longrightarrow> 1 \<le> p \<Longrightarrow> p < c"
  by (auto simp: child_def)

lemma child_unique: "child p c \<Longrightarrow> child q c \<Longrightarrow> p = q"
  by (auto simp: child_def)

lemma do_swap_Some:
  assumes "1 \<le> i" "i \<le> length a" "1 \<le> j" "j \<le> length a" "i \<noteq> j"
  shows "\<exists>b. do_swap a i j = Some b \<and> length b = length a \<and> mset b = mset a
     \<and> (\<forall>k. 1 \<le> k \<and> k \<le> length a \<longrightarrow> b ! (k - 1) = a ! ((if k = i then j else if k = j then i else k) - 1))"
proof -
  have "a[i - 1 := a ! (j - 1), j - 1 := a ! (i - 1)] ! (k - 1) = a ! ((if k = i then j else if k = j then i else k) - 1)"
    if "1 \<le> k" "k \<le> length a" for k
  proof -
    have "k - 1 = i - 1 \<longleftrightarrow> k = i" "k - 1 = j - 1 \<longleftrightarrow> k = j" using that assms by auto
    with that assms show ?thesis by (simp add: nth_list_update)
  qed
  moreover have "mset (a[i - 1 := a ! (j - 1), j - 1 := a ! (i - 1)]) = mset a"
    using assms mset_swap [of "j - 1" a "i - 1"] by simp
  ultimately show ?thesis using assms by (simp add: do_swap_def)
qed

text \<open>The index that is picked: the element itself, or the largest child when that is larger.\<close>

lemma pick_spec:
  assumes cmp: "compares cmp key" and "1 \<le> i" "i \<le> cnt" "cnt \<le> length a"
  shows "\<exists>m1 m. pick cmp a cnt (2 * i) i = Some m1 \<and> pick cmp a cnt (2 * i + 1) m1 = Some m
     \<and> (m = i \<or> child i m) \<and> m \<le> cnt \<and> (m \<noteq> i \<longrightarrow> key_at key a i \<le> key_at key a m)
     \<and> (\<forall>c. child i c \<and> c \<le> cnt \<longrightarrow> key_at key a c \<le> key_at key a m)"
proof -
  have c: "do_compare cmp a x y = Some (cmp (a ! (x - 1)) (a ! (y - 1)))" if "1 \<le> x" "x \<le> cnt" "1 \<le> y" "y \<le> cnt" for x y
    using that assms by (simp add: do_compare_def)
  have k: "cmp (a ! (x - 1)) (a ! (y - 1)) > 0 \<longleftrightarrow> key_at key a x > key_at key a y" for x y
    using cmp by (simp add: compares_def key_at_def)
  define m1 where "m1 = (if 2 * i \<le> cnt \<and> key_at key a (2 * i) > key_at key a i then 2 * i else i)"
  define m where "m = (if 2 * i + 1 \<le> cnt \<and> key_at key a (2 * i + 1) > key_at key a m1 then 2 * i + 1 else m1)"
  have m1: "1 \<le> m1" "m1 \<le> cnt" using assms(2,3) by (auto simp: m1_def)
  have "pick cmp a cnt (2 * i) i = Some m1" using c [of "2 * i" i] assms(2,3) k by (auto simp: pick_def m1_def)
  moreover have "pick cmp a cnt (2 * i + 1) m1 = Some m"
    using c [of "2 * i + 1" m1] m1 k [of "2 * i + 1" m1] unfolding pick_def m_def by auto
  moreover have "(m = i \<or> child i m) \<and> m \<le> cnt \<and> (m \<noteq> i \<longrightarrow> key_at key a i \<le> key_at key a m)
     \<and> (\<forall>c. child i c \<and> c \<le> cnt \<longrightarrow> key_at key a c \<le> key_at key a m)"
    using assms(3) by (auto simp: m_def m1_def child_def split: if_splits)
  ultimately show ?thesis by blast
qed

lemma heap_but_swap:
  assumes h: "heap_but key a l i cnt" and i: "1 \<le> l" "l \<le> i" and m: "child i m" "m \<le> cnt"
    and big: "key_at key a i \<le> key_at key a m" "\<forall>c. child i c \<and> c \<le> cnt \<longrightarrow> key_at key a c \<le> key_at key a m"
    and b: "\<And>k. 1 \<le> k \<Longrightarrow> k \<le> cnt \<Longrightarrow> key_at key b k = key_at key a (if k = i then m else if k = m then i else k)"
  shows "heap_but key b l m cnt"
proof -
  have im: "i < m" using child_less m(1) i by simp
  have "key_at key b c \<le> key_at key b p" if "l \<le> p" "p \<noteq> m" "child p c" "c \<le> cnt" for p c
  proof -
    have pc: "p < c" "1 \<le> p" using that i child_less by auto
    have kp: "key_at key b p = (if p = i then key_at key a m else key_at key a p)" using b [of p] pc that by auto
    show ?thesis
    proof (cases "p = i")
      case True
      then have "c \<noteq> i" using pc by simp
      with True kp b [of c] pc that big show ?thesis by auto
    next
      case False
      have "c \<noteq> m" using child_unique [OF that(3)] m(1) False by blast
      then have "key_at key b c = (if c = i then key_at key a m else key_at key a c)" using b [of c] pc that by simp
      moreover have "c = i \<Longrightarrow> key_at key a m \<le> key_at key a p"
        using h m that unfolding heap_but_def by blast
      moreover have "key_at key a c \<le> key_at key a p" using h that False unfolding heap_but_def by blast
      ultimately show ?thesis using kp False by auto
    qed
  qed
  moreover have "key_at key b c \<le> key_at key b p" if "l \<le> p" "child p m" "child m c" "c \<le> cnt" for p c
  proof -
    have "p = i" using child_unique that(2) m(1) by blast
    moreover have "m < c" using child_less that(3) im by simp
    moreover have "key_at key a c \<le> key_at key a m"
      using h that(3,4) im i unfolding heap_but_def by (metis less_imp_le nat_neq_iff order_trans)
    ultimately show ?thesis using b [of c] b [of i] im i m that by simp
  qed
  ultimately show ?thesis by (simp add: heap_but_def)
qed

lemma swap_drop:
  "do_swap a i j = Some b \<Longrightarrow> i \<le> cnt \<Longrightarrow> j \<le> cnt \<Longrightarrow> drop cnt b = drop cnt a"
  by (auto simp: do_swap_def split: if_splits)

lemma heapify_spec:
  assumes "compares cmp key" and "heap_but key a l i cnt" and "1 \<le> l" "l \<le> i" "i \<le> cnt" "cnt \<le> length a"
  shows "\<exists>b. heapify cmp a i cnt = Some b \<and> heap_from key b l cnt \<and> mset b = mset a \<and> length b = length a
     \<and> drop cnt b = drop cnt a"
  using assms
proof (induction "cnt - i" arbitrary: a i rule: less_induct)
  case less
  have i: "1 \<le> i" using less.prems by simp
  from pick_spec [OF less.prems(1) i less.prems(5,6)] obtain m1 m where
    p: "pick cmp a cnt (2 * i) i = Some m1" "pick cmp a cnt (2 * i + 1) m1 = Some m"
    and m: "m = i \<or> child i m" "m \<le> cnt" "m \<noteq> i \<longrightarrow> key_at key a i \<le> key_at key a m"
    and big: "\<forall>c. child i c \<and> c \<le> cnt \<longrightarrow> key_at key a c \<le> key_at key a m" by blast
  show ?case
  proof (cases "m = i")
    case True
    have "heap_from key a l cnt"
      unfolding heap_from_def
    proof (intro allI impI)
      fix q c assume "l \<le> q \<and> child q c \<and> c \<le> cnt"
      then show "key_at key a c \<le> key_at key a q"
        using less.prems(2) big True by (cases "q = i") (auto simp: heap_but_def)
    qed
    with True p show ?thesis by (subst heapify.simps) (simp add: Let_def)
  next
    case False
    then have c: "child i m" and im: "i < m" using m(1) child_less i by auto
    obtain b where b: "do_swap a i m = Some b" "length b = length a" "mset b = mset a"
      "\<forall>k. 1 \<le> k \<and> k \<le> length a \<longrightarrow> b ! (k - 1) = a ! ((if k = i then m else if k = m then i else k) - 1)"
      using do_swap_Some [of i a m] i im m(2) less.prems(6) by auto
    have "heap_but key b l m cnt"
    proof (rule heap_but_swap [OF less.prems(2-4) c m(2) _ big])
      show "key_at key a i \<le> key_at key a m" using m(3) False by simp
      fix k assume "1 \<le> k" "k \<le> cnt"
      then show "key_at key b k = key_at key a (if k = i then m else if k = m then i else k)"
        using b(4) less.prems(6) by (simp add: key_at_def)
    qed
    moreover have "cnt - m < cnt - i" using im m(2) by simp
    ultimately obtain d where d: "heapify cmp b m cnt = Some d" "heap_from key d l cnt" "mset d = mset b" "length d = length b"
      "drop cnt d = drop cnt b" using less.hyps [of m b] less.prems im m(2) b(2) by auto
    have "drop cnt b = drop cnt a" using swap_drop [OF b(1)] less.prems(5) m(2) by blast
    with d b p False show ?thesis by (subst heapify.simps) (simp add: Let_def)
  qed
qed

lemma heap_from_but: "heap_from key a (Suc i) cnt \<Longrightarrow> 1 \<le> i \<Longrightarrow> heap_but key a i i cnt"
  by (auto simp: heap_from_def heap_but_def child_def)

lemma build_loop_spec:
  assumes "compares cmp key" and "heap_from key a (Suc n) cnt" and "n \<le> cnt" "cnt \<le> length a"
  shows "\<exists>b. build_loop cmp a cnt n = Some b \<and> heap_from key b 1 cnt \<and> mset b = mset a \<and> length b = length a
     \<and> drop cnt b = drop cnt a"
  using assms
proof (induction n arbitrary: a)
  case (Suc n)
  have "heap_but key a (Suc n) (Suc n) cnt" by (rule heap_from_but) (use Suc.prems in simp_all)
  from heapify_spec [OF Suc.prems(1) this] Suc.prems obtain b where b: "heapify cmp a (Suc n) cnt = Some b"
    "heap_from key b (Suc n) cnt" "mset b = mset a" "length b = length a" "drop cnt b = drop cnt a" by auto
  from Suc.IH [OF Suc.prems(1) b(2)] Suc.prems b show ?case by auto
qed simp

lemma heap_root:
  assumes "heap_from key a 1 cnt" and "1 \<le> j" "j \<le> cnt"
  shows "key_at key a j \<le> key_at key a 1"
  using assms(2,3)
proof (induction j rule: less_induct)
  case (less j)
  show ?case
  proof (cases "j = 1")
    case False
    then have "child (j div 2) j" "1 \<le> j div 2" "j div 2 < j" using less.prems by (auto simp: child_def)
    with less assms(1) have "key_at key a j \<le> key_at key a (j div 2)" "key_at key a (j div 2) \<le> key_at key a 1"
      by (auto simp: heap_from_def)
    then show ?thesis by (rule order_trans)
  qed simp
qed

text \<open>During extraction the first \<open>i\<close> elements are a heap, and the others are in their final places.\<close>

lemma extract_loop_spec:
  assumes "compares cmp key" and "heap_from key a 1 i" and "i \<le> length a"
    and "sorted (map key (drop i a))" and "\<forall>x \<in> set (take i a). \<forall>y \<in> set (drop i a). key x \<le> key y"
  shows "\<exists>b. extract_loop cmp a i = Some b \<and> sorted (map key b) \<and> mset b = mset a"
  using assms
proof (induction i arbitrary: a)
  case 0
  then show ?case by (subst extract_loop.simps) simp
next
  case (Suc n)
  show ?case
  proof (cases "n = 0")
    case True
    then obtain x r where "a = x # r" using Suc.prems(3) by (cases a) auto
    with Suc.prems True show ?thesis by (subst extract_loop.simps) auto
  next
    case False
    obtain b where b: "do_swap a 1 (Suc n) = Some b" "length b = length a" "mset b = mset a"
      "\<forall>k. 1 \<le> k \<and> k \<le> length a \<longrightarrow> b ! (k - 1) = a ! ((if k = 1 then Suc n else if k = Suc n then 1 else k) - 1)"
      using do_swap_Some [of 1 a "Suc n"] Suc.prems(3) False by auto
    have kb: "key_at key b k = key_at key a (if k = 1 then Suc n else if k = Suc n then 1 else k)"
      if "1 \<le> k" "k \<le> Suc n" for k
      using b(4) that Suc.prems(3) by (simp add: key_at_def)
    have "heap_but key b 1 1 n"
      using Suc.prems(2) kb by (auto simp: heap_but_def heap_from_def child_def)
    from heapify_spec [OF Suc.prems(1) this] b(2) Suc.prems(3) False obtain d where
      d: "heapify cmp b 1 n = Some d" "heap_from key d 1 n" "mset d = mset b" "length d = length b" "drop n d = drop n b" by auto
    have bn: "drop n b = a ! 0 # drop (Suc n) a"
    proof -
      have "drop (Suc n) b = drop (Suc n) a" by (rule swap_drop [OF b(1)]) simp_all
      moreover have "b ! n = a ! 0" using b(4) [rule_format, of "Suc n"] Suc.prems(3) False by simp
      ultimately show ?thesis using Suc.prems(3) b(2) by (simp add: Cons_nth_drop_Suc [symmetric])
    qed
    have root: "key x \<le> key (a ! 0)" if "x \<in> set (take (Suc n) a)" for x
    proof -
      from that obtain j where "j < Suc n" "x = a ! j" using Suc.prems(3) by (auto simp: in_set_conv_nth)
      with heap_root [OF Suc.prems(2), of "Suc j"] show ?thesis by (simp add: key_at_def)
    qed
    have "mset (take n d) + mset (drop n d) = mset (take (Suc n) a) + mset (drop (Suc n) a)"
      using d(3) b(3) by (simp flip: mset_append)
    then have "mset (take n d) + {#a ! 0#} = mset (take (Suc n) a)" using d(5) bn by simp
    then have sub: "set (take n d) \<subseteq> set (take (Suc n) a)" by (metis mset_subset_eq_add_left set_mset_mono set_mset_mset)
    have a0: "a ! 0 \<in> set (take (Suc n) a)" using Suc.prems(3) by (auto simp: in_set_conv_nth)
    have "sorted (map key (drop n d))" "\<forall>x \<in> set (take n d). \<forall>y \<in> set (drop n d). key x \<le> key y"
      using Suc.prems(4,5) d(5) bn sub a0 root by (auto simp: subset_iff)
    with Suc.IH [OF Suc.prems(1) d(2)] d(4) b(2) Suc.prems(3) obtain e where
      "extract_loop cmp d n = Some e" "sorted (map key e)" "mset e = mset d" by auto
    with d b False show ?thesis by (subst extract_loop.simps) simp
  qed
qed

section \<open>Correctness of the search\<close>

definition compares_key :: "('k \<Rightarrow> 'a \<Rightarrow> int) \<Rightarrow> ('a \<Rightarrow> 'k :: linorder) \<Rightarrow> bool" where
  "compares_key cmp key \<longleftrightarrow> (\<forall>k x. (cmp k x < 0 \<longleftrightarrow> k < key x) \<and> (cmp k x > 0 \<longleftrightarrow> k > key x))"

lemma search_loop_spec:
  assumes cmp: "compares_key cmp key" and sorted: "sorted (map key a)" and cnt: "cnt \<le> length a"
    and "lst \<le> cnt" and "\<forall>j < fst0. key (a ! j) < k" and "\<forall>j. lst \<le> j \<and> j < cnt \<longrightarrow> k < key (a ! j)"
  shows "case search_loop cmp k a fst0 lst of
       Some i \<Rightarrow> i < cnt \<and> key (a ! i) = k | None \<Rightarrow> \<forall>j < cnt. key (a ! j) \<noteq> k"
  using assms(4-)
proof (induction "lst - fst0" arbitrary: fst0 lst rule: less_induct)
  case less
  show ?case
  proof (cases "fst0 < lst")
    case False
    with less.prems have "\<forall>j < cnt. key (a ! j) \<noteq> k" by (metis less_irrefl not_less order_trans)
    with False show ?thesis by (subst search_loop.simps) simp
  next
    case True
    define m where "m = fst0 + (lst - fst0) div 2"
    have m: "fst0 \<le> m" "m < lst" using True by (auto simp: m_def)
    have mono: "key (a ! i) \<le> key (a ! j)" if "i \<le> j" "j < cnt" for i j
      using sorted_nth_mono [OF sorted, of i j] that cnt by simp
    have step: "search_loop cmp k a fst0 lst = (if k < key (a ! m) then search_loop cmp k a fst0 m
        else if k > key (a ! m) then search_loop cmp k a (m + 1) lst else Some m)"
      using True cmp by (subst search_loop.simps) (simp add: Let_def m_def compares_key_def)
    consider "k < key (a ! m)" | "k > key (a ! m)" | "k = key (a ! m)" by (rule linorder_cases)
    then show ?thesis
    proof cases
      case 1
      have "\<forall>j. m \<le> j \<and> j < cnt \<longrightarrow> k < key (a ! j)" using 1 mono by (meson less_le_trans)
      with 1 step less.hyps [of m fst0] less.prems m show ?thesis by simp
    next
      case 2
      have "\<forall>j < m + 1. key (a ! j) < k" using 2 mono m less.prems(1) by (metis Suc_eq_plus1 le_less_trans less_Suc_eq_le less_le_trans)
      with step less.hyps [of lst "m + 1"] less.prems m order_less_not_sym [OF 2] 2 show ?thesis by simp
    next
      case 3
      with step m less.prems(1) show ?thesis by simp
    qed
  qed
qed

section \<open>Numerals\<close>

text \<open>The decimal numeral of a natural number.\<close>

fun numeral_of :: "nat \<Rightarrow> byte list" where
  "numeral_of n = (if n < 10 then [of_nat (48 + n)] else numeral_of (n div 10) @ [of_nat (48 + n mod 10)])"

declare numeral_of.simps [simp del]

lemma sint_digit: "d < 10 \<Longrightarrow> sint (of_nat (48 + d) :: byte) = 48 + int d"
proof -
  assume "d < 10"
  then have "sint (word_of_int (48 + int d) :: byte) = 48 + int d"
    unfolding signed_of_int by (simp add: signed_take_bit_int_eq_self)
  then show ?thesis by simp
qed

lemma digit_step:
  "d < 10 \<Longrightarrow> digits_loop (of_nat (48 + d) # s) v = digits_loop s (v * 10 - of_nat d)"
  using sint_digit [of d] by (simp add: isdigit_def)

lemma digits_numeral:
  "digits_loop (numeral_of n @ s) v = digits_loop s (v * 10 ^ length (numeral_of n) - of_nat n)"
proof (induction n arbitrary: s v rule: numeral_of.induct)
  case (1 n)
  show ?case
  proof (cases "n < 10")
    case True
    then have "numeral_of n = [of_nat (48 + n)]" by (subst numeral_of.simps) simp
    with digit_step [OF True] show ?thesis by simp
  next
    case False
    then have eq: "numeral_of n = numeral_of (n div 10) @ [of_nat (48 + n mod 10)]" by (subst numeral_of.simps) simp
    have "of_nat n = (of_nat (n div 10) * 10 + of_nat (n mod 10) :: u32)"
      by (metis div_mult_mod_eq of_nat_add of_nat_mult of_nat_numeral)
    then show ?thesis
      using "1.IH" [OF False, of "of_nat (48 + n mod 10) # s"] digit_step [of "n mod 10"]
      by (simp add: eq algebra_simps del: of_nat_add)
  qed
qed

lemma numeral_hd: "\<exists>d r. numeral_of n = of_nat (48 + d) # r \<and> d < 10"
proof (induction n rule: numeral_of.induct)
  case (1 n)
  show ?case
  proof (cases "n < 10")
    case False
    from "1.IH" [OF this] obtain d r where "numeral_of (n div 10) = of_nat (48 + d) # r" "d < 10" by blast
    with False show ?thesis by (subst numeral_of.simps) (simp del: of_nat_add, blast)
  qed (subst numeral_of.simps, simp del: of_nat_add, blast)
qed

lemma atoi_reads:
  assumes "\<forall>c \<in> set sp. isspace (uint c)" and "\<not> isdigit (sint c)"
  shows "atoi (sp @ numeral_of n @ c # r) = Some (of_nat n)
     \<and> atoi (sp @ 45 # numeral_of n @ c # r) = Some (- of_nat n)"
proof -
  have skip: "skip_space (sp @ s) = skip_space s" for s using assms(1) by (induction sp) auto
  obtain d t where dt: "numeral_of n = of_nat (48 + d) # t" "d < 10" using numeral_hd by blast
  have sd: "sint (of_nat (48 + d) :: byte) = 48 + int d" by (rule sint_digit [OF dt(2)])
  have ud: "uint (of_nat (48 + d) :: byte) = 48 + int d"
    using dt(2) by (simp add: unsigned_of_nat take_bit_nat_eq_self del: of_nat_add)
  have dig: "digits_loop (numeral_of n @ c # r) 0 = Some (- of_nat n)" using digits_numeral [of n "c # r" 0] assms(2) by simp
  have "skip_space (numeral_of n @ c # r) = Some (numeral_of n @ c # r)"
    using ud dt(2) by (simp add: dt(1) isspace_def del: of_nat_add)
  then have "atoi (sp @ numeral_of n @ c # r) = Some (of_nat n)"
    using dig sd by (simp add: atoi_def skip dt(1) del: of_nat_add)
  moreover have "atoi (sp @ 45 # numeral_of n @ c # r) = Some (- of_nat n)"
    using dig by (simp add: atoi_def skip isspace_def)
  ultimately show ?thesis ..
qed

section \<open>Properties\<close>

text \<open>C18. \<open>sort\<close> (and \<open>qsort\<close>) sorts: for every array and every comparison by a key, the loops of the
  heapsort end, stay inside the array, and leave the elements in nondecreasing order, each as often
  as before.\<close>

theorem sort_correct:
  assumes "compares cmp key"
  shows "\<exists>b. sort_array cmp a (length a) = Some b \<and> sorted (map key b) \<and> mset b = mset a"
proof -
  have "heap_from key a (Suc (length a div 2)) (length a)" by (auto simp: heap_from_def child_def)
  from build_loop_spec [OF assms this] obtain b where b: "build_loop cmp a (length a) (length a div 2) = Some b"
    "heap_from key b 1 (length a)" "mset b = mset a" "length b = length a" by auto
  from extract_loop_spec [OF assms b(2)] b show ?thesis by (auto simp: sort_array_def)
qed

theorem sort_correct_witness:
  "\<exists>b. sort_array (\<lambda>x y :: int. x - y) [3, 1, 2, 1] 4 = Some b \<and> sorted b"
  using sort_correct [of "\<lambda>x y :: int. x - y" "\<lambda>x. x" "[3, 1, 2, 1]"]
  by (auto simp: compares_def numeral_eq_Suc)

text \<open>\<open>binary_search\<close> on a sorted array returns the index of an element with the key when there is
  one, and otherwise the null pointer.\<close>

theorem binary_search_correct:
  assumes "compares_key cmp key" and "sorted (map key a)"
  shows "\<exists>r. binary_search cmp k a (length a) = Some r
     \<and> (case r of Some i \<Rightarrow> i < length a \<and> key (a ! i) = k | None \<Rightarrow> k \<notin> key ` set a)"
proof -
  have "case search_loop cmp k a 0 (length a) of
      Some i \<Rightarrow> i < length a \<and> key (a ! i) = k | None \<Rightarrow> \<forall>j < length a. key (a ! j) \<noteq> k"
    using assms by (intro search_loop_spec) auto
  then show ?thesis
    by (auto simp: binary_search_def in_set_conv_nth split: option.splits)
qed

theorem binary_search_correct_witness:
  "\<exists>i. binary_search (\<lambda>k x :: int. k - x) 5 [1, 3, 5, 9] 4 = Some (Some i) \<and> i < 4"
proof -
  have "compares_key (\<lambda>k x :: int. k - x) (\<lambda>x. x)" "sorted (map (\<lambda>x. x) [1, 3, 5, 9 :: int])"
    by (auto simp: compares_key_def)
  from binary_search_correct [OF this, of 5] show ?thesis by (auto simp: eval_nat_numeral split: option.splits)
qed

text \<open>\<open>atoi\<close> reads decimal numerals: after any white space, the numeral of a number, with or without
  a minus sign, is converted to that number as a 32-bit integer. The smallest integer, whose
  absolute value is not an \<open>int\<close>, is included.\<close>

theorem atoi_numeral:
  assumes "\<forall>c \<in> set sp. isspace (uint c)" and "\<not> isdigit (sint c)"
  shows "atoi (sp @ numeral_of n @ c # r) = Some (of_nat n)
     \<and> atoi (sp @ 45 # numeral_of n @ c # r) = Some (- of_nat n)"
  using assms by (rule atoi_reads)

theorem atoi_numeral_witness: "atoi [32, 45, 49, 50, 0] = Some (- 12)"
proof -
  have "numeral_of 12 = [49, 50]" by (simp add: numeral_of.simps)
  with atoi_numeral [of "[32]" 0 12 "[]"] show ?thesis by (simp add: isspace_def isdigit_def)
qed

end
