(* ===== verification/Stdio.thy ===== *)
theory Stdio
  imports Kstdlib
begin

text \<open>
  Formatted output, \<^verbatim>\<open>lib/stdio.c\<close>. The callback \<open>output\<close> and its auxiliary data are a function
  on a state of any type, which may stop the kernel; \<open>vsnprintf\<close> instantiates it with a buffer, \<open>printf\<close>
  with the console. A format is the memory from its first character on. The arguments of the variable
  argument list are 32-bit words, 64-bit words and pointers to strings; reading an argument of the
  wrong kind is undefined in C and \<open>None\<close> here.

  The lemmas show that the output does not depend on the callback, that the digit buffer of
  \<open>format_integer\<close> is never overrun, that \<open>vsnprintf\<close> stays inside its buffer and truncates, and that
  \<open>atoi\<close> reads back what \<open>%d\<close> prints.
\<close>

section \<open>Arguments, conversions and bases\<close>

datatype arg = A32 u32 | A64 u64 | AStr "byte list option"

type_synonym va_list = "arg list"

fun va32 :: "va_list \<Rightarrow> (u32 \<times> va_list) option" where
  "va32 (A32 w # args) = Some (w, args)"
| "va32 _ = None"

fun va64 :: "va_list \<Rightarrow> (u64 \<times> va_list) option" where
  "va64 (A64 w # args) = Some (w, args)"
| "va64 _ = None"

fun vastr :: "va_list \<Rightarrow> (byte list option \<times> va_list) option" where
  "vastr (AStr s # args) = Some (s, args)"
| "vastr _ = None"

definition MINUS :: u32 where "MINUS = 1"
definition PLUS :: u32 where "PLUS = 2"
definition SPACE :: u32 where "SPACE = 4"
definition POUND :: u32 where "POUND = 8"
definition ZERO :: u32 where "ZERO = 16"
definition GROUP :: u32 where "GROUP = 32"

definition flag :: "u32 \<Rightarrow> u32 \<Rightarrow> bool" where
  "flag fl f \<longleftrightarrow> fl AND f \<noteq> 0"

datatype conv_type = CHAR_T | SHORT_T | INT_T | INTMAX_T | LONG_T | LONGLONG_T | PTRDIFFT_T | SIZET_T

record printf_conversion =
  flags :: u32
  width :: int
  precision :: int
  conv :: conv_type

record integer_base =
  base :: u64
  digits :: "byte list"
  xch :: byte
  group :: nat

definition base_d :: integer_base where
  "base_d = \<lparr> base = 10, digits = [48, 49, 50, 51, 52, 53, 54, 55, 56, 57], xch = 0, group = 3 \<rparr>"

definition base_o :: integer_base where
  "base_o = \<lparr> base = 8, digits = [48, 49, 50, 51, 52, 53, 54, 55], xch = 0, group = 3 \<rparr>"

definition base_x :: integer_base where
  "base_x = \<lparr> base = 16, digits = [48, 49, 50, 51, 52, 53, 54, 55, 56, 57, 97, 98, 99, 100, 101, 102],
     xch = 120, group = 4 \<rparr>"

definition base_X :: integer_base where
  "base_X = \<lparr> base = 16, digits = [48, 49, 50, 51, 52, 53, 54, 55, 56, 57, 65, 66, 67, 68, 69, 70],
     xch = 88, group = 4 \<rparr>"

text \<open>The value of an \<open>int\<close> computation, which wraps.\<close>

definition to_int :: "int \<Rightarrow> int" where
  "to_int v = signed_take_bit 31 v"

section \<open>Parsing of a conversion\<close>

fun parse_flags :: "byte list \<Rightarrow> u32 \<Rightarrow> (u32 \<times> byte list) option" where
  "parse_flags [] fl = None"
| "parse_flags (ch # fmt) fl =
     (if ch = 45 then parse_flags fmt (fl OR MINUS) \<comment> \<open>-\<close>
      else if ch = 43 then parse_flags fmt (fl OR PLUS) \<comment> \<open>+\<close>
      else if ch = 32 then parse_flags fmt (fl OR SPACE) \<comment> \<open>blank\<close>
      else if ch = 35 then parse_flags fmt (fl OR POUND) \<comment> \<open>#\<close>
      else if ch = 48 then parse_flags fmt (fl OR ZERO) \<comment> \<open>0\<close>
      else if ch = 39 then parse_flags fmt (fl OR GROUP) \<comment> \<open>quote\<close>
      else Some (fl, ch # fmt))"

fun parse_digits :: "byte list \<Rightarrow> int \<Rightarrow> (int \<times> byte list) option" where
  "parse_digits [] v = None"
| "parse_digits (ch # fmt) v =
     (if isdigit (sint ch) then parse_digits fmt (to_int (to_int (to_int (v * 10) + sint ch) - 48))
      else Some (v, ch # fmt))"

definition parse_width :: "byte list \<Rightarrow> va_list \<Rightarrow> (int \<times> byte list \<times> va_list) option" where
  "parse_width fmt args = (case fmt of [] \<Rightarrow> None
     | ch # fmt' \<Rightarrow> if ch = 42 \<comment> \<open>star\<close> then do { (w, args') \<leftarrow> va32 args; Some (sint w, fmt', args') }
        else do { (w, fmt'') \<leftarrow> parse_digits fmt 0; Some (w, fmt'', args) })"

definition parse_precision :: "byte list \<Rightarrow> va_list \<Rightarrow> (int \<times> byte list \<times> va_list) option" where
  "parse_precision fmt args = (case fmt of [] \<Rightarrow> None
     | ch # fmt' \<Rightarrow> if ch = 46 \<comment> \<open>.\<close> then do {
           (p, fmt'', args') \<leftarrow> parse_width fmt' args;
           Some (if p < 0 then - 1 else p, fmt'', args') }
        else Some (- 1, fmt, args))"

definition parse_type :: "byte list \<Rightarrow> (conv_type \<times> byte list) option" where
  "parse_type fmt = (case fmt of [] \<Rightarrow> None
     | ch # fmt' \<Rightarrow>
        if ch = 104 \<comment> \<open>h\<close> then (case fmt' of [] \<Rightarrow> None
          | ch2 # fmt'' \<Rightarrow> Some (if ch2 = 104 then (CHAR_T, fmt'') else (SHORT_T, fmt')))
        else if ch = 106 \<comment> \<open>j\<close> then Some (INTMAX_T, fmt')
        else if ch = 108 \<comment> \<open>l\<close> then (case fmt' of [] \<Rightarrow> None
          | ch2 # fmt'' \<Rightarrow> Some (if ch2 = 108 then (LONGLONG_T, fmt'') else (LONG_T, fmt')))
        else if ch = 116 \<comment> \<open>t\<close> then Some (PTRDIFFT_T, fmt')
        else if ch = 122 \<comment> \<open>z\<close> then Some (SIZET_T, fmt')
        else Some (INT_T, fmt))"

definition parse_conversion ::
  "byte list \<Rightarrow> va_list \<Rightarrow> (printf_conversion \<times> byte list \<times> va_list) option" where
  "parse_conversion fmt args = do {
     (fl0, fmt1) \<leftarrow> parse_flags fmt 0;
     let fl1 = (if flag fl0 MINUS then fl0 AND NOT ZERO else fl0);
     let fl2 = (if flag fl1 PLUS then fl1 AND NOT SPACE else fl1);
     (w, fmt2, args1) \<leftarrow> parse_width fmt1 args;
     let (w', fl3) = (if w < 0 then (to_int (- w), fl2 OR MINUS) else (w, fl2));
     (p, fmt3, args2) \<leftarrow> parse_precision fmt2 args1;
     let fl4 = (if p \<ge> 0 then fl3 AND NOT ZERO else fl3);
     (ty, fmt4) \<leftarrow> parse_type fmt3;
     Some (\<lparr> flags = fl4, width = w', precision = p, conv = ty \<rparr>, fmt4, args2) }"

section \<open>Output of strings and integers\<close>

type_synonym 'a outfun = "byte \<Rightarrow> 'a \<Rightarrow> 'a option"

primrec output_all :: "byte list \<Rightarrow> 'a outfun \<Rightarrow> 'a \<Rightarrow> 'a option" where
  "output_all [] output aux = Some aux"
| "output_all (ch # s) output aux = do { aux' \<leftarrow> output ch aux; output_all s output aux' }"

primrec output_dup :: "byte \<Rightarrow> nat \<Rightarrow> 'a outfun \<Rightarrow> 'a \<Rightarrow> 'a option" where
  "output_dup ch 0 output aux = Some aux"
| "output_dup ch (Suc cnt) output aux = do { aux' \<leftarrow> output ch aux; output_dup ch cnt output aux' }"

text \<open>The characters in \<open>buf\<close> up to \<open>cp\<close>; the array has 64 elements.\<close>

definition put :: "byte list \<Rightarrow> byte \<Rightarrow> byte list option" where
  "put buf ch = (if length buf < 64 then Some (buf @ [ch]) else None)"

partial_function (option) digits_into :: "integer_base \<Rightarrow> u32 \<Rightarrow> u64 \<Rightarrow> nat \<Rightarrow> byte list \<Rightarrow> byte list option" where
  "digits_into b fl value digit_cnt buf =
     (if value > 0 then do {
        buf1 \<leftarrow> (if flag fl GROUP \<and> digit_cnt > 0 \<and> digit_cnt mod group b = 0 then put buf 44 else Some buf);
        kassert (unat (value mod base b) < length (digits b));
        buf2 \<leftarrow> put buf1 (digits b ! unat (value mod base b));
        digits_into b fl (value div base b) (Suc digit_cnt) buf2 }
      else Some buf)"

function zeros_into :: "int \<Rightarrow> byte list \<Rightarrow> byte list" where
  "zeros_into prec buf = (if int (length buf) < prec \<and> length buf < 63 then zeros_into prec (buf @ [48]) else buf)"
  by auto

termination by (relation "measure (\<lambda>(prec, buf). 63 - length buf)") auto

declare zeros_into.simps [simp del]

definition format_integer :: "u64 \<Rightarrow> bool \<Rightarrow> bool \<Rightarrow> integer_base \<Rightarrow> printf_conversion \<Rightarrow> 'a outfun \<Rightarrow> 'a \<Rightarrow> 'a option" where
  "format_integer value is_signed negative b c output aux = do {
     let sign = (if \<not> is_signed then 0
       else if flag (flags c) PLUS then (if negative then 45 else 43)
       else if flag (flags c) SPACE then (if negative then 45 else 32)
       else if negative then 45 else (0 :: byte));
     let x = (if flag (flags c) POUND \<and> value \<noteq> 0 then xch b else 0);
     buf1 \<leftarrow> digits_into b (flags c) value 0 [];
     let buf2 = zeros_into (if precision c < 0 then 1 else precision c) buf1;
     buf3 \<leftarrow> (if flag (flags c) POUND \<and> base b = 8 \<and> (buf2 = [] \<or> last buf2 \<noteq> 48) then put buf2 48 else Some buf2);
     let pad_cnt = nat (width c - int (length buf3) - (if x \<noteq> 0 then 2 else 0) - (if sign \<noteq> 0 then 1 else 0));
     aux1 \<leftarrow> (if \<not> flag (flags c) (MINUS OR ZERO) then output_dup 32 pad_cnt output aux else Some aux);
     aux2 \<leftarrow> (if sign \<noteq> 0 then output sign aux1 else Some aux1);
     aux3 \<leftarrow> (if x \<noteq> 0 then do { a \<leftarrow> output 48 aux2; output x a } else Some aux2);
     aux4 \<leftarrow> (if flag (flags c) ZERO then output_dup 48 pad_cnt output aux3 else Some aux3);
     aux5 \<leftarrow> output_all (rev buf3) output aux4;
     if flag (flags c) MINUS then output_dup 32 pad_cnt output aux5 else Some aux5 }"

definition format_string :: "byte list \<Rightarrow> int \<Rightarrow> printf_conversion \<Rightarrow> 'a outfun \<Rightarrow> 'a \<Rightarrow> 'a option" where
  "format_string string len c output aux = do {
     aux1 \<leftarrow> (if width c > len \<and> \<not> flag (flags c) MINUS then output_dup 32 (nat (width c - len)) output aux
        else Some aux);
     kassert (len \<le> int (length string));
     aux2 \<leftarrow> output_all (take (nat len) string) output aux1;
     if width c > len \<and> flag (flags c) MINUS then output_dup 32 (nat (width c - len)) output aux2
     else Some aux2 }"

section \<open>Formatted output\<close>

text \<open>The argument of a signed and of an unsigned conversion, by the length modifier.\<close>

definition signed_arg :: "conv_type \<Rightarrow> va_list \<Rightarrow> (int \<times> va_list) option" where
  "signed_arg ty args = (case ty of
       CHAR_T \<Rightarrow> do { (w, r) \<leftarrow> va32 args; Some (sint (ucast w :: 8 word), r) }
     | SHORT_T \<Rightarrow> do { (w, r) \<leftarrow> va32 args; Some (sint (ucast w :: 16 word), r) }
     | INT_T \<Rightarrow> do { (w, r) \<leftarrow> va32 args; Some (sint w, r) }
     | INTMAX_T \<Rightarrow> do { (w, r) \<leftarrow> va64 args; Some (sint w, r) }
     | LONG_T \<Rightarrow> do { (w, r) \<leftarrow> va32 args; Some (sint w, r) }
     | LONGLONG_T \<Rightarrow> do { (w, r) \<leftarrow> va64 args; Some (sint w, r) }
     | PTRDIFFT_T \<Rightarrow> do { (w, r) \<leftarrow> va32 args; Some (sint w, r) }
     | SIZET_T \<Rightarrow> do { (w, r) \<leftarrow> va32 args;
          Some (if uint w > int SIZE_MAX div 2 then uint w - int SIZE_MAX - 1 else uint w, r) })"

definition unsigned_arg :: "conv_type \<Rightarrow> va_list \<Rightarrow> (u64 \<times> va_list) option" where
  "unsigned_arg ty args = (case ty of
       CHAR_T \<Rightarrow> do { (w, r) \<leftarrow> va32 args; Some (ucast (ucast w :: 8 word), r) }
     | SHORT_T \<Rightarrow> do { (w, r) \<leftarrow> va32 args; Some (ucast (ucast w :: 16 word), r) }
     | INT_T \<Rightarrow> do { (w, r) \<leftarrow> va32 args; Some (ucast w, r) }
     | INTMAX_T \<Rightarrow> va64 args
     | LONG_T \<Rightarrow> do { (w, r) \<leftarrow> va32 args; Some (ucast w, r) }
     | LONGLONG_T \<Rightarrow> va64 args
     | PTRDIFFT_T \<Rightarrow> do { (w, r) \<leftarrow> va32 args; Some (scast w AND (push_bit 1 (2 ^ 31 - 1) OR 1), r) }
     | SIZET_T \<Rightarrow> do { (w, r) \<leftarrow> va32 args; Some (ucast w, r) })"

text \<open>The conversions, by the conversion character. \<open>unsupported\<close> is the call of \<open>__printf\<close> for the
  characters without a conversion.\<close>

definition convert :: "(bool \<Rightarrow> byte \<Rightarrow> 'a \<Rightarrow> 'a option) \<Rightarrow> 'a outfun \<Rightarrow> byte \<Rightarrow> printf_conversion \<Rightarrow> va_list
    \<Rightarrow> 'a \<Rightarrow> ('a \<times> va_list) option" where
  "convert unsupported output ch c args aux =
     (if ch = 100 \<comment> \<open>d\<close> \<or> ch = 105 \<comment> \<open>i\<close> then do {
        (value, r) \<leftarrow> signed_arg (conv c) args;
        aux' \<leftarrow> format_integer (word_of_int (if value < 0 then - value else value)) True (value < 0) base_d c output aux;
        Some (aux', r) }
      else if ch = 111 \<comment> \<open>o\<close> \<or> ch = 117 \<comment> \<open>u\<close> \<or> ch = 120 \<comment> \<open>x\<close> \<or> ch = 88 \<comment> \<open>X\<close> then do {
        (value, r) \<leftarrow> unsigned_arg (conv c) args;
        let b = (if ch = 111 then base_o else if ch = 117 then base_d else if ch = 120 then base_x else base_X);
        aux' \<leftarrow> format_integer value False False b c output aux;
        Some (aux', r) }
      else if ch = 99 \<comment> \<open>c\<close> then do {
        (w, r) \<leftarrow> va32 args;
        aux' \<leftarrow> format_string [ucast w] 1 c output aux;
        Some (aux', r) }
      else if ch = 115 \<comment> \<open>s\<close> then do {
        (s, r) \<leftarrow> vastr args;
        let str = (case s of None \<Rightarrow> [40, 110, 117, 108, 108, 41, 0] | Some str \<Rightarrow> str);
        n \<leftarrow> strnlen str (if precision c = - 1 then SIZE_MAX else nat (precision c));
        aux' \<leftarrow> format_string str (to_int (int n)) c output aux;
        Some (aux', r) }
      else if ch = 112 \<comment> \<open>p\<close> then do {
        (w, r) \<leftarrow> va32 args;
        aux' \<leftarrow> format_integer (ucast w) False False base_x (c\<lparr>flags := POUND\<rparr>) output aux;
        Some (aux', r) }
      else do {
        aux' \<leftarrow> unsupported (ch \<in> {102, 101, 69, 103, 71, 110}) ch aux;
        Some (aux', args) })"

lemma parse_flags_length: "parse_flags fmt fl = Some (fl', fmt') \<Longrightarrow> length fmt' \<le> length fmt"
  by (induction fmt fl rule: parse_flags.induct) (auto split: if_splits)

lemma parse_digits_length: "parse_digits fmt v = Some (v', fmt') \<Longrightarrow> length fmt' \<le> length fmt"
  by (induction fmt v rule: parse_digits.induct) (auto split: if_splits)

lemma parse_width_length: "parse_width fmt args = Some (w, fmt', args') \<Longrightarrow> length fmt' \<le> length fmt"
  by (auto simp: parse_width_def bind_Some_iff split: list.splits if_splits dest: parse_digits_length)

lemma parse_precision_length: "parse_precision fmt args = Some (w, fmt', args') \<Longrightarrow> length fmt' \<le> length fmt"
  by (auto simp: parse_precision_def bind_Some_iff split: list.splits if_splits dest: parse_width_length)

lemma parse_type_length: "parse_type fmt = Some (ty, fmt') \<Longrightarrow> length fmt' \<le> length fmt"
  by (auto simp: parse_type_def split: list.splits if_splits)

lemma parse_conversion_length:
  "parse_conversion fmt args = Some (c, fmt', args') \<Longrightarrow> length fmt' \<le> length fmt"
  by (auto simp: parse_conversion_def bind_Some_iff Let_def split: prod.splits if_splits
      dest!: parse_flags_length parse_width_length parse_precision_length parse_type_length)

text \<open>The loop over the format.\<close>

function vprintf_loop :: "(bool \<Rightarrow> byte \<Rightarrow> 'a \<Rightarrow> 'a option) \<Rightarrow> 'a outfun \<Rightarrow> byte list \<Rightarrow> va_list \<Rightarrow> 'a \<Rightarrow> 'a option" where
  "vprintf_loop unsupported output fmt args aux = (case fmt of [] \<Rightarrow> None
     | ch # fmt1 \<Rightarrow>
        if ch = 0 then Some aux
        else if ch \<noteq> 37 \<comment> \<open>percent\<close> then do {
          aux' \<leftarrow> output ch aux;
          vprintf_loop unsupported output fmt1 args aux' }
        else (case fmt1 of [] \<Rightarrow> None
          | ch1 # fmt2 \<Rightarrow>
             if ch1 = 37 then do {
               aux' \<leftarrow> output 37 aux;
               vprintf_loop unsupported output fmt2 args aux' }
             else do {
               (c, fmt3, args1) \<leftarrow> parse_conversion fmt1 args;
               case fmt3 of [] \<Rightarrow> None
               | ch2 # fmt4 \<Rightarrow> do {
                   (aux', args2) \<leftarrow> convert unsupported output ch2 c args1 aux;
                   vprintf_loop unsupported output fmt4 args2 aux' } }))"
  by pat_completeness auto

termination
  by (relation "measure (\<lambda>(u, out, fmt, args, aux). length fmt)") (auto dest: parse_conversion_length)

declare vprintf_loop.simps [simp del]

text \<open>The formats of the messages for unsupported conversions, \<open><<no %%%c in kernel>>\<close> and
  \<open><<no %%%c conversion>>\<close>, contain supported conversions only, so that the call of \<open>__printf\<close> in the
  loop does not call it again.\<close>

definition no_in_kernel :: "byte list" where
  "no_in_kernel = [60, 60, 110, 111, 32, 37, 37, 37, 99, 32, 105, 110, 32, 107, 101, 114, 110, 101, 108, 62, 62, 0]"

definition no_conversion :: "byte list" where
  "no_conversion = [60, 60, 110, 111, 32, 37, 37, 37, 99, 32, 99, 111, 110, 118, 101, 114, 115, 105, 111, 110, 62, 62, 0]"

definition print_unsupported :: "'a outfun \<Rightarrow> bool \<Rightarrow> byte \<Rightarrow> 'a \<Rightarrow> 'a option" where
  "print_unsupported output in_kernel ch aux =
     vprintf_loop (\<lambda>_ _ _. None) output (if in_kernel then no_in_kernel else no_conversion) [A32 (scast ch)] aux"

definition vprintf :: "'a outfun \<Rightarrow> byte list \<Rightarrow> va_list \<Rightarrow> 'a \<Rightarrow> 'a option" where
  "vprintf output fmt args aux = vprintf_loop (print_unsupported output) output fmt args aux"

section \<open>Output into a buffer\<close>

record vsnprintf_aux =
  buf :: "byte list"
  pos :: nat
  len :: int
  max_length :: int

definition vsnprintf_helper :: "vsnprintf_aux outfun" where
  "vsnprintf_helper ch aux =
     (let aux' = aux\<lparr>len := to_int (len aux + 1)\<rparr> in
      if len aux < max_length aux then do {
        kassert (pos aux < length (buf aux));
        Some (aux'\<lparr>buf := (buf aux)[pos aux := ch], pos := pos aux + 1\<rparr>) }
      else Some aux')"

definition vsnprintf :: "byte list \<Rightarrow> nat \<Rightarrow> byte list \<Rightarrow> va_list \<Rightarrow> (int \<times> byte list) option" where
  "vsnprintf buffer buf_size fmt args = do {
     aux \<leftarrow> vprintf vsnprintf_helper fmt args
        \<lparr> buf = buffer, pos = 0, len = 0, max_length = (if buf_size > 0 then to_int (int (buf_size - 1)) else 0) \<rparr>;
     if buf_size > 0 then do {
       kassert (pos aux < length (buf aux));
       Some (len aux, (buf aux)[pos aux := 0]) }
     else Some (len aux, buf aux) }"

definition snprintf :: "byte list \<Rightarrow> nat \<Rightarrow> byte list \<Rightarrow> va_list \<Rightarrow> (int \<times> byte list) option" where
  "snprintf buffer buf_size fmt args = vsnprintf buffer buf_size fmt args"

section \<open>The text of a conversion\<close>

text \<open>What a format produces, as a list of characters, without the callback. The digits are those of the
  number, least significant first.\<close>

fun ref_digits :: "integer_base \<Rightarrow> u32 \<Rightarrow> nat \<Rightarrow> nat \<Rightarrow> byte list" where
  "ref_digits b fl v cnt = (if v = 0 \<or> unat (base b) < 2 then []
     else (if flag fl GROUP \<and> cnt > 0 \<and> cnt mod group b = 0 then [44] else [])
       @ digits b ! (v mod unat (base b)) # ref_digits b fl (v div unat (base b)) (Suc cnt))"

declare ref_digits.simps [simp del]

definition sign_text :: "bool \<Rightarrow> bool \<Rightarrow> u32 \<Rightarrow> byte list" where
  "sign_text is_signed negative fl =
     (if \<not> is_signed then [] else if negative then [45] else if flag fl PLUS then [43]
      else if flag fl SPACE then [32] else [])"

definition body_text :: "nat \<Rightarrow> integer_base \<Rightarrow> printf_conversion \<Rightarrow> byte list" where
  "body_text v b c =
     (let ds = ref_digits b (flags c) v 0;
          zs = ds @ replicate (nat (min (if precision c < 0 then 1 else precision c) 63) - length ds) 48
      in rev (if flag (flags c) POUND \<and> base b = 8 \<and> (zs = [] \<or> last zs \<noteq> 48) then zs @ [48] else zs))"

definition int_text :: "nat \<Rightarrow> bool \<Rightarrow> bool \<Rightarrow> integer_base \<Rightarrow> printf_conversion \<Rightarrow> byte list" where
  "int_text v is_signed negative b c =
     (let sign = sign_text is_signed negative (flags c);
          x = (if flag (flags c) POUND \<and> v \<noteq> 0 \<and> xch b \<noteq> 0 then [48, xch b] else []);
          body = body_text v b c;
          pad = nat (width c - int (length body) - int (length x) - int (length sign))
      in (if \<not> flag (flags c) (MINUS OR ZERO) then replicate pad 32 else []) @ sign @ x
        @ (if flag (flags c) ZERO then replicate pad 48 else []) @ body
        @ (if flag (flags c) MINUS then replicate pad 32 else []))"

definition str_text :: "byte list \<Rightarrow> int \<Rightarrow> printf_conversion \<Rightarrow> byte list" where
  "str_text s n c = (let pad = replicate (nat (width c - n)) 32
     in if flag (flags c) MINUS then take (nat n) s @ pad else pad @ take (nat n) s)"

definition conv_text :: "(bool \<Rightarrow> byte \<Rightarrow> byte list option) \<Rightarrow> byte \<Rightarrow> printf_conversion \<Rightarrow> va_list
    \<Rightarrow> (byte list \<times> va_list) option" where
  "conv_text unsupported ch c args =
     (if ch = 100 \<or> ch = 105 then do {
        (v, r) \<leftarrow> signed_arg (conv c) args;
        Some (int_text (nat \<bar>v\<bar>) True (v < 0) base_d c, r) }
      else if ch = 111 \<or> ch = 117 \<or> ch = 120 \<or> ch = 88 then do {
        (v, r) \<leftarrow> unsigned_arg (conv c) args;
        let b = (if ch = 111 then base_o else if ch = 117 then base_d else if ch = 120 then base_x else base_X);
        Some (int_text (unat v) False False b c, r) }
      else if ch = 99 then do {
        (w, r) \<leftarrow> va32 args;
        Some (str_text [ucast w] 1 c, r) }
      else if ch = 115 then do {
        (s, r) \<leftarrow> vastr args;
        let str = (case s of None \<Rightarrow> [40, 110, 117, 108, 108, 41, 0] | Some str \<Rightarrow> str);
        n \<leftarrow> strnlen str (if precision c = - 1 then SIZE_MAX else nat (precision c));
        Some (str_text str (to_int (int n)) c, r) }
      else if ch = 112 then do {
        (w, r) \<leftarrow> va32 args;
        Some (int_text (unat w) False False base_x (c\<lparr>flags := POUND\<rparr>), r) }
      else do {
        s \<leftarrow> unsupported (ch \<in> {102, 101, 69, 103, 71, 110}) ch;
        Some (s, args) })"

function text_of :: "(bool \<Rightarrow> byte \<Rightarrow> byte list option) \<Rightarrow> byte list \<Rightarrow> va_list \<Rightarrow> byte list option" where
  "text_of unsupported fmt args = (case fmt of [] \<Rightarrow> None
     | ch # fmt1 \<Rightarrow>
        if ch = 0 then Some []
        else if ch \<noteq> 37 then do { s \<leftarrow> text_of unsupported fmt1 args; Some (ch # s) }
        else (case fmt1 of [] \<Rightarrow> None
          | ch1 # fmt2 \<Rightarrow>
             if ch1 = 37 then do { s \<leftarrow> text_of unsupported fmt2 args; Some (37 # s) }
             else do {
               (c, fmt3, args1) \<leftarrow> parse_conversion fmt1 args;
               case fmt3 of [] \<Rightarrow> None
               | ch2 # fmt4 \<Rightarrow> do {
                   (s, args2) \<leftarrow> conv_text unsupported ch2 c args1;
                   t \<leftarrow> text_of unsupported fmt4 args2;
                   Some (s @ t) } }))"
  by pat_completeness auto

termination
  by (relation "measure (\<lambda>(u, fmt, args). length fmt)") (auto dest: parse_conversion_length)

declare text_of.simps [simp del]

definition unsupported_text :: "bool \<Rightarrow> byte \<Rightarrow> byte list option" where
  "unsupported_text in_kernel ch =
     Some ([60, 60, 110, 111, 32, 37, ch] @ (if in_kernel then [32, 105, 110, 32, 107, 101, 114, 110, 101, 108, 62, 62]
        else [32, 99, 111, 110, 118, 101, 114, 115, 105, 111, 110, 62, 62]))"

definition good_base :: "integer_base \<Rightarrow> bool" where
  "good_base b \<longleftrightarrow> base b \<in> {8, 10, 16} \<and> length (digits b) = unat (base b)"

lemma good_bases [simp]: "good_base base_d" "good_base base_o" "good_base base_x" "good_base base_X"
  by (simp_all add: good_base_def base_d_def base_o_def base_x_def base_X_def)

section \<open>The callback\<close>

lemma output_all_append:
  "output_all (s @ t) output aux = do { aux' \<leftarrow> output_all s output aux; output_all t output aux' }"
  by (induction s arbitrary: aux) simp_all

lemma output_dup_eq: "output_dup ch n output aux = output_all (replicate n ch) output aux"
  by (induction n arbitrary: aux) simp_all

lemma output_two: "output_all [ch, ch'] output aux = do { aux' \<leftarrow> output ch aux; output ch' aux' }"
  by (cases "output ch aux") simp_all

lemma output_one: "output_all [ch] output aux = output ch aux"
  by (cases "output ch aux") simp_all

lemma good_base_unat: "good_base b \<Longrightarrow> unat (base b) \<ge> 8"
  by (auto simp: good_base_def)

text \<open>A digit takes at most two characters of the buffer, itself and a comma.\<close>

lemma digits_into_spec:
  assumes "good_base b" and "unat v < 8 ^ k" and "length bf + 2 * k \<le> 64"
  shows "digits_into b fl v cnt bf = Some (bf @ ref_digits b fl (unat v) cnt)
     \<and> length (ref_digits b fl (unat v) cnt) \<le> 2 * k"
  using assms(2, 3)
proof (induction k arbitrary: v cnt bf)
  case 0
  then have "v = 0" by (simp add: unat_eq_zero)
  then show ?case by (subst digits_into.simps) (simp add: ref_digits.simps)
next
  case (Suc k)
  have b8: "unat (base b) \<ge> 8" by (rule good_base_unat [OF assms(1)])
  show ?case
  proof (cases "v = 0")
    case True
    then show ?thesis by (subst digits_into.simps) (simp add: ref_digits.simps)
  next
    case False
    define bf1 where "bf1 = bf @ (if flag fl GROUP \<and> cnt > 0 \<and> cnt mod group b = 0 then [44] else [])"
    have put1: "(if flag fl GROUP \<and> cnt > 0 \<and> cnt mod group b = 0 then put bf 44 else Some bf) = Some bf1"
      and len1: "length bf1 \<le> length bf + 1"
      using Suc.prems(2) by (auto simp: put_def bf1_def)
    have put2: "put bf1 ch = Some (bf1 @ [ch])" for ch using Suc.prems(2) len1 by (simp add: put_def)
    have d: "unat (v mod base b) < length (digits b)"
      using assms(1) b8 by (simp add: unat_mod good_base_def)
    have "unat v div unat (base b) \<le> unat v div 8" using b8 by (simp add: div_le_mono2)
    also have "\<dots> < 8 ^ k" using Suc.prems(1) by (simp add: less_mult_imp_div_less mult.commute)
    finally have "unat (v div base b) < 8 ^ k" by (simp add: unat_div)
    from Suc.IH [OF this, of "bf1 @ [digits b ! unat (v mod base b)]"] Suc.prems(2) len1
    have IH: "digits_into b fl (v div base b) (Suc cnt) (bf1 @ [digits b ! unat (v mod base b)])
        = Some ((bf1 @ [digits b ! unat (v mod base b)]) @ ref_digits b fl (unat (v div base b)) (Suc cnt))"
      "length (ref_digits b fl (unat (v div base b)) (Suc cnt)) \<le> 2 * k" by simp_all
    have ref: "ref_digits b fl (unat v) cnt = (if flag fl GROUP \<and> cnt > 0 \<and> cnt mod group b = 0 then [44] else [])
        @ digits b ! unat (v mod base b) # ref_digits b fl (unat (v div base b)) (Suc cnt)"
      using False b8 by (subst ref_digits.simps) (simp add: unat_div unat_mod unat_eq_zero)
    have "v > 0" using False by (simp add: word_gt_0)
    then have "digits_into b fl v cnt bf
        = Some (bf1 @ digits b ! unat (v mod base b) # ref_digits b fl (unat (v div base b)) (Suc cnt))"
      by (subst digits_into.simps) (simp add: put1 put2 d IH(1) del: split_paired_All)
    with ref IH(2) show ?thesis by (simp add: bf1_def)
  qed
qed

lemma zeros_into_eq:
  "zeros_into p bf = bf @ replicate (nat (min p 63) - length bf) 48"
proof (induction p bf rule: zeros_into.induct)
  case (1 p bf)
  show ?case
  proof (cases "int (length bf) < p \<and> length bf < 63")
    case True
    then have "nat (min p 63) - length bf = Suc (nat (min p 63) - length (bf @ [48 :: byte]))" by auto
    with True 1 show ?thesis by (subst zeros_into.simps) (simp add: replicate_append_same)
  next
    case False
    then have "nat (min p 63) - length bf = 0" by auto
    with False show ?thesis by (subst zeros_into.simps) (simp only: if_False replicate_0 append_Nil2)
  qed
qed

lemma body_text_eq:
  assumes "good_base b"
  shows "\<exists>bf. digits_into b (flags c) v 0 [] = Some bf \<and>
     (let zs = zeros_into (if precision c < 0 then 1 else precision c) bf in
      (if flag (flags c) POUND \<and> base b = 8 \<and> (zs = [] \<or> last zs \<noteq> 48) then put zs 48 else Some zs)
        = Some (rev (body_text (unat v) b c)))"
proof -
  have "unat v < 2 ^ LENGTH(64)" by (rule unsigned_less)
  also have "(2 :: nat) ^ LENGTH(64) \<le> 8 ^ 22" by simp
  finally have d: "digits_into b (flags c) v 0 [] = Some (ref_digits b (flags c) (unat v) 0)"
    "length (ref_digits b (flags c) (unat v) 0) \<le> 44"
    using digits_into_spec [OF assms, of v 22 "[]"] by simp_all
  let ?zs = "zeros_into (if precision c < 0 then 1 else precision c) (ref_digits b (flags c) (unat v) 0)"
  have "length ?zs < 64" using d(2) by (auto simp: zeros_into_eq)
  then have "put ?zs 48 = Some (?zs @ [48])" by (simp add: put_def)
  then show ?thesis
    unfolding d(1) Let_def body_text_def zeros_into_eq [symmetric] by simp
qed

lemma output_if: "(if P then output_all s output aux else Some aux) = output_all (if P then s else []) output aux"
  by simp

lemma format_integer_text:
  assumes "good_base b"
  shows "format_integer v is_signed negative b c output aux
     = output_all (int_text (unat v) is_signed negative b c) output aux"
proof -
  define sign where "sign = (if \<not> is_signed then 0 else if flag (flags c) PLUS then (if negative then 45 else 43)
       else if flag (flags c) SPACE then (if negative then 45 else 32)
       else if negative then 45 else (0 :: byte))"
  define x where "x = (if flag (flags c) POUND \<and> v \<noteq> 0 then xch b else 0)"
  define xs where "xs = (if flag (flags c) POUND \<and> unat v \<noteq> 0 \<and> xch b \<noteq> 0 then [48, xch b] else [])"
  define sg where "sg = sign_text is_signed negative (flags c)"
  define bd where "bd = body_text (unat v) b c"
  from body_text_eq [OF assms, of c v] obtain bf where
    bf: "digits_into b (flags c) v 0 [] = Some bf"
    "(if flag (flags c) POUND \<and> base b = 8
        \<and> (zeros_into (if precision c < 0 then 1 else precision c) bf = []
           \<or> last (zeros_into (if precision c < 0 then 1 else precision c) bf) \<noteq> 48)
      then put (zeros_into (if precision c < 0 then 1 else precision c) bf) 48
      else Some (zeros_into (if precision c < 0 then 1 else precision c) bf)) = Some (rev bd)"
    unfolding Let_def bd_def by blast
  have sgn: "(if sign \<noteq> 0 then output sign a else Some a) = output_all sg output a"
    "(if sign \<noteq> 0 then 1 else 0) = int (length sg)" for a
    by (auto simp: sign_def sg_def sign_text_def output_one)
  have hex: "(if x \<noteq> 0 then do { a' \<leftarrow> output 48 a; output x a' } else Some a) = output_all xs output a"
    "(if x \<noteq> 0 then 2 else 0) = int (length xs)" for a
    by (auto simp: x_def xs_def unat_eq_zero output_two simp del: output_all.simps(2))
  show ?thesis
    unfolding format_integer_def sign_def [symmetric] x_def [symmetric] bf(1) Let_def bind.bind_lunit bf(2)
      sgn hex int_text_def sg_def [symmetric] xs_def [symmetric] bd_def [symmetric]
    by (simp only: output_dup_eq output_if output_all_append length_rev rev_rev_ident)
qed

lemma format_string_text:
  assumes "n \<le> int (length s)"
  shows "format_string s n c output aux = output_all (str_text s n c) output aux"
  using assms by (auto simp: format_string_def str_text_def output_dup_eq output_all_append Let_def)

lemma strnlen_le: "strnlen s n = Some k \<Longrightarrow> k \<le> length s"
  by (induction s n arbitrary: k rule: strnlen.induct) (auto split: if_splits)

lemma to_int_le: "to_int (int n) \<le> int n"
  unfolding to_int_def by (simp add: signed_take_bit_int_less_eq_self_iff)

lemma signed_arg_range:
  "signed_arg ty args = Some (v, r) \<Longrightarrow> - (2 ^ 63) \<le> v \<and> v < 2 ^ 63"
proof -
  have u32: "uint w < 2 ^ LENGTH(32)" for w :: u32 by (rule unsigned_less)
  have s8: "- (2 ^ 63) \<le> sint w \<and> sint w < 2 ^ 63" for w :: "8 word"
    using sint_greater_eq [of w] sint_less [of w] by simp
  have s16: "- (2 ^ 63) \<le> sint w \<and> sint w < 2 ^ 63" for w :: "16 word"
    using sint_greater_eq [of w] sint_less [of w] by simp
  have s32: "- (2 ^ 63) \<le> sint w \<and> sint w < 2 ^ 63 \<and> uint w < 2 ^ 32 \<and> 0 \<le> uint w" for w :: u32
    using sint_greater_eq [of w] sint_less [of w] u32 [of w] by simp
  have s64: "- (2 ^ 63) \<le> sint w \<and> sint w < 2 ^ 63" for w :: u64
    using sint_greater_eq [of w] sint_less [of w] by simp
  have sz: "- (2 ^ 63) \<le> uint w - 4294967296 \<and> uint w - 4294967296 < 2 ^ 63 \<and> - (2 ^ 63) \<le> uint w \<and> uint w < 2 ^ 63"
    for w :: u32 using u32 [of w] by (simp add: order_trans [OF _ uint_nonnegative])
  assume "signed_arg ty args = Some (v, r)"
  then show ?thesis
    using s8 s16 s32 s64 sz
    by (cases ty) (auto simp: signed_arg_def bind_Some_iff SIZE_MAX_def split: if_splits dest: spec)
qed

lemma unat_abs: "- (2 ^ 63) \<le> v \<Longrightarrow> v < 2 ^ 63 \<Longrightarrow> unat (word_of_int (if v < 0 then - v else v) :: u64) = nat \<bar>v\<bar>"
  by (auto simp: unsigned_of_int take_bit_int_eq_self nat_eq_iff unat_eq_nat_uint abs_if)

lemma unat_ucast_32_64: "unat (ucast (w :: u32) :: u64) = unat w"
proof -
  have "unat w < 2 ^ LENGTH(32)" by (rule unsigned_less)
  then show ?thesis by (simp add: unsigned_ucast_eq take_bit_nat_eq_self)
qed

lemma convert_text:
  assumes "\<And>k ch aux. unsupported k ch aux = do { s \<leftarrow> ut k ch; output_all s output aux }"
  shows "convert unsupported output ch c args aux
     = do { (s, r) \<leftarrow> conv_text ut ch c args; aux' \<leftarrow> output_all s output aux; Some (aux', r) }"
proof -
  consider "ch = 100 \<or> ch = 105" | "ch = 111 \<or> ch = 117 \<or> ch = 120 \<or> ch = 88" | "ch = 99" | "ch = 115" | "ch = 112"
    | "ch \<notin> {100, 105, 111, 117, 120, 88, 99, 115, 112}" by blast
  then show ?thesis
  proof cases
    case 1
    show ?thesis
    proof (cases "signed_arg (conv c) args")
      case (Some vr)
      obtain v r where "vr = (v, r)" by (cases vr)
      with Some 1 show ?thesis
        using unat_abs [of v] signed_arg_range [of "conv c" args v r]
        by (auto simp: convert_def conv_text_def format_integer_text)
    qed (use 1 in \<open>auto simp: convert_def conv_text_def\<close>)
  next
    case 2
    then show ?thesis
      by (cases "unsigned_arg (conv c) args") (auto simp: convert_def conv_text_def format_integer_text Let_def)
  next
    case 3
    then show ?thesis
      by (cases "va32 args") (auto simp: convert_def conv_text_def format_string_text)
  next
    case 4
    have "format_string str (to_int (int n)) c output aux = output_all (str_text str (to_int (int n)) c) output aux"
      if "strnlen str k = Some n" for str n k
      using strnlen_le [OF that] to_int_le [of n] by (intro format_string_text) linarith
    then show ?thesis
      by (cases "vastr args") (auto simp: convert_def conv_text_def 4 Let_def Option.bind_assoc intro!: Option.bind_cong)
  next
    case 5
    then show ?thesis
      by (cases "va32 args") (auto simp: convert_def conv_text_def format_integer_text unat_ucast_32_64)
  next
    case 6
    then show ?thesis by (simp add: convert_def conv_text_def assms)
  qed
qed

lemma bind_swap:
  fixes m :: "'b option" and t :: "'c option" and f :: "'b \<Rightarrow> 'd option"
  assumes "\<And>a. f a = do { s \<leftarrow> t; g s a }"
  shows "do { a \<leftarrow> m; f a } = do { s \<leftarrow> t; a \<leftarrow> m; g s a }"
  using assms by (cases m; cases t) simp_all

lemma vprintf_loop_chars:
  "vprintf_loop u output [] args aux = None"
  "vprintf_loop u output (0 # fmt) args aux = Some aux"
  "ch \<noteq> 0 \<Longrightarrow> ch \<noteq> 37 \<Longrightarrow>
     vprintf_loop u output (ch # fmt) args aux = do { a \<leftarrow> output ch aux; vprintf_loop u output fmt args a }"
  "vprintf_loop u output [37] args aux = None"
  "vprintf_loop u output (37 # 37 # fmt) args aux = do { a \<leftarrow> output 37 aux; vprintf_loop u output fmt args a }"
  by (subst vprintf_loop.simps, simp)+

lemma text_of_chars:
  "text_of ut [] args = None"
  "text_of ut (0 # fmt) args = Some []"
  "ch \<noteq> 0 \<Longrightarrow> ch \<noteq> 37 \<Longrightarrow> text_of ut (ch # fmt) args = do { s \<leftarrow> text_of ut fmt args; Some (ch # s) }"
  "text_of ut [37] args = None"
  "text_of ut (37 # 37 # fmt) args = do { s \<leftarrow> text_of ut fmt args; Some (37 # s) }"
  by (subst text_of.simps, simp)+

lemma loop_conversion:
  assumes "ch \<noteq> 37" and "parse_conversion (ch # fmt) args = Some (c, ch2 # fmt4, args1)"
  shows "vprintf_loop u output (37 # ch # fmt) args aux
      = do { (a, args2) \<leftarrow> convert u output ch2 c args1 aux; vprintf_loop u output fmt4 args2 a }" (is ?v)
    and "text_of ut (37 # ch # fmt) args
      = do { (s, args2) \<leftarrow> conv_text ut ch2 c args1; t \<leftarrow> text_of ut fmt4 args2; Some (s @ t) }" (is ?t)
proof -
  show ?v using assms by (subst vprintf_loop.simps) simp
  show ?t using assms by (subst text_of.simps) simp
qed

lemma loop_no_conversion:
  assumes "ch \<noteq> 37" and "\<nexists>c ch2 fmt4 args1. parse_conversion (ch # fmt) args = Some (c, ch2 # fmt4, args1)"
  shows "vprintf_loop u output (37 # ch # fmt) args aux = None" (is ?v) and "text_of ut (37 # ch # fmt) args = None" (is ?t)
proof -
  have "parse_conversion (ch # fmt) args = None \<or> (\<exists>c args1. parse_conversion (ch # fmt) args = Some (c, [], args1))"
    using assms(2) by (metis list.exhaust not_Some_eq surj_pair)
  then show ?v ?t
    unfolding vprintf_loop.simps [where fmt = "37 # ch # fmt"] text_of.simps [where fmt = "37 # ch # fmt"]
    using assms(1) by auto
qed

lemma vprintf_loop_text:
  assumes ut: "\<And>k ch aux. unsupported k ch aux = do { s \<leftarrow> ut k ch; output_all s output aux }"
  shows "vprintf_loop unsupported output fmt args aux = do { s \<leftarrow> text_of ut fmt args; output_all s output aux }"
proof (induction "length fmt" arbitrary: fmt args aux rule: less_induct)
  case less
  have lit: "do { a \<leftarrow> output ch aux; vprintf_loop unsupported output fmt' args a }
      = do { s \<leftarrow> text_of ut fmt' args; output_all (ch # s) output aux }" if "length fmt' < length fmt" for ch fmt'
    unfolding output_all.simps by (rule bind_swap) (simp add: less that)
  consider "fmt = []" | r where "fmt = 0 # r" | ch r where "fmt = ch # r" "ch \<noteq> 0" "ch \<noteq> 37" | "fmt = [37]"
    | r where "fmt = 37 # 37 # r" | ch r where "fmt = 37 # ch # r" "ch \<noteq> 37"
    by (metis list.exhaust)
  then show ?case
  proof cases
    case (6 ch r)
    show ?thesis
    proof (cases "\<exists>c ch2 fmt4 args1. parse_conversion (ch # r) args = Some (c, ch2 # fmt4, args1)")
      case True
      then obtain c ch2 fmt4 args1 where p: "parse_conversion (ch # r) args = Some (c, ch2 # fmt4, args1)" by blast
      then have "length fmt4 < length fmt" using 6 by (auto dest: parse_conversion_length)
      note IH = less [OF this]
      have "do { a \<leftarrow> output_all s output aux; t \<leftarrow> text_of ut fmt4 args2; output_all t output a }
          = do { t \<leftarrow> text_of ut fmt4 args2; output_all (s @ t) output aux }" for s args2
        unfolding output_all_append by (rule bind_swap) simp
      then show ?thesis
        unfolding 6(1) loop_conversion [OF 6(2) p] convert_text [OF ut]
        by (cases "conv_text ut ch2 c args1") (auto simp: IH Option.bind_assoc)
    qed (simp add: 6 loop_no_conversion)
  qed (simp_all add: vprintf_loop_chars text_of_chars lit Option.bind_assoc)
qed

section \<open>Plain conversions\<close>

definition plain :: "byte \<Rightarrow> bool" where
  "plain ch \<longleftrightarrow> ch \<notin> {45, 43, 32, 35, 48, 39, 42, 46, 104, 106, 108, 116, 122} \<and> \<not> isdigit (sint ch)"

abbreviation plain_conversion :: printf_conversion where
  "plain_conversion \<equiv> \<lparr> flags = 0, width = 0, precision = - 1, conv = INT_T \<rparr>"

lemma parse_plain:
  "plain ch \<Longrightarrow> parse_conversion (ch # fmt) args = Some (plain_conversion, ch # fmt, args)"
  by (simp add: plain_def parse_conversion_def parse_width_def parse_precision_def parse_type_def flag_def Let_def)

lemma plain_chars: "plain 99" "plain 100"
  by (simp_all add: plain_def isdigit_def)

lemma text_of_char:
  "text_of ut (37 # 99 # fmt) (A32 (scast ch) # args) = do { t \<leftarrow> text_of ut fmt args; Some (ch # t) }"
proof -
  have "ucast (scast ch :: u32) = ch" by (rule bit_word_eqI) (auto simp: bit_simps)
  then show ?thesis
    using loop_conversion(2) [OF _ parse_plain [OF plain_chars(1)], of ut fmt "A32 (scast ch) # args"]
    by (simp add: conv_text_def str_text_def flag_def Let_def)
qed

lemma print_unsupported_text:
  "print_unsupported output k ch aux = do { s \<leftarrow> unsupported_text k ch; output_all s output aux }"
proof -
  have "text_of (\<lambda>_ _. None) (if k then no_in_kernel else no_conversion) [A32 (scast ch)] = unsupported_text k ch"
    by (simp add: no_in_kernel_def no_conversion_def unsupported_text_def text_of_chars text_of_char)
  then show ?thesis
    unfolding print_unsupported_def by (subst vprintf_loop_text [of _ "\<lambda>_ _. None"]) simp_all
qed

text \<open>The text of a format with its arguments; \<open>None\<close> when the arguments do not match or the format
  is not terminated.\<close>

definition printf_text :: "byte list \<Rightarrow> va_list \<Rightarrow> byte list option" where
  "printf_text fmt args = text_of unsupported_text fmt args"

lemma vprintf_text: "vprintf output fmt args aux = do { s \<leftarrow> printf_text fmt args; output_all s output aux }"
  unfolding vprintf_def printf_text_def by (rule vprintf_loop_text) (rule print_unsupported_text)

section \<open>The buffer\<close>

lemma to_int_id: "0 \<le> v \<Longrightarrow> v < 2 ^ 31 \<Longrightarrow> to_int v = v"
  by (simp add: to_int_def signed_take_bit_int_eq_self)

lemma helper_all:
  assumes "l + length s < 2 ^ 31" and "m < length B"
  shows "output_all s vsnprintf_helper \<lparr> buf = B, pos = min l m, len = int l, max_length = int m \<rparr>
     = Some \<lparr> buf = overwrite (min l m) (take (m - min l m) s) B, pos = min (l + length s) m,
         len = int (l + length s), max_length = int m \<rparr>"
  using assms
proof (induction s arbitrary: l B)
  case Nil
  then show ?case by simp
next
  case (Cons ch s)
  have w: "to_int (int l + 1) = int (Suc l)" using Cons.prems(1) by (simp add: to_int_id)
  show ?case
  proof (cases "l < m")
    case True
    then have "vsnprintf_helper ch \<lparr> buf = B, pos = min l m, len = int l, max_length = int m \<rparr>
        = Some \<lparr> buf = B[l := ch], pos = min (Suc l) m, len = int (Suc l), max_length = int m \<rparr>"
      using Cons.prems(2) by (simp add: vsnprintf_helper_def w)
    moreover from True have "m - l = Suc (m - Suc l)" by simp
    ultimately show ?thesis
      using Cons.IH [of "Suc l" "B[l := ch]"] Cons.prems True by (simp add: overwrite_Cons)
  next
    case False
    then have m: "min l m = m" "min (Suc l) m = m" "min (l + length (ch # s)) m = m" by auto
    from False have "vsnprintf_helper ch \<lparr> buf = B, pos = m, len = int l, max_length = int m \<rparr>
        = Some \<lparr> buf = B, pos = m, len = int (Suc l), max_length = int m \<rparr>"
      by (simp add: vsnprintf_helper_def w)
    with Cons.IH [of "Suc l" B] Cons.prems m show ?thesis by simp
  qed
qed

lemma helper_none:
  "l + length s < 2 ^ 31 \<Longrightarrow> output_all s vsnprintf_helper \<lparr> buf = B, pos = 0, len = int l, max_length = 0 \<rparr>
     = Some \<lparr> buf = B, pos = 0, len = int (l + length s), max_length = 0 \<rparr>"
proof (induction s arbitrary: l)
  case (Cons ch s)
  have "to_int (int l + 1) = int (Suc l)" using Cons.prems by (simp add: to_int_id)
  with Cons.IH [of "Suc l"] Cons.prems show ?case by (simp add: vsnprintf_helper_def Let_def)
qed simp

section \<open>Decimal numerals\<close>

lemma digits_base_d: "k < 10 \<Longrightarrow> digits base_d ! k = of_nat (48 + k)"
proof -
  assume "k < 10"
  then have "k \<in> {0, 1, 2, 3, 4, 5, 6, 7, 8, 9}" by auto
  then show ?thesis by (auto simp: base_d_def)
qed

lemma ref_digits_numeral: "n > 0 \<Longrightarrow> rev (ref_digits base_d 0 n cnt) = numeral_of n"
proof (induction n arbitrary: cnt rule: less_induct)
  case (less n)
  have b: "unat (base base_d) = 10" by (simp add: base_d_def)
  have ref: "ref_digits base_d 0 n cnt = of_nat (48 + n mod 10) # ref_digits base_d 0 (n div 10) (Suc cnt)"
    using less.prems by (subst ref_digits.simps) (simp add: b flag_def digits_base_d del: of_nat_add)
  show ?case
  proof (cases "n < 10")
    case True
    then show ?thesis unfolding ref by (subst numeral_of.simps) (simp add: ref_digits.simps del: of_nat_add)
  next
    case False
    then show ?thesis
      unfolding ref using less.IH [of "n div 10" "Suc cnt"] by (subst numeral_of.simps) (simp del: of_nat_add)
  qed
qed

lemma length_numeral: "n < 10 ^ Suc k \<Longrightarrow> length (numeral_of n) \<le> Suc k"
proof (induction k arbitrary: n)
  case 0
  then show ?case by (subst numeral_of.simps) simp
next
  case (Suc k)
  then have "n div 10 < 10 ^ Suc k" by (simp add: less_mult_imp_div_less mult.commute)
  with Suc.IH show ?case by (subst numeral_of.simps) simp
qed

lemma body_numeral: "body_text n base_d plain_conversion = numeral_of n"
proof (cases "n = 0")
  case True
  then show ?thesis
    by (simp add: body_text_def ref_digits.simps flag_def numeral_of.simps)
next
  case False
  then have r: "rev (ref_digits base_d 0 n 0) = numeral_of n" by (simp add: ref_digits_numeral)
  obtain d t where "numeral_of n = of_nat (48 + d) # t" using numeral_hd by blast
  with r have "length (ref_digits base_d 0 n 0) \<noteq> 0" by (metis length_rev list.distinct(1) length_0_conv)
  then have z: "Suc 0 - length (ref_digits base_d 0 n 0) = 0" by (simp add: Suc_le_eq)
  show ?thesis using r by (simp add: body_text_def flag_def z)
qed

lemma text_decimal:
  "printf_text [37, 100, 0] [A32 v]
     = Some ((if sint v < 0 then [45] else []) @ numeral_of (nat \<bar>sint v\<bar>))"
  using loop_conversion(2) [OF _ parse_plain [OF plain_chars(2)], of unsupported_text "[0]" "[A32 v]"]
  by (simp add: printf_text_def text_of_chars conv_text_def signed_arg_def int_text_def body_numeral sign_text_def flag_def Let_def)

lemma overwrite_end:
  "d + length ys < length xs \<Longrightarrow> (overwrite d ys xs)[d + length ys := v] = overwrite d (ys @ [v]) xs"
  by (rule nth_equalityI) (auto simp: nth_overwrite nth_append nth_list_update)

lemma vsnprintf_spec:
  assumes "printf_text fmt args = Some s" and "length s < 2 ^ 31" and "buf_size \<le> length buffer" and "buf_size \<le> 2 ^ 31"
  shows "vsnprintf buffer buf_size fmt args
     = Some (int (length s), if buf_size = 0 then buffer else overwrite 0 (take (buf_size - 1) s @ [0]) buffer)"
proof (cases "buf_size = 0")
  case True
  with assms(1,2) helper_none [of 0 s buffer] show ?thesis by (simp add: vsnprintf_def vprintf_text min_less_iff_disj)
next
  case False
  define m where "m = buf_size - 1"
  have m: "m < length buffer" "to_int (int m) = int m" "buf_size = Suc m" using assms(3,4) False by (auto simp: m_def to_int_id)
  have "(overwrite 0 (take m s) buffer)[min (length s) m := 0] = overwrite 0 (take m s @ [0]) buffer"
    using m(1) overwrite_end [of 0 "take m s" buffer 0] by (simp add: min.commute)
  then show ?thesis
    using assms(1,2) m helper_all [of 0 s m buffer] by (simp add: vsnprintf_def vprintf_text min_less_iff_disj)
qed

section \<open>Properties\<close>

text \<open>C21. \<open>format_integer\<close> never overruns its buffer of 64 characters, for any value of 64 bits, base,
  flags, width and precision, and passes to the callback exactly the padded, signed, grouped numeral of
  the value.\<close>

theorem format_integer_exact:
  assumes "b \<in> {base_d, base_o, base_x, base_X}"
  shows "format_integer v is_signed negative b c output aux
     = output_all (int_text (unat v) is_signed negative b c) output aux"
  using assms by (intro format_integer_text) auto

theorem format_integer_exact_witness:
  "format_integer 255 False False base_x plain_conversion (\<lambda>ch s. Some (s @ [ch])) [] = Some [102, 102]"
  using format_integer_exact [of base_x 255 False False plain_conversion "\<lambda>ch s. Some (s @ [ch])" "[]"]
  by (simp add: int_text_def body_text_def sign_text_def flag_def base_x_def ref_digits.simps)

text \<open>C20. \<open>vsnprintf\<close> writes at most \<open>buf_size - 1\<close> characters of the formatted text followed by a null
  character, nothing outside the buffer, nothing at all when \<open>buf_size\<close> is zero, and returns the length
  of the whole text.\<close>

theorem vsnprintf_correct:
  assumes "printf_text fmt args = Some s" and "length s < 2 ^ 31" and "buf_size \<le> length buffer" and "buf_size \<le> 2 ^ 31"
  shows "vsnprintf buffer buf_size fmt args
     = Some (int (length s), if buf_size = 0 then buffer else overwrite 0 (take (buf_size - 1) s @ [0]) buffer)"
  using assms by (rule vsnprintf_spec)

theorem vsnprintf_correct_witness:
  "vsnprintf [9, 9, 9, 9] 3 [97, 37, 99, 98, 0] [A32 99] = Some (3, [97, 99, 0, 9])"
proof -
  have "printf_text [97, 37, 99, 98, 0] [A32 (scast (99 :: byte))] = Some [97, 99, 98]"
    unfolding printf_text_def using text_of_char [of unsupported_text "[98, 0]" 99 "[]"] by (simp add: text_of_chars)
  then have "printf_text [97, 37, 99, 98, 0] [A32 99] = Some [97, 99, 98]" by simp
  from vsnprintf_correct [OF this, of 3 "[9, 9, 9, 9]"] show ?thesis by (simp add: overwrite_def)
qed

text \<open>C19. Printing and reading an integer: what \<open>snprintf\<close> with \<open>%d\<close> leaves in a buffer of twelve
  characters or more, \<open>atoi\<close> converts back to the same 32-bit integer.\<close>

theorem snprintf_atoi:
  assumes "12 \<le> buf_size" and "buf_size \<le> length buffer" and "buf_size \<le> 2 ^ 31"
  shows "\<exists>k b. snprintf buffer buf_size [37, 100, 0] [A32 v] = Some (k, b) \<and> atoi b = Some v"
proof -
  define n where "n = nat \<bar>sint v\<bar>"
  define s where "s = (if sint v < 0 then [45] else []) @ numeral_of n"
  have "\<bar>sint v\<bar> \<le> 2 ^ 31" using sint_greater_eq [of v] sint_less [of v] by simp
  then have "n < 10 ^ Suc 9" by (simp add: n_def)
  then have len: "length s \<le> 11" using length_numeral [of n 9] by (simp add: s_def)
  have t: "printf_text [37, 100, 0] [A32 v] = Some s" by (simp add: text_decimal s_def n_def)
  have "snprintf buffer buf_size [37, 100, 0] [A32 v] = Some (int (length s), s @ 0 # drop (length s + 1) buffer)"
    using vsnprintf_spec [OF t _ assms(2,3)] len assms(1) by (simp add: snprintf_def overwrite_def)
  moreover have "atoi (s @ 0 # r) = Some v" for r
  proof (cases "sint v < 0")
    case True
    then have "- of_nat n = v" by (simp add: n_def of_nat_nat)
    with True show ?thesis using atoi_reads [of "[]" 0 n r] by (simp add: s_def isdigit_def)
  next
    case False
    then have "of_nat n = v" by (simp add: n_def of_nat_nat)
    with False show ?thesis using atoi_reads [of "[]" 0 n r] by (simp add: s_def isdigit_def)
  qed
  ultimately show ?thesis by blast
qed

theorem snprintf_atoi_witness:
  "\<exists>k b. snprintf (replicate 16 0) 16 [37, 100, 0] [A32 (- 2147483648)] = Some (k, b) \<and> atoi b = Some (- 2147483648)"
  using snprintf_atoi [of 16 "replicate 16 0" "- 2147483648"] by simp

end
