(* ===== verification/Palloc.thy ===== *)
theory Palloc
  imports Bitmap Vaddr
begin

text \<open>
  The page allocator, \<^verbatim>\<open>threads/palloc.c\<close>: two pools of pages, each with a bitmap of the pages in
  use. Memory is the contents of every page, by the kernel virtual address of the page. An address
  is a 32-bit word, 0 the null pointer. The mutual exclusion of the pool lock is that of \<open>Synch\<close>: an
  operation runs from its \<open>lock_acquire\<close> to its \<open>lock_release\<close> without another one in between.

  The lemmas show that the allocator hands out pages that nobody else uses, and takes back exactly
  the pages it is given.
\<close>

section \<open>State\<close>

record pool =
  used_map :: bitmap
  pool_base :: u32

record pmem =
  kernel_pool :: pool
  user_pool :: pool
  pages :: "u32 \<Rightarrow> byte list"

definition PAL_ASSERT :: u32 where "PAL_ASSERT = 1"
definition PAL_ZERO :: u32 where "PAL_ZERO = 2"
definition PAL_USER :: u32 where "PAL_USER = 4"

section \<open>Operations\<close>

text \<open>\<open>memset\<close> on whole pages.\<close>

primrec fill_pages :: "(u32 \<Rightarrow> byte list) \<Rightarrow> u32 \<Rightarrow> nat \<Rightarrow> byte \<Rightarrow> u32 \<Rightarrow> byte list" where
  "fill_pages m a 0 v = m"
| "fill_pages m a (Suc n) v = (fill_pages m a n v)(a + 4096 * of_nat n := replicate PGSIZE v)"

definition init_pool :: "u32 list \<Rightarrow> u32 \<Rightarrow> nat \<Rightarrow> pool option" where
  "init_pool block base page_cnt = do {
     let bm_pages = DIV_ROUND_UP (bitmap_buf_size page_cnt) PGSIZE;
     kassert (bm_pages \<le> page_cnt);
     map \<leftarrow> bitmap_create_in_buf (page_cnt - bm_pages) block (usz (bm_pages * PGSIZE));
     Some \<lparr> used_map = map, pool_base = base + of_nat bm_pages * 4096 \<rparr> }"

text \<open>\<open>kernel_end\<close> is the address of the linker's symbol \<open>_end\<close>; \<open>kblock\<close> and \<open>ublock\<close> are the memory
  where the bitmaps of the pools are put.\<close>

definition palloc_init :: "u32 \<Rightarrow> u32 \<Rightarrow> nat \<Rightarrow> u32 list \<Rightarrow> u32 list \<Rightarrow> (pool \<times> pool) option" where
  "palloc_init kernel_end ram_pages user_page_limit kblock ublock = do {
     let free_start = pg_round_up kernel_end;
     free_end \<leftarrow> ptov (ram_pages * 4096);
     let free_pages = unat (free_end - free_start) div PGSIZE;
     let user_pages = min (free_pages div 2) user_page_limit;
     let kernel_pages = free_pages - user_pages;
     kpool \<leftarrow> init_pool kblock free_start kernel_pages;
     upool \<leftarrow> init_pool ublock (free_start + of_nat kernel_pages * 4096) user_pages;
     Some (kpool, upool) }"

definition get_pool :: "bool \<Rightarrow> pmem \<Rightarrow> pool" where
  "get_pool user s = (if user then user_pool s else kernel_pool s)"

definition set_map :: "bool \<Rightarrow> bitmap \<Rightarrow> pmem \<Rightarrow> pmem" where
  "set_map user b s = (if user then s\<lparr>user_pool := (user_pool s)\<lparr>used_map := b\<rparr>\<rparr>
     else s\<lparr>kernel_pool := (kernel_pool s)\<lparr>used_map := b\<rparr>\<rparr>)"

definition palloc_get_multiple :: "u32 \<Rightarrow> nat \<Rightarrow> pmem \<Rightarrow> (u32 \<times> pmem) option" where
  "palloc_get_multiple flags page_cnt s =
     (let user = (flags AND PAL_USER \<noteq> 0) in
      if page_cnt = 0 then Some (0, s)
      else do {
        (page_idx, b) \<leftarrow> bitmap_scan_and_flip (used_map (get_pool user s)) 0 page_cnt False;
        let s1 = set_map user b s;
        let pgs = (if page_idx \<noteq> BITMAP_ERROR then pool_base (get_pool user s) + 4096 * of_nat page_idx else 0);
        if pgs \<noteq> 0 then
          Some (pgs, if flags AND PAL_ZERO \<noteq> 0 then s1\<lparr>pages := fill_pages (pages s1) pgs page_cnt 0\<rparr> else s1)
        else do { kassert (flags AND PAL_ASSERT = 0); Some (pgs, s1) } })"

definition palloc_get_page :: "u32 \<Rightarrow> pmem \<Rightarrow> (u32 \<times> pmem) option" where
  "palloc_get_page flags s = palloc_get_multiple flags 1 s"

definition page_from_pool :: "pool \<Rightarrow> u32 \<Rightarrow> bool" where
  "page_from_pool pool page =
     (let page_no = pg_no page; start_page = pg_no (pool_base pool);
          end_page = start_page + of_nat (bitmap_size (used_map pool))
      in page_no \<ge> start_page \<and> page_no < end_page)"

definition palloc_free_multiple :: "u32 \<Rightarrow> nat \<Rightarrow> pmem \<Rightarrow> pmem option" where
  "palloc_free_multiple pgs page_cnt s = do {
     kassert (pg_ofs pgs = 0);
     if pgs = 0 \<or> page_cnt = 0 then Some s
     else do {
       user \<leftarrow> (if page_from_pool (kernel_pool s) pgs then Some False
                else if page_from_pool (user_pool s) pgs then Some True else None);
       let page_idx = unat (pg_no pgs - pg_no (pool_base (get_pool user s)));
       let s1 = s\<lparr>pages := fill_pages (pages s) pgs page_cnt 0xcc\<rparr>;
       all_used \<leftarrow> bitmap_all (used_map (get_pool user s1)) page_idx page_cnt;
       kassert all_used;
       b \<leftarrow> bitmap_set_multiple (used_map (get_pool user s1)) page_idx page_cnt False;
       Some (set_map user b s1) } }"

definition palloc_free_page :: "u32 \<Rightarrow> pmem \<Rightarrow> pmem option" where
  "palloc_free_page page s = palloc_free_multiple page 1 s"

section \<open>Pages of a pool\<close>

definition page_at :: "u32 \<Rightarrow> nat \<Rightarrow> u32" where
  "page_at a i = a + 4096 * of_nat i"

definition run_pages :: "u32 \<Rightarrow> nat \<Rightarrow> u32 set" where
  "run_pages a n = page_at a ` {..<n}"

definition pool_wf :: "pool \<Rightarrow> bool" where
  "pool_wf p \<longleftrightarrow> bitmap_wf (used_map p) \<and> kpage_ok (pool_base p)
     \<and> unat (pool_base p) + 4096 * bit_cnt (used_map p) \<le> 4294967296"

definition pool_pages :: "pool \<Rightarrow> u32 set" where
  "pool_pages p = page_at (pool_base p) ` {..<bit_cnt (used_map p)}"

definition used_pages :: "pool \<Rightarrow> u32 set" where
  "used_pages p = page_at (pool_base p) ` {i. i < bit_cnt (used_map p) \<and> bit_at (used_map p) i}"

definition used :: "pmem \<Rightarrow> u32 set" where
  "used s = used_pages (kernel_pool s) \<union> used_pages (user_pool s)"

definition pmem_wf :: "pmem \<Rightarrow> bool" where
  "pmem_wf s \<longleftrightarrow> pool_wf (kernel_pool s) \<and> pool_wf (user_pool s)
     \<and> pool_pages (kernel_pool s) \<inter> pool_pages (user_pool s) = {} \<and> (\<forall>a. length (pages s a) = PGSIZE)"

lemma unat_page_at:
  assumes "unat a + 4096 * n \<le> 4294967296" and "i < n"
  shows "unat (page_at a i) = unat a + 4096 * i"
proof -
  have "unat (of_nat (4096 * i) :: u32) = 4096 * i"
    using assms by (simp add: unsigned_of_nat take_bit_nat_eq_self del: of_nat_mult)
  moreover have "page_at a i = a + of_nat (4096 * i)" by (simp add: page_at_def)
  ultimately show ?thesis using assms by (simp add: unat_word_ariths mod_less)
qed

lemma pool_page:
  assumes "pool_wf p" and "i < bit_cnt (used_map p)"
  shows "unat (page_at (pool_base p) i) = unat (pool_base p) + 4096 * i" "kpage_ok (page_at (pool_base p) i)"
    "pg_no (page_at (pool_base p) i) - pg_no (pool_base p) = of_nat i"
proof -
  show u: "unat (page_at (pool_base p) i) = unat (pool_base p) + 4096 * i"
    using assms unat_page_at by (auto simp: pool_wf_def)
  have b: "pg_ofs (pool_base p) = 0" "is_kernel_vaddr (pool_base p)" using assms(1) by (auto simp: pool_wf_def kpage_ok_def)
  have "unat (pool_base p) mod 4096 = 0" using b(1) unat_pg_ofs [of "pool_base p"] by simp
  then have "pg_ofs (page_at (pool_base p) i) = 0" by (simp add: word_unat_eq_iff unat_pg_ofs u)
  moreover have "is_kernel_vaddr (page_at (pool_base p) i)"
    using b(2) by (simp add: is_kernel_vaddr_def word_le_nat_alt u)
  ultimately show "kpage_ok (page_at (pool_base p) i)" by (simp add: kpage_ok_def)
  have "pg_no (page_at (pool_base p) i) = pg_no (pool_base p) + of_nat i"
  proof -
    have "unat (pg_no (pool_base p)) + i < 4294967296"
      using u unat_u32 [of "page_at (pool_base p) i"] by (simp add: unat_pg_no)
    then have "unat (pg_no (pool_base p) + of_nat i) = unat (pg_no (pool_base p)) + i"
      by (simp add: unat_word_ariths unsigned_of_nat take_bit_nat_eq_self)
    then show ?thesis
      by (simp add: word_unat_eq_iff unat_pg_no u)
  qed
  then show "pg_no (page_at (pool_base p) i) - pg_no (pool_base p) = of_nat i" by simp
qed

lemma page_at_inj:
  assumes "pool_wf p" and "i < bit_cnt (used_map p)" and "j < bit_cnt (used_map p)"
  shows "page_at (pool_base p) i = page_at (pool_base p) j \<longleftrightarrow> i = j"
  using pool_page(1) [OF assms(1,2)] pool_page(1) [OF assms(1,3)] by (auto simp: word_unat_eq_iff)

lemma run_in_pool:
  "run_pages (page_at a r) n = page_at a ` {r..<r + n}"
proof -
  have "page_at (page_at a r) i = page_at a (r + i)" for i by (simp add: page_at_def algebra_simps)
  then have "run_pages (page_at a r) n = page_at a ` ((\<lambda>i. r + i) ` {..<n})" by (simp add: run_pages_def image_image)
  also have "(\<lambda>i. r + i) ` {..<n} = {r..<r + n}" by (simp add: lessThan_atLeast0 add.commute)
  finally show ?thesis .
qed

lemma fill_pages_eq: "fill_pages m a n v x = (if x \<in> run_pages a n then replicate PGSIZE v else m x)"
  by (induction n) (auto simp: run_pages_def page_at_def lessThan_Suc)

lemma page_from_pool_iff:
  assumes "pool_wf p" and "pg_ofs a = 0"
  shows "page_from_pool p a \<longleftrightarrow> a \<in> pool_pages p"
proof -
  let ?b = "unat (pool_base p)" and ?n = "bit_cnt (used_map p)"
  have wf: "?b + 4096 * ?n \<le> 4294967296" "?b mod 4096 = 0"
    using assms(1) unat_pg_ofs [of "pool_base p"] by (auto simp: pool_wf_def kpage_ok_def)
  have am: "unat a mod 4096 = 0" using assms(2) unat_pg_ofs [of a] by simp
  have "?b div 4096 + ?n < 4294967296" using wf by linarith
  then have e: "unat (pg_no (pool_base p) + of_nat ?n) = ?b div 4096 + ?n"
    by (simp add: unat_word_ariths unsigned_of_nat unat_pg_no take_bit_nat_eq_self)
  have "page_from_pool p a \<longleftrightarrow> ?b div 4096 \<le> unat a div 4096 \<and> unat a div 4096 < ?b div 4096 + ?n"
    by (simp add: page_from_pool_def bitmap_size_def word_le_nat_alt word_less_nat_alt e unat_pg_no)
  also have "\<dots> \<longleftrightarrow> (\<exists>i < ?n. unat a = ?b + 4096 * i)"
  proof
    assume "?b div 4096 \<le> unat a div 4096 \<and> unat a div 4096 < ?b div 4096 + ?n"
    moreover have "unat a = unat a div 4096 * 4096" "?b = ?b div 4096 * 4096" using am wf by auto
    ultimately show "\<exists>i < ?n. unat a = ?b + 4096 * i" by (intro exI [of _ "unat a div 4096 - ?b div 4096"]) linarith
  qed (use wf in auto)
  also have "\<dots> \<longleftrightarrow> a \<in> pool_pages p"
    using pool_page(1) [OF assms(1)] by (auto simp: pool_pages_def image_iff word_unat_eq_iff)
  finally show ?thesis .
qed

section \<open>Allocation\<close>

lemma get_pool_set_map [simp]:
  "get_pool u (set_map u b s) = (get_pool u s)\<lparr>used_map := b\<rparr>"
  "u \<noteq> v \<Longrightarrow> get_pool v (set_map u b s) = get_pool v s"
  "pages (set_map u b s) = pages s"
  "pool_base (get_pool v (set_map u b s)) = pool_base (get_pool v s)"
  by (auto simp: get_pool_def set_map_def)

lemma get_pool_pages [simp]: "get_pool u (s\<lparr>pages := m\<rparr>) = get_pool u s"
  by (simp add: get_pool_def)

lemma pmem_wf_alt:
  "pmem_wf s \<longleftrightarrow> (\<forall>u. pool_wf (get_pool u s)) \<and> pool_pages (get_pool False s) \<inter> pool_pages (get_pool True s) = {}
     \<and> (\<forall>a. length (pages s a) = PGSIZE)"
  by (simp add: pmem_wf_def get_pool_def all_bool_eq) blast

lemma used_alt: "used s = (\<Union>u. used_pages (get_pool u s))"
  by (simp add: used_def get_pool_def UNIV_bool Un_commute)

lemma used_in_pool: "used_pages p \<subseteq> pool_pages p"
  by (auto simp: used_pages_def pool_pages_def)

lemma pmem_wf_update:
  assumes "pmem_wf s" and "bitmap_wf b" and "bit_cnt b = bit_cnt (used_map (get_pool u s))"
    and "\<forall>a. length (m a) = PGSIZE"
  shows "pmem_wf ((set_map u b s)\<lparr>pages := m\<rparr>)"
proof -
  have "pool_wf (get_pool v (set_map u b s))" "pool_pages (get_pool v (set_map u b s)) = pool_pages (get_pool v s)" for v
    using assms(1-3) by (cases "u = v"; simp add: pmem_wf_alt pool_wf_def pool_pages_def)+
  with assms(1,4) show ?thesis by (simp add: pmem_wf_alt)
qed

lemma used_set_map:
  "used ((set_map u b s)\<lparr>pages := m\<rparr>) = used_pages ((get_pool u s)\<lparr>used_map := b\<rparr>) \<union> used_pages (get_pool (\<not> u) s)"
  by (cases u) (auto simp: used_alt UNIV_bool)

lemma used_pages_mark:
  assumes "bit_cnt b = bit_cnt (used_map p)" and "r + n \<le> bit_cnt (used_map p)"
    and "\<forall>j. bit_at b j = (if r \<le> j \<and> j < r + n then True else bit_at (used_map p) j)"
  shows "used_pages (p\<lparr>used_map := b\<rparr>) = used_pages p \<union> run_pages (page_at (pool_base p) r) n"
  using assms by (auto simp: used_pages_def run_in_pool image_iff)

lemma used_pages_clear:
  assumes "pool_wf p" and "bit_cnt b = bit_cnt (used_map p)" and "r + n \<le> bit_cnt (used_map p)"
    and "\<forall>j. bit_at b j = (if r \<le> j \<and> j < r + n then False else bit_at (used_map p) j)"
  shows "used_pages (p\<lparr>used_map := b\<rparr>) = used_pages p - run_pages (page_at (pool_base p) r) n"
  using assms(2-4) page_at_inj [OF assms(1)] by (auto simp: used_pages_def run_in_pool image_iff)

lemma run_free:
  assumes "pool_wf p" and "r + n \<le> bit_cnt (used_map p)" and "bit_run (used_map p) r n False"
  shows "run_pages (page_at (pool_base p) r) n \<inter> used_pages p = {}"
    "run_pages (page_at (pool_base p) r) n \<subseteq> pool_pages p"
  using assms(2,3) page_at_inj [OF assms(1)]
  by (auto simp: used_pages_def pool_pages_def run_in_pool bit_run_def)

text \<open>The result of a request: a null pointer when no run of pages is free, else the address of a run
  of pages that were free and are now in use.\<close>

definition fresh_run :: "bool \<Rightarrow> pmem \<Rightarrow> u32 \<Rightarrow> nat \<Rightarrow> bool" where
  "fresh_run user s a n \<longleftrightarrow> a \<noteq> 0 \<and> kpage_ok a \<and> run_pages a n \<inter> used s = {} \<and> run_pages a n \<subseteq> pool_pages (get_pool user s)"

lemma palloc_get_spec:
  assumes "pmem_wf s" and "0 < cnt"
  obtains (full) "palloc_get_multiple flags cnt s = (if flags AND PAL_ASSERT = 0 then Some (0, s) else None)"
      "no_run (used_map (get_pool (flags AND PAL_USER \<noteq> 0) s)) cnt False 0 (bit_cnt (used_map (get_pool (flags AND PAL_USER \<noteq> 0) s)))"
    | (found) a s' where "palloc_get_multiple flags cnt s = Some (a, s')" "fresh_run (flags AND PAL_USER \<noteq> 0) s a cnt"
      "pmem_wf s'" "used s' = used s \<union> run_pages a cnt"
      "pages s' = (if flags AND PAL_ZERO \<noteq> 0 then fill_pages (pages s) a cnt 0 else pages s)"
      "\<forall>u. pool_pages (get_pool u s') = pool_pages (get_pool u s)"
proof -
  define u where "u = (flags AND PAL_USER \<noteq> 0)"
  define p where "p = get_pool u s"
  have pw: "pool_wf p" and bw: "bitmap_wf (used_map p)"
    and disj: "pool_pages p \<inter> pool_pages (get_pool (\<not> u) s) = {}"
    using assms(1) by (cases u; auto simp: p_def pmem_wf_alt pool_wf_def)+
  show thesis
  proof (rule bitmap_scan_and_flip_spec [OF bw, of 0 cnt False])
    assume "bitmap_scan_and_flip (used_map p) 0 cnt False = Some (BITMAP_ERROR, used_map p)"
      "no_run (used_map p) cnt False 0 (bit_cnt (used_map p))"
    moreover have "set_map u (used_map p) s = s" by (simp add: set_map_def p_def get_pool_def)
    ultimately show thesis
      using full assms(2) by (simp add: palloc_get_multiple_def Let_def u_def [symmetric] p_def [symmetric] kassert_bind)
  next
    fix r b assume r: "bitmap_scan_and_flip (used_map p) 0 cnt False = Some (r, b)" "r \<noteq> BITMAP_ERROR"
      "first_run (used_map p) cnt False 0 (bit_cnt (used_map p)) r" "bitmap_wf b" "bit_cnt b = bit_cnt (used_map p)"
      "\<forall>j. bit_at b j = (if r \<le> j \<and> j < r + cnt then \<not> False else bit_at (used_map p) j)"
    define a where "a = page_at (pool_base p) r"
    have rr: "r + cnt \<le> bit_cnt (used_map p)" "bit_run (used_map p) r cnt False" using r(3) by (auto simp: first_run_def)
    then have ka: "kpage_ok a" using pool_page(2) [OF pw, of r] assms(2) by (simp add: a_def)
    then have a0: "a \<noteq> 0" by (auto simp: kpage_ok_def is_kernel_vaddr_def PHYS_BASE_def)
    note run = run_free [OF pw rr, folded a_def]
    have up: "used s = used_pages p \<union> used_pages (get_pool (\<not> u) s)" by (cases u) (auto simp: used_alt UNIV_bool p_def)
    have fresh: "fresh_run u s a cnt"
      using run ka a0 disj used_in_pool [of "get_pool (\<not> u) s"] unfolding fresh_run_def up p_def [symmetric] by blast
    define m where "m = (if flags AND PAL_ZERO \<noteq> 0 then fill_pages (pages s) a cnt 0 else pages s)"
    define s' where "s' = (set_map u b s)\<lparr>pages := m\<rparr>"
    have "palloc_get_multiple flags cnt s = Some (a, s')"
      using assms(2) r(1,2) a0
      by (simp add: palloc_get_multiple_def Let_def u_def [symmetric] p_def [symmetric] s'_def m_def a_def page_at_def)
    moreover have "pmem_wf s'"
      unfolding s'_def using assms(1) r(4,5)
      by (intro pmem_wf_update) (auto simp: p_def m_def fill_pages_eq pmem_wf_def)
    moreover have "used s' = used s \<union> run_pages a cnt"
      unfolding s'_def used_set_map up p_def [symmetric]
      using used_pages_mark [OF r(5) rr(1)] r(6) by (auto simp: a_def)
    moreover have "\<forall>v. pool_pages (get_pool v s') = pool_pages (get_pool v s)"
      using r(5) by (cases u) (auto simp: s'_def pool_pages_def all_bool_eq p_def)
    ultimately show thesis using found fresh by (simp add: s'_def m_def u_def)
  qed simp
qed

section \<open>Release\<close>

lemma page_at_end:
  assumes "pool_wf p"
  shows "page_at (pool_base p) (bit_cnt (used_map p)) \<notin> pool_pages p"
proof
  let ?n = "bit_cnt (used_map p)" and ?b = "pool_base p"
  assume "page_at ?b ?n \<in> pool_pages p"
  then obtain k where k: "k < ?n" "page_at ?b ?n = page_at ?b k" by (auto simp: pool_pages_def)
  have le: "unat ?b + 4096 * ?n \<le> 4294967296" using assms by (simp add: pool_wf_def)
  have "unat (page_at ?b ?n) = unat ?b + 4096 * k" using k pool_page(1) [OF assms k(1)] by simp
  moreover have "3221225472 \<le> unat ?b"
    using assms by (simp add: pool_wf_def kpage_ok_def is_kernel_vaddr_def PHYS_BASE_def word_le_nat_alt)
  moreover have "unat (page_at ?b ?n) = (unat ?b + 4096 * ?n) mod 4294967296"
  proof -
    have "page_at ?b ?n = ?b + of_nat (4096 * ?n)" by (simp add: page_at_def)
    moreover have "?n < 4294967296" using le \<open>3221225472 \<le> unat ?b\<close> by linarith
    ultimately show ?thesis by (simp add: unat_word_ariths unsigned_of_nat take_bit_eq_mod mod_add_right_eq)
  qed
  ultimately show False using le k(1) by (cases "unat ?b + 4096 * ?n = 4294967296") auto
qed

lemma run_index:
  assumes "pool_wf p" and "run_pages a n \<subseteq> pool_pages p" and "0 < n"
  obtains r where "a = page_at (pool_base p) r" "r + n \<le> bit_cnt (used_map p)"
proof -
  have "a = page_at a 0" by (simp add: page_at_def)
  then have "a \<in> run_pages a n" using assms(3) unfolding run_pages_def by blast
  with assms(2) obtain r where r: "a = page_at (pool_base p) r" "r < bit_cnt (used_map p)"
    by (auto simp: pool_pages_def)
  have "r + n \<le> bit_cnt (used_map p)"
  proof (rule ccontr)
    assume "\<not> ?thesis"
    then have "page_at (pool_base p) (bit_cnt (used_map p)) \<in> run_pages a n"
      using r unfolding r(1) run_in_pool by auto
    with assms(2) page_at_end [OF assms(1)] show False by blast
  qed
  with r that show thesis by blast
qed

lemma palloc_free_spec:
  assumes wf: "pmem_wf s" and run: "run_pages a n \<subseteq> used_pages (get_pool u s)" and n: "0 < n"
  shows "\<exists>s'. palloc_free_multiple a n s = Some s' \<and> pmem_wf s' \<and> used s' = used s - run_pages a n
     \<and> pages s' = fill_pages (pages s) a n 0xcc \<and> (\<forall>v. pool_pages (get_pool v s') = pool_pages (get_pool v s))"
proof -
  define p where "p = get_pool u s"
  have pw: "pool_wf p" "pool_wf (get_pool v s)" and bw: "bitmap_wf (used_map p)"
    and disj: "pool_pages p \<inter> pool_pages (get_pool (\<not> u) s) = {}" for v
    using wf by (cases u; auto simp: p_def pmem_wf_alt pool_wf_def)+
  have sub: "run_pages a n \<subseteq> pool_pages p" using run used_in_pool unfolding p_def by blast
  from run_index [OF pw(1) sub n] obtain r where r: "a = page_at (pool_base p) r" "r + n \<le> bit_cnt (used_map p)" .
  have ka: "kpage_ok a" using pool_page(2) [OF pw(1), of r] r n by simp
  then have a0: "a \<noteq> 0" "pg_ofs a = 0" by (auto simp: kpage_ok_def is_kernel_vaddr_def PHYS_BASE_def)
  have "a = page_at a 0" by (simp add: page_at_def)
  then have "a \<in> run_pages a n" using n unfolding run_pages_def by blast
  then have ap: "a \<in> pool_pages p" "a \<notin> pool_pages (get_pool (\<not> u) s)" using sub disj by auto
  have pool: "(if page_from_pool (kernel_pool s) a then Some False
      else if page_from_pool (user_pool s) a then Some True else None) = Some u"
    using ap page_from_pool_iff [OF pw(2) [of False] a0(2)] page_from_pool_iff [OF pw(2) [of True] a0(2)]
    by (cases u) (simp_all add: p_def get_pool_def)
  have "r < 2 ^ 32" using r(2) bw n by (simp add: bitmap_wf_def)
  then have idx: "unat (pg_no a - pg_no (pool_base p)) = r"
    using pool_page(3) [OF pw(1), of r] r n by (simp add: unsigned_of_nat take_bit_nat_eq_self)
  have all: "bitmap_all (used_map p) r n = Some True"
  proof -
    have "bit_at (used_map p) j" if "r \<le> j" "j < r + n" for j
    proof -
      have "page_at (pool_base p) j \<in> used_pages p" using that run r(1) by (auto simp: run_in_pool p_def)
      then show ?thesis using page_at_inj [OF pw(1)] that r(2) by (auto simp: used_pages_def)
    qed
    then show ?thesis using bitmap_all_spec [OF bw r(2)] by simp
  qed
  from bitmap_set_multiple_spec [OF bw r(2), of False] obtain b where
    b: "bitmap_set_multiple (used_map p) r n False = Some b" "bitmap_wf b" "bit_cnt b = bit_cnt (used_map p)"
      "\<forall>j. bit_at b j = (if r \<le> j \<and> j < r + n then False else bit_at (used_map p) j)" by blast
  define m where "m = fill_pages (pages s) a n 0xcc"
  have sm: "set_map u b (s\<lparr>pages := m\<rparr>) = (set_map u b s)\<lparr>pages := m\<rparr>" by (simp add: set_map_def)
  have "palloc_free_multiple a n s = Some ((set_map u b s)\<lparr>pages := m\<rparr>)"
    using a0 n unfolding palloc_free_multiple_def pool
    by (simp add: p_def [symmetric] idx all b(1) m_def [symmetric] sm)
  moreover have "pmem_wf ((set_map u b s)\<lparr>pages := m\<rparr>)"
    using wf b(2,3) by (intro pmem_wf_update) (auto simp: p_def m_def fill_pages_eq pmem_wf_def)
  moreover have "used ((set_map u b s)\<lparr>pages := m\<rparr>) = used s - run_pages a n"
  proof -
    have "used s = used_pages p \<union> used_pages (get_pool (\<not> u) s)" by (cases u) (auto simp: used_alt UNIV_bool p_def)
    moreover have "run_pages a n \<inter> used_pages (get_pool (\<not> u) s) = {}"
      using sub disj used_in_pool [of "get_pool (\<not> u) s"] by blast
    ultimately show ?thesis
      unfolding used_set_map p_def [symmetric] used_pages_clear [OF pw(1) b(3) r(2) b(4)] r(1) by blast
  qed
  moreover have "\<forall>v. pool_pages (get_pool v ((set_map u b s)\<lparr>pages := m\<rparr>)) = pool_pages (get_pool v s)"
    using b(3) by (cases u) (auto simp: pool_pages_def all_bool_eq p_def)
  ultimately show ?thesis by (simp add: m_def)
qed

section \<open>Initialization\<close>

lemma init_pool_spec:
  assumes "kpage_ok a" and "unat a + 4096 * Suc cnt \<le> 4294967296" and "cnt < 1048576" and "elem_cnt cnt \<le> length block"
    and "init_pool block a cnt = Some p"
  shows "pool_wf p" and "used_pages p = {}" and "pool_pages p \<subseteq> run_pages a cnt"
proof -
  define k where "k = DIV_ROUND_UP (bitmap_buf_size cnt) PGSIZE"
  from assms(5) obtain b where k: "k \<le> cnt" and b: "bitmap_create_in_buf (cnt - k) block (usz (k * PGSIZE)) = Some b"
    and p: "p = \<lparr> used_map = b, pool_base = page_at a k \<rparr>"
    by (auto simp: init_pool_def k_def [symmetric] bind_Some_iff page_at_def mult.commute)
  let ?b0 = "\<lparr> bit_cnt = cnt - k, bits = take (elem_cnt (cnt - k)) block \<rparr>"
  have "elem_cnt (cnt - k) \<le> elem_cnt cnt" using assms(3) by (simp add: elem_cnt_eq div_le_mono)
  then have "bitmap_wf ?b0" using assms(3,4) by (simp add: bitmap_wf_def)
  moreover have "bitmap_set_all ?b0 False = Some b" using b by (auto simp: bitmap_create_in_buf_def bind_Some_iff)
  ultimately have bw: "bitmap_wf b" "bit_cnt b = cnt - k" "bm_abs b = replicate (cnt - k) False"
    using bitmap_set_all_spec [of ?b0 False] by auto
  have u: "unat (page_at a k) = unat a + 4096 * k" using unat_page_at [OF assms(2), of k] k by simp
  have "kpage_ok (page_at a k)"
    using assms(1) unat_pg_ofs [of a]
    by (simp add: kpage_ok_def word_unat_eq_iff unat_pg_ofs is_kernel_vaddr_def word_le_nat_alt u)
  then show "pool_wf p" using bw(1,2) u k assms(2) by (simp add: p pool_wf_def)
  have "\<not> bit_at b i" if "i < cnt - k" for i
    using bw(2,3) that nth_bm_abs [of i b] by simp
  then show "used_pages p = {}" by (simp add: p used_pages_def bw)
  have "page_at (page_at a k) ` {..<cnt - k} = run_pages (page_at a k) (cnt - k)" by (simp add: run_pages_def)
  also have "\<dots> \<subseteq> run_pages a cnt" unfolding run_in_pool using k by (auto simp: run_pages_def)
  finally show "pool_pages p \<subseteq> run_pages a cnt" by (simp add: p pool_pages_def bw)
qed

lemma pg_round_up_ofs: "pg_ofs (pg_round_up va) = 0"
proof -
  have "pg_round_up va = pg_round_down (va + 4096 - 1)" by (simp add: pg_round_up_def pg_round_down_def)
  then show ?thesis by (simp only: pg_round_down_ofs)
qed

lemma run_pages_disjoint:
  assumes "unat a + 4096 * (k + n) \<le> 4294967296"
  shows "run_pages a k \<inter> run_pages (page_at a k) n = {}"
proof -
  have "page_at a i \<noteq> page_at a j" if "i < k" "k \<le> j" "j < k + n" for i j
    using unat_page_at [OF assms, of i] unat_page_at [OF assms, of j] that by auto
  then show ?thesis unfolding run_in_pool by (auto simp: run_pages_def)
qed

lemma palloc_init_spec:
  assumes init: "palloc_init kernel_end ram_pages limit kblock ublock = Some (kp, up)"
    and kend: "PHYS_BASE \<le> pg_round_up kernel_end" "unat (pg_round_up kernel_end) \<le> 3221225472 + 4096 * unat ram_pages"
    and ram: "unat ram_pages < 262144" and blocks: "elem_cnt 262144 \<le> length kblock" "elem_cnt 262144 \<le> length ublock"
  shows "pmem_wf \<lparr> kernel_pool = kp, user_pool = up, pages = (\<lambda>_. replicate PGSIZE v) \<rparr>"
    and "used_pages kp = {}" and "used_pages up = {}"
proof -
  define fs where "fs = pg_round_up kernel_end"
  define F where "F = unat (ram_pages * 4096 + PHYS_BASE - fs) div PGSIZE"
  define U where "U = min (F div 2) limit"
  have UF: "U \<le> F" by (simp add: U_def)
  from init have k: "init_pool kblock fs (F - U) = Some kp" and u: "init_pool ublock (page_at fs (F - U)) U = Some up"
    by (auto simp: palloc_init_def ptov_def kassert_bind bind_Some_iff fs_def [symmetric] F_def [symmetric]
        U_def [symmetric] page_at_def mult.commute of_nat_diff [OF UF] left_diff_distrib split: if_splits)
  have fs: "kpage_ok fs" using kend(1) pg_round_up_ofs by (simp add: kpage_ok_def is_kernel_vaddr_def fs_def)
  have "unat (ram_pages * 4096 + PHYS_BASE) = 3221225472 + 4096 * unat ram_pages"
    using ram by (simp add: unat_word_ariths PHYS_BASE_def)
  moreover have "fs \<le> ram_pages * 4096 + PHYS_BASE" using kend(2) calculation by (simp add: word_le_nat_alt fs_def)
  ultimately have "unat (ram_pages * 4096 + PHYS_BASE - fs) = 3221225472 + 4096 * unat ram_pages - unat fs"
    by (simp add: unat_sub)
  then have FP: "4096 * F \<le> 3221225472 + 4096 * unat ram_pages - unat fs" by (simp add: F_def PGSIZE_def)
  have fsb: "3221225472 \<le> unat fs" using kend(1) by (simp add: fs_def PHYS_BASE_def word_le_nat_alt)
  have lim: "unat fs + 4096 * Suc F \<le> 4294967296" "F < 262144" using FP fsb ram kend(2) by (auto simp: fs_def)
  have el: "elem_cnt c \<le> elem_cnt 262144" if "c \<le> F" for c using that lim(2) by (simp add: elem_cnt_eq)
  have b2: "unat (page_at fs (F - U)) = unat fs + 4096 * (F - U)" using unat_page_at [OF lim(1), of "F - U"] by simp
  have fs2: "kpage_ok (page_at fs (F - U))"
    using fs unat_pg_ofs [of fs] by (simp add: kpage_ok_def word_unat_eq_iff unat_pg_ofs is_kernel_vaddr_def word_le_nat_alt b2)
  note kk = init_pool_spec [OF fs _ _ _ k]
  note uu = init_pool_spec [OF fs2 _ _ _ u, unfolded b2]
  have K: "pool_wf kp" "used_pages kp = {}" "pool_pages kp \<subseteq> run_pages fs (F - U)"
    using kk lim UF el [of "F - U"] blocks(1) by auto
  have V: "pool_wf up" "used_pages up = {}" "pool_pages up \<subseteq> run_pages (page_at fs (F - U)) U"
    using uu lim UF el [of U] blocks(2) by auto
  have "run_pages fs (F - U) \<inter> run_pages (page_at fs (F - U)) U = {}" using lim UF by (intro run_pages_disjoint) simp
  with K V show "pmem_wf \<lparr> kernel_pool = kp, user_pool = up, pages = (\<lambda>_. replicate PGSIZE v) \<rparr>"
    by (simp add: pmem_wf_def) blast
  from K V show "used_pages kp = {}" "used_pages up = {}" by auto
qed

section \<open>Properties\<close>

text \<open>C22. Exclusive use of pages. A request for pages either fails, only when its pool has no run of
  free pages of that length, or returns the kernel address of a run of pages of the requested pool
  that were not in use before and are in use afterwards; they are zeroed on request, and no other page
  changes. Giving the run back makes exactly these pages free again.\<close>

theorem palloc_exclusive:
  assumes "pmem_wf s" and "0 < cnt" and "flags AND PAL_ASSERT = 0"
  shows "\<exists>a s'. palloc_get_multiple flags cnt s = Some (a, s') \<and> pmem_wf s' \<and>
     (if a = 0 then s' = s
        \<and> no_run (used_map (get_pool (flags AND PAL_USER \<noteq> 0) s)) cnt False 0 (bit_cnt (used_map (get_pool (flags AND PAL_USER \<noteq> 0) s)))
      else fresh_run (flags AND PAL_USER \<noteq> 0) s a cnt \<and> used s' = used s \<union> run_pages a cnt
        \<and> (\<forall>x. pages s' x = (if x \<in> run_pages a cnt \<and> flags AND PAL_ZERO \<noteq> 0 then replicate PGSIZE 0 else pages s x))
        \<and> (\<exists>s''. palloc_free_multiple a cnt s' = Some s'' \<and> pmem_wf s'' \<and> used s'' = used s))"
proof (rule palloc_get_spec [OF assms(1,2), of flags])
  assume "palloc_get_multiple flags cnt s = (if flags AND PAL_ASSERT = 0 then Some (0, s) else None)"
    "no_run (used_map (get_pool (flags AND PAL_USER \<noteq> 0) s)) cnt False 0 (bit_cnt (used_map (get_pool (flags AND PAL_USER \<noteq> 0) s)))"
  with assms show ?thesis by simp
next
  let ?u = "flags AND PAL_USER \<noteq> 0"
  fix a s' assume s': "palloc_get_multiple flags cnt s = Some (a, s')" "fresh_run ?u s a cnt" "pmem_wf s'"
    "used s' = used s \<union> run_pages a cnt"
    "pages s' = (if flags AND PAL_ZERO \<noteq> 0 then fill_pages (pages s) a cnt 0 else pages s)"
    "\<forall>u. pool_pages (get_pool u s') = pool_pages (get_pool u s)"
  have run: "run_pages a cnt \<inter> used s = {}" "run_pages a cnt \<subseteq> pool_pages (get_pool ?u s')" "a \<noteq> 0"
    using s'(2,6) by (auto simp: fresh_run_def)
  have "pool_pages (get_pool ?u s') \<inter> pool_pages (get_pool (\<not> ?u) s') = {}"
    using s'(3) by (cases ?u) (auto simp: pmem_wf_alt)
  with run(2) have "run_pages a cnt \<inter> used_pages (get_pool (\<not> ?u) s') = {}" using used_in_pool by blast
  moreover have "used s' = used_pages (get_pool ?u s') \<union> used_pages (get_pool (\<not> ?u) s')"
    by (cases ?u) (auto simp: used_alt UNIV_bool)
  ultimately have "run_pages a cnt \<subseteq> used_pages (get_pool ?u s')" using s'(4) by blast
  from palloc_free_spec [OF s'(3) this assms(2)] obtain s'' where
    "palloc_free_multiple a cnt s' = Some s''" "pmem_wf s''" "used s'' = used s' - run_pages a cnt" by blast
  moreover have "used s' - run_pages a cnt = used s" using s'(4) run(1) by blast
  ultimately show ?thesis using s' run(3) by (auto simp: fill_pages_eq)
qed

definition demo_pool :: "u32 \<Rightarrow> pool" where
  "demo_pool a = \<lparr> used_map = \<lparr> bit_cnt = 2, bits = [1] \<rparr>, pool_base = a \<rparr>"

definition demo_pmem :: pmem where
  "demo_pmem = \<lparr> kernel_pool = demo_pool 0xc0100000, user_pool = demo_pool 0xc0200000, pages = (\<lambda>_. replicate PGSIZE 0) \<rparr>"

lemma demo_pmem_wf: "pmem_wf demo_pmem"
proof -
  have "{..<2 :: nat} = {0, 1}" by auto
  then show ?thesis
    by (simp add: demo_pmem_def demo_pool_def pmem_wf_def pool_wf_def bitmap_wf_def elem_cnt_eq kpage_ok_def
        pg_ofs_def PGMASK_def is_kernel_vaddr_def PHYS_BASE_def pool_pages_def page_at_def)
qed

theorem palloc_exclusive_witness:
  "\<exists>a s'. palloc_get_multiple PAL_USER 1 demo_pmem = Some (a, s') \<and> pmem_wf s'"
  using palloc_exclusive [of demo_pmem 1 PAL_USER] demo_pmem_wf by (auto simp: PAL_USER_def PAL_ASSERT_def)

end
