(* ===== verification/Pagedir.thy ===== *)
theory Pagedir
  imports Palloc Bytes
begin

text \<open>
  Page directories, \<^verbatim>\<open>userprog/pagedir.c\<close>, and the kernel page directory built by \<open>paging_init\<close> in
  \<^verbatim>\<open>threads/init.c\<close>. A page directory and a page table are pages of 1024 words in the memory of
  \<open>Palloc\<close>; a pointer to an entry is the address of its page and an index. \<open>cr3\<close> holds the address of the
  active directory, \<open>tlb\<close> the translations that the processor has cached for it: loading \<open>cr3\<close> empties
  it.

  The lemmas show that the operations implement a map from user pages to entries for every process:
  an operation on one page of one directory changes nothing else, and no translation stays cached for
  a page that is no longer mapped.
\<close>

section \<open>State\<close>

record vmem =
  phys :: pmem
  base_page_dir :: u32
  ram_pages :: u32
  cr3 :: u32
  tlb :: "u32 \<Rightarrow> u32 option"

text \<open>Word \<open>i\<close> of the page at \<open>a\<close>.\<close>

definition ent :: "vmem \<Rightarrow> u32 \<Rightarrow> nat \<Rightarrow> u32" where
  "ent s a i = le_words (pages (phys s) a) ! i"

definition set_ent :: "u32 \<Rightarrow> nat \<Rightarrow> u32 \<Rightarrow> vmem \<Rightarrow> vmem" where
  "set_ent a i w s = s\<lparr>phys := (phys s)\<lparr>pages := (pages (phys s))
     (a := words_bytes ((le_words (pages (phys s) a))[i := w]))\<rparr>\<rparr>"

section \<open>Operations\<close>

definition pagedir_activate :: "u32 \<Rightarrow> vmem \<Rightarrow> vmem option" where
  "pagedir_activate pd s = do {
     p \<leftarrow> vtop (if pd = 0 then base_page_dir s else pd);
     Some (s\<lparr>cr3 := p, tlb := (\<lambda>_. None)\<rparr>) }"

definition active_pd :: "vmem \<Rightarrow> u32 option" where
  "active_pd s = ptov (cr3 s)"

definition invalidate_pagedir :: "u32 \<Rightarrow> vmem \<Rightarrow> vmem option" where
  "invalidate_pagedir pd s = do {
     a \<leftarrow> active_pd s;
     if a = pd then pagedir_activate pd s else Some s }"

definition pagedir_create :: "vmem \<Rightarrow> (u32 \<times> vmem) option" where
  "pagedir_create s = do {
     (pd, m) \<leftarrow> palloc_get_page 0 (phys s);
     Some (pd, if pd \<noteq> 0 then s\<lparr>phys := m\<lparr>pages := (pages m)(pd := pages m (base_page_dir s))\<rparr>\<rparr> else s\<lparr>phys := m\<rparr>) }"

definition lookup_page :: "u32 \<Rightarrow> u32 \<Rightarrow> bool \<Rightarrow> vmem \<Rightarrow> ((u32 \<times> nat) option \<times> vmem) option" where
  "lookup_page pd vaddr create s = do {
     kassert (pd \<noteq> 0);
     kassert (\<not> create \<or> is_user_vaddr vaddr);
     let i = unat (pd_no vaddr);
     if ent s pd i = 0 then
       if create then do {
         (pt, m) \<leftarrow> palloc_get_page PAL_ZERO (phys s);
         let s1 = s\<lparr>phys := m\<rparr>;
         if pt = 0 then Some (None, s1)
         else do {
           pde \<leftarrow> pde_create pt;
           let s2 = set_ent pd i pde s1;
           pt' \<leftarrow> pde_get_pt (ent s2 pd i);
           Some (Some (pt', unat (pt_no vaddr)), s2) } }
       else Some (None, s)
     else do {
       pt \<leftarrow> pde_get_pt (ent s pd i);
       Some (Some (pt, unat (pt_no vaddr)), s) } }"

definition pagedir_set_page :: "u32 \<Rightarrow> u32 \<Rightarrow> u32 \<Rightarrow> bool \<Rightarrow> vmem \<Rightarrow> (bool \<times> vmem) option" where
  "pagedir_set_page pd upage kpage writable s = do {
     kassert (pg_ofs upage = 0);
     kassert (pg_ofs kpage = 0);
     kassert (is_user_vaddr upage);
     p \<leftarrow> vtop kpage;
     kassert (drop_bit PTSHIFT p < ram_pages s);
     kassert (pd \<noteq> base_page_dir s);
     (pte, s1) \<leftarrow> lookup_page pd upage True s;
     case pte of None \<Rightarrow> Some (False, s1)
     | Some (pt, j) \<Rightarrow> do {
         kassert (ent s1 pt j AND PTE_P = 0);
         e \<leftarrow> pte_create_user kpage writable;
         Some (True, set_ent pt j e s1) } }"

definition pagedir_get_page :: "u32 \<Rightarrow> u32 \<Rightarrow> vmem \<Rightarrow> u32 option" where
  "pagedir_get_page pd uaddr s = do {
     kassert (is_user_vaddr uaddr);
     (pte, _) \<leftarrow> lookup_page pd uaddr False s;
     case pte of None \<Rightarrow> Some 0
     | Some (pt, j) \<Rightarrow>
         if ent s pt j AND PTE_P \<noteq> 0 then do { p \<leftarrow> pte_get_page (ent s pt j); Some (p + pg_ofs uaddr) }
         else Some 0 }"

definition pagedir_clear_page :: "u32 \<Rightarrow> u32 \<Rightarrow> vmem \<Rightarrow> vmem option" where
  "pagedir_clear_page pd upage s = do {
     kassert (pg_ofs upage = 0);
     kassert (is_user_vaddr upage);
     (pte, _) \<leftarrow> lookup_page pd upage False s;
     case pte of None \<Rightarrow> Some s
     | Some (pt, j) \<Rightarrow>
         if ent s pt j AND PTE_P \<noteq> 0 then invalidate_pagedir pd (set_ent pt j (ent s pt j AND NOT PTE_P) s)
         else Some s }"

definition test_bit :: "u32 \<Rightarrow> u32 \<Rightarrow> u32 \<Rightarrow> vmem \<Rightarrow> bool option" where
  "test_bit bt pd vpage s = do {
     (pte, _) \<leftarrow> lookup_page pd vpage False s;
     case pte of None \<Rightarrow> Some False | Some (pt, j) \<Rightarrow> Some (ent s pt j AND bt \<noteq> 0) }"

definition change_bit :: "u32 \<Rightarrow> u32 \<Rightarrow> u32 \<Rightarrow> bool \<Rightarrow> vmem \<Rightarrow> vmem option" where
  "change_bit bt pd vpage on s = do {
     (pte, _) \<leftarrow> lookup_page pd vpage False s;
     case pte of None \<Rightarrow> Some s
     | Some (pt, j) \<Rightarrow>
         if on then Some (set_ent pt j (ent s pt j OR bt) s)
         else invalidate_pagedir pd (set_ent pt j (ent s pt j AND NOT bt) s) }"

definition pagedir_is_dirty :: "u32 \<Rightarrow> u32 \<Rightarrow> vmem \<Rightarrow> bool option" where
  "pagedir_is_dirty pd vpage s = test_bit PTE_D pd vpage s"

definition pagedir_set_dirty :: "u32 \<Rightarrow> u32 \<Rightarrow> bool \<Rightarrow> vmem \<Rightarrow> vmem option" where
  "pagedir_set_dirty pd vpage dirty s = change_bit PTE_D pd vpage dirty s"

definition pagedir_is_accessed :: "u32 \<Rightarrow> u32 \<Rightarrow> vmem \<Rightarrow> bool option" where
  "pagedir_is_accessed pd vpage s = test_bit PTE_A pd vpage s"

definition pagedir_set_accessed :: "u32 \<Rightarrow> u32 \<Rightarrow> bool \<Rightarrow> vmem \<Rightarrow> vmem option" where
  "pagedir_set_accessed pd vpage accessed s = change_bit PTE_A pd vpage accessed s"

definition free_page_at :: "u32 \<Rightarrow> vmem \<Rightarrow> vmem option" where
  "free_page_at a s = map_option (\<lambda>m. s\<lparr>phys := m\<rparr>) (palloc_free_page a (phys s))"

fun destroy_ptes :: "u32 \<Rightarrow> nat list \<Rightarrow> vmem \<Rightarrow> vmem option" where
  "destroy_ptes pt [] s = Some s"
| "destroy_ptes pt (j # js) s = do {
     s1 \<leftarrow> (if ent s pt j AND PTE_P \<noteq> 0 then do { p \<leftarrow> pte_get_page (ent s pt j); free_page_at p s } else Some s);
     destroy_ptes pt js s1 }"

fun destroy_pdes :: "u32 \<Rightarrow> nat list \<Rightarrow> vmem \<Rightarrow> vmem option" where
  "destroy_pdes pd [] s = Some s"
| "destroy_pdes pd (i # is) s = do {
     s1 \<leftarrow> (if ent s pd i AND PTE_P \<noteq> 0 then do {
              pt \<leftarrow> pde_get_pt (ent s pd i);
              s2 \<leftarrow> destroy_ptes pt [0..<PGSIZE div 4] s;
              free_page_at pt s2 }
            else Some s);
     destroy_pdes pd is s1 }"

definition pagedir_destroy :: "u32 \<Rightarrow> vmem \<Rightarrow> vmem option" where
  "pagedir_destroy pd s =
     (if pd = 0 then Some s
      else do {
        kassert (pd \<noteq> base_page_dir s);
        s1 \<leftarrow> destroy_pdes pd [0..<unat (pd_no PHYS_BASE)] s;
        free_page_at pd s1 })"

section \<open>The kernel page directory\<close>

text \<open>\<open>text_start\<close> and \<open>text_end\<close> are the addresses of the linker's symbols \<open>_start\<close> and
  \<open>_end_kernel_text\<close>.\<close>

fun paging_loop :: "u32 \<Rightarrow> u32 \<Rightarrow> u32 \<Rightarrow> u32 \<Rightarrow> nat list \<Rightarrow> vmem \<Rightarrow> vmem option" where
  "paging_loop text_start text_end pd pt [] s = Some s"
| "paging_loop text_start text_end pd pt (page # rest) s = do {
     vaddr \<leftarrow> ptov (of_nat page * 4096);
     let pde_idx = unat (pd_no vaddr);
     let pte_idx = unat (pt_no vaddr);
     let in_kernel_text = (text_start \<le> vaddr \<and> vaddr < text_end);
     (pt1, s1) \<leftarrow> (if ent s pd pde_idx = 0 then do {
          (a, m) \<leftarrow> palloc_get_page (PAL_ASSERT OR PAL_ZERO) (phys s);
          pde \<leftarrow> pde_create a;
          Some (a, set_ent pd pde_idx pde (s\<lparr>phys := m\<rparr>)) }
        else Some (pt, s));
     kassert (pt1 \<noteq> 0);
     pte \<leftarrow> pte_create_kernel vaddr (\<not> in_kernel_text);
     paging_loop text_start text_end pd pt1 rest (set_ent pt1 pte_idx pte s1) }"

definition paging_init :: "u32 \<Rightarrow> u32 \<Rightarrow> vmem \<Rightarrow> vmem option" where
  "paging_init text_start text_end s = do {
     (pd, m) \<leftarrow> palloc_get_page (PAL_ASSERT OR PAL_ZERO) (phys s);
     s1 \<leftarrow> paging_loop text_start text_end pd 0 [0..<unat (ram_pages s)] (s\<lparr>phys := m, base_page_dir := pd\<rparr>);
     p \<leftarrow> vtop (base_page_dir s1);
     Some (s1\<lparr>cr3 := p, tlb := (\<lambda>_. None)\<rparr>) }"

section \<open>Words of pages\<close>

lemma le_words_page: "length (pages m a) = PGSIZE \<Longrightarrow> length (le_words (pages m a)) = 1024"
  by (simp add: length_le_words PGSIZE_def)

lemma set_ent_fields [simp]:
  "kernel_pool (phys (set_ent a i w s)) = kernel_pool (phys s)" "user_pool (phys (set_ent a i w s)) = user_pool (phys s)"
  "base_page_dir (set_ent a i w s) = base_page_dir s" "ram_pages (set_ent a i w s) = ram_pages s"
  "cr3 (set_ent a i w s) = cr3 s" "tlb (set_ent a i w s) = tlb s"
  by (simp_all add: set_ent_def)

lemma ent_set_ent:
  assumes "pmem_wf (phys s)" and "i < 1024" and "j < 1024"
  shows "ent (set_ent a i w s) b j = (if b = a \<and> j = i then w else ent s b j)"
proof -
  have "length (le_words (pages (phys s) a)) = 1024" using assms(1) by (simp add: pmem_wf_def le_words_page)
  with assms(2,3) show ?thesis by (simp add: ent_def set_ent_def nth_list_update)
qed

lemma set_ent_pages: "b \<noteq> a \<Longrightarrow> pages (phys (set_ent a i w s)) b = pages (phys s) b"
  by (simp add: set_ent_def)

lemma set_ent_wf [simp]: "pmem_wf (phys s) \<Longrightarrow> pmem_wf (phys (set_ent a i w s))"
  by (auto simp: pmem_wf_def set_ent_def length_le_words PGSIZE_def)

lemma ent_zero: "pages (phys s) a = replicate PGSIZE 0 \<Longrightarrow> j < 1024 \<Longrightarrow> ent s a j = 0"
proof -
  have z: "le_words (replicate (4 * n) 0) = replicate n 0" for n
  proof (induction n)
    case (Suc n)
    have "4 * Suc n = Suc (Suc (Suc (Suc (4 * n))))" by simp
    with Suc show ?case by (simp only: replicate_Suc le_words.simps) (simp add: le_word_def)
  qed simp
  from z [of 1024] show "pages (phys s) a = replicate PGSIZE 0 \<Longrightarrow> j < 1024 \<Longrightarrow> ent s a j = 0"
    by (simp add: ent_def PGSIZE_def)
qed

section \<open>The map of a directory\<close>

text \<open>The page table of slot \<open>i\<close> of a directory, the entry for an address, and the invariant: \<open>D\<close> is the
  set of directories of the processes. Directories and page tables are pages of the kernel pool in use,
  each page table belongs to one slot of one directory, and entries hold physical addresses.\<close>

definition pt_of :: "vmem \<Rightarrow> u32 \<Rightarrow> nat \<Rightarrow> u32" where
  "pt_of s pd i = (ent s pd i AND PTE_ADDR) + PHYS_BASE"

definition pte :: "vmem \<Rightarrow> u32 \<Rightarrow> u32 \<Rightarrow> u32 option" where
  "pte s pd va = (if ent s pd (unat (pd_no va)) = 0 then None
     else Some (ent s (pt_of s pd (unat (pd_no va))) (unat (pt_no va))))"

definition slots :: "vmem \<Rightarrow> u32 set \<Rightarrow> (u32 \<times> nat) set" where
  "slots s D = {(pd, i). pd \<in> D \<and> i < 768 \<and> ent s pd i \<noteq> 0}"

definition kused :: "vmem \<Rightarrow> u32 set" where
  "kused s = used_pages (kernel_pool (phys s))"

definition slot_ok :: "vmem \<Rightarrow> u32 set \<Rightarrow> u32 \<times> nat \<Rightarrow> bool" where
  "slot_ok s D = (\<lambda>(pd, i). ent s pd i = pt_entry (pt_of s pd i) (user_flags True) \<and> kpage_ok (pt_of s pd i)
     \<and> pt_of s pd i \<in> kused s \<and> pt_of s pd i \<notin> D \<and> pt_of s pd i \<noteq> base_page_dir s
     \<and> (\<forall>j < 1024. ent s (pt_of s pd i) j AND PTE_ADDR < PHYS_BASE))"

definition dirs_ok :: "vmem \<Rightarrow> u32 set \<Rightarrow> bool" where
  "dirs_ok s D \<longleftrightarrow> pmem_wf (phys s) \<and> D \<subseteq> kused s \<and> base_page_dir s \<in> kused s \<and> base_page_dir s \<notin> D
     \<and> (\<forall>i < 768. ent s (base_page_dir s) i = 0) \<and> (\<forall>x \<in> slots s D. slot_ok s D x)
     \<and> inj_on (\<lambda>(pd, i). pt_of s pd i) (slots s D)"

lemma kused_page:
  assumes "dirs_ok s D" and "pd \<in> D"
  shows "kpage_ok pd" "pd \<noteq> 0" "pd \<noteq> base_page_dir s" "pd \<in> kused s"
proof -
  have k: "pool_wf (kernel_pool (phys s))" using assms(1) by (simp add: dirs_ok_def pmem_wf_def)
  show "pd \<in> kused s" using assms by (auto simp: dirs_ok_def)
  then show "kpage_ok pd" using pool_page(2) [OF k] by (auto simp: kused_def used_pages_def)
  then show "pd \<noteq> 0" by (auto simp: kpage_ok_def is_kernel_vaddr_def PHYS_BASE_def)
  show "pd \<noteq> base_page_dir s" using assms by (auto simp: dirs_ok_def)
qed

lemma entry_pt:
  "kpage_ok p \<Longrightarrow> (pt_entry p (user_flags True) AND PTE_ADDR) + PHYS_BASE = p"
  by (simp add: entry_addr)

lemma lookup_existing:
  assumes "dirs_ok s D" and "pd \<in> D" and "is_user_vaddr va" and "ent s pd (unat (pd_no va)) \<noteq> 0"
  shows "lookup_page pd va c s = Some (Some (pt_of s pd (unat (pd_no va)), unat (pt_no va)), s)"
proof -
  have "slot_ok s D (pd, unat (pd_no va))"
    using assms pd_no_user [of va] by (auto simp: dirs_ok_def slots_def)
  then have "pde_get_pt (ent s pd (unat (pd_no va))) = Some (pt_of s pd (unat (pd_no va)))"
    using pde_get_pt_entry by (simp add: slot_ok_def)
  with assms kused_page(2) [OF assms(1,2)] show ?thesis by (simp add: lookup_page_def Let_def)
qed

lemma lookup_missing:
  assumes "dirs_ok s D" and "pd \<in> D" and "ent s pd (unat (pd_no va)) = 0"
  shows "lookup_page pd va False s = Some (None, s)"
  using assms kused_page(2) [OF assms(1,2)] by (simp add: lookup_page_def Let_def)

text \<open>Writing an entry of a page table.\<close>

lemma set_pte:
  assumes ok: "dirs_ok s D" and pd: "pd \<in> D" and va: "is_user_vaddr va" and nz: "ent s pd (unat (pd_no va)) \<noteq> 0"
    and e: "e AND PTE_ADDR < PHYS_BASE"
  defines "s' \<equiv> set_ent (pt_of s pd (unat (pd_no va))) (unat (pt_no va)) e s"
  shows "dirs_ok s' D" and "pd' \<in> D \<Longrightarrow> is_user_vaddr va' \<Longrightarrow>
      pte s' pd' va' = (if pd' = pd \<and> pg_round_down va' = pg_round_down va then Some e else pte s pd' va')"
proof -
  let ?i = "unat (pd_no va)" and ?j = "unat (pt_no va)"
  let ?pt = "pt_of s pd ?i"
  have wf: "pmem_wf (phys s)" using ok by (simp add: dirs_ok_def)
  have sl: "(pd, ?i) \<in> slots s D" using pd nz pd_no_user [of va] va by (auto simp: slots_def)
  then have so: "slot_ok s D (pd, ?i)" using ok by (auto simp: dirs_ok_def)
  have E: "ent s' a k = (if a = ?pt \<and> k = ?j then e else ent s a k)" if "k < 1024" for a k
    unfolding s'_def by (rule ent_set_ent [OF wf pt_no_less that])
  have D: "ent s' a k = ent s a k" if "a \<in> insert (base_page_dir s) D" "k < 1024" for a k
    using so that E by (auto simp: slot_ok_def)
  have F: "base_page_dir s' = base_page_dir s" "kused s' = kused s" by (simp_all add: s'_def kused_def)
  have P: "pt_of s' a k = pt_of s a k" if "a \<in> D" "k < 768" for a k using D that by (simp add: pt_of_def)
  have S: "slots s' D = slots s D" using D by (auto simp: slots_def)
  have ok': "slot_ok s' D x" if "x \<in> slots s D" for x
  proof -
    obtain a k where x: "x = (a, k)" by (cases x)
    have "slot_ok s D (a, k)" "a \<in> D" "k < 768" using ok that x by (auto simp: dirs_ok_def slots_def)
    then show ?thesis using E D P F e by (simp add: x slot_ok_def)
  qed
  have "inj_on (\<lambda>(pd, i). pt_of s' pd i) (slots s D) = inj_on (\<lambda>(pd, i). pt_of s pd i) (slots s D)"
    by (rule inj_on_cong) (auto simp: slots_def P)
  then show "dirs_ok s' D"
    using ok ok' D wf unfolding dirs_ok_def S F by (auto simp: s'_def)
  assume pd': "pd' \<in> D" and va': "is_user_vaddr va'"
  let ?i' = "unat (pd_no va')" and ?j' = "unat (pt_no va')"
  have i': "?i' < 768" using va' pd_no_user by simp
  have "pt_of s pd' ?i' = ?pt \<longleftrightarrow> pd' = pd \<and> ?i' = ?i" if "ent s pd' ?i' \<noteq> 0"
  proof -
    have "(pd', ?i') \<in> slots s D" using pd' i' that by (simp add: slots_def)
    moreover have "inj_on (\<lambda>(pd, i). pt_of s pd i) (slots s D)" using ok by (simp add: dirs_ok_def)
    ultimately show ?thesis using inj_on_eq_iff [of "\<lambda>(pd, i). pt_of s pd i" "slots s D" "(pd', ?i')" "(pd, ?i)"] sl by simp
  qed
  moreover have "?i' = ?i \<and> ?j' = ?j \<longleftrightarrow> pg_round_down va' = pg_round_down va"
    using page_indices [of va' va] by (simp add: word_unat_eq_iff)
  ultimately show "pte s' pd' va' = (if pd' = pd \<and> pg_round_down va' = pg_round_down va then Some e else pte s pd' va')"
    using D pd' i' P E [OF pt_no_less, of _ va'] nz by (auto simp: pte_def)
qed

section \<open>New page tables\<close>

lemma used_pages_pool: "pmem_wf m \<Longrightarrow> used_pages (get_pool u m) = used m \<inter> pool_pages (get_pool u m)"
  using used_in_pool [of "get_pool True m"] used_in_pool [of "get_pool False m"]
  by (cases u) (auto simp: used_alt pmem_wf_alt UNIV_bool)

lemma run_pages_1 [simp]: "run_pages a 1 = {a}" "run_pages a (Suc 0) = {a}"
  by (auto simp: run_pages_def page_at_def)

text \<open>A request for one page.\<close>

lemma palloc_page_spec:
  assumes "pmem_wf m" and "flags AND PAL_ASSERT = 0"
  obtains (full) "palloc_get_page flags m = Some (0, m)" "pool_pages (get_pool (flags AND PAL_USER \<noteq> 0) m) \<subseteq> used m"
    | (found) a m' where "palloc_get_page flags m = Some (a, m')" "a \<noteq> 0" "kpage_ok a" "a \<notin> used m"
      "pmem_wf m'" "used m' = insert a (used m)"
      "a \<in> pool_pages (get_pool (flags AND PAL_USER \<noteq> 0) m)" "\<forall>u. pool_pages (get_pool u m') = pool_pages (get_pool u m)"
      "pages m' = (if flags AND PAL_ZERO \<noteq> 0 then (pages m)(a := replicate PGSIZE 0) else pages m)"
proof (rule palloc_get_spec [OF assms(1), of 1 flags])
  let ?u = "flags AND PAL_USER \<noteq> 0"
  assume f: "palloc_get_multiple flags 1 m = (if flags AND PAL_ASSERT = 0 then Some (0, m) else None)"
    "no_run (used_map (get_pool ?u m)) 1 False 0 (bit_cnt (used_map (get_pool ?u m)))"
  then have "bit_at (used_map (get_pool ?u m)) i" if "i < bit_cnt (used_map (get_pool ?u m))" for i
    using that by (fastforce simp: no_run_def bit_run_def Suc_le_eq less_Suc_eq)
  then have "pool_pages (get_pool ?u m) \<subseteq> used_pages (get_pool ?u m)" by (auto simp: pool_pages_def used_pages_def)
  then show thesis using full f(1) assms(2) by (auto simp: palloc_get_page_def used_alt)
qed (use assms(2) in \<open>auto simp: palloc_get_page_def fresh_run_def fill_pages_eq [abs_def] fun_upd_def intro: found\<close>)

text \<open>The kernel pool has no free page.\<close>

definition kernel_full :: "vmem \<Rightarrow> bool" where
  "kernel_full s \<longleftrightarrow> pool_pages (kernel_pool (phys s)) \<subseteq> kused s"

lemma kernel_fullI: "pmem_wf (phys s) \<Longrightarrow> pool_pages (get_pool False (phys s)) \<subseteq> used (phys s) \<Longrightarrow> kernel_full s"
  using used_pages_pool [of "phys s" False] by (auto simp: kernel_full_def kused_def get_pool_def)

lemma kused_new:
  assumes "pmem_wf m" and "pmem_wf m'" and "used m' = insert a (used m)" and "a \<in> pool_pages (get_pool False m)"
    and "\<forall>u. pool_pages (get_pool u m') = pool_pages (get_pool u m)"
  shows "used_pages (kernel_pool m') = insert a (used_pages (kernel_pool m))"
    "used_pages (user_pool m') = used_pages (user_pool m)"
proof -
  have "pool_pages (get_pool False m) \<inter> pool_pages (get_pool True m) = {}" using assms(1) by (simp add: pmem_wf_alt)
  then show "used_pages (kernel_pool m') = insert a (used_pages (kernel_pool m))"
    "used_pages (user_pool m') = used_pages (user_pool m)"
    using used_pages_pool [OF assms(1), of True] used_pages_pool [OF assms(1), of False]
      used_pages_pool [OF assms(2), of True] used_pages_pool [OF assms(2), of False] assms(3,4)
      spec [OF assms(5), of True] spec [OF assms(5), of False]
    by (auto simp: get_pool_def)
qed

lemma add_table:
  assumes ok: "dirs_ok s D" and pd: "pd \<in> D" and i: "i < 768" and z: "ent s pd i = 0"
    and pt: "kpage_ok pt" "pt \<notin> used (phys s)" "pmem_wf m" "pages m = (pages (phys s))(pt := replicate PGSIZE 0)"
    and ku: "used_pages (kernel_pool m) = insert pt (kused s)"
  defines "s' \<equiv> set_ent pd i (pt_entry pt (user_flags True)) (s\<lparr>phys := m\<rparr>)"
  shows "dirs_ok s' D" and "ent s' pd i = pt_entry pt (user_flags True)" and "pt_of s' pd i = pt"
    and "pd' \<in> D \<Longrightarrow> is_user_vaddr va \<Longrightarrow>
      pte s' pd' va = (if pd' = pd \<and> unat (pd_no va) = i then Some 0 else pte s pd' va)"
proof -
  have un: "kused s \<subseteq> used (phys s)" by (auto simp: kused_def used_def)
  have nu: "pt \<notin> kused s" using pt(2) un by blast
  have E: "ent s' a k = (if a = pd \<and> k = i then pt_entry pt (user_flags True) else if a = pt then 0 else ent s a k)"
    if "k < 1024" for a k
  proof -
    have "ent (s\<lparr>phys := m\<rparr>) a k = (if a = pt then 0 else ent s a k)"
      using that ent_zero [of "s\<lparr>phys := m\<rparr>" pt k] by (auto simp: pt(4) ent_def)
    then show ?thesis unfolding s'_def using ent_set_ent [of "s\<lparr>phys := m\<rparr>" i k] pt(3) i that by auto
  qed
  have nD: "a \<noteq> pt" if "a \<in> insert (base_page_dir s) D" for a
    using that ok nu by (auto simp: dirs_ok_def)
  have F: "base_page_dir s' = base_page_dir s" "kused s' = insert pt (kused s)" by (simp_all add: s'_def kused_def ku)
  have bd: "base_page_dir s \<noteq> pd" using kused_page(3) [OF ok pd] by simp
  show e: "ent s' pd i = pt_entry pt (user_flags True)" using E i by simp
  then show p: "pt_of s' pd i = pt" using entry_pt [OF pt(1)] by (simp add: pt_of_def)
  have P: "pt_of s' a k = pt_of s a k" if "a \<in> D" "k < 768" "(a, k) \<noteq> (pd, i)" for a k
    using E nD that by (auto simp: pt_of_def)
  have S: "slots s' D = insert (pd, i) (slots s D)"
    using E nD pd i entry_nonzero [OF pt(1)] by (auto simp: slots_def split: if_splits)
  have old: "slot_ok s D (a, k)" "a \<in> D" "k < 768" "(a, k) \<noteq> (pd, i)" if "(a, k) \<in> slots s D" for a k
    using ok that z by (auto simp: dirs_ok_def slots_def)
  have new: "slot_ok s' D x" if x: "x \<in> slots s' D" for x
  proof (cases "x = (pd, i)")
    case True
    then show ?thesis using e p pt(1) F nD E kused_page(4) [OF ok] nu pd by (auto simp: slot_ok_def PHYS_BASE_def)
  next
    case False
    then obtain a k where ak: "x = (a, k)" "(a, k) \<in> slots s D" using x S by (cases x) auto
    note o = old [OF ak(2)]
    have "pt_of s a k \<noteq> pt" "pt_of s a k \<noteq> pd" using o(1) nu pd by (auto simp: slot_ok_def)
    then show ?thesis using o E P nD F by (auto simp: ak slot_ok_def)
  qed
  have "pt_of s a k \<noteq> pt" if "(a, k) \<in> slots s D" for a k using old(1) [OF that] nu by (auto simp: slot_ok_def)
  then have "pt_of s' a k \<noteq> pt_of s' pd i" if "(a, k) \<in> slots s D" for a k using P old [OF that] p that by auto
  moreover have "inj_on (\<lambda>(pd, i). pt_of s' pd i) (slots s D) = inj_on (\<lambda>(pd, i). pt_of s pd i) (slots s D)"
    by (rule inj_on_cong) (use P old in auto)
  ultimately have "inj_on (\<lambda>(pd, i). pt_of s' pd i) (slots s' D)"
    using ok unfolding S inj_on_insert dirs_ok_def by auto blast+
  then show "dirs_ok s' D"
    using ok new E nD bd pt(3) F unfolding dirs_ok_def by (auto simp: s'_def)
  assume pd': "pd' \<in> D" and va: "is_user_vaddr va"
  have i': "unat (pd_no va) < 768" using va pd_no_user by simp
  show "pte s' pd' va = (if pd' = pd \<and> unat (pd_no va) = i then Some 0 else pte s pd' va)"
  proof (cases "pd' = pd \<and> unat (pd_no va) = i")
    case True
    have "pd \<noteq> pt" using nD pd by auto
    then have "ent s' pt (unat (pt_no va)) = 0" using E [OF pt_no_less] by auto
    then show ?thesis using True e p entry_nonzero [OF pt(1)] by (simp add: pte_def)
  next
    case False
    have "ent s' pd' (unat (pd_no va)) = ent s pd' (unat (pd_no va))" using False E nD pd' i' by auto
    moreover have "ent s' (pt_of s pd' (unat (pd_no va))) j = ent s (pt_of s pd' (unat (pd_no va))) j"
      if "ent s pd' (unat (pd_no va)) \<noteq> 0" "j < 1024" for j
      using old(1) [of pd' "unat (pd_no va)"] that pd' i' nu pd E by (auto simp: slots_def slot_ok_def)
    ultimately show ?thesis using False P [of pd' "unat (pd_no va)"] pd' i' pt_no_less by (auto simp: pte_def)
  qed
qed

text \<open>What the operations leave alone.\<close>

definition same_regs :: "vmem \<Rightarrow> vmem \<Rightarrow> bool" where
  "same_regs s s' \<longleftrightarrow> base_page_dir s' = base_page_dir s \<and> ram_pages s' = ram_pages s \<and> cr3 s' = cr3 s \<and> tlb s' = tlb s"

definition same_users :: "vmem \<Rightarrow> vmem \<Rightarrow> bool" where
  "same_users s s' \<longleftrightarrow> used_pages (user_pool (phys s')) = used_pages (user_pool (phys s))
     \<and> (\<forall>a \<in> used_pages (user_pool (phys s)). pages (phys s') a = pages (phys s) a)
     \<and> (\<forall>u. pool_pages (get_pool u (phys s')) = pool_pages (get_pool u (phys s)))"

lemma user_not_kernel: "pmem_wf m \<Longrightarrow> a \<in> used_pages (user_pool m) \<Longrightarrow> a \<notin> pool_pages (kernel_pool m)"
  using used_in_pool [of "user_pool m"] by (auto simp: pmem_wf_def)

lemma kused_pool: "kused s \<subseteq> pool_pages (kernel_pool (phys s))"
  by (simp add: kused_def used_in_pool)

lemma set_ent_users:
  assumes "pmem_wf (phys s)" and "a \<in> pool_pages (kernel_pool (phys s))"
  shows "same_users s (set_ent a i w s)"
  using user_not_kernel [OF assms(1)] assms(2)
  by (auto simp: same_users_def get_pool_def intro!: set_ent_pages)

lemma same_users_trans: "same_users s s' \<Longrightarrow> same_users s' s'' \<Longrightarrow> same_users s s''"
  by (auto simp: same_users_def)

lemma lookup_create:
  assumes ok: "dirs_ok s D" and pd: "pd \<in> D" and va: "is_user_vaddr va"
  obtains (full) "lookup_page pd va True s = Some (None, s)" "pte s pd va = None" "kernel_full s"
    | (found) s' where "lookup_page pd va True s = Some (Some (pt_of s' pd (unat (pd_no va)), unat (pt_no va)), s')"
      "dirs_ok s' D" "ent s' pd (unat (pd_no va)) \<noteq> 0" "same_regs s s'" "same_users s s'"
      "\<forall>pd' \<in> D. \<forall>va'. is_user_vaddr va' \<longrightarrow> pte s' pd' va' = pte s pd' va' \<or> pte s pd' va' = None \<and> pte s' pd' va' = Some 0"
proof (cases "ent s pd (unat (pd_no va)) = 0")
  case False
  from lookup_existing [OF ok pd va False, of True] found [of s] ok False show thesis
    by (simp add: same_regs_def same_users_def)
next
  case True
  let ?i = "unat (pd_no va)"
  have wf: "pmem_wf (phys s)" using ok by (simp add: dirs_ok_def)
  have i: "?i < 768" using va pd_no_user by simp
  have pd0: "pd \<noteq> 0" by (rule kused_page(2) [OF ok pd])
  show thesis
  proof (rule palloc_page_spec [OF wf, of PAL_ZERO])
    show "PAL_ZERO AND PAL_ASSERT = 0" by (simp add: PAL_ZERO_def PAL_ASSERT_def)
  next
    assume "palloc_get_page PAL_ZERO (phys s) = Some (0, phys s)" "pool_pages (get_pool (PAL_ZERO AND PAL_USER \<noteq> 0) (phys s)) \<subseteq> used (phys s)"
    moreover from this(2) have "kernel_full s" by (intro kernel_fullI wf) (simp add: PAL_ZERO_def PAL_USER_def)
    ultimately show thesis using True va pd0 full by (simp add: lookup_page_def Let_def pte_def)
  next
    fix pt m assume pt: "palloc_get_page PAL_ZERO (phys s) = Some (pt, m)" "pt \<noteq> 0" "kpage_ok pt" "pt \<notin> used (phys s)"
      "pmem_wf m" "used m = insert pt (used (phys s))" "pt \<in> pool_pages (get_pool (PAL_ZERO AND PAL_USER \<noteq> 0) (phys s))"
      "\<forall>u. pool_pages (get_pool u m) = pool_pages (get_pool u (phys s))"
      "pages m = (if PAL_ZERO AND PAL_ZERO \<noteq> 0 then (pages (phys s))(pt := replicate PGSIZE 0) else pages (phys s))"
    have ptk: "pt \<in> pool_pages (get_pool False (phys s))" using pt(7) by (simp add: PAL_ZERO_def PAL_USER_def)
    note ku = kused_new [OF wf pt(5,6) ptk pt(8)]
    have pm: "pages m = (pages (phys s))(pt := replicate PGSIZE 0)" using pt(9) by (simp add: PAL_ZERO_def)
    define s' where "s' = set_ent pd ?i (pt_entry pt (user_flags True)) (s\<lparr>phys := m\<rparr>)"
    note at = add_table [OF ok pd i True pt(3,4,5) pm ku(1) [folded kused_def], folded s'_def]
    have nz: "ent s' pd ?i \<noteq> 0" using at(2) entry_nonzero [OF pt(3)] by simp
    have "same_users s (s\<lparr>phys := m\<rparr>)"
      using ku(2) pm pt(4,8) by (auto simp: same_users_def used_def)
    moreover have "pd \<in> pool_pages (kernel_pool m)"
      using kused_page(4) [OF ok pd] kused_pool [of s] spec [OF pt(8), of False] by (auto simp: get_pool_def)
    then have "same_users (s\<lparr>phys := m\<rparr>) s'" unfolding s'_def by (intro set_ent_users) (simp_all add: pt(5))
    ultimately have "same_users s s'" by (rule same_users_trans)
    moreover have "lookup_page pd va True s = Some (Some (pt_of s' pd ?i, unat (pt_no va)), s')"
      using True va pd0 pt(1,2,3) at(2,3)
      by (simp add: lookup_page_def Let_def pde_create_eq s'_def [symmetric] pde_get_pt_entry)
    moreover have "pte s' pd' va' = pte s pd' va' \<or> pte s pd' va' = None \<and> pte s' pd' va' = Some 0"
      if "pd' \<in> D" "is_user_vaddr va'" for pd' va'
      using at(4) [OF that] True by (auto simp: pte_def split: if_splits)
    ultimately show thesis using at(1) nz by (intro found) (auto simp: same_regs_def s'_def)
  qed
qed

section \<open>The operations on the map\<close>

text \<open>The present entry for an address, and the entries that the processor has cached: for the active
  directory, only translations to the page that the directory gives.\<close>

definition page_map :: "vmem \<Rightarrow> u32 \<Rightarrow> u32 \<Rightarrow> u32 option" where
  "page_map s pd va = (case pte s pd va of Some w \<Rightarrow> if w AND PTE_P \<noteq> 0 then Some w else None | None \<Rightarrow> None)"

definition tlb_ok :: "vmem \<Rightarrow> u32 set \<Rightarrow> bool" where
  "tlb_ok s D \<longleftrightarrow> (\<forall>pd va w. pd \<in> D \<longrightarrow> active_pd s = Some pd \<longrightarrow> is_user_vaddr va \<longrightarrow> tlb s va = Some w
     \<longrightarrow> (\<exists>w'. page_map s pd va = Some w' \<and> w' AND PTE_ADDR = w AND PTE_ADDR))"

text \<open>The processor caches a translation.\<close>

definition tlb_fill :: "u32 \<Rightarrow> vmem \<Rightarrow> vmem" where
  "tlb_fill va s = (case active_pd s of None \<Rightarrow> s
     | Some pd \<Rightarrow> (case page_map s pd va of None \<Rightarrow> s | Some w \<Rightarrow> s\<lparr>tlb := (tlb s)(va \<mapsto> w)\<rparr>))"

definition vm_ok :: "vmem \<Rightarrow> u32 set \<Rightarrow> bool" where
  "vm_ok s D \<longleftrightarrow> dirs_ok s D \<and> tlb_ok s D"

text \<open>\<open>s'\<close> differs from \<open>s\<close> in the entry of one page of one directory only.\<close>

definition one_page :: "vmem \<Rightarrow> u32 set \<Rightarrow> u32 \<Rightarrow> u32 \<Rightarrow> u32 option \<Rightarrow> vmem \<Rightarrow> bool" where
  "one_page s D pd upage w s' \<longleftrightarrow>
     (\<forall>pd' \<in> D. \<forall>va. is_user_vaddr va \<longrightarrow>
        page_map s' pd' va = (if pd' = pd \<and> pg_round_down va = upage then w else page_map s pd' va))
     \<and> same_users s s' \<and> base_page_dir s' = base_page_dir s \<and> ram_pages s' = ram_pages s \<and> cr3 s' = cr3 s"

lemma tlb_fill_ok: "vm_ok s D \<Longrightarrow> vm_ok (tlb_fill va s) D"
proof -
  assume ok: "vm_ok s D"
  have e: "ent (s\<lparr>tlb := t\<rparr>) = ent s" for t by (simp add: ent_def fun_eq_iff)
  have d: "dirs_ok (s\<lparr>tlb := t\<rparr>) D = dirs_ok s D" "page_map (s\<lparr>tlb := t\<rparr>) = page_map s" for t
    by (simp_all add: dirs_ok_def kused_def slots_def slot_ok_def pt_of_def page_map_def pte_def e fun_eq_iff)
  from ok show ?thesis
    by (auto simp: vm_ok_def tlb_fill_def tlb_ok_def d active_pd_def split: option.splits)
qed

lemma invalidate_active:
  assumes "active_pd s = Some a" and "is_kernel_vaddr pd"
  shows "invalidate_pagedir pd s = Some (if a = pd then s\<lparr>tlb := (\<lambda>_. None)\<rparr> else s)"
proof -
  have "vtop pd = Some (cr3 s)" if "a = pd"
    using assms that by (auto simp: active_pd_def ptov_def kassert_bind vtop_def split: if_splits)
  moreover have "pd \<noteq> 0" using assms(2) by (auto simp: is_kernel_vaddr_def PHYS_BASE_def)
  ultimately show ?thesis using assms(1) by (simp add: invalidate_pagedir_def pagedir_activate_def)
qed

lemma page_map_regs [simp]: "page_map (s\<lparr>tlb := t\<rparr>) = page_map s" "dirs_ok (s\<lparr>tlb := t\<rparr>) D = dirs_ok s D"
proof -
  have e: "ent (s\<lparr>tlb := t\<rparr>) = ent s" by (simp add: ent_def fun_eq_iff)
  show "page_map (s\<lparr>tlb := t\<rparr>) = page_map s" "dirs_ok (s\<lparr>tlb := t\<rparr>) D = dirs_ok s D"
    by (simp_all add: dirs_ok_def kused_def slots_def slot_ok_def pt_of_def page_map_def pte_def e fun_eq_iff)
qed

text \<open>Changing a page table entry keeps the cache valid when the translation stays, or when the cache
  of the directory is emptied.\<close>

lemma tlb_ok_change:
  assumes "tlb_ok s D" and "one_page s D pd upage w s'" and "tlb s' = tlb s \<or> tlb s' = (\<lambda>_. None)"
    and "tlb s' = (\<lambda>_. None) \<or> active_pd s \<noteq> Some pd \<or> pd \<notin> D
      \<or> (\<forall>va w0. is_user_vaddr va \<and> pg_round_down va = upage \<and> page_map s pd va = Some w0
           \<longrightarrow> (\<exists>w1. w = Some w1 \<and> w1 AND PTE_ADDR = w0 AND PTE_ADDR))"
  shows "tlb_ok s' D"
proof (cases "tlb s' = (\<lambda>_. None)")
  case True
  then show ?thesis by (simp add: tlb_ok_def)
next
  case False
  then have t: "tlb s' = tlb s" using assms(3) by simp
  have a: "active_pd s' = active_pd s" using assms(2) by (simp add: active_pd_def one_page_def)
  show ?thesis unfolding tlb_ok_def t a
  proof (intro allI impI)
    fix pd' va w' assume *: "pd' \<in> D" "active_pd s = Some pd'" "is_user_vaddr va" "tlb s va = Some w'"
    then obtain w0 where w0: "page_map s pd' va = Some w0" "w0 AND PTE_ADDR = w' AND PTE_ADDR"
      using assms(1) unfolding tlb_ok_def by blast
    have pm: "page_map s' pd' va = (if pd' = pd \<and> pg_round_down va = upage then w else page_map s pd' va)"
      using assms(2) * by (auto simp: one_page_def)
    show "\<exists>w1. page_map s' pd' va = Some w1 \<and> w1 AND PTE_ADDR = w' AND PTE_ADDR"
    proof (cases "pd' = pd \<and> pg_round_down va = upage")
      case True
      with assms(4) False * w0(1) obtain w1 where "w = Some w1" "w1 AND PTE_ADDR = w0 AND PTE_ADDR" by blast
      with True pm w0(2) show ?thesis by simp
    qed (use pm w0 in auto)
  qed
qed

lemma set_pte_page:
  assumes ok: "dirs_ok s D" and pd: "pd \<in> D" and va: "is_user_vaddr va" and nz: "ent s pd (unat (pd_no va)) \<noteq> 0"
    and e: "e AND PTE_ADDR < PHYS_BASE"
  defines "s' \<equiv> set_ent (pt_of s pd (unat (pd_no va))) (unat (pt_no va)) e s"
  shows "dirs_ok s' D" and "one_page s D pd (pg_round_down va) (if e AND PTE_P \<noteq> 0 then Some e else None) s'" and "tlb s' = tlb s"
proof -
  note sp = set_pte [OF ok pd va nz e, folded s'_def]
  show "dirs_ok s' D" by (rule sp(1))
  show "tlb s' = tlb s" by (simp add: s'_def)
  have "slot_ok s D (pd, unat (pd_no va))" using ok pd nz pd_no_user [of va] va by (auto simp: dirs_ok_def slots_def)
  then have "pt_of s pd (unat (pd_no va)) \<in> pool_pages (kernel_pool (phys s))"
    using kused_pool [of s] by (auto simp: slot_ok_def)
  then have "same_users s s'" unfolding s'_def using ok by (intro set_ent_users) (auto simp: dirs_ok_def)
  then show "one_page s D pd (pg_round_down va) (if e AND PTE_P \<noteq> 0 then Some e else None) s'"
    using sp(2) by (auto simp: one_page_def page_map_def s'_def)
qed

lemma pte_addr_small:
  assumes "dirs_ok s D" and "pd \<in> D" and "is_user_vaddr va" and "pte s pd va = Some w"
  shows "w AND PTE_ADDR < PHYS_BASE" "ent s pd (unat (pd_no va)) \<noteq> 0"
    "ent s (pt_of s pd (unat (pd_no va))) (unat (pt_no va)) = w"
  using assms pd_no_user [of va] pt_no_less [of va] by (auto simp: pte_def dirs_ok_def slots_def slot_ok_def split: if_splits)

lemma pte_missing: "pte s pd va = None \<longleftrightarrow> ent s pd (unat (pd_no va)) = 0"
  by (simp add: pte_def)

lemma get_page_spec:
  assumes "dirs_ok s D" and "pd \<in> D" and "is_user_vaddr va"
  shows "pagedir_get_page pd va s = Some (case page_map s pd va of None \<Rightarrow> 0
     | Some w \<Rightarrow> (w AND PTE_ADDR) + PHYS_BASE + pg_ofs va)"
proof (cases "pte s pd va")
  case None
  then have "ent s pd (unat (pd_no va)) = 0" by (simp only: pte_missing)
  with assms None show ?thesis by (simp add: pagedir_get_page_def lookup_missing page_map_def)
next
  case (Some w)
  note w = pte_addr_small [OF assms Some]
  with assms Some show ?thesis
    by (simp add: pagedir_get_page_def lookup_existing page_map_def pte_get_page_def ptov_def)
qed

lemma test_bit_spec:
  assumes "dirs_ok s D" and "pd \<in> D" and "is_user_vaddr va"
  shows "test_bit bt pd va s = Some (case pte s pd va of None \<Rightarrow> False | Some w \<Rightarrow> w AND bt \<noteq> 0)"
proof (cases "pte s pd va")
  case None
  then have "ent s pd (unat (pd_no va)) = 0" by (simp only: pte_missing)
  with assms None show ?thesis by (simp add: test_bit_def lookup_missing)
next
  case (Some w)
  with assms pte_addr_small [OF assms Some] show ?thesis by (simp add: test_bit_def lookup_existing)
qed

text \<open>Turning a flag on or off, or marking a page not present.\<close>

lemma change_spec:
  assumes ok: "vm_ok s D" and pd: "pd \<in> D" and va: "is_user_vaddr va" and act: "active_pd s = Some a"
    and w: "pte s pd va = Some w" and e: "e AND PTE_ADDR = w AND PTE_ADDR"
    and flush: "invalidate \<or> e AND PTE_P = w AND PTE_P"
  defines "s1 \<equiv> set_ent (pt_of s pd (unat (pd_no va))) (unat (pt_no va)) e s"
  shows "\<exists>s'. (if invalidate then invalidate_pagedir pd s1 else Some s1) = Some s' \<and> vm_ok s' D
     \<and> one_page s D pd (pg_round_down va) (if e AND PTE_P \<noteq> 0 then Some e else None) s' \<and> pte s' pd va = Some e"
proof -
  have d: "dirs_ok s D" and t: "tlb_ok s D" using ok by (auto simp: vm_ok_def)
  note pw = pte_addr_small [OF d pd va w]
  have e1: "e AND PTE_ADDR < PHYS_BASE" using e pw(1) by simp
  note sp = set_pte_page [OF d pd va pw(2) e1, folded s1_def]
  have pe: "pte s1 pd va = Some e" using set_pte(2) [OF d pd va pw(2) e1 pd va] by (simp add: s1_def)
  define s' where "s' = (if invalidate \<and> a = pd then s1\<lparr>tlb := (\<lambda>_. None)\<rparr> else s1)"
  have k: "is_kernel_vaddr pd" using kused_page(1) [OF d pd] by (simp add: kpage_ok_def)
  have "active_pd s1 = Some a" using act by (simp add: active_pd_def s1_def)
  from invalidate_active [OF this k] have run: "(if invalidate then invalidate_pagedir pd s1 else Some s1) = Some s'"
    by (simp add: s'_def)
  have one: "one_page s D pd (pg_round_down va) (if e AND PTE_P \<noteq> 0 then Some e else None) s'"
    using sp(2) by (auto simp: s'_def one_page_def same_users_def)
  have same: "pte s pd va' = Some w" if "is_user_vaddr va'" "pg_round_down va' = pg_round_down va" for va'
    using w page_indices [of va' va] that by (auto simp: pte_def split: if_splits)
  have "tlb_ok s' D"
    by (rule tlb_ok_change [OF t one])
      (use sp(3) flush act e same in \<open>auto simp: s'_def page_map_def split: if_splits\<close>)
  moreover have "dirs_ok s' D" "pte s' pd va = Some e" using sp(1) pe by (auto simp: s'_def pte_def pt_of_def ent_def)
  ultimately show ?thesis using run one by (auto simp: vm_ok_def)
qed

lemma one_page_refl: "page_map s pd upage = w \<Longrightarrow> (\<And>va. pg_round_down va = upage \<Longrightarrow> page_map s pd va = page_map s pd upage)
    \<Longrightarrow> one_page s D pd upage w s"
  by (auto simp: one_page_def same_users_def)

lemma page_map_page: "pg_ofs upage = 0 \<Longrightarrow> pg_round_down va = upage \<Longrightarrow> page_map s pd va = page_map s pd upage"
  using page_indices [of va upage] pg_round_down_id [of upage] by (auto simp: page_map_def pte_def)

lemma set_page_spec:
  assumes ok: "vm_ok s D" and pd: "pd \<in> D" and up: "is_user_vaddr upage" "pg_ofs upage = 0"
    and kp: "kpage_ok kpage" "drop_bit PTSHIFT (kpage - PHYS_BASE) < ram_pages s" and free: "page_map s pd upage = None"
  shows "\<exists>b s'. pagedir_set_page pd upage kpage writable s = Some (b, s') \<and> vm_ok s' D
     \<and> one_page s D pd upage (if b then Some (pt_entry kpage (user_flags writable)) else None) s'
     \<and> (\<not> b \<longrightarrow> s' = s \<and> kernel_full s)"
proof -
  have d: "dirs_ok s D" and t: "tlb_ok s D" using ok by (auto simp: vm_ok_def)
  have pre: "pg_ofs kpage = 0" "vtop kpage = Some (kpage - PHYS_BASE)" "pd \<noteq> base_page_dir s"
    using kp(1) vtop_kernel kused_page(3) [OF d pd] by (auto simp: kpage_ok_def)
  show ?thesis
  proof (rule lookup_create [OF d pd up(1)])
    assume "lookup_page pd upage True s = Some (None, s)" and kf: "kernel_full s"
    then have "pagedir_set_page pd upage kpage writable s = Some (False, s)"
      using up kp pre by (simp add: pagedir_set_page_def)
    then show ?thesis using ok kf one_page_refl [OF free page_map_page] up(2) by auto
  next
    fix s1 assume s1: "lookup_page pd upage True s = Some (Some (pt_of s1 pd (unat (pd_no upage)), unat (pt_no upage)), s1)"
      "dirs_ok s1 D" "ent s1 pd (unat (pd_no upage)) \<noteq> 0" "same_regs s s1" "same_users s s1"
      "\<forall>pd' \<in> D. \<forall>va'. is_user_vaddr va' \<longrightarrow> pte s1 pd' va' = pte s pd' va' \<or> pte s pd' va' = None \<and> pte s1 pd' va' = Some 0"
    have pm: "page_map s1 pd' va' = page_map s pd' va'" if "pd' \<in> D" "is_user_vaddr va'" for pd' va'
      using bspec [OF s1(6) that(1)] that(2) by (auto simp: page_map_def)
    define e where "e = pt_entry kpage (user_flags writable)"
    have e: "e AND PTE_ADDR < PHYS_BASE" "e AND PTE_P \<noteq> 0"
      using kp(1) phys_less [of kpage] by (auto simp: e_def entry_addr kpage_ok_def entry_flag_bits PTE_P_nonzero)
    define s' where "s' = set_ent (pt_of s1 pd (unat (pd_no upage))) (unat (pt_no upage)) e s1"
    note sp = set_pte_page [OF s1(2) pd up(1) s1(3) e(1), folded s'_def]
    have np: "ent s1 (pt_of s1 pd (unat (pd_no upage))) (unat (pt_no upage)) AND PTE_P = 0"
      using pm [OF pd up(1)] free s1(3) by (simp add: page_map_def pte_def split: if_splits)
    have run: "pagedir_set_page pd upage kpage writable s = Some (True, s')"
      using up kp pre s1(1) np by (simp add: pagedir_set_page_def pte_create_user_eq s'_def e_def)
    have "pg_round_down upage = upage" by (rule pg_round_down_id [OF up(2)])
    then have one: "one_page s D pd upage (Some e) s'"
      using sp(2) pm e(2) s1(4) same_users_trans [OF s1(5)] by (auto simp: one_page_def same_regs_def)
    have "tlb s' = tlb s" using sp(3) s1(4) by (simp add: same_regs_def)
    then have "tlb_ok s' D"
      using free page_map_page [OF up(2)] by (intro tlb_ok_change [OF t one]) auto
    with run one sp(1) show ?thesis by (auto simp: vm_ok_def e_def)
  qed
qed

lemma clear_page_spec:
  assumes ok: "vm_ok s D" and pd: "pd \<in> D" and up: "is_user_vaddr upage" "pg_ofs upage = 0" and act: "active_pd s = Some a"
  shows "\<exists>s'. pagedir_clear_page pd upage s = Some s' \<and> vm_ok s' D \<and> one_page s D pd upage None s'"
proof -
  have d: "dirs_ok s D" using ok by (simp add: vm_ok_def)
  have id: "pg_round_down upage = upage" by (rule pg_round_down_id [OF up(2)])
  show ?thesis
  proof (cases "page_map s pd upage")
    case None
    have "pagedir_clear_page pd upage s = Some s"
    proof (cases "pte s pd upage")
      case n: None
      then have "ent s pd (unat (pd_no upage)) = 0" by (simp only: pte_missing)
      with up d pd show ?thesis by (simp add: pagedir_clear_page_def lookup_missing)
    next
      case (Some w)
      with None pte_addr_small [OF d pd up(1) Some] up d pd show ?thesis
        by (simp add: pagedir_clear_page_def lookup_existing page_map_def split: if_splits)
    qed
    then show ?thesis using ok one_page_refl [OF None page_map_page] up(2) by auto
  next
    case (Some w)
    then have w: "pte s pd upage = Some w" "w AND PTE_P \<noteq> 0" by (auto simp: page_map_def split: option.splits if_splits)
    have e: "(w AND NOT PTE_P) AND PTE_ADDR = w AND PTE_ADDR" by (rule flag_bits_addr(2)) simp
    have np: "(w AND NOT PTE_P) AND PTE_P = 0" by (simp add: and.assoc)
    from change_spec [OF ok pd up(1) act w(1) e, of True] np pte_addr_small [OF d pd up(1) w(1)] w(2) up d pd
    show ?thesis by (auto simp: pagedir_clear_page_def lookup_existing id)
  qed
qed

lemma change_bit_spec:
  assumes ok: "vm_ok s D" and pd: "pd \<in> D" and up: "is_user_vaddr upage" "pg_ofs upage = 0" and act: "active_pd s = Some a"
    and b: "flag_bits bt" "bt AND PTE_P = 0"
  shows "\<exists>s'. change_bit bt pd upage on s = Some s' \<and> vm_ok s' D
     \<and> one_page s D pd upage (map_option (\<lambda>w. if on then w OR bt else w AND NOT bt) (page_map s pd upage)) s'"
proof -
  have d: "dirs_ok s D" using ok by (simp add: vm_ok_def)
  have id: "pg_round_down upage = upage" by (rule pg_round_down_id [OF up(2)])
  show ?thesis
  proof (cases "pte s pd upage")
    case None
    then have "ent s pd (unat (pd_no upage)) = 0" by (simp only: pte_missing)
    with up d pd have "change_bit bt pd upage on s = Some s" by (simp add: change_bit_def lookup_missing)
    moreover from None have "page_map s pd upage = None" by (simp add: page_map_def)
    ultimately show ?thesis using ok one_page_refl [of s pd upage None, OF _ page_map_page] up(2) by auto
  next
    case (Some w)
    define e where "e = (if on then w OR bt else w AND NOT bt)"
    have ea: "e AND PTE_ADDR = w AND PTE_ADDR" using flag_bits_addr [OF b(1)] by (simp add: e_def)
    have "NOT bt AND PTE_P = PTE_P"
    proof (rule bit_word_eqI)
      fix n assume n: "n < LENGTH(32)"
      from b(2) have "\<not> bit (bt AND PTE_P) n" by simp
      then show "bit (NOT bt AND PTE_P) n = bit PTE_P n" using n by (auto simp: bit_simps)
    qed
    then have ep: "e AND PTE_P = w AND PTE_P" using b(2) by (simp add: e_def bit.conj_disj_distrib2 and.assoc)
    note pa = pte_addr_small [OF d pd up(1) Some]
    have "change_bit bt pd upage on s = (if \<not> on then invalidate_pagedir pd (set_ent (pt_of s pd (unat (pd_no upage))) (unat (pt_no upage)) e s)
        else Some (set_ent (pt_of s pd (unat (pd_no upage))) (unat (pt_no upage)) e s))"
      using up d pd pa by (simp add: change_bit_def lookup_existing e_def)
    moreover have "(if e AND PTE_P \<noteq> 0 then Some e else None) = map_option (\<lambda>w. if on then w OR bt else w AND NOT bt) (page_map s pd upage)"
      using Some ep by (simp add: page_map_def e_def)
    ultimately show ?thesis using change_spec [OF ok pd up(1) act Some ea, of "\<not> on"] ep id by auto
  qed
qed

section \<open>Creation\<close>

lemma create_spec:
  assumes ok: "vm_ok s D" and act: "active_pd s = Some a" "a \<in> insert (base_page_dir s) D"
  shows "\<exists>pd s'. pagedir_create s = Some (pd, s') \<and>
     (if pd = 0 then s' = s
      else pd \<notin> insert (base_page_dir s) D \<and> vm_ok s' (insert pd D) \<and> (\<forall>va. is_user_vaddr va \<longrightarrow> page_map s' pd va = None)
        \<and> (\<forall>pd' \<in> D. \<forall>va. is_user_vaddr va \<longrightarrow> page_map s' pd' va = page_map s pd' va) \<and> same_regs s s' \<and> same_users s s')"
proof -
  have d: "dirs_ok s D" and t: "tlb_ok s D" using ok by (auto simp: vm_ok_def)
  have wf: "pmem_wf (phys s)" using d by (simp add: dirs_ok_def)
  show ?thesis
  proof (rule palloc_page_spec [OF wf, of 0])
    show "0 AND PAL_ASSERT = 0" by simp
  next
    assume "palloc_get_page 0 (phys s) = Some (0, phys s)"
    then show ?thesis by (simp add: pagedir_create_def)
  next
    fix pd m assume pd: "palloc_get_page 0 (phys s) = Some (pd, m)" "pd \<noteq> 0" "kpage_ok pd" "pd \<notin> used (phys s)"
      "pmem_wf m" "used m = insert pd (used (phys s))" "pd \<in> pool_pages (get_pool (0 AND PAL_USER \<noteq> 0) (phys s))"
      "\<forall>u. pool_pages (get_pool u m) = pool_pages (get_pool u (phys s))"
      "pages m = (if 0 AND PAL_ZERO \<noteq> 0 then (pages (phys s))(pd := replicate PGSIZE 0) else pages (phys s))"
    have pk: "pd \<in> pool_pages (get_pool False (phys s))" using pd(7) by simp
    note ku = kused_new [OF wf pd(5,6) pk pd(8)]
    define s' where "s' = s\<lparr>phys := m\<lparr>pages := (pages m)(pd := pages m (base_page_dir s))\<rparr>\<rparr>"
    have run: "pagedir_create s = Some (pd, s')" using pd(1,2) by (simp add: pagedir_create_def s'_def)
    have nu: "pd \<notin> kused s" using pd(4) by (auto simp: kused_def used_def)
    have new: "pd \<notin> insert (base_page_dir s) D" using nu d by (auto simp: dirs_ok_def)
    have E: "ent s' b k = (if b = pd then ent s (base_page_dir s) k else ent s b k)" for b k
      using pd(9) by (simp add: s'_def ent_def)
    have P: "pt_of s' b k = pt_of s b k" if "b \<in> D" for b k using E new that by (auto simp: pt_of_def)
    have base: "ent s (base_page_dir s) k = 0" if "k < 768" for k using d that by (simp add: dirs_ok_def)
    have S: "slots s' (insert pd D) = slots s D" using E base new by (auto simp: slots_def)
    have F: "base_page_dir s' = base_page_dir s" "kused s' = insert pd (kused s)" using ku(1) by (auto simp: s'_def kused_def)
    have so: "slot_ok s' (insert pd D) x" if xs: "x \<in> slots s D" for x
    proof -
      obtain b k where x: "x = (b, k)" "slot_ok s D (b, k)" "b \<in> D"
        using xs d by (cases x) (auto simp: dirs_ok_def slots_def)
      have "pt_of s b k \<noteq> pd" "b \<noteq> pd" using x nu new by (auto simp: slot_ok_def)
      then show ?thesis using x E P F by (auto simp: slot_ok_def)
    qed
    have "inj_on (\<lambda>(b, k). pt_of s' b k) (slots s D) = inj_on (\<lambda>(b, k). pt_of s b k) (slots s D)"
      by (rule inj_on_cong) (auto simp: slots_def P)
    moreover have "pmem_wf (phys s')" using pd(5) by (simp add: s'_def pmem_wf_def)
    ultimately have d': "dirs_ok s' (insert pd D)"
      using d so new base E F unfolding dirs_ok_def S by auto
    have pm: "page_map s' pd va = None" "pd' \<in> D \<Longrightarrow> page_map s' pd' va = page_map s pd' va"
      if va: "is_user_vaddr va" for va pd'
    proof -
      have "unat (pd_no va) < 768" using va pd_no_user by simp
      then show "page_map s' pd va = None" using E base by (simp add: page_map_def pte_def)
      assume p: "pd' \<in> D"
      have "pt_of s pd' (unat (pd_no va)) \<noteq> pd" if "ent s pd' (unat (pd_no va)) \<noteq> 0"
        using d p that \<open>unat (pd_no va) < 768\<close> nu by (auto simp: dirs_ok_def slots_def slot_ok_def)
      then show "page_map s' pd' va = page_map s pd' va"
        using E P p new by (auto simp: page_map_def pte_def)
    qed
    have regs: "same_regs s s'" by (simp add: s'_def same_regs_def)
    have "tlb_ok s' (insert pd D)"
      using t act new pm(2) unfolding tlb_ok_def active_pd_def by (auto simp: s'_def)
    moreover have "same_users s s'"
      using ku(2) pd(4,8,9) by (auto simp: same_users_def s'_def used_def)
    ultimately show ?thesis using run new d' pm regs pd(2) by (auto simp: vm_ok_def)
  qed
qed

section \<open>Destruction\<close>

text \<open>\<open>freed s X s'\<close>: the pages \<open>X\<close> were in use in \<open>s\<close> and are given back in \<open>s'\<close>; other pages keep their contents.\<close>

definition freed :: "vmem \<Rightarrow> u32 set \<Rightarrow> vmem \<Rightarrow> bool" where
  "freed s X s' \<longleftrightarrow> pmem_wf (phys s') \<and> X \<subseteq> used (phys s) \<and> used (phys s') = used (phys s) - X
     \<and> (\<forall>a. a \<notin> X \<longrightarrow> pages (phys s') a = pages (phys s) a)
     \<and> (\<forall>u. pool_pages (get_pool u (phys s')) = pool_pages (get_pool u (phys s))) \<and> same_regs s s'"

lemma freed_refl: "pmem_wf (phys s) \<Longrightarrow> freed s {} s"
  by (simp add: freed_def same_regs_def)

lemma freed_trans: "freed s X s1 \<Longrightarrow> freed s1 Y s2 \<Longrightarrow> freed s (X \<union> Y) s2"
  by (auto simp: freed_def same_regs_def)

lemma freed_ent: "freed s X s' \<Longrightarrow> a \<notin> X \<Longrightarrow> ent s' a k = ent s a k"
  by (simp add: freed_def ent_def)

lemma free_page_at_spec:
  assumes "pmem_wf (phys s)" and "a \<in> used (phys s)"
  shows "\<exists>s'. free_page_at a s = Some s' \<and> freed s {a} s'"
proof -
  from assms(2) obtain u where "run_pages a 1 \<subseteq> used_pages (get_pool u (phys s))" by (auto simp: used_alt)
  from palloc_free_spec [OF assms(1) this] obtain m where m: "palloc_free_multiple a 1 (phys s) = Some m" "pmem_wf m"
    "used m = used (phys s) - run_pages a 1" "pages m = fill_pages (pages (phys s)) a 1 0xcc"
    "\<forall>v. pool_pages (get_pool v m) = pool_pages (get_pool v (phys s))" by auto
  then show ?thesis
    using assms(2) by (auto simp: free_page_at_def palloc_free_page_def freed_def same_regs_def fill_pages_eq)
qed

definition frame_of :: "u32 \<Rightarrow> u32" where
  "frame_of w = (w AND PTE_ADDR) + PHYS_BASE"

definition table_frames :: "vmem \<Rightarrow> u32 \<Rightarrow> nat set \<Rightarrow> u32 set" where
  "table_frames s pt J = {frame_of (ent s pt j) |j. j \<in> J \<and> ent s pt j AND PTE_P \<noteq> 0}"

lemma destroy_ptes_spec:
  assumes "pmem_wf (phys s)" and "pt \<notin> table_frames s pt (set js)" and "table_frames s pt (set js) \<subseteq> used (phys s)"
    and "distinct js" and "inj_on (\<lambda>j. frame_of (ent s pt j)) {j \<in> set js. ent s pt j AND PTE_P \<noteq> 0}"
    and "\<forall>j \<in> set js. ent s pt j AND PTE_ADDR < PHYS_BASE"
  shows "\<exists>s'. destroy_ptes pt js s = Some s' \<and> freed s (table_frames s pt (set js)) s'"
  using assms
proof (induction js arbitrary: s)
  case Nil
  then show ?case by (simp add: table_frames_def freed_refl)
next
  case (Cons j js)
  show ?case
  proof (cases "ent s pt j AND PTE_P = 0")
    case True
    then have "table_frames s pt (set (j # js)) = table_frames s pt (set js)" by (auto simp: table_frames_def)
    moreover have "inj_on (\<lambda>j. frame_of (ent s pt j)) {j \<in> set js. ent s pt j AND PTE_P \<noteq> 0}"
      using Cons.prems(5) by (rule inj_on_subset) auto
    ultimately show ?thesis using Cons True by simp
  next
    case False
    let ?f = "frame_of (ent s pt j)"
    have tf: "table_frames s pt (set (j # js)) = insert ?f (table_frames s pt (set js))"
      using False by (auto simp: table_frames_def)
    have "?f \<in> used (phys s)" using Cons.prems(3) tf by auto
    from free_page_at_spec [OF Cons.prems(1) this] obtain s1 where s1: "free_page_at ?f s = Some s1" "freed s {?f} s1" by blast
    have ptf: "pt \<noteq> ?f" using Cons.prems(2) tf by auto
    have E: "ent s1 pt k = ent s pt k" for k using freed_ent [OF s1(2)] ptf by simp
    have same: "table_frames s1 pt (set js) = table_frames s pt (set js)" by (simp add: table_frames_def E)
    have nf: "?f \<notin> table_frames s pt (set js)"
    proof
      assume "?f \<in> table_frames s pt (set js)"
      then obtain k where "k \<in> set js" "ent s pt k AND PTE_P \<noteq> 0" "?f = frame_of (ent s pt k)" by (auto simp: table_frames_def)
      moreover from this have "j = k" using inj_onD [OF Cons.prems(5), of j k] False by simp
      ultimately show False using Cons.prems(4) by simp
    qed
    have "table_frames s pt (set js) \<subseteq> used (phys s1)"
      using s1(2) Cons.prems(3) tf nf by (auto simp: freed_def)
    moreover have "inj_on (\<lambda>j. frame_of (ent s pt j)) {j \<in> set js. ent s pt j AND PTE_P \<noteq> 0}"
      using Cons.prems(5) by (rule inj_on_subset) auto
    ultimately obtain s2 where s2: "destroy_ptes pt js s1 = Some s2" "freed s1 (table_frames s pt (set js)) s2"
      using Cons.IH [of s1] s1(2) Cons.prems tf unfolding same E by (auto simp: freed_def)
    have "pte_get_page (ent s pt j) = Some ?f"
      using Cons.prems(6) by (simp add: pte_get_page_def ptov_def frame_of_def)
    then show ?thesis
      using False s1(1) s2(1) freed_trans [OF s1(2) s2(2)] by (simp add: tf [simplified])
  qed
qed

text \<open>The pages of a slot of a directory: its page table and the frames mapped there.\<close>

definition slot_pages :: "vmem \<Rightarrow> u32 \<Rightarrow> nat \<Rightarrow> u32 set" where
  "slot_pages s pd i = (if ent s pd i = 0 then {}
     else insert (pt_of s pd i) (table_frames s (pt_of s pd i) {0..<1024}))"

definition slot_owns :: "vmem \<Rightarrow> u32 \<Rightarrow> nat \<Rightarrow> bool" where
  "slot_owns s pd i \<longleftrightarrow> ent s pd i = 0
     \<or> ent s pd i = pt_entry (pt_of s pd i) (user_flags True) \<and> kpage_ok (pt_of s pd i)
       \<and> pt_of s pd i \<notin> table_frames s (pt_of s pd i) {0..<1024} \<and> slot_pages s pd i \<subseteq> used (phys s)
       \<and> inj_on (\<lambda>j. frame_of (ent s (pt_of s pd i) j)) {j \<in> {0..<1024}. ent s (pt_of s pd i) j AND PTE_P \<noteq> 0}
       \<and> (\<forall>j < 1024. ent s (pt_of s pd i) j AND PTE_ADDR < PHYS_BASE)"

lemma slot_frame:
  assumes "freed s X s1" and "pd \<notin> X" and "slot_pages s pd k \<inter> X = {}"
  shows "ent s1 pd k = ent s pd k" "slot_pages s1 pd k = slot_pages s pd k" "slot_owns s pd k \<Longrightarrow> slot_owns s1 pd k"
proof -
  show e: "ent s1 pd k = ent s pd k" by (rule freed_ent [OF assms(1,2)])
  then have p: "pt_of s1 pd k = pt_of s pd k" by (simp add: pt_of_def)
  have t: "ent s1 (pt_of s pd k) j = ent s (pt_of s pd k) j" if "ent s pd k \<noteq> 0" for j
    using freed_ent [OF assms(1)] assms(3) that by (auto simp: slot_pages_def)
  show sp: "slot_pages s1 pd k = slot_pages s pd k"
    by (auto simp: slot_pages_def e p table_frames_def t)
  assume "slot_owns s pd k"
  moreover have "slot_pages s pd k \<subseteq> used (phys s1)" if "slot_pages s pd k \<subseteq> used (phys s)"
    using assms(1,3) that by (auto simp: freed_def)
  ultimately show "slot_owns s1 pd k"
    by (cases "ent s pd k = 0") (simp_all add: slot_owns_def sp e p t table_frames_def)
qed

lemma destroy_slot:
  assumes "pmem_wf (phys s)" and "slot_owns s pd i"
  shows "\<exists>s'. (if ent s pd i AND PTE_P \<noteq> 0 then do {
              pt \<leftarrow> pde_get_pt (ent s pd i);
              s2 \<leftarrow> destroy_ptes pt [0..<PGSIZE div 4] s;
              free_page_at pt s2 }
            else Some s) = Some s' \<and> freed s (slot_pages s pd i) s'"
proof (cases "ent s pd i = 0")
  case True
  then show ?thesis using assms(1) by (simp add: slot_pages_def freed_refl)
next
  case False
  let ?pt = "pt_of s pd i"
  have o: "ent s pd i = pt_entry ?pt (user_flags True)" "kpage_ok ?pt" "?pt \<notin> table_frames s ?pt {0..<1024}"
    "slot_pages s pd i \<subseteq> used (phys s)" "\<forall>j < 1024. ent s ?pt j AND PTE_ADDR < PHYS_BASE"
    "inj_on (\<lambda>j. frame_of (ent s ?pt j)) {j \<in> {0..<1024}. ent s ?pt j AND PTE_P \<noteq> 0}"
    using assms(2) False by (auto simp: slot_owns_def)
  have pg: "PGSIZE div 4 = 1024" by (simp add: PGSIZE_def)
  have "\<exists>s2. destroy_ptes ?pt [0..<1024] s = Some s2 \<and> freed s (table_frames s ?pt {0..<1024}) s2"
    using destroy_ptes_spec [OF assms(1), of ?pt "[0..<1024]"] o(3-6) False by (simp add: slot_pages_def)
  then obtain s2 where s2: "destroy_ptes ?pt [0..<1024] s = Some s2" "freed s (table_frames s ?pt {0..<1024}) s2" by blast
  have "?pt \<in> used (phys s2)" using s2(2) o(3,4) False by (auto simp: freed_def slot_pages_def)
  moreover have "pmem_wf (phys s2)" using s2(2) by (simp add: freed_def)
  ultimately obtain s3 where s3: "free_page_at ?pt s2 = Some s3" "freed s2 {?pt} s3" using free_page_at_spec by blast
  have "ent s pd i AND PTE_P \<noteq> 0" using o(1) entry_flag_bits(1) [OF o(2)] PTE_P_nonzero by (metis user_flags(2))
  moreover have "pde_get_pt (ent s pd i) = Some ?pt" using o(1) pde_get_pt_entry [OF o(2)] by simp
  moreover have "freed s (slot_pages s pd i) s3"
    using freed_trans [OF s2(2) s3(2)] False by (simp add: slot_pages_def)
  ultimately show ?thesis using s2(1) s3(1) by (simp add: pg)
qed

lemma destroy_pdes_spec:
  assumes "pmem_wf (phys s)" and "\<forall>i \<in> set is. slot_owns s pd i \<and> pd \<notin> slot_pages s pd i" and "distinct is"
    and "\<forall>i \<in> set is. \<forall>k \<in> set is. i \<noteq> k \<longrightarrow> slot_pages s pd i \<inter> slot_pages s pd k = {}"
  shows "\<exists>s'. destroy_pdes pd is s = Some s' \<and> freed s (\<Union>i \<in> set is. slot_pages s pd i) s'"
  using assms
proof (induction "is" arbitrary: s)
  case Nil
  then show ?case by (simp add: freed_refl)
next
  case (Cons i "is")
  from destroy_slot [OF Cons.prems(1), of pd i] Cons.prems(2) obtain s1 where
    s1: "(if ent s pd i AND PTE_P \<noteq> 0 then do {
              pt \<leftarrow> pde_get_pt (ent s pd i);
              s2 \<leftarrow> destroy_ptes pt [0..<PGSIZE div 4] s;
              free_page_at pt s2 }
            else Some s) = Some s1" "freed s (slot_pages s pd i) s1" by auto
  have fr: "slot_pages s1 pd k = slot_pages s pd k" "slot_owns s1 pd k" if "k \<in> set is" for k
  proof -
    have "slot_pages s pd k \<inter> slot_pages s pd i = {}" using Cons.prems(3,4) that by auto
    from slot_frame [OF s1(2) _ this] Cons.prems(2) that
    show "slot_pages s1 pd k = slot_pages s pd k" "slot_owns s1 pd k" by auto
  qed
  have "pmem_wf (phys s1)" using s1(2) by (simp add: freed_def)
  from Cons.IH [OF this] fr Cons.prems(2-4) obtain s2 where
    "destroy_pdes pd is s1 = Some s2" "freed s1 (\<Union>i \<in> set is. slot_pages s pd i) s2" by auto
  then show ?case using freed_trans [OF s1(2)] by (simp add: s1(1))
qed

text \<open>The frames of a directory belong to it: they are pages of the user pool, each mapped once.\<close>

definition owns_frames :: "vmem \<Rightarrow> u32 \<Rightarrow> bool" where
  "owns_frames s pd \<longleftrightarrow> (\<forall>va w. is_user_vaddr va \<longrightarrow> page_map s pd va = Some w \<longrightarrow>
     frame_of w \<in> used_pages (user_pool (phys s))
     \<and> (\<forall>va' w'. is_user_vaddr va' \<longrightarrow> page_map s pd va' = Some w' \<longrightarrow> frame_of w' = frame_of w
          \<longrightarrow> pg_round_down va' = pg_round_down va))"

definition va_of :: "nat \<Rightarrow> nat \<Rightarrow> u32" where
  "va_of i j = of_nat (i * 4194304 + j * 4096)"

lemma va_of:
  assumes "i < 768" and "j < 1024"
  shows "unat (pd_no (va_of i j)) = i" "unat (pt_no (va_of i j)) = j" "is_user_vaddr (va_of i j)"
proof -
  have "i * 4194304 + j * 4096 < 4294967296" using assms by linarith
  then have u: "unat (va_of i j) = i * 4194304 + j * 4096"
    by (simp add: va_of_def unsigned_of_nat take_bit_nat_eq_self del: of_nat_add of_nat_mult)
  show p: "unat (pd_no (va_of i j)) = i" using assms by (simp add: unat_pd_no u)
  have "i * 4194304 + j * 4096 = (i * 1024 + j) * 4096" by simp
  then show "unat (pt_no (va_of i j)) = j" using assms by (simp add: unat_pt_no u)
  show "is_user_vaddr (va_of i j)" using assms p pd_no_user by simp
qed

lemma page_map_slot:
  "i < 768 \<Longrightarrow> j < 1024 \<Longrightarrow> page_map s pd (va_of i j)
     = (if ent s pd i \<noteq> 0 \<and> ent s (pt_of s pd i) j AND PTE_P \<noteq> 0 then Some (ent s (pt_of s pd i) j) else None)"
  by (simp add: page_map_def pte_def va_of)

lemma va_of_page:
  assumes "i < 768" "j < 1024" "i' < 768" "j' < 1024" "pg_round_down (va_of i j) = pg_round_down (va_of i' j')"
  shows "i = i' \<and> j = j'"
  using page_indices [of "va_of i j" "va_of i' j'"] assms va_of by metis

lemma owned_slots:
  assumes ok: "dirs_ok s D" and pd: "pd \<in> D" and own: "owns_frames s pd" and i: "i < 768"
  shows "slot_owns s pd i" "pd \<notin> slot_pages s pd i"
    "\<And>k. k < 768 \<Longrightarrow> k \<noteq> i \<Longrightarrow> slot_pages s pd i \<inter> slot_pages s pd k = {}"
    "\<And>a. a \<in> slot_pages s pd i \<Longrightarrow> a \<in> used_pages (user_pool (phys s)) \<or> ent s pd i \<noteq> 0 \<and> a = pt_of s pd i"
proof -
  have tf: "a \<in> used_pages (user_pool (phys s))" if "a \<in> table_frames s (pt_of s pd k) {0..<1024}" "k < 768" "ent s pd k \<noteq> 0" for a k
    using that own va_of page_map_slot [of k _ s pd] unfolding table_frames_def owns_frames_def by fastforce
  have wf: "pmem_wf (phys s)" using ok by (simp add: dirs_ok_def)
  have kp: "a \<notin> used_pages (user_pool (phys s))" if "a \<in> kused s" for a
    using that user_not_kernel [OF wf] kused_pool by blast
  have so: "slot_ok s D (pd, k)" if "k < 768" "ent s pd k \<noteq> 0" for k
    using ok pd that by (auto simp: dirs_ok_def slots_def)
  show sub: "a \<in> used_pages (user_pool (phys s)) \<or> ent s pd i \<noteq> 0 \<and> a = pt_of s pd i" if "a \<in> slot_pages s pd i" for a
    using that tf [OF _ i] by (auto simp: slot_pages_def split: if_splits)
  have frm: "frame_of (ent s (pt_of s pd k) j) \<noteq> frame_of (ent s (pt_of s pd k') j')"
    if "k < 768" "k' < 768" "j < 1024" "j' < 1024" "(k, j) \<noteq> (k', j')" "ent s pd k \<noteq> 0" "ent s pd k' \<noteq> 0"
      "ent s (pt_of s pd k) j AND PTE_P \<noteq> 0" "ent s (pt_of s pd k') j' AND PTE_P \<noteq> 0" for k k' j j'
  proof
    assume "frame_of (ent s (pt_of s pd k) j) = frame_of (ent s (pt_of s pd k') j')"
    then have "pg_round_down (va_of k j) = pg_round_down (va_of k' j')"
      using own that page_map_slot [of k j s pd] page_map_slot [of k' j' s pd] va_of unfolding owns_frames_def by auto
    with va_of_page that show False by blast
  qed
  show "slot_owns s pd i"
  proof (cases "ent s pd i = 0")
    case False
    have "slot_pages s pd i \<subseteq> used (phys s)"
      using sub so [OF i False] by (auto simp: used_def slot_ok_def kused_def)
    moreover have "pt_of s pd i \<notin> table_frames s (pt_of s pd i) {0..<1024}"
      using tf [OF _ i False] kp so [OF i False] by (auto simp: slot_ok_def)
    moreover have "inj_on (\<lambda>j. frame_of (ent s (pt_of s pd i) j)) {j \<in> {0..<1024}. ent s (pt_of s pd i) j AND PTE_P \<noteq> 0}"
      using frm [OF i i _ _ _ False False] by (intro inj_onI) auto
    ultimately show ?thesis using so [OF i False] by (simp add: slot_owns_def slot_ok_def)
  qed (simp add: slot_owns_def)
  show "pd \<notin> slot_pages s pd i"
    using sub [of pd] kp [OF kused_page(4) [OF ok pd]] so [OF i] pd by (auto simp: slot_ok_def)
  fix k assume k: "k < 768" "k \<noteq> i"
  show "slot_pages s pd i \<inter> slot_pages s pd k = {}"
  proof (cases "ent s pd i = 0 \<or> ent s pd k = 0")
    case False
    then have z: "ent s pd i \<noteq> 0" "ent s pd k \<noteq> 0" by auto
    have "pt_of s pd i \<noteq> pt_of s pd k"
      using ok pd i k z inj_onD [of "\<lambda>(pd, i). pt_of s pd i" "slots s D" "(pd, i)" "(pd, k)"]
      by (auto simp: dirs_ok_def slots_def)
    moreover have "pt_of s pd i \<notin> table_frames s (pt_of s pd k) {0..<1024}" "pt_of s pd k \<notin> table_frames s (pt_of s pd i) {0..<1024}"
      using tf [OF _ i z(1)] tf [OF _ k(1) z(2)] kp so [OF i z(1)] so [OF k(1) z(2)] by (auto simp: slot_ok_def)
    moreover have "table_frames s (pt_of s pd i) {0..<1024} \<inter> table_frames s (pt_of s pd k) {0..<1024} = {}"
      using frm [OF i k(1) _ _ _ z] k(2) by (fastforce simp: table_frames_def)
    ultimately show ?thesis using z by (auto simp: slot_pages_def)
  qed (auto simp: slot_pages_def)
qed

text \<open>The pages of a directory: itself, its page tables and the frames it maps.\<close>

definition dir_pages :: "vmem \<Rightarrow> u32 \<Rightarrow> u32 set" where
  "dir_pages s pd = insert pd (\<Union>i \<in> {0..<768}. slot_pages s pd i)"

lemma pd_no_PHYS_BASE: "unat (pd_no PHYS_BASE) = 768"
  by (simp add: unat_pd_no PHYS_BASE_def)

lemma destroy_freed:
  assumes ok: "dirs_ok s D" and pd: "pd \<in> D" and own: "owns_frames s pd"
  shows "\<exists>s'. pagedir_destroy pd s = Some s' \<and> freed s (dir_pages s pd) s'"
proof -
  note os = owned_slots [OF ok pd own]
  have wf: "pmem_wf (phys s)" using ok by (simp add: dirs_ok_def)
  have "\<exists>s1. destroy_pdes pd [0..<768] s = Some s1 \<and> freed s (\<Union>i \<in> set [0..<768]. slot_pages s pd i) s1"
    by (rule destroy_pdes_spec [OF wf]) (use os in auto)
  then obtain s1 where s1: "destroy_pdes pd [0..<768] s = Some s1" "freed s (\<Union>i \<in> {0..<768}. slot_pages s pd i) s1" by auto
  have "pd \<in> used (phys s1)"
    using s1(2) kused_page(4) [OF ok pd] os(2) by (auto simp: freed_def used_def kused_def)
  moreover have "pmem_wf (phys s1)" using s1(2) by (simp add: freed_def)
  ultimately obtain s2 where s2: "free_page_at pd s1 = Some s2" "freed s1 {pd} s2" using free_page_at_spec by blast
  have "freed s (dir_pages s pd) s2" using freed_trans [OF s1(2) s2(2)] by (simp add: dir_pages_def)
  moreover have "pagedir_destroy pd s = Some s2"
    using s1(1) s2(1) kused_page(2,3) [OF ok pd] by (simp add: pagedir_destroy_def pd_no_PHYS_BASE)
  ultimately show ?thesis by blast
qed

lemma dir_pages_others:
  assumes ok: "dirs_ok s D" and pd: "pd \<in> D" and own: "owns_frames s pd"
    and pd': "pd' \<in> insert (base_page_dir s) D" "pd' \<noteq> pd"
  shows "pd' \<notin> dir_pages s pd" "k < 768 \<Longrightarrow> ent s pd' k \<noteq> 0 \<Longrightarrow> pt_of s pd' k \<notin> dir_pages s pd"
proof -
  have wf: "pmem_wf (phys s)" using ok by (simp add: dirs_ok_def)
  have kp: "a \<notin> used_pages (user_pool (phys s))" if "a \<in> kused s" for a
    using that user_not_kernel [OF wf] kused_pool by blast
  note sub = owned_slots(4) [OF ok pd own]
  have so: "slot_ok s D (b, i)" if "b \<in> D" "i < 768" "ent s b i \<noteq> 0" for b i
    using ok that by (auto simp: dirs_ok_def slots_def)
  have "pd' \<in> kused s" using ok pd' by (auto simp: dirs_ok_def)
  then show "pd' \<notin> dir_pages s pd"
    using sub [of _ pd'] kp so [OF pd] pd' by (fastforce simp: dir_pages_def slot_ok_def)
  assume k: "k < 768" "ent s pd' k \<noteq> 0"
  then have D': "pd' \<in> D" using pd' ok by (auto simp: dirs_ok_def)
  have ne: "pt_of s pd' k \<noteq> pt_of s pd i" if "i < 768" "ent s pd i \<noteq> 0" for i
    using ok inj_onD [of "\<lambda>(pd, i). pt_of s pd i" "slots s D" "(pd', k)" "(pd, i)"] pd D' k that pd'(2)
    by (auto simp: dirs_ok_def slots_def)
  have "pt_of s pd' k \<in> kused s" "pt_of s pd' k \<noteq> pd" using so [OF D' k] pd by (auto simp: slot_ok_def)
  then show "pt_of s pd' k \<notin> dir_pages s pd"
    using sub [of _ "pt_of s pd' k"] kp [of "pt_of s pd' k"] ne unfolding dir_pages_def by fastforce
qed

lemma destroy_spec:
  assumes ok: "vm_ok s D" and pd: "pd \<in> D" and own: "owns_frames s pd"
  shows "\<exists>s'. pagedir_destroy pd s = Some s' \<and> vm_ok s' (D - {pd}) \<and> freed s (dir_pages s pd) s'
     \<and> (\<forall>pd' \<in> D - {pd}. \<forall>va. is_user_vaddr va \<longrightarrow> page_map s' pd' va = page_map s pd' va)"
proof -
  have d: "dirs_ok s D" and t: "tlb_ok s D" using ok by (auto simp: vm_ok_def)
  from destroy_freed [OF d pd own] obtain s' where s': "pagedir_destroy pd s = Some s'" "freed s (dir_pages s pd) s'" by blast
  note others = dir_pages_others [OF d pd own]
  have R: "base_page_dir s' = base_page_dir s" "cr3 s' = cr3 s" "tlb s' = tlb s" using s'(2) by (auto simp: freed_def same_regs_def)
  have bp: "base_page_dir s \<noteq> pd" using d pd by (auto simp: dirs_ok_def)
  have E: "ent s' a k = ent s a k" if "a \<notin> dir_pages s pd" for a k by (rule freed_ent [OF s'(2) that])
  have E1: "ent s' pd' k = ent s pd' k" "pt_of s' pd' k = pt_of s pd' k"
    if "pd' \<in> insert (base_page_dir s) D" "pd' \<noteq> pd" for pd' k
    using E [OF others(1)] that by (simp_all add: pt_of_def)
  have E2: "ent s' (pt_of s pd' k) j = ent s (pt_of s pd' k) j"
    if "pd' \<in> D" "pd' \<noteq> pd" "k < 768" "ent s pd' k \<noteq> 0" for pd' k j
    using E [OF others(2)] that by simp
  have K: "a \<in> kused s'" if "a \<in> kused s" "a \<notin> dir_pages s pd" for a
  proof -
    have wf: "pmem_wf (phys s)" "pmem_wf (phys s')" using d s'(2) by (auto simp: dirs_ok_def freed_def)
    from that used_pages_pool [OF wf(1), of False] used_pages_pool [OF wf(2), of False] s'(2)
    show ?thesis by (auto simp: kused_def get_pool_def freed_def split: if_splits)
  qed
  have S: "slots s' (D - {pd}) = slots s D - {pd} \<times> UNIV" using E1 by (auto simp: slots_def)
  have so: "slot_ok s' (D - {pd}) x" if xs: "x \<in> slots s D - {pd} \<times> UNIV" for x
  proof -
    obtain b k where x: "x = (b, k)" "slot_ok s D (b, k)" "b \<in> D" "b \<noteq> pd" "k < 768" "ent s b k \<noteq> 0"
      using xs d by (cases x) (auto simp: dirs_ok_def slots_def)
    then show ?thesis using E1 [of b] E2 [of b k] K [OF _ others(2) [of b k]] R by (auto simp: slot_ok_def)
  qed
  have "inj_on (\<lambda>(b, k). pt_of s' b k) (slots s D - {pd} \<times> UNIV) = inj_on (\<lambda>(b, k). pt_of s b k) (slots s D - {pd} \<times> UNIV)"
    by (rule inj_on_cong) (use E1(2) in \<open>auto simp: slots_def\<close>)
  moreover have "inj_on (\<lambda>(b, k). pt_of s b k) (slots s D - {pd} \<times> UNIV)"
    using d inj_on_diff unfolding dirs_ok_def by blast
  moreover have "pmem_wf (phys s')" using s'(2) by (simp add: freed_def)
  moreover have "D - {pd} \<subseteq> kused s'" "base_page_dir s \<in> kused s'"
    using K others(1) d bp by (auto simp: dirs_ok_def)
  ultimately have d': "dirs_ok s' (D - {pd})"
    using d so E1 [of "base_page_dir s"] bp R unfolding dirs_ok_def S by auto
  have pm: "page_map s' pd' va = page_map s pd' va" if "pd' \<in> D" "pd' \<noteq> pd" "is_user_vaddr va" for pd' va
    using E1 [of pd'] E2 [of pd' "unat (pd_no va)"] that pd_no_user [of va] by (auto simp: page_map_def pte_def)
  then have "tlb_ok s' (D - {pd})" using t R by (auto simp: tlb_ok_def active_pd_def)
  with s' d' pm show ?thesis by (auto simp: vm_ok_def)
qed

section \<open>Properties\<close>

text \<open>C23. Mapping a page of a process. Installing a frame at an unmapped user page either fails because the
  kernel pool is used up and changes nothing, or makes every address of that page translate to the frame at the same offset,
  neither accessed nor dirty. Every other page of every process translates as before, the user pool keeps its
  pages and their contents, and the processor's cached translations stay right.\<close>

theorem pagedir_set_get:
  assumes "vm_ok s D" and "pd \<in> D" and "is_user_vaddr upage" "pg_ofs upage = 0"
    and "kpage_ok kpage" "drop_bit PTSHIFT (kpage - PHYS_BASE) < ram_pages s" and "page_map s pd upage = None"
  shows "\<exists>b s'. pagedir_set_page pd upage kpage writable s = Some (b, s') \<and> vm_ok s' D \<and> same_users s s'
     \<and> (\<forall>pd' \<in> D. \<forall>va. is_user_vaddr va \<longrightarrow> pagedir_get_page pd' va s' =
          (if b \<and> pd' = pd \<and> pg_round_down va = upage then Some (kpage + pg_ofs va) else pagedir_get_page pd' va s))
     \<and> (b \<longrightarrow> pagedir_is_dirty pd upage s' = Some False \<and> pagedir_is_accessed pd upage s' = Some False)
     \<and> (\<not> b \<longrightarrow> s' = s \<and> kernel_full s)"
proof -
  have d: "dirs_ok s D" using assms(1) by (simp add: vm_ok_def)
  from set_page_spec [OF assms, of writable] obtain b s' where
    s': "pagedir_set_page pd upage kpage writable s = Some (b, s')" "vm_ok s' D"
    "one_page s D pd upage (if b then Some (pt_entry kpage (user_flags writable)) else None) s'" "\<not> b \<longrightarrow> s' = s \<and> kernel_full s" by blast
  have d': "dirs_ok s' D" using s'(2) by (simp add: vm_ok_def)
  have get: "pagedir_get_page pd' va s' = (if b \<and> pd' = pd \<and> pg_round_down va = upage then Some (kpage + pg_ofs va) else pagedir_get_page pd' va s)"
    if "pd' \<in> D" "is_user_vaddr va" for pd' va
    using that s'(3,4) get_page_spec [OF d that] get_page_spec [OF d' that] assms(5)
    by (auto simp: one_page_def entry_addr kpage_ok_def)
  have "pte s' pd upage = Some (pt_entry kpage (user_flags writable))" if b
  proof -
    have "page_map s' pd upage = Some (pt_entry kpage (user_flags writable))"
      using s'(3) that assms(2,3) pg_round_down_id [OF assms(4)] by (auto simp: one_page_def)
    then show ?thesis by (auto simp: page_map_def split: option.splits if_splits)
  qed
  then have "b \<longrightarrow> pagedir_is_dirty pd upage s' = Some False \<and> pagedir_is_accessed pd upage s' = Some False"
    using test_bit_spec [OF d' assms(2,3)] assms(5) by (auto simp: pagedir_is_dirty_def pagedir_is_accessed_def entry_flag_bits)
  with s' get show ?thesis by (auto simp: one_page_def)
qed

text \<open>A kernel page directory at \<open>0xc0100000\<close>, one process with an empty directory at \<open>0xc0101000\<close>.\<close>

definition demo_vmem :: vmem where
  "demo_vmem = \<lparr> phys = \<lparr> kernel_pool = \<lparr> used_map = \<lparr> bit_cnt = 3, bits = [3] \<rparr>, pool_base = 0xc0100000 \<rparr>,
       user_pool = demo_pool 0xc0200000, pages = (\<lambda>_. replicate PGSIZE 0) \<rparr>,
     base_page_dir = 0xc0100000, ram_pages = 1024, cr3 = 0x100000, tlb = (\<lambda>_. None) \<rparr>"

lemma demo_ent [simp]: "k < 1024 \<Longrightarrow> ent demo_vmem a k = 0"
  by (rule ent_zero) (simp_all add: demo_vmem_def)

lemma demo_kused: "{0xc0100000, 0xc0101000} \<subseteq> kused demo_vmem"
proof -
  have "bit_at \<lparr>bit_cnt = 3, bits = [3]\<rparr> 0" "bit_at \<lparr>bit_cnt = 3, bits = [3]\<rparr> 1"
    by (simp_all add: bit_at_def)
  moreover have "page_at 0xc0100000 0 = 0xc0100000" "page_at 0xc0100000 1 = 0xc0101000" by (simp_all add: page_at_def)
  ultimately show ?thesis by (force simp: kused_def demo_vmem_def used_pages_def intro: image_eqI)
qed

lemma demo_vm_ok: "vm_ok demo_vmem {0xc0101000}"
proof -
  have "{..<2 :: nat} = {0, 1}" "{..<3 :: nat} = {0, 1, 2}" by auto
  then have "pmem_wf (phys demo_vmem)"
    by (simp add: demo_vmem_def demo_pool_def pmem_wf_def pool_wf_def bitmap_wf_def elem_cnt_eq kpage_ok_def
        pg_ofs_def PGMASK_def is_kernel_vaddr_def PHYS_BASE_def pool_pages_def page_at_def)
  moreover have "slots demo_vmem {0xc0101000} = {}" by (auto simp: slots_def)
  moreover have "base_page_dir demo_vmem = 0xc0100000" "tlb demo_vmem = (\<lambda>_. None)" by (simp_all add: demo_vmem_def)
  ultimately show ?thesis using demo_kused by (auto simp: vm_ok_def dirs_ok_def tlb_ok_def)
qed

lemma demo_unmapped: "is_user_vaddr va \<Longrightarrow> page_map demo_vmem pd va = None"
  using pd_no_user [of va] by (simp add: page_map_def pte_def)

lemma demo_args: "is_user_vaddr 0x8048000" "pg_ofs 0x8048000 = 0" "kpage_ok 0xc0200000"
    "drop_bit PTSHIFT (0xc0200000 - PHYS_BASE) < ram_pages demo_vmem" "active_pd demo_vmem = Some 0xc0100000"
  by (simp_all add: is_user_vaddr_def pg_ofs_def PGMASK_def kpage_ok_def is_kernel_vaddr_def PHYS_BASE_def PTSHIFT_def
      PGBITS_def demo_vmem_def active_pd_def ptov_def)

theorem pagedir_set_get_witness:
  "\<exists>b s'. pagedir_set_page 0xc0101000 0x8048000 0xc0200000 True demo_vmem = Some (b, s') \<and> vm_ok s' {0xc0101000}"
  using pagedir_set_get [OF demo_vm_ok _ demo_args(1-4) demo_unmapped, of "0xc0101000" True] demo_args(1) by auto

lemma change_bit_query:
  assumes "vm_ok s D" and "pd \<in> D" and "is_user_vaddr upage" "pg_ofs upage = 0" and "active_pd s = Some a"
    and "flag_bits bt" "bt AND PTE_P = 0" and bt: "bt \<noteq> 0"
  shows "\<exists>s'. change_bit bt pd upage v s = Some s' \<and> vm_ok s' D
      \<and> one_page s D pd upage (map_option (\<lambda>w. if v then w OR bt else w AND NOT bt) (page_map s pd upage)) s'
      \<and> (page_map s pd upage \<noteq> None \<longrightarrow> test_bit bt pd upage s' = Some v)"
proof -
  from change_bit_spec [OF assms(1-7), of v] obtain s' where s': "change_bit bt pd upage v s = Some s'" "vm_ok s' D"
    "one_page s D pd upage (map_option (\<lambda>w. if v then w OR bt else w AND NOT bt) (page_map s pd upage)) s'" by blast
  have "test_bit bt pd upage s' = Some v" if m: "page_map s pd upage = Some w" for w
  proof -
    have "page_map s' pd upage = Some (if v then w OR bt else w AND NOT bt)"
      using s'(3) assms(2,3) pg_round_down_id [OF assms(4)] m by (auto simp: one_page_def)
    then have "pte s' pd upage = Some (if v then w OR bt else w AND NOT bt)"
      by (auto simp: page_map_def split: option.splits if_splits)
    then show ?thesis
      using test_bit_spec [of s' D pd upage bt] s'(2) assms(2,3) bt
      by (simp add: vm_ok_def bit.conj_disj_distrib2 and.assoc or_eq_0_iff)
  qed
  with s' show ?thesis by auto
qed

lemma flag_bits_nonzero: "PTE_D \<noteq> 0" "PTE_A \<noteq> 0" "PTE_D AND PTE_P = 0" "PTE_A AND PTE_P = 0"
  by (simp_all add: PTE_D_def PTE_A_def PTE_P_def)



text \<open>C25. Destroying the directory of a process that owns its frames gives back exactly the pages of that
  directory: the directory, its page tables and the frames it maps, each once. The other processes keep their
  translations, their page tables and the contents of their pages.\<close>

theorem pagedir_destroy_correct:
  assumes "vm_ok s D" and "pd \<in> D" and "owns_frames s pd"
  shows "\<exists>s'. pagedir_destroy pd s = Some s' \<and> vm_ok s' (D - {pd})
     \<and> dir_pages s pd \<subseteq> used (phys s) \<and> used (phys s') = used (phys s) - dir_pages s pd
     \<and> (\<forall>pd' \<in> D - {pd}. \<forall>va. is_user_vaddr va \<longrightarrow> pagedir_get_page pd' va s' = pagedir_get_page pd' va s)
     \<and> (\<forall>a. a \<notin> dir_pages s pd \<longrightarrow> pages (phys s') a = pages (phys s) a)"
proof -
  from destroy_spec [OF assms] obtain s' where s': "pagedir_destroy pd s = Some s'" "vm_ok s' (D - {pd})"
    "freed s (dir_pages s pd) s'"
    "\<forall>pd' \<in> D - {pd}. \<forall>va. is_user_vaddr va \<longrightarrow> page_map s' pd' va = page_map s pd' va" by blast
  have "pagedir_get_page pd' va s' = pagedir_get_page pd' va s" if "pd' \<in> D - {pd}" "is_user_vaddr va" for pd' va
    using get_page_spec [of s D pd' va] get_page_spec [of s' "D - {pd}" pd' va] s'(2,4) that assms(1)
    by (simp add: vm_ok_def)
  with s' show ?thesis by (auto simp: freed_def)
qed

theorem pagedir_destroy_correct_witness:
  "\<exists>s'. pagedir_destroy 0xc0101000 demo_vmem = Some s' \<and> vm_ok s' {}"
proof -
  have "owns_frames demo_vmem 0xc0101000" by (simp add: owns_frames_def demo_unmapped)
  from pagedir_destroy_correct [OF demo_vm_ok _ this] show ?thesis by auto
qed

end
