(* ===== verification/Console.thy ===== *)
theory Console
  imports Stdio
begin

text \<open>
  The console, \<^verbatim>\<open>lib/kernel/console.c\<close>, with \<open>printf\<close> of \<^verbatim>\<open>lib/stdio.c\<close>. \<open>me\<close> is the running thread and \<open>ictx\<close> the
  value of \<open>intr_context ()\<close>. The console lock is the number of its holder; an acquisition that would have to
  wait is not a step of this sequential model, and is \<open>None\<close>. \<open>printed\<close> is what both the display and the serial
  line have been given.

  The lemmas show that every operation prints exactly its text, counts it, and gives the lock back as it
  found it, nested calls included.
\<close>

section \<open>State and operations\<close>

record console_state =
  console_lock :: "nat option"
  use_console_lock :: bool
  console_lock_depth :: int
  write_cnt :: u64
  printed :: "byte list"

definition console_init :: "console_state \<Rightarrow> console_state" where
  "console_init c = c\<lparr>console_lock := None, use_console_lock := True\<rparr>"

definition console_panic :: "console_state \<Rightarrow> console_state" where
  "console_panic c = c\<lparr>use_console_lock := False\<rparr>"

definition acquire_console :: "nat \<Rightarrow> bool \<Rightarrow> console_state \<Rightarrow> console_state option" where
  "acquire_console me ictx c =
     (if \<not> ictx \<and> use_console_lock c then
        if console_lock c = Some me then Some (c\<lparr>console_lock_depth := console_lock_depth c + 1\<rparr>)
        else do { kassert (console_lock c = None); Some (c\<lparr>console_lock := Some me\<rparr>) }
      else Some c)"

definition release_console :: "nat \<Rightarrow> bool \<Rightarrow> console_state \<Rightarrow> console_state option" where
  "release_console me ictx c =
     (if \<not> ictx \<and> use_console_lock c then
        if console_lock_depth c > 0 then Some (c\<lparr>console_lock_depth := console_lock_depth c - 1\<rparr>)
        else do { kassert (console_lock c = Some me); Some (c\<lparr>console_lock := None\<rparr>) }
      else Some c)"

definition console_locked_by_current_thread :: "nat \<Rightarrow> bool \<Rightarrow> console_state \<Rightarrow> bool" where
  "console_locked_by_current_thread me ictx c \<longleftrightarrow> ictx \<or> \<not> use_console_lock c \<or> console_lock c = Some me"

definition putchar_have_lock :: "nat \<Rightarrow> bool \<Rightarrow> byte \<Rightarrow> console_state \<Rightarrow> console_state option" where
  "putchar_have_lock me ictx ch c = do {
     kassert (console_locked_by_current_thread me ictx c);
     Some (c\<lparr>write_cnt := write_cnt c + 1, printed := printed c @ [ch]\<rparr>) }"

definition vprintf_helper :: "nat \<Rightarrow> bool \<Rightarrow> (u32 \<times> console_state) outfun" where
  "vprintf_helper me ictx ch = (\<lambda>(char_cnt, c). do {
     c' \<leftarrow> putchar_have_lock me ictx ch c;
     Some (char_cnt + 1, c') })"

definition console_vprintf :: "nat \<Rightarrow> bool \<Rightarrow> byte list \<Rightarrow> va_list \<Rightarrow> console_state \<Rightarrow> (u32 \<times> console_state) option" where
  "console_vprintf me ictx format args c = do {
     c1 \<leftarrow> acquire_console me ictx c;
     (char_cnt, c2) \<leftarrow> vprintf (vprintf_helper me ictx) format args (0, c1);
     c3 \<leftarrow> release_console me ictx c2;
     Some (char_cnt, c3) }"

definition printf :: "nat \<Rightarrow> bool \<Rightarrow> byte list \<Rightarrow> va_list \<Rightarrow> console_state \<Rightarrow> (u32 \<times> console_state) option" where
  "printf me ictx format args c = console_vprintf me ictx format args c"

text \<open>The characters up to the terminator; a string without one is read past its end.\<close>

fun puts_loop :: "nat \<Rightarrow> bool \<Rightarrow> byte list \<Rightarrow> console_state \<Rightarrow> console_state option" where
  "puts_loop me ictx [] c = None"
| "puts_loop me ictx (ch # s) c =
     (if ch \<noteq> 0 then do { c' \<leftarrow> putchar_have_lock me ictx ch c; puts_loop me ictx s c' } else Some c)"

definition puts :: "nat \<Rightarrow> bool \<Rightarrow> byte list \<Rightarrow> console_state \<Rightarrow> (int \<times> console_state) option" where
  "puts me ictx s c = do {
     c1 \<leftarrow> acquire_console me ictx c;
     c2 \<leftarrow> puts_loop me ictx s c1;
     c3 \<leftarrow> putchar_have_lock me ictx 10 c2;
     c4 \<leftarrow> release_console me ictx c3;
     Some (0, c4) }"

fun putbuf_loop :: "nat \<Rightarrow> bool \<Rightarrow> byte list \<Rightarrow> nat \<Rightarrow> console_state \<Rightarrow> console_state option" where
  "putbuf_loop me ictx buffer 0 c = Some c"
| "putbuf_loop me ictx [] (Suc n) c = None"
| "putbuf_loop me ictx (ch # buffer) (Suc n) c = do {
     c' \<leftarrow> putchar_have_lock me ictx ch c;
     putbuf_loop me ictx buffer n c' }"

definition putbuf :: "nat \<Rightarrow> bool \<Rightarrow> byte list \<Rightarrow> nat \<Rightarrow> console_state \<Rightarrow> console_state option" where
  "putbuf me ictx buffer n c = do {
     c1 \<leftarrow> acquire_console me ictx c;
     c2 \<leftarrow> putbuf_loop me ictx buffer n c1;
     release_console me ictx c2 }"

definition putchar :: "nat \<Rightarrow> bool \<Rightarrow> u32 \<Rightarrow> console_state \<Rightarrow> (u32 \<times> console_state) option" where
  "putchar me ictx ch c = do {
     c1 \<leftarrow> acquire_console me ictx c;
     c2 \<leftarrow> putchar_have_lock me ictx (ucast ch) c1;
     c3 \<leftarrow> release_console me ictx c2;
     Some (ch, c3) }"

text \<open>A string literal of the source: its characters and the terminator.\<close>

definition lit :: "string \<Rightarrow> byte list" where
  "lit s = map of_char s @ [0]"

definition console_print_stats :: "nat \<Rightarrow> bool \<Rightarrow> console_state \<Rightarrow> (u32 \<times> console_state) option" where
  "console_print_stats me ictx c = printf me ictx (lit ''Console: %lld characters output\<newline>'') [A64 (write_cnt c)] c"

section \<open>What is printed\<close>

definition wrote :: "byte list \<Rightarrow> console_state \<Rightarrow> console_state" where
  "wrote t c = c\<lparr>write_cnt := write_cnt c + of_nat (length t), printed := printed c @ t\<rparr>"

lemma wrote_nil [simp]: "wrote [] c = c"
  by (simp add: wrote_def)

lemma wrote_append [simp]: "wrote u (wrote t c) = wrote (t @ u) c"
  by (simp add: wrote_def add.assoc)

lemma wrote_fields [simp]: "console_lock (wrote t c) = console_lock c" "use_console_lock (wrote t c) = use_console_lock c"
  "console_lock_depth (wrote t c) = console_lock_depth c" "printed (wrote t c) = printed c @ t"
  by (simp_all add: wrote_def)

text \<open>The running thread may use the console: it holds the lock, with a depth that counts its calls, or the
  lock is free.\<close>

definition console_ok :: "nat \<Rightarrow> bool \<Rightarrow> console_state \<Rightarrow> bool" where
  "console_ok me ictx c \<longleftrightarrow> \<not> ictx \<and> use_console_lock c
     \<longrightarrow> 0 \<le> console_lock_depth c \<and> (console_lock c = Some me \<or> console_lock c = None \<and> console_lock_depth c = 0)"

lemma console_ok_wrote [simp]: "console_ok me ictx (wrote t c) = console_ok me ictx c"
  by (simp add: console_ok_def)

lemma putchar_have_lock_wrote:
  "console_locked_by_current_thread me ictx c \<Longrightarrow> putchar_have_lock me ictx ch c = Some (wrote [ch] c)"
  by (simp add: putchar_have_lock_def wrote_def)

lemma locked_wrote [simp]: "console_locked_by_current_thread me ictx (wrote t c) = console_locked_by_current_thread me ictx c"
  by (simp add: console_locked_by_current_thread_def)

lemma console_section:
  assumes "console_ok me ictx c"
  obtains c1 where "acquire_console me ictx c = Some c1" "console_locked_by_current_thread me ictx c1"
    "\<And>t. release_console me ictx (wrote t c1) = Some (wrote t c)" "printed c1 = printed c"
proof (cases "\<not> ictx \<and> use_console_lock c")
  case False
  then show thesis
    by (intro that [of c]) (auto simp: acquire_console_def release_console_def console_locked_by_current_thread_def)
next
  case True
  show thesis
  proof (cases "console_lock c = Some me")
    case held: True
    then show thesis using True assms
      by (intro that [of "c\<lparr>console_lock_depth := console_lock_depth c + 1\<rparr>"])
        (auto simp: acquire_console_def release_console_def console_locked_by_current_thread_def console_ok_def wrote_def)
  next
    case False
    with True assms have free: "console_lock c = None" "console_lock_depth c = 0" by (auto simp: console_ok_def)
    have "c\<lparr>console_lock := None\<rparr> = c" using free(1) by (cases c) simp
    then have "(wrote t (c\<lparr>console_lock := Some me\<rparr>))\<lparr>console_lock := None\<rparr> = wrote t c" for t
      by (cases c) (simp add: wrote_def)
    then show thesis using True False free
      by (intro that [of "c\<lparr>console_lock := Some me\<rparr>"])
        (auto simp: acquire_console_def release_console_def console_locked_by_current_thread_def)
  qed
qed

lemma console_helper_all:
  "console_locked_by_current_thread me ictx c
    \<Longrightarrow> output_all t (vprintf_helper me ictx) (n, c) = Some (n + of_nat (length t), wrote t c)"
  by (induction t arbitrary: n c) (simp_all add: vprintf_helper_def putchar_have_lock_wrote add.assoc add.commute)

lemma printf_spec:
  assumes "console_ok me ictx c" and "printf_text format args = Some t"
  shows "printf me ictx format args c = Some (of_nat (length t), wrote t c)"
proof -
  from console_section [OF assms(1)] obtain c1 where "acquire_console me ictx c = Some c1"
    "console_locked_by_current_thread me ictx c1" "\<And>t. release_console me ictx (wrote t c1) = Some (wrote t c)" by blast
  then show ?thesis using assms(2) by (simp add: printf_def console_vprintf_def vprintf_text console_helper_all)
qed

lemma puts_loop_spec:
  assumes "console_locked_by_current_thread me ictx c" and "0 \<notin> set s"
  shows "puts_loop me ictx (s @ 0 # r) c = Some (wrote s c)"
  using assms by (induction s arbitrary: c) (auto simp: putchar_have_lock_wrote)

lemma puts_spec:
  assumes "console_ok me ictx c" and "0 \<notin> set s"
  shows "puts me ictx (s @ 0 # r) c = Some (0, wrote (s @ [10]) c)"
proof -
  from console_section [OF assms(1)] obtain c1 where "acquire_console me ictx c = Some c1"
    "console_locked_by_current_thread me ictx c1" "\<And>t. release_console me ictx (wrote t c1) = Some (wrote t c)" by blast
  then show ?thesis using assms(2) by (simp add: puts_def puts_loop_spec putchar_have_lock_wrote)
qed

lemma putbuf_loop_spec:
  "console_locked_by_current_thread me ictx c \<Longrightarrow> n \<le> length s \<Longrightarrow> putbuf_loop me ictx s n c = Some (wrote (take n s) c)"
  by (induction me ictx s n c rule: putbuf_loop.induct) (auto simp: putchar_have_lock_wrote)

lemma putbuf_spec:
  assumes "console_ok me ictx c" and "n \<le> length s"
  shows "putbuf me ictx s n c = Some (wrote (take n s) c)"
proof -
  from console_section [OF assms(1)] obtain c1 where "acquire_console me ictx c = Some c1"
    "console_locked_by_current_thread me ictx c1" "\<And>t. release_console me ictx (wrote t c1) = Some (wrote t c)" by blast
  then show ?thesis using assms(2) by (simp add: putbuf_def putbuf_loop_spec)
qed

section \<open>Texts\<close>

lemma lit_simps:
  "lit [] = [0]" "lit (ch # s) = of_char ch # lit s"
  by (simp_all add: lit_def)

lemma plain_more: "plain 115" "plain 112" "plain 117"
  by (simp_all add: plain_def isdigit_def)

lemma text_of_string:
  assumes "cstr s str" and "length s < 2 ^ 31"
  shows "text_of ut (37 # 115 # fmt) (AStr (Some str) # args) = do { t \<leftarrow> text_of ut fmt args; Some (s @ t) }"
proof -
  have n: "strnlen str SIZE_MAX = Some (length s)" using strnlen_spec [OF assms(1), of SIZE_MAX] assms(2) by (simp add: SIZE_MAX_def)
  have "take (length s) str = s" using assms(1) by (auto simp: cstr_def)
  then show ?thesis
    using loop_conversion(2) [OF _ parse_plain [OF plain_more(1)], of ut fmt "AStr (Some str) # args"] n assms(2)
    by (simp add: conv_text_def str_text_def flag_def Let_def to_int_id)
qed

lemma text_of_decimal:
  "text_of ut (37 # 100 # fmt) (A32 v # args)
     = do { t \<leftarrow> text_of ut fmt args; Some ((if sint v < 0 then [45] else []) @ numeral_of (nat \<bar>sint v\<bar>) @ t) }"
  using loop_conversion(2) [OF _ parse_plain [OF plain_chars(2)], of ut fmt "A32 v # args"]
  by (simp add: conv_text_def signed_arg_def int_text_def body_numeral sign_text_def flag_def Let_def)

lemma text_of_pointer:
  "\<exists>p. \<forall>fmt args. text_of ut (37 # 112 # fmt) (A32 v # args) = do { t \<leftarrow> text_of ut fmt args; Some (p @ t) }"
  using loop_conversion(2) [OF _ parse_plain [OF plain_more(2)], of ut _ "A32 v # _"]
  by (auto simp: conv_text_def)

lemmas text_rules = printf_text_def lit_simps text_of_chars text_of_string text_of_decimal

text \<open>The message of a process that ends.\<close>

lemma exit_text:
  assumes "cstr s name" and "length s < 2 ^ 31"
  shows "printf_text (lit ''%s: exit(%d)\<newline>'') [AStr (Some name), A32 v]
     = Some (s @ map of_char '': exit('' @ (if sint v < 0 then [45] else []) @ numeral_of (nat \<bar>sint v\<bar>) @ map of_char '')\<newline>'')"
  using assms by (simp add: text_rules)

end
