(* ===== verification/Intr.thy ===== *)
theory Intr
  imports Console Palloc
begin

text \<open>
  Interrupts and segments: \<^verbatim>\<open>threads/interrupt.c\<close>, \<^verbatim>\<open>userprog/gdt.c\<close> and \<^verbatim>\<open>userprog/tss.c\<close>, with the registrations
  of handlers by \<^verbatim>\<open>userprog/exception.c\<close>, \<^verbatim>\<open>userprog/syscall.c\<close> and the device drivers. \<open>intr_stubs\<close> gives the addresses
  of the assembly stubs, which the linker assigns. A handler is a value of the type of the
  table's entries, \<open>run\<close> what calling it does. Bytes sent to a port are recorded in \<open>ports\<close>.

  The processor's reading of a gate and of a segment descriptor is given by \<open>gate_offset\<close>, \<open>seg_base\<close> and the other
  field functions. The lemmas show that the descriptors built by shifting and masking decode to what was asked for, that
  initialisation opens exactly four gates to user programs, and that external interrupts do not nest and are
  acknowledged once.
\<close>

section \<open>Interrupt level and frame\<close>

datatype intr_level = INTR_OFF | INTR_ON

record intr_frame =
  edi :: u32
  esi :: u32
  ebp :: u32
  esp_dummy :: u32
  ebx :: u32
  edx :: u32
  ecx :: u32
  eax :: u32
  gs :: "16 word"
  fs_seg :: "16 word"
  es :: "16 word"
  ds :: "16 word"
  vec_no :: u32
  error_code :: u32
  frame_pointer :: u32
  eip :: u32
  cs :: "16 word"
  eflags :: u32
  esp :: u32
  ss :: "16 word"

definition FLAG_MBS :: u32 where "FLAG_MBS = 0x00000002"
definition FLAG_IF :: u32 where "FLAG_IF = 0x00000200"

definition SEL_NULL :: nat where "SEL_NULL = 0x00"
definition SEL_KCSEG :: nat where "SEL_KCSEG = 0x08"
definition SEL_KDSEG :: nat where "SEL_KDSEG = 0x10"
definition SEL_UCSEG :: nat where "SEL_UCSEG = 0x1B"
definition SEL_UDSEG :: nat where "SEL_UDSEG = 0x23"
definition SEL_TSS :: nat where "SEL_TSS = 0x28"
definition SEL_CNT :: nat where "SEL_CNT = 6"

definition INTR_CNT :: nat where "INTR_CNT = 256"

record 'h intr_state =
  cpu_flags :: u32
  idt :: "u64 list"
  idtr :: u64
  intr_handlers :: "'h option list"
  intr_names :: "byte list list"
  in_external_intr :: bool
  yield_on_return :: bool
  ports :: "(u32 \<times> byte) list"

definition outb :: "u32 \<Rightarrow> byte \<Rightarrow> 'h intr_state \<Rightarrow> 'h intr_state" where
  "outb port data s = s\<lparr>ports := ports s @ [(port, data)]\<rparr>"

definition intr_get_level :: "'h intr_state \<Rightarrow> intr_level" where
  "intr_get_level s = (if cpu_flags s AND FLAG_IF \<noteq> 0 then INTR_ON else INTR_OFF)"

definition intr_context :: "'h intr_state \<Rightarrow> bool" where
  "intr_context s = in_external_intr s"

definition intr_enable :: "'h intr_state \<Rightarrow> (intr_level \<times> 'h intr_state) option" where
  "intr_enable s = do {
     let old_level = intr_get_level s;
     kassert (\<not> intr_context s);
     Some (old_level, s\<lparr>cpu_flags := cpu_flags s OR FLAG_IF\<rparr>) }"

definition intr_disable :: "'h intr_state \<Rightarrow> intr_level \<times> 'h intr_state" where
  "intr_disable s = (intr_get_level s, s\<lparr>cpu_flags := cpu_flags s AND NOT FLAG_IF\<rparr>)"

definition intr_set_level :: "intr_level \<Rightarrow> 'h intr_state \<Rightarrow> (intr_level \<times> 'h intr_state) option" where
  "intr_set_level level s = (if level = INTR_ON then intr_enable s else Some (intr_disable s))"

definition intr_yield_on_return :: "'h intr_state \<Rightarrow> 'h intr_state option" where
  "intr_yield_on_return s = do { kassert (intr_context s); Some (s\<lparr>yield_on_return := True\<rparr>) }"

section \<open>Gates\<close>

definition make_gate :: "u32 \<Rightarrow> int \<Rightarrow> int \<Rightarrow> u64 option" where
  "make_gate f dpl type = do {
     kassert (f \<noteq> 0);
     kassert (0 \<le> dpl \<and> dpl \<le> 3);
     kassert (0 \<le> type \<and> type \<le> 15);
     let e0 = (f AND 0xffff) OR push_bit 16 (of_nat SEL_KCSEG);
     let e1 = (f AND 0xffff0000) OR push_bit 15 1 OR push_bit 13 (word_of_int dpl) OR push_bit 12 0 OR push_bit 8 (word_of_int type);
     Some (ucast e0 OR push_bit 32 (ucast (e1 :: u32))) }"

definition make_intr_gate :: "u32 \<Rightarrow> int \<Rightarrow> u64 option" where
  "make_intr_gate f dpl = make_gate f dpl 14"

definition make_trap_gate :: "u32 \<Rightarrow> int \<Rightarrow> u64 option" where
  "make_trap_gate f dpl = make_gate f dpl 15"

definition make_idtr_operand :: "16 word \<Rightarrow> u32 \<Rightarrow> u64" where
  "make_idtr_operand limit bas = ucast limit OR push_bit 16 (ucast bas)"

text \<open>The two words of a descriptor, and the fields of a gate as the processor reads them.\<close>

definition lo32 :: "u64 \<Rightarrow> u32" where "lo32 g = ucast g"
definition hi32 :: "u64 \<Rightarrow> u32" where "hi32 g = ucast (drop_bit 32 g)"

definition gate_offset :: "u64 \<Rightarrow> u32" where
  "gate_offset g = take_bit 16 (lo32 g) OR push_bit 16 (drop_bit 16 (hi32 g))"

definition gate_selector :: "u64 \<Rightarrow> nat" where
  "gate_selector g = unat (drop_bit 16 (lo32 g))"

definition gate_present :: "u64 \<Rightarrow> bool" where
  "gate_present g = bit (hi32 g) 15"

definition gate_dpl :: "u64 \<Rightarrow> nat" where
  "gate_dpl g = unat (take_bit 2 (drop_bit 13 (hi32 g)))"

definition gate_type :: "u64 \<Rightarrow> nat" where
  "gate_type g = unat (take_bit 5 (drop_bit 8 (hi32 g)))"

section \<open>The interrupt table\<close>

definition pic_init :: "'h intr_state \<Rightarrow> 'h intr_state" where
  "pic_init s = fold (\<lambda>(p, d). outb p d)
     [(0x21, 0xff), (0xa1, 0xff),
      (0x20, 0x11), (0x21, 0x20), (0x21, 0x04), (0x21, 0x01),
      (0xa0, 0x11), (0xa1, 0x28), (0xa1, 0x02), (0xa1, 0x01),
      (0x21, 0x00), (0xa1, 0x00)] s"

definition pic_end_of_interrupt :: "u32 \<Rightarrow> 'h intr_state \<Rightarrow> 'h intr_state option" where
  "pic_end_of_interrupt irq s = do {
     kassert (0x20 \<le> irq \<and> irq < 0x30);
     let s1 = outb 0x20 0x20 s;
     Some (if 0x28 \<le> irq then outb 0xa0 0x20 s1 else s1) }"

text \<open>The loop that fills the table, for the vectors of a list.\<close>

primrec idt_loop :: "(nat \<Rightarrow> u32) \<Rightarrow> nat list \<Rightarrow> u64 list \<Rightarrow> u64 list option" where
  "idt_loop intr_stubs [] t = Some t"
| "idt_loop intr_stubs (i # is) t = do {
     g \<leftarrow> make_intr_gate (intr_stubs i) 0;
     idt_loop intr_stubs is (t[i := g]) }"

definition exception_names :: "byte list list" where
  "exception_names = map lit
    [''#DE Divide Error'', ''#DB Debug Exception'', ''NMI Interrupt'', ''#BP Breakpoint Exception'', ''#OF Overflow Exception'',
     ''#BR BOUND Range Exceeded Exception'', ''#UD Invalid Opcode Exception'', ''#NM Device Not Available Exception'',
     ''#DF Double Fault Exception'', ''Coprocessor Segment Overrun'', ''#TS Invalid TSS Exception'', ''#NP Segment Not Present'',
     ''#SS Stack Fault Exception'', ''#GP General Protection Exception'', ''#PF Page-Fault Exception'', ''unknown'',
     ''#MF x87 FPU Floating-Point Error'', ''#AC Alignment Check Exception'', ''#MC Machine-Check Exception'',
     ''#XF SIMD Floating-Point Exception'']"

definition intr_init :: "(nat \<Rightarrow> u32) \<Rightarrow> u32 \<Rightarrow> 'h intr_state \<Rightarrow> 'h intr_state option" where
  "intr_init intr_stubs idt_addr s = do {
     let s1 = pic_init s;
     t \<leftarrow> idt_loop intr_stubs [0..<INTR_CNT] (idt s1);
     Some (s1\<lparr>idt := t, idtr := make_idtr_operand (of_nat (8 * INTR_CNT - 1)) idt_addr,
       intr_names := exception_names @ replicate (INTR_CNT - length exception_names) (lit ''unknown'')\<rparr>) }"

definition register_handler ::
    "(nat \<Rightarrow> u32) \<Rightarrow> nat \<Rightarrow> int \<Rightarrow> intr_level \<Rightarrow> 'h \<Rightarrow> byte list \<Rightarrow> 'h intr_state \<Rightarrow> 'h intr_state option" where
  "register_handler intr_stubs v dpl level handler name s = do {
     kassert (intr_handlers s ! v = None);
     g \<leftarrow> (if level = INTR_ON then make_trap_gate (intr_stubs v) dpl else make_intr_gate (intr_stubs v) dpl);
     Some (s\<lparr>idt := (idt s)[v := g], intr_handlers := (intr_handlers s)[v := Some handler], intr_names := (intr_names s)[v := name]\<rparr>) }"

definition intr_register_ext :: "(nat \<Rightarrow> u32) \<Rightarrow> nat \<Rightarrow> 'h \<Rightarrow> byte list \<Rightarrow> 'h intr_state \<Rightarrow> 'h intr_state option" where
  "intr_register_ext intr_stubs v handler name s = do {
     kassert (0x20 \<le> v \<and> v \<le> 0x2f);
     register_handler intr_stubs v 0 INTR_OFF handler name s }"

definition intr_register_int ::
    "(nat \<Rightarrow> u32) \<Rightarrow> nat \<Rightarrow> int \<Rightarrow> intr_level \<Rightarrow> 'h \<Rightarrow> byte list \<Rightarrow> 'h intr_state \<Rightarrow> 'h intr_state option" where
  "intr_register_int intr_stubs v dpl level handler name s = do {
     kassert (v < 0x20 \<or> 0x2f < v);
     register_handler intr_stubs v dpl level handler name s }"

definition intr_name :: "nat \<Rightarrow> 'h intr_state \<Rightarrow> byte list" where
  "intr_name v s = intr_names s ! v"

text \<open>The call of a handler returns the frame, which it may change, the state of the interrupt system and the
  rest of the kernel.\<close>

definition intr_handler ::
    "('h \<Rightarrow> intr_frame \<Rightarrow> 'h intr_state \<times> 's \<Rightarrow> (intr_frame \<times> 'h intr_state \<times> 's) option) \<Rightarrow>
     ('h intr_state \<times> 's \<Rightarrow> ('h intr_state \<times> 's) option) \<Rightarrow>
     intr_frame \<Rightarrow> 'h intr_state \<times> 's \<Rightarrow> (intr_frame \<times> 'h intr_state \<times> 's) option" where
  "intr_handler run thread_yield f x = do {
     let external = (0x20 \<le> vec_no f \<and> vec_no f < 0x30);
     (s1, w1) \<leftarrow> (if external then do {
         kassert (intr_get_level (fst x) = INTR_OFF);
         kassert (\<not> intr_context (fst x));
         Some ((fst x)\<lparr>in_external_intr := True, yield_on_return := False\<rparr>, snd x) } else Some x);
     kassert (unat (vec_no f) < INTR_CNT);
     (f2, s2, w2) \<leftarrow> (case intr_handlers s1 ! unat (vec_no f) of
         Some handler \<Rightarrow> run handler f (s1, w1)
       | None \<Rightarrow> if vec_no f = 0x27 \<or> vec_no f = 0x2f then Some (f, s1, w1) else None);
     if external then do {
       kassert (intr_get_level s2 = INTR_OFF);
       kassert (intr_context s2);
       s3 \<leftarrow> pic_end_of_interrupt (vec_no f2) (s2\<lparr>in_external_intr := False\<rparr>);
       (s4, w4) \<leftarrow> (if yield_on_return s3 then thread_yield (s3, w2) else Some (s3, w2));
       Some (f2, s4, w4) }
     else Some (f2, s2, w2) }"

definition intr_dump_frame :: "nat \<Rightarrow> u32 \<Rightarrow> intr_frame \<Rightarrow> 'h intr_state \<Rightarrow> console_state \<Rightarrow> console_state option" where
  "intr_dump_frame me cr2 f s c = do {
     let p = (\<lambda>fmt args c. map_option snd (printf me (intr_context s) (lit fmt) args c));
     kassert (unat (vec_no f) < INTR_CNT);
     c1 \<leftarrow> p ''Interrupt %#04x (%s) at eip=%p\<newline>'' [A32 (vec_no f), AStr (Some (intr_names s ! unat (vec_no f))), A32 (eip f)] c;
     c2 \<leftarrow> p '' cr2=%08x error=%08x\<newline>'' [A32 cr2, A32 (error_code f)] c1;
     c3 \<leftarrow> p '' eax=%08x ebx=%08x ecx=%08x edx=%08x\<newline>'' [A32 (eax f), A32 (ebx f), A32 (ecx f), A32 (edx f)] c2;
     c4 \<leftarrow> p '' esi=%08x edi=%08x esp=%08x ebp=%08x\<newline>'' [A32 (esi f), A32 (edi f), A32 (esp f), A32 (ebp f)] c3;
     p '' cs=%04hx ds=%04hx es=%04hx ss=%04hx\<newline>'' [A32 (ucast (cs f)), A32 (ucast (ds f)), A32 (ucast (es f)), A32 (ucast (ss f))] c4 }"

section \<open>Segments\<close>

datatype seg_class = CLS_SYSTEM | CLS_CODE_DATA
datatype seg_granularity = GRAN_BYTE | GRAN_PAGE

definition class_bit :: "seg_class \<Rightarrow> u32" where
  "class_bit c = (case c of CLS_SYSTEM \<Rightarrow> 0 | CLS_CODE_DATA \<Rightarrow> 1)"

definition granularity_bit :: "seg_granularity \<Rightarrow> u32" where
  "granularity_bit g = (case g of GRAN_BYTE \<Rightarrow> 0 | GRAN_PAGE \<Rightarrow> 1)"

definition make_seg_desc :: "u32 \<Rightarrow> u32 \<Rightarrow> seg_class \<Rightarrow> int \<Rightarrow> int \<Rightarrow> seg_granularity \<Rightarrow> u64 option" where
  "make_seg_desc bas limit cl type dpl granularity = do {
     kassert (limit \<le> 0xfffff);
     kassert (0 \<le> type \<and> type \<le> 15);
     kassert (0 \<le> dpl \<and> dpl \<le> 3);
     let e0 = (limit AND 0xffff) OR push_bit 16 bas;
     let e1 = (drop_bit 16 bas AND 0xff) OR push_bit 8 (word_of_int type) OR push_bit 12 (class_bit cl)
       OR push_bit 13 (word_of_int dpl) OR push_bit 15 1 OR (limit AND 0xf0000) OR push_bit 22 1
       OR push_bit 23 (granularity_bit granularity) OR (bas AND 0xff000000);
     Some (ucast e0 OR push_bit 32 (ucast e1)) }"

definition make_code_desc :: "int \<Rightarrow> u64 option" where
  "make_code_desc dpl = make_seg_desc 0 0xfffff CLS_CODE_DATA 10 dpl GRAN_PAGE"

definition make_data_desc :: "int \<Rightarrow> u64 option" where
  "make_data_desc dpl = make_seg_desc 0 0xfffff CLS_CODE_DATA 2 dpl GRAN_PAGE"

definition make_tss_desc :: "u32 \<Rightarrow> u64 option" where
  "make_tss_desc laddr = make_seg_desc laddr 0x67 CLS_SYSTEM 9 0 GRAN_BYTE"

definition make_gdtr_operand :: "16 word \<Rightarrow> u32 \<Rightarrow> u64" where
  "make_gdtr_operand limit bas = ucast limit OR push_bit 16 (ucast bas)"

text \<open>The fields of a segment descriptor, as the processor reads them.\<close>

definition seg_base :: "u64 \<Rightarrow> u32" where
  "seg_base d = drop_bit 16 (lo32 d) OR push_bit 16 (take_bit 8 (hi32 d)) OR push_bit 24 (drop_bit 24 (hi32 d))"

definition seg_limit :: "u64 \<Rightarrow> u32" where
  "seg_limit d = take_bit 16 (lo32 d) OR push_bit 16 (take_bit 4 (drop_bit 16 (hi32 d)))"

definition seg_type :: "u64 \<Rightarrow> nat" where
  "seg_type d = unat (take_bit 4 (drop_bit 8 (hi32 d)))"

definition seg_dpl :: "u64 \<Rightarrow> nat" where
  "seg_dpl d = unat (take_bit 2 (drop_bit 13 (hi32 d)))"

definition seg_class_of :: "u64 \<Rightarrow> seg_class" where
  "seg_class_of d = (if bit (hi32 d) 12 then CLS_CODE_DATA else CLS_SYSTEM)"

definition seg_granularity_of :: "u64 \<Rightarrow> seg_granularity" where
  "seg_granularity_of d = (if bit (hi32 d) 23 then GRAN_PAGE else GRAN_BYTE)"

definition seg_present :: "u64 \<Rightarrow> bool" where
  "seg_present d = bit (hi32 d) 15"

record seg_state =
  gdt :: "u64 list"
  gdtr :: u64
  tr :: nat
  tss_ptr :: u32
  esp0 :: u32
  ss0 :: nat
  io_bitmap :: u32

definition tss_update :: "u32 \<Rightarrow> seg_state \<Rightarrow> seg_state option" where
  "tss_update thread_page g = do {
     kassert (tss_ptr g \<noteq> 0);
     Some (g\<lparr>esp0 := thread_page + of_nat PGSIZE\<rparr>) }"

definition tss_init :: "u32 \<Rightarrow> pmem \<Rightarrow> seg_state \<Rightarrow> (pmem \<times> seg_state) option" where
  "tss_init thread_page m g = do {
     (p, m1) \<leftarrow> palloc_get_page (PAL_ASSERT OR PAL_ZERO) m;
     g1 \<leftarrow> tss_update thread_page (g\<lparr>tss_ptr := p, ss0 := SEL_KDSEG, io_bitmap := 0xdfff\<rparr>);
     Some (m1, g1) }"

definition tss_get :: "seg_state \<Rightarrow> u32 option" where
  "tss_get g = do { kassert (tss_ptr g \<noteq> 0); Some (tss_ptr g) }"

definition gdt_init :: "u32 \<Rightarrow> seg_state \<Rightarrow> seg_state option" where
  "gdt_init gdt_addr g = do {
     kc \<leftarrow> make_code_desc 0;
     kd \<leftarrow> make_data_desc 0;
     uc \<leftarrow> make_code_desc 3;
     ud \<leftarrow> make_data_desc 3;
     t \<leftarrow> tss_get g;
     td \<leftarrow> make_tss_desc t;
     Some (g\<lparr>gdt := (gdt g)[SEL_NULL div 8 := 0, SEL_KCSEG div 8 := kc, SEL_KDSEG div 8 := kd, SEL_UCSEG div 8 := uc,
         SEL_UDSEG div 8 := ud, SEL_TSS div 8 := td],
       gdtr := make_gdtr_operand (of_nat (8 * SEL_CNT - 1)) gdt_addr, tr := SEL_TSS\<rparr>) }"

section \<open>Registration of the handlers\<close>

datatype handler = H_kill | H_page_fault | H_syscall | H_timer | H_keyboard | H_serial | H_disk

definition exception_init :: "(nat \<Rightarrow> u32) \<Rightarrow> handler intr_state \<Rightarrow> handler intr_state option" where
  "exception_init intr_stubs s0 = do {
     let reg = intr_register_int intr_stubs;
     s1 \<leftarrow> reg 3 3 INTR_ON H_kill (lit ''#BP Breakpoint Exception'') s0;
     s2 \<leftarrow> reg 4 3 INTR_ON H_kill (lit ''#OF Overflow Exception'') s1;
     s3 \<leftarrow> reg 5 3 INTR_ON H_kill (lit ''#BR BOUND Range Exceeded Exception'') s2;
     s4 \<leftarrow> reg 0 0 INTR_ON H_kill (lit ''#DE Divide Error'') s3;
     s5 \<leftarrow> reg 1 0 INTR_ON H_kill (lit ''#DB Debug Exception'') s4;
     s6 \<leftarrow> reg 6 0 INTR_ON H_kill (lit ''#UD Invalid Opcode Exception'') s5;
     s7 \<leftarrow> reg 7 0 INTR_ON H_kill (lit ''#NM Device Not Available Exception'') s6;
     s8 \<leftarrow> reg 11 0 INTR_ON H_kill (lit ''#NP Segment Not Present'') s7;
     s9 \<leftarrow> reg 12 0 INTR_ON H_kill (lit ''#SS Stack Fault Exception'') s8;
     s10 \<leftarrow> reg 13 0 INTR_ON H_kill (lit ''#GP General Protection Exception'') s9;
     s11 \<leftarrow> reg 16 0 INTR_ON H_kill (lit ''#MF x87 FPU Floating-Point Error'') s10;
     s12 \<leftarrow> reg 19 0 INTR_ON H_kill (lit ''#XF SIMD Floating-Point Exception'') s11;
     reg 14 0 INTR_OFF H_page_fault (lit ''#PF Page-Fault Exception'') s12 }"

definition syscall_init :: "(nat \<Rightarrow> u32) \<Rightarrow> handler intr_state \<Rightarrow> handler intr_state option" where
  "syscall_init intr_stubs s = intr_register_int intr_stubs 0x30 3 INTR_ON H_syscall (lit ''syscall'') s"

definition TIMER_FREQ :: nat where "TIMER_FREQ = 100"

definition timer_init :: "(nat \<Rightarrow> u32) \<Rightarrow> handler intr_state \<Rightarrow> handler intr_state option" where
  "timer_init intr_stubs s =
     (let count = of_nat ((1193180 + TIMER_FREQ div 2) div TIMER_FREQ) :: 16 word;
          s1 = outb 0x43 0x34 s;
          s2 = outb 0x40 (ucast (count AND 0xff)) s1;
          s3 = outb 0x40 (ucast (drop_bit 8 count)) s2
      in intr_register_ext intr_stubs 0x20 H_timer (lit ''8254 Timer'') s3)"

definition kbd_init :: "(nat \<Rightarrow> u32) \<Rightarrow> handler intr_state \<Rightarrow> handler intr_state option" where
  "kbd_init intr_stubs s = intr_register_ext intr_stubs 0x21 H_keyboard (lit ''8042 Keyboard'') s"

definition serial_register :: "(nat \<Rightarrow> u32) \<Rightarrow> handler intr_state \<Rightarrow> handler intr_state option" where
  "serial_register intr_stubs s = intr_register_ext intr_stubs (0x20 + 4) H_serial (lit ''serial'') s"

text \<open>The two channels of the disk controller, at interrupts 14 and 15 of the controller.\<close>

definition disk_register :: "(nat \<Rightarrow> u32) \<Rightarrow> handler intr_state \<Rightarrow> handler intr_state option" where
  "disk_register intr_stubs s = do {
     s1 \<leftarrow> intr_register_ext intr_stubs (14 + 0x20) H_disk (lit ''hd0'') s;
     intr_register_ext intr_stubs (15 + 0x20) H_disk (lit ''hd1'') s1 }"

text \<open>The calls of \<open>main\<close> that set up interrupts, in its order.\<close>

definition boot_interrupts :: "(nat \<Rightarrow> u32) \<Rightarrow> u32 \<Rightarrow> handler intr_state \<Rightarrow> handler intr_state option" where
  "boot_interrupts intr_stubs idt_addr s = do {
     s1 \<leftarrow> intr_init intr_stubs idt_addr s;
     s2 \<leftarrow> timer_init intr_stubs s1;
     s3 \<leftarrow> kbd_init intr_stubs s2;
     s4 \<leftarrow> exception_init intr_stubs s3;
     s5 \<leftarrow> syscall_init intr_stubs s4;
     s6 \<leftarrow> serial_register intr_stubs s5;
     disk_register intr_stubs s6 }"

section \<open>Descriptors decode to what was asked for\<close>

lemma masks:
  "0xffff = (mask 16 :: u32)" "0xffff0000 = (push_bit 16 (mask 16) :: u32)" "0xff = (mask 8 :: u32)"
  "0xf0000 = (push_bit 16 (mask 4) :: u32)" "0xff000000 = (push_bit 24 (mask 8) :: u32)"
  by (simp_all add: mask_eq_exp_minus_1 push_bit_eq_mult)

lemma word_field:
  assumes "0 \<le> d" and "d < 2 ^ k" and "k \<le> 32"
  shows "bit (word_of_int d :: u32) n \<Longrightarrow> n < k" and "unat (word_of_int d :: u32) = nat d"
proof -
  have d: "d < 2 ^ 32" using assms(2,3) power_increasing [of k 32 "2 :: int"] by simp
  have "take_bit k d = d" using assms by (simp add: take_bit_int_eq_self_iff)
  then show "n < k" if "bit (word_of_int d :: u32) n"
    using that by (metis bit_take_bit_iff bit_word_of_int_iff)
  show "unat (word_of_int d :: u32) = nat d" using assms(1) d by (simp add: unat_eq_nat_uint uint_word_of_int_eq take_bit_int_eq_self)
qed

lemma bit_const:
  "bit (0x80000 :: u32) n \<longleftrightarrow> n = 19" "bit (0x8000 :: u32) n \<longleftrightarrow> n = 15" "bit (0x400000 :: u32) n \<longleftrightarrow> n = 22"
proof -
  have "bit (2 ^ k :: u32) n \<longleftrightarrow> n = k" if "k < 32" for k using that by (auto simp: bit_exp_iff)
  from this [of 19] this [of 15] this [of 22]
  show "bit (0x80000 :: u32) n \<longleftrightarrow> n = 19" "bit (0x8000 :: u32) n \<longleftrightarrow> n = 15" "bit (0x400000 :: u32) n \<longleftrightarrow> n = 22" by simp_all
qed

lemma halves:
  "lo32 (ucast e0 OR push_bit 32 (ucast e1)) = e0" "hi32 (ucast e0 OR push_bit 32 (ucast e1)) = e1"
  by (rule bit_word_eqI; auto simp: lo32_def hi32_def bit_simps dest: bit_imp_le_length)+

lemma bit_take: "take_bit k x = x \<Longrightarrow> bit (x :: u32) n \<longleftrightarrow> n < k \<and> bit x n"
  by (metis bit_take_bit_iff)

text \<open>The bits of a field at position \<open>p\<close>, and of a masked word.\<close>

lemma bit_field:
  assumes "take_bit k x = x"
  shows "bit (push_bit p x :: u32) n \<longleftrightarrow> n < 32 \<and> p \<le> n \<and> n < p + k \<and> bit x (n - p)"
proof -
  have "bit x (n - p) \<longleftrightarrow> n - p < k \<and> bit x (n - p)" by (rule bit_take [OF assms])
  then show ?thesis by (cases "p \<le> n") (auto simp: bit_simps)
qed

lemma bit_masked:
  "bit (f AND 0xffff0000 :: u32) n \<longleftrightarrow> n < 32 \<and> 16 \<le> n \<and> bit f n" "bit (f AND 0xffff :: u32) n \<longleftrightarrow> n < 16 \<and> bit f n"
  "bit (f AND 0xff :: u32) n \<longleftrightarrow> n < 8 \<and> bit f n" "bit (f AND 0xf0000 :: u32) n \<longleftrightarrow> 16 \<le> n \<and> n < 20 \<and> bit f n"
  "bit (f AND 0xff000000 :: u32) n \<longleftrightarrow> n < 32 \<and> 24 \<le> n \<and> bit f n"
  unfolding masks by (auto simp: bit_simps bit_mask_iff)

lemma gate_fields:
  fixes f dw tw :: u32
  assumes d: "take_bit 2 dw = dw" and t: "take_bit 4 tw = tw"
  defines "e \<equiv> (f AND 0xffff0000) OR 0x8000 OR push_bit 13 dw OR push_bit 8 tw"
  shows "drop_bit 16 e = drop_bit 16 f" "bit e 15" "take_bit 2 (drop_bit 13 e) = dw" "take_bit 5 (drop_bit 8 e) = tw"
proof -
  note B = e_def bit_or_iff bit_masked bit_const bit_field [OF d] bit_field [OF t]
  show "bit e 15" by (simp add: B)
  show "drop_bit 16 e = drop_bit 16 f"
  proof (rule bit_word_eqI)
    fix n show "bit (drop_bit 16 e) n = bit (drop_bit 16 f) n" by (auto simp: bit_drop_bit_eq B dest: bit_imp_le_length)
  qed
  show "take_bit 2 (drop_bit 13 e) = dw"
  proof (rule bit_word_eqI)
    fix n show "bit (take_bit 2 (drop_bit 13 e)) n = bit dw n" using bit_take [OF d, of n] by (auto simp: bit_take_bit_iff bit_drop_bit_eq B)
  qed
  show "take_bit 5 (drop_bit 8 e) = tw"
  proof (rule bit_word_eqI)
    fix n show "bit (take_bit 5 (drop_bit 8 e)) n = bit tw n" using bit_take [OF t, of n] by (auto simp: bit_take_bit_iff bit_drop_bit_eq B)
  qed
qed

lemma seg_fields:
  fixes b l dw tw cw gw :: u32
  assumes d: "take_bit 2 dw = dw" and t: "take_bit 4 tw = tw" and l: "take_bit 20 l = l" and c: "take_bit 1 cw = cw" and gr: "take_bit 1 gw = gw"
  defines "e \<equiv> (drop_bit 16 b AND 0xff) OR push_bit 8 tw OR push_bit 12 cw
       OR push_bit 13 dw OR 0x8000 OR (l AND 0xf0000) OR 0x400000 OR push_bit 23 gw OR (b AND 0xff000000)"
  shows "take_bit 8 e = take_bit 8 (drop_bit 16 b)" "drop_bit 24 e = drop_bit 24 b" "take_bit 4 (drop_bit 16 e) = drop_bit 16 l"
    "take_bit 4 (drop_bit 8 e) = tw" "take_bit 2 (drop_bit 13 e) = dw" "bit e 12 = bit cw 0" "bit e 15" "bit e 23 = bit gw 0"
proof -
  note B = e_def bit_or_iff bit_masked bit_const bit_field [OF d] bit_field [OF t] bit_field [OF c] bit_field [OF gr]
  show "bit e 12 = bit cw 0" "bit e 15" "bit e 23 = bit gw 0" by (simp_all add: B)
  show "take_bit 8 e = take_bit 8 (drop_bit 16 b)"
  proof (rule bit_word_eqI)
    fix n show "bit (take_bit 8 e) n = bit (take_bit 8 (drop_bit 16 b)) n" by (auto simp: bit_take_bit_iff B)
  qed
  show "drop_bit 24 e = drop_bit 24 b"
  proof (rule bit_word_eqI)
    fix n show "bit (drop_bit 24 e) n = bit (drop_bit 24 b) n" by (auto simp: bit_drop_bit_eq B dest: bit_imp_le_length)
  qed
  show "take_bit 4 (drop_bit 16 e) = drop_bit 16 l"
  proof (rule bit_word_eqI)
    fix n show "bit (take_bit 4 (drop_bit 16 e)) n = bit (drop_bit 16 l) n"
      using bit_take [OF l, of "16 + n"] by (simp only: bit_take_bit_iff bit_drop_bit_eq comp_apply B) auto
  qed
  show "take_bit 4 (drop_bit 8 e) = tw"
  proof (rule bit_word_eqI)
    fix n show "bit (take_bit 4 (drop_bit 8 e)) n = bit tw n" using bit_take [OF t, of n] by (auto simp: bit_take_bit_iff bit_drop_bit_eq B)
  qed
  show "take_bit 2 (drop_bit 13 e) = dw"
  proof (rule bit_word_eqI)
    fix n show "bit (take_bit 2 (drop_bit 13 e)) n = bit dw n" using bit_take [OF d, of n] by (auto simp: bit_take_bit_iff bit_drop_bit_eq B)
  qed
qed

lemma word_of_field:
  assumes "0 \<le> d" and "d < 2 ^ k" and "k \<le> 32"
  shows "take_bit k (word_of_int d) = (word_of_int d :: u32)"
  by (rule bit_word_eqI) (use word_field(1) [OF assms] in \<open>auto simp: bit_take_bit_iff\<close>)

lemma take_drop_or: "take_bit 16 f OR push_bit 16 (drop_bit 16 f) = (f :: u32)"
proof (rule bit_word_eqI)
  fix n assume "n < LENGTH(32)"
  then show "bit (take_bit 16 f OR push_bit 16 (drop_bit 16 f)) n = bit f n" by (cases "n < 16") (auto simp: bit_simps)
qed

lemma gate_decodes:
  assumes "f \<noteq> 0" and d: "0 \<le> dpl" "dpl \<le> 3" and t: "0 \<le> type" "type \<le> 15"
  shows "\<exists>g. make_gate f dpl type = Some g \<and> gate_offset g = f \<and> gate_selector g = SEL_KCSEG \<and> gate_present g
     \<and> gate_dpl g = nat dpl \<and> gate_type g = nat type"
proof -
  let ?d = "word_of_int dpl :: u32" and ?t = "word_of_int type :: u32"
  have fd: "take_bit 2 ?d = ?d" "take_bit 4 ?t = ?t" "unat ?d = nat dpl" "unat ?t = nat type"
    using word_of_field [OF d(1), of 2] word_of_field [OF t(1), of 4] word_field(2) [OF d(1), of 2] word_field(2) [OF t(1), of 4] d(2) t(2) by simp_all
  define e0 where "e0 = (f AND 0xffff) OR 0x80000"
  define e1 where "e1 = (f AND 0xffff0000) OR 0x8000 OR push_bit 13 ?d OR push_bit 8 ?t"
  note gf = gate_fields [OF fd(1,2), of f, folded e1_def]
  have run: "make_gate f dpl type = Some (ucast e0 OR push_bit 32 (ucast e1))"
    using assms by (simp add: make_gate_def SEL_KCSEG_def e0_def e1_def push_bit_eq_mult or.assoc Let_def)
  have e0: "drop_bit 16 e0 = 8" "take_bit 16 e0 = take_bit 16 f"
  proof -
    show "take_bit 16 e0 = take_bit 16 f"
      by (rule bit_word_eqI) (auto simp: bit_take_bit_iff e0_def bit_or_iff bit_masked bit_const)
    have "drop_bit 16 e0 = 2 ^ 3"
      by (rule bit_word_eqI) (simp only: bit_drop_bit_eq comp_apply e0_def bit_or_iff bit_masked bit_const bit_exp_iff, auto)
    then show "drop_bit 16 e0 = 8" by simp
  qed
  note off = take_drop_or [of f]
  show ?thesis unfolding run gate_offset_def gate_selector_def gate_present_def gate_dpl_def gate_type_def halves
    using gf e0 off fd(3,4) by (auto simp: halves SEL_KCSEG_def)
qed

lemma seg_decodes:
  assumes l: "limit \<le> 0xfffff" and t: "0 \<le> type" "type \<le> 15" and d: "0 \<le> dpl" "dpl \<le> 3"
  shows "\<exists>g. make_seg_desc bas limit cl type dpl gran = Some g \<and> seg_base g = bas \<and> seg_limit g = limit \<and> seg_type g = nat type
     \<and> seg_dpl g = nat dpl \<and> seg_class_of g = cl \<and> seg_granularity_of g = gran \<and> seg_present g"
proof -
  let ?d = "word_of_int dpl :: u32" and ?t = "word_of_int type :: u32" and ?c = "class_bit cl" and ?g = "granularity_bit gran"
  have fd: "take_bit 2 ?d = ?d" "take_bit 4 ?t = ?t" "unat ?d = nat dpl" "unat ?t = nat type"
    using word_of_field [OF d(1), of 2] word_of_field [OF t(1), of 4] word_field(2) [OF d(1), of 2] word_field(2) [OF t(1), of 4] d(2) t(2) by simp_all
  have lw: "take_bit 20 limit = limit"
  proof -
    have "uint limit < 2 ^ 20" using l by (simp add: word_le_def)
    then show ?thesis using word_of_field [of "uint limit" 20] by simp
  qed
  have cg: "take_bit 1 ?c = ?c" "take_bit 1 ?g = ?g" "bit ?c 0 \<longleftrightarrow> cl = CLS_CODE_DATA" "bit ?g 0 \<longleftrightarrow> gran = GRAN_PAGE"
    by (cases cl; cases gran; simp add: class_bit_def granularity_bit_def)+
  define e0 where "e0 = (limit AND 0xffff) OR push_bit 16 bas"
  define e1 where "e1 = (drop_bit 16 bas AND 0xff) OR push_bit 8 ?t OR push_bit 12 ?c OR push_bit 13 ?d OR 0x8000 OR (limit AND 0xf0000) OR 0x400000
       OR push_bit 23 ?g OR (bas AND 0xff000000)"
  note sf = seg_fields [OF fd(1,2) lw cg(1,2), of bas, folded e1_def]
  have run: "make_seg_desc bas limit cl type dpl gran = Some (ucast e0 OR push_bit 32 (ucast e1))"
    using assms by (simp add: make_seg_desc_def e0_def e1_def push_bit_eq_mult or.assoc Let_def)
  have e0: "drop_bit 16 e0 = take_bit 16 bas" "take_bit 16 e0 = take_bit 16 limit"
  proof -
    show "take_bit 16 e0 = take_bit 16 limit"
      by (rule bit_word_eqI) (auto simp: bit_take_bit_iff e0_def bit_or_iff bit_masked bit_push_bit_iff)
    show "drop_bit 16 e0 = take_bit 16 bas"
      by (rule bit_word_eqI) (simp only: bit_drop_bit_eq comp_apply e0_def bit_or_iff bit_masked bit_push_bit_iff bit_take_bit_iff, auto dest: bit_imp_le_length)
  qed
  have bas: "take_bit 16 bas OR push_bit 16 (take_bit 8 (drop_bit 16 bas)) OR push_bit 24 (drop_bit 24 bas) = bas"
  proof (rule bit_word_eqI)
    fix n assume "n < LENGTH(32)"
    then show "bit (take_bit 16 bas OR push_bit 16 (take_bit 8 (drop_bit 16 bas)) OR push_bit 24 (drop_bit 24 bas)) n = bit bas n"
      by (cases "n < 16"; cases "n < 24") (auto simp: bit_simps)
  qed
  note lim = take_drop_or [of limit]
  show ?thesis unfolding run seg_base_def seg_limit_def seg_type_def seg_dpl_def seg_class_of_def seg_granularity_of_def seg_present_def
    using sf e0 bas lim fd(3,4) cg(3,4) seg_class.exhaust seg_granularity.exhaust by (auto simp: halves)
qed

section \<open>The table after initialisation\<close>

definition gate_is :: "u32 \<Rightarrow> nat \<Rightarrow> nat \<Rightarrow> u64 \<Rightarrow> bool" where
  "gate_is f d t g \<longleftrightarrow> gate_present g \<and> gate_offset g = f \<and> gate_selector g = SEL_KCSEG \<and> gate_dpl g = d \<and> gate_type g = t"

text \<open>Every gate leads to its own stub in the kernel's code segment; \<open>D\<close> gives the privilege levels, \<open>T\<close> the types
  and \<open>H\<close> the handlers.\<close>

definition gates_ok :: "(nat \<Rightarrow> u32) \<Rightarrow> (nat \<Rightarrow> nat) \<Rightarrow> (nat \<Rightarrow> nat) \<Rightarrow> (nat \<Rightarrow> 'h option) \<Rightarrow> 'h intr_state \<Rightarrow> bool" where
  "gates_ok stubs D T H s \<longleftrightarrow> length (idt s) = INTR_CNT \<and> length (intr_handlers s) = INTR_CNT
     \<and> (\<forall>v < INTR_CNT. gate_is (stubs v) (D v) (T v) (idt s ! v) \<and> intr_handlers s ! v = H v)"

lemma gates_ok_outb [simp]: "gates_ok stubs D T H (outb p d s) = gates_ok stubs D T H s"
  by (simp add: gates_ok_def outb_def)

lemma gates:
  assumes "f \<noteq> 0" and "dpl \<in> {0, 3}"
  shows "\<exists>g. make_intr_gate f dpl = Some g \<and> gate_is f (nat dpl) 14 g" "\<exists>g. make_trap_gate f dpl = Some g \<and> gate_is f (nat dpl) 15 g"
proof -
  have d: "0 \<le> dpl" "dpl \<le> 3" using assms(2) by auto
  show "\<exists>g. make_intr_gate f dpl = Some g \<and> gate_is f (nat dpl) 14 g" "\<exists>g. make_trap_gate f dpl = Some g \<and> gate_is f (nat dpl) 15 g"
    using gate_decodes [OF assms(1) d, of 14] gate_decodes [OF assms(1) d, of 15]
    by (auto simp: make_intr_gate_def make_trap_gate_def gate_is_def)
qed

lemma register_ok:
  assumes "gates_ok stubs D T H s" and "v < INTR_CNT" and "H v = None" and "stubs v \<noteq> 0" and "dpl \<in> {0, 3}"
  shows "\<exists>s'. register_handler stubs v dpl level h name s = Some s'
     \<and> gates_ok stubs (D(v := nat dpl)) (T(v := if level = INTR_ON then 15 else 14)) (H(v := Some h)) s'"
  using gates [OF assms(4,5)] assms(1-3)
  by (cases level) (auto simp: register_handler_def gates_ok_def nth_list_update)

lemma register_int_ok:
  assumes "gates_ok stubs D T H s" and "v < INTR_CNT" and "H v = None" and "stubs v \<noteq> 0" and "dpl \<in> {0, 3}" and "v < 0x20 \<or> 0x2f < v"
  shows "\<exists>s'. intr_register_int stubs v dpl level h name s = Some s'
     \<and> gates_ok stubs (D(v := nat dpl)) (T(v := if level = INTR_ON then 15 else 14)) (H(v := Some h)) s'"
  using register_ok [OF assms(1-5)] assms(6) by (simp add: intr_register_int_def)

lemma register_ext_ok:
  assumes "gates_ok stubs D T H s" and "v < INTR_CNT" and "H v = None" and "stubs v \<noteq> 0" and "0x20 \<le> v" "v \<le> 0x2f"
  shows "\<exists>s'. intr_register_ext stubs v h name s = Some s' \<and> gates_ok stubs (D(v := 0)) (T(v := 14)) (H(v := Some h)) s'"
  using register_ok [OF assms(1-4), of 0 INTR_OFF] assms(5,6) by (simp add: intr_register_ext_def)

lemma idt_loop_ok:
  assumes "\<forall>v \<in> set is. stubs v \<noteq> 0 \<and> v < length t"
  shows "\<exists>t'. idt_loop stubs is t = Some t' \<and> length t' = length t
     \<and> (\<forall>v < length t. if v \<in> set is then gate_is (stubs v) 0 14 (t' ! v) else t' ! v = t ! v)"
  using assms
proof (induction "is" arbitrary: t)
  case (Cons i ivs)
  then obtain g where g: "make_intr_gate (stubs i) 0 = Some g" "gate_is (stubs i) 0 14 g" using gates(1) [of "stubs i" 0] by auto
  from Cons.IH [of "t[i := g]"] Cons.prems obtain t' where t': "idt_loop stubs ivs (t[i := g]) = Some t'" "length t' = length t"
    "\<forall>v < length t. if v \<in> set ivs then gate_is (stubs v) 0 14 (t' ! v) else t' ! v = t[i := g] ! v" by auto
  then have "\<forall>v < length t. if v \<in> set (i # ivs) then gate_is (stubs v) 0 14 (t' ! v) else t' ! v = t ! v"
    using g by (auto simp: nth_list_update split: if_splits)
  then show ?case using t'(1,2) g(1) by simp
qed simp

lemma intr_init_ok:
  assumes "\<forall>v < INTR_CNT. stubs v \<noteq> 0" and "length (idt s) = INTR_CNT" and "intr_handlers s = replicate INTR_CNT None"
  shows "\<exists>s'. intr_init stubs addr s = Some s' \<and> gates_ok stubs (\<lambda>_. 0) (\<lambda>_. 14) (\<lambda>_. None) s'"
proof -
  have p: "idt (pic_init s) = idt s" "intr_handlers (pic_init s) = intr_handlers s" by (simp_all add: pic_init_def outb_def)
  have "\<forall>v \<in> set [0..<INTR_CNT]. stubs v \<noteq> 0 \<and> v < length (idt (pic_init s))" using assms p by simp
  from idt_loop_ok [OF this] obtain t where "idt_loop stubs [0..<INTR_CNT] (idt (pic_init s)) = Some t" "length t = INTR_CNT"
    "\<forall>v < INTR_CNT. gate_is (stubs v) 0 14 (t ! v)"
    using assms(2) p by (auto split: if_splits)
  then show ?thesis using assms p by (simp add: intr_init_def gates_ok_def Let_def)
qed

lemma ok_bind:
  assumes "\<exists>s1. m = Some s1 \<and> P s1" and "\<And>s1. P s1 \<Longrightarrow> \<exists>s'. k s1 = Some s' \<and> Q s'"
  shows "\<exists>s'. Option.bind m k = Some s' \<and> Q s'"
  using assms by auto

lemma ok_last: "\<exists>s1. m = Some s1 \<and> P s1 \<Longrightarrow> (\<And>s1. P s1 \<Longrightarrow> Q s1) \<Longrightarrow> \<exists>s'. m = Some s' \<and> Q s'"
  by auto

text \<open>The privilege level that a program needs to raise an interrupt itself, whether the gate leaves interrupts on, and the
  handler.\<close>

definition final_dpl :: "nat \<Rightarrow> nat" where
  "final_dpl v = (if v \<in> {3, 4, 5, 0x30} then 3 else 0)"

definition final_type :: "nat \<Rightarrow> nat" where
  "final_type v = (if v \<in> {0, 1, 3, 4, 5, 6, 7, 11, 12, 13, 16, 19, 0x30} then 15 else 14)"

definition final_handler :: "nat \<Rightarrow> handler option" where
  "final_handler v = (if v \<in> {0, 1, 3, 4, 5, 6, 7, 11, 12, 13, 16, 19} then Some H_kill else if v = 14 then Some H_page_fault
     else if v = 0x30 then Some H_syscall else if v = 0x20 then Some H_timer else if v = 0x21 then Some H_keyboard
     else if v = 0x24 then Some H_serial else if v \<in> {0x2e, 0x2f} then Some H_disk else None)"

lemma gates_cong:
  assumes "gates_ok stubs D T H s" and "D = D'" and "T = T'" and "H = H'"
  shows "gates_ok stubs D' T' H' s"
  using assms by simp

lemma boot_gates:
  assumes st: "\<forall>v < INTR_CNT. stubs v \<noteq> 0" and s: "length (idt s) = INTR_CNT" "intr_handlers s = replicate INTR_CNT None"
  shows "\<exists>s'. boot_interrupts stubs addr s = Some s' \<and> gates_ok stubs final_dpl final_type final_handler s'"
proof -
  have st': "stubs v \<noteq> 0" if "v < 256" for v using st that by (simp add: INTR_CNT_def)
  have ext: "\<exists>s'. intr_register_ext stubs v h name s = Some s' \<and> gates_ok stubs (D(v := 0)) (T(v := 14)) (H(v := Some h)) s'"
    if "gates_ok stubs D T H s" "0x20 \<le> v \<and> v \<le> 0x2f \<and> H v = None" for v h name s D T H
    using register_ext_ok [of stubs D T H s v h name] that st' [of v] by (auto simp: INTR_CNT_def)
  have int: "\<exists>s'. intr_register_int stubs v dpl level h name s = Some s'
     \<and> gates_ok stubs (D(v := nat dpl)) (T(v := if level = INTR_ON then 15 else 14)) (H(v := Some h)) s'"
    if "gates_ok stubs D T H s" "v < 256 \<and> (v < 0x20 \<or> 0x2f < v) \<and> H v = None \<and> dpl \<in> {0, 3}" for v h name s D T H dpl level
    using register_int_ok [of stubs D T H s v dpl level h name] that st' [of v] by (auto simp: INTR_CNT_def)
  show ?thesis
    unfolding boot_interrupts_def timer_init_def kbd_init_def exception_init_def syscall_init_def serial_register_def disk_register_def Let_def Option.bind_assoc
    apply (rule ok_bind, rule intr_init_ok [OF st s])
    apply (rule ok_bind, rule ext, simp only: gates_ok_outb, simp)
    apply (rule ok_bind, rule ext, assumption, simp)
    apply (rule ok_bind, rule int, assumption, simp)+
    apply (rule ok_bind, rule ext, assumption, simp)+
    apply (rule ok_last, rule ext, assumption, simp)
    apply (erule gates_cong)
      apply (auto simp: fun_eq_iff final_dpl_def final_type_def final_handler_def)
    done
qed

text \<open>A flat segment of the given type and privilege level.\<close>

definition flat :: "nat \<Rightarrow> nat \<Rightarrow> u64 \<Rightarrow> bool" where
  "flat t d g \<longleftrightarrow> seg_present g \<and> seg_base g = 0 \<and> seg_limit g = 0xfffff \<and> seg_granularity_of g = GRAN_PAGE \<and> seg_class_of g = CLS_CODE_DATA
     \<and> seg_type g = t \<and> seg_dpl g = d"

lemma flat_descs:
  assumes "dpl \<in> {0, 3}"
  shows "\<exists>g. make_code_desc dpl = Some g \<and> flat 10 (nat dpl) g" "\<exists>g. make_data_desc dpl = Some g \<and> flat 2 (nat dpl) g"
  using seg_decodes [of "0xfffff" 10 dpl 0 CLS_CODE_DATA GRAN_PAGE] seg_decodes [of "0xfffff" 2 dpl 0 CLS_CODE_DATA GRAN_PAGE] assms
  by (auto simp: make_code_desc_def make_data_desc_def flat_def)

lemma gdt_init_ok:
  assumes "tss_ptr g \<noteq> 0" and "length (gdt g) = SEL_CNT"
  shows "\<exists>g'. gdt_init addr g = Some g' \<and> flat 10 0 (gdt g' ! (SEL_KCSEG div 8)) \<and> flat 2 0 (gdt g' ! (SEL_KDSEG div 8))
     \<and> flat 10 3 (gdt g' ! (SEL_UCSEG div 8)) \<and> flat 2 3 (gdt g' ! (SEL_UDSEG div 8)) \<and> gdt g' ! (SEL_NULL div 8) = 0
     \<and> seg_base (gdt g' ! (SEL_TSS div 8)) = tss_ptr g \<and> seg_dpl (gdt g' ! (SEL_TSS div 8)) = 0"
proof -
  obtain kc kd uc ud where d: "make_code_desc 0 = Some kc" "flat 10 0 kc" "make_data_desc 0 = Some kd" "flat 2 0 kd"
      "make_code_desc 3 = Some uc" "flat 10 3 uc" "make_data_desc 3 = Some ud" "flat 2 3 ud"
    using flat_descs [of 0] flat_descs [of 3] by auto
  obtain td where "make_tss_desc (tss_ptr g) = Some td" "seg_base td = tss_ptr g" "seg_dpl td = 0"
    using seg_decodes [of "0x67" 9 0 "tss_ptr g" CLS_SYSTEM GRAN_BYTE] by (auto simp: make_tss_desc_def)
  with d assms show ?thesis
    by (simp add: gdt_init_def tss_get_def SEL_NULL_def SEL_KCSEG_def SEL_KDSEG_def SEL_UCSEG_def SEL_UDSEG_def SEL_TSS_def SEL_CNT_def)
qed

text \<open>C36. Interrupt gates and segment descriptors decode to what they were made for. For every handler
  address, privilege level and type, the gate that \<open>make_gate\<close> packs into 64 bits is present and
  gives the processor that address, the kernel's code segment, that privilege level and that type; the descriptor
  that \<open>make_seg_desc\<close> packs gives that base, limit, type, privilege level, class and granularity. No field overlaps another.\<close>

theorem descriptors_decode:
  assumes "f \<noteq> 0" and "0 \<le> dpl" and "dpl \<le> 3" and "0 \<le> type" and "type \<le> 15" and "limit \<le> 0xfffff"
  shows "\<exists>g d. make_gate f dpl type = Some g \<and> gate_offset g = f \<and> gate_selector g = SEL_KCSEG \<and> gate_present g
       \<and> gate_dpl g = nat dpl \<and> gate_type g = nat type
     \<and> make_seg_desc bas limit cl type dpl gran = Some d \<and> seg_base d = bas \<and> seg_limit d = limit \<and> seg_type d = nat type
       \<and> seg_dpl d = nat dpl \<and> seg_class_of d = cl \<and> seg_granularity_of d = gran \<and> seg_present d"
  using gate_decodes [OF assms(1-5)] seg_decodes [OF assms(6,4,5,2,3), of bas cl gran] by blast

theorem descriptors_decode_witness:
  "\<exists>g d. make_gate 0xc0012345 3 15 = Some g \<and> gate_offset g = 0xc0012345
     \<and> make_seg_desc 0xc0abcdef 0x12345 CLS_SYSTEM 15 3 GRAN_BYTE = Some d \<and> seg_base d = 0xc0abcdef \<and> seg_limit d = 0x12345"
  using descriptors_decode [of "0xc0012345" 3 15 "0x12345" "0xc0abcdef" CLS_SYSTEM GRAN_BYTE] by auto

text \<open>C37. What user programs can reach after the kernel has initialised interrupts and segments. No registration
  collides with another; every gate of the table leads to its own stub in the kernel's code segment; the only
  interrupts that a user program may raise with \<open>INT\<close> are the breakpoint, overflow and bound exceptions and the
  system call; page faults and the devices run with interrupts off. The user selectors name flat segments of
  privilege level 3, the kernel's selectors flat segments of level 0, and the task-state segment lies where
  \<open>tss_init\<close> put it, at level 0.\<close>

theorem boot_protection:
  assumes "\<forall>v < INTR_CNT. stubs v \<noteq> 0" and "length (idt s) = INTR_CNT" and "intr_handlers s = replicate INTR_CNT None"
    and "tss_ptr g \<noteq> 0" and "length (gdt g) = SEL_CNT"
  shows "\<exists>s' g'. boot_interrupts stubs idt_addr s = Some s' \<and> gdt_init gdt_addr g = Some g'
     \<and> (\<forall>v < INTR_CNT. gate_present (idt s' ! v) \<and> gate_offset (idt s' ! v) = stubs v \<and> gate_selector (idt s' ! v) = SEL_KCSEG
          \<and> gate_dpl (idt s' ! v) = (if v \<in> {3, 4, 5, 0x30} then 3 else 0)
          \<and> (0x20 \<le> v \<and> v \<le> 0x2f \<or> v = 14 \<longrightarrow> gate_type (idt s' ! v) = 14) \<and> intr_handlers s' ! v = final_handler v)
     \<and> flat 10 0 (gdt g' ! (SEL_KCSEG div 8)) \<and> flat 2 0 (gdt g' ! (SEL_KDSEG div 8))
     \<and> flat 10 3 (gdt g' ! (SEL_UCSEG div 8)) \<and> flat 2 3 (gdt g' ! (SEL_UDSEG div 8))
     \<and> seg_base (gdt g' ! (SEL_TSS div 8)) = tss_ptr g \<and> seg_dpl (gdt g' ! (SEL_TSS div 8)) = 0"
proof -
  from boot_gates [OF assms(1-3), of idt_addr] obtain s' where s': "boot_interrupts stubs idt_addr s = Some s'"
    "gates_ok stubs final_dpl final_type final_handler s'" by blast
  then have "\<forall>v < INTR_CNT. gate_present (idt s' ! v) \<and> gate_offset (idt s' ! v) = stubs v \<and> gate_selector (idt s' ! v) = SEL_KCSEG
          \<and> gate_dpl (idt s' ! v) = (if v \<in> {3, 4, 5, 0x30} then 3 else 0)
          \<and> (0x20 \<le> v \<and> v \<le> 0x2f \<or> v = 14 \<longrightarrow> gate_type (idt s' ! v) = 14) \<and> intr_handlers s' ! v = final_handler v"
    by (auto simp: gates_ok_def gate_is_def final_dpl_def final_type_def)
  with s'(1) gdt_init_ok [OF assms(4,5), of gdt_addr] show ?thesis by blast
qed

definition demo_intr :: "handler intr_state" where
  "demo_intr = \<lparr> cpu_flags = FLAG_MBS, idt = replicate 256 0, idtr = 0, intr_handlers = replicate 256 None,
     intr_names = replicate 256 [], in_external_intr = False, yield_on_return = False, ports = [] \<rparr>"

definition demo_segs :: seg_state where
  "demo_segs = \<lparr> gdt = replicate 6 0, gdtr = 0, tr = 0, tss_ptr = 0xc0101000, esp0 = 0xc0102000, ss0 = SEL_KDSEG, io_bitmap = 0xdfff \<rparr>"

theorem boot_protection_witness:
  "\<exists>s' g'. boot_interrupts (\<lambda>v. 0xc0020000) 0xc0030000 demo_intr = Some s' \<and> gdt_init 0xc0040000 demo_segs = Some g'
     \<and> gate_dpl (idt s' ! 0x30) = 3 \<and> gate_dpl (idt s' ! 14) = 0"
  using boot_protection [of "\<lambda>v. 0xc0020000" demo_intr demo_segs "0xc0030000" "0xc0040000"]
  by (fastforce simp: INTR_CNT_def SEL_CNT_def demo_intr_def demo_segs_def)

end
