(* ===== verification/Vm.thy ===== *)
theory Vm
  imports Pagedir Swap Filesys Intr
begin

text \<open>
  Virtual memory, \<^verbatim>\<open>vm/frame.c\<close> and \<^verbatim>\<open>vm/page.c\<close>, with \<open>install_page\<close> of \<^verbatim>\<open>userprog/process.c\<close>. The state puts
  the parts of the kernel together: the page directories and the physical memory of \<open>Pagedir\<close>, the swap
  device, the file system, the frame table, and the processes. A pointer to a supplementary page table
  entry is an address of \<open>sptes\<close>, 0 the null pointer; the supplementary page table of a process is the list of the addresses of
  its entries. A pointer to a thread is a number, the address of its page, and \<open>current\<close> is the running thread; \<open>segs\<close> has the task state of the
  processor. \<open>fresh_spte\<close> is what the
  memory of an entry holds when \<open>malloc\<close> returns it: the code sets only some of the fields.

  \<open>vm_inv\<close> is the invariant of the whole, and \<open>page_view\<close> the contents that a process sees at a page,
  wherever they are: in a frame, on the swap device, or still in a file. Evicting a frame and loading a page
  change neither.
\<close>

section \<open>State\<close>

definition LIMIT :: nat where "LIMIT = 2 ^ 23"

datatype page_type = TYPE_SWAP | TYPE_MMAP | TYPE_FILE

datatype palloc_type = GROW_STACK | PAGE_FAULT | LOAD_SEGMENT | CREATE_MMAP

record spte =
  user_vaddr :: u32
  read_bytes :: nat
  zero_bytes :: nat
  is_swapped :: bool
  spt_file :: "nat option"
  spt_offset :: nat
  page_writable :: bool
  loaded :: bool
  file_type :: page_type
  map_id :: int
  swap_num :: disk_sector_t

record frame_table_entry =
  frame :: u32
  owner :: nat
  fte_spte :: nat

text \<open>The fields of \<open>struct thread\<close> that belong to user programs.\<close>

record thread =
  tid :: int
  thread_name :: "byte list"
  pagedir :: u32
  fd_vld :: int
  main_file :: "nat option"
  sema_load :: nat
  sema_wait :: nat
  sema_exited :: nat
  th_parent :: nat
  list_children :: "nat list"
  is_exited :: bool
  exit_status :: int
  is_loaded :: bool
  sup_page_table :: "nat list"
  list_mmap :: "nat list"
  next_map_id :: int
  list_file :: "(int \<times> nat) list"
  current_dir :: "nat option"

record kstate =
  mem :: vmem
  swap :: swap_state
  files :: fsys
  frame_table :: "frame_table_entry list"
  lock_frame :: bool
  sptes :: "nat \<Rightarrow> spte option"
  next_spte :: nat
  fresh_spte :: "nat \<Rightarrow> spte"
  threads :: "nat \<Rightarrow> thread"
  current :: nat
  page_fault_cnt :: nat
  console :: console_state
  keys :: "byte list"
  segs :: seg_state

definition thread_current :: "kstate \<Rightarrow> thread" where
  "thread_current s = threads s (current s)"

definition set_spte :: "nat \<Rightarrow> spte \<Rightarrow> kstate \<Rightarrow> kstate" where
  "set_spte a e s = s\<lparr>sptes := (sptes s)(a \<mapsto> e)\<rparr>"

definition upd_current :: "(thread \<Rightarrow> thread) \<Rightarrow> kstate \<Rightarrow> kstate" where
  "upd_current f s = s\<lparr>threads := (threads s)(current s := f (threads s (current s)))\<rparr>"

definition kmalloc :: "kstate \<Rightarrow> bool \<times> kstate" where
  "kmalloc s = (let (ok, f) = fs_malloc (fs (files s)) in (ok, s\<lparr>files := (files s)\<lparr>fs := f\<rparr>\<rparr>))"

text \<open>The contents of a frame, and storing into it.\<close>

definition frame_bytes :: "kstate \<Rightarrow> u32 \<Rightarrow> byte list" where
  "frame_bytes s a = pages (phys (mem s)) a"

definition put_page :: "u32 \<Rightarrow> byte list \<Rightarrow> vmem \<Rightarrow> vmem" where
  "put_page a bs m = m\<lparr>phys := (phys m)\<lparr>pages := (pages (phys m))(a := bs)\<rparr>\<rparr>"

definition acquire_frame_lock :: "kstate \<Rightarrow> kstate option" where
  "acquire_frame_lock s = do { kassert (\<not> lock_frame s); Some (s\<lparr>lock_frame := True\<rparr>) }"

definition release_frame_lock :: "kstate \<Rightarrow> kstate option" where
  "release_frame_lock s = do { kassert (lock_frame s); Some (s\<lparr>lock_frame := False\<rparr>) }"

section \<open>The frame table\<close>

definition frame_init :: "kstate \<Rightarrow> kstate" where
  "frame_init s = s\<lparr>frame_table := [], lock_frame := False\<rparr>"

definition insert_frame_table :: "frame_table_entry \<Rightarrow> kstate \<Rightarrow> kstate" where
  "insert_frame_table fte s = s\<lparr>frame_table := frame_table s @ [fte]\<rparr>"

definition create_frame_table_entry :: "u32 \<Rightarrow> nat \<Rightarrow> kstate \<Rightarrow> frame_table_entry option \<times> kstate" where
  "create_frame_table_entry fr spt_e s =
     (let (ok, s1) = kmalloc s in
      (if ok then Some \<lparr>frame = fr, owner = current s1, fte_spte = spt_e\<rparr> else None, s1))"

definition remove_frame :: "nat \<Rightarrow> kstate \<Rightarrow> kstate" where
  "remove_frame i s = s\<lparr>frame_table := take i (frame_table s) @ drop (Suc i) (frame_table s)\<rparr>"

text \<open>The body of the branch of \<open>evict_frame\<close> that gives up the frame of entry \<open>i\<close>. A null frame pointer
  faults when its page is written to the swap device.\<close>

definition evict_entry :: "nat \<Rightarrow> kstate \<Rightarrow> kstate option" where
  "evict_entry i s = do {
     let fte = frame_table s ! i;
     let pd = pagedir (threads s (owner fte));
     spt_e \<leftarrow> sptes s (fte_spte fte);
     dirty \<leftarrow> pagedir_is_dirty pd (user_vaddr spt_e) (mem s);
     s1 \<leftarrow> (if dirty \<or> file_type spt_e = TYPE_SWAP
            then do {
              kassert (frame fte \<noteq> 0);
              (x, sw) \<leftarrow> swap_out (frame_bytes s (frame fte)) (swap s);
              Some (set_spte (fte_spte fte) (spt_e\<lparr>file_type := TYPE_SWAP, swap_num := x, is_swapped := True\<rparr>) (s\<lparr>swap := sw\<rparr>)) }
            else Some s);
     let s2 = remove_frame i s1;
     m \<leftarrow> pagedir_clear_page pd (user_vaddr spt_e) (mem s2);
     m1 \<leftarrow> free_page_at (frame fte) m;
     e1 \<leftarrow> sptes s2 (fte_spte fte);
     Some (set_spte (fte_spte fte) (e1\<lparr>loaded := False\<rparr>) (s2\<lparr>mem := m1\<rparr>)) }"

text \<open>A pass over the frame table, from entry \<open>i\<close> on; \<open>first\<close> tells the first pass, which does not expect a
  page of type \<open>TYPE_MMAP\<close>, from the second.\<close>

primrec evict_loop :: "bool \<Rightarrow> nat \<Rightarrow> nat \<Rightarrow> kstate \<Rightarrow> (bool \<times> kstate) option" where
  "evict_loop first 0 i s = Some (False, s)"
| "evict_loop first (Suc n) i s = do {
     let fte = frame_table s ! i;
     let pd = pagedir (threads s (owner fte));
     spt_e \<leftarrow> sptes s (fte_spte fte);
     accessed \<leftarrow> pagedir_is_accessed pd (user_vaddr spt_e) (mem s);
     if \<not> accessed then do {
       kassert (\<not> first \<or> file_type spt_e \<noteq> TYPE_MMAP);
       s1 \<leftarrow> evict_entry i s;
       Some (True, s1) }
     else do {
       m \<leftarrow> pagedir_set_accessed pd (user_vaddr spt_e) False (mem s);
       evict_loop first n (Suc i) (s\<lparr>mem := m\<rparr>) } }"

definition evict_frame :: "kstate \<Rightarrow> (bool \<times> kstate) option" where
  "evict_frame s =
     (if frame_table s = [] then Some (False, s)
      else do {
        (done1, s1) \<leftarrow> evict_loop True (length (frame_table s)) 0 s;
        if done1 then Some (True, s1) else evict_loop False (length (frame_table s1)) 0 s1 })"

text \<open>The first half of \<open>allocate_frame\<close>: a user page, after an eviction if there is none.\<close>

definition obtain_frame :: "u32 \<Rightarrow> kstate \<Rightarrow> (u32 \<times> kstate) option" where
  "obtain_frame pflag s = do {
     (fr, m) \<leftarrow> palloc_get_page pflag (phys (mem s));
     let s1 = s\<lparr>mem := (mem s)\<lparr>phys := m\<rparr>\<rparr>;
     if fr = 0 then do {
       (success, s3) \<leftarrow> evict_frame s1;
       if success then do {
         (fr4, m4) \<leftarrow> palloc_get_page pflag (phys (mem s3));
         Some (fr4, s3\<lparr>mem := (mem s3)\<lparr>phys := m4\<rparr>\<rparr>) }
       else Some (0, s3) }
     else Some (fr, s1) }"

definition allocate_frame :: "nat \<Rightarrow> u32 \<Rightarrow> kstate \<Rightarrow> (u32 \<times> kstate) option" where
  "allocate_frame spt_e pflag s = do {
     kassert (pflag AND PAL_USER \<noteq> 0);
     (fr, s1) \<leftarrow> obtain_frame pflag s;
     let (fte, s2) = create_frame_table_entry fr spt_e s1;
     case fte of None \<Rightarrow> Some (0, s2) | Some f \<Rightarrow> Some (fr, insert_frame_table f s2) }"

fun find_frame :: "u32 \<Rightarrow> frame_table_entry list \<Rightarrow> nat option" where
  "find_frame fr [] = None"
| "find_frame fr (f # rest) = (if frame f = fr then Some 0 else map_option Suc (find_frame fr rest))"

definition search_frame_table_entry :: "u32 \<Rightarrow> kstate \<Rightarrow> frame_table_entry option" where
  "search_frame_table_entry fr s = map_option ((!) (frame_table s)) (find_frame fr (frame_table s))"

definition free_frame :: "u32 \<Rightarrow> kstate \<Rightarrow> kstate option" where
  "free_frame fr s = (case find_frame fr (frame_table s) of None \<Rightarrow> Some s
   | Some i \<Rightarrow> do {
       let s1 = remove_frame i s;
       m \<leftarrow> free_page_at fr (mem s1);
       Some (s1\<lparr>mem := m\<rparr>) })"

section \<open>The supplementary page table\<close>

text \<open>The entry for a page, among the entries of a list; a pointer to a freed entry must not be followed.\<close>

fun find_spte :: "u32 \<Rightarrow> (nat \<Rightarrow> spte option) \<Rightarrow> nat list \<Rightarrow> nat option option" where
  "find_spte va h [] = Some None"
| "find_spte va h (a # as) = do {
     e \<leftarrow> h a;
     if user_vaddr e = va then Some (Some a) else find_spte va h as }"

definition page_insert :: "nat \<Rightarrow> kstate \<Rightarrow> (bool \<times> kstate) option" where
  "page_insert a s = do {
     e \<leftarrow> sptes s a;
     r \<leftarrow> find_spte (user_vaddr e) (sptes s) (sup_page_table (thread_current s));
     if r \<noteq> None then Some (False, s)
     else Some (True, upd_current (\<lambda>t. t\<lparr>sup_page_table := sup_page_table t @ [a]\<rparr>) s) }"

definition allocate_page ::
    "u32 \<Rightarrow> bool \<Rightarrow> palloc_type \<Rightarrow> nat \<Rightarrow> nat \<Rightarrow> nat option \<Rightarrow> nat \<Rightarrow> bool \<Rightarrow> kstate \<Rightarrow> (nat \<times> kstate) option" where
  "allocate_page addr ld p_type rb zb fp ofs wr s = do {
     kassert (\<not> is_kernel_vaddr addr);
     let (ok, s1) = kmalloc s;
     if \<not> ok then Some (0, s1)
     else do {
       let a = next_spte s1;
       let e0 = fresh_spte s1 a;
       let e1 = (if p_type = GROW_STACK \<or> p_type = PAGE_FAULT
                 then e0\<lparr>user_vaddr := addr, loaded := ld, page_writable := wr, file_type := TYPE_SWAP\<rparr>
                 else (if p_type = CREATE_MMAP then e0\<lparr>file_type := TYPE_MMAP, map_id := next_map_id (thread_current s1)\<rparr> else e0)
                   \<lparr>user_vaddr := addr, loaded := ld, read_bytes := rb, zero_bytes := zb, spt_offset := ofs, spt_file := fp,
                    page_writable := wr, file_type := TYPE_FILE\<rparr>);
       Some (a, set_spte a (e1\<lparr>is_swapped := False\<rparr>) (s1\<lparr>next_spte := Suc a\<rparr>)) } }"

definition find_page :: "u32 \<Rightarrow> kstate \<Rightarrow> nat option option" where
  "find_page addr s = find_spte (pg_round_down addr) (sptes s) (sup_page_table (thread_current s))"

definition free_page :: "nat \<Rightarrow> kstate \<Rightarrow> kstate option" where
  "free_page a s = do {
     e \<leftarrow> sptes s a;
     s1 \<leftarrow> (if loaded e then do {
              let pd = pagedir (thread_current s);
              fr \<leftarrow> pagedir_get_page pd (user_vaddr e) (mem s);
              s2 \<leftarrow> free_frame fr s;
              m \<leftarrow> pagedir_clear_page pd (user_vaddr e) (mem s2);
              Some (s2\<lparr>mem := m\<rparr>) }
            else Some s);
     Some (s1\<lparr>sptes := (sptes s1)(a := None)\<rparr>) }"

definition install_page :: "u32 \<Rightarrow> u32 \<Rightarrow> bool \<Rightarrow> kstate \<Rightarrow> (bool \<times> kstate) option" where
  "install_page upage kpage wr s = do {
     let pd = pagedir (thread_current s);
     old \<leftarrow> pagedir_get_page pd upage (mem s);
     if old = 0 then do {
       (ok, m) \<leftarrow> pagedir_set_page pd upage kpage wr (mem s);
       Some (ok, s\<lparr>mem := m\<rparr>) }
     else Some (False, s) }"

text \<open>\<open>memset (frame + read_bytes, 0, zero_bytes)\<close> on the page that \<open>file_read_at\<close> has filled.\<close>

definition zero_tail :: "nat \<Rightarrow> nat \<Rightarrow> byte list \<Rightarrow> byte list" where
  "zero_tail rb zb p = take rb p @ replicate zb 0 @ drop (rb + zb) p"

definition fill_frame :: "spte \<Rightarrow> u32 \<Rightarrow> kstate \<Rightarrow> kstate option" where
  "fill_frame e fr s =
     (if read_bytes e > 0 then do {
        fp \<leftarrow> spt_file e;
        (n, bs, f) \<leftarrow> file_read_at fp (frame_bytes s fr) (read_bytes e) (spt_offset e) (files s);
        kassert (n = read_bytes e);
        kassert (read_bytes e + zero_bytes e \<le> PGSIZE);
        Some (s\<lparr>files := f, mem := put_page fr (zero_tail (read_bytes e) (zero_bytes e) bs) (mem s)\<rparr>) }
      else Some s)"

definition file_handling :: "nat \<Rightarrow> kstate \<Rightarrow> (bool \<times> kstate) option" where
  "file_handling a s = do {
     e \<leftarrow> sptes s a;
     (fr, s1) \<leftarrow> allocate_frame a (if read_bytes e = 0 then PAL_USER OR PAL_ZERO else PAL_USER) s;
     if fr = 0 then Some (False, s1)
     else do {
       s2 \<leftarrow> fill_frame e fr s1;
       (success, s3) \<leftarrow> install_page (user_vaddr e) fr (page_writable e) s2;
       if \<not> success then do { s4 \<leftarrow> free_frame fr s3; Some (False, s4) }
       else do {
         e3 \<leftarrow> sptes s3 a;
         Some (True, set_spte a (e3\<lparr>loaded := True\<rparr>) s3) } } }"

definition swap_handling :: "nat \<Rightarrow> kstate \<Rightarrow> (bool \<times> kstate) option" where
  "swap_handling a s = do {
     e \<leftarrow> sptes s a;
     (fr, s1) \<leftarrow> allocate_frame a PAL_USER s;
     if fr = 0 then Some (False, s1)
     else do {
       (success, s2) \<leftarrow> install_page (user_vaddr e) fr (page_writable e) s1;
       if \<not> success then do { s3 \<leftarrow> free_frame fr s2; Some (False, s3) }
       else do {
         e2 \<leftarrow> sptes s2 a;
         s3 \<leftarrow> (if is_swapped e2 then do {
                  (bs, sw) \<leftarrow> swap_in (frame_bytes s2 fr) (swap_num e2) (swap s2);
                  Some (s2\<lparr>swap := sw, mem := put_page fr bs (mem s2)\<rparr>) }
                else Some s2);
         Some (True, set_spte a (e2\<lparr>is_swapped := False, loaded := True\<rparr>) s3) } } }"

definition page_handling :: "nat \<Rightarrow> kstate \<Rightarrow> (bool \<times> kstate) option" where
  "page_handling a s = do {
     s1 \<leftarrow> acquire_frame_lock s;
     e \<leftarrow> sptes s1 a;
     (success, s2) \<leftarrow> (case file_type e of
         TYPE_FILE \<Rightarrow> if loaded e then swap_handling a s1 else file_handling a s1
       | TYPE_MMAP \<Rightarrow> file_handling a s1
       | TYPE_SWAP \<Rightarrow> swap_handling a s1);
     s3 \<leftarrow> release_frame_lock s2;
     Some (success, s3) }"

text \<open>The only callers pass \<open>PAGE_FAULT\<close> and \<open>GROW_STACK\<close>; \<open>allocate_frame\<close> stores the null pointer of a failed
  \<open>allocate_page\<close>, and \<open>page_insert\<close> follows it.\<close>

definition grow_stack :: "u32 \<Rightarrow> palloc_type \<Rightarrow> kstate \<Rightarrow> (bool \<times> kstate) option" where
  "grow_stack addr ptype s = do {
     kassert (ptype = PAGE_FAULT \<or> ptype = GROW_STACK);
     let page_addr = pg_round_down addr;
     (a, s1) \<leftarrow> allocate_page page_addr True ptype 0 0 None 0 True s;
     (fr, s2) \<leftarrow> allocate_frame a (if ptype = PAGE_FAULT then PAL_USER else PAL_USER OR PAL_ZERO) s1;
     if fr = 0 then Some (False, s2\<lparr>sptes := (sptes s2)(a := None)\<rparr>)
     else do {
       (success, s3) \<leftarrow> install_page page_addr fr True s2;
       if \<not> success then do { s4 \<leftarrow> free_frame fr s3; Some (False, s4\<lparr>sptes := (sptes s4)(a := None)\<rparr>) }
       else page_insert a s3 } }"

section \<open>Changes to the pages of the user pool\<close>

lemma vm_ok_users:
  assumes ok: "vm_ok m D" and regs: "same_regs m m'" and wf: "pmem_wf (phys m')" and ku: "kused m' = kused m"
    and pg: "\<forall>a \<in> kused m. pages (phys m') a = pages (phys m) a"
  shows "vm_ok m' D" "\<And>pd va. pd \<in> D \<Longrightarrow> is_user_vaddr va \<Longrightarrow> page_map m' pd va = page_map m pd va"
proof -
  have d: "dirs_ok m D" and t: "tlb_ok m D" using ok by (auto simp: vm_ok_def)
  have E: "ent m' b k = ent m b k" if "b \<in> kused m" for b k using pg that by (simp add: ent_def)
  have Dk: "pd \<in> kused m" if "pd \<in> D" for pd using d that by (auto simp: dirs_ok_def)
  have P: "pt_of m' b k = pt_of m b k" if "b \<in> D" for b k using E Dk that by (simp add: pt_of_def)
  have S: "slots m' D = slots m D" using E Dk by (auto simp: slots_def)
  have B: "base_page_dir m' = base_page_dir m" using regs by (simp add: same_regs_def)
  have pk: "pt_of m b k \<in> kused m" if "(b, k) \<in> slots m D" for b k using d that by (auto simp: dirs_ok_def slot_ok_def)
  have so: "slot_ok m' D x" if x: "x \<in> slots m D" for x
  proof -
    obtain b k where bk: "x = (b, k)" "slot_ok m D (b, k)" "b \<in> D" using x d by (cases x) (auto simp: dirs_ok_def slots_def)
    then show ?thesis using pk [of b k] x E [OF Dk [OF bk(3)]] E [of "pt_of m b k"] P [OF bk(3)] B ku by (auto simp: slot_ok_def)
  qed
  have "inj_on (\<lambda>(b, k). pt_of m' b k) (slots m D) = inj_on (\<lambda>(b, k). pt_of m b k) (slots m D)"
    by (rule inj_on_cong) (auto simp: slots_def P)
  then have d': "dirs_ok m' D" using d so wf E ku B unfolding dirs_ok_def S by auto
  show pm: "page_map m' pd va = page_map m pd va" if "pd \<in> D" "is_user_vaddr va" for pd va
  proof -
    have "unat (pd_no va) < 768" using that pd_no_user by simp
    then have "pt_of m pd (unat (pd_no va)) \<in> kused m" if "ent m pd (unat (pd_no va)) \<noteq> 0"
      using pk \<open>pd \<in> D\<close> that by (auto simp: slots_def)
    then show ?thesis using E [OF Dk [OF that(1)]] E P [OF that(1)] by (auto simp: page_map_def pte_def)
  qed
  have "tlb_ok m' D" using t regs pm unfolding tlb_ok_def active_pd_def same_regs_def by auto
  then show "vm_ok m' D" using d' by (simp add: vm_ok_def)
qed

text \<open>The pages of the user pool in use.\<close>

definition uused :: "vmem \<Rightarrow> u32 set" where
  "uused m = used_pages (user_pool (phys m))"

lemma uused_kernel: "pmem_wf (phys m) \<Longrightarrow> a \<in> uused m \<Longrightarrow> a \<notin> kused m"
  using user_not_kernel [of "phys m" a] kused_pool [of m] by (auto simp: uused_def)

lemma put_page_spec:
  assumes ok: "vm_ok m D" and a: "a \<in> uused m" and len: "length bs = PGSIZE"
  shows "vm_ok (put_page a bs m) D" "\<And>pd va. pd \<in> D \<Longrightarrow> is_user_vaddr va \<Longrightarrow> page_map (put_page a bs m) pd va = page_map m pd va"
    "uused (put_page a bs m) = uused m" "pages (phys (put_page a bs m)) = (pages (phys m))(a := bs)"
    "same_regs m (put_page a bs m)"
proof -
  have wf: "pmem_wf (phys m)" using ok by (simp add: vm_ok_def dirs_ok_def)
  show r: "same_regs m (put_page a bs m)" by (simp add: same_regs_def put_page_def)
  have "pmem_wf (phys (put_page a bs m))" using wf len by (simp add: put_page_def pmem_wf_def)
  moreover have "kused (put_page a bs m) = kused m" by (simp add: kused_def put_page_def)
  moreover have "\<forall>b \<in> kused m. pages (phys (put_page a bs m)) b = pages (phys m) b"
    using uused_kernel [OF wf a] by (auto simp: put_page_def)
  ultimately show "vm_ok (put_page a bs m) D" "\<And>pd va. pd \<in> D \<Longrightarrow> is_user_vaddr va \<Longrightarrow> page_map (put_page a bs m) pd va = page_map m pd va"
    using vm_ok_users [OF ok r] by blast+
  show "uused (put_page a bs m) = uused m" "pages (phys (put_page a bs m)) = (pages (phys m))(a := bs)"
    by (simp_all add: put_page_def uused_def)
qed

lemma free_user_page:
  assumes ok: "vm_ok m D" and a: "a \<in> uused m"
  shows "\<exists>m'. free_page_at a m = Some m' \<and> vm_ok m' D \<and> uused m' = uused m - {a}
    \<and> (\<forall>b. b \<noteq> a \<longrightarrow> pages (phys m') b = pages (phys m) b) \<and> same_regs m m'
    \<and> (\<forall>u. pool_pages (get_pool u (phys m')) = pool_pages (get_pool u (phys m)))
    \<and> (\<forall>pd va. pd \<in> D \<longrightarrow> is_user_vaddr va \<longrightarrow> page_map m' pd va = page_map m pd va) \<and> kernel_full m' = kernel_full m"
proof -
  have wf: "pmem_wf (phys m)" using ok by (simp add: vm_ok_def dirs_ok_def)
  have "a \<in> used (phys m)" using a by (simp add: uused_def used_def)
  from free_page_at_spec [OF wf this] obtain m' where m': "free_page_at a m = Some m'" "freed m {a} m'" by blast
  have wf': "pmem_wf (phys m')" and u: "used (phys m') = used (phys m) - {a}" and r: "same_regs m m'"
    and pp: "\<forall>u. pool_pages (get_pool u (phys m')) = pool_pages (get_pool u (phys m))"
    and pg: "\<forall>b. b \<noteq> a \<longrightarrow> pages (phys m') b = pages (phys m) b"
    using m'(2) by (auto simp: freed_def)
  have k: "a \<notin> kused m" by (rule uused_kernel [OF wf a])
  have U: "used_pages (get_pool v (phys m')) = used_pages (get_pool v (phys m)) - {a}" for v
    using used_pages_pool [OF wf, of v] used_pages_pool [OF wf', of v] u pp by auto
  have ku: "kused m' = kused m" using U [of False] k by (simp add: kused_def get_pool_def)
  moreover have "kernel_full m' = kernel_full m" using ku pp [rule_format, of False] by (simp add: kernel_full_def get_pool_def)
  moreover have "uused m' = uused m - {a}" using U [of True] by (simp add: uused_def get_pool_def)
  moreover have "\<forall>b \<in> kused m. pages (phys m') b = pages (phys m) b" using pg k by auto
  ultimately show ?thesis using vm_ok_users [OF ok r wf'] m'(1) pp pg r by blast
qed

text \<open>A request for a user page: it fails only when the whole pool is in use.\<close>

definition users_full :: "vmem \<Rightarrow> bool" where
  "users_full m \<longleftrightarrow> pool_pages (user_pool (phys m)) \<subseteq> uused m"

lemma get_user_page:
  assumes ok: "vm_ok m D" and pflags: "pflags AND PAL_USER \<noteq> 0" "pflags AND PAL_ASSERT = 0"
  obtains (full) "palloc_get_page pflags (phys m) = Some (0, phys m)" "users_full m"
    | (found) a p where "palloc_get_page pflags (phys m) = Some (a, p)" "a \<noteq> 0" "kpage_ok a" "a \<notin> uused m"
      "vm_ok (m\<lparr>phys := p\<rparr>) D" "uused (m\<lparr>phys := p\<rparr>) = insert a (uused m)" "a \<in> pool_pages (user_pool (phys m))"
      "pages p = (if pflags AND PAL_ZERO \<noteq> 0 then (pages (phys m))(a := replicate PGSIZE 0) else pages (phys m))"
      "\<forall>u. pool_pages (get_pool u p) = pool_pages (get_pool u (phys m))"
      "\<forall>pd va. pd \<in> D \<longrightarrow> is_user_vaddr va \<longrightarrow> page_map (m\<lparr>phys := p\<rparr>) pd va = page_map m pd va"
proof -
  have wf: "pmem_wf (phys m)" using ok by (simp add: vm_ok_def dirs_ok_def)
  show thesis
  proof (rule palloc_get_spec [OF wf, of 1 pflags])
    assume f: "palloc_get_multiple pflags 1 (phys m) = (if pflags AND PAL_ASSERT = 0 then Some (0, phys m) else None)"
      "no_run (used_map (get_pool (pflags AND PAL_USER \<noteq> 0) (phys m))) 1 False 0 (bit_cnt (used_map (get_pool (pflags AND PAL_USER \<noteq> 0) (phys m))))"
    have "bit_at (used_map (user_pool (phys m))) i" if "i < bit_cnt (used_map (user_pool (phys m)))" for i
      using f(2) pflags(1) that by (fastforce simp: get_pool_def no_run_def bit_run_def Suc_le_eq less_Suc_eq)
    then have "users_full m" by (auto simp: users_full_def uused_def pool_pages_def used_pages_def)
    then show thesis using full f(1) pflags by (simp add: palloc_get_page_def)
  next
    fix a p assume "palloc_get_multiple pflags 1 (phys m) = Some (a, p)" "fresh_run (pflags AND PAL_USER \<noteq> 0) (phys m) a 1"
      and p: "pmem_wf p" "used p = used (phys m) \<union> run_pages a 1"
      "pages p = (if pflags AND PAL_ZERO \<noteq> 0 then fill_pages (pages (phys m)) a 1 0 else pages (phys m))"
      "\<forall>u. pool_pages (get_pool u p) = pool_pages (get_pool u (phys m))"
    then have a: "palloc_get_page pflags (phys m) = Some (a, p)" "a \<noteq> 0" "kpage_ok a" "a \<notin> used (phys m)"
      "a \<in> pool_pages (get_pool True (phys m))"
      using pflags(1) by (auto simp: palloc_get_page_def fresh_run_def)
    have nk: "a \<notin> pool_pages (get_pool False (phys m))" using a(5) wf by (auto simp: pmem_wf_alt)
    have pg: "pages p = (if pflags AND PAL_ZERO \<noteq> 0 then (pages (phys m))(a := replicate PGSIZE 0) else pages (phys m))"
      using p(3) by (simp add: fill_pages_eq [abs_def] fun_upd_def)
    have U: "used_pages (get_pool v p) = (used (phys m) \<union> {a}) \<inter> pool_pages (get_pool v (phys m))" for v
      using used_pages_pool [OF p(1), of v] p(2,4) by simp
    have k: "used_pages (kernel_pool p) = kused m"
      using U [of False] used_pages_pool [OF wf, of False] nk by (simp add: kused_def get_pool_def Int_insert_left)
    have u: "uused (m\<lparr>phys := p\<rparr>) = insert a (uused m)"
      using U [of True] used_pages_pool [OF wf, of True] a(5) by (simp add: uused_def get_pool_def Int_insert_left)
    have "a \<notin> kused m" using a(4) by (auto simp: kused_def used_def)
    then have "\<forall>b \<in> kused m. pages p b = pages (phys m) b" using pg by auto
    note v = vm_ok_users [OF ok, of "m\<lparr>phys := p\<rparr>"]
    have "vm_ok (m\<lparr>phys := p\<rparr>) D" "\<forall>pd va. pd \<in> D \<longrightarrow> is_user_vaddr va \<longrightarrow> page_map (m\<lparr>phys := p\<rparr>) pd va = page_map m pd va"
      using v p(1) k \<open>\<forall>b \<in> kused m. pages p b = pages (phys m) b\<close> by (simp_all add: same_regs_def kused_def)
    moreover have "a \<notin> uused m" using a(4) by (auto simp: uused_def used_def)
    moreover have "a \<in> pool_pages (user_pool (phys m))" using a(5) by (simp add: get_pool_def)
    ultimately show thesis using found a(1-3) u pg p(4) by blast
  qed simp
qed

section \<open>Invariant and view\<close>

definition live :: "kstate \<Rightarrow> nat set" where
  "live s = {p. pagedir (threads s p) \<noteq> 0}"

definition dirs :: "kstate \<Rightarrow> u32 set" where
  "dirs s = (\<lambda>p. pagedir (threads s p)) ` live s"

definition entry :: "kstate \<Rightarrow> nat \<Rightarrow> nat \<Rightarrow> spte \<Rightarrow> bool" where
  "entry s p a e \<longleftrightarrow> p \<in> live s \<and> a \<in> set (sup_page_table (threads s p)) \<and> sptes s a = Some e"

definition entry_map :: "kstate \<Rightarrow> nat \<Rightarrow> spte \<Rightarrow> u32 option" where
  "entry_map s p e = page_map (mem s) (pagedir (threads s p)) (user_vaddr e)"

text \<open>The page of an entry as its file gives it, and what the process sees at the page.\<close>

definition file_page :: "kstate \<Rightarrow> spte \<Rightarrow> byte list" where
  "file_page s e = take (read_bytes e) (drop (spt_offset e)
      (case Option.bind (spt_file e) (\<lambda>fp. get_file fp (files s)) of None \<Rightarrow> [] | Some f \<Rightarrow> shown (fs (files s)) (f_inode f)))
    @ replicate (zero_bytes e) 0"

definition page_view :: "kstate \<Rightarrow> nat \<Rightarrow> spte \<Rightarrow> byte list" where
  "page_view s p e = (case entry_map s p e of Some w \<Rightarrow> frame_bytes s (frame_of w)
     | None \<Rightarrow> (case swap_view (swap s) (swap_num e) of Some bs \<Rightarrow> if is_swapped e then bs else file_page s e | None \<Rightarrow> file_page s e))"

definition user_page :: "kstate \<Rightarrow> nat \<Rightarrow> u32 \<Rightarrow> byte list option" where
  "user_page s p va = (case find_spte va (sptes s) (sup_page_table (threads s p)) of
     Some (Some a) \<Rightarrow> map_option (page_view s p) (sptes s a) | _ \<Rightarrow> None)"

definition same_view :: "kstate \<Rightarrow> kstate \<Rightarrow> bool" where
  "same_view s s' \<longleftrightarrow> (\<forall>p \<in> live s. \<forall>va. user_page s' p va = user_page s p va)"

definition file_ok :: "kstate \<Rightarrow> spte \<Rightarrow> bool" where
  "file_ok s e \<longleftrightarrow> read_bytes e + zero_bytes e = PGSIZE \<and> (0 < read_bytes e \<longrightarrow>
     (\<exists>fp f ino. spt_file e = Some fp \<and> get_file fp (files s) = Some f \<and> inodes (fs (files s)) (f_inode f) = Some ino
        \<and> spt_offset e + read_bytes e \<le> length_shown ino))"

definition spte_ok :: "kstate \<Rightarrow> nat \<Rightarrow> spte \<Rightarrow> bool" where
  "spte_ok s p e \<longleftrightarrow> is_user_vaddr (user_vaddr e) \<and> pg_ofs (user_vaddr e) = 0 \<and> file_type e \<noteq> TYPE_MMAP
     \<and> (loaded e \<longleftrightarrow> entry_map s p e \<noteq> None)
     \<and> (is_swapped e \<longrightarrow> file_type e = TYPE_SWAP \<and> \<not> loaded e
          \<and> (\<exists>bs. swap_view (swap s) (swap_num e) = Some bs \<and> length bs = PGSIZE))
     \<and> (file_type e = TYPE_SWAP \<and> \<not> loaded e \<longrightarrow> is_swapped e)
     \<and> (\<forall>w. entry_map s p e = Some w \<longrightarrow> (w AND PTE_W \<noteq> 0) = page_writable e \<and> w AND PTE_U \<noteq> 0)
     \<and> (file_type e = TYPE_FILE \<longrightarrow> file_ok s e)
     \<and> (file_type e = TYPE_FILE \<longrightarrow> (\<forall>w. entry_map s p e = Some w \<and> w AND PTE_D = 0 \<longrightarrow> frame_bytes s (frame_of w) = file_page s e))"

definition mem_inv :: "kstate \<Rightarrow> bool" where
  "mem_inv s \<longleftrightarrow> vm_ok (mem s) (dirs s) \<and> inj_on (\<lambda>p. pagedir (threads s p)) (live s) \<and> active_pd (mem s) \<noteq> None
     \<and> (\<forall>a \<in> pool_pages (user_pool (phys (mem s))). drop_bit PTSHIFT (a - PHYS_BASE) < ram_pages (mem s))"

definition table_inv :: "kstate \<Rightarrow> bool" where
  "table_inv s \<longleftrightarrow> 0 < next_spte s \<and> (\<forall>a. sptes s a \<noteq> None \<longrightarrow> 0 < a \<and> a < next_spte s)
     \<and> (\<forall>p \<in> live s. distinct (sup_page_table (threads s p)) \<and> (\<forall>a \<in> set (sup_page_table (threads s p)). sptes s a \<noteq> None))
     \<and> (\<forall>p a e. entry s p a e \<longrightarrow> spte_ok s p e)
     \<and> (\<forall>p a e b e'. entry s p a e \<and> entry s p b e' \<and> user_vaddr e = user_vaddr e' \<longrightarrow> a = b)
     \<and> (\<forall>p q a e e'. entry s p a e \<and> entry s q a e' \<longrightarrow> p = q)
     \<and> (\<forall>p q a b e e'. entry s p a e \<and> entry s q b e' \<and> is_swapped e \<and> is_swapped e' \<and> swap_num e = swap_num e' \<longrightarrow> a = b)
     \<and> (\<forall>p va. p \<in> live s \<and> is_user_vaddr va \<and> page_map (mem s) (pagedir (threads s p)) va \<noteq> None
          \<longrightarrow> (\<exists>a e. entry s p a e \<and> user_vaddr e = pg_round_down va))"

definition frames_inv :: "kstate \<Rightarrow> bool" where
  "frames_inv s \<longleftrightarrow> distinct (map frame (frame_table s))
     \<and> (\<forall>f \<in> set (frame_table s). frame f \<in> uused (mem s)
          \<and> (\<exists>e w. entry s (owner f) (fte_spte f) e \<and> entry_map s (owner f) e = Some w \<and> frame_of w = frame f))
     \<and> (\<forall>p a e w. entry s p a e \<and> entry_map s p e = Some w \<longrightarrow> (\<exists>f \<in> set (frame_table s). owner f = p \<and> fte_spte f = a))"

definition vm_inv :: "kstate \<Rightarrow> bool" where
  "vm_inv s \<longleftrightarrow> mem_inv s \<and> swap_inv (swap s) \<and> fs_ok (fs (files s)) \<and> table_inv s \<and> frames_inv s"

subsection \<open>Reading the invariant\<close>

lemmas table_invD =
  table_inv_def [THEN iffD1, THEN conjunct1]
  table_inv_def [THEN iffD1, THEN conjunct2, THEN conjunct1]
  table_inv_def [THEN iffD1, THEN conjunct2, THEN conjunct2, THEN conjunct1]
  table_inv_def [THEN iffD1, THEN conjunct2, THEN conjunct2, THEN conjunct2, THEN conjunct1]
  table_inv_def [THEN iffD1, THEN conjunct2, THEN conjunct2, THEN conjunct2, THEN conjunct2, THEN conjunct1]
  table_inv_def [THEN iffD1, THEN conjunct2, THEN conjunct2, THEN conjunct2, THEN conjunct2, THEN conjunct2, THEN conjunct1]
  table_inv_def [THEN iffD1, THEN conjunct2, THEN conjunct2, THEN conjunct2, THEN conjunct2, THEN conjunct2, THEN conjunct2, THEN conjunct1]
  table_inv_def [THEN iffD1, THEN conjunct2, THEN conjunct2, THEN conjunct2, THEN conjunct2, THEN conjunct2, THEN conjunct2, THEN conjunct2]

lemma vm_invD:
  assumes "vm_inv s"
  shows "mem_inv s" "swap_inv (swap s)" "fs_ok (fs (files s))" "table_inv s" "frames_inv s"
  using assms by (simp_all add: vm_inv_def)

lemma inv_entry:
  assumes "vm_inv s" and "entry s p a e"
  shows "spte_ok s p e" "is_user_vaddr (user_vaddr e)" "pg_ofs (user_vaddr e) = 0" "pagedir (threads s p) \<in> dirs s"
    "pg_round_down (user_vaddr e) = user_vaddr e"
proof -
  show ok: "spte_ok s p e" using table_invD(4) [OF vm_invD(4) [OF assms(1)]] assms(2) by blast
  then show "is_user_vaddr (user_vaddr e)" "pg_ofs (user_vaddr e) = 0" "pg_round_down (user_vaddr e) = user_vaddr e"
    by (auto simp: spte_ok_def pg_round_down_id)
  show "pagedir (threads s p) \<in> dirs s" using assms(2) by (auto simp: entry_def dirs_def)
qed

lemma inv_same_page: "vm_inv s \<Longrightarrow> entry s p a e \<Longrightarrow> entry s p b e' \<Longrightarrow> user_vaddr e = user_vaddr e' \<Longrightarrow> a = b"
  using table_invD(5) [OF vm_invD(4)] by blast

lemma inv_same_owner: "vm_inv s \<Longrightarrow> entry s p a e \<Longrightarrow> entry s q a e' \<Longrightarrow> p = q \<and> e = e'"
  using table_invD(6) [OF vm_invD(4), of s] by (metis entry_def option.inject)

lemma inv_same_slot:
  "vm_inv s \<Longrightarrow> entry s p a e \<Longrightarrow> entry s q b e' \<Longrightarrow> is_swapped e \<Longrightarrow> is_swapped e' \<Longrightarrow> swap_num e = swap_num e' \<Longrightarrow> a = b"
  using table_invD(7) [OF vm_invD(4)] by blast

lemma inv_frame:
  assumes inv: "vm_inv s" and e: "entry s p a e" and w: "entry_map s p e = Some w"
  obtains f where "f \<in> set (frame_table s)" "owner f = p" "fte_spte f = a" "frame f = frame_of w" "frame_of w \<in> uused (mem s)"
proof -
  have fi: "frames_inv s" using inv by (simp add: vm_inv_def)
  then obtain f where f: "f \<in> set (frame_table s)" "owner f = p" "fte_spte f = a" using e w unfolding frames_inv_def by blast
  then obtain e' w' where "entry s p a e'" "entry_map s p e' = Some w'" "frame_of w' = frame f" "frame f \<in> uused (mem s)"
    using fi unfolding frames_inv_def by blast
  moreover from this(1) e have "e' = e" by (simp add: entry_def)
  ultimately show thesis using that f w by auto
qed

lemma inv_frames_apart:
  assumes inv: "vm_inv s" and e: "entry s p a e" "entry_map s p e = Some w" and e': "entry s q b e'" "entry_map s q e' = Some w'"
    and same: "frame_of w = frame_of w'"
  shows "a = b"
proof -
  from inv_frame [OF inv e] obtain f where f: "f \<in> set (frame_table s)" "fte_spte f = a" "frame f = frame_of w" by blast
  from inv_frame [OF inv e'] obtain g where g: "g \<in> set (frame_table s)" "fte_spte g = b" "frame g = frame_of w'" by blast
  have "inj_on frame (set (frame_table s))" using inv by (simp add: vm_inv_def frames_inv_def distinct_map)
  then have "f = g" using inj_onD [of frame "set (frame_table s)" f g] f g same by simp
  with f g show ?thesis by simp
qed

lemma inv_dirs_apart: "vm_inv s \<Longrightarrow> p \<in> live s \<Longrightarrow> q \<in> live s \<Longrightarrow> pagedir (threads s p) = pagedir (threads s q) \<Longrightarrow> p = q"
  by (auto simp: vm_inv_def mem_inv_def dest: inj_onD)

lemma find_spte_Some:
  "(\<forall>a \<in> set as. h a \<noteq> None) \<Longrightarrow> \<exists>r. find_spte va h as = Some r
     \<and> (case r of None \<Rightarrow> (\<forall>a \<in> set as. \<forall>e. h a = Some e \<longrightarrow> user_vaddr e \<noteq> va)
        | Some a \<Rightarrow> a \<in> set as \<and> (\<exists>e. h a = Some e \<and> user_vaddr e = va))"
proof (induction as)
  case (Cons a as)
  then obtain e where "h a = Some e" by auto
  with Cons show ?case by (auto split: option.splits)
qed simp

lemma find_entry:
  assumes inv: "vm_inv s" and p: "p \<in> live s"
  obtains (none) "find_spte va (sptes s) (sup_page_table (threads s p)) = Some None" "\<nexists>a e. entry s p a e \<and> user_vaddr e = va"
    | (found) a e where "find_spte va (sptes s) (sup_page_table (threads s p)) = Some (Some a)" "entry s p a e" "user_vaddr e = va"
proof -
  have "\<forall>a \<in> set (sup_page_table (threads s p)). sptes s a \<noteq> None"
    using table_invD(3) [OF vm_invD(4) [OF inv]] p by blast
  from find_spte_Some [OF this, of va] obtain r where r: "find_spte va (sptes s) (sup_page_table (threads s p)) = Some r"
    "case r of None \<Rightarrow> (\<forall>a \<in> set (sup_page_table (threads s p)). \<forall>e. sptes s a = Some e \<longrightarrow> user_vaddr e \<noteq> va)
        | Some a \<Rightarrow> a \<in> set (sup_page_table (threads s p)) \<and> (\<exists>e. sptes s a = Some e \<and> user_vaddr e = va)" by blast
  show thesis
  proof (cases r)
    case None
    then show thesis using r none by (auto simp: entry_def)
  next
    case (Some a)
    then show thesis using r found p by (auto simp: entry_def)
  qed
qed

lemma user_page_entry:
  assumes inv: "vm_inv s" and e: "entry s p a e"
  shows "user_page s p (user_vaddr e) = Some (page_view s p e)"
proof -
  have "p \<in> live s" using e by (simp add: entry_def)
  then show ?thesis
  proof (rule find_entry [OF inv, of p "user_vaddr e"])
    assume "\<nexists>a' e'. entry s p a' e' \<and> user_vaddr e' = user_vaddr e"
    then show ?thesis using e by blast
  next
    fix b e' assume b: "find_spte (user_vaddr e) (sptes s) (sup_page_table (threads s p)) = Some (Some b)" "entry s p b e'" "user_vaddr e' = user_vaddr e"
    then have "a = b" using inv_same_page [OF inv e b(2)] by simp
    then show ?thesis using b e by (simp add: user_page_def entry_def)
  qed
qed

lemma user_page_None:
  assumes "vm_inv s" and "p \<in> live s" and "\<nexists>a e. entry s p a e \<and> user_vaddr e = va"
  shows "user_page s p va = None"
  by (rule find_entry [OF assms(1,2), of va]) (use assms(3) in \<open>auto simp: user_page_def\<close>)

text \<open>Two states with the same entries, up to their fields, and the same pages.\<close>

lemma same_viewI:
  assumes "vm_inv s" and "vm_inv s'" and "live s' = live s"
    and fw: "\<And>p a e. entry s p a e \<Longrightarrow> \<exists>e'. entry s' p a e' \<and> user_vaddr e' = user_vaddr e \<and> page_view s' p e' = page_view s p e"
    and bw: "\<And>p a e'. entry s' p a e' \<Longrightarrow> \<exists>e. entry s p a e \<and> user_vaddr e = user_vaddr e'"
  shows "same_view s s'"
  unfolding same_view_def
proof (intro ballI allI)
  fix p va assume p: "p \<in> live s"
  show "user_page s' p va = user_page s p va"
  proof (cases "\<exists>a e. entry s p a e \<and> user_vaddr e = va")
    case True
    then obtain a e where e: "entry s p a e" "user_vaddr e = va" by blast
    from fw [OF e(1)] obtain e' where e': "entry s' p a e'" "user_vaddr e' = user_vaddr e" "page_view s' p e' = page_view s p e" by blast
    show ?thesis using user_page_entry [OF assms(1) e(1)] user_page_entry [OF assms(2) e'(1)] e e' by simp
  next
    case False
    then have "\<nexists>a e. entry s' p a e \<and> user_vaddr e = va" using bw by metis
    then show ?thesis using user_page_None [OF assms(1) p False] user_page_None [OF assms(2)] p assms(3) by simp
  qed
qed

subsection \<open>Keeping the invariant\<close>

definition same_files :: "kstate \<Rightarrow> kstate \<Rightarrow> bool" where
  "same_files s s' \<longleftrightarrow> (\<forall>fp. get_file fp (files s') = get_file fp (files s))
     \<and> (\<forall>ip. shown (fs (files s')) ip = shown (fs (files s)) ip)
     \<and> (\<forall>ip. map_option length_shown (inodes (fs (files s')) ip) = map_option length_shown (inodes (fs (files s)) ip))"

lemma same_files_refl [simp]: "files s' = files s \<Longrightarrow> same_files s s'"
  by (simp add: same_files_def)

lemma same_files_trans: "same_files s s' \<Longrightarrow> same_files s' s'' \<Longrightarrow> same_files s s''"
  by (simp add: same_files_def)

lemma file_page_same: "same_files s s' \<Longrightarrow> file_page s' e = file_page s e"
  by (simp add: file_page_def same_files_def cong: option.case_cong)

lemma file_ok_same: "same_files s s' \<Longrightarrow> file_ok s e \<Longrightarrow> file_ok s' e"
proof -
  assume sf: "same_files s s'" and ok: "file_ok s e"
  have "\<exists>ino'. inodes (fs (files s')) ip = Some ino' \<and> length_shown ino' = length_shown ino" if "inodes (fs (files s)) ip = Some ino" for ip ino
    using sf that by (auto simp: same_files_def dest!: spec [of _ ip])
  then show "file_ok s' e" using ok sf unfolding file_ok_def same_files_def by metis
qed

text \<open>An entry of a page table that differs at most in the accessed bit, or becomes dirty.\<close>

definition pt_rel :: "u32 option \<Rightarrow> u32 option \<Rightarrow> bool" where
  "pt_rel = rel_option (\<lambda>w w'. w' AND PTE_ADDR = w AND PTE_ADDR \<and> w' AND PTE_W = w AND PTE_W \<and> w' AND PTE_U = w AND PTE_U \<and> (w' AND PTE_D = 0 \<longrightarrow> w AND PTE_D = 0))"

lemma pt_rel_refl [simp]: "pt_rel x x"
  by (cases x) (simp_all add: pt_rel_def)

lemma pt_rel_Some: "pt_rel (Some w) y \<longleftrightarrow> (\<exists>w'. y = Some w' \<and> w' AND PTE_ADDR = w AND PTE_ADDR \<and> w' AND PTE_W = w AND PTE_W \<and> w' AND PTE_U = w AND PTE_U \<and> (w' AND PTE_D = 0 \<longrightarrow> w AND PTE_D = 0))"
  "pt_rel None y \<longleftrightarrow> y = None" "pt_rel x None \<longleftrightarrow> x = None"
  by (auto simp: pt_rel_def option_rel_Some1)

lemma pt_rel_None: "pt_rel x y \<Longrightarrow> (y = None) = (x = None)"
  by (cases x; cases y) (simp_all add: pt_rel_def)

lemma spte_ok_keep:
  assumes ok: "spte_ok s p e" and map: "pt_rel (entry_map s p e) (entry_map s' p e)"
    and fr: "\<And>w. entry_map s p e = Some w \<Longrightarrow> frame_bytes s' (frame_of w) = frame_bytes s (frame_of w)"
    and sw: "is_swapped e \<Longrightarrow> swap_view (swap s') (swap_num e) = swap_view (swap s) (swap_num e)"
    and fl: "same_files s s'"
  shows "spte_ok s' p e" "page_view s' p e = page_view s p e"
proof -
  note F = file_page_same [OF fl, of e] file_ok_same [OF fl, of e]
  show "spte_ok s' p e"
  proof (cases "entry_map s p e")
    case None
    then have "entry_map s' p e = None" using map by (simp add: pt_rel_Some)
    with None ok sw F show ?thesis by (auto simp: spte_ok_def)
  next
    case (Some w)
    then obtain w' where w': "entry_map s' p e = Some w'" "w' AND PTE_ADDR = w AND PTE_ADDR" "w' AND PTE_W = w AND PTE_W" "w' AND PTE_U = w AND PTE_U" "w' AND PTE_D = 0 \<longrightarrow> w AND PTE_D = 0"
      using map by (auto simp: pt_rel_Some)
    then have "frame_of w' = frame_of w" by (simp add: frame_of_def)
    with Some w' ok sw F fr [OF Some] show ?thesis by (auto simp: spte_ok_def)
  qed
  show "page_view s' p e = page_view s p e"
  proof (cases "entry_map s p e")
    case None
    then have m: "entry_map s' p e = None" using map by (simp add: pt_rel_Some)
    show ?thesis
    proof (cases "is_swapped e")
      case True
      then show ?thesis using None m sw F by (simp add: page_view_def split: option.splits)
    next
      case False
      then show ?thesis using None m F by (simp add: page_view_def split: option.splits)
    qed
  next
    case (Some w)
    then obtain w' where "entry_map s' p e = Some w'" "w' AND PTE_ADDR = w AND PTE_ADDR" using map by (auto simp: pt_rel_Some)
    then show ?thesis using Some fr [OF Some] by (simp add: page_view_def frame_of_def)
  qed
qed

text \<open>Changes that no process sees: flags in the page tables, and parts of the state outside virtual memory.\<close>

definition same_tables :: "kstate \<Rightarrow> kstate \<Rightarrow> bool" where
  "same_tables s s' \<longleftrightarrow> (\<forall>p. pagedir (threads s' p) = pagedir (threads s p) \<and> sup_page_table (threads s' p) = sup_page_table (threads s p))"

lemma same_tables_simps:
  assumes "same_tables s s'"
  shows "live s' = live s" "dirs s' = dirs s" "pagedir (threads s' p) = pagedir (threads s p)"
    "sup_page_table (threads s' p) = sup_page_table (threads s p)"
  using assms by (auto simp: same_tables_def live_def dirs_def)

lemma same_tables_eq [simp]: "threads s' = threads s \<Longrightarrow> same_tables s s'"
  by (simp add: same_tables_def)

definition mem_calm :: "vmem \<Rightarrow> vmem \<Rightarrow> u32 set \<Rightarrow> u32 set \<Rightarrow> bool" where
  "mem_calm m m' D F \<longleftrightarrow> vm_ok m' D \<and> active_pd m' \<noteq> None \<and> F \<subseteq> uused m' \<and> ram_pages m' = ram_pages m
     \<and> pool_pages (user_pool (phys m')) = pool_pages (user_pool (phys m)) \<and> (\<forall>a \<in> F. pages (phys m') a = pages (phys m) a)
     \<and> (\<forall>pd \<in> D. \<forall>va. is_user_vaddr va \<longrightarrow> pt_rel (page_map m pd va) (page_map m' pd va))"

definition calm :: "kstate \<Rightarrow> kstate \<Rightarrow> bool" where
  "calm s s' \<longleftrightarrow> same_tables s s' \<and> swap s' = swap s \<and> same_files s s' \<and> fs_ok (fs (files s')) \<and> sptes s' = sptes s
     \<and> next_spte s' = next_spte s \<and> frame_table s' = frame_table s \<and> mem_calm (mem s) (mem s') (dirs s) (frame ` set (frame_table s))"

lemma mem_calm_refl: "vm_inv s \<Longrightarrow> mem_calm (mem s) (mem s) (dirs s) (frame ` set (frame_table s))"
  by (auto simp: mem_calm_def vm_inv_def mem_inv_def frames_inv_def)

lemma calm_inv:
  assumes inv: "vm_inv s" and c: "calm s s'"
  shows "vm_inv s'" "same_view s s'" "\<And>p a e. entry s' p a e = entry s p a e" "\<And>p a e. entry s p a e \<Longrightarrow> pt_rel (entry_map s p e) (entry_map s' p e)"
proof -
  have st: "same_tables s s'" and sf: "same_files s s'" and mc: "mem_calm (mem s) (mem s') (dirs s) (frame ` set (frame_table s))"
    and eq: "swap s' = swap s" "sptes s' = sptes s" "next_spte s' = next_spte s" "frame_table s' = frame_table s" "fs_ok (fs (files s'))"
    using c by (auto simp: calm_def)
  note t = same_tables_simps [OF st]
  show E: "entry s' p a e = entry s p a e" for p a e using t eq by (simp add: entry_def)
  show R: "pt_rel (entry_map s p e) (entry_map s' p e)" if "entry s p a e" for p a e
    using mc inv_entry [OF inv that] t by (simp add: entry_map_def mem_calm_def)
  have keep: "spte_ok s' p e \<and> page_view s' p e = page_view s p e" if e: "entry s p a e" for p a e
  proof -
    have "frame_bytes s' (frame_of w) = frame_bytes s (frame_of w)" if "entry_map s p e = Some w" for w
    proof -
      from inv_frame [OF inv e that] obtain f where "f \<in> set (frame_table s)" "frame f = frame_of w" by blast
      then have "frame_of w \<in> frame ` set (frame_table s)" by (metis imageI)
      then show ?thesis using mc unfolding frame_bytes_def mem_calm_def by blast
    qed
    then show ?thesis using spte_ok_keep [OF inv_entry(1) [OF inv e] R [OF e] _ _ sf] eq by auto
  qed
  have "mem_inv s'"
    using vm_invD(1) [OF inv] mc t by (auto simp: mem_inv_def mem_calm_def)
  moreover have "table_inv s'"
    unfolding table_inv_def E t eq
  proof (intro conjI)
    show "\<forall>p a e. entry s p a e \<longrightarrow> spte_ok s' p e" using keep by blast
    show "\<forall>p va. p \<in> live s \<and> is_user_vaddr va \<and> page_map (mem s') (pagedir (threads s p)) va \<noteq> None
        \<longrightarrow> (\<exists>a e. entry s p a e \<and> user_vaddr e = pg_round_down va)"
    proof (intro allI impI, elim conjE)
      fix p va assume p: "p \<in> live s" "is_user_vaddr va" "page_map (mem s') (pagedir (threads s p)) va \<noteq> None"
      then have "pt_rel (page_map (mem s) (pagedir (threads s p)) va) (page_map (mem s') (pagedir (threads s p)) va)"
        using mc by (auto simp: mem_calm_def dirs_def)
      then have "page_map (mem s) (pagedir (threads s p)) va \<noteq> None" using p(3) by (simp add: pt_rel_None)
      then show "\<exists>a e. entry s p a e \<and> user_vaddr e = pg_round_down va" using table_invD(8) [OF vm_invD(4) [OF inv]] p by blast
    qed
  qed (use table_invD [OF vm_invD(4) [OF inv]] in blast)+
  moreover have "frames_inv s'"
  proof -
    note fi = vm_invD(5) [OF inv, unfolded frames_inv_def]
    have 1: "\<exists>e w. entry s (owner f) (fte_spte f) e \<and> entry_map s' (owner f) e = Some w \<and> frame_of w = frame f"
      if f: "f \<in> set (frame_table s)" for f
    proof -
      from f fi obtain e w where e: "entry s (owner f) (fte_spte f) e" "entry_map s (owner f) e = Some w" "frame_of w = frame f" by blast
      with R [OF e(1)] show ?thesis by (auto simp: pt_rel_Some frame_of_def)
    qed
    have 2: "\<exists>f \<in> set (frame_table s). owner f = p \<and> fte_spte f = a" if e: "entry s p a e" "entry_map s' p e = Some w" for p a e w
    proof -
      have "entry_map s p e \<noteq> None" using pt_rel_None [OF R [OF e(1)]] e(2) by simp
      then show ?thesis using fi e(1) by blast
    qed
    show ?thesis unfolding frames_inv_def eq E using fi mc 1 2 by (auto simp: mem_calm_def)
  qed
  ultimately show inv': "vm_inv s'" using vm_invD [OF inv] eq by (simp add: vm_inv_def)
  show "same_view s s'" using keep E by (intro same_viewI [OF inv inv' t(1)]) blast+
qed

text \<open>A step that changes one entry \<open>a\<close> of process \<open>p\<close>, the mapping of its page, and memory or swap slots that
  no other entry uses.\<close>

definition entry_step :: "kstate \<Rightarrow> nat \<Rightarrow> nat \<Rightarrow> spte \<Rightarrow> spte \<Rightarrow> u32 option \<Rightarrow> kstate \<Rightarrow> bool" where
  "entry_step s p a e e' w' s' \<longleftrightarrow> same_tables s s' \<and> sptes s' = (sptes s)(a \<mapsto> e') \<and> next_spte s' = next_spte s
     \<and> user_vaddr e' = user_vaddr e \<and> vm_ok (mem s') (dirs s) \<and> active_pd (mem s') \<noteq> None \<and> ram_pages (mem s') = ram_pages (mem s)
     \<and> pool_pages (user_pool (phys (mem s'))) = pool_pages (user_pool (phys (mem s)))
     \<and> (\<forall>pd \<in> dirs s. \<forall>va. is_user_vaddr va \<longrightarrow> page_map (mem s') pd va =
          (if pd = pagedir (threads s p) \<and> pg_round_down va = user_vaddr e then w' else page_map (mem s) pd va))
     \<and> swap_inv (swap s') \<and> fs_ok (fs (files s')) \<and> same_files s s'
     \<and> (\<forall>q b eb. entry s q b eb \<and> b \<noteq> a \<longrightarrow>
          (\<forall>w. entry_map s q eb = Some w \<longrightarrow> frame_bytes s' (frame_of w) = frame_bytes s (frame_of w))
          \<and> (is_swapped eb \<longrightarrow> swap_view (swap s') (swap_num eb) = swap_view (swap s) (swap_num eb)
               \<and> (is_swapped e' \<longrightarrow> swap_num e' \<noteq> swap_num eb)))"

lemma entry_step_entry:
  assumes inv: "vm_inv s" and e: "entry s p a e" and st: "entry_step s p a e e' w' s'"
  shows "entry s' q b eb \<longleftrightarrow> (if b = a then q = p \<and> eb = e' else entry s q b eb)"
proof -
  have st': "same_tables s s'" "sptes s' = (sptes s)(a \<mapsto> e')" using st by (auto simp: entry_step_def)
  note t = same_tables_simps [OF st'(1)]
  show ?thesis
  proof (cases "b = a")
    case True
    have "q = p" if "q \<in> live s" "a \<in> set (sup_page_table (threads s q))"
      using inv_same_owner [OF inv e, of q e] e that by (simp add: entry_def)
    then show ?thesis using True e t st'(2) by (auto simp: entry_def)
  next
    case False
    then show ?thesis using t st'(2) by (simp add: entry_def)
  qed
qed

lemma entry_step_map:
  assumes inv: "vm_inv s" and e: "entry s p a e" and st: "entry_step s p a e e' w' s'" and b: "entry s q b eb"
  shows "entry_map s' q eb = (if b = a then w' else entry_map s q eb)"
proof -
  have "page_map (mem s') (pagedir (threads s q)) (user_vaddr eb) =
      (if pagedir (threads s q) = pagedir (threads s p) \<and> user_vaddr eb = user_vaddr e then w'
       else page_map (mem s) (pagedir (threads s q)) (user_vaddr eb))"
    using st inv_entry [OF inv b] unfolding entry_step_def by auto
  moreover have "pagedir (threads s q) = pagedir (threads s p) \<and> user_vaddr eb = user_vaddr e \<longleftrightarrow> b = a"
  proof
    assume *: "pagedir (threads s q) = pagedir (threads s p) \<and> user_vaddr eb = user_vaddr e"
    then have "q = p" using inv_dirs_apart [OF inv, of q p] b e by (simp add: entry_def)
    then show "b = a" using inv_same_page [OF inv e, of b eb] b * by simp
  next
    assume "b = a"
    then show "pagedir (threads s q) = pagedir (threads s p) \<and> user_vaddr eb = user_vaddr e"
      using inv_same_owner [OF inv e, of q eb] b by simp
  qed
  ultimately show ?thesis using st by (auto simp: entry_map_def entry_step_def same_tables_def)
qed

lemma entry_step_inv:
  assumes inv: "vm_inv s" and e: "entry s p a e" and st: "entry_step s p a e e' w' s'" and ok': "spte_ok s' p e'" and fr: "frames_inv s'"
  shows "vm_inv s'" "\<And>q b eb. entry s' q b eb \<longleftrightarrow> (if b = a then q = p \<and> eb = e' else entry s q b eb)"
    "\<And>q b eb. entry s q b eb \<Longrightarrow> b \<noteq> a \<Longrightarrow> page_view s' q eb = page_view s q eb"
    "page_view s' p e' = page_view s p e \<Longrightarrow> same_view s s'"
proof -
  have tb: "same_tables s s'" and sp: "sptes s' = (sptes s)(a \<mapsto> e')" "next_spte s' = next_spte s" "user_vaddr e' = user_vaddr e"
    and mm: "vm_ok (mem s') (dirs s)" "active_pd (mem s') \<noteq> None" "ram_pages (mem s') = ram_pages (mem s)"
      "pool_pages (user_pool (phys (mem s'))) = pool_pages (user_pool (phys (mem s)))"
    and pm: "\<And>pd va. pd \<in> dirs s \<Longrightarrow> is_user_vaddr va \<Longrightarrow> page_map (mem s') pd va =
          (if pd = pagedir (threads s p) \<and> pg_round_down va = user_vaddr e then w' else page_map (mem s) pd va)"
    and sf: "swap_inv (swap s')" "fs_ok (fs (files s'))" "same_files s s'"
    using st unfolding entry_step_def by blast+
  have ot: "(\<forall>w. entry_map s q eb = Some w \<longrightarrow> frame_bytes s' (frame_of w) = frame_bytes s (frame_of w))
      \<and> (is_swapped eb \<longrightarrow> swap_view (swap s') (swap_num eb) = swap_view (swap s) (swap_num eb) \<and> (is_swapped e' \<longrightarrow> swap_num e' \<noteq> swap_num eb))"
    if "entry s q b eb" "b \<noteq> a" for q b eb using st that unfolding entry_step_def by blast
  note t = same_tables_simps [OF tb]
  show E: "\<And>q b eb. entry s' q b eb \<longleftrightarrow> (if b = a then q = p \<and> eb = e' else entry s q b eb)"
    by (rule entry_step_entry [OF inv e st])
  have M: "entry_map s' q eb = entry_map s q eb" if b: "entry s q b eb" "b \<noteq> a" for q b eb
    using entry_step_map [OF inv e st b(1)] b(2) by simp
  have keep: "spte_ok s' q eb" "page_view s' q eb = page_view s q eb" if b: "entry s q b eb" "b \<noteq> a" for q b eb
    using spte_ok_keep [OF inv_entry(1) [OF inv b(1)] _ _ _ sf(3)] M [OF b] ot [OF b] by auto
  then show "\<And>q b eb. entry s q b eb \<Longrightarrow> b \<noteq> a \<Longrightarrow> page_view s' q eb = page_view s q eb" by blast
  have ua: "user_vaddr eb = user_vaddr e'" if "entry s p a eb" for eb using that e sp(3) by (simp add: entry_def)
  note ti = table_invD [OF vm_invD(4) [OF inv]]
  have "table_inv s'"
    unfolding table_inv_def t sp(2)
  proof (intro conjI)
    show "0 < next_spte s" by (rule ti(1))
    show "\<forall>b. sptes s' b \<noteq> None \<longrightarrow> 0 < b \<and> b < next_spte s" using ti(2) e by (auto simp: sp(1) entry_def)
    show "\<forall>q \<in> live s. distinct (sup_page_table (threads s q)) \<and> (\<forall>b \<in> set (sup_page_table (threads s q)). sptes s' b \<noteq> None)"
      using ti(3) by (auto simp: sp(1))
    show "\<forall>q b eb. entry s' q b eb \<longrightarrow> spte_ok s' q eb" using keep ok' by (auto simp: E)
    show "\<forall>q b eb c ec. entry s' q b eb \<and> entry s' q c ec \<and> user_vaddr eb = user_vaddr ec \<longrightarrow> b = c"
    proof (intro allI impI, elim conjE)
      fix q b eb c ec assume *: "entry s' q b eb" "entry s' q c ec" "user_vaddr eb = user_vaddr ec"
      then obtain eb' ec' where "entry s q b eb'" "user_vaddr eb' = user_vaddr eb" "entry s q c ec'" "user_vaddr ec' = user_vaddr ec"
        using e sp(3) by (metis E)
      then show "b = c" using inv_same_page [OF inv] *(3) by metis
    qed
    show "\<forall>q r b eb ec. entry s' q b eb \<and> entry s' r b ec \<longrightarrow> q = r"
      using inv_same_owner [OF inv] by (auto simp: E split: if_splits)
    show "\<forall>q r b c eb ec. entry s' q b eb \<and> entry s' r c ec \<and> is_swapped eb \<and> is_swapped ec \<and> swap_num eb = swap_num ec \<longrightarrow> b = c"
    proof (intro allI impI, elim conjE)
      fix q r b c eb ec assume *: "entry s' q b eb" "entry s' r c ec" "is_swapped eb" "is_swapped ec" "swap_num eb = swap_num ec"
      show "b = c"
      proof (cases "b = a \<or> c = a")
        case True
        then show ?thesis using * ot by (metis E)
      next
        case False
        then show ?thesis using * inv_same_slot [OF inv] by (metis E)
      qed
    qed
    show "\<forall>q va. q \<in> live s \<and> is_user_vaddr va \<and> page_map (mem s') (pagedir (threads s q)) va \<noteq> None
        \<longrightarrow> (\<exists>b eb. entry s' q b eb \<and> user_vaddr eb = pg_round_down va)"
    proof (intro allI impI, elim conjE)
      fix q va assume q: "q \<in> live s" "is_user_vaddr va" "page_map (mem s') (pagedir (threads s q)) va \<noteq> None"
      have qd: "pagedir (threads s q) \<in> dirs s" using q(1) by (simp add: dirs_def)
      show "\<exists>b eb. entry s' q b eb \<and> user_vaddr eb = pg_round_down va"
      proof (cases "pagedir (threads s q) = pagedir (threads s p) \<and> pg_round_down va = user_vaddr e")
        case True
        then have "q = p" using inv_dirs_apart [OF inv q(1)] e by (auto simp: entry_def)
        then show ?thesis using True sp(3) E [of p a e'] by auto
      next
        case False
        then have "page_map (mem s) (pagedir (threads s q)) va \<noteq> None" using q pm [OF qd q(2)] by auto
        then obtain b eb where "entry s q b eb" "user_vaddr eb = pg_round_down va" using ti(8) q by blast
        then show ?thesis using E [of q b eb] E [of p a e'] sp(3) inv_same_owner [OF inv e] by (cases "b = a") auto
      qed
    qed
  qed
  moreover have "mem_inv s'" using vm_invD(1) [OF inv] mm t by (auto simp: mem_inv_def)
  ultimately show inv': "vm_inv s'" using sf fr by (simp add: vm_inv_def)
  assume same: "page_view s' p e' = page_view s p e"
  show "same_view s s'"
  proof (rule same_viewI [OF inv inv' t(1)])
    fix q b eb assume b: "entry s q b eb"
    show "\<exists>e1. entry s' q b e1 \<and> user_vaddr e1 = user_vaddr eb \<and> page_view s' q e1 = page_view s q eb"
    proof (cases "b = a")
      case True
      then show ?thesis using inv_same_owner [OF inv e] b E [of p a e'] sp(3) same by auto
    next
      case False
      then show ?thesis using b E [of q b eb] keep(2) [OF b] by auto
    qed
  next
    fix q b e1 assume "entry s' q b e1"
    then show "\<exists>eb. entry s q b eb \<and> user_vaddr eb = user_vaddr e1" using e sp(3) by (auto simp: E split: if_splits)
  qed
qed

section \<open>Eviction\<close>

text \<open>What the operations on frames leave alone.\<close>

definition same_rest :: "kstate \<Rightarrow> kstate \<Rightarrow> bool" where
  "same_rest s s' \<longleftrightarrow> threads s' = threads s \<and> current s' = current s \<and> lock_frame s' = lock_frame s \<and> next_spte s' = next_spte s
     \<and> fresh_spte s' = fresh_spte s \<and> page_fault_cnt s' = page_fault_cnt s \<and> console s' = console s \<and> keys s' = keys s
     \<and> pool_pages (user_pool (phys (mem s'))) = pool_pages (user_pool (phys (mem s))) \<and> cr3 (mem s') = cr3 (mem s)
     \<and> (\<forall>b. sptes s' b \<noteq> sptes s b \<longrightarrow> (\<exists>q eb. entry s q b eb \<and> loaded eb))"

lemma same_rest_simps:
  assumes "same_rest s s'"
  shows "threads s' = threads s" "current s' = current s" "lock_frame s' = lock_frame s" "next_spte s' = next_spte s"
    "live s' = live s" "dirs s' = dirs s" "thread_current s' = thread_current s"
  using assms by (simp_all add: same_rest_def live_def dirs_def thread_current_def)

lemma mapped_pte: "page_map m pd va = Some w \<Longrightarrow> pte m pd va = Some w"
  by (auto simp: page_map_def split: option.splits if_splits)

lemma inv_mem:
  assumes "vm_inv s"
  shows "vm_ok (mem s) (dirs s)" "dirs_ok (mem s) (dirs s)" "pmem_wf (phys (mem s))" "\<exists>a. active_pd (mem s) = Some a"
    "length (frame_bytes s fr) = PGSIZE"
  using vm_invD(1) [OF assms] by (auto simp: mem_inv_def vm_ok_def dirs_ok_def pmem_wf_def frame_bytes_def)

lemma inv_nth_frame:
  assumes inv: "vm_inv s" and i: "i < length (frame_table s)"
  obtains e w where "entry s (owner (frame_table s ! i)) (fte_spte (frame_table s ! i)) e"
    "entry_map s (owner (frame_table s ! i)) e = Some w" "frame_of w = frame (frame_table s ! i)" "frame (frame_table s ! i) \<in> uused (mem s)"
  using vm_invD(5) [OF inv] nth_mem [OF i] unfolding frames_inv_def by blast

lemma inv_test:
  assumes inv: "vm_inv s" and e: "entry s p a e" and w: "entry_map s p e = Some w"
  shows "test_bit bt (pagedir (threads s p)) (user_vaddr e) (mem s) = Some (w AND bt \<noteq> 0)"
  using test_bit_spec [OF inv_mem(2) [OF inv] inv_entry(4,2) [OF inv e]] mapped_pte w by (simp add: entry_map_def)

lemma user_page_pool: "pmem_wf (phys m) \<Longrightarrow> a \<in> uused m \<Longrightarrow> a \<noteq> 0 \<and> kpage_ok a"
proof -
  assume "pmem_wf (phys m)" and a: "a \<in> uused m"
  then have p: "pool_wf (user_pool (phys m))" by (simp add: pmem_wf_def)
  have "a \<in> pool_pages (user_pool (phys m))" using a used_in_pool unfolding uused_def by blast
  then obtain i where "i < bit_cnt (used_map (user_pool (phys m)))" "a = page_at (pool_base (user_pool (phys m))) i"
    by (auto simp: pool_pages_def)
  then have "kpage_ok a" using pool_page(2) [OF p] by simp
  then show ?thesis by (auto simp: kpage_ok_def is_kernel_vaddr_def PHYS_BASE_def)
qed

lemma drop_frame_inv:
  assumes inv: "vm_inv s" and i: "i < length (frame_table s)"
  defines "f \<equiv> frame_table s ! i"
  assumes e: "entry s (owner f) (fte_spte f) e" and st: "entry_step s (owner f) (fte_spte f) e e' None s'"
    and ft: "frame_table s' = take i (frame_table s) @ drop (Suc i) (frame_table s)"
    and uu: "uused (mem s') = uused (mem s) - {frame f}"
  shows "frames_inv s'"
proof -
  note E = entry_step_entry [OF inv e st] and M = entry_step_map [OF inv e st]
  have F: "frame_table s = take i (frame_table s) @ f # drop (Suc i) (frame_table s)"
    using id_take_nth_drop [OF i] by (simp add: f_def)
  have di: "distinct (map frame (frame_table s))" using vm_invD(5) [OF inv] by (simp add: frames_inv_def)
  have sub: "g \<in> set (frame_table s) \<and> frame g \<noteq> frame f" if "g \<in> set (frame_table s')" for g
  proof -
    have "distinct (map frame (take i (frame_table s) @ f # drop (Suc i) (frame_table s)))" using di F by simp
    then have "frame f \<notin> frame ` set (take i (frame_table s))" "frame f \<notin> frame ` set (drop (Suc i) (frame_table s))" by auto
    then have "frame g \<noteq> frame f" using that unfolding ft by (metis Un_iff image_eqI set_append)
    then show ?thesis using that unfolding ft by (auto dest: in_set_takeD in_set_dropD)
  qed
  have sup: "g \<in> set (frame_table s')" if "g \<in> set (frame_table s)" "g \<noteq> f" for g
    using that unfolding ft by (subst (asm) F) auto
  have keepf: "\<exists>e1 w1. entry s' (owner g) (fte_spte g) e1 \<and> entry_map s' (owner g) e1 = Some w1 \<and> frame_of w1 = frame g"
    if g: "g \<in> set (frame_table s')" for g
  proof -
    from sub [OF g] vm_invD(5) [OF inv] obtain e1 w1 where e1: "entry s (owner g) (fte_spte g) e1" "entry_map s (owner g) e1 = Some w1" "frame_of w1 = frame g"
      unfolding frames_inv_def by blast
    from vm_invD(5) [OF inv] nth_mem [OF i] obtain e2 w2 where "entry s (owner f) (fte_spte f) e2" "entry_map s (owner f) e2 = Some w2" "frame_of w2 = frame f"
      unfolding frames_inv_def f_def by blast
    then have "fte_spte g \<noteq> fte_spte f" using inv_same_owner [OF inv e1(1), of "owner f" e2] e1 sub [OF g] by auto
    then show ?thesis using e1 E [of "owner g" "fte_spte g" e1] M [OF e1(1)] by auto
  qed
  show ?thesis unfolding frames_inv_def
  proof (intro conjI ballI allI impI)
    show "distinct (map frame (frame_table s'))" 
    proof -
      have "distinct (map frame (take i (frame_table s) @ f # drop (Suc i) (frame_table s)))" using di F by simp
      then show ?thesis unfolding ft by simp
    qed
  next
    fix g assume g: "g \<in> set (frame_table s')"
    show "frame g \<in> uused (mem s')" using sub [OF g] vm_invD(5) [OF inv] uu by (simp add: frames_inv_def)
    show "\<exists>e1 w1. entry s' (owner g) (fte_spte g) e1 \<and> entry_map s' (owner g) e1 = Some w1 \<and> frame_of w1 = frame g" by (rule keepf [OF g])
  next
    fix q b eb w assume b: "entry s' q b eb \<and> entry_map s' q eb = Some w"
    have "user_vaddr e' = user_vaddr e" using st by (simp add: entry_step_def)
    then have na: "b \<noteq> fte_spte f" using b E [of q b eb] M [OF e] by (auto simp: entry_map_def)
    then have "entry s q b eb" "entry_map s q eb = Some w" using b E [of q b eb] M [of q b eb] by auto
    then obtain g where g: "g \<in> set (frame_table s)" "owner g = q" "fte_spte g = b" using vm_invD(5) [OF inv] unfolding frames_inv_def by blast
    then have "g \<noteq> f" using na by auto
    then show "\<exists>f \<in> set (frame_table s'). owner f = q \<and> fte_spte f = b" using sup g by blast
  qed
qed

lemma evict_entry_spec:
  assumes inv: "vm_inv s" and i: "i < length (frame_table s)" and room: "\<not> swap_full (swap s)"
  shows "\<exists>s'. evict_entry i s = Some s' \<and> vm_inv s' \<and> same_view s s' \<and> same_rest s s' \<and> files s' = files s
     \<and> length (frame_table s') < length (frame_table s) \<and> uused (mem s') = uused (mem s) - {frame (frame_table s ! i)}
     \<and> frame (frame_table s ! i) \<in> uused (mem s)"
proof -
  define f where "f = frame_table s ! i"
  obtain e w where e: "entry s (owner f) (fte_spte f) e" "entry_map s (owner f) e = Some w" "frame_of w = frame f" "frame f \<in> uused (mem s)"
    using inv_nth_frame [OF inv i] unfolding f_def by blast
  define pd where "pd = pagedir (threads s (owner f))"
  note im = inv_mem [OF inv]
  note ie = inv_entry [OF inv e(1)]
  have se: "sptes s (fte_spte f) = Some e" using e(1) by (simp add: entry_def)
  have ld: "loaded e" "\<not> is_swapped e" using ie(1) e(2) by (auto simp: spte_ok_def)
  have f0: "frame f \<noteq> 0" using user_page_pool [OF im(3) e(4)] by simp
  have dt: "pagedir_is_dirty pd (user_vaddr e) (mem s) = Some (w AND PTE_D \<noteq> 0)"
    using inv_test [OF inv e(1,2)] by (simp add: pagedir_is_dirty_def pd_def)
  define out where "out \<longleftrightarrow> w AND PTE_D \<noteq> 0 \<or> file_type e = TYPE_SWAP"
  obtain x sw where sw: "swap_out (frame_bytes s (frame f)) (swap s) = Some (x, sw)" "swap_view (swap s) x = None" "swap_inv sw"
    "swap_view sw = (swap_view (swap s))(x \<mapsto> frame_bytes s (frame f))"
    using swap_out_spec [OF vm_invD(2) [OF inv] im(5), of "frame f"] room by auto
  obtain m1 where m1: "pagedir_clear_page pd (user_vaddr e) (mem s) = Some m1" "vm_ok m1 (dirs s)" "one_page (mem s) (dirs s) pd (user_vaddr e) None m1"
    using clear_page_spec [OF im(1) ie(4,2,3)] im(4) unfolding pd_def by blast
  have u1: "uused m1 = uused (mem s)" "\<forall>b \<in> uused (mem s). pages (phys m1) b = pages (phys (mem s)) b"
    "pool_pages (user_pool (phys m1)) = pool_pages (user_pool (phys (mem s)))" "ram_pages m1 = ram_pages (mem s)" "cr3 m1 = cr3 (mem s)"
    using m1(3) by (auto simp: one_page_def same_users_def uused_def get_pool_def dest: spec [of _ True])
  obtain m2 where m2: "free_page_at (frame f) m1 = Some m2" "vm_ok m2 (dirs s)" "uused m2 = uused m1 - {frame f}"
      "\<forall>b. b \<noteq> frame f \<longrightarrow> pages (phys m2) b = pages (phys m1) b" "same_regs m1 m2"
      "\<forall>u. pool_pages (get_pool u (phys m2)) = pool_pages (get_pool u (phys m1))"
      "\<forall>pd va. pd \<in> dirs s \<longrightarrow> is_user_vaddr va \<longrightarrow> page_map m2 pd va = page_map m1 pd va"
    using free_user_page [OF m1(2), of "frame f"] e(4) u1(1) by auto
  define e1 where "e1 = (if out then e\<lparr>file_type := TYPE_SWAP, swap_num := x, is_swapped := True\<rparr> else e)"
  define e' where "e' = e1\<lparr>loaded := False\<rparr>"
  define s' where "s' = set_spte (fte_spte f) e' (remove_frame i (if out then s\<lparr>swap := sw\<rparr> else s)\<lparr>mem := m2\<rparr>)"
  have run: "evict_entry i s = Some s'"
    using se dt f0 sw(1) m1(1) m2(1)
    by (cases out) (auto simp: evict_entry_def Let_def f_def [symmetric] pd_def [symmetric] out_def
        remove_frame_def set_spte_def s'_def e'_def e1_def)
  have fld: "threads s' = threads s" "files s' = files s" "sptes s' = (sptes s)(fte_spte f \<mapsto> e')" "mem s' = m2" "next_spte s' = next_spte s"
    "swap s' = (if out then sw else swap s)" "frame_table s' = take i (frame_table s) @ drop (Suc i) (frame_table s)"
    by (simp_all add: s'_def set_spte_def remove_frame_def)
  have st: "entry_step s (owner f) (fte_spte f) e e' None s'"
  proof -
    have pm: "page_map m2 pd' va = (if pd' = pagedir (threads s (owner f)) \<and> pg_round_down va = user_vaddr e then None else page_map (mem s) pd' va)"
      if "pd' \<in> dirs s" "is_user_vaddr va" for pd' va
      using m2(7) m1(3) that by (simp add: one_page_def pd_def)
    have ot: "frame_bytes s' (frame_of w') = frame_bytes s (frame_of w')" if "entry s q b eb" "b \<noteq> fte_spte f" "entry_map s q eb = Some w'" for q b eb w'
    proof -
      have "frame_of w' \<noteq> frame f" using inv_frames_apart [OF inv that(1,3) e(1,2)] that(2) e(3) by auto
      moreover have "frame_of w' \<in> uused (mem s)" using inv_frame [OF inv that(1,3)] by blast
      ultimately show ?thesis using m2(4) u1(2) by (simp add: frame_bytes_def fld)
    qed
    have sl: "swap_view (swap s') (swap_num eb) = swap_view (swap s) (swap_num eb) \<and> (is_swapped e' \<longrightarrow> swap_num e' \<noteq> swap_num eb)"
      if "entry s q b eb" "is_swapped eb" for q b eb
    proof -
      have "swap_view (swap s) (swap_num eb) \<noteq> None" using inv_entry(1) [OF inv that(1)] that(2) by (auto simp: spte_ok_def)
      then have "swap_num eb \<noteq> x" using sw(2) by auto
      then show ?thesis using sw(4) ld(2) by (auto simp: fld e'_def e1_def)
    qed
    have last: "\<forall>q b eb. entry s q b eb \<and> b \<noteq> fte_spte f \<longrightarrow>
          (\<forall>w. entry_map s q eb = Some w \<longrightarrow> frame_bytes s' (frame_of w) = frame_bytes s (frame_of w))
          \<and> (is_swapped eb \<longrightarrow> swap_view (swap s') (swap_num eb) = swap_view (swap s) (swap_num eb)
               \<and> (is_swapped e' \<longrightarrow> swap_num e' \<noteq> swap_num eb))"
      using ot sl by blast
    show ?thesis unfolding entry_step_def
      by (intro conjI last)
        (use im(4) m2(2,5) m2(6) [rule_format, of True] pm vm_invD(2,3) [OF inv] sw(3) u1(3-5) in
          \<open>auto simp: fld e'_def e1_def same_regs_def active_pd_def get_pool_def\<close>)
  qed
  have "entry_map s' (owner f) e' = None" using entry_step_map [OF inv e(1) st e(1)] by (simp add: entry_map_def e'_def e1_def)
  then have mp: "entry_map s' (owner f) e' = None" by simp
  have ok': "spte_ok s' (owner f) e'" and pv: "page_view s' (owner f) e' = page_view s (owner f) e"
  proof -
    have fo: "file_ok s' e" if "file_type e = TYPE_FILE" using ie(1) that file_ok_same [of s s' e] by (simp add: fld spte_ok_def)
    then have fo': "file_type e = TYPE_FILE \<Longrightarrow> file_ok s' e'" if "\<not> out" using that by (simp add: file_ok_def e'_def e1_def)
    have nt: "file_type e = TYPE_FILE \<and> w AND PTE_D = 0" if "\<not> out" using that ie(1) page_type.exhaust [of "file_type e"] by (auto simp: out_def spte_ok_def)
    show "spte_ok s' (owner f) e'"
      using ie(1) mp fo' nt sw(4) im(5) ld unfolding spte_ok_def by (auto simp: fld e'_def e1_def)
    have fp: "frame_bytes s (frame f) = file_page s e" if "\<not> out" using ie(1) nt [OF that] e(2,3) by (auto simp: spte_ok_def)
    have "file_page s' e' = file_page s e" if "\<not> out"
      unfolding file_page_same [OF same_files_refl [OF fld(2)]] using that by (simp add: file_page_def e'_def e1_def)
    then show "page_view s' (owner f) e' = page_view s (owner f) e"
      using mp e(2,3) sw(4) fp ld(2) by (auto simp: page_view_def fld e'_def e1_def split: option.splits)
  qed
  have fr: "frames_inv s'"
    using drop_frame_inv [OF inv i, folded f_def, OF e(1) st fld(7)] m2(3) u1(1) by (simp add: fld)
  note es = entry_step_inv [OF inv e(1) st ok' fr]
  have "same_rest s s'"
    using m2(5) m2(6) [rule_format, of True] u1(3,5) e(1) ld(1)
    by (auto simp: same_regs_def same_rest_def s'_def set_spte_def remove_frame_def get_pool_def)
  moreover have "length (frame_table s') < length (frame_table s)" using i by (simp add: fld)
  moreover have "uused (mem s') = uused (mem s) - {frame f}" using m2(3) u1(1) by (simp add: fld)
  ultimately show ?thesis using run es(1) es(4) [OF pv] fld(2) e(4) unfolding f_def by blast
qed

definition evicted :: "kstate \<Rightarrow> kstate \<Rightarrow> bool" where
  "evicted s s' \<longleftrightarrow> vm_inv s' \<and> same_view s s' \<and> same_rest s s' \<and> files s' = files s
     \<and> (\<exists>fr \<in> uused (mem s). uused (mem s') = uused (mem s) - {fr})"

lemma same_view_trans: "same_view s s' \<Longrightarrow> same_view s' s'' \<Longrightarrow> live s' = live s \<Longrightarrow> same_view s s''"
  by (simp add: same_view_def)

lemma same_rest_trans:
  assumes a: "same_rest s s'" and b: "same_rest s' s''"
  shows "same_rest s s''"
proof -
  have "\<exists>q eb. entry s q c eb \<and> loaded eb" if "sptes s'' c \<noteq> sptes s c" for c
  proof (cases "sptes s' c = sptes s c")
    case True
    then have "sptes s'' c \<noteq> sptes s' c" using that by simp
    then obtain q eb where "entry s' q c eb" "loaded eb" using b unfolding same_rest_def by blast
    then show ?thesis using True a by (auto simp: entry_def same_rest_def live_def)
  next
    case False
    then show ?thesis using a by (simp add: same_rest_def)
  qed
  then show ?thesis using a b by (simp add: same_rest_def)
qed

text \<open>Clearing the accessed bit of a frame.\<close>

definition unaccessed :: "kstate \<Rightarrow> nat \<Rightarrow> bool" where
  "unaccessed s j \<longleftrightarrow> (\<exists>e w. entry s (owner (frame_table s ! j)) (fte_spte (frame_table s ! j)) e
     \<and> entry_map s (owner (frame_table s ! j)) e = Some w \<and> w AND PTE_A = 0)"

definition touched :: "kstate \<Rightarrow> kstate \<Rightarrow> bool" where
  "touched s s' \<longleftrightarrow> vm_inv s' \<and> same_view s s' \<and> same_rest s s' \<and> (\<exists>m. s' = s\<lparr>mem := m\<rparr>) \<and> uused (mem s') = uused (mem s)
     \<and> (\<forall>j < length (frame_table s). unaccessed s j \<longrightarrow> unaccessed s' j)"

lemma PTE_A_clear: "(w AND NOT PTE_A) AND PTE_A = 0" "(w AND NOT PTE_A) AND PTE_D = w AND PTE_D" "(w AND NOT PTE_A) AND PTE_ADDR = w AND PTE_ADDR"
  "(w AND NOT PTE_A) AND PTE_W = w AND PTE_W" "(w AND NOT PTE_A) AND PTE_U = w AND PTE_U"
proof -
  show "(w AND NOT PTE_A) AND PTE_U = w AND PTE_U" by (simp add: and.assoc PTE_A_def PTE_U_def)
  show "(w AND NOT PTE_A) AND PTE_W = w AND PTE_W" by (simp add: and.assoc PTE_A_def PTE_W_def)
  show "(w AND NOT PTE_A) AND PTE_A = 0" by (simp add: and.assoc)
  show "(w AND NOT PTE_A) AND PTE_D = w AND PTE_D" by (simp add: and.assoc PTE_A_def PTE_D_def)
  show "(w AND NOT PTE_A) AND PTE_ADDR = w AND PTE_ADDR" by (rule flag_bits_addr(2)) simp
qed

lemma clear_accessed:
  assumes inv: "vm_inv s" and e: "entry s p a e" "entry_map s p e = Some w"
  shows "\<exists>m. pagedir_set_accessed (pagedir (threads s p)) (user_vaddr e) False (mem s) = Some m \<and> touched s (s\<lparr>mem := m\<rparr>)
     \<and> entry_map (s\<lparr>mem := m\<rparr>) p e = Some (w AND NOT PTE_A)"
proof -
  note ie = inv_entry [OF inv e(1)]
  obtain act where act: "active_pd (mem s) = Some act" using inv_mem(4) [OF inv] by blast
  have fb: "flag_bits PTE_A" "PTE_A AND PTE_P = 0" using flag_bits_nonzero by simp_all
  obtain m where m: "pagedir_set_accessed (pagedir (threads s p)) (user_vaddr e) False (mem s) = Some m" "vm_ok m (dirs s)"
    "one_page (mem s) (dirs s) (pagedir (threads s p)) (user_vaddr e)
       (map_option (\<lambda>w. w AND NOT PTE_A) (page_map (mem s) (pagedir (threads s p)) (user_vaddr e))) m"
    using change_bit_spec [OF inv_mem(1) [OF inv] ie(4,2,3) act fb, of False] by (auto simp: pagedir_set_accessed_def)
  let ?s = "s\<lparr>mem := m\<rparr>"
  have pm: "page_map m pd va = (if pd = pagedir (threads s p) \<and> pg_round_down va = user_vaddr e then map_option (\<lambda>w. w AND NOT PTE_A) (page_map (mem s) pd va)
      else page_map (mem s) pd va)" if "pd \<in> dirs s" "is_user_vaddr va" for pd va
    using m(3) that page_map_page [OF ie(3), of va "mem s"] by (simp add: one_page_def)
  have rel: "pt_rel (page_map (mem s) pd va) (page_map m pd va)" if "pd \<in> dirs s" "is_user_vaddr va" for pd va
    using pm [OF that] PTE_A_clear by (cases "page_map (mem s) pd va") (auto simp: pt_rel_def)
  have F: "frame ` set (frame_table s) \<subseteq> uused (mem s)" using vm_invD(5) [OF inv] by (auto simp: frames_inv_def)
  have "uused m = uused (mem s)" "\<forall>b \<in> uused (mem s). pages (phys m) b = pages (phys (mem s)) b" "active_pd m = Some act"
    "pool_pages (user_pool (phys m)) = pool_pages (user_pool (phys (mem s)))" "ram_pages m = ram_pages (mem s)"
    using m(3) act by (auto simp: one_page_def same_users_def uused_def get_pool_def active_pd_def dest: spec [of _ True])
  then have mc: "mem_calm (mem s) m (dirs s) (frame ` set (frame_table s))"
    using m(2) rel F unfolding mem_calm_def by blast
  have c: "calm s ?s" using mc vm_invD(3) [OF inv] by (simp add: calm_def)
  note ci = calm_inv [OF inv c]
  have new: "entry_map ?s q eb = (if pagedir (threads s q) = pagedir (threads s p) \<and> user_vaddr eb = user_vaddr e
      then map_option (\<lambda>w. w AND NOT PTE_A) (entry_map s q eb) else entry_map s q eb)" if "entry s q b eb" for q b eb
    using pm [OF inv_entry(4,2) [OF inv that]] inv_entry(5) [OF inv that] by (simp add: entry_map_def)
  have ua: "unaccessed ?s j" if "unaccessed s j" for j
  proof -
    from that obtain ej wj where ej: "entry s (owner (frame_table s ! j)) (fte_spte (frame_table s ! j)) ej"
      "entry_map s (owner (frame_table s ! j)) ej = Some wj" "wj AND PTE_A = 0" by (auto simp: unaccessed_def)
    have "\<exists>w'. entry_map ?s (owner (frame_table s ! j)) ej = Some w' \<and> w' AND PTE_A = 0"
      using new [OF ej(1)] ej(2,3) PTE_A_clear(1) by (auto simp: and.assoc)
    then show ?thesis using ej(1) ci(3) unfolding unaccessed_def by auto
  qed
  have "same_rest s ?s" using mc m(3) by (simp add: same_rest_def mem_calm_def one_page_def)
  moreover have "uused m = uused (mem s)" using m(3) by (simp add: one_page_def same_users_def uused_def)
  ultimately have "touched s ?s" unfolding touched_def using ci(1,2) ua by auto
  moreover have "entry_map ?s p e = Some (w AND NOT PTE_A)" using new [OF e(1)] e(2) by simp
  ultimately show ?thesis using m(1) by blast
qed

lemma touched_trans:
  assumes "touched s s'" and "touched s' s''"
  shows "touched s s''"
proof -
  have v: "same_view s s'" "same_view s' s''" "same_rest s s'" "same_rest s' s''" "vm_inv s''" using assms by (auto simp: touched_def)
  have ex: "\<exists>m. s'' = s\<lparr>mem := m\<rparr>" "frame_table s' = frame_table s" "uused (mem s'') = uused (mem s)"
    using assms by (auto simp: touched_def)
  have "\<forall>j < length (frame_table s). unaccessed s j \<longrightarrow> unaccessed s'' j" using assms ex(2) by (simp add: touched_def)
  then show ?thesis unfolding touched_def
    using same_view_trans [OF v(1,2) same_rest_simps(5) [OF v(3)]] same_rest_trans [OF v(3,4)] v(5) ex by blast
qed

lemma touched_evicted:
  assumes "touched s s'" and "evicted s' s''"
  shows "evicted s s''"
proof -
  have v: "same_view s s'" "same_view s' s''" "same_rest s s'" "same_rest s' s''" "vm_inv s''" using assms by (auto simp: touched_def evicted_def)
  have f: "files s'' = files s" "\<exists>fr \<in> uused (mem s). uused (mem s'') = uused (mem s) - {fr}"
    using assms by (auto simp: touched_def evicted_def)
  show ?thesis unfolding evicted_def
    using same_view_trans [OF v(1,2) same_rest_simps(5) [OF v(3)]] same_rest_trans [OF v(3,4)] v(5) f by blast
qed

lemma evict_loop_spec:
  assumes "vm_inv s" and "\<not> swap_full (swap s)" and "i + n = length (frame_table s)" and "\<forall>j < i. unaccessed s j"
  shows "\<exists>r s'. evict_loop first n i s = Some (r, s') \<and> (if r then evicted s s' else touched s s' \<and> (\<forall>j < length (frame_table s). unaccessed s' j))"
  using assms
proof (induction n arbitrary: i s)
  case 0
  then have "touched s s" unfolding touched_def same_view_def same_rest_def by (auto intro!: exI [of _ "mem s"])
  then show ?case using 0 by (intro exI [of _ False] exI [of _ s]) simp
next
  case (Suc n)
  have i: "i < length (frame_table s)" using Suc.prems(3) by simp
  define f where "f = frame_table s ! i"
  obtain e w where e: "entry s (owner f) (fte_spte f) e" "entry_map s (owner f) e = Some w"
    using inv_nth_frame [OF Suc.prems(1) i] unfolding f_def by blast
  have se: "sptes s (fte_spte f) = Some e" using e(1) by (simp add: entry_def)
  have acc: "pagedir_is_accessed (pagedir (threads s (owner f))) (user_vaddr e) (mem s) = Some (w AND PTE_A \<noteq> 0)"
    using inv_test [OF Suc.prems(1) e] by (simp add: pagedir_is_accessed_def)
  have nm: "file_type e \<noteq> TYPE_MMAP" using inv_entry(1) [OF Suc.prems(1) e(1)] by (simp add: spte_ok_def)
  show ?case
  proof (cases "w AND PTE_A = 0")
    case True
    obtain s' where "evict_entry i s = Some s'" "evicted s s'"
      using evict_entry_spec [OF Suc.prems(1) i Suc.prems(2)] unfolding evicted_def by blast
    then show ?thesis using True se acc nm by (intro exI [of _ True] exI [of _ s']) (simp add: f_def [symmetric])
  next
    case False
    obtain m where m: "pagedir_set_accessed (pagedir (threads s (owner f))) (user_vaddr e) False (mem s) = Some m" "touched s (s\<lparr>mem := m\<rparr>)"
      "entry_map (s\<lparr>mem := m\<rparr>) (owner f) e = Some (w AND NOT PTE_A)"
      using clear_accessed [OF Suc.prems(1) e] by blast
    let ?s = "s\<lparr>mem := m\<rparr>"
    have "unaccessed ?s i"
      using m(3) e(1) PTE_A_clear(1) unfolding unaccessed_def f_def [symmetric] by (auto simp: entry_def live_def f_def [symmetric])
    then have "\<forall>j < Suc i. unaccessed ?s j" using m(2) Suc.prems(4) i by (auto simp: touched_def less_Suc_eq)
    moreover have "vm_inv ?s" using m(2) by (simp add: touched_def)
    ultimately obtain r s' where "evict_loop first n (Suc i) ?s = Some (r, s')"
      "if r then evicted ?s s' else touched ?s s' \<and> (\<forall>j < length (frame_table s). unaccessed s' j)"
      using Suc.IH [of ?s "Suc i"] Suc.prems(2,3) by auto
    then show ?thesis using False se acc m(1) touched_trans [OF m(2)] touched_evicted [OF m(2)]
      by (auto simp: f_def [symmetric] split: if_splits)
  qed
qed

text \<open>The second pass takes the first frame: the first pass has cleared its accessed bit.\<close>

lemma evict_frame_spec:
  assumes inv: "vm_inv s" and room: "\<not> swap_full (swap s)"
  shows "\<exists>r s'. evict_frame s = Some (r, s') \<and> (r \<longleftrightarrow> frame_table s \<noteq> []) \<and> (if r then evicted s s' else s' = s)"
proof (cases "frame_table s = []")
  case True
  then show ?thesis by (intro exI [of _ False] exI [of _ s]) (simp add: evict_frame_def)
next
  case False
  obtain r s1 where s1: "evict_loop True (length (frame_table s)) 0 s = Some (r, s1)"
    "if r then evicted s s1 else touched s s1 \<and> (\<forall>j < length (frame_table s). unaccessed s1 j)"
    using evict_loop_spec [OF inv room, of 0 "length (frame_table s)" True] by auto
  show ?thesis
  proof (cases r)
    case True
    then show ?thesis using s1 False by (intro exI [of _ True] exI [of _ s1]) (simp add: evict_frame_def)
  next
    case nr: False
    then have t: "touched s s1" and u: "unaccessed s1 0" using s1(2) False by auto
    have s1': "vm_inv s1" "frame_table s1 = frame_table s" "swap s1 = swap s" using t by (auto simp: touched_def)
    have "length (frame_table s1) \<noteq> 0" using False s1'(2) by simp
    then obtain n where n: "length (frame_table s1) = Suc n" using not0_implies_Suc by blast
    define f where "f = frame_table s1 ! 0"
    from u obtain e w where e: "entry s1 (owner f) (fte_spte f) e" "entry_map s1 (owner f) e = Some w" "w AND PTE_A = 0"
      by (auto simp: unaccessed_def f_def)
    have se: "sptes s1 (fte_spte f) = Some e" using e(1) by (simp add: entry_def)
    have acc: "pagedir_is_accessed (pagedir (threads s1 (owner f))) (user_vaddr e) (mem s1) = Some False"
      using inv_test [OF s1'(1) e(1,2)] e(3) by (simp add: pagedir_is_accessed_def)
    obtain s2 where "evict_entry 0 s1 = Some s2" "evicted s1 s2"
      using evict_entry_spec [OF s1'(1), of 0] n room s1'(3) unfolding evicted_def by auto
    then have "evict_loop False (length (frame_table s1)) 0 s1 = Some (True, s2)" using n se acc by (simp add: f_def [symmetric])
    then show ?thesis using s1(1) nr False touched_evicted [OF t \<open>evicted s1 s2\<close>]
      by (intro exI [of _ True] exI [of _ s2]) (simp add: evict_frame_def)
  qed
qed

section \<open>Allocating frames\<close>

lemma kmalloc_spec:
  assumes inv: "vm_inv s"
  shows "\<exists>s1. kmalloc s = (True, s1) \<and> calm s s1 \<and> same_rest s s1 \<and> mem s1 = mem s"
proof -
  let ?f = "heap_tick 1 (fs (files s))"
  let ?s = "s\<lparr>files := (files s)\<lparr>fs := ?f\<rparr>\<rparr>"
  have ok: "fs_ok (fs (files s))" by (rule vm_invD(3) [OF inv])
  then have "heap_ok (cache (fs (files s))) n" for n by (simp add: fs_ok_def cache_inv_def cache_core_def)
  then have run: "kmalloc s = (True, ?s)" by (simp add: kmalloc_def fs_malloc_def malloc_def heap_tick_def)
  have "cache_inv (cache ?f) = cache_inv (cache (fs (files s)))" "fs_disk ?f = fs_disk (fs (files s))" "cached (cache ?f) = cached (cache (fs (files s)))"
    "own_sectors ?f = own_sectors (fs (files s))" "inodes ?f = inodes (fs (files s))"
    unfolding heap_tick_def heap_cnt_irrelevant by (simp_all add: cache_inv_def cache_core_def)
  then have "fs_ok ?f" using ok unfolding fs_ok_def inode_wf_def by simp
  moreover have "same_files s ?s" by (simp add: same_files_def get_file_def)
  ultimately have "calm s ?s" using mem_calm_refl [OF inv] by (simp add: calm_def)
  moreover have "same_rest s ?s" by (simp add: same_rest_def)
  ultimately show ?thesis using run by auto
qed

text \<open>A frame that no entry uses yet.\<close>

definition spare :: "kstate \<Rightarrow> u32 \<Rightarrow> bool" where
  "spare s fr \<longleftrightarrow> fr \<in> uused (mem s) \<and> fr \<notin> frame ` set (frame_table s)"

lemma get_frame:
  assumes inv: "vm_inv s" and pflag: "pflag AND PAL_USER \<noteq> 0" "pflag AND PAL_ASSERT = 0" and room: "\<not> users_full (mem s)"
  shows "\<exists>fr p. palloc_get_page pflag (phys (mem s)) = Some (fr, p) \<and> fr \<noteq> 0 \<and> calm s (s\<lparr>mem := (mem s)\<lparr>phys := p\<rparr>\<rparr>)
     \<and> same_rest s (s\<lparr>mem := (mem s)\<lparr>phys := p\<rparr>\<rparr>) \<and> spare (s\<lparr>mem := (mem s)\<lparr>phys := p\<rparr>\<rparr>) fr
     \<and> (pflag AND PAL_ZERO \<noteq> 0 \<longrightarrow> frame_bytes (s\<lparr>mem := (mem s)\<lparr>phys := p\<rparr>\<rparr>) fr = replicate PGSIZE 0)"
proof (rule get_user_page [OF inv_mem(1) [OF inv] pflag])
  assume "users_full (mem s)"
  then show ?thesis using room by simp
next
  fix a p assume g: "palloc_get_page pflag (phys (mem s)) = Some (a, p)" "a \<noteq> 0" "kpage_ok a" "a \<notin> uused (mem s)"
      "vm_ok (mem s\<lparr>phys := p\<rparr>) (dirs s)" "uused (mem s\<lparr>phys := p\<rparr>) = insert a (uused (mem s))" "a \<in> pool_pages (user_pool (phys (mem s)))"
      "pages p = (if pflag AND PAL_ZERO \<noteq> 0 then (pages (phys (mem s)))(a := replicate PGSIZE 0) else pages (phys (mem s)))"
      "\<forall>u. pool_pages (get_pool u p) = pool_pages (get_pool u (phys (mem s)))"
      "\<forall>pd va. pd \<in> dirs s \<longrightarrow> is_user_vaddr va \<longrightarrow> page_map (mem s\<lparr>phys := p\<rparr>) pd va = page_map (mem s) pd va"
  have pp: "pool_pages (user_pool p) = pool_pages (user_pool (phys (mem s)))" using g(9) [rule_format, of True] by (simp add: get_pool_def)
  have act: "active_pd (mem s\<lparr>phys := p\<rparr>) \<noteq> None" using inv_mem(4) [OF inv] by (simp add: active_pd_def)
  have F: "frame ` set (frame_table s) \<subseteq> uused (mem s)" using vm_invD(5) [OF inv] by (auto simp: frames_inv_def)
  have "\<forall>b \<in> uused (mem s). pages p b = pages (phys (mem s)) b" using g(4,8) by auto
  then have "mem_calm (mem s) (mem s\<lparr>phys := p\<rparr>) (dirs s) (frame ` set (frame_table s))"
    unfolding mem_calm_def using g(5,6,10) pp act F by auto
  then have "calm s (s\<lparr>mem := (mem s)\<lparr>phys := p\<rparr>\<rparr>)" using vm_invD(3) [OF inv] by (simp add: calm_def)
  moreover have "frame ` set (frame_table s) \<subseteq> uused (mem s)" using vm_invD(5) [OF inv] by (auto simp: frames_inv_def)
  then have "spare (s\<lparr>mem := (mem s)\<lparr>phys := p\<rparr>\<rparr>) a" using g(4,6) by (auto simp: spare_def)
  moreover have "same_rest s (s\<lparr>mem := (mem s)\<lparr>phys := p\<rparr>\<rparr>)" using pp by (simp add: same_rest_def)
  ultimately show ?thesis using g(1,2,8) by (auto simp: frame_bytes_def)
qed

definition prepared :: "kstate \<Rightarrow> kstate \<Rightarrow> bool" where
  "prepared s s1 \<longleftrightarrow> vm_inv s1 \<and> same_view s s1 \<and> same_rest s s1 \<and> same_files s s1"

lemma prepared_refl: "vm_inv s \<Longrightarrow> prepared s s"
  by (simp add: prepared_def same_view_def same_rest_def)

lemma prepared_trans: "prepared s s1 \<Longrightarrow> prepared s1 s2 \<Longrightarrow> prepared s s2"
  unfolding prepared_def
  using same_view_trans [of s s1 s2] same_rest_trans [of s s1 s2] same_files_trans [of s s1 s2] same_rest_simps(5) [of s s1] by blast

lemma calm_prepared: "vm_inv s \<Longrightarrow> calm s s1 \<Longrightarrow> same_rest s s1 \<Longrightarrow> prepared s s1"
  using calm_inv(1,2) [of s s1] by (simp add: prepared_def calm_def)

lemma obtain_frame_spec:
  assumes inv: "vm_inv s" and pflag: "pflag AND PAL_USER \<noteq> 0" "pflag AND PAL_ASSERT = 0"
    and room: "\<not> swap_full (swap s)" "frame_table s \<noteq> [] \<or> \<not> users_full (mem s)"
  shows "\<exists>fr s2. obtain_frame pflag s = Some (fr, s2) \<and> fr \<noteq> 0 \<and> prepared s s2 \<and> spare s2 fr
      \<and> (pflag AND PAL_ZERO \<noteq> 0 \<longrightarrow> frame_bytes s2 fr = replicate PGSIZE 0)"
proof (cases "users_full (mem s)")
  case False
  from get_frame [OF inv pflag False] obtain fr p where g: "palloc_get_page pflag (phys (mem s)) = Some (fr, p)" "fr \<noteq> 0"
    "calm s (s\<lparr>mem := (mem s)\<lparr>phys := p\<rparr>\<rparr>)" "same_rest s (s\<lparr>mem := (mem s)\<lparr>phys := p\<rparr>\<rparr>)" "spare (s\<lparr>mem := (mem s)\<lparr>phys := p\<rparr>\<rparr>) fr"
    "pflag AND PAL_ZERO \<noteq> 0 \<longrightarrow> frame_bytes (s\<lparr>mem := (mem s)\<lparr>phys := p\<rparr>\<rparr>) fr = replicate PGSIZE 0" by blast
  then show ?thesis using calm_prepared [OF inv g(3,4)] by (simp add: obtain_frame_def)
next
  case True
  have full: "palloc_get_page pflag (phys (mem s)) = Some (0, phys (mem s))"
    by (rule get_user_page [OF inv_mem(1) [OF inv] pflag]) (use True in \<open>auto simp: users_full_def\<close>)
  obtain s3 where s3: "evict_frame s = Some (True, s3)" "evicted s s3"
    using evict_frame_spec [OF inv room(1)] room(2) True by auto
  then obtain gone where gone: "gone \<in> uused (mem s)" "uused (mem s3) = uused (mem s) - {gone}" by (auto simp: evicted_def)
  have i3: "vm_inv s3" and r3: "prepared s s3" using s3(2) by (auto simp: evicted_def prepared_def)
  have "gone \<in> pool_pages (user_pool (phys (mem s)))" using gone(1) used_in_pool by (auto simp: uused_def)
  then have "\<not> users_full (mem s3)" using gone(2) s3(2) by (auto simp: users_full_def evicted_def same_rest_def)
  from get_frame [OF i3 pflag this] obtain fr p where g: "palloc_get_page pflag (phys (mem s3)) = Some (fr, p)" "fr \<noteq> 0"
    "calm s3 (s3\<lparr>mem := (mem s3)\<lparr>phys := p\<rparr>\<rparr>)" "same_rest s3 (s3\<lparr>mem := (mem s3)\<lparr>phys := p\<rparr>\<rparr>)" "spare (s3\<lparr>mem := (mem s3)\<lparr>phys := p\<rparr>\<rparr>) fr"
    "pflag AND PAL_ZERO \<noteq> 0 \<longrightarrow> frame_bytes (s3\<lparr>mem := (mem s3)\<lparr>phys := p\<rparr>\<rparr>) fr = replicate PGSIZE 0" by blast
  then show ?thesis using full s3(1) prepared_trans [OF r3 calm_prepared [OF i3 g(3,4)]] by (simp add: obtain_frame_def)
qed

lemma allocate_frame_spec:
  assumes inv: "vm_inv s" and pflag: "pflag AND PAL_USER \<noteq> 0" "pflag AND PAL_ASSERT = 0"
    and room: "\<not> swap_full (swap s)" "frame_table s \<noteq> [] \<or> \<not> users_full (mem s)"
  shows "\<exists>fr s1. allocate_frame a pflag s = Some (fr, insert_frame_table \<lparr>frame = fr, owner = current s, fte_spte = a\<rparr> s1)
     \<and> fr \<noteq> 0 \<and> prepared s s1 \<and> spare s1 fr \<and> (pflag AND PAL_ZERO \<noteq> 0 \<longrightarrow> frame_bytes s1 fr = replicate PGSIZE 0)"
proof -
  from obtain_frame_spec [OF assms] obtain fr s2 where s2: "obtain_frame pflag s = Some (fr, s2)" "fr \<noteq> 0" "prepared s s2" "spare s2 fr"
      "pflag AND PAL_ZERO \<noteq> 0 \<longrightarrow> frame_bytes s2 fr = replicate PGSIZE 0" by blast
  have i2: "vm_inv s2" using s2(3) by (simp add: prepared_def)
  from kmalloc_spec [OF i2] obtain s5 where s5: "kmalloc s2 = (True, s5)" "calm s2 s5" "same_rest s2 s5" "mem s5 = mem s2" by blast
  have "current s5 = current s" using s2(3) s5(3) by (simp add: prepared_def same_rest_def)
  then have "allocate_frame a pflag s = Some (fr, insert_frame_table \<lparr>frame = fr, owner = current s, fte_spte = a\<rparr> s5)"
    using s2(1) s5(1) pflag(1) by (simp add: allocate_frame_def create_frame_table_entry_def)
  moreover have "spare s5 fr" using s2(4) s5(2,4) by (simp add: spare_def calm_def)
  moreover have "frame_bytes s5 fr = frame_bytes s2 fr" using s5(4) by (simp add: frame_bytes_def)
  ultimately show ?thesis using s2 prepared_trans [OF s2(3) calm_prepared [OF i2 s5(2,3)]] by auto
qed

section \<open>Loading a page\<close>

lemma entry_frame:
  assumes "kpage_ok fr"
  shows "frame_of (pt_entry fr (user_flags wr)) = fr" "pt_entry fr (user_flags wr) AND PTE_D = 0"
    "(pt_entry fr (user_flags wr) AND PTE_W \<noteq> 0) = wr" "pt_entry fr (user_flags wr) AND PTE_U \<noteq> 0"
  using assms by (simp_all add: frame_of_def entry_addr entry_flag_bits) (simp_all add: PTE_W_def PTE_U_def)

lemma spare_page:
  assumes "vm_inv s" and "spare s fr"
  shows "kpage_ok fr" "fr \<noteq> 0" "fr \<in> uused (mem s)" "drop_bit PTSHIFT (fr - PHYS_BASE) < ram_pages (mem s)"
proof -
  show u: "fr \<in> uused (mem s)" using assms(2) by (simp add: spare_def)
  show "kpage_ok fr" "fr \<noteq> 0" using user_page_pool [OF inv_mem(3) [OF assms(1)] u] by simp_all
  have "fr \<in> pool_pages (user_pool (phys (mem s)))" using u used_in_pool unfolding uused_def by blast
  then show "drop_bit PTSHIFT (fr - PHYS_BASE) < ram_pages (mem s)" using vm_invD(1) [OF assms(1)] by (simp add: mem_inv_def)
qed

lemma spare_unused:
  assumes "vm_inv s" and "spare s fr" and "entry s q b eb" and "entry_map s q eb = Some w"
  shows "frame_of w \<noteq> fr"
proof -
  from inv_frame [OF assms(1,3,4)] obtain f where "f \<in> set (frame_table s)" "frame f = frame_of w" by blast
  then show ?thesis using assms(2) unfolding spare_def by (metis imageI)
qed

lemma add_frame_inv:
  assumes inv: "vm_inv s" and e: "entry s p a e" "entry_map s p e = None" and sp: "spare s fr"
    and st: "entry_step s p a e e' (Some w) s'" and w: "frame_of w = fr"
    and ft: "frame_table s' = frame_table s @ [\<lparr>frame = fr, owner = p, fte_spte = a\<rparr>]" and uu: "uused (mem s) \<subseteq> uused (mem s')"
  shows "frames_inv s'"
proof -
  note E = entry_step_entry [OF inv e(1) st] and M = entry_step_map [OF inv e(1) st]
  note fi = vm_invD(5) [OF inv, unfolded frames_inv_def]
  have ea: "entry s' p a e'" "entry_map s' p e' = Some w"
    using E [of p a e'] M [OF e(1)] st by (auto simp: entry_step_def entry_map_def)
  show ?thesis unfolding frames_inv_def
  proof (intro conjI ballI allI impI)
    show "distinct (map frame (frame_table s'))" using fi sp by (simp add: ft spare_def)
  next
    fix g assume g: "g \<in> set (frame_table s')"
    show "frame g \<in> uused (mem s')" using g fi sp uu by (auto simp: ft spare_def)
    show "\<exists>e1 w1. entry s' (owner g) (fte_spte g) e1 \<and> entry_map s' (owner g) e1 = Some w1 \<and> frame_of w1 = frame g"
    proof (cases "g \<in> set (frame_table s)")
      case True
      then obtain e1 w1 where e1: "entry s (owner g) (fte_spte g) e1" "entry_map s (owner g) e1 = Some w1" "frame_of w1 = frame g" using fi by blast
      have "fte_spte g \<noteq> a" using inv_same_owner [OF inv e(1), of "owner g" e1] e1(1,2) e(2) by auto
      then show ?thesis using E [of "owner g" "fte_spte g" e1] M [OF e1(1)] e1 by auto
    next
      case False
      then have "g = \<lparr>frame = fr, owner = p, fte_spte = a\<rparr>" using g by (simp add: ft)
      then show ?thesis using ea w by auto
    qed
  next
    fix q b eb w1 assume b: "entry s' q b eb \<and> entry_map s' q eb = Some w1"
    show "\<exists>f \<in> set (frame_table s'). owner f = q \<and> fte_spte f = b"
    proof (cases "b = a")
      case True
      then show ?thesis using b E [of q b eb] by (simp add: ft)
    next
      case False
      then have "entry s q b eb" "entry_map s q eb = Some w1" using b E [of q b eb] M [of q b eb] by auto
      then have "\<exists>f \<in> set (frame_table s). owner f = q \<and> fte_spte f = b" using fi by blast
      then show ?thesis by (auto simp: ft)
    qed
  qed
qed

lemma install_page_spec:
  assumes ok: "vm_ok (mem t) D" and pd: "pagedir (thread_current t) \<in> D" and va: "is_user_vaddr va" "pg_ofs va = 0"
    and fr: "kpage_ok fr" "drop_bit PTSHIFT (fr - PHYS_BASE) < ram_pages (mem t)" and un: "page_map (mem t) (pagedir (thread_current t)) va = None"
  shows "\<exists>b m. install_page va fr wr t = Some (b, t\<lparr>mem := m\<rparr>) \<and> vm_ok m D \<and> (\<not> b \<longrightarrow> m = mem t \<and> kernel_full (mem t))
     \<and> one_page (mem t) D (pagedir (thread_current t)) va (if b then Some (pt_entry fr (user_flags wr)) else None) m"
proof -
  have d: "dirs_ok (mem t) D" using ok by (simp add: vm_ok_def)
  from set_page_spec [OF ok pd va fr un, of wr] obtain b m where
    m: "pagedir_set_page (pagedir (thread_current t)) va fr wr (mem t) = Some (b, m)" "vm_ok m D"
      "one_page (mem t) D (pagedir (thread_current t)) va (if b then Some (pt_entry fr (user_flags wr)) else None) m" "\<not> b \<longrightarrow> m = mem t \<and> kernel_full (mem t)" by blast
  have "pagedir_get_page (pagedir (thread_current t)) va (mem t) = Some 0" using get_page_spec [OF d pd va(1)] un by simp
  then show ?thesis using m by (auto simp: install_page_def)
qed

text \<open>Giving back the frame that was just allocated.\<close>

lemma find_frame_last: "fr \<notin> frame ` set ft \<Longrightarrow> frame f = fr \<Longrightarrow> find_frame fr (ft @ [f]) = Some (length ft)"
  by (induction ft) auto

lemma free_spare:
  assumes inv: "vm_inv s" and sp: "spare s fr" and ft: "frame_table t = frame_table s @ [f]" "frame f = fr"
    and mm: "vm_ok (mem t) (dirs s)" "uused (mem t) = uused (mem s)" "\<forall>b. b \<noteq> fr \<longrightarrow> pages (phys (mem t)) b = pages (phys (mem s)) b"
      "same_regs (mem s) (mem t)" "pool_pages (user_pool (phys (mem t))) = pool_pages (user_pool (phys (mem s)))"
      "\<And>pd va. pd \<in> dirs s \<Longrightarrow> is_user_vaddr va \<Longrightarrow> page_map (mem t) pd va = page_map (mem s) pd va"
    and fs: "same_files s t" "fs_ok (fs (files t))" and eq: "threads t = threads s" "sptes t = sptes s" "next_spte t = next_spte s" "swap t = swap s"
  shows "\<exists>m. free_frame fr t = Some (t\<lparr>frame_table := frame_table s, mem := m\<rparr>) \<and> calm s (t\<lparr>frame_table := frame_table s, mem := m\<rparr>)
    \<and> pool_pages (user_pool (phys m)) = pool_pages (user_pool (phys (mem s))) \<and> kernel_full m = kernel_full (mem t) \<and> cr3 m = cr3 (mem s)"
proof -
  have u: "fr \<in> uused (mem t)" and nf: "fr \<notin> frame ` set (frame_table s)" using sp mm(2) by (auto simp: spare_def)
  obtain m where m: "free_page_at fr (mem t) = Some m" "vm_ok m (dirs s)" "uused m = uused (mem t) - {fr}"
      "\<forall>b. b \<noteq> fr \<longrightarrow> pages (phys m) b = pages (phys (mem t)) b" "same_regs (mem t) m"
      "\<forall>u. pool_pages (get_pool u (phys m)) = pool_pages (get_pool u (phys (mem t)))"
      "\<forall>pd va. pd \<in> dirs s \<longrightarrow> is_user_vaddr va \<longrightarrow> page_map m pd va = page_map (mem t) pd va" "kernel_full m = kernel_full (mem t)"
    using free_user_page [OF mm(1) u] by blast
  have run: "free_frame fr t = Some (t\<lparr>frame_table := frame_table s, mem := m\<rparr>)"
    using find_frame_last [OF nf ft(2)] m(1) by (simp add: free_frame_def remove_frame_def ft(1))
  have F: "frame ` set (frame_table s) \<subseteq> uused m" using vm_invD(5) [OF inv] m(3) mm(2) nf by (auto simp: frames_inv_def)
  have pp: "pool_pages (user_pool (phys m)) = pool_pages (user_pool (phys (mem s)))"
    using m(6) [rule_format, of True] mm(5) by (simp add: get_pool_def)
  have "\<forall>b \<in> frame ` set (frame_table s). pages (phys m) b = pages (phys (mem s)) b" using m(4) mm(3) nf by metis
  moreover have "active_pd m \<noteq> None" "ram_pages m = ram_pages (mem s)"
    using inv_mem(4) [OF inv] mm(4) m(5) by (auto simp: same_regs_def active_pd_def)
  ultimately have "mem_calm (mem s) m (dirs s) (frame ` set (frame_table s))"
    unfolding mem_calm_def using m(2,7) mm(6) F pp by simp
  then have "calm s (t\<lparr>frame_table := frame_table s, mem := m\<rparr>)"
    using fs eq by (simp add: calm_def same_tables_def same_files_def)
  moreover have "cr3 m = cr3 (mem s)" using mm(4) m(5) by (simp add: same_regs_def)
  ultimately show ?thesis using run pp m(8) by blast
qed

definition same_env :: "kstate \<Rightarrow> kstate \<Rightarrow> bool" where
  "same_env s s' \<longleftrightarrow> threads s' = threads s \<and> current s' = current s \<and> lock_frame s' = lock_frame s \<and> next_spte s' = next_spte s
     \<and> fresh_spte s' = fresh_spte s \<and> page_fault_cnt s' = page_fault_cnt s \<and> console s' = console s \<and> keys s' = keys s
     \<and> pool_pages (user_pool (phys (mem s'))) = pool_pages (user_pool (phys (mem s))) \<and> cr3 (mem s') = cr3 (mem s)"

lemma rest_env: "same_rest s s' \<Longrightarrow> same_env s s'"
  by (simp add: same_rest_def same_env_def)

lemma same_env_trans: "same_env s s' \<Longrightarrow> same_env s' s'' \<Longrightarrow> same_env s s''"
  by (simp add: same_env_def)

lemma rest_entry:
  assumes inv: "vm_inv s" and r: "same_rest s s'" and e: "entry s p a e" "\<not> loaded e"
  shows "entry s' p a e"
proof -
  have "sptes s' a = sptes s a"
  proof (rule ccontr)
    assume "sptes s' a \<noteq> sptes s a"
    then obtain q eb where "entry s q a eb" "loaded eb" using r unfolding same_rest_def by blast
    then show False using inv_same_owner [OF inv e(1)] e(2) by blast
  qed
  then show ?thesis using e(1) r by (simp add: entry_def same_rest_def live_def)
qed

text \<open>The outcome of loading entry \<open>a\<close> of the running process.\<close>

definition handled :: "kstate \<Rightarrow> nat \<Rightarrow> spte \<Rightarrow> bool \<Rightarrow> kstate \<Rightarrow> bool" where
  "handled s a e b s' \<longleftrightarrow> vm_inv s' \<and> same_view s s' \<and> same_env s s' \<and> same_files s s'
     \<and> (\<not> b \<longrightarrow> kernel_full (mem s'))
     \<and> (b \<longrightarrow> (\<exists>e'. entry s' (current s) a e' \<and> user_vaddr e' = user_vaddr e
          \<and> (\<exists>fr. entry_map s' (current s) e' = Some (pt_entry fr (user_flags (page_writable e))) \<and> kpage_ok fr)))"

lemma zero_tail_page:
  assumes "length p = PGSIZE" and "rb + zb = PGSIZE" and "length d = rb"
  shows "zero_tail rb zb (d @ drop rb p) = d @ replicate zb 0"
  using assms by (simp add: zero_tail_def)

lemma page_read:
  assumes ok: "fs_ok (fs (files s))" and fo: "file_ok s e" and rb: "0 < read_bytes e" and len: "length bf = PGSIZE"
  shows "\<exists>f fp. spt_file e = Some fp \<and> file_read_at fp bf (read_bytes e) (spt_offset e) (files s) = Some (read_bytes e, take (read_bytes e) (file_page s e) @ drop (read_bytes e) bf, f)
     \<and> fs_ok (fs f) \<and> same_files s (s\<lparr>files := f\<rparr>)"
proof -
  from fo rb obtain fp g ino where g: "spt_file e = Some fp" "get_file fp (files s) = Some g" "inodes (fs (files s)) (f_inode g) = Some ino"
    "spt_offset e + read_bytes e \<le> length_shown ino" "read_bytes e + zero_bytes e = PGSIZE" by (auto simp: file_ok_def)
  have m: "min (read_bytes e) (length_shown ino - spt_offset e) = read_bytes e" using g(4) by simp
  from read_at_ok [OF ok g(3), of "read_bytes e" bf "spt_offset e"] g(5) len m obtain c where
    c: "inode_read_at (f_inode g) bf (read_bytes e) (spt_offset e) (fs (files s))
       = Some (read_bytes e, take (read_bytes e) (drop (spt_offset e) (shown (fs (files s)) (f_inode g))) @ drop (read_bytes e) bf, (fs (files s))\<lparr>cache := c\<rparr>)"
      "fs_ok ((fs (files s))\<lparr>cache := c\<rparr>)" "\<forall>jp. shown ((fs (files s))\<lparr>cache := c\<rparr>) jp = shown (fs (files s)) jp"
    by auto
  have wf: "inode_wf (fs (files s)) ino" using ok g(3) by (auto simp: fs_ok_def)
  then have "length (shown (fs (files s)) (f_inode g)) = length_shown ino" using g(3) by (simp add: shown_def inode_wf_def contents_def)
  then have "take (read_bytes e) (file_page s e) = take (read_bytes e) (drop (spt_offset e) (shown (fs (files s)) (f_inode g)))"
    using g(1,2,4) by (simp add: file_page_def)
  then have "file_read_at fp bf (read_bytes e) (spt_offset e) (files s)
      = Some (read_bytes e, take (read_bytes e) (file_page s e) @ drop (read_bytes e) bf, (files s)\<lparr>fs := (fs (files s))\<lparr>cache := c\<rparr>\<rparr>)"
    using g(2) c(1) by (simp add: file_read_at_def)
  moreover have "same_files s (s\<lparr>files := (files s)\<lparr>fs := (fs (files s))\<lparr>cache := c\<rparr>\<rparr>\<rparr>)" using c(3) by (simp add: same_files_def get_file_def)
  ultimately show ?thesis using g(1) c(2) by auto
qed

lemma file_page_split:
  assumes "fs_ok (fs (files s))" and "file_ok s e"
  shows "length (file_page s e) = PGSIZE" "file_page s e = take (read_bytes e) (file_page s e) @ replicate (zero_bytes e) 0"
proof -
  let ?d = "take (read_bytes e) (drop (spt_offset e) (case Option.bind (spt_file e) (\<lambda>fp. get_file fp (files s)) of None \<Rightarrow> [] | Some f \<Rightarrow> shown (fs (files s)) (f_inode f)))"
  have "length ?d = read_bytes e"
  proof (cases "read_bytes e = 0")
    case False
    with assms(2) obtain fp g ino where g: "spt_file e = Some fp" "get_file fp (files s) = Some g" "inodes (fs (files s)) (f_inode g) = Some ino"
      "spt_offset e + read_bytes e \<le> length_shown ino" by (auto simp: file_ok_def)
    have "inode_wf (fs (files s)) ino" using assms(1) g(3) by (auto simp: fs_ok_def)
    then have "length (shown (fs (files s)) (f_inode g)) = length_shown ino" using g(3) by (simp add: shown_def inode_wf_def contents_def)
    then show ?thesis using g by simp
  qed simp
  moreover have "read_bytes e + zero_bytes e = PGSIZE" using assms(2) by (simp add: file_ok_def)
  ultimately show "length (file_page s e) = PGSIZE" "file_page s e = take (read_bytes e) (file_page s e) @ replicate (zero_bytes e) 0"
    by (simp_all add: file_page_def)
qed

text \<open>A state in which the page of entry \<open>a\<close> has been put into the frame \<open>fr\<close>.\<close>

lemma loaded_inv:
  assumes wr: "wr = page_writable e" and inv: "vm_inv s" and e: "entry s p a e" "\<not> loaded e" and sp: "spare s fr"
    and mm: "vm_ok (mem s') (dirs s)" "uused (mem s') = uused (mem s)" "ram_pages (mem s') = ram_pages (mem s)" "cr3 (mem s') = cr3 (mem s)"
      "pool_pages (user_pool (phys (mem s'))) = pool_pages (user_pool (phys (mem s)))"
      "\<forall>b \<in> uused (mem s). b \<noteq> fr \<longrightarrow> pages (phys (mem s')) b = pages (phys (mem s)) b"
    and pm: "\<forall>pd \<in> dirs s. \<forall>va. is_user_vaddr va \<longrightarrow> page_map (mem s') pd va =
        (if pd = pagedir (threads s p) \<and> pg_round_down va = user_vaddr e then Some (pt_entry fr (user_flags wr)) else page_map (mem s) pd va)"
    and bs: "frame_bytes s' fr = page_view s p e"
    and sw: "swap_inv (swap s')" "\<And>x. \<not> (is_swapped e \<and> x = swap_num e) \<Longrightarrow> swap_view (swap s') x = swap_view (swap s) x"
    and fs: "same_files s s'" "fs_ok (fs (files s'))"
    and eq: "threads s' = threads s" "next_spte s' = next_spte s" "sptes s' = (sptes s)(a \<mapsto> e\<lparr>loaded := True, is_swapped := False\<rparr>)"
      "frame_table s' = frame_table s @ [\<lparr>frame = fr, owner = p, fte_spte = a\<rparr>]"
  shows "vm_inv s'" "same_view s s'" "entry s' p a (e\<lparr>loaded := True, is_swapped := False\<rparr>)"
    "entry_map s' p (e\<lparr>loaded := True, is_swapped := False\<rparr>) = Some (pt_entry fr (user_flags wr))"
proof -
  define e' where "e' = e\<lparr>loaded := True, is_swapped := False\<rparr>"
  let ?w = "pt_entry fr (user_flags wr)"
  note ok = inv_entry(1) [OF inv e(1)]
  note w = entry_frame [OF spare_page(1) [OF inv sp], of wr]
  have un: "entry_map s p e = None" using ok e(2) by (auto simp: spte_ok_def)
  have last: "\<forall>q b eb. entry s q b eb \<and> b \<noteq> a \<longrightarrow>
      (\<forall>w. entry_map s q eb = Some w \<longrightarrow> frame_bytes s' (frame_of w) = frame_bytes s (frame_of w))
      \<and> (is_swapped eb \<longrightarrow> swap_view (swap s') (swap_num eb) = swap_view (swap s) (swap_num eb) \<and> (is_swapped e' \<longrightarrow> swap_num e' \<noteq> swap_num eb))"
  proof (intro allI impI, elim conjE, intro conjI allI impI)
    fix q b eb assume b: "entry s q b eb" "b \<noteq> a"
    show "frame_bytes s' (frame_of w) = frame_bytes s (frame_of w)" if "entry_map s q eb = Some w" for w
      using mm(6) spare_unused [OF inv sp b(1) that] inv_frame [OF inv b(1) that] by (metis frame_bytes_def)
    assume sb: "is_swapped eb"
    then show "swap_view (swap s') (swap_num eb) = swap_view (swap s) (swap_num eb)" using sw(2) inv_same_slot [OF inv b(1) e(1) sb] b(2) by blast
    show "is_swapped e' \<Longrightarrow> swap_num e' \<noteq> swap_num eb" by (simp add: e'_def)
  qed
  have st: "entry_step s p a e e' (Some ?w) s'" unfolding entry_step_def
    by (intro conjI last) (use mm pm sw(1) fs eq inv_mem(4) [OF inv] in \<open>auto simp: e'_def active_pd_def\<close>)
  have em: "entry_map s' p e' = Some ?w"
    using pm inv_entry [OF inv e(1)] by (simp add: entry_map_def e'_def eq)
  have fe: "file_page s' e' = file_page s e" using file_page_same [OF fs(1), of e] by (simp add: file_page_def e'_def)
  have "file_type e = TYPE_FILE \<Longrightarrow> file_ok s' e'" using file_ok_same [OF fs(1), of e] ok by (auto simp: spte_ok_def file_ok_def e'_def)
  moreover have "file_type e = TYPE_FILE \<Longrightarrow> page_view s p e = file_page s e"
    using ok e(2) un by (auto simp: spte_ok_def page_view_def split: option.splits)
  ultimately have ok': "spte_ok s' p e'"
    using ok em w bs fe wr unfolding spte_ok_def by (simp add: e'_def)
  have fr: "frames_inv s'" by (rule add_frame_inv [OF inv e(1) un sp st w(1) eq(4)]) (simp add: mm(2))
  note es = entry_step_inv [OF inv e(1) st ok' fr]
  have "page_view s' p e' = page_view s p e" using em w(1) bs by (simp add: page_view_def)
  then show "vm_inv s'" "same_view s s'" "entry s' p a (e\<lparr>loaded := True, is_swapped := False\<rparr>)"
    "entry_map s' p (e\<lparr>loaded := True, is_swapped := False\<rparr>) = Some ?w"
    using es(1,4) es(2) [of p a e'] em by (simp_all add: e'_def)
qed

lemma put_page_same [simp]: "put_page a (pages (phys m) a) m = m"
  by (simp add: put_page_def)

lemma flag_facts:
  "PAL_USER AND PAL_USER \<noteq> 0" "PAL_USER AND PAL_ASSERT = 0" "PAL_USER AND PAL_ZERO = 0"
  "(PAL_USER OR PAL_ZERO) AND PAL_USER \<noteq> 0" "(PAL_USER OR PAL_ZERO) AND PAL_ASSERT = 0" "(PAL_USER OR PAL_ZERO) AND PAL_ZERO \<noteq> 0"
  by (simp_all add: PAL_USER_def PAL_ZERO_def PAL_ASSERT_def)

lemma prepared_entry:
  assumes "vm_inv s" and "prepared s s1" and "entry s p a e" "\<not> loaded e"
  shows "vm_inv s1" "entry s1 p a e" "current s1 = current s" "threads s1 = threads s" "spte_ok s1 p e" "page_view s1 p e = page_view s p e"
proof -
  have r: "same_rest s s1" "same_view s s1" and i1: "vm_inv s1" using assms(2) by (auto simp: prepared_def)
  show "vm_inv s1" by (rule i1)
  show e1: "entry s1 p a e" by (rule rest_entry [OF assms(1) r(1) assms(3,4)])
  show "current s1 = current s" "threads s1 = threads s" using r(1) by (simp_all add: same_rest_def)
  show "spte_ok s1 p e" by (rule inv_entry(1) [OF i1 e1])
  have "user_page s1 p (user_vaddr e) = user_page s p (user_vaddr e)" using r(2) assms(3) by (simp add: same_view_def entry_def)
  then show "page_view s1 p e = page_view s p e" using user_page_entry [OF assms(1,3)] user_page_entry [OF i1 e1] by simp
qed

text \<open>The part of the two handlers that they share: a page in a new frame is installed, or the frame is given back.
  \<open>t\<close> is the state before \<open>install_page\<close>, \<open>m\<close> the memory after it. \<open>completes\<close> describes the state at the end of a handler:
  the frame holds the page, and the entry is marked as loaded.\<close>

definition completes :: "kstate \<Rightarrow> nat \<Rightarrow> spte \<Rightarrow> u32 \<Rightarrow> fsys \<Rightarrow> vmem \<Rightarrow> kstate \<Rightarrow> bool" where
  "completes s a e fr f m s' \<longleftrightarrow> length (page_view s (current s) e) = PGSIZE \<and> mem s' = put_page fr (page_view s (current s) e) m
     \<and> swap_inv (swap s') \<and> (\<forall>x. \<not> (is_swapped e \<and> x = swap_num e) \<longrightarrow> swap_view (swap s') x = swap_view (swap s) x)
     \<and> files s' = f \<and> threads s' = threads s \<and> next_spte s' = next_spte s
     \<and> frame_table s' = frame_table s @ [\<lparr>frame = fr, owner = current s, fte_spte = a\<rparr>]
     \<and> sptes s' = (sptes s)(a \<mapsto> e\<lparr>loaded := True, is_swapped := False\<rparr>)"

definition completed :: "kstate \<Rightarrow> nat \<Rightarrow> spte \<Rightarrow> u32 \<Rightarrow> bool \<Rightarrow> kstate \<Rightarrow> bool" where
  "completed s a e fr wr s' \<longleftrightarrow> vm_inv s' \<and> same_view s s' \<and> entry s' (current s) a (e\<lparr>loaded := True, is_swapped := False\<rparr>)
     \<and> entry_map s' (current s) (e\<lparr>loaded := True, is_swapped := False\<rparr>) = Some (pt_entry fr (user_flags wr)) \<and> kpage_ok fr
     \<and> pool_pages (user_pool (phys (mem s'))) = pool_pages (user_pool (phys (mem s))) \<and> cr3 (mem s') = cr3 (mem s)"

lemma install_new:
  assumes wr: "wr = page_writable e" and inv: "vm_inv s" and e: "entry s (current s) a e" "\<not> loaded e" and sp: "spare s fr" and len: "length bs = PGSIZE"
    and t: "t = (insert_frame_table \<lparr>frame = fr, owner = current s, fte_spte = a\<rparr> s)\<lparr>files := f, mem := put_page fr bs (mem s)\<rparr>"
    and f: "fs_ok (fs f)" "same_files s t"
  shows "\<exists>b m. install_page (user_vaddr e) fr wr t = Some (b, t\<lparr>mem := m\<rparr>) \<and> pages (phys m) fr = bs
     \<and> (\<not> b \<longrightarrow> (\<exists>s'. free_frame fr (t\<lparr>mem := m\<rparr>) = Some s' \<and> prepared s s' \<and> kernel_full (mem s')))
     \<and> (b \<longrightarrow> (\<forall>s'. completes s a e fr f m s' \<longrightarrow> completed s a e fr wr s'))"
proof -
  let ?p = "current s"
  define pd where "pd = pagedir (threads s ?p)"
  note ie = inv_entry [OF inv e(1)] and sg = spare_page [OF inv sp]
  note pp = put_page_spec [OF inv_mem(1) [OF inv] sg(3) len]
  have tf: "threads t = threads s" "current t = current s" "mem t = put_page fr bs (mem s)" "files t = f" "sptes t = sptes s"
    "next_spte t = next_spte s" "swap t = swap s" "frame_table t = frame_table s @ [\<lparr>frame = fr, owner = ?p, fte_spte = a\<rparr>]"
    by (simp_all add: t insert_frame_table_def)
  have un: "entry_map s ?p e = None" using ie(1) e(2) by (auto simp: spte_ok_def)
  have cur: "pagedir (thread_current t) = pd" by (simp add: thread_current_def tf pd_def)
  have pools: "pool_pages (user_pool (phys (mem t))) = pool_pages (user_pool (phys (mem s)))" by (simp add: tf put_page_def)
  have "page_map (mem t) pd (user_vaddr e) = None" using un pp(2) [OF ie(4,2)] by (simp add: tf entry_map_def pd_def)
  moreover have "drop_bit PTSHIFT (fr - PHYS_BASE) < ram_pages (mem t)" using sg(4) pp(5) by (simp add: tf same_regs_def)
  ultimately obtain b m where m: "install_page (user_vaddr e) fr wr t = Some (b, t\<lparr>mem := m\<rparr>)" "vm_ok m (dirs s)" "\<not> b \<longrightarrow> m = mem t \<and> kernel_full (mem t)"
    "one_page (mem t) (dirs s) pd (user_vaddr e) (if b then Some (pt_entry fr (user_flags wr)) else None) m"
    using install_page_spec [of t "dirs s" "user_vaddr e" fr wr] pp(1) ie(2-4) sg(1) cur tf(3) pd_def by auto
  have nb: "\<exists>s'. free_frame fr (t\<lparr>mem := m\<rparr>) = Some s' \<and> prepared s s' \<and> kernel_full (mem s')" if "\<not> b"
  proof -
    have mt: "m = mem t" "kernel_full (mem t)" using m(3) that by simp_all
    from free_spare [OF inv sp tf(8) _ _ _ _ _ _ _ f(2) _ tf(1,5,6,7)] pp pools f(1) tf(3,4) obtain m' where
      m': "free_frame fr t = Some (t\<lparr>frame_table := frame_table s, mem := m'\<rparr>)" "calm s (t\<lparr>frame_table := frame_table s, mem := m'\<rparr>)"
      "pool_pages (user_pool (phys m')) = pool_pages (user_pool (phys (mem s)))" "kernel_full m' = kernel_full (mem t)" "cr3 m' = cr3 (mem s)" by auto
    have "same_rest s (t\<lparr>frame_table := frame_table s, mem := m'\<rparr>)" using m'(3,5) by (simp add: same_rest_def t insert_frame_table_def)
    then show ?thesis using m'(1,4) mt calm_prepared [OF inv m'(2)] by simp
  qed
  have u: "uused m = uused (mem t)" "\<forall>b \<in> uused (mem t). pages (phys m) b = pages (phys (mem t)) b" "ram_pages m = ram_pages (mem t)" "cr3 m = cr3 (mem t)"
    "pool_pages (user_pool (phys m)) = pool_pages (user_pool (phys (mem t)))"
    using m(4) by (auto simp: one_page_def same_users_def uused_def get_pool_def dest: spec [of _ True])
  have ut: "uused (mem t) = uused (mem s)" using pp(3) by (simp add: tf)
  have frb: "pages (phys m) fr = bs" using u(2) ut sg(3) pp(4) by (simp add: tf)
  have yb: "completed s a e fr wr s'" if b and s': "completes s a e fr f m s'" for s'
  proof -
    define bs' where "bs' = page_view s ?p e"
    have l': "length bs' = PGSIZE" "mem s' = put_page fr bs' m" using s' by (simp_all add: completes_def bs'_def)
    note pq = put_page_spec [OF m(2), of fr bs'] and u1 = u(1) [unfolded ut]
    have fm: "fr \<in> uused m" using sg(3) u1 by simp
    have pg: "\<forall>b \<in> uused (mem s). b \<noteq> fr \<longrightarrow> pages (phys (mem s')) b = pages (phys (mem s)) b"
      using u(2) ut pp(4) pq(4) [OF fm l'(1)] by (simp add: l'(2) tf)
    have pm: "\<forall>pd \<in> dirs s. \<forall>va. is_user_vaddr va \<longrightarrow> page_map (mem s') pd va =
        (if pd = pagedir (threads s ?p) \<and> pg_round_down va = user_vaddr e then Some (pt_entry fr (user_flags wr)) else page_map (mem s) pd va)"
      using m(4) \<open>b\<close> pq(2) [OF fm l'(1)] pp(2) unfolding one_page_def by (simp add: l'(2) tf pd_def)
    have "frame_bytes s' fr = page_view s ?p e" using l'(2) pq(4) [OF fm l'(1)] by (simp add: frame_bytes_def bs'_def)
    moreover have pl: "vm_ok (mem s') (dirs s)" "uused (mem s') = uused (mem s)" "ram_pages (mem s') = ram_pages (mem s)" "cr3 (mem s') = cr3 (mem s)"
      "pool_pages (user_pool (phys (mem s'))) = pool_pages (user_pool (phys (mem s)))"
      using pq [OF fm l'(1)] u pp(5) ut pools by (simp_all add: l'(2) same_regs_def tf) (simp add: put_page_def)
    moreover have "same_files s s'" using f(2) s' tf(4) by (simp add: same_files_def completes_def)
    ultimately show ?thesis
      using loaded_inv [OF wr inv e sp, of s'] pg pm s' f(1) sg(1) unfolding completes_def completed_def by auto
  qed
  show ?thesis using m(1) frb nb yb by blast
qed

lemma handled_fail:
  assumes "vm_inv s" and "prepared s s1" and "prepared s1 s'" "kernel_full (mem s')"
  shows "handled s a e False s'"
  using prepared_trans [OF assms(2,3)] assms(4) by (simp add: prepared_def handled_def rest_env)

lemma handled_intro:
  assumes inv: "vm_inv s" and p: "prepared s s1" and c: "completed s1 a e fr (page_writable e) s'" and env: "same_env s1 s'" "same_files s1 s'"
  shows "handled s a e True s'"
proof -
  have r: "same_rest s s1" "same_view s s1" "same_files s s1" using p by (auto simp: prepared_def)
  have "current s1 = current s" "live s1 = live s" using r(1) by (simp_all add: same_rest_def live_def)
  then show ?thesis
    using c same_view_trans [OF r(2)] same_env_trans [OF rest_env [OF r(1)] env(1)] same_files_trans [OF r(3) env(2)]
    unfolding handled_def completed_def by auto
qed

lemma fill_frame_spec:
  assumes inv: "vm_inv s" and fo: "file_ok s e" and sp: "spare s fr" and z: "read_bytes e = 0 \<longrightarrow> frame_bytes s fr = replicate PGSIZE 0"
  shows "\<exists>f. fill_frame e fr (insert_frame_table fte s) = Some ((insert_frame_table fte s)\<lparr>files := f, mem := put_page fr (file_page s e) (mem s)\<rparr>)
     \<and> fs_ok (fs f) \<and> same_files s ((insert_frame_table fte s)\<lparr>files := f, mem := put_page fr (file_page s e) (mem s)\<rparr>)"
proof -
  define t where "t = insert_frame_table fte s"
  have tf: "files t = files s" "mem t = mem s" by (simp_all add: t_def insert_frame_table_def)
  have ok: "fs_ok (fs (files s))" by (rule vm_invD(3) [OF inv])
  note fp = file_page_split [OF ok fo]
  have rz: "read_bytes e + zero_bytes e = PGSIZE" using fo by (simp add: file_ok_def)
  have lb: "length (frame_bytes t fr) = PGSIZE" using inv_mem(5) [OF inv] by (simp add: frame_bytes_def tf)
  show ?thesis unfolding t_def [symmetric]
  proof (cases "read_bytes e > 0")
    case True
    from page_read [OF ok fo True lb] obtain f fp where
      r: "spt_file e = Some fp" "file_read_at fp (frame_bytes t fr) (read_bytes e) (spt_offset e) (files s)
         = Some (read_bytes e, take (read_bytes e) (file_page s e) @ drop (read_bytes e) (frame_bytes t fr), f)" "fs_ok (fs f)" "same_files s (s\<lparr>files := f\<rparr>)" by blast
    have "zero_tail (read_bytes e) (zero_bytes e) (take (read_bytes e) (file_page s e) @ drop (read_bytes e) (frame_bytes t fr)) = file_page s e"
      using zero_tail_page [OF lb rz, of "take (read_bytes e) (file_page s e)"] fp rz by simp
    then show "\<exists>f. fill_frame e fr t = Some (t\<lparr>files := f, mem := put_page fr (file_page s e) (mem s)\<rparr>) \<and> fs_ok (fs f)
        \<and> same_files s (t\<lparr>files := f, mem := put_page fr (file_page s e) (mem s)\<rparr>)"
      using True r rz by (intro exI [of _ f]) (simp add: fill_frame_def tf same_files_def)
  next
    case False
    then have "pages (phys (mem s)) fr = file_page s e" using z fp(2) rz by (simp add: frame_bytes_def)
    then have "put_page fr (file_page s e) (mem s) = mem s" by (metis put_page_same)
    then have "t\<lparr>files := files s, mem := put_page fr (file_page s e) (mem s)\<rparr> = t" by (simp add: t_def insert_frame_table_def)
    then show "\<exists>f. fill_frame e fr t = Some (t\<lparr>files := f, mem := put_page fr (file_page s e) (mem s)\<rparr>) \<and> fs_ok (fs f)
        \<and> same_files s (t\<lparr>files := f, mem := put_page fr (file_page s e) (mem s)\<rparr>)"
      using False ok by (intro exI [of _ "files s"]) (simp add: fill_frame_def tf)
  qed
qed

lemma file_handling_spec:
  assumes inv: "vm_inv s" and e: "entry s (current s) a e" "\<not> loaded e" and ty: "file_type e = TYPE_FILE"
    and room: "\<not> swap_full (swap s)" "frame_table s \<noteq> [] \<or> \<not> users_full (mem s)"
  shows "\<exists>b s'. file_handling a s = Some (b, s') \<and> handled s a e b s'"
proof -
  let ?p = "current s"
  define pflag where "pflag = (if read_bytes e = 0 then PAL_USER OR PAL_ZERO else PAL_USER)"
  have fl: "pflag AND PAL_USER \<noteq> 0" "pflag AND PAL_ASSERT = 0" "read_bytes e = 0 \<Longrightarrow> pflag AND PAL_ZERO \<noteq> 0"
    using flag_facts by (cases "read_bytes e = 0"; simp add: pflag_def)+
  have se: "sptes s a = Some e" using e(1) by (simp add: entry_def)
  from allocate_frame_spec [OF inv fl(1,2) room, of a] obtain fr s1 where
    al: "allocate_frame a pflag s = Some (fr, insert_frame_table \<lparr>frame = fr, owner = ?p, fte_spte = a\<rparr> s1)" "fr \<noteq> 0" "prepared s s1" "spare s1 fr"
      "pflag AND PAL_ZERO \<noteq> 0 \<longrightarrow> frame_bytes s1 fr = replicate PGSIZE 0" by blast
  note p1 = prepared_entry [OF inv al(3) e]
  have fo: "file_ok s1 e" using p1(5) ty by (simp add: spte_ok_def)
  from fill_frame_spec [OF p1(1) fo al(4), of "\<lparr>frame = fr, owner = ?p, fte_spte = a\<rparr>"] al(5) fl(3) obtain f where
    f: "fill_frame e fr (insert_frame_table \<lparr>frame = fr, owner = ?p, fte_spte = a\<rparr> s1)
       = Some ((insert_frame_table \<lparr>frame = fr, owner = ?p, fte_spte = a\<rparr> s1)\<lparr>files := f, mem := put_page fr (file_page s1 e) (mem s1)\<rparr>)" "fs_ok (fs f)"
      "same_files s1 ((insert_frame_table \<lparr>frame = fr, owner = ?p, fte_spte = a\<rparr> s1)\<lparr>files := f, mem := put_page fr (file_page s1 e) (mem s1)\<rparr>)"
    by blast
  define s2 where "s2 = (insert_frame_table \<lparr>frame = fr, owner = current s1, fte_spte = a\<rparr> s1)\<lparr>files := f, mem := put_page fr (file_page s1 e) (mem s1)\<rparr>"
  note f = f [folded p1(3), folded s2_def]
  have lp: "length (file_page s1 e) = PGSIZE" by (rule file_page_split(1) [OF vm_invD(3) [OF p1(1)] fo])
  obtain b m where m: "install_page (user_vaddr e) fr (page_writable e) s2 = Some (b, s2\<lparr>mem := m\<rparr>)" "pages (phys m) fr = file_page s1 e"
    and nb: "\<not> b \<longrightarrow> (\<exists>s'. free_frame fr (s2\<lparr>mem := m\<rparr>) = Some s' \<and> prepared s1 s' \<and> kernel_full (mem s'))"
    and yb: "b \<longrightarrow> (\<forall>s'. completes s1 a e fr f m s' \<longrightarrow> completed s1 a e fr (page_writable e) s')"
    using install_new [OF refl p1(1) p1(2) [folded p1(3)] e(2) al(4) lp s2_def f(2,3)] by blast
  have s2f: "sptes s2 = sptes s1" by (simp add: s2_def insert_frame_table_def)
  have sa: "sptes s1 a = Some e" using p1(2) by (simp add: entry_def)
  have run: "file_handling a s = (if \<not> b then do { s4 \<leftarrow> free_frame fr (s2\<lparr>mem := m\<rparr>); Some (False, s4) }
      else Some (True, set_spte a (e\<lparr>loaded := True\<rparr>) (s2\<lparr>mem := m\<rparr>)))"
    using se al(1,2) f(1) m(1) s2f sa p1(3) by (simp add: file_handling_def pflag_def)
  show ?thesis
  proof (cases b)
    case False
    then obtain s' where "free_frame fr (s2\<lparr>mem := m\<rparr>) = Some s'" "prepared s1 s'" "kernel_full (mem s')" using nb by blast
    then show ?thesis using run False handled_fail [OF inv al(3)] by auto
  next
    case True
    define s' where "s' = set_spte a (e\<lparr>loaded := True\<rparr>) (s2\<lparr>mem := m\<rparr>)"
    have ns: "\<not> is_swapped e" and un: "entry_map s1 ?p e = None" using p1(5) ty e(2) by (auto simp: spte_ok_def)
    then have ee: "e\<lparr>loaded := True, is_swapped := False\<rparr> = e\<lparr>loaded := True\<rparr>" by simp
    have pv: "page_view s1 ?p e = file_page s1 e" using ns un by (simp add: page_view_def split: option.splits)
    have "completes s1 a e fr f m s'" unfolding completes_def ee
      using pv lp m(2) vm_invD(2) [OF p1(1)] ns p1(3) put_page_same [of fr m]
      by (simp add: s'_def set_spte_def s2_def insert_frame_table_def)
    then have c: "completed s1 a e fr (page_writable e) s'" using yb True by blast
    have "same_env s1 s'" using c by (simp add: same_env_def s'_def s2_def set_spte_def insert_frame_table_def completed_def)
    moreover have "same_files s1 s'" using f(3) by (simp add: same_files_def s'_def set_spte_def s2_def)
    ultimately have "handled s a e True s'"
      using handled_intro [OF inv al(3)] c p1(3) by simp
    then show ?thesis using run True by (intro exI [of _ True] exI [of _ s']) (simp add: s'_def)
  qed
qed

lemma swap_handling_spec:
  assumes inv: "vm_inv s" and e: "entry s (current s) a e" "\<not> loaded e" and ty: "file_type e = TYPE_SWAP"
    and room: "\<not> swap_full (swap s)" "frame_table s \<noteq> [] \<or> \<not> users_full (mem s)"
  shows "\<exists>b s'. swap_handling a s = Some (b, s') \<and> handled s a e b s'"
proof -
  let ?p = "current s"
  have se: "sptes s a = Some e" using e(1) by (simp add: entry_def)
  from allocate_frame_spec [OF inv flag_facts(1,2) room, of a] obtain fr s1 where
    al: "allocate_frame a PAL_USER s = Some (fr, insert_frame_table \<lparr>frame = fr, owner = ?p, fte_spte = a\<rparr> s1)" "fr \<noteq> 0" "prepared s s1" "spare s1 fr"
    by blast
  note p1 = prepared_entry [OF inv al(3) e]
  define t where "t = (insert_frame_table \<lparr>frame = fr, owner = current s1, fte_spte = a\<rparr> s1)\<lparr>files := files s1, mem := put_page fr (frame_bytes s1 fr) (mem s1)\<rparr>"
  have te: "insert_frame_table \<lparr>frame = fr, owner = ?p, fte_spte = a\<rparr> s1 = t" by (simp add: t_def insert_frame_table_def p1(3) frame_bytes_def)
  have sf: "same_files s1 t" by (simp add: t_def)
  have lb: "length (frame_bytes s1 fr) = PGSIZE" by (rule inv_mem(5) [OF p1(1)])
  obtain b m where m: "install_page (user_vaddr e) fr (page_writable e) t = Some (b, t\<lparr>mem := m\<rparr>)" "pages (phys m) fr = frame_bytes s1 fr"
    and nb: "\<not> b \<longrightarrow> (\<exists>s'. free_frame fr (t\<lparr>mem := m\<rparr>) = Some s' \<and> prepared s1 s' \<and> kernel_full (mem s'))"
    and yb: "b \<longrightarrow> (\<forall>s'. completes s1 a e fr (files s1) m s' \<longrightarrow> completed s1 a e fr (page_writable e) s')"
    using install_new [OF refl p1(1) p1(2) [folded p1(3)] e(2) al(4) lb t_def vm_invD(3) [OF p1(1)] sf] by blast
  have sw: "is_swapped e" and un: "entry_map s1 ?p e = None" using p1(5) ty e(2) by (auto simp: spte_ok_def)
  then obtain bs where bs: "swap_view (swap s1) (swap_num e) = Some bs" "length bs = PGSIZE" using p1(5) by (auto simp: spte_ok_def)
  have lm: "length (frame_bytes (t\<lparr>mem := m\<rparr>) fr) = PGSIZE" using m(2) lb by (simp add: frame_bytes_def)
  from swap_in_spec [OF vm_invD(2) [OF p1(1)] bs(1) lm] obtain sw' where
    sw': "swap_in (frame_bytes (t\<lparr>mem := m\<rparr>) fr) (swap_num e) (swap s1) = Some (bs, sw')" "swap_inv sw'" "swap_view sw' = (swap_view (swap s1))(swap_num e := None)"
    by blast
  define s' where "s' = set_spte a (e\<lparr>is_swapped := False, loaded := True\<rparr>) (t\<lparr>swap := sw', mem := put_page fr bs m\<rparr>)"
  have tf: "sptes t = sptes s1" "swap t = swap s1" by (simp_all add: t_def insert_frame_table_def)
  have sa: "sptes s1 a = Some e" using p1(2) by (simp add: entry_def)
  have run: "swap_handling a s = (if \<not> b then do { s3 \<leftarrow> free_frame fr (t\<lparr>mem := m\<rparr>); Some (False, s3) } else Some (True, s'))"
    using se al(1,2) m(1) tf sa sw sw'(1) unfolding te by (simp add: swap_handling_def s'_def)
  show ?thesis
  proof (cases b)
    case False
    then obtain s' where "free_frame fr (t\<lparr>mem := m\<rparr>) = Some s'" "prepared s1 s'" "kernel_full (mem s')" using nb by blast
    then show ?thesis using run False handled_fail [OF inv al(3)] by auto
  next
    case True
    have "page_view s1 ?p e = bs" using sw un bs by (simp add: page_view_def)
    moreover have ee: "e\<lparr>loaded := True, is_swapped := False\<rparr> = e\<lparr>is_swapped := False, loaded := True\<rparr>" by (cases e) simp
    ultimately have "completes s1 a e fr (files s1) m s'" unfolding completes_def ee
      using bs sw sw' p1(3) by (simp add: s'_def set_spte_def t_def insert_frame_table_def)
    then have c: "completed s1 a e fr (page_writable e) s'" using yb True by blast
    have "same_env s1 s'" using c by (simp add: same_env_def s'_def t_def set_spte_def insert_frame_table_def completed_def)
    moreover have "same_files s1 s'" by (simp add: s'_def set_spte_def t_def insert_frame_table_def)
    ultimately have "handled s a e True s'" using handled_intro [OF inv al(3) c] by simp
    then show ?thesis using run True by (intro exI [of _ True] exI [of _ s']) simp
  qed
qed

lemma page_handling_spec:
  assumes inv: "vm_inv s" and lk: "\<not> lock_frame s" and e: "entry s (current s) a e" "\<not> loaded e"
    and room: "\<not> swap_full (swap s)" "frame_table s \<noteq> [] \<or> \<not> users_full (mem s)"
  shows "\<exists>b s'. page_handling a s = Some (b, s') \<and> handled s a e b s'"
proof -
  let ?s = "s\<lparr>lock_frame := True\<rparr>"
  have c1: "calm s ?s" using mem_calm_refl [OF inv] vm_invD(3) [OF inv] by (simp add: calm_def)
  note i1 = calm_inv [OF inv c1]
  have e1: "entry ?s (current ?s) a e" using e(1) by (simp add: entry_def live_def)
  have "\<exists>b s'. (if file_type e = TYPE_FILE then file_handling a ?s else swap_handling a ?s) = Some (b, s') \<and> handled ?s a e b s'"
    using file_handling_spec [OF i1(1) e1 e(2)] swap_handling_spec [OF i1(1) e1 e(2)] room inv_entry(1) [OF inv e(1)]
      page_type.exhaust [of "file_type e"] by (auto simp: spte_ok_def)
  then obtain b s2 where s2: "(if file_type e = TYPE_FILE then file_handling a ?s else swap_handling a ?s) = Some (b, s2)" "handled ?s a e b s2" by blast
  have "vm_inv s2" "lock_frame s2" using s2(2) by (simp_all add: handled_def same_env_def)
  let ?s' = "s2\<lparr>lock_frame := False\<rparr>"
  have c2: "calm s2 ?s'" using mem_calm_refl [OF \<open>vm_inv s2\<close>] vm_invD(3) [OF \<open>vm_inv s2\<close>] by (simp add: calm_def)
  note i2 = calm_inv [OF \<open>vm_inv s2\<close> c2]
  have sv: "same_view s ?s'"
  proof (rule same_view_trans [OF i1(2)], rule same_view_trans [OF _ i2(2)])
    show "same_view ?s s2" "live s2 = live ?s" using s2(2) by (simp_all add: handled_def same_env_def live_def)
    show "live ?s = live s" by (simp add: live_def)
  qed
  have en: "entry ?s' p b e' = entry s2 p b e'" "entry_map ?s' p e' = entry_map s2 p e'" for p b e'
    by (simp_all add: entry_def live_def entry_map_def)
  have "handled s a e b ?s'"
    using s2(2) i2(1) sv lk unfolding handled_def en by (auto simp: same_env_def same_files_def)
  moreover have "page_handling a s = Some (b, ?s')"
    using lk e(1) s2(1) e(2) \<open>lock_frame s2\<close> inv_entry(1) [OF inv e(1)]
    by (cases "file_type e") (auto simp: page_handling_def acquire_frame_lock_def release_frame_lock_def entry_def spte_ok_def)
  ultimately show ?thesis by blast
qed

section \<open>New pages\<close>

text \<open>Entries that are in no table do not matter.\<close>

lemma loose_spte:
  assumes inv: "vm_inv s" and a: "\<And>p. p \<in> live s \<Longrightarrow> a \<notin> set (sup_page_table (threads s p))"
    and n: "next_spte s \<le> n" "e \<noteq> None \<longrightarrow> 0 < a \<and> a < n"
  defines "s' \<equiv> s\<lparr>sptes := (sptes s)(a := e), next_spte := n\<rparr>"
  shows "vm_inv s'" "same_view s s'" "\<And>p b eb. entry s' p b eb = entry s p b eb" "\<And>p eb. entry_map s' p eb = entry_map s p eb"
proof -
  have lv: "live s' = live s" "dirs s' = dirs s" by (simp_all add: s'_def live_def dirs_def)
  have f: "mem s' = mem s" "swap s' = swap s" "files s' = files s" "threads s' = threads s" "frame_table s' = frame_table s" "next_spte s' = n"
    "sptes s' = (sptes s)(a := e)" by (simp_all add: s'_def)
  show E: "entry s' p b eb = entry s p b eb" for p b eb using a [of p] by (auto simp: entry_def lv f)
  show M: "entry_map s' p eb = entry_map s p eb" for p eb by (simp add: entry_map_def f)
  have sk: "spte_ok s' p eb \<and> page_view s' p eb = page_view s p eb" if "entry s p b eb" for p b eb
    using spte_ok_keep [OF inv_entry(1) [OF inv that], of s'] by (simp add: M f frame_bytes_def)
  note ti = table_invD [OF vm_invD(4) [OF inv]]
  have "table_inv s'" unfolding table_inv_def E lv f
  proof (intro conjI)
    show "0 < n" using ti(1) n(1) by simp
    show "\<forall>b. ((sptes s)(a := e)) b \<noteq> None \<longrightarrow> 0 < b \<and> b < n" using ti(2) n by (auto intro: less_le_trans)
    show "\<forall>p \<in> live s. distinct (sup_page_table (threads s p)) \<and> (\<forall>b \<in> set (sup_page_table (threads s p)). ((sptes s)(a := e)) b \<noteq> None)"
      using ti(3) a by fastforce
    show "\<forall>p b eb. entry s p b eb \<longrightarrow> spte_ok s' p eb" using sk by blast
  qed (use ti in blast)+
  moreover have "mem_inv s'" using vm_invD(1) [OF inv] by (simp add: mem_inv_def lv f)
  moreover have "frames_inv s'" using vm_invD(5) [OF inv] unfolding frames_inv_def E M f .
  ultimately show i': "vm_inv s'" using vm_invD(2,3) [OF inv] by (simp add: vm_inv_def f)
  show "same_view s s'" using sk E by (intro same_viewI [OF inv i' lv(1)]) blast+
qed

text \<open>The running process gets a new page, in a frame that no entry used.\<close>

lemma add_entry_inv:
  assumes inv: "vm_inv s" and p: "current s \<in> live s" and sp: "spare s fr"
    and a: "sptes s a = Some e" "\<And>q. q \<in> live s \<Longrightarrow> a \<notin> set (sup_page_table (threads s q))"
    and e: "loaded e" "\<not> is_swapped e" "file_type e = TYPE_SWAP" "is_user_vaddr (user_vaddr e)" "pg_ofs (user_vaddr e) = 0"
    and wr: "wr = page_writable e" and new: "\<nexists>b eb. entry s (current s) b eb \<and> user_vaddr eb = user_vaddr e"
    and mm: "vm_ok (mem s') (dirs s)" "uused (mem s') = uused (mem s)" "ram_pages (mem s') = ram_pages (mem s)" "cr3 (mem s') = cr3 (mem s)"
      "pool_pages (user_pool (phys (mem s'))) = pool_pages (user_pool (phys (mem s)))"
      "\<forall>b \<in> uused (mem s). pages (phys (mem s')) b = pages (phys (mem s)) b"
    and pm: "\<forall>pd \<in> dirs s. \<forall>va. is_user_vaddr va \<longrightarrow> page_map (mem s') pd va =
        (if pd = pagedir (threads s (current s)) \<and> pg_round_down va = user_vaddr e then Some (pt_entry fr (user_flags wr)) else page_map (mem s) pd va)"
    and eq: "swap s' = swap s" "files s' = files s" "sptes s' = sptes s" "next_spte s' = next_spte s"
      "threads s' = (threads s)(current s := (threads s (current s))\<lparr>sup_page_table := sup_page_table (threads s (current s)) @ [a]\<rparr>)"
      "frame_table s' = frame_table s @ [\<lparr>frame = fr, owner = current s, fte_spte = a\<rparr>]"
  shows "vm_inv s'" "\<And>q va. q \<in> live s \<Longrightarrow> user_page s' q va = (if q = current s \<and> va = user_vaddr e then Some (frame_bytes s fr) else user_page s q va)"
    "entry s' (current s) a e" "entry_map s' (current s) e = Some (pt_entry fr (user_flags wr))"
proof -
  let ?p = "current s" and ?w = "pt_entry fr (user_flags wr)"
  note w = entry_frame [OF spare_page(1) [OF inv sp], of wr]
  have pds: "(\<lambda>q. pagedir (threads s' q)) = (\<lambda>q. pagedir (threads s q))" by (simp add: eq fun_eq_iff)
  have tb: "live s' = live s" "dirs s' = dirs s" "pagedir (threads s' q) = pagedir (threads s q)"
    "sup_page_table (threads s' q) = sup_page_table (threads s q) @ (if q = ?p then [a] else [])" for q
    using fun_cong [OF pds] pds by (simp_all add: live_def dirs_def) (simp add: eq)
  have E: "entry s' q b eb \<longleftrightarrow> entry s q b eb \<or> q = ?p \<and> b = a \<and> eb = e" for q b eb
    using p a(1) by (auto simp: entry_def tb eq)
  have ne: "b \<noteq> a" if "entry s q b eb" for q b eb using a(2) that by (auto simp: entry_def)
  have rd: "pg_round_down (user_vaddr e) = user_vaddr e" by (rule pg_round_down_id [OF e(5)])
  have pd: "pagedir (threads s ?p) \<in> dirs s" using p by (simp add: dirs_def)
  have M: "entry_map s' q eb = entry_map s q eb" if b: "entry s q b eb" for q b eb
  proof -
    have "\<not> (pagedir (threads s q) = pagedir (threads s ?p) \<and> user_vaddr eb = user_vaddr e)"
      using inv_dirs_apart [OF inv _ p, of q] new b by (auto simp: entry_def)
    then show ?thesis using pm inv_entry [OF inv b] by (auto simp: entry_map_def tb)
  qed
  show em: "entry_map s' ?p e = Some ?w" using pm pd e(4) rd by (simp add: entry_map_def tb)
  show ea: "entry s' ?p a e" using E by blast
  have keep: "spte_ok s' q eb" "page_view s' q eb = page_view s q eb" if b: "entry s q b eb" for q b eb
  proof -
    have "frame_bytes s' (frame_of w) = frame_bytes s (frame_of w)" if "entry_map s q eb = Some w" for w
      using inv_frame [OF inv b that] mm(6) by (metis frame_bytes_def)
    then show "spte_ok s' q eb" "page_view s' q eb = page_view s q eb"
      using spte_ok_keep [OF inv_entry(1) [OF inv b], of s'] M [OF b] eq(1,2) by simp_all
  qed
  have ok: "spte_ok s' ?p e" using e em w(3,4) wr by (simp add: spte_ok_def)
  have pv: "page_view s' ?p e = frame_bytes s fr" using em w(1) mm(6) spare_page(3) [OF inv sp] by (simp add: page_view_def frame_bytes_def)
  note ti = table_invD [OF vm_invD(4) [OF inv]]
  have "table_inv s'" unfolding table_inv_def tb(1) eq(3,4)
  proof (intro conjI)
    show "0 < next_spte s" "\<forall>b. sptes s b \<noteq> None \<longrightarrow> 0 < b \<and> b < next_spte s" by (fact ti(1), fact ti(2))
    show "\<forall>q \<in> live s. distinct (sup_page_table (threads s' q)) \<and> (\<forall>b \<in> set (sup_page_table (threads s' q)). sptes s b \<noteq> None)"
      using ti(3) a by (auto simp: tb(4))
    show "\<forall>q b eb. entry s' q b eb \<longrightarrow> spte_ok s' q eb" using keep ok by (auto simp: E)
    show "\<forall>q b eb c ec. entry s' q b eb \<and> entry s' q c ec \<and> user_vaddr eb = user_vaddr ec \<longrightarrow> b = c"
      using inv_same_page [OF inv] new unfolding E by metis
    show "\<forall>q r b eb ec. entry s' q b eb \<and> entry s' r b ec \<longrightarrow> q = r"
      using inv_same_owner [OF inv] ne unfolding E by metis
    show "\<forall>q r b c eb ec. entry s' q b eb \<and> entry s' r c ec \<and> is_swapped eb \<and> is_swapped ec \<and> swap_num eb = swap_num ec \<longrightarrow> b = c"
      using inv_same_slot [OF inv] e(2) unfolding E by metis
    show "\<forall>q va. q \<in> live s \<and> is_user_vaddr va \<and> page_map (mem s') (pagedir (threads s' q)) va \<noteq> None
        \<longrightarrow> (\<exists>b eb. entry s' q b eb \<and> user_vaddr eb = pg_round_down va)"
    proof (intro allI impI, elim conjE)
      fix q va assume q: "q \<in> live s" "is_user_vaddr va" "page_map (mem s') (pagedir (threads s' q)) va \<noteq> None"
      have qd: "pagedir (threads s q) \<in> dirs s" using q(1) by (simp add: dirs_def)
      show "\<exists>b eb. entry s' q b eb \<and> user_vaddr eb = pg_round_down va"
      proof (cases "pagedir (threads s q) = pagedir (threads s ?p) \<and> pg_round_down va = user_vaddr e")
        case True
        then have "q = ?p" using inv_dirs_apart [OF inv q(1) p] by simp
        then show ?thesis using True ea by auto
      next
        case False
        then have "page_map (mem s) (pagedir (threads s q)) va \<noteq> None" using q(3) pm qd q(2) by (auto simp: tb(3))
        then obtain b eb where "entry s q b eb" "user_vaddr eb = pg_round_down va" using ti(8) q by blast
        then show ?thesis using E by blast
      qed
    qed
  qed
  moreover have "frames_inv s'"
  proof -
    note fi = vm_invD(5) [OF inv, unfolded frames_inv_def]
    have "distinct (map frame (frame_table s'))" using fi sp by (simp add: eq(6) spare_def)
    moreover have "frame g \<in> uused (mem s')" if "g \<in> set (frame_table s')" for g using that fi sp mm(2) by (auto simp: eq(6) spare_def)
    moreover have "\<exists>e1 w1. entry s' (owner g) (fte_spte g) e1 \<and> entry_map s' (owner g) e1 = Some w1 \<and> frame_of w1 = frame g"
      if g: "g \<in> set (frame_table s')" for g
    proof (cases "g \<in> set (frame_table s)")
      case True
      then obtain e1 w1 where "entry s (owner g) (fte_spte g) e1" "entry_map s (owner g) e1 = Some w1" "frame_of w1 = frame g" using fi by blast
      then show ?thesis using E M by metis
    next
      case False
      then have "g = \<lparr>frame = fr, owner = ?p, fte_spte = a\<rparr>" using g by (simp add: eq(6))
      then show ?thesis using ea em w(1) by auto
    qed
    moreover have "\<exists>f \<in> set (frame_table s'). owner f = q \<and> fte_spte f = b" if "entry s' q b eb" "entry_map s' q eb = Some w1" for q b eb w1
    proof (cases "entry s q b eb")
      case True
      then have "entry_map s q eb = Some w1" using M that(2) by simp
      then have "\<exists>f \<in> set (frame_table s). owner f = q \<and> fte_spte f = b" using fi True by blast
      then show ?thesis by (auto simp: eq(6))
    next
      case False
      then show ?thesis using that(1) E by (simp add: eq(6))
    qed
    ultimately show ?thesis unfolding frames_inv_def by blast
  qed
  moreover have "mem_inv s'"
    using vm_invD(1) [OF inv] mm(1,3,4,5) by (simp add: mem_inv_def tb active_pd_def)
  ultimately show i': "vm_inv s'" using vm_invD(2,3) [OF inv] eq(1,2) by (simp add: vm_inv_def)
  show "user_page s' q va = (if q = ?p \<and> va = user_vaddr e then Some (frame_bytes s fr) else user_page s q va)" if q: "q \<in> live s" for q va
  proof (cases "\<exists>b eb. entry s' q b eb \<and> user_vaddr eb = va")
    case True
    then obtain b eb where b: "entry s' q b eb" "user_vaddr eb = va" by blast
    then show ?thesis
      using user_page_entry [OF i' b(1)] user_page_entry [OF inv, of q b eb] keep(2) [of q b eb] pv new E [of q b eb] by auto
  next
    case False
    then have "\<nexists>b eb. entry s q b eb \<and> user_vaddr eb = va" "\<not> (q = ?p \<and> va = user_vaddr e)" using E ea by blast+
    then show ?thesis using user_page_None [OF i' _ False] user_page_None [OF inv q] q tb(1) by auto
  qed
qed

text \<open>The outcome of growing the stack by the page \<open>va\<close>.\<close>

definition grown :: "kstate \<Rightarrow> u32 \<Rightarrow> palloc_type \<Rightarrow> bool \<Rightarrow> kstate \<Rightarrow> bool" where
  "grown s va ptype b s' \<longleftrightarrow> vm_inv s' \<and> live s' = live s \<and> current s' = current s \<and> lock_frame s' = lock_frame s \<and> same_files s s'
     \<and> cr3 (mem s') = cr3 (mem s) \<and> page_fault_cnt s' = page_fault_cnt s \<and> console s' = console s \<and> keys s' = keys s
     \<and> (\<exists>spt. threads s' = (threads s)(current s := (threads s (current s))\<lparr>sup_page_table := spt\<rparr>))
     \<and> (\<not> b \<longrightarrow> same_view s s' \<and> kernel_full (mem s'))
     \<and> (b \<longrightarrow> (\<exists>bs. length bs = PGSIZE \<and> (ptype = GROW_STACK \<longrightarrow> bs = replicate PGSIZE 0)
          \<and> (\<forall>q \<in> live s. \<forall>x. user_page s' q x = (if q = current s \<and> x = va then Some bs else user_page s q x)))
        \<and> (\<exists>a e fr. entry s' (current s) a e \<and> user_vaddr e = va \<and> page_writable e
             \<and> entry_map s' (current s) e = Some (pt_entry fr (user_flags True)) \<and> kpage_ok fr))"

lemma grow_stack_spec:
  assumes inv: "vm_inv s" and p: "current s \<in> live s" and va: "is_user_vaddr va" and ty: "ptype = PAGE_FAULT \<or> ptype = GROW_STACK"
    and new: "\<nexists>b eb. entry s (current s) b eb \<and> user_vaddr eb = pg_round_down va"
    and room: "\<not> swap_full (swap s)" "frame_table s \<noteq> [] \<or> \<not> users_full (mem s)"
  shows "\<exists>b s'. grow_stack va ptype s = Some (b, s') \<and> grown s (pg_round_down va) ptype b s'"
proof -
  let ?p = "current s" and ?va = "pg_round_down va"
  from kmalloc_spec [OF inv] obtain s0 where s0: "kmalloc s = (True, s0)" "calm s s0" "same_rest s s0" "mem s0 = mem s" by blast
  note c0 = calm_inv [OF inv s0(2)]
  have r0: "threads s0 = threads s" "current s0 = current s" "next_spte s0 = next_spte s" "swap s0 = swap s" "frame_table s0 = frame_table s" "lock_frame s0 = lock_frame s"
    using s0(2,3) by (simp_all add: same_rest_def calm_def)
  define a where "a = next_spte s0"
  define e where "e = (fresh_spte s0 a)\<lparr>user_vaddr := ?va, loaded := True, page_writable := True, file_type := TYPE_SWAP, is_swapped := False\<rparr>"
  define s1 where "s1 = s0\<lparr>sptes := (sptes s0)(a := Some e), next_spte := Suc a\<rparr>"
  have al: "allocate_page ?va True ptype 0 0 None 0 True s = Some (a, s1)"
    using s0(1) va ty user_kernel [of ?va]
    by (auto simp: allocate_page_def kassert_def s1_def e_def a_def set_spte_def Let_def)
  have na: "a \<notin> set (sup_page_table (threads s0 q))" if "q \<in> live s0" for q
  proof
    assume "a \<in> set (sup_page_table (threads s0 q))"
    then have "sptes s0 a \<noteq> None" using table_invD(3) [OF vm_invD(4) [OF c0(1)]] that by blast
    then show False using table_invD(2) [OF vm_invD(4) [OF c0(1)]] by (auto simp: a_def)
  qed
  have pos: "0 < a" using table_invD(1) [OF vm_invD(4) [OF c0(1)]] by (simp add: a_def)
  note ls = loose_spte [OF c0(1) na, where n = "Suc a" and e = "Some e", folded s1_def]
  have i1: "vm_inv s1" and v1: "same_view s0 s1" using ls(1,2) pos by (auto simp: a_def)
  have f1: "threads s1 = threads s" "current s1 = ?p" "swap s1 = swap s" "frame_table s1 = frame_table s" "mem s1 = mem s" "files s1 = files s0"
    "lock_frame s1 = lock_frame s" "sptes s1 a = Some e"
    using r0 s0(4) by (simp_all add: s1_def)
  have lv: "live s1 = live s" "live s0 = live s" by (simp_all add: live_def f1 r0)
  have v01: "same_view s s1" by (rule same_view_trans [OF c0(2) v1 lv(2)])
  have sf1: "same_files s s1" using s0(2) by (simp add: calm_def same_files_def f1)
  define pflag where "pflag = (if ptype = PAGE_FAULT then PAL_USER else PAL_USER OR PAL_ZERO)"
  have fl: "pflag AND PAL_USER \<noteq> 0" "pflag AND PAL_ASSERT = 0" "ptype = GROW_STACK \<Longrightarrow> pflag AND PAL_ZERO \<noteq> 0"
    using flag_facts by (cases "ptype = PAGE_FAULT"; simp add: pflag_def)+
  have rm: "\<not> swap_full (swap s1)" "frame_table s1 \<noteq> [] \<or> \<not> users_full (mem s1)" using room by (simp_all add: f1)
  from allocate_frame_spec [OF i1 fl(1,2) rm, of a] obtain fr s2 where
    al2: "allocate_frame a pflag s1 = Some (fr, insert_frame_table \<lparr>frame = fr, owner = ?p, fte_spte = a\<rparr> s2)" "fr \<noteq> 0" "prepared s1 s2" "spare s2 fr"
      "pflag AND PAL_ZERO \<noteq> 0 \<longrightarrow> frame_bytes s2 fr = replicate PGSIZE 0" unfolding f1(2) by blast
  have i2: "vm_inv s2" and v2: "same_view s1 s2" and r2: "same_rest s1 s2" and sf2: "same_files s1 s2" using al2(3) by (auto simp: prepared_def)
  have f2: "threads s2 = threads s" "current s2 = ?p" "lock_frame s2 = lock_frame s" "live s2 = live s" "dirs s2 = dirs s"
    using r2 f1 by (simp_all add: same_rest_def live_def dirs_def)
  have rs: "page_fault_cnt s2 = page_fault_cnt s" "console s2 = console s" "keys s2 = keys s" "cr3 (mem s2) = cr3 (mem s)"
    "page_fault_cnt t = page_fault_cnt s2 \<and> console t = console s2 \<and> keys t = keys s2" if "t = insert_frame_table x s2" for t x
    using r2 s0(3,4) that by (simp_all add: same_rest_def s1_def insert_frame_table_def)
  have na2: "a \<notin> set (sup_page_table (threads s2 q))" if "q \<in> live s2" for q using na that by (simp add: f2 lv r0)
  have sa: "sptes s2 a = Some e"
  proof (rule ccontr)
    assume "sptes s2 a \<noteq> Some e"
    then have "sptes s2 a \<noteq> sptes s1 a" using f1(8) by simp
    then obtain q eb where "entry s1 q a eb" using r2 unfolding same_rest_def by blast
    then show False using na [of q] by (simp add: entry_def lv f1 r0)
  qed
  have nv: "user_page s2 ?p ?va = None"
    using user_page_None [OF inv p new] v01 v2 p by (simp add: same_view_def lv)
  have no: "\<nexists>b eb. entry s2 (current s2) b eb \<and> user_vaddr eb = ?va" using user_page_entry [OF i2, of ?p] nv unfolding f2(2) by (metis option.distinct(1))
  have un: "page_map (mem s2) (pagedir (threads s ?p)) ?va = None"
  proof (rule ccontr)
    assume "page_map (mem s2) (pagedir (threads s ?p)) ?va \<noteq> None"
    then have "?p \<in> live s2 \<and> is_user_vaddr ?va \<and> page_map (mem s2) (pagedir (threads s2 ?p)) ?va \<noteq> None" using p va by (simp add: f2)
    then obtain b eb where "entry s2 ?p b eb" "user_vaddr eb = pg_round_down ?va" using table_invD(8) [OF vm_invD(4) [OF i2]] by blast
    then show False using no pg_round_down_id [OF pg_round_down_ofs, of va] by (simp add: f2)
  qed
  define t where "t = insert_frame_table \<lparr>frame = fr, owner = ?p, fte_spte = a\<rparr> s2"
  have tf: "threads t = threads s" "current t = ?p" "mem t = mem s2" "sptes t = sptes s2" "files t = files s2" "swap t = swap s2" "next_spte t = next_spte s2"
      "frame_table t = frame_table s2 @ [\<lparr>frame = fr, owner = ?p, fte_spte = a\<rparr>]" "lock_frame t = lock_frame s"
    by (simp_all add: t_def insert_frame_table_def f2)
  note rs = rs [OF t_def] and sg = spare_page [OF i2 al2(4)]
  have pd: "pagedir (threads s ?p) \<in> dirs s2" using p by (simp add: dirs_def live_def f2)
  obtain b m where m: "install_page ?va fr True t = Some (b, t\<lparr>mem := m\<rparr>)" "vm_ok m (dirs s2)" "\<not> b \<longrightarrow> m = mem s2 \<and> kernel_full (mem s2)"
    "one_page (mem s2) (dirs s2) (pagedir (threads s ?p)) ?va (if b then Some (pt_entry fr (user_flags True)) else None) m"
    using install_page_spec [of t "dirs s2" ?va fr True] inv_mem(1) [OF i2] pd va sg(1,4) un
    by (auto simp: tf thread_current_def)
  show ?thesis
  proof (cases b)
    case False
    then have mt: "m = mem t" "kernel_full (mem t)" using m(3) tf by simp_all
    obtain m' where m': "free_frame fr t = Some (t\<lparr>frame_table := frame_table s2, mem := m'\<rparr>)" "calm s2 (t\<lparr>frame_table := frame_table s2, mem := m'\<rparr>)"
      "kernel_full m' = kernel_full (mem t)" "cr3 m' = cr3 (mem s2)"
      using free_spare [OF i2 al2(4) tf(8)] inv_mem(1) [OF i2] vm_invD(3) [OF i2] tf f2(1) by (auto simp: same_regs_def)
    define s4 where "s4 = t\<lparr>frame_table := frame_table s2, mem := m'\<rparr>"
    note c4 = calm_inv [OF i2 m'(2), folded s4_def]
    have f4: "threads s4 = threads s" "live s4 = live s" "current s4 = ?p" "lock_frame s4 = lock_frame s" "files s4 = files s2" "next_spte s4 = next_spte s2"
      by (simp_all add: s4_def tf live_def)
    define s' where "s' = s4\<lparr>sptes := (sptes s4)(a := None)\<rparr>"
    have "s' = s4\<lparr>sptes := (sptes s4)(a := None), next_spte := next_spte s4\<rparr>" by (simp add: s'_def)
    note l4 = loose_spte [OF c4(1), where a = a and e = None and n = "next_spte s4", folded this]
    have "vm_inv s'" "same_view s4 s'" using l4(1,2) na2 by (simp_all add: f4 f2)
    moreover have "same_view s s4" using same_view_trans [OF same_view_trans [OF v01 v2 lv(1)] c4(2) f2(4)] .
    moreover have "threads s = (threads s)(?p := (threads s ?p)\<lparr>sup_page_table := sup_page_table (threads s ?p)\<rparr>)" by simp
    then have "\<exists>spt. threads s = (threads s)(?p := (threads s ?p)\<lparr>sup_page_table := spt\<rparr>)" by (rule exI)
    ultimately have "grown s ?va ptype False s'"
      using same_view_trans [of s s4 s'] sf1 sf2 f4 m'(3,4) mt(2) f2 tf rs by (auto simp: grown_def s'_def s4_def live_def same_files_def)
    then show ?thesis using al al2(1,2) m(1) m'(1) mt ty False
      by (intro exI [of _ False] exI [of _ s']) (auto simp: grow_stack_def pflag_def t_def [symmetric] s'_def s4_def Let_def split: if_splits)
  next
    case True
    define s3 where "s3 = t\<lparr>mem := m\<rparr>"
    define s' where "s' = upd_current (\<lambda>th. th\<lparr>sup_page_table := sup_page_table th @ [a]\<rparr>) s3"
    have u: "uused m = uused (mem s2)" "\<forall>b \<in> uused (mem s2). pages (phys m) b = pages (phys (mem s2)) b" "ram_pages m = ram_pages (mem s2)" "cr3 m = cr3 (mem s2)"
      "pool_pages (user_pool (phys m)) = pool_pages (user_pool (phys (mem s2)))"
      using m(4) by (auto simp: one_page_def same_users_def uused_def get_pool_def dest: spec [of _ True])
    have fs: "find_spte ?va (sptes s3) (sup_page_table (thread_current s3)) = Some None"
      using find_entry [OF i2, of ?p ?va] no p by (auto simp: s3_def tf thread_current_def f2)
    have ins: "page_insert a s3 = Some (True, s')" using sa fs by (simp add: page_insert_def s3_def tf s'_def e_def)
    have ue: "user_vaddr e = ?va" "loaded e" "\<not> is_swapped e" "file_type e = TYPE_SWAP" "page_writable e" by (simp_all add: e_def)
    have cp: "current s2 \<in> live s2" using p by (simp add: f2)
    have s'f: "mem s' = m" "swap s' = swap s2" "files s' = files s2" "sptes s' = sptes s2" "next_spte s' = next_spte s2" "current s' = ?p" "lock_frame s' = lock_frame s"
      "threads s' = (threads s2)(current s2 := (threads s2 (current s2))\<lparr>sup_page_table := sup_page_table (threads s2 (current s2)) @ [a]\<rparr>)"
      "frame_table s' = frame_table s2 @ [\<lparr>frame = fr, owner = current s2, fte_spte = a\<rparr>]"
      by (simp_all add: s'_def s3_def upd_current_def tf f2)
    have pm: "\<forall>pd \<in> dirs s2. \<forall>x. is_user_vaddr x \<longrightarrow> page_map (mem s') pd x =
        (if pd = pagedir (threads s2 (current s2)) \<and> pg_round_down x = user_vaddr e then Some (pt_entry fr (user_flags True)) else page_map (mem s2) pd x)"
      using m(4) True by (simp add: one_page_def s'f ue f2)
    note ad = add_entry_inv [OF i2 cp al2(4) sa na2 ue(2,3,4), of True s']
    have ad: "vm_inv s'" "\<And>q x. q \<in> live s2 \<Longrightarrow> user_page s' q x = (if q = current s2 \<and> x = user_vaddr e then Some (frame_bytes s2 fr) else user_page s2 q x)"
      "entry s' (current s2) a e" "entry_map s' (current s2) e = Some (pt_entry fr (user_flags True))"
      using ad va no m(2) u pm by (simp_all add: ue s'f)
    have "\<forall>q \<in> live s. \<forall>x. user_page s' q x = (if q = ?p \<and> x = ?va then Some (frame_bytes s2 fr) else user_page s q x)"
      using ad(2) v01 v2 by (simp add: f2 ue same_view_def lv)
    moreover have "live s' = live s" by (auto simp: live_def s'f f2)
    moreover have "length (frame_bytes s2 fr) = PGSIZE" by (rule inv_mem(5) [OF i2])
    moreover have "ptype = GROW_STACK \<longrightarrow> frame_bytes s2 fr = replicate PGSIZE 0" using al2(5) fl(3) by blast
    moreover have "same_files s s'" using sf1 sf2 by (simp add: same_files_def s'f)
    ultimately have "grown s ?va ptype True s'"
      unfolding grown_def using ad(1,3,4) ue sg(1) s'f(6,7) f2 u(4) rs tf by (auto simp: s'f s'_def s3_def upd_current_def)
    then show ?thesis using al al2(1,2) m(1) ty True ins
      by (intro exI [of _ True] exI [of _ s']) (auto simp: grow_stack_def pflag_def t_def [symmetric] s3_def Let_def split: if_splits)
  qed
qed

end
