(* ===== verification/Exception.thy ===== *)
theory Exception
  imports Vm
begin

text \<open>
  Exceptions, \<^verbatim>\<open>userprog/exception.c\<close>, with \<open>exit\<close> of \<^verbatim>\<open>userprog/syscall.c\<close>, and the memory that a running program sees.
  A call that ends the running thread does not return; its outcome is \<open>Leave\<close>. A panic of the kernel is \<open>None\<close>.

  \<open>access_byte\<close> is an access of the processor to one byte of user memory: the translation through the active
  directory, the setting of the accessed and dirty bits, the fault when the page is absent or must not be written
  (write protection is on in kernel mode too, \<^verbatim>\<open>threads/loader.S\<close>), and the retry when \<open>page_fault\<close> returns.

  The main result is that user memory behaves like a flat array: a program reads what it wrote, wherever the
  page has been in the meantime, and no access touches another byte or another process.
\<close>

section \<open>Ending the running thread\<close>

datatype 'a outcome = Ret 'a | Leave

definition PF_P :: u32 where "PF_P = 0x1"
definition PF_W :: u32 where "PF_W = 0x2"
definition PF_U :: u32 where "PF_U = 0x4"

definition SIZE :: u32 where "SIZE = 32"

definition kprintf :: "string \<Rightarrow> va_list \<Rightarrow> kstate \<Rightarrow> kstate option" where
  "kprintf fmt args s = do {
     (n, c) \<leftarrow> printf (current s) False (lit fmt) args (console s);
     Some (s\<lparr>console := c\<rparr>) }"

definition sys_exit :: "u32 \<Rightarrow> kstate \<Rightarrow> (unit outcome \<times> kstate) option" where
  "sys_exit status s = do {
     let s1 = upd_current (\<lambda>t. t\<lparr>exit_status := sint status\<rparr>) s;
     if is_exited (thread_current s1) then Some (Ret (), s1)
     else do {
       f \<leftarrow> file_close (main_file (thread_current s1)) (files s1);
       s2 \<leftarrow> kprintf ''%s: exit(%d)\<newline>'' [AStr (Some (thread_name (thread_current s1))), A32 status] (s1\<lparr>files := f\<rparr>);
       Some (Leave, s2) } }"

definition kill :: "handler intr_state \<Rightarrow> u32 \<Rightarrow> intr_frame \<Rightarrow> kstate \<Rightarrow> (unit outcome \<times> kstate) option" where
  "kill ist cr2 f s =
     (if unat (cs f) = SEL_UCSEG then do {
        s1 \<leftarrow> kprintf ''%s: dying due to interrupt %#04x (%s).\<newline>''
          [AStr (Some (thread_name (thread_current s))), A32 (vec_no f), AStr (Some (intr_name (unat (vec_no f) mod 256) ist))] s;
        c \<leftarrow> intr_dump_frame (current s1) cr2 f ist (console s1);
        Some (Leave, s1\<lparr>console := c\<rparr>) }
      else if unat (cs f) = SEL_KCSEG then None
      else do {
        s1 \<leftarrow> kprintf ''Interrupt %#04x (%s) in unknown segment %04x\<newline>''
          [A32 (vec_no f), AStr (Some (intr_name (unat (vec_no f) mod 256) ist)), A32 (ucast (cs f))] s;
        Some (Leave, s1) })"

definition fault_message :: "u32 \<Rightarrow> bool \<Rightarrow> bool \<Rightarrow> bool \<Rightarrow> kstate \<Rightarrow> kstate option" where
  "fault_message fault_addr not_present write user s =
     kprintf ''Page fault at %p: %s error %s page in %s context.\<newline>''
       [A32 fault_addr, AStr (Some (lit (if not_present then ''not present'' else ''rights violation''))),
        AStr (Some (lit (if write then ''writing'' else ''reading''))), AStr (Some (lit (if user then ''user'' else ''kernel'')))] s"

definition page_fault :: "handler intr_state \<Rightarrow> u32 \<Rightarrow> intr_frame \<Rightarrow> kstate \<Rightarrow> (unit outcome \<times> kstate) option" where
  "page_fault ist fault_addr f s = do {
     let s1 = s\<lparr>page_fault_cnt := page_fault_cnt s + 1\<rparr>;
     let not_present = (error_code f AND PF_P = 0);
     let write = (error_code f AND PF_W \<noteq> 0);
     let user = (error_code f AND PF_U \<noteq> 0);
     if is_user_vaddr fault_addr \<and> not_present then do {
       r \<leftarrow> find_page fault_addr s1;
       case r of
         Some a \<Rightarrow> do {
           (success, s2) \<leftarrow> page_handling a s1;
           if success then Some (Ret (), s2)
           else do { s3 \<leftarrow> fault_message fault_addr not_present write user s2; kill ist fault_addr f s3 } }
       | None \<Rightarrow>
           if unat (PHYS_BASE - pg_round_down fault_addr) > LIMIT then sys_exit (- 1) s1
           else if fault_addr \<ge> esp f - SIZE then do {
             s2 \<leftarrow> acquire_frame_lock s1;
             (success, s3) \<leftarrow> grow_stack fault_addr PAGE_FAULT s2;
             s4 \<leftarrow> release_frame_lock s3;
             if success then Some (Ret (), s4)
             else do { s5 \<leftarrow> fault_message fault_addr not_present write user s4; kill ist fault_addr f s5 } }
           else sys_exit (- 1) s1 }
     else sys_exit (- 1) s1 }"

definition exception_print_stats :: "kstate \<Rightarrow> kstate option" where
  "exception_print_stats s = kprintf ''Exception: %lld page faults\<newline>'' [A64 (of_nat (page_fault_cnt s))] s"

section \<open>Accesses of the processor\<close>

definition mark_access :: "bool \<Rightarrow> u32 \<Rightarrow> u32 \<Rightarrow> vmem \<Rightarrow> vmem option" where
  "mark_access write pd va m = do {
     m1 \<leftarrow> pagedir_set_accessed pd (pg_round_down va) True m;
     if write then pagedir_set_dirty pd (pg_round_down va) True m1 else Some m1 }"

definition fault_code :: "bool \<Rightarrow> bool \<Rightarrow> bool \<Rightarrow> u32" where
  "fault_code present write user = (if present then PF_P else 0) OR (if write then PF_W else 0) OR (if user then PF_U else 0)"

text \<open>One attempt: the byte, with the memory after the access, or the error code of the page fault. \<open>wr\<close> is the byte to
  store, if the access is a write.\<close>

definition attempt :: "byte option \<Rightarrow> bool \<Rightarrow> u32 \<Rightarrow> kstate \<Rightarrow> (u32 + byte \<times> kstate) option" where
  "attempt wr user va s = do {
     pd \<leftarrow> active_pd (mem s);
     case page_map (mem s) pd va of
       None \<Rightarrow> Some (Inl (fault_code False (wr \<noteq> None) user))
     | Some w \<Rightarrow>
         if user \<and> w AND PTE_U = 0 \<or> wr \<noteq> None \<and> w AND PTE_W = 0 then Some (Inl (fault_code True (wr \<noteq> None) user))
         else do {
           m1 \<leftarrow> mark_access (wr \<noteq> None) pd va (mem s);
           let i = unat (pg_ofs va);
           let pg = pages (phys m1) (frame_of w);
           case wr of
             None \<Rightarrow> Some (Inr (pg ! i, s\<lparr>mem := m1\<rparr>))
           | Some b \<Rightarrow> Some (Inr (b, s\<lparr>mem := put_page (frame_of w) (pg[i := b]) m1\<rparr>)) } }"

partial_function (option) access_byte ::
    "byte option \<Rightarrow> bool \<Rightarrow> handler intr_state \<Rightarrow> intr_frame \<Rightarrow> u32 \<Rightarrow> kstate \<Rightarrow> (byte outcome \<times> kstate) option" where
  "access_byte wr user ist f va s = Option.bind (attempt wr user va s) (\<lambda>r. case r of
     Inr (b, s') \<Rightarrow> Some (Ret b, s')
   | Inl code \<Rightarrow> Option.bind (page_fault ist va (f\<lparr>error_code := code, vec_no := 14\<rparr>) s) (\<lambda>(out, s1).
       case out of Leave \<Rightarrow> Some (Leave, s1) | Ret _ \<Rightarrow> access_byte wr user ist f va s1))"

definition load_byte :: "bool \<Rightarrow> handler intr_state \<Rightarrow> intr_frame \<Rightarrow> u32 \<Rightarrow> kstate \<Rightarrow> (byte outcome \<times> kstate) option" where
  "load_byte user ist f va s = access_byte None user ist f va s"

definition store_byte :: "bool \<Rightarrow> handler intr_state \<Rightarrow> intr_frame \<Rightarrow> u32 \<Rightarrow> byte \<Rightarrow> kstate \<Rightarrow> (byte outcome \<times> kstate) option" where
  "store_byte user ist f va b s = access_byte (Some b) user ist f va s"

section \<open>The memory of a process\<close>

definition user_byte :: "kstate \<Rightarrow> nat \<Rightarrow> u32 \<Rightarrow> byte option" where
  "user_byte s p va = (if is_user_vaddr va then map_option (\<lambda>pg. pg ! unat (pg_ofs va)) (user_page s p (pg_round_down va)) else None)"

definition user_writable :: "kstate \<Rightarrow> nat \<Rightarrow> u32 \<Rightarrow> bool" where
  "user_writable s p va \<longleftrightarrow> (\<exists>a e. entry s p a e \<and> user_vaddr e = pg_round_down va \<and> page_writable e)"

text \<open>The running process is the one whose directory the processor uses, no lock is held, and an eviction is possible when it
  is needed.\<close>

definition running :: "kstate \<Rightarrow> bool" where
  "running s \<longleftrightarrow> vm_inv s \<and> \<not> lock_frame s \<and> current s \<in> live s \<and> active_pd (mem s) = Some (pagedir (threads s (current s)))"

definition room :: "kstate \<Rightarrow> bool" where
  "room s \<longleftrightarrow> \<not> swap_full (swap s) \<and> (frame_table s \<noteq> [] \<or> \<not> users_full (mem s))"

section \<open>An access to a page that is present\<close>

lemma or_bits:
  assumes "flag_bits bt" and "bt AND PTE_W = 0" and "bt AND PTE_U = 0"
  shows "(w OR bt) AND PTE_ADDR = w AND PTE_ADDR" "(w OR bt) AND PTE_W = w AND PTE_W" "(w OR bt) AND PTE_D = 0 \<longrightarrow> w AND PTE_D = 0"
    "(w OR bt) AND PTE_U = w AND PTE_U"
  using flag_bits_addr(1) [OF assms(1), of w] assms(2,3) by (simp_all add: bit.conj_disj_distrib2 or_eq_0_iff)

definition access_bits :: "bool \<Rightarrow> u32" where
  "access_bits write = (if write then PTE_A OR PTE_D else PTE_A)"

lemma access_bits: "flag_bits (access_bits write)" "access_bits write AND PTE_W = 0" "access_bits write AND PTE_U = 0" "access_bits True AND PTE_D \<noteq> 0"
  by (simp_all add: access_bits_def) (simp_all add: PTE_A_def PTE_D_def PTE_W_def PTE_U_def)

lemma mark_access_spec:
  assumes ok: "vm_ok m D" and pd: "pd \<in> D" and va: "is_user_vaddr va" and act: "active_pd m = Some pd" and w: "page_map m pd va = Some w"
  shows "\<exists>m'. mark_access wrt pd va m = Some m' \<and> vm_ok m' D \<and> one_page m D pd (pg_round_down va) (Some (w OR access_bits wrt)) m'"
proof -
  let ?u = "pg_round_down va"
  have u: "is_user_vaddr ?u" "pg_ofs ?u = 0" using va by simp_all
  have wu: "page_map m pd ?u = Some w" using w page_map_page [OF u(2), of va m pd] by simp
  have fb: "flag_bits PTE_A" "PTE_A AND PTE_P = 0" "flag_bits PTE_D" "PTE_D AND PTE_P = 0" using flag_bits_nonzero by simp_all
  from change_bit_spec [OF ok pd u act fb(1,2), of True] wu obtain m1 where
    m1: "pagedir_set_accessed pd ?u True m = Some m1" "vm_ok m1 D" "one_page m D pd ?u (Some (w OR PTE_A)) m1"
    by (auto simp: pagedir_set_accessed_def)
  have a1: "active_pd m1 = Some pd" using m1(3) act by (simp add: one_page_def active_pd_def)
  have w1: "page_map m1 pd ?u = Some (w OR PTE_A)" using m1(3) pd u by (simp add: one_page_def pg_round_down_id)
  from change_bit_spec [OF m1(2) pd u a1 fb(3,4), of True] w1 obtain m2 where
    m2: "pagedir_set_dirty pd ?u True m1 = Some m2" "vm_ok m2 D" "one_page m1 D pd ?u (Some ((w OR PTE_A) OR PTE_D)) m2"
    by (auto simp: pagedir_set_dirty_def)
  have "one_page m D pd ?u (Some (w OR (PTE_A OR PTE_D))) m2"
    using m1(3) m2(3) same_users_trans [of m m1 m2] by (auto simp: one_page_def or.assoc)
  then show ?thesis using m1 m2 by (cases wrt) (auto simp: mark_access_def access_bits_def)
qed

text \<open>What an access leaves alone, apart from memory.\<close>

lemma present_page:
  assumes run: "running s" and va: "is_user_vaddr va" and e: "entry s (current s) a e" "user_vaddr e = pg_round_down va" and w: "entry_map s (current s) e = Some w"
  shows "page_map (mem s) (pagedir (threads s (current s))) va = Some w" "pagedir (threads s (current s)) \<in> dirs s"
proof -
  have inv: "vm_inv s" using run by (simp add: running_def)
  note ie = inv_entry [OF inv e(1)]
  show "page_map (mem s) (pagedir (threads s (current s))) va = Some w"
    using page_map_page [OF ie(3), of va "mem s"] w e(2) by (simp add: entry_map_def)
  show "pagedir (threads s (current s)) \<in> dirs s" by (rule ie(4))
qed

lemma attempt_load:
  assumes run: "running s" and va: "is_user_vaddr va" and e: "entry s (current s) a e" "user_vaddr e = pg_round_down va" and w: "entry_map s (current s) e = Some w"
  shows "\<exists>m. attempt None user va s = Some (Inr (frame_bytes s (frame_of w) ! unat (pg_ofs va), s\<lparr>mem := m\<rparr>))
     \<and> running (s\<lparr>mem := m\<rparr>) \<and> same_view s (s\<lparr>mem := m\<rparr>)"
proof -
  have inv: "vm_inv s" and act: "active_pd (mem s) = Some (pagedir (threads s (current s)))" using run by (simp_all add: running_def)
  note pp = present_page [OF assms]
  from mark_access_spec [OF inv_mem(1) [OF inv] pp(2) va act pp(1), of False] obtain m where
    m: "mark_access False (pagedir (threads s (current s))) va (mem s) = Some m" "vm_ok m (dirs s)"
    "one_page (mem s) (dirs s) (pagedir (threads s (current s))) (pg_round_down va) (Some (w OR access_bits False)) m" by blast
  have am: "active_pd m = active_pd (mem s)" using m(3) by (simp add: one_page_def active_pd_def)
  have rel: "pt_rel (page_map (mem s) pd x) (page_map m pd x)" if "pd \<in> dirs s" "is_user_vaddr x" for pd x
  proof (cases "pd = pagedir (threads s (current s)) \<and> pg_round_down x = pg_round_down va")
    case True
    then have "page_map (mem s) pd x = Some w" using pp(1) page_map_page [of "pg_round_down va" x] page_map_page [of "pg_round_down va" va] by simp
    then show ?thesis using m(3) that True or_bits [OF access_bits(1-3)] by (auto simp: one_page_def pt_rel_Some)
  next
    case False
    then show ?thesis using m(3) that by (auto simp: one_page_def)
  qed
  have F: "frame ` set (frame_table s) \<subseteq> uused (mem s)" using vm_invD(5) [OF inv] by (auto simp: frames_inv_def)
  have u: "uused m = uused (mem s)" "\<forall>b \<in> uused (mem s). pages (phys m) b = pages (phys (mem s)) b"
    "pool_pages (user_pool (phys m)) = pool_pages (user_pool (phys (mem s)))" "ram_pages m = ram_pages (mem s)"
    using m(3) by (auto simp: one_page_def same_users_def uused_def get_pool_def dest: spec [of _ True])
  then have "mem_calm (mem s) m (dirs s) (frame ` set (frame_table s))"
    using m(2) rel F am act unfolding mem_calm_def by auto
  then have c: "calm s (s\<lparr>mem := m\<rparr>)" using vm_invD(3) [OF inv] by (simp add: calm_def)
  from inv_frame [OF inv e(1) w] have fr: "frame_of w \<in> uused (mem s)" by blast
  have "attempt None user va s = Some (Inr (frame_bytes s (frame_of w) ! unat (pg_ofs va), s\<lparr>mem := m\<rparr>))"
    using act pp(1) m(1) u(2) fr inv_entry(1) [OF inv e(1)] w by (simp add: attempt_def frame_bytes_def spte_ok_def)
  then show ?thesis using calm_inv(1,2) [OF inv c] run am by (auto simp: running_def live_def)
qed

text \<open>A step that keeps the frame of its entry keeps the frame table right, and shows only at that page.\<close>

lemma entry_step_frames:
  assumes inv: "vm_inv s" and e: "entry s p a e" and st: "entry_step s p a e e' (Some w') s'" and w: "entry_map s p e = Some w" "frame_of w' = frame_of w"
    and eq: "frame_table s' = frame_table s" "uused (mem s') = uused (mem s)"
  shows "frames_inv s'"
proof -
  note E = entry_step_entry [OF inv e st] and M = entry_step_map [OF inv e st] and fi = vm_invD(5) [OF inv, unfolded frames_inv_def]
  have M': "entry_map s' p e' = Some w'" using M [OF e] st by (auto simp: entry_map_def entry_step_def)
  have 1: "\<exists>e1 w1. entry s' (owner f) (fte_spte f) e1 \<and> entry_map s' (owner f) e1 = Some w1 \<and> frame_of w1 = frame f"
    if f: "f \<in> set (frame_table s)" for f
  proof -
    from f fi obtain e1 w1 where e1: "entry s (owner f) (fte_spte f) e1" "entry_map s (owner f) e1 = Some w1" "frame_of w1 = frame f" by blast
    show ?thesis
    proof (cases "fte_spte f = a")
      case True
      then have "owner f = p" "e1 = e" using inv_same_owner [OF inv e, of "owner f" e1] e1(1) by auto
      then show ?thesis using e1 True E [of p a e'] M' w by auto
    qed (use e1 E M [OF e1(1)] in auto)
  qed
  have 2: "\<exists>f \<in> set (frame_table s). owner f = q \<and> fte_spte f = c" if c: "entry s' q c ec" "entry_map s' q ec = Some x" for q c ec x
  proof (cases "c = a")
    case True
    then have "q = p" using E [of q c ec] c(1) by auto
    then show ?thesis using fi e w(1) True by blast
  next
    case False
    then have "entry s q c ec" "entry_map s q ec = Some x" using E [of q c ec] M [of q c ec] c by auto
    then show ?thesis using fi by blast
  qed
  show ?thesis unfolding frames_inv_def eq using fi 1 2 by blast
qed

lemma entry_step_view:
  assumes inv: "vm_inv s" and e: "entry s p a e" and st: "entry_step s p a e e' w' s'" and ok': "spte_ok s' p e'" and fr: "frames_inv s'"
    and q: "q \<in> live s"
  shows "user_page s' q x = (if q = p \<and> x = user_vaddr e then Some (page_view s' p e') else user_page s q x)"
proof -
  note es = entry_step_inv [OF inv e st ok' fr]
  have ve: "user_vaddr e' = user_vaddr e" and lv: "live s' = live s" using st same_tables_simps(1) by (auto simp: entry_step_def)
  show ?thesis
  proof (cases "\<exists>c ec. entry s q c ec \<and> user_vaddr ec = x")
    case True
    then obtain c ec where c: "entry s q c ec" "user_vaddr ec = x" by blast
    show ?thesis
    proof (cases "c = a")
      case True
      then have "q = p" "ec = e" using inv_same_owner [OF inv e, of q ec] c by auto
      then show ?thesis using user_page_entry [OF es(1), of p a e'] es(2) [of p a e'] c(2) ve by simp
    next
      case False
      then have "\<not> (q = p \<and> x = user_vaddr e)" using inv_same_page [OF inv e, of c ec] c by auto
      then show ?thesis
        using user_page_entry [OF es(1), of q c ec] user_page_entry [OF inv c(1)] es(2) [of q c ec] es(3) [OF c(1) False] c False by auto
    qed
  next
    case False
    then have "\<not> (q = p \<and> x = user_vaddr e)" using e by blast
    moreover have "\<nexists>c ec. entry s' q c ec \<and> user_vaddr ec = x" using False es(2) e ve by metis
    ultimately show ?thesis using user_page_None [OF es(1), of q x] user_page_None [OF inv q False] q lv by auto
  qed
qed

lemma attempt_store:
  assumes run: "running s" and va: "is_user_vaddr va" and e: "entry s (current s) a e" "user_vaddr e = pg_round_down va" and w: "entry_map s (current s) e = Some w"
    and wr: "page_writable e"
  shows "\<exists>m. attempt (Some b) user va s = Some (Inr (b, s\<lparr>mem := m\<rparr>)) \<and> running (s\<lparr>mem := m\<rparr>)
     \<and> (\<forall>q \<in> live s. \<forall>x. user_page (s\<lparr>mem := m\<rparr>) q x = (if q = current s \<and> x = pg_round_down va
          then Some ((frame_bytes s (frame_of w))[unat (pg_ofs va) := b]) else user_page s q x))"
proof -
  let ?p = "current s" and ?pd = "pagedir (threads s (current s))"
  have inv: "vm_inv s" and act: "active_pd (mem s) = Some ?pd" using run by (simp_all add: running_def)
  note pp = present_page [OF assms(1-5)] and ie = inv_entry [OF inv e(1)]
  have nw: "w AND PTE_W \<noteq> 0" "w AND PTE_U \<noteq> 0" using ie(1) w wr by (auto simp: spte_ok_def)
  from mark_access_spec [OF inv_mem(1) [OF inv] pp(2) va act pp(1), of True] obtain m where
    m: "mark_access True ?pd va (mem s) = Some m" "vm_ok m (dirs s)"
    "one_page (mem s) (dirs s) ?pd (pg_round_down va) (Some (w OR access_bits True)) m" by blast
  have u: "uused m = uused (mem s)" "\<forall>b \<in> uused (mem s). pages (phys m) b = pages (phys (mem s)) b"
    "pool_pages (user_pool (phys m)) = pool_pages (user_pool (phys (mem s)))" "ram_pages m = ram_pages (mem s)" "cr3 m = cr3 (mem s)"
    using m(3) by (auto simp: one_page_def same_users_def uused_def get_pool_def dest: spec [of _ True])
  obtain fte where fte: "fte \<in> set (frame_table s)" "owner fte = ?p" "fte_spte fte = a" "frame fte = frame_of w" "frame_of w \<in> uused (mem s)"
    using inv_frame [OF inv e(1) w] by blast
  define bs where "bs = (frame_bytes s (frame_of w))[unat (pg_ofs va) := b]"
  have lb: "length bs = PGSIZE" using inv_mem(5) [OF inv] by (simp add: bs_def)
  define s' where "s' = s\<lparr>mem := put_page (frame_of w) bs m\<rparr>"
  have fm: "frame_of w \<in> uused m" using fte(5) u(1) by simp
  note ppm = put_page_spec [OF m(2) fm lb]
  have run': "attempt (Some b) user va s = Some (Inr (b, s'))"
    using act pp(1) nw m(1) u(2) fte(5) by (simp add: attempt_def s'_def bs_def frame_bytes_def Let_def)
  let ?w = "w OR access_bits True"
  note ob = or_bits [OF access_bits(1-3), of w True]
  have fw: "frame_of ?w = frame_of w" using ob(1) by (simp add: frame_of_def)
  have st: "entry_step s ?p a e e (Some ?w) s'"
    unfolding entry_step_def
  proof (intro conjI)
    show "sptes s' = (sptes s)(a \<mapsto> e)" using e(1) by (auto simp: s'_def entry_def)
    show "vm_ok (mem s') (dirs s)" using ppm(1) by (simp add: s'_def)
    show "active_pd (mem s') \<noteq> None" "ram_pages (mem s') = ram_pages (mem s)" using act u ppm(5) by (auto simp: s'_def same_regs_def active_pd_def)
    show "pool_pages (user_pool (phys (mem s'))) = pool_pages (user_pool (phys (mem s)))" using u(3) by (simp add: s'_def put_page_def)
    show "\<forall>pd \<in> dirs s. \<forall>x. is_user_vaddr x \<longrightarrow> page_map (mem s') pd x = (if pd = ?pd \<and> pg_round_down x = user_vaddr e then Some ?w else page_map (mem s) pd x)"
      using m(3) ppm(2) e(2) by (simp add: s'_def one_page_def)
    show "swap_inv (swap s')" "fs_ok (fs (files s'))" "same_files s s'" using vm_invD [OF inv] by (simp_all add: s'_def)
    show "\<forall>q c ec. entry s q c ec \<and> c \<noteq> a \<longrightarrow> (\<forall>x. entry_map s q ec = Some x \<longrightarrow> frame_bytes s' (frame_of x) = frame_bytes s (frame_of x))
        \<and> (is_swapped ec \<longrightarrow> swap_view (swap s') (swap_num ec) = swap_view (swap s) (swap_num ec) \<and> (is_swapped e \<longrightarrow> swap_num e \<noteq> swap_num ec))"
    proof (intro allI impI conjI, elim conjE)
      fix q c ec x assume c: "entry s q c ec" "c \<noteq> a" "entry_map s q ec = Some x"
      have "frame_of x \<noteq> frame_of w" using inv_frames_apart [OF inv c(1,3) e(1) w] c(2) by auto
      moreover have "frame_of x \<in> uused (mem s)" using inv_frame [OF inv c(1,3)] by blast
      ultimately show "frame_bytes s' (frame_of x) = frame_bytes s (frame_of x)" using ppm(4) u(2) by (simp add: frame_bytes_def s'_def)
    next
      fix q c ec assume c: "entry s q c ec \<and> c \<noteq> a" "is_swapped ec"
      then show "swap_view (swap s') (swap_num ec) = swap_view (swap s) (swap_num ec)" by (simp add: s'_def)
      assume "is_swapped e"
      then show "swap_num e \<noteq> swap_num ec" using inv_same_slot [OF inv e(1), of q c ec] c by auto
    qed
  qed (simp_all add: s'_def same_tables_def)
  note M = entry_step_map [OF inv e(1) st]
  have ok': "spte_ok s' ?p e"
  proof -
    have "entry_map s' ?p e = Some ?w" using M [OF e(1)] by simp
    moreover have "?w AND PTE_D \<noteq> 0" using access_bits(4) by (simp add: bit.conj_disj_distrib2 or_eq_0_iff)
    moreover have "file_ok s e \<Longrightarrow> file_ok s' e" by (simp add: file_ok_def s'_def)
    ultimately show ?thesis using ie(1) w ob(2,4) by (auto simp: spte_ok_def s'_def)
  qed
  have fi: "frames_inv s'"
    by (rule entry_step_frames [OF inv e(1) st w fw]) (use ppm(3) u(1) in \<open>simp_all add: s'_def\<close>)
  note es = entry_step_inv [OF inv e(1) st ok' fi]
  have pv: "page_view s' ?p e = bs" using M [OF e(1)] ppm(4) fw by (simp add: page_view_def frame_bytes_def s'_def)
  have "user_page s' q x = (if q = ?p \<and> x = pg_round_down va then Some bs else user_page s q x)" if "q \<in> live s" for q x
    using entry_step_view [OF inv e(1) st ok' fi that, of x] pv e(2) by simp
  moreover have "running s'" using es(1) run u(5) act by (simp add: running_def s'_def live_def active_pd_def put_page_def)
  ultimately show ?thesis using run' unfolding s'_def bs_def by blast
qed


section \<open>Messages\<close>

text \<open>The running thread can print: the console is free or its own, and its name is a string.\<close>

definition printable :: "kstate \<Rightarrow> bool" where
  "printable s \<longleftrightarrow> console_ok (current s) False (console s) \<and> (\<exists>nm. cstr nm (thread_name (thread_current s)) \<and> length nm < 2 ^ 31)"

definition names_ok :: "handler intr_state \<Rightarrow> bool" where
  "names_ok ist \<longleftrightarrow> \<not> intr_context ist \<and> (\<forall>i < 256. \<exists>t. cstr t (intr_names ist ! i) \<and> length t < 2 ^ 31)"

lemma kprintf_spec:
  assumes "printable s" and "printf_text (lit fmt) args = Some t"
  shows "kprintf fmt args s = Some (s\<lparr>console := wrote t (console s)\<rparr>)"
  using printf_spec [OF _ assms(2)] assms(1) by (simp add: kprintf_def printable_def)

lemma printable_console [simp]: "printable (s\<lparr>console := wrote t (console s)\<rparr>) = printable s"
  by (simp add: printable_def thread_current_def)

text \<open>Conversions in hexadecimal, of the widths that the messages use.\<close>

lemma parse_hex:
  "\<exists>c. conv c = INT_T \<and> (\<forall>fmt args. parse_conversion (35 # 48 # 52 # 120 # fmt) args = Some (c, 120 # fmt, args))"
  "\<exists>c. conv c = INT_T \<and> (\<forall>fmt args. parse_conversion (48 # 56 # 120 # fmt) args = Some (c, 120 # fmt, args))"
  "\<exists>c. conv c = INT_T \<and> (\<forall>fmt args. parse_conversion (48 # 52 # 120 # fmt) args = Some (c, 120 # fmt, args))"
  "\<exists>c. conv c = SHORT_T \<and> (\<forall>fmt args. parse_conversion (48 # 52 # 104 # 120 # fmt) args = Some (c, 120 # fmt, args))"
  by (simp_all add: parse_conversion_def parse_width_def parse_precision_def parse_type_def isdigit_def to_int_def Let_def
      flag_def POUND_def ZERO_def MINUS_def PLUS_def SPACE_def)

lemma conv_hex: "conv c \<in> {INT_T, SHORT_T} \<Longrightarrow> \<exists>p. \<forall>args. conv_text ut 120 c (A32 v # args) = Some (p, args)"
  by (auto simp: conv_text_def unsigned_arg_def)

lemma text_of_hex:
  "\<exists>p. \<forall>fmt args. text_of ut (37 # 35 # 48 # 52 # 120 # fmt) (A32 v # args) = do { t \<leftarrow> text_of ut fmt args; Some (p @ t) }"
  "\<exists>p. \<forall>fmt args. text_of ut (37 # 48 # 56 # 120 # fmt) (A32 v # args) = do { t \<leftarrow> text_of ut fmt args; Some (p @ t) }"
  "\<exists>p. \<forall>fmt args. text_of ut (37 # 48 # 52 # 120 # fmt) (A32 v # args) = do { t \<leftarrow> text_of ut fmt args; Some (p @ t) }"
  "\<exists>p. \<forall>fmt args. text_of ut (37 # 48 # 52 # 104 # 120 # fmt) (A32 v # args) = do { t \<leftarrow> text_of ut fmt args; Some (p @ t) }"
proof -
  have hex: "\<exists>p. \<forall>fmt args. text_of ut (37 # ch # r @ fmt) (A32 v # args) = do { t \<leftarrow> text_of ut fmt args; Some (p @ t) }"
    if "\<exists>c. conv c \<in> {INT_T, SHORT_T} \<and> (\<forall>fmt args. parse_conversion (ch # r @ fmt) args = Some (c, 120 # fmt, args))" "ch \<noteq> 37" for ch r
  proof -
    from that(1) obtain c where c: "conv c \<in> {INT_T, SHORT_T}" "\<forall>fmt args. parse_conversion (ch # r @ fmt) args = Some (c, 120 # fmt, args)" by blast
    from conv_hex [OF c(1)] obtain p where "\<forall>args. conv_text ut 120 c (A32 v # args) = Some (p, args)" by blast
    then show ?thesis using loop_conversion(2) [OF that(2) c(2) [rule_format]] by auto
  qed
  show "\<exists>p. \<forall>fmt args. text_of ut (37 # 35 # 48 # 52 # 120 # fmt) (A32 v # args) = do { t \<leftarrow> text_of ut fmt args; Some (p @ t) }"
    using hex [of 35 "[48, 52, 120]"] parse_hex(1) by auto
  show "\<exists>p. \<forall>fmt args. text_of ut (37 # 48 # 56 # 120 # fmt) (A32 v # args) = do { t \<leftarrow> text_of ut fmt args; Some (p @ t) }"
    using hex [of 48 "[56, 120]"] parse_hex(2) by auto
  show "\<exists>p. \<forall>fmt args. text_of ut (37 # 48 # 52 # 120 # fmt) (A32 v # args) = do { t \<leftarrow> text_of ut fmt args; Some (p @ t) }"
    using hex [of 48 "[52, 120]"] parse_hex(3) by auto
  show "\<exists>p. \<forall>fmt args. text_of ut (37 # 48 # 52 # 104 # 120 # fmt) (A32 v # args) = do { t \<leftarrow> text_of ut fmt args; Some (p @ t) }"
    using hex [of 48 "[52, 104, 120]"] parse_hex(4) by auto
qed

lemma lit_cstr: "0 \<notin> set (map of_char t :: byte list) \<Longrightarrow> cstr (map of_char t) (lit t)"
  by (simp add: cstr_def lit_def)

lemma fault_words:
  "cstr (map of_char ''not present'') (lit ''not present'')" "cstr (map of_char ''rights violation'') (lit ''rights violation'')"
  "cstr (map of_char ''writing'') (lit ''writing'')" "cstr (map of_char ''reading'') (lit ''reading'')"
  "cstr (map of_char ''user'') (lit ''user'')" "cstr (map of_char ''kernel'') (lit ''kernel'')"
  by (rule lit_cstr, simp)+

lemma fault_message_spec:
  assumes "printable s"
  shows "\<exists>t. fault_message va np wr us s = Some (s\<lparr>console := wrote t (console s)\<rparr>)"
proof -
  obtain p where p: "\<forall>fmt args. text_of unsupported_text (37 # 112 # fmt) (A32 va # args) = do { t \<leftarrow> text_of unsupported_text fmt args; Some (p @ t) }"
    using text_of_pointer by blast
  have "\<exists>t. printf_text (lit ''Page fault at %p: %s error %s page in %s context.\<newline>'')
       [A32 va, AStr (Some (lit (if np then ''not present'' else ''rights violation''))),
        AStr (Some (lit (if wr then ''writing'' else ''reading''))), AStr (Some (lit (if us then ''user'' else ''kernel'')))] = Some t"
  proof -
    obtain x y z where "cstr x (lit (if np then ''not present'' else ''rights violation''))" "length x < 2 ^ 31"
      "cstr y (lit (if wr then ''writing'' else ''reading''))" "length y < 2 ^ 31" "cstr z (lit (if us then ''user'' else ''kernel''))" "length z < 2 ^ 31"
      by (rule that [of "map of_char (if np then ''not present'' else ''rights violation'')" "map of_char (if wr then ''writing'' else ''reading'')"
            "map of_char (if us then ''user'' else ''kernel'')"]) (use fault_words in auto)
    then show ?thesis using p by (simp add: printf_text_def lit_simps(2) [of _ "_ # _"] lit_simps text_of_chars text_of_string)
  qed
  then show ?thesis using kprintf_spec [OF assms] unfolding fault_message_def by blast
qed

lemma printf_hex:
  assumes "console_ok me ictx c" and "cstr n name" and "length n < 2 ^ 31"
  shows "\<exists>t. printf me ictx (lit ''Interrupt %#04x (%s) at eip=%p\<newline>'') [A32 v1, AStr (Some name), A32 v2] c = Some (of_nat (length t), wrote t c)"
    "\<exists>t. printf me ictx (lit '' cr2=%08x error=%08x\<newline>'') [A32 v1, A32 v2] c = Some (of_nat (length t), wrote t c)"
    "\<exists>t. printf me ictx (lit '' eax=%08x ebx=%08x ecx=%08x edx=%08x\<newline>'') [A32 v1, A32 v2, A32 v3, A32 v4] c = Some (of_nat (length t), wrote t c)"
    "\<exists>t. printf me ictx (lit '' esi=%08x edi=%08x esp=%08x ebp=%08x\<newline>'') [A32 v1, A32 v2, A32 v3, A32 v4] c = Some (of_nat (length t), wrote t c)"
    "\<exists>t. printf me ictx (lit '' cs=%04hx ds=%04hx es=%04hx ss=%04hx\<newline>'') [A32 v1, A32 v2, A32 v3, A32 v4] c = Some (of_nat (length t), wrote t c)"
proof -
  obtain P where P: "\<And>v fmt args. text_of unsupported_text (37 # 112 # fmt) (A32 v # args) = do { t \<leftarrow> text_of unsupported_text fmt args; Some (P v @ t) }"
    using text_of_pointer by metis
  obtain H where H: "\<And>v fmt args. text_of unsupported_text (37 # 35 # 48 # 52 # 120 # fmt) (A32 v # args) = do { t \<leftarrow> text_of unsupported_text fmt args; Some (H v @ t) }"
    using text_of_hex(1) by metis
  obtain W where W: "\<And>v fmt args. text_of unsupported_text (37 # 48 # 56 # 120 # fmt) (A32 v # args) = do { t \<leftarrow> text_of unsupported_text fmt args; Some (W v @ t) }"
    using text_of_hex(2) by metis
  obtain S where S: "\<And>v fmt args. text_of unsupported_text (37 # 48 # 52 # 104 # 120 # fmt) (A32 v # args) = do { t \<leftarrow> text_of unsupported_text fmt args; Some (S v @ t) }"
    using text_of_hex(4) by metis
  note T = printf_text_def lit_simps text_of_chars text_of_string [OF assms(2,3)] P H W S
  have pr: "\<exists>t. printf me ictx (lit fmt) args c = Some (of_nat (length t), wrote t c)" if "\<exists>t. printf_text (lit fmt) args = Some t" for fmt args
    using that printf_spec [OF assms(1)] by blast
  show "\<exists>t. printf me ictx (lit ''Interrupt %#04x (%s) at eip=%p\<newline>'') [A32 v1, AStr (Some name), A32 v2] c = Some (of_nat (length t), wrote t c)"
    by (rule pr) (simp add: T)
  show "\<exists>t. printf me ictx (lit '' cr2=%08x error=%08x\<newline>'') [A32 v1, A32 v2] c = Some (of_nat (length t), wrote t c)"
    by (rule pr) (simp add: T)
  show "\<exists>t. printf me ictx (lit '' eax=%08x ebx=%08x ecx=%08x edx=%08x\<newline>'') [A32 v1, A32 v2, A32 v3, A32 v4] c = Some (of_nat (length t), wrote t c)"
    by (rule pr) (simp add: T)
  show "\<exists>t. printf me ictx (lit '' esi=%08x edi=%08x esp=%08x ebp=%08x\<newline>'') [A32 v1, A32 v2, A32 v3, A32 v4] c = Some (of_nat (length t), wrote t c)"
    by (rule pr) (simp add: T)
  show "\<exists>t. printf me ictx (lit '' cs=%04hx ds=%04hx es=%04hx ss=%04hx\<newline>'') [A32 v1, A32 v2, A32 v3, A32 v4] c = Some (of_nat (length t), wrote t c)"
    by (rule pr) (simp add: T)
qed

lemma intr_dump_frame_spec:
  assumes ok: "console_ok me False c" and names: "names_ok ist" and v: "unat (vec_no f) < 256"
  shows "\<exists>t. intr_dump_frame me cr2 f ist c = Some (wrote t c)"
proof -
  obtain n where n: "cstr n (intr_names ist ! unat (vec_no f))" "length n < 2 ^ 31" and ic: "\<not> intr_context ist"
    using names v unfolding names_ok_def by blast
  let ?p = "\<lambda>fmt args c. map_option snd (printf me (intr_context ist) (lit fmt) args c)"
  obtain t1 where 1: "?p ''Interrupt %#04x (%s) at eip=%p\<newline>'' [A32 (vec_no f), AStr (Some (intr_names ist ! unat (vec_no f))), A32 (eip f)] c = Some (wrote t1 c)"
    using printf_hex(1) [OF ok n] ic by fastforce
  obtain t2 where 2: "?p '' cr2=%08x error=%08x\<newline>'' [A32 cr2, A32 (error_code f)] (wrote t1 c) = Some (wrote t2 (wrote t1 c))"
    using printf_hex(2) [of me False "wrote t1 c", OF _ n] ok ic by fastforce
  obtain t3 where 3: "?p '' eax=%08x ebx=%08x ecx=%08x edx=%08x\<newline>'' [A32 (eax f), A32 (ebx f), A32 (ecx f), A32 (edx f)] (wrote t2 (wrote t1 c)) = Some (wrote t3 (wrote t2 (wrote t1 c)))"
    using printf_hex(3) [of me False "wrote t2 (wrote t1 c)", OF _ n] ok ic by fastforce
  obtain t4 where 4: "?p '' esi=%08x edi=%08x esp=%08x ebp=%08x\<newline>'' [A32 (esi f), A32 (edi f), A32 (esp f), A32 (ebp f)] (wrote t3 (wrote t2 (wrote t1 c))) = Some (wrote t4 (wrote t3 (wrote t2 (wrote t1 c))))"
    using printf_hex(4) [of me False "wrote t3 (wrote t2 (wrote t1 c))", OF _ n] ok ic by fastforce
  obtain t5 where 5: "?p '' cs=%04hx ds=%04hx es=%04hx ss=%04hx\<newline>'' [A32 (ucast (cs f)), A32 (ucast (ds f)), A32 (ucast (es f)), A32 (ucast (ss f))] (wrote t4 (wrote t3 (wrote t2 (wrote t1 c))))
      = Some (wrote t5 (wrote t4 (wrote t3 (wrote t2 (wrote t1 c)))))"
    using printf_hex(5) [of me False "wrote t4 (wrote t3 (wrote t2 (wrote t1 c)))", OF _ n] ok ic by fastforce
  have all: "wrote t5 (wrote t4 (wrote t3 (wrote t2 (wrote t1 c)))) = wrote (t1 @ t2 @ t3 @ t4 @ t5) c" by simp
  show ?thesis unfolding intr_dump_frame_def Let_def using v by (auto simp: INTR_CNT_def 1 2 3 4 5 all simp del: wrote_append)
qed

lemma kill_spec:
  assumes "printable s" and "names_ok ist" and "unat (vec_no f) < 256" and "unat (cs f) = SEL_UCSEG"
  shows "\<exists>t. kill ist cr2 f s = Some (Leave, s\<lparr>console := wrote t (console s)\<rparr>)"
proof -
  obtain H where H: "\<And>v fmt args. text_of unsupported_text (37 # 35 # 48 # 52 # 120 # fmt) (A32 v # args) = do { t \<leftarrow> text_of unsupported_text fmt args; Some (H v @ t) }"
    using text_of_hex(1) by metis
  obtain n where n: "cstr n (intr_names ist ! unat (vec_no f))" "length n < 2 ^ 31" using assms(2,3) unfolding names_ok_def by blast
  obtain nm where nm: "cstr nm (thread_name (thread_current s))" "length nm < 2 ^ 31" using assms(1) by (auto simp: printable_def)
  have "\<exists>t. printf_text (lit ''%s: dying due to interrupt %#04x (%s).\<newline>'') [AStr (Some (thread_name (thread_current s))), A32 (vec_no f),
      AStr (Some (intr_name (unat (vec_no f) mod 256) ist))] = Some t"
    using assms(3) by (simp add: text_rules(1,2,3,4,5,6,7) text_of_chars text_of_string [OF n] text_of_string [OF nm] H intr_name_def)
  then obtain t where t: "kprintf ''%s: dying due to interrupt %#04x (%s).\<newline>'' [AStr (Some (thread_name (thread_current s))), A32 (vec_no f),
      AStr (Some (intr_name (unat (vec_no f) mod 256) ist))] s = Some (s\<lparr>console := wrote t (console s)\<rparr>)"
    using kprintf_spec [OF assms(1)] by blast
  obtain u where "intr_dump_frame (current s) cr2 f ist (wrote t (console s)) = Some (wrote u (wrote t (console s)))"
    using intr_dump_frame_spec [OF _ assms(2,3), of "current s" "wrote t (console s)"] assms(1) by (auto simp: printable_def)
  then show ?thesis using t assms(4) by (auto simp: kill_def)
qed

section \<open>Page faults\<close>

lemma calm_other:
  assumes inv: "vm_inv s" and eq: "mem s' = mem s" "swap s' = swap s" "files s' = files s" "frame_table s' = frame_table s" "sptes s' = sptes s"
    "next_spte s' = next_spte s" "same_tables s s'"
  shows "vm_inv s'" "same_view s s'" "live s' = live s" "entry s' p a e = entry s p a e" "entry_map s' p e = entry_map s p e"
proof -
  have c: "calm s s'" using eq mem_calm_refl [OF inv] vm_invD(3) [OF inv] by (simp add: calm_def)
  show "vm_inv s'" "same_view s s'" "entry s' p a e = entry s p a e" using calm_inv [OF inv c] by auto
  show "live s' = live s" "entry_map s' p e = entry_map s p e" using same_tables_simps [OF eq(7)] eq(1) by (simp_all add: entry_map_def)
qed

text \<open>A fault on a page that the supplementary page table knows and that is not in memory.\<close>

lemma fault_known:
  assumes run: "running s" and rm: "room s" and pr: "printable s" "names_ok ist" "unat (vec_no f) < 256" "unat (cs f) = SEL_UCSEG"
    and np: "error_code f AND PF_P = 0" and va: "is_user_vaddr va" and e: "entry s (current s) a e" "user_vaddr e = pg_round_down va" "\<not> loaded e"
  shows "\<exists>out s'. page_fault ist va f s = Some (out, s') \<and> vm_inv s' \<and> same_view s s' \<and> live s' = live s \<and> current s' = current s
    \<and> (out = Leave \<longrightarrow> kernel_full (mem s'))
    \<and> (out = Ret () \<longrightarrow> running s' \<and> is_exited (thread_current s') = is_exited (thread_current s) \<and> (\<exists>e' w. entry s' (current s) a e' \<and> user_vaddr e' = user_vaddr e \<and> page_writable e' = page_writable e
         \<and> entry_map s' (current s) e' = Some w))"
proof -
  have inv: "vm_inv s" and lk: "\<not> lock_frame s" and cl: "current s \<in> live s" using run by (simp_all add: running_def)
  define s1 where "s1 = s\<lparr>page_fault_cnt := page_fault_cnt s + 1\<rparr>"
  have o1: "vm_inv s1" "same_view s s1" "live s1 = live s" "entry s1 p x y = entry s p x y" for p x y
    by (rule calm_other [OF inv]; simp add: s1_def same_tables_def)+
  have e1: "entry s1 (current s1) a e" using e(1) o1(4) by (simp add: s1_def)
  have rm1: "\<not> swap_full (swap s1)" "frame_table s1 \<noteq> [] \<or> \<not> users_full (mem s1)" using rm by (auto simp: room_def s1_def)
  have "\<not> lock_frame s1" using lk by (simp add: s1_def)
  from page_handling_spec [OF o1(1) this e1 e(3) rm1] obtain b s2 where h: "page_handling a s1 = Some (b, s2)" "handled s1 a e b s2" by blast
  have env: "vm_inv s2" "same_view s1 s2" "threads s2 = threads s" "current s2 = current s" "console s2 = console s" "lock_frame s2 = lock_frame s" "cr3 (mem s2) = cr3 (mem s)"
    using h(2) by (simp_all add: handled_def same_env_def s1_def)
  have sv: "same_view s s2" by (rule same_view_trans [OF o1(2) env(2) o1(3)])
  have lv: "live s2 = live s" by (simp add: live_def env)
  have find: "find_page va s1 = Some (Some a)"
  proof (rule find_entry [OF o1(1), of "current s1" "pg_round_down va"])
    show "current s1 \<in> live s1" using cl o1(3) by (simp add: s1_def)
  next
    assume "\<nexists>a e. entry s1 (current s1) a e \<and> user_vaddr e = pg_round_down va"
    then show ?thesis using e1 e(2) by blast
  next
    fix c ec assume c: "find_spte (pg_round_down va) (sptes s1) (sup_page_table (threads s1 (current s1))) = Some (Some c)" "entry s1 (current s1) c ec" "user_vaddr ec = pg_round_down va"
    then have "a = c" using inv_same_page [OF o1(1) e1 c(2)] e(2) by simp
    then show ?thesis using c(1) by (simp add: find_page_def thread_current_def)
  qed
  show ?thesis
  proof (cases b)
    case True
    from h(2) True obtain e' fr where e': "entry s2 (current s1) a e'" "user_vaddr e' = user_vaddr e"
      "entry_map s2 (current s1) e' = Some (pt_entry fr (user_flags (page_writable e)))" "kpage_ok fr" by (auto simp: handled_def)
    have wr: "page_writable e' = page_writable e" using inv_entry(1) [OF env(1) e'(1)] e'(3) entry_frame(3) [OF e'(4)] by (auto simp: spte_ok_def)
    have "current s1 = current s" by (simp add: s1_def)
    then have ex: "\<exists>e' w. entry s2 (current s) a e' \<and> user_vaddr e' = user_vaddr e \<and> page_writable e' = page_writable e \<and> entry_map s2 (current s) e' = Some w"
      using e'(1-3) wr by metis
    have "running s2" using run env lv by (simp add: running_def active_pd_def)
    moreover have "page_fault ist va f s = Some (Ret (), s2)" using find h(1) True va np unfolding s1_def by (simp add: page_fault_def)
    moreover have "thread_current s2 = thread_current s" by (simp add: thread_current_def env)
    ultimately show ?thesis using ex env(1,4) sv lv by (intro exI [of _ "Ret ()"] exI [of _ s2]) simp
  next
    case False
    have kf: "kernel_full (mem s2)" using h(2) False by (simp add: handled_def)
    have p2: "printable s2" using pr(1) env by (simp add: printable_def thread_current_def)
    from fault_message_spec [OF p2] obtain t where t: "fault_message va True (error_code f AND PF_W \<noteq> 0) (error_code f AND PF_U \<noteq> 0) s2 = Some (s2\<lparr>console := wrote t (console s2)\<rparr>)" by blast
    let ?s3 = "s2\<lparr>console := wrote t (console s2)\<rparr>"
    have "printable ?s3" using p2 by simp
    from kill_spec [OF this pr(2-4)] obtain u where u: "kill ist va f ?s3 = Some (Leave, ?s3\<lparr>console := wrote u (console ?s3)\<rparr>)" by blast
    let ?s4 = "?s3\<lparr>console := wrote u (console ?s3)\<rparr>"
    have o4: "vm_inv ?s4" "same_view s2 ?s4" "live ?s4 = live s2"
      by (rule calm_other [OF env(1)]; simp add: same_tables_def)+
    have "same_view s ?s4" by (rule same_view_trans [OF sv o4(2) lv])
    then show ?thesis
      using find h(1) False va np t u kf o4(1,3) lv env(4) unfolding s1_def by (intro exI [of _ Leave] exI [of _ ?s4]) (simp add: page_fault_def)
  qed
qed

text \<open>A fault at the stack: the page is new.\<close>

lemma fault_new:
  assumes run: "running s" and rm: "room s" and pr: "printable s" "names_ok ist" "unat (vec_no f) < 256" "unat (cs f) = SEL_UCSEG"
    and np: "error_code f AND PF_P = 0" and va: "is_user_vaddr va" and new: "\<nexists>a e. entry s (current s) a e \<and> user_vaddr e = pg_round_down va"
    and stack: "unat (PHYS_BASE - pg_round_down va) \<le> LIMIT" "va \<ge> esp f - SIZE"
  shows "\<exists>out s'. page_fault ist va f s = Some (out, s') \<and> vm_inv s' \<and> live s' = live s \<and> current s' = current s
    \<and> (out = Leave \<longrightarrow> kernel_full (mem s') \<and> same_view s s')
    \<and> (out = Ret () \<longrightarrow> running s' \<and> (\<exists>bs. length bs = PGSIZE
          \<and> (\<forall>q \<in> live s. \<forall>x. user_page s' q x = (if q = current s \<and> x = pg_round_down va then Some bs else user_page s q x)))
        \<and> (\<exists>a e w. entry s' (current s) a e \<and> user_vaddr e = pg_round_down va \<and> page_writable e \<and> entry_map s' (current s) e = Some w))"
proof -
  have inv: "vm_inv s" and lk: "\<not> lock_frame s" and cl: "current s \<in> live s" using run by (simp_all add: running_def)
  define s1 where "s1 = s\<lparr>page_fault_cnt := page_fault_cnt s + 1\<rparr>"
  define s2 where "s2 = s1\<lparr>lock_frame := True\<rparr>"
  have o2: "vm_inv s2" "same_view s s2" "live s2 = live s" "entry s2 p x y = entry s p x y" for p x y
    by (rule calm_other [OF inv]; simp add: s2_def s1_def same_tables_def)+
  have f2: "current s2 = current s" "threads s2 = threads s" "console s2 = console s" "cr3 (mem s2) = cr3 (mem s)" by (simp_all add: s2_def s1_def)
  have rm2: "\<not> swap_full (swap s2)" "frame_table s2 \<noteq> [] \<or> \<not> users_full (mem s2)" using rm by (auto simp: room_def s2_def s1_def)
  have "current s2 \<in> live s2" "\<nexists>a e. entry s2 (current s2) a e \<and> user_vaddr e = pg_round_down va" using cl new o2 f2 by simp_all
  from grow_stack_spec [OF o2(1) this(1) va _ this(2) rm2, of PAGE_FAULT] obtain b s3 where
    g: "grow_stack va PAGE_FAULT s2 = Some (b, s3)" "grown s2 (pg_round_down va) PAGE_FAULT b s3" by blast
  have env: "vm_inv s3" "live s3 = live s" "current s3 = current s" "lock_frame s3" "console s3 = console s" "cr3 (mem s3) = cr3 (mem s)"
    using g(2) by (simp_all add: grown_def o2(3) f2) (simp add: s2_def)
  obtain spt where th: "threads s3 = (threads s)(current s := (threads s (current s))\<lparr>sup_page_table := spt\<rparr>)"
    using g(2) f2 by (auto simp: grown_def)
  define s4 where "s4 = s3\<lparr>lock_frame := False\<rparr>"
  have o4: "vm_inv s4" "same_view s3 s4" "live s4 = live s3" "entry s4 p x y = entry s3 p x y" "entry_map s4 p y = entry_map s3 p y" for p x y
    by (rule calm_other [OF env(1)]; simp add: s4_def same_tables_def)+
  have find: "find_page va s1 = Some None"
    by (rule find_entry [OF inv cl, of "pg_round_down va"]) (use new in \<open>auto simp: find_page_def s1_def thread_current_def\<close>)
  have acq: "acquire_frame_lock s1 = Some s2" "release_frame_lock s3 = Some s4"
    using lk env(4) by (simp_all add: acquire_frame_lock_def release_frame_lock_def s2_def s4_def) (simp add: s1_def)
  show ?thesis
  proof (cases b)
    case True
    have "page_fault ist va f s = Some (Ret (), s4)"
      using find acq g(1) True va np stack unfolding s1_def by (simp add: page_fault_def)
    moreover have "running s4" using o4 env th run f2 by (simp add: running_def active_pd_def s4_def live_def)
    moreover obtain bs where bs: "length bs = PGSIZE" "\<forall>q \<in> live s2. \<forall>x. user_page s3 q x = (if q = current s2 \<and> x = pg_round_down va then Some bs else user_page s2 q x)"
      using g(2) True by (auto simp: grown_def)
    moreover have "\<forall>q \<in> live s. \<forall>x. user_page s4 q x = (if q = current s \<and> x = pg_round_down va then Some bs else user_page s q x)"
      using bs(2) o2(2,3) o4(2) env(2) f2(1) by (simp add: same_view_def)
    moreover have "\<exists>a e w. entry s4 (current s) a e \<and> user_vaddr e = pg_round_down va \<and> page_writable e \<and> entry_map s4 (current s) e = Some w"
      using g(2) True f2(1) unfolding grown_def o4 by auto
    ultimately show ?thesis using o4(1,3) env by (intro exI [of _ "Ret ()"] exI [of _ s4]) (auto simp: s4_def)
  next
    case False
    have kf: "kernel_full (mem s4)" "same_view s2 s3" using g(2) False by (simp_all add: grown_def s4_def)
    have p4: "printable s4" using pr(1) env th by (simp add: printable_def thread_current_def s4_def)
    from fault_message_spec [OF p4] obtain t where t: "fault_message va True (error_code f AND PF_W \<noteq> 0) (error_code f AND PF_U \<noteq> 0) s4 = Some (s4\<lparr>console := wrote t (console s4)\<rparr>)" by blast
    let ?s5 = "s4\<lparr>console := wrote t (console s4)\<rparr>"
    have "printable ?s5" using p4 by simp
    from kill_spec [OF this pr(2-4)] obtain u where u: "kill ist va f ?s5 = Some (Leave, ?s5\<lparr>console := wrote u (console ?s5)\<rparr>)" by blast
    let ?s6 = "?s5\<lparr>console := wrote u (console ?s5)\<rparr>"
    have o6: "vm_inv ?s6" "same_view s4 ?s6" "live ?s6 = live s4"
      by (rule calm_other [OF o4(1)]; simp add: same_tables_def)+
    have "same_view s ?s6" using o2(2,3) kf(2) o4(2) o6(2) o4(3) env(2) by (simp add: same_view_def)
    moreover have "page_fault ist va f s = Some (Leave, ?s6)"
      using find acq g(1) False va np stack t u unfolding s1_def by (simp add: page_fault_def)
    ultimately show ?thesis
      using kf(1) o6(1,3) o4(3) env(2,3) by (intro exI [of _ Leave] exI [of _ ?s6]) (simp add: s4_def)
  qed
qed

text \<open>Every other fault ends the process.\<close>

lemma fault_exit:
  assumes "is_user_vaddr va \<and> error_code f AND PF_P = 0 \<longrightarrow> running s \<and> (\<nexists>a e. entry s (current s) a e \<and> user_vaddr e = pg_round_down va)
      \<and> (unat (PHYS_BASE - pg_round_down va) > LIMIT \<or> va < esp f - SIZE)"
  shows "page_fault ist va f s = sys_exit (- 1) (s\<lparr>page_fault_cnt := page_fault_cnt s + 1\<rparr>)"
proof (cases "is_user_vaddr va \<and> error_code f AND PF_P = 0")
  case True
  then have inv: "vm_inv s" "current s \<in> live s" and new: "\<nexists>a e. entry s (current s) a e \<and> user_vaddr e = pg_round_down va"
    using assms by (auto simp: running_def)
  have "find_page va (s\<lparr>page_fault_cnt := page_fault_cnt s + 1\<rparr>) = Some None"
    by (rule find_entry [OF inv, of "pg_round_down va"]) (use new in \<open>auto simp: find_page_def thread_current_def\<close>)
  then show ?thesis using assms True by (auto simp: page_fault_def Let_def not_le)
next
  case False
  then show ?thesis by (auto simp: page_fault_def Let_def)
qed

section \<open>Accesses with their faults\<close>

lemma access_done: "attempt wr user va s = Some (Inr (b, s')) \<Longrightarrow> access_byte wr user ist f va s = Some (Ret b, s')"
  by (subst access_byte.simps) simp

lemma access_fault:
  assumes "attempt wr user va s = Some (Inl code)" and "page_fault ist va (f\<lparr>error_code := code, vec_no := 14\<rparr>) s = Some (out, s')"
  shows "access_byte wr user ist f va s = (case out of Leave \<Rightarrow> Some (Leave, s') | Ret _ \<Rightarrow> access_byte wr user ist f va s')"
  using assms by (subst access_byte.simps) simp

lemma fault_code_P: "fault_code False wr user AND PF_P = 0" "fault_code True wr user AND PF_P \<noteq> 0"
  by (simp_all add: fault_code_def PF_P_def PF_W_def PF_U_def)

lemma attempt_absent:
  assumes "running s" and "page_map (mem s) (pagedir (threads s (current s))) va = None"
  shows "attempt wr user va s = Some (Inl (fault_code False (wr \<noteq> None) user))"
  using assms by (simp add: attempt_def running_def)

definition ready :: "handler intr_state \<Rightarrow> intr_frame \<Rightarrow> kstate \<Rightarrow> bool" where
  "ready ist f s \<longleftrightarrow> running s \<and> room s \<and> printable s \<and> names_ok ist \<and> unat (cs f) = SEL_UCSEG"

lemma byte_entry:
  assumes "running s" and "user_byte s (current s) va = Some b"
  obtains a e where "entry s (current s) a e" "user_vaddr e = pg_round_down va" "is_user_vaddr va" "b = page_view s (current s) e ! unat (pg_ofs va)"
proof -
  have inv: "vm_inv s" "current s \<in> live s" using assms(1) by (simp_all add: running_def)
  have va: "is_user_vaddr va" using assms(2) by (cases "is_user_vaddr va") (simp_all add: user_byte_def)
  obtain bs where bs: "user_page s (current s) (pg_round_down va) = Some bs" "b = bs ! unat (pg_ofs va)"
    using assms(2) va unfolding user_byte_def by (cases "user_page s (current s) (pg_round_down va)") simp_all
  have "\<exists>a e. entry s (current s) a e \<and> user_vaddr e = pg_round_down va" using user_page_None [OF inv] bs(1) by force
  then obtain a e where e: "entry s (current s) a e" "user_vaddr e = pg_round_down va" by blast
  then show thesis using that va bs user_page_entry [OF inv(1) e(1)] by simp
qed

lemma no_byte:
  assumes "running s" and "user_byte s (current s) va = None" and "is_user_vaddr va"
  shows "\<nexists>a e. entry s (current s) a e \<and> user_vaddr e = pg_round_down va"
proof
  assume "\<exists>a e. entry s (current s) a e \<and> user_vaddr e = pg_round_down va"
  then obtain a e where e: "entry s (current s) a e" "user_vaddr e = pg_round_down va" by blast
  show False using user_page_entry [OF _ e(1)] e(2) assms by (simp add: running_def user_byte_def)
qed

lemma same_view_byte: "same_view s s' \<Longrightarrow> q \<in> live s \<Longrightarrow> user_byte s' q x = user_byte s q x"
  by (simp add: same_view_def user_byte_def)

lemma absent_entry:
  assumes run: "running s" and va: "is_user_vaddr va" and e: "entry s (current s) a e" "user_vaddr e = pg_round_down va"
  shows "entry_map s (current s) e = page_map (mem s) (pagedir (threads s (current s))) va" "loaded e \<longleftrightarrow> entry_map s (current s) e \<noteq> None"
proof -
  note ie = inv_entry [OF _ e(1)]
  have inv: "vm_inv s" using run by (simp add: running_def)
  show "entry_map s (current s) e = page_map (mem s) (pagedir (threads s (current s))) va"
    using page_map_page [OF inv_entry(3) [OF inv e(1)], of va] e(2) by (simp add: entry_map_def)
  show "loaded e \<longleftrightarrow> entry_map s (current s) e \<noteq> None" using inv_entry(1) [OF inv e(1)] by (simp add: spte_ok_def)
qed

text \<open>A byte of a page is decided by its page and its offset.\<close>

lemma byte_update:
  assumes "length pg = PGSIZE" and "pg_round_down x = pg_round_down va"
  shows "pg[unat (pg_ofs va) := b] ! unat (pg_ofs x) = (if x = va then b else pg ! unat (pg_ofs x))"
proof -
  have "unat (pg_ofs y) < PGSIZE" for y by (simp add: unat_pg_ofs PGSIZE_def)
  moreover have "x = va" if "unat (pg_ofs x) = unat (pg_ofs va)" using pg_split [of x] pg_split [of va] assms(2) that by (simp add: word_unat_eq_iff [symmetric])
  ultimately show ?thesis using assms(1) by (auto simp: nth_list_update)
qed

lemma page_byte:
  assumes "\<forall>q \<in> live s. \<forall>x. user_page s' q x = (if q = p \<and> x = pg_round_down va then Some (pg[unat (pg_ofs va) := b]) else user_page s q x)"
    and "user_page s p (pg_round_down va) = Some pg" and "length pg = PGSIZE" and "is_user_vaddr va" and "q \<in> live s"
  shows "user_byte s' q x = (if q = p \<and> x = va then Some b else user_byte s q x)"
  using assms byte_update [OF assms(3), of x va b] by (auto simp: user_byte_def)

lemma load_known:
  assumes rd: "ready ist f s" and va: "is_user_vaddr va" and e: "entry s (current s) a e" "user_vaddr e = pg_round_down va"
  shows "\<exists>out s'. access_byte None True ist f va s = Some (out, s') \<and> vm_inv s' \<and> same_view s s'
     \<and> (out = Ret (page_view s (current s) e ! unat (pg_ofs va)) \<and> running s' \<or> out = Leave \<and> kernel_full (mem s'))"
proof -
  have run: "running s" and pr: "room s" "printable s" "names_ok ist" "unat (cs f) = SEL_UCSEG" using rd by (auto simp: ready_def)
  have here: "\<exists>m. access_byte None True ist f va t = Some (Ret (page_view t (current t) e1 ! unat (pg_ofs va)), t\<lparr>mem := m\<rparr>)
      \<and> running (t\<lparr>mem := m\<rparr>) \<and> same_view t (t\<lparr>mem := m\<rparr>)"
    if t: "running t" "entry t (current t) a1 e1" "user_vaddr e1 = pg_round_down va" "entry_map t (current t) e1 = Some w" for t a1 e1 w
    using attempt_load [OF t(1) va t(2-4), of True] t(4) access_done by (fastforce simp: page_view_def)
  show ?thesis
  proof (cases "entry_map s (current s) e")
    case (Some w)
    from here [OF run e this] show ?thesis by (auto simp: running_def)
  next
    case None
    note ab = absent_entry [OF run va e]
    let ?f = "f\<lparr>error_code := fault_code False False True, vec_no := 14\<rparr>"
    have at: "attempt None True va s = Some (Inl (fault_code False False True))" using attempt_absent [OF run] ab(1) None by simp
    from fault_known [OF run pr(1-3), of ?f, OF _ _ _ va e] pr(4) fault_code_P(1) ab(2) None obtain out s' where
      pf: "page_fault ist va ?f s = Some (out, s')" "vm_inv s'" "same_view s s'" "live s' = live s" "current s' = current s" "out = Leave \<longrightarrow> kernel_full (mem s')"
      "out = Ret () \<longrightarrow> running s' \<and> (\<exists>e' w. entry s' (current s) a e' \<and> user_vaddr e' = user_vaddr e \<and> entry_map s' (current s) e' = Some w)"
      by auto
    show ?thesis
    proof (cases out)
      case Leave
      then show ?thesis using access_fault [OF at pf(1)] pf by auto
    next
      case (Ret u)
      then obtain e' w where e': "running s'" "entry s' (current s') a e'" "user_vaddr e' = pg_round_down va" "entry_map s' (current s') e' = Some w"
        using pf(5,7) e(2) by auto
      have "page_view s' (current s') e' = page_view s (current s) e"
      proof -
        have inv: "vm_inv s" "current s \<in> live s" using run by (simp_all add: running_def)
        show ?thesis using user_page_entry [OF pf(2) e'(2)] user_page_entry [OF inv(1) e(1)] pf(3,5) inv(2) e'(3) e(2) by (simp add: same_view_def)
      qed
      with here [OF e'] obtain m where "access_byte None True ist f va s' = Some (Ret (page_view s (current s) e ! unat (pg_ofs va)), s'\<lparr>mem := m\<rparr>)"
        "running (s'\<lparr>mem := m\<rparr>)" "same_view s' (s'\<lparr>mem := m\<rparr>)" by auto
      moreover from this(3) have "same_view s (s'\<lparr>mem := m\<rparr>)" by (rule same_view_trans [OF pf(3) _ pf(4)])
      ultimately show ?thesis using access_fault [OF at pf(1)] Ret by (auto simp: running_def)
    qed
  qed
qed

text \<open>Storing into a writable page of the process.\<close>

lemma store_here:
  assumes "running t" and "is_user_vaddr va" and e: "entry t (current t) a1 e1" "user_vaddr e1 = pg_round_down va" and w: "entry_map t (current t) e1 = Some w"
    and "page_writable e1"
  shows "\<exists>t'. access_byte (Some b) True ist f va t = Some (Ret b, t') \<and> running t' \<and> (\<exists>m. t' = t\<lparr>mem := m\<rparr>)
      \<and> (\<forall>q \<in> live t. \<forall>x. user_byte t' q x = (if q = current t \<and> x = va then Some b else user_byte t q x))"
proof -
  have inv: "vm_inv t" using assms(1) by (simp add: running_def)
  have "page_view t (current t) e1 = frame_bytes t (frame_of w)" using w by (simp add: page_view_def)
  then have pg: "user_page t (current t) (pg_round_down va) = Some (frame_bytes t (frame_of w))" using user_page_entry [OF inv e(1)] e(2) by simp
  from attempt_store [OF assms, of b True] obtain m where m: "attempt (Some b) True va t = Some (Inr (b, t\<lparr>mem := m\<rparr>))" "running (t\<lparr>mem := m\<rparr>)"
    "\<forall>q \<in> live t. \<forall>x. user_page (t\<lparr>mem := m\<rparr>) q x = (if q = current t \<and> x = pg_round_down va
          then Some ((frame_bytes t (frame_of w))[unat (pg_ofs va) := b]) else user_page t q x)" by blast
  then show ?thesis using access_done [OF m(1)] page_byte [OF m(3) pg inv_mem(5) [OF inv] assms(2)] by blast
qed

lemma store_known:
  assumes rd: "ready ist f s" and va: "is_user_vaddr va" and e: "entry s (current s) a e" "user_vaddr e = pg_round_down va" "page_writable e"
  shows "\<exists>out s'. access_byte (Some b) True ist f va s = Some (out, s') \<and> vm_inv s'
     \<and> (out = Ret b \<and> running s' \<and> (\<forall>q \<in> live s. \<forall>x. user_byte s' q x = (if q = current s \<and> x = va then Some b else user_byte s q x))
        \<or> out = Leave \<and> kernel_full (mem s') \<and> same_view s s')"
proof -
  have run: "running s" and pr: "room s" "printable s" "names_ok ist" "unat (cs f) = SEL_UCSEG" using rd by (auto simp: ready_def)
  show ?thesis
  proof (cases "entry_map s (current s) e")
    case (Some w)
    from store_here [OF run va e(1,2) this e(3), of b ist f] show ?thesis by (auto simp: running_def)
  next
    case None
    note ab = absent_entry [OF run va e(1,2)]
    let ?f = "f\<lparr>error_code := fault_code False True True, vec_no := 14\<rparr>"
    have at: "attempt (Some b) True va s = Some (Inl (fault_code False True True))" using attempt_absent [OF run] ab(1) None by simp
    from fault_known [OF run pr(1-3), of ?f, OF _ _ _ va e(1,2)] pr(4) fault_code_P(1) ab(2) None obtain out s' where
      pf: "page_fault ist va ?f s = Some (out, s')" "vm_inv s'" "same_view s s'" "live s' = live s" "current s' = current s" "out = Leave \<longrightarrow> kernel_full (mem s')"
      "out = Ret () \<longrightarrow> running s' \<and> (\<exists>e' w. entry s' (current s) a e' \<and> user_vaddr e' = user_vaddr e \<and> page_writable e' = page_writable e \<and> entry_map s' (current s) e' = Some w)"
      by auto
    show ?thesis
    proof (cases out)
      case Leave
      then show ?thesis using access_fault [OF at pf(1)] pf by auto
    next
      case (Ret u)
      then obtain e' w where e': "running s'" "entry s' (current s') a e'" "user_vaddr e' = pg_round_down va" "entry_map s' (current s') e' = Some w" "page_writable e'"
        using pf(5,7) e(2,3) by auto
      from store_here [OF e'(1) va e'(2-5), of b ist f] show ?thesis
        using access_fault [OF at pf(1)] Ret pf(4,5) same_view_byte [OF pf(3)] by (auto simp: running_def)
    qed
  qed
qed

lemma access_exit:
  assumes "attempt wr user va s = Some (Inl code)" and "page_fault ist va (f\<lparr>error_code := code, vec_no := 14\<rparr>) s = sys_exit st s1"
    and "\<not> is_exited (thread_current s1)"
  shows "access_byte wr user ist f va s = map_option (\<lambda>(_, s'). (Leave, s')) (sys_exit st s1)"
proof (cases "sys_exit st s1")
  case None
  then show ?thesis using assms(1,2) by (subst access_byte.simps) simp
next
  case (Some r)
  obtain out s' where r: "r = (out, s')" by (cases r)
  have "out = Leave" using Some assms(3)
    by (auto simp: r sys_exit_def thread_current_def upd_current_def Let_def bind_Some_iff split: if_splits)
  then show ?thesis using access_fault [OF assms(1), of ist f out s'] assms(2) Some r by simp
qed

text \<open>Storing into a page that must not be written: the process ends, before any byte has changed.\<close>

lemma store_readonly:
  assumes rd: "ready ist f s" and va: "is_user_vaddr va" and e: "entry s (current s) a e" "user_vaddr e = pg_round_down va" "\<not> page_writable e"
    and ex: "\<not> is_exited (thread_current s)"
  shows "\<exists>s1. vm_inv s1 \<and> same_view s s1 \<and> (access_byte (Some b) True ist f va s = Some (Leave, s1) \<and> kernel_full (mem s1)
     \<or> access_byte (Some b) True ist f va s = map_option (\<lambda>(_, s'). (Leave, s')) (sys_exit (- 1) s1))"
proof -
  have run: "running s" and pr: "room s" "printable s" "names_ok ist" "unat (cs f) = SEL_UCSEG" using rd by (auto simp: ready_def)
  have here: "\<exists>t1. vm_inv t1 \<and> same_view t t1 \<and> access_byte (Some b) True ist f va t = map_option (\<lambda>(_, s'). (Leave, s')) (sys_exit (- 1) t1)"
    if t: "running t" "entry t (current t) a1 e1" "user_vaddr e1 = pg_round_down va" "entry_map t (current t) e1 = Some w" "\<not> page_writable e1"
      "\<not> is_exited (thread_current t)" for t a1 e1 w
  proof -
    have inv: "vm_inv t" using t(1) by (simp add: running_def)
    have "w AND PTE_W = 0" using inv_entry(1) [OF inv t(2)] t(4,5) by (auto simp: spte_ok_def)
    then have at: "attempt (Some b) True va t = Some (Inl (fault_code True True True))"
      using present_page(1) [OF t(1) va t(2-4)] t(1) by (simp add: attempt_def running_def)
    let ?t = "t\<lparr>page_fault_cnt := page_fault_cnt t + 1\<rparr>"
    have pf: "page_fault ist va (f\<lparr>error_code := fault_code True True True, vec_no := 14\<rparr>) t = sys_exit (- 1) ?t"
      by (rule fault_exit) (use fault_code_P(2) in auto)
    have i1: "vm_inv ?t" "same_view t ?t" by (rule calm_other [OF inv]; simp add: same_tables_def)+
    have "access_byte (Some b) True ist f va t = map_option (\<lambda>(_, s'). (Leave, s')) (sys_exit (- 1) ?t)"
      by (rule access_exit [OF at pf]) (use t(6) in \<open>simp add: thread_current_def\<close>)
    then show ?thesis using i1 by blast
  qed
  show ?thesis
  proof (cases "entry_map s (current s) e")
    case (Some w)
    from here [OF run e(1,2) this e(3) ex] show ?thesis by blast
  next
    case None
    note ab = absent_entry [OF run va e(1,2)]
    let ?f = "f\<lparr>error_code := fault_code False True True, vec_no := 14\<rparr>"
    have at: "attempt (Some b) True va s = Some (Inl (fault_code False True True))" using attempt_absent [OF run] ab(1) None by simp
    from fault_known [OF run pr(1-3), of ?f, OF _ _ _ va e(1,2)] pr(4) fault_code_P(1) ab(2) None obtain out s' where
      pf: "page_fault ist va ?f s = Some (out, s')" "vm_inv s'" "same_view s s'" "live s' = live s" "current s' = current s" "out = Leave \<longrightarrow> kernel_full (mem s')"
      "out = Ret () \<longrightarrow> running s' \<and> is_exited (thread_current s') = is_exited (thread_current s) \<and> (\<exists>e' w. entry s' (current s) a e' \<and> user_vaddr e' = user_vaddr e \<and> page_writable e' = page_writable e \<and> entry_map s' (current s) e' = Some w)"
      by auto
    show ?thesis
    proof (cases out)
      case Leave
      then show ?thesis using access_fault [OF at pf(1)] pf by auto
    next
      case (Ret u)
      then obtain e' w where e': "running s'" "entry s' (current s') a e'" "user_vaddr e' = pg_round_down va" "entry_map s' (current s') e' = Some w" "\<not> page_writable e'"
        "\<not> is_exited (thread_current s')" using pf(5,7) e(2,3) ex by auto
      from here [OF e'] show ?thesis using access_fault [OF at pf(1)] Ret same_view_trans [OF pf(3) _ pf(4)] by auto
    qed
  qed
qed

text \<open>The kernel's pages are not for user programs: \<open>paging_init\<close> maps them without the user bit.\<close>

definition kernel_private :: "kstate \<Rightarrow> bool" where
  "kernel_private s \<longleftrightarrow> (\<forall>va w. is_kernel_vaddr va \<and> page_map (mem s) (pagedir (threads s (current s))) va = Some w \<longrightarrow> w AND PTE_U = 0)"

lemma outside_exit:
  assumes rd: "ready ist f s" and ex: "\<not> is_exited (thread_current s)" and kp: "kernel_private s"
    and out: "is_user_vaddr va \<longrightarrow> user_byte s (current s) va = None \<and> (unat (PHYS_BASE - pg_round_down va) > LIMIT \<or> va < esp f - SIZE)"
  shows "access_byte wr True ist f va s = map_option (\<lambda>(_, s'). (Leave, s')) (sys_exit (- 1) (s\<lparr>page_fault_cnt := page_fault_cnt s + 1\<rparr>))"
proof -
  have run: "running s" using rd by (simp add: ready_def)
  have at: "\<exists>code. attempt wr True va s = Some (Inl code) \<and> (is_user_vaddr va \<longrightarrow> code AND PF_P = 0)
      \<and> (\<not> is_user_vaddr va \<longrightarrow> True)"
  proof (cases "page_map (mem s) (pagedir (threads s (current s))) va")
    case None
    then show ?thesis using attempt_absent [OF run] fault_code_P(1) by auto
  next
    case (Some w)
    have "\<not> is_user_vaddr va"
    proof
      assume va: "is_user_vaddr va"
      then have "\<exists>a e. entry s (current s) a e \<and> user_vaddr e = pg_round_down va"
        using table_invD(8) [OF vm_invD(4)] run Some by (auto simp: running_def)
      moreover have "user_byte s (current s) va = None" using out va by simp
      ultimately show False using no_byte [OF run _ va] by simp
    qed
    then have "w AND PTE_U = 0" using kp Some by (auto simp: kernel_private_def user_kernel)
    then show ?thesis using Some run \<open>\<not> is_user_vaddr va\<close> by (simp add: attempt_def running_def)
  qed
  then obtain code where code: "attempt wr True va s = Some (Inl code)" by blast
  have "page_fault ist va (f\<lparr>error_code := code, vec_no := 14\<rparr>) s = sys_exit (- 1) (s\<lparr>page_fault_cnt := page_fault_cnt s + 1\<rparr>)"
    by (rule fault_exit) (use run out no_byte [OF run] in auto)
  from access_exit [OF code this] ex show ?thesis by (simp add: thread_current_def)
qed

section \<open>Properties\<close>

text \<open>C38. User memory is a flat array of bytes. Whether a page is in a frame, on the swap device or still in its
  file, a load of the running program returns the byte of its memory at the address and changes no byte of
  any process; a store to a writable page changes exactly that byte of that process. Page faults,
  evictions, swapping in and reading from the file in between are invisible. The only other outcome is that the kernel
  ends the program because no kernel page is left for a page table, and then too no byte has changed.\<close>

theorem user_memory_flat:
  assumes "ready ist f s" and "user_byte s (current s) va = Some b0"
  shows "(\<exists>out s'. load_byte True ist f va s = Some (out, s') \<and> vm_inv s'
       \<and> (\<forall>q \<in> live s. \<forall>x. user_byte s' q x = user_byte s q x) \<and> (out = Ret b0 \<and> running s' \<or> out = Leave \<and> kernel_full (mem s')))
     \<and> (user_writable s (current s) va \<longrightarrow> (\<exists>out s'. store_byte True ist f va b s = Some (out, s') \<and> vm_inv s'
       \<and> (out = Ret b \<and> running s' \<and> (\<forall>q \<in> live s. \<forall>x. user_byte s' q x = (if q = current s \<and> x = va then Some b else user_byte s q x))
          \<or> out = Leave \<and> kernel_full (mem s') \<and> (\<forall>q \<in> live s. \<forall>x. user_byte s' q x = user_byte s q x))))"
proof (intro conjI impI)
  have run: "running s" using assms(1) by (simp add: ready_def)
  from byte_entry [OF run assms(2)] obtain a e where e: "entry s (current s) a e" "user_vaddr e = pg_round_down va" "is_user_vaddr va"
    "b0 = page_view s (current s) e ! unat (pg_ofs va)" by blast
  show "\<exists>out s'. load_byte True ist f va s = Some (out, s') \<and> vm_inv s'
       \<and> (\<forall>q \<in> live s. \<forall>x. user_byte s' q x = user_byte s q x) \<and> (out = Ret b0 \<and> running s' \<or> out = Leave \<and> kernel_full (mem s'))"
  proof -
    obtain out s' where "access_byte None True ist f va s = Some (out, s')" "vm_inv s'" "same_view s s'" "out = Ret b0 \<and> running s' \<or> out = Leave \<and> kernel_full (mem s')"
      using load_known [OF assms(1) e(3,1,2)] e(4) by auto
    then show ?thesis using same_view_byte [of s s'] unfolding load_byte_def by (intro exI [of _ out] exI [of _ s']) blast
  qed
  assume "user_writable s (current s) va"
  then obtain a' e' where e': "entry s (current s) a' e'" "user_vaddr e' = pg_round_down va" "page_writable e'" by (auto simp: user_writable_def)
  from store_known [OF assms(1) e(3) e', of b] show "\<exists>out s'. store_byte True ist f va b s = Some (out, s') \<and> vm_inv s'
       \<and> (out = Ret b \<and> running s' \<and> (\<forall>q \<in> live s. \<forall>x. user_byte s' q x = (if q = current s \<and> x = va then Some b else user_byte s q x))
          \<or> out = Leave \<and> kernel_full (mem s') \<and> (\<forall>q \<in> live s. \<forall>x. user_byte s' q x = user_byte s q x))"
    unfolding store_byte_def using same_view_byte by (elim ex_forward conj_forward) (auto simp: same_view_byte)
qed

text \<open>C39. Memory protection. A store by a user program to a read-only page, to an address that is not part of
  its memory and not next to its stack, or to a kernel address never takes place: the program ends with exit status -1 (or,
  when kernel memory is exhausted, is killed), in a state in which no byte of any process has changed.\<close>

theorem user_memory_protected:
  assumes "ready ist f s" and "\<not> is_exited (thread_current s)" and "kernel_private s" and "\<not> user_writable s (current s) va"
    and "is_user_vaddr va \<and> user_byte s (current s) va = None \<longrightarrow> unat (PHYS_BASE - pg_round_down va) > LIMIT \<or> va < esp f - SIZE"
  shows "\<exists>s1. vm_inv s1 \<and> (\<forall>q \<in> live s. \<forall>x. user_byte s1 q x = user_byte s q x)
     \<and> (store_byte True ist f va b s = Some (Leave, s1) \<and> kernel_full (mem s1)
        \<or> store_byte True ist f va b s = map_option (\<lambda>(_, s'). (Leave, s')) (sys_exit (- 1) s1))"
proof -
  have run: "running s" and inv: "vm_inv s" using assms(1) by (simp_all add: ready_def running_def)
  show ?thesis
  proof (cases "is_user_vaddr va \<and> user_byte s (current s) va \<noteq> None")
    case True
    then obtain b0 where "user_byte s (current s) va = Some b0" by blast
    from byte_entry [OF run this] obtain a e where e: "entry s (current s) a e" "user_vaddr e = pg_round_down va" "is_user_vaddr va" by blast
    then have "\<not> page_writable e" using assms(4) by (auto simp: user_writable_def)
    from store_readonly [OF assms(1) e(3,1,2) this assms(2), of b] show ?thesis
      unfolding store_byte_def by (elim ex_forward conj_forward) (auto simp: same_view_byte)
  next
    case False
    let ?s = "s\<lparr>page_fault_cnt := page_fault_cnt s + 1\<rparr>"
    have "vm_inv ?s" "same_view s ?s" by (rule calm_other [OF inv]; simp add: same_tables_def)+
    moreover have "store_byte True ist f va b s = map_option (\<lambda>(_, s'). (Leave, s')) (sys_exit (- 1) ?s)"
      unfolding store_byte_def by (rule outside_exit [OF assms(1-3)]) (use False assms(5) in auto)
    ultimately show ?thesis using same_view_byte by blast
  qed
qed

text \<open>C40. The stack grows on demand. A store to an address of no page, at most 32 bytes below the stack pointer and
  within 8 MB of the top of user memory, creates the page: afterwards the byte has been stored, the page
  is writable memory of the process, and every byte outside it is as before, in every process; or kernel memory is
  exhausted, the program is killed and no byte has changed.\<close>

theorem stack_growth:
  assumes "ready ist f s" and "is_user_vaddr va" and "user_byte s (current s) va = None"
    and "unat (PHYS_BASE - pg_round_down va) \<le> LIMIT" and "va \<ge> esp f - SIZE"
  shows "\<exists>out s'. store_byte True ist f va b s = Some (out, s') \<and> vm_inv s'
     \<and> (out = Ret b \<and> running s' \<and> user_writable s' (current s) va \<and> user_byte s' (current s) va = Some b
          \<and> (\<forall>x. pg_round_down x = pg_round_down va \<longrightarrow> user_byte s' (current s) x \<noteq> None)
          \<and> (\<forall>q \<in> live s. \<forall>x. q \<noteq> current s \<or> pg_round_down x \<noteq> pg_round_down va \<longrightarrow> user_byte s' q x = user_byte s q x)
        \<or> out = Leave \<and> kernel_full (mem s') \<and> (\<forall>q \<in> live s. \<forall>x. user_byte s' q x = user_byte s q x))"
proof -
  have run: "running s" and pr: "room s" "printable s" "names_ok ist" "unat (cs f) = SEL_UCSEG" using assms(1) by (auto simp: ready_def)
  note new = no_byte [OF run assms(3,2)]
  have un: "page_map (mem s) (pagedir (threads s (current s))) va = None"
  proof (rule ccontr)
    assume "page_map (mem s) (pagedir (threads s (current s))) va \<noteq> None"
    then show False using new table_invD(8) [OF vm_invD(4)] run assms(2) unfolding running_def by blast
  qed
  let ?f = "f\<lparr>error_code := fault_code False True True, vec_no := 14\<rparr>"
  have at: "attempt (Some b) True va s = Some (Inl (fault_code False True True))" using attempt_absent [OF run un] by simp
  have fp: "unat (vec_no ?f) < 256" "unat (cs ?f) = SEL_UCSEG" "error_code ?f AND PF_P = 0" "va \<ge> esp ?f - SIZE"
    using pr(4) fault_code_P(1) assms(5) by simp_all
  from fault_new [OF run pr(1-3) fp(1-3) assms(2) new assms(4) fp(4)] obtain out s' where
    pf: "page_fault ist va ?f s = Some (out, s')" "vm_inv s'" "live s' = live s" "current s' = current s" "out = Leave \<longrightarrow> kernel_full (mem s') \<and> same_view s s'"
    and rt: "out = Ret () \<longrightarrow> running s' \<and> (\<exists>bs. length bs = PGSIZE
          \<and> (\<forall>q \<in> live s. \<forall>x. user_page s' q x = (if q = current s \<and> x = pg_round_down va then Some bs else user_page s q x)))
        \<and> (\<exists>a e w. entry s' (current s) a e \<and> user_vaddr e = pg_round_down va \<and> page_writable e \<and> entry_map s' (current s) e = Some w)"
    by blast
  show ?thesis
  proof (cases out)
    case Leave
    then show ?thesis using access_fault [OF at pf(1)] pf same_view_byte unfolding store_byte_def by fastforce
  next
    case (Ret u)
    then obtain bs a e w where bs: "\<forall>q \<in> live s. \<forall>x. user_page s' q x = (if q = current s \<and> x = pg_round_down va then Some bs else user_page s q x)"
      and e: "running s'" "entry s' (current s') a e" "user_vaddr e = pg_round_down va" "entry_map s' (current s') e = Some w" "page_writable e"
      using rt pf(4) by auto
    from store_here [OF e(1) assms(2) e(2-5), of b ist f] obtain t m where t: "access_byte (Some b) True ist f va s' = Some (Ret b, t)" "running t" "t = s'\<lparr>mem := m\<rparr>"
      "\<forall>q \<in> live s'. \<forall>x. user_byte t q x = (if q = current s' \<and> x = va then Some b else user_byte s' q x)" by blast
    have cl: "current s \<in> live s" using run by (simp add: running_def)
    have ub: "user_byte t q x = (if q = current s \<and> x = va then Some b else if q = current s \<and> pg_round_down x = pg_round_down va
        then Some (bs ! unat (pg_ofs x)) else user_byte s q x)" if "q \<in> live s" for q x
    proof -
      have "is_user_vaddr x" if "pg_round_down x = pg_round_down va" using assms(2) that pg_round_down_user [of x] pg_round_down_user [of va] by simp
      then have "user_byte s' q x = (if q = current s \<and> pg_round_down x = pg_round_down va then Some (bs ! unat (pg_ofs x)) else user_byte s q x)"
        using bs that by (auto simp: user_byte_def)
      moreover have "user_byte t q x = (if q = current s \<and> x = va then Some b else user_byte s' q x)" using t(4) that pf(3,4) by simp
      ultimately show ?thesis by auto
    qed
    have "user_writable t (current s) va" using e pf(4) unfolding user_writable_def t(3) entry_def live_def by auto
    then show ?thesis
      using access_fault [OF at pf(1)] Ret t(1,2) ub cl unfolding store_byte_def
      by (intro exI [of _ "Ret b"] exI [of _ t]) (simp add: running_def)
  qed
qed

section \<open>A kernel with one process\<close>

text \<open>The program has a read-only page at \<open>0x8048000\<close>, still in its file, and a writable page of zeros at \<open>0x8049000\<close>.\<close>

definition demo_text :: spte where
  "demo_text = \<lparr>user_vaddr = 0x8048000, read_bytes = 600, zero_bytes = 3496, is_swapped = False, spt_file = Some 5, spt_offset = 0,
     page_writable = False, loaded = False, file_type = TYPE_FILE, map_id = 0, swap_num = 0\<rparr>"

definition demo_bss :: spte where
  "demo_bss = \<lparr>user_vaddr = 0x8049000, read_bytes = 0, zero_bytes = PGSIZE, is_swapped = False, spt_file = None, spt_offset = 0,
     page_writable = True, loaded = False, file_type = TYPE_FILE, map_id = 0, swap_num = 0\<rparr>"

definition demo_thread :: thread where
  "demo_thread = \<lparr>tid = 3, thread_name = lit ''demo'', pagedir = 0xc0101000, fd_vld = 3, main_file = None, sema_load = 0, sema_wait = 0, sema_exited = 0,
     th_parent = 0, list_children = [], is_exited = False, exit_status = 0, is_loaded = True, sup_page_table = [1, 2], list_mmap = [],
     next_map_id = 0, list_file = [], current_dir = None\<rparr>"

definition demo_kstate :: kstate where
  "demo_kstate = \<lparr>mem = demo_vmem\<lparr>cr3 := 0x101000\<rparr>, swap = demo_swap, files = demo_fsys, frame_table = [], lock_frame = False,
     sptes = [1 \<mapsto> demo_text, 2 \<mapsto> demo_bss], next_spte = 3, fresh_spte = (\<lambda>_. demo_bss),
     threads = (\<lambda>p. if p = 1 then demo_thread else demo_thread\<lparr>pagedir := 0, sup_page_table := []\<rparr>), current = 1, page_fault_cnt = 0,
     console = \<lparr>console_lock = None, use_console_lock = True, console_lock_depth = 0, write_cnt = 0, printed = []\<rparr>, keys = [], segs = demo_segs\<rparr>"

lemma demo_mem: "vm_ok (mem demo_kstate) {0xc0101000}" "active_pd (mem demo_kstate) = Some 0xc0101000"
    "is_user_vaddr va \<Longrightarrow> page_map (mem demo_kstate) pd va = None"
proof -
  have e: "ent (demo_vmem\<lparr>cr3 := c\<rparr>) = ent demo_vmem" for c by (simp add: ent_def fun_eq_iff)
  have pm: "page_map (demo_vmem\<lparr>cr3 := c\<rparr>) = page_map demo_vmem" for c by (simp add: page_map_def pte_def pt_of_def e fun_eq_iff)
  have "dirs_ok (demo_vmem\<lparr>cr3 := c\<rparr>) D = dirs_ok demo_vmem D" for c D
    by (simp add: dirs_ok_def kused_def slots_def slot_ok_def pt_of_def e)
  then show "vm_ok (mem demo_kstate) {0xc0101000}" using demo_vm_ok by (simp add: demo_kstate_def vm_ok_def tlb_ok_def) (simp add: demo_vmem_def)
  show "active_pd (mem demo_kstate) = Some 0xc0101000" by (simp add: demo_kstate_def active_pd_def ptov_def PHYS_BASE_def)
  show "page_map (mem demo_kstate) pd va = None" if "is_user_vaddr va" using demo_unmapped [OF that] by (simp add: demo_kstate_def pm)
qed

lemma demo_live: "live demo_kstate = {1}" "dirs demo_kstate = {0xc0101000}"
  by (auto simp: live_def dirs_def demo_kstate_def demo_thread_def)

lemma demo_entry: "entry demo_kstate p a e \<longleftrightarrow> p = 1 \<and> (a = 1 \<and> e = demo_text \<or> a = 2 \<and> e = demo_bss)"
  by (auto simp: entry_def demo_live) (auto simp: demo_kstate_def demo_thread_def)

lemma demo_entry_map: "entry demo_kstate p a e \<Longrightarrow> entry_map demo_kstate p e = None"
  unfolding entry_map_def by (rule demo_mem(3)) (auto simp: demo_entry demo_text_def demo_bss_def is_user_vaddr_def PHYS_BASE_def)

lemma demo_inv: "vm_inv demo_kstate"
proof -
  have fl: "files demo_kstate = demo_fsys" "swap demo_kstate = demo_swap" "frame_table demo_kstate = []" "phys (mem demo_kstate) = phys demo_vmem"
    "ram_pages (mem demo_kstate) = 1024" by (simp_all add: demo_kstate_def demo_vmem_def)
  have "\<forall>a \<in> pool_pages (user_pool (phys demo_vmem)). drop_bit PTSHIFT (a - PHYS_BASE) < 1024"
  proof -
    have "{..<2 :: nat} = {0, 1}" by auto
    then show ?thesis by (simp add: demo_vmem_def demo_pool_def pool_pages_def page_at_def PHYS_BASE_def PTSHIFT_def PGBITS_def)
  qed
  then have mi: "mem_inv demo_kstate" using demo_mem(1,2) by (simp add: mem_inv_def demo_live fl)
  have "spte_ok demo_kstate p e" if "entry demo_kstate p a e" for p a e
  proof -
    have "file_ok demo_kstate demo_text" "file_ok demo_kstate demo_bss"
      using demo_fsys(2,3) by (auto simp: file_ok_def demo_text_def demo_bss_def fl PGSIZE_def demo_inode_def)
    then show ?thesis using demo_entry_map [OF that] that
      by (auto simp: spte_ok_def demo_entry demo_text_def demo_bss_def is_user_vaddr_def PHYS_BASE_def pg_ofs_def PGMASK_def)
  qed
  moreover have va: "user_vaddr demo_text \<noteq> user_vaddr demo_bss" "\<not> is_swapped demo_text" "\<not> is_swapped demo_bss"
    by (simp_all add: demo_text_def demo_bss_def)
  moreover have "next_spte demo_kstate = 3" "sptes demo_kstate = [1 \<mapsto> demo_text, 2 \<mapsto> demo_bss]" "sup_page_table (threads demo_kstate 1) = [1, 2]"
    by (simp_all add: demo_kstate_def demo_thread_def)
  ultimately have "table_inv demo_kstate"
    unfolding table_inv_def demo_live using demo_mem(3) by (intro conjI allI impI ballI) (auto simp: demo_entry split: if_splits)
  moreover have "frames_inv demo_kstate" using demo_entry_map by (auto simp: frames_inv_def fl)
  ultimately show ?thesis using mi demo_swap_inv(1) demo_fsys(1) by (simp add: vm_inv_def fl)
qed

definition demo_frame :: intr_frame where
  "demo_frame = \<lparr>edi = 0, esi = 0, ebp = 0, esp_dummy = 0, ebx = 0, edx = 0, ecx = 0, eax = 0, gs = 0x23, fs_seg = 0x23, es = 0x23, ds = 0x23,
     vec_no = 14, error_code = 0, frame_pointer = 0, eip = 0x8048000, cs = 0x1b, eflags = FLAG_IF, esp = 0xbffff000, ss = 0x23\<rparr>"

definition demo_names :: "handler intr_state" where
  "demo_names = demo_intr\<lparr>intr_names := replicate 256 (lit ''interrupt'')\<rparr>"

lemma demo_ready: "ready demo_names demo_frame demo_kstate"
proof -
  have "\<not> users_full (mem demo_kstate)"
  proof -
    have "page_at 0xc0200000 1 \<in> pool_pages (user_pool (phys demo_vmem))" by (auto simp: demo_vmem_def demo_pool_def pool_pages_def)
    moreover have "page_at 0xc0200000 1 \<notin> used_pages (user_pool (phys demo_vmem))"
    proof -
      have "page_at 0xc0200000 1 \<noteq> page_at 0xc0200000 0" by (simp add: page_at_def)
      then show ?thesis by (auto simp: demo_vmem_def demo_pool_def used_pages_def bit_at_def less_Suc_eq numeral_2_eq_2)
    qed
    ultimately show ?thesis by (auto simp: users_full_def uused_def demo_kstate_def)
  qed
  moreover have "printable demo_kstate"
    by (auto simp: printable_def console_ok_def demo_kstate_def thread_current_def demo_thread_def intro!: exI [of _ "map of_char ''demo''"] lit_cstr)
  moreover have "names_ok demo_names"
    by (auto simp: names_ok_def demo_names_def demo_intr_def intr_context_def intro!: exI [of _ "map of_char ''interrupt''"] lit_cstr)
  moreover have "\<not> lock_frame demo_kstate" "current demo_kstate = 1" "pagedir (threads demo_kstate 1) = 0xc0101000" "swap demo_kstate = demo_swap"
    by (simp_all add: demo_kstate_def demo_thread_def)
  ultimately show ?thesis
    using demo_inv demo_mem(2) demo_swap_inv(2) by (simp add: ready_def running_def room_def demo_live demo_frame_def SEL_UCSEG_def)
qed

lemma demo_page: "user_page demo_kstate 1 0x8049000 = Some (replicate PGSIZE 0)"
proof -
  have e: "entry demo_kstate 1 2 demo_bss" by (simp add: demo_entry)
  have "page_view demo_kstate 1 demo_bss = replicate PGSIZE 0"
    using demo_entry_map [OF e] by (simp add: page_view_def demo_bss_def file_page_def split: option.splits)
  then show ?thesis using user_page_entry [OF demo_inv e] by (simp add: demo_bss_def)
qed

lemma demo_round: "pg_round_down 0x8049004 = 0x8049000" "pg_round_down 0x8048010 = 0x8048000" "pg_round_down 0xbfffeff0 = 0xbfffe000" "unat (pg_ofs 0x8049004) = 4"
  "is_user_vaddr 0x8049004" "is_user_vaddr 0x8048010" "is_user_vaddr 0xbfffeff0"
  by (simp_all add: pg_round_down_def PGMASK_def pg_ofs_def is_user_vaddr_def PHYS_BASE_def)

lemma demo_byte: "user_byte demo_kstate 1 0x8049004 = Some 0"
  using demo_page by (simp add: user_byte_def demo_round PGSIZE_def)

lemma demo_current: "current demo_kstate = 1"
  by (simp add: demo_kstate_def)

theorem user_memory_flat_witness:
  "\<exists>out s'. store_byte True demo_names demo_frame 0x8049004 7 demo_kstate = Some (out, s') \<and> vm_inv s'"
proof -
  have "user_writable demo_kstate (current demo_kstate) 0x8049004"
    unfolding user_writable_def by (intro exI [of _ 2] exI [of _ demo_bss]) (simp add: demo_entry demo_current demo_round, simp add: demo_bss_def)
  then show ?thesis using user_memory_flat [OF demo_ready, of "0x8049004" 0 7] demo_byte demo_current by auto
qed

theorem user_memory_protected_witness:
  "\<exists>s1. vm_inv s1 \<and> user_byte s1 1 0x8049004 = Some 0
     \<and> (store_byte True demo_names demo_frame 0x8048010 7 demo_kstate = Some (Leave, s1) \<and> kernel_full (mem s1)
        \<or> store_byte True demo_names demo_frame 0x8048010 7 demo_kstate = map_option (\<lambda>(_, s'). (Leave, s')) (sys_exit (- 1) s1))"
proof -
  have uw: "\<not> user_writable demo_kstate (current demo_kstate) 0x8048010"
    by (auto simp: user_writable_def demo_entry demo_current demo_round) (auto simp: demo_text_def demo_bss_def)
  have ex: "\<not> is_exited (thread_current demo_kstate)" by (simp add: thread_current_def demo_kstate_def demo_thread_def)
  have kp: "kernel_private demo_kstate"
  proof -
    have "page_map (mem demo_kstate) pd va = None" for pd va
    proof -
      have "unat (pd_no va) < 1024" using unat_pd_no [of va] unsigned_less [of va] by (simp add: div_less_iff_less_mult)
      then show ?thesis using demo_ent [of "unat (pd_no va)" pd] by (simp add: page_map_def pte_def demo_kstate_def ent_def)
    qed
    then show ?thesis by (simp add: kernel_private_def)
  qed
  have "user_byte demo_kstate (current demo_kstate) 0x8048010 \<noteq> None"
  proof -
    have e: "entry demo_kstate 1 1 demo_text" by (simp add: demo_entry)
    show ?thesis using user_page_entry [OF demo_inv e] by (simp add: user_byte_def demo_round demo_current demo_text_def)
  qed
  then have "is_user_vaddr 0x8048010 \<and> user_byte demo_kstate (current demo_kstate) 0x8048010 = None
      \<longrightarrow> unat (PHYS_BASE - pg_round_down 0x8048010) > LIMIT \<or> 0x8048010 < esp demo_frame - SIZE" by blast
  from user_memory_protected [OF demo_ready ex kp uw this, of 7] obtain s1 where s1: "vm_inv s1" "\<forall>q \<in> live demo_kstate. \<forall>x. user_byte s1 q x = user_byte demo_kstate q x"
    and out: "store_byte True demo_names demo_frame 0x8048010 7 demo_kstate = Some (Leave, s1) \<and> kernel_full (mem s1)
        \<or> store_byte True demo_names demo_frame 0x8048010 7 demo_kstate = map_option (\<lambda>(_, s'). (Leave, s')) (sys_exit (- 1) s1)"
    by blast
  have "user_byte s1 1 0x8049004 = Some 0" using s1(2) demo_byte demo_live(1) by simp
  with s1(1) out show ?thesis by blast
qed

theorem stack_growth_witness:
  "\<exists>out s'. store_byte True demo_names demo_frame 0xbfffeff0 7 demo_kstate = Some (out, s') \<and> vm_inv s'"
proof -
  have "\<nexists>a e. entry demo_kstate 1 a e \<and> user_vaddr e = 0xbfffe000" by (auto simp: demo_entry demo_text_def demo_bss_def)
  then have "user_byte demo_kstate (current demo_kstate) 0xbfffeff0 = None"
    using user_page_None [OF demo_inv, of 1 "0xbfffe000"] by (simp add: user_byte_def demo_round demo_current demo_live)
  moreover have "unat (PHYS_BASE - pg_round_down 0xbfffeff0) \<le> LIMIT" "0xbfffeff0 \<ge> esp demo_frame - SIZE"
    by (simp_all add: demo_round PHYS_BASE_def LIMIT_def demo_frame_def SIZE_def)
  ultimately show ?thesis using stack_growth [OF demo_ready demo_round(7), of 7] by auto
qed

end
