(* ===== verification/Spec2Isabelle.thy ===== *)
theory Spec2Isabelle
  imports Filesys Swap Synch Klist Hash Arith64 Stdio Exception
begin

text \<open>
  A verification library for the Pintos instructional kernel.
\<close>

end
